(* ===== verification/Prelude.thy ===== *)
theory Prelude
  imports Main "HOL-Library.Word" "HOL-Library.Monad_Syntax"
begin

text \<open>
  What every component of the kernel model shares: the machine types of
  \<^verbatim>\<open>kernel/types.h\<close>, the constants of \<^verbatim>\<open>arch/mm/config.h\<close>, the page arithmetic they
  stand for, the result type of an operation and the loops over the pages of a region.

  An operation of the kernel is a function from its arguments and the state to
  \<open>('r \<times> 's) option\<close>.  \<^term>\<open>None\<close> is "control never comes back": \<^verbatim>\<open>panic()\<close> ends in
  \<^verbatim>\<open>while (1) ;\<close>, an access through NULL raises a page fault whose handler panics, and a
  loop over a cyclic list does not end.  Error codes the code returns are values of the result.
\<close>

unbundle bit_operations_syntax

section \<open>Collections of facts\<close>

named_theorems page_simps \<open>page rounding and page offsets, read as arithmetic\<close>
named_theorems frame_simps \<open>what an operation leaves unchanged\<close>
named_theorems op_simps \<open>results of operations under their invariant\<close>

section \<open>Machine types\<close>

type_synonym u8 = "8 word"
type_synonym u16 = "16 word"
type_synonym u32 = "32 word"
type_synonym u64 = "64 word"
type_synonym ptr = "64 word"

abbreviation (input) NULL :: ptr where
  "NULL \<equiv> 0"

section \<open>Memory layout constants\<close>

abbreviation (input) PAGE_SIZE :: u64 where
  "PAGE_SIZE \<equiv> 0x1000"

abbreviation (input) PAGE_MASK :: u64 where
  "PAGE_MASK \<equiv> NOT 0xfff"

abbreviation (input) PHYS_MAP_BASE :: u64 where
  "PHYS_MAP_BASE \<equiv> 0xffff800000000000"

abbreviation (input) PHYS_MAP_SIZE :: u64 where
  "PHYS_MAP_SIZE \<equiv> 0x00007fff80000000"

abbreviation (input) USER_REGION_BASE :: u64 where
  "USER_REGION_BASE \<equiv> 0"

abbreviation (input) USER_REGION_SIZE :: u64 where
  "USER_REGION_SIZE \<equiv> 0x0000800000000000"

abbreviation (input) MODULE_MAP_BASE :: u64 where
  "MODULE_MAP_BASE \<equiv> 0xffffffffc0000000"

definition PAGE_ALIGN :: "u64 \<Rightarrow> u64" where
  "PAGE_ALIGN a = (a + PAGE_SIZE - 1) AND PAGE_MASK"

text \<open>A page-aligned address, as the code tests it: \<^verbatim>\<open>(p & ~PAGE_MASK) == 0\<close>.\<close>

definition page_aligned :: "u64 \<Rightarrow> bool" where
  "page_aligned a \<longleftrightarrow> a AND NOT PAGE_MASK = 0"

section \<open>Page arithmetic\<close>

lemma and_fff_take_bit: "(x::u64) AND 0xfff = take_bit 12 x"
  by (simp add: take_bit_eq_mask mask_eq_exp_minus_1)

lemma unat_and_fff [page_simps]: "unat ((x::u64) AND 0xfff) = unat x mod 4096"
  by (simp only: and_fff_take_bit unsigned_take_bit_eq) (simp add: take_bit_eq_mod)

lemma and_fff_le [page_simps]: "(x::u64) AND 0xfff \<le> 0xfff"
  by (rule word_and_le1)

text \<open>The simplifier writes \<^verbatim>\<open>~0xfff\<close> as \<open>- 0x1000\<close>; the rules below use its form.\<close>

lemma page_base_plus_off: "((x::u64) AND - 0x1000) + (x AND 0xfff) = x"
proof -
  have "(- 0x1000 :: u64) = NOT 0xfff" by simp
  then have "(x AND - 0x1000) + (x AND 0xfff) = (x AND NOT 0xfff) OR (x AND 0xfff)"
    by (simp only: disjunctive_add_eq_or bit_and_iff bit_not_iff) (rule disjunctive_add_eq_or,
        auto simp: bit_eq_iff bit_simps)
  also have "\<dots> = x" by (auto simp only: bit_eq_iff bit_simps)
  finally show ?thesis .
qed

lemma page_base_eq: "(x::u64) AND - 0x1000 = x - (x AND 0xfff)"
  using page_base_plus_off [of x] by (simp add: eq_diff_eq)

lemma page_aligned_iff: "page_aligned a \<longleftrightarrow> a AND 0xfff = 0"
  by (simp add: page_aligned_def)

lemma page_aligned_mod: "page_aligned a \<longleftrightarrow> unat a mod 4096 = 0"
  by (simp add: page_aligned_iff unat_eq_0 flip: unat_and_fff)

lemma page_aligned_mask: "page_aligned a \<longleftrightarrow> a AND - 0x1000 = a"
  using page_base_plus_off [of a] by (auto simp: page_aligned_iff page_base_eq)

lemma page_aligned_0 [simp]: "page_aligned 0"
  by (simp add: page_aligned_def)

lemma unat_page_base [page_simps]: "unat ((x::u64) AND - 0x1000) = unat x - unat x mod 4096"
proof -
  have "x AND 0xfff \<le> x" by (rule word_and_le2)
  then show ?thesis
    by (simp only: page_base_eq unat_sub unat_and_fff)
qed

lemma page_base_aligned [simp]: "page_aligned (x AND - 0x1000)"
  by (simp add: page_aligned_mod unat_page_base minus_mod_eq_mult_div)

lemma page_aligned_add: "page_aligned a \<Longrightarrow> page_aligned b \<Longrightarrow> page_aligned (a + b)"
proof -
  assume a: "page_aligned a" and b: "page_aligned b"
  have "(4096::nat) dvd 2 ^ 64" by simp
  then have "(unat a + unat b) mod 2 ^ 64 mod 4096 = (unat a + unat b) mod 4096"
    by (rule mod_mod_cancel)
  with a b show ?thesis
    by (simp add: page_aligned_mod unat_word_ariths mod_add_eq [of "unat a" 4096 "unat b", symmetric])
qed

lemma page_room:
  assumes "page_aligned p"
  shows "unat p + 4096 \<le> 2 ^ 64"
proof -
  obtain k where "unat p = 4096 * k"
    using assms by (auto simp: page_aligned_mod simp flip: dvd_eq_mod_eq_0 elim: dvdE)
  moreover have "unat p < 2 ^ 64" using unsigned_less [of p] by simp
  ultimately show ?thesis by simp
qed

lemma unat_page_offset:
  assumes "page_aligned p" and "unat (off::u64) < 4096"
  shows "unat (p + off) = unat p + unat off"
  using page_room [OF assms(1)] assms(2) by (simp add: unat_word_ariths)

text \<open>The page an address inside a page belongs to.\<close>

lemma page_base_of_offset:
  assumes "page_aligned p" and "unat (off::u64) < 4096"
  shows "(p + off) AND - 0x1000 = p"
proof -
  have "unat p mod 4096 = 0" using assms(1) by (simp add: page_aligned_mod)
  then have "unat ((p + off) AND - 0x1000) = unat p"
    using assms(2) by (simp add: unat_page_base unat_page_offset [OF assms] mod_add_eq [of "unat p" 4096 "unat off", symmetric])
  then show ?thesis by (simp add: word_unat_eq_iff)
qed

section \<open>Loops over the pages of a region\<close>

text \<open>
  \<^verbatim>\<open>for (size_t i = 0; i < sz; i += PAGE_SIZE) body(i)\<close>, where the body may leave the loop
  (\<^verbatim>\<open>goto err\<close>, the flag \<^term>\<open>False\<close>) or not come back (\<^term>\<open>None\<close>).  The counter is a 64-bit
  word and wraps as it does in C, so the loop is partial.
\<close>

partial_function (option) for_pages ::
  "(u64 \<Rightarrow> 's \<Rightarrow> (bool \<times> 's) option) \<Rightarrow> u64 \<Rightarrow> u64 \<Rightarrow> 's \<Rightarrow> (bool \<times> 's) option" where
  "for_pages f sz i s =
     (if i < sz
      then Option.bind (f i s)
             (\<lambda>(ok, s'). if ok then for_pages f sz (i + PAGE_SIZE) s' else Some (False, s'))
      else Some (True, s))"

lemma for_pages_done [simp]: "\<not> i < sz \<Longrightarrow> for_pages f sz i s = Some (True, s)"
  by (subst for_pages.simps) simp

lemma for_pages_step:
  "i < sz \<Longrightarrow> for_pages f sz i s =
     Option.bind (f i s) (\<lambda>(ok, s'). if ok then for_pages f sz (i + PAGE_SIZE) s' else Some (False, s'))"
  by (subst for_pages.simps) simp

text \<open>
  Total correctness of the loop over the pages of a page-aligned region, by the number of pages
  done: the invariant \<open>I\<close> is indexed by that number.
\<close>

lemma of_nat_page_less:
  assumes "n < 2 ^ 52" and "k < n"
  shows "(of_nat k * PAGE_SIZE < (of_nat n * PAGE_SIZE :: u64))"
    and "unat (of_nat k * PAGE_SIZE :: u64) = k * 4096"
proof -
  have u: "unat (of_nat j * PAGE_SIZE :: u64) = j * 4096" if "j \<le> n" for j
  proof -
    have "j * 4096 < 2 ^ 64" using that assms(1) by simp
    then have "unat (of_nat (j * 4096) :: u64) = j * 4096"
      by (simp only: unat_of_nat) simp
    then show ?thesis by simp
  qed
  show "unat (of_nat k * PAGE_SIZE :: u64) = k * 4096" using u assms(2) by simp
  show "(of_nat k * PAGE_SIZE < (of_nat n * PAGE_SIZE :: u64))"
    using assms(2) by (simp add: word_less_nat_alt u)
qed

lemma for_pages_total_aux:
  assumes n: "n < 2 ^ 52"
    and step: "\<And>k s. k < n \<Longrightarrow> I k s \<Longrightarrow>
       \<exists>ok s'. f (of_nat k * PAGE_SIZE) s = Some (ok, s') \<and> (if ok then I (Suc k) s' else E s')"
  shows "k \<le> n \<Longrightarrow> I k s \<Longrightarrow>
     \<exists>ok s'. for_pages f (of_nat n * PAGE_SIZE) (of_nat k * PAGE_SIZE) s = Some (ok, s')
       \<and> (if ok then I n s' else E s')"
proof (induction "n - k" arbitrary: k s)
  case 0
  then have "k = n" by simp
  with 0 show ?case by (intro exI [of _ True] exI [of _ s]) simp
next
  case (Suc d)
  then have k: "k < n" by simp
  obtain ok s' where f: "f (of_nat k * PAGE_SIZE) s = Some (ok, s')"
    and post: "if ok then I (Suc k) s' else E s'" using step [OF k Suc.prems(2)] by blast
  have i: "of_nat k * PAGE_SIZE + PAGE_SIZE = (of_nat (Suc k) * PAGE_SIZE :: u64)"
    by (simp add: algebra_simps)
  show ?case
  proof (cases ok)
    case True
    with post have "I (Suc k) s'" by simp
    then obtain ok' s'' where "for_pages f (of_nat n * PAGE_SIZE) (of_nat (Suc k) * PAGE_SIZE) s' = Some (ok', s'')"
      and "if ok' then I n s'' else E s''"
      using Suc.hyps(1) [of "Suc k" s'] Suc.hyps(2) k by (metis Suc_leI diff_Suc_Suc Suc_diff_Suc diff_Suc_1)
    with True f show ?thesis
      by (simp only: for_pages_step [OF of_nat_page_less(1) [OF n k]]) (simp add: i)
  next
    case False
    with f post show ?thesis
      by (intro exI [of _ False] exI [of _ s'])
        (simp add: for_pages_step [OF of_nat_page_less(1) [OF n k]])
  qed
qed

lemma for_pages_total:
  assumes "n < 2 ^ 52" and "I 0 s"
    and "\<And>k s. k < n \<Longrightarrow> I k s \<Longrightarrow>
       \<exists>ok s'. f (of_nat k * PAGE_SIZE) s = Some (ok, s') \<and> (if ok then I (Suc k) s' else E s')"
  shows "\<exists>ok s'. for_pages f (of_nat n * PAGE_SIZE) 0 s = Some (ok, s') \<and> (if ok then I n s' else E s')"
  using for_pages_total_aux [OF assms(1), of I f E 0 s] assms(2,3) by simp

text \<open>A page-aligned size is a number of pages.\<close>

lemma page_aligned_count:
  assumes "page_aligned sz"
  obtains n where "n < 2 ^ 52" and "sz = of_nat n * PAGE_SIZE" and "unat sz = n * 4096"
proof -
  obtain n where n: "unat sz = 4096 * n"
    using assms by (auto simp: page_aligned_mod simp flip: dvd_eq_mod_eq_0 elim: dvdE)
  have "unat sz < 2 ^ 64" using unsigned_less [of sz] by simp
  with n have "n < 2 ^ 52" by simp
  moreover have "sz = of_nat n * PAGE_SIZE"
    using arg_cong [OF n, of "of_nat :: nat \<Rightarrow> u64"] by (simp add: mult.commute)
  ultimately show thesis using that n by simp
qed

lemma pages_apart:
  assumes "page_aligned p" and "page_aligned q" and "p \<noteq> q"
  shows "unat p + 4096 \<le> unat q \<or> unat q + 4096 \<le> unat p"
proof -
  obtain k l where k: "unat p = k * 4096" and l: "unat q = l * 4096"
    using page_aligned_count [OF assms(1)] page_aligned_count [OF assms(2)] by metis
  then have "k < l \<or> l < k" using assms(3) by (auto simp: word_unat_eq_iff)
  then have "k * 4096 + 4096 \<le> l * 4096 \<or> l * 4096 + 4096 \<le> k * 4096" by auto
  then show ?thesis by (simp only: k l)
qed

section \<open>Signed readings of words\<close>

lemma sint_cases: "sint (x :: 'a::len word) = (if uint x < 2 ^ (LENGTH('a) - 1) then uint x else uint x - 2 ^ LENGTH('a))"
proof -
  obtain n where n: "LENGTH('a) = Suc n" using len_gt_0 [where 'a='a] gr0_implies_Suc by blast
  have "sint x = (uint x + 2 ^ n) mod 2 ^ Suc n - 2 ^ n"
    using n by (simp add: sint_uint signed_take_bit_eq_take_bit_shift take_bit_eq_mod)
  moreover have u: "0 \<le> uint x" "uint x < 2 ^ Suc n" using uint_lt2p [of x] n by simp_all
  moreover have "(uint x + 2 ^ n) mod 2 ^ Suc n = (uint x - 2 ^ n :: int) mod 2 ^ Suc n"
    using mod_add_self2 [of "uint x - 2 ^ n" "2 ^ Suc n"] by (simp add: algebra_simps)
  ultimately show ?thesis using n by (cases "uint x < 2 ^ n") (simp_all add: mod_pos_pos_trivial)
qed

lemma sint_u32: "sint (x::u32) = (if uint x < 2 ^ 31 then uint x else uint x - 2 ^ 32)"
  using sint_cases [of x] by simp

lemma sint_u64: "sint (x::u64) = (if uint x < 2 ^ 63 then uint x else uint x - 2 ^ 64)"
  using sint_cases [of x] by simp

lemma sint_small: "unat (x :: u32) < 2 ^ 31 \<Longrightarrow> sint x = int (unat x)"
proof -
  assume "unat x < 2 ^ 31"
  then have "int (unat x) < int (2 ^ 31)" by (simp only: of_nat_less_iff)
  then show ?thesis using sint_u32 [of x] by simp
qed

section \<open>Inversion of the option sequencing\<close>

lemmas bind_Some_conv = Option.bind_eq_Some_conv

lemma bind_Some_pairE:
  assumes "Option.bind x f = Some z"
  obtains a s where "x = Some (a, s)" and "f (a, s) = Some z"
  using assms by (cases x) auto

end
