(* ===== verification/HeapList.thy ===== *)
theory HeapList
  imports Prelude
begin

text \<open>
  Singly linked lists of the kernel, read through the function that gives the \<^verbatim>\<open>next\<close> pointer of
  a node.  \<open>linked nx p xs\<close> says that the nodes reached from \<open>p\<close> are exactly \<open>xs\<close>, up to a NULL
  pointer.  Every intrusive list of the code (thread queues, messages of a port, slabs of a
  cache, free buffers of a slab, buckets of a hash table) is read with it, so a write to one node
  is framed by the same lemmas everywhere.
\<close>

primrec linked :: "(ptr \<Rightarrow> ptr) \<Rightarrow> ptr \<Rightarrow> ptr list \<Rightarrow> bool" where
  "linked nx p [] \<longleftrightarrow> p = NULL"
| "linked nx p (x # xs) \<longleftrightarrow> p = x \<and> x \<noteq> NULL \<and> linked nx (nx x) xs"

lemma linked_NULL [simp]: "linked nx NULL xs \<longleftrightarrow> xs = []"
  by (cases xs) auto

lemma linked_nonNULL: "p \<noteq> NULL \<Longrightarrow> linked nx p xs \<longleftrightarrow> (\<exists>ys. xs = p # ys \<and> linked nx (nx p) ys)"
  by (cases xs) auto

lemma linked_unique: "linked nx p xs \<Longrightarrow> linked nx p ys \<Longrightarrow> xs = ys"
proof (induction xs arbitrary: p ys)
  case Nil
  then show ?case by simp
next
  case (Cons x xs)
  then show ?case by (cases ys) auto
qed

lemma linked_not_NULL: "linked nx p xs \<Longrightarrow> x \<in> set xs \<Longrightarrow> x \<noteq> NULL"
  by (induction xs arbitrary: p) auto

lemma linked_cong:
  "(\<And>x. x \<in> set xs \<Longrightarrow> nx x = ny x) \<Longrightarrow> linked nx p xs = linked ny p xs"
  by (induction xs arbitrary: p) auto

lemma linked_upd [simp]: "y \<notin> set xs \<Longrightarrow> linked (nx(y := q)) p xs = linked nx p xs"
  by (rule linked_cong) auto

lemma linked_append:
  "linked nx p (xs @ y # ys) \<longleftrightarrow> linked (nx(y := NULL)) p (xs @ [y]) \<and> linked nx (nx y) ys"
  if "y \<notin> set xs"
  using that by (induction xs arbitrary: p) auto

lemma linked_suffix: "linked nx p (xs @ y # ys) \<Longrightarrow> linked nx y (y # ys)"
  by (induction xs arbitrary: p) auto

lemma linked_distinct: "linked nx p xs \<Longrightarrow> distinct xs"
proof (induction xs arbitrary: p)
  case Nil
  then show ?case by simp
next
  case (Cons x xs)
  have "x \<notin> set xs"
  proof
    assume "x \<in> set xs"
    then obtain as bs where xs: "xs = as @ x # bs" by (auto dest: split_list)
    with Cons.prems have "linked nx x (x # bs)" by (auto dest: linked_suffix)
    with Cons.prems have "x # bs = x # xs" by (auto intro: linked_unique)
    with xs show False by simp
  qed
  with Cons show ?case by auto
qed

text \<open>Appending a node at the end, the way a queue does it.\<close>

lemma linked_snoc:
  assumes "linked nx p (xs @ [y])" and "t \<notin> set (xs @ [y])" and "t \<noteq> NULL"
  shows "linked (nx(t := NULL, y := t)) p (xs @ [y, t])"
  using assms
proof (induction xs arbitrary: p)
  case Nil
  then show ?case by auto
next
  case (Cons x xs)
  have "x \<noteq> y" using linked_distinct [OF Cons.prems(1)] by auto
  with Cons show ?case by auto
qed

text \<open>Unlinking a node behind its predecessor.\<close>

lemma linked_unlink:
  assumes "linked nx p (xs @ q # y # ys)"
  shows "linked (nx(q := nx y)) p (xs @ q # ys)"
proof -
  have "distinct (xs @ q # y # ys)" by (rule linked_distinct [OF assms])
  then show ?thesis using assms by (induction xs arbitrary: p) auto
qed

lemma linked_hd: "linked nx p xs \<Longrightarrow> p = (case xs of [] \<Rightarrow> NULL | x # _ \<Rightarrow> x)"
  by (cases xs) auto

lemma linked_next_of_last: "linked nx p (xs @ [y]) \<Longrightarrow> nx y = NULL"
  by (induction xs arbitrary: p) auto

lemma linked_middle:
  assumes "linked nx p (xs @ y # ys)"
  shows "nx y = (case ys of [] \<Rightarrow> NULL | z # _ \<Rightarrow> z)"
proof -
  have "linked nx (nx y) ys" using linked_suffix [OF assms] by simp
  then show ?thesis by (rule linked_hd)
qed

text \<open>The nodes from \<open>p\<close> on, as a function; it is only used where the list is known to end.\<close>

definition nodes :: "(ptr \<Rightarrow> ptr) \<Rightarrow> ptr \<Rightarrow> ptr list" where
  "nodes nx p = (THE xs. linked nx p xs)"

lemma nodes_eq: "linked nx p xs \<Longrightarrow> nodes nx p = xs"
  unfolding nodes_def by (rule the_equality) (auto dest: linked_unique)

lemma nodes_NULL [simp]: "nodes nx NULL = []"
  by (rule nodes_eq) simp

end
