(* ===== verification/Spinlock.thy ===== *)
theory Spinlock
  imports Prelude
begin

text \<open>
  The lowest layer of the kernel state: the interrupt flag of the CPU, \<^verbatim>\<open>cpu/atomic.c\<close> and
  \<^verbatim>\<open>sync/spinlock.c\<close>.  The kernel drives one CPU, so a critical section excludes others by
  disabling interrupts; the lock word adds nothing to that, as \<open>atomic_swap\<close> shows.
\<close>

section \<open>The locks of the kernel\<close>

text \<open>The slab caches of the kernel (static variables) and its mutexes, by name.\<close>

datatype cache_id =
  ENTRY_CACHE | PROCESS_CACHE | ARCH_PROC_CACHE | THREAD_CACHE | ARCH_THREAD_CACHE
  | PORT_CACHE | MESSAGE_CACHE | SERVER_CACHE | WAITER_CACHE | SHMEM_CACHE | SHMEM_BLOCK_CACHE

text \<open>\<open>VMM_MUTEX p\<close> is \<^verbatim>\<open>vmm_ctx.lock\<close> of the process at address \<open>p\<close>.\<close>

datatype mutex_id = SHMEM_MUTEX | VMM_MUTEX ptr

datatype lock_id =
  PMM_LOCK | SCHED_LOCK | THREAD_LOCK | CLEANUP_LOCK | PROCESS_LOCK | PORT_LOCK | SERVER_LOCK | CONSOLE_LOCK
  | CACHE_LOCK cache_id | MUTEX_SPINLOCK mutex_id

text \<open>
  \<^verbatim>\<open>struct spinlock\<close>; \<open>sl_addr\<close> is the address of the structure, whose first member is
  \<^verbatim>\<open>locked\<close>.  The name is only printed and is left out.
\<close>

record spinlock =
  sl_addr :: ptr
  locked :: u32
  int_state :: u32

record cpu_state =
  int_flag :: bool
  locks :: "lock_id \<Rightarrow> spinlock"

section \<open>Atomic operations and interrupts\<close>

text \<open>\<^verbatim>\<open>atomic_set(a, i)\<close>: what \<open>*a\<close> holds afterwards, given what it held.\<close>

definition atomic_set :: "u32 \<Rightarrow> u32 \<Rightarrow> u32" where
  "atomic_set m i = i"

text \<open>
  \<^verbatim>\<open>atomic_swap(a, i)\<close>: the value returned, and what \<open>*a\<close> holds afterwards.  The memory operand
  of the inline assembly is \<^verbatim>\<open>"m" (a)\<close>, the pointer variable itself and not \<^verbatim>\<open>*a\<close>: \<^verbatim>\<open>xchgl\<close>
  exchanges \<open>i\<close> with the low 32 bits of the pointer, and \<open>*a\<close> is not touched.
\<close>

definition atomic_swap :: "ptr \<Rightarrow> u32 \<Rightarrow> u32 \<Rightarrow> u32 \<times> u32" where
  "atomic_swap a i m = (ucast a, m)"

text \<open>\<^verbatim>\<open>cpu_arch_disable_int\<close> returns the interrupt bit of the flags register (\<^verbatim>\<open>EFLAG_IF\<close>).\<close>

abbreviation (input) EFLAG_IF :: u32 where
  "EFLAG_IF \<equiv> 0x200"

definition cpu_arch_disable_int :: "'a cpu_state_scheme \<Rightarrow> u32 \<times> 'a cpu_state_scheme" where
  "cpu_arch_disable_int s = (if int_flag s then EFLAG_IF else 0, s\<lparr>int_flag := False\<rparr>)"

definition cpu_arch_enable_int :: "'a cpu_state_scheme \<Rightarrow> 'a cpu_state_scheme" where
  "cpu_arch_enable_int s = s\<lparr>int_flag := True\<rparr>"

section \<open>Spinlocks\<close>

definition spinunlock :: "lock_id \<Rightarrow> 'a cpu_state_scheme \<Rightarrow> 'a cpu_state_scheme" where
  "spinunlock l s = s\<lparr>locks := (locks s)(l := (locks s l)\<lparr>locked := atomic_set (locked (locks s l)) 0\<rparr>)\<rparr>"

text \<open>The busy loop \<^verbatim>\<open>while (atomic_swap(&sl->locked, 1) == 1) ;\<close>: the lock word at its end.\<close>

partial_function (option) spin_wait :: "ptr \<Rightarrow> u32 \<Rightarrow> u32 option" where
  "spin_wait a m = (let (r, m') = atomic_swap a 1 m in if r = 1 then spin_wait a m' else Some m')"

definition spinlock_disable :: "lock_id \<Rightarrow> 'a cpu_state_scheme \<Rightarrow> 'a cpu_state_scheme option" where
  "spinlock_disable l s =
     (let (ints, s1) = cpu_arch_disable_int s
      in do {
        m \<leftarrow> spin_wait (sl_addr (locks s1 l)) (locked (locks s1 l));
        Some (s1\<lparr>locks := (locks s1)(l := (locks s1 l)\<lparr>locked := m, int_state := ints\<rparr>)\<rparr>)
      })"

definition spinunlock_enable :: "lock_id \<Rightarrow> 'a cpu_state_scheme \<Rightarrow> 'a cpu_state_scheme" where
  "spinunlock_enable l s =
     (let is = int_state (locks s l);
          s1 = s\<lparr>locks := (locks s)(l := (locks s l)\<lparr>locked := atomic_set (locked (locks s l)) 0\<rparr>)\<rparr>
      in if is \<noteq> 0 then cpu_arch_enable_int s1 else s1)"

definition spinlock_init :: "lock_id \<Rightarrow> 'a cpu_state_scheme \<Rightarrow> 'a cpu_state_scheme" where
  "spinlock_init l s =
     s\<lparr>locks := (locks s)(l := (locks s l)\<lparr>locked := atomic_set (locked (locks s l)) 0, int_state := 0\<rparr>)\<rparr>"

section \<open>What the locks do\<close>

text \<open>
  Lock structures are naturally aligned, so no lock has an address whose low 32 bits are 1.
  This is the invariant under which every critical section of the kernel is entered.
\<close>

definition addrs_ok :: "(lock_id \<Rightarrow> spinlock) \<Rightarrow> bool" where
  "addrs_ok L \<longleftrightarrow> (\<forall>l. (ucast (sl_addr (L l)) :: u32) \<noteq> 1)"

abbreviation locks_ok :: "'a cpu_state_scheme \<Rightarrow> bool" where
  "locks_ok s \<equiv> addrs_ok (locks s)"

text \<open>
  The locks while \<open>l\<close> is held by a section entered with the interrupt flag \<open>b\<close>, after it is
  released, and the flag a release restores.  With the rules below the simplifier computes a whole
  section: what is left of \<^verbatim>\<open>spinlock_disable(l) ... spinunlock_enable(l)\<close> is the update made in
  between, and the lock.
\<close>

definition lock_held :: "lock_id \<Rightarrow> bool \<Rightarrow> (lock_id \<Rightarrow> spinlock) \<Rightarrow> lock_id \<Rightarrow> spinlock" where
  "lock_held l b L = L(l := (L l)\<lparr>int_state := (if b then EFLAG_IF else 0)\<rparr>)"

definition lock_released :: "lock_id \<Rightarrow> (lock_id \<Rightarrow> spinlock) \<Rightarrow> lock_id \<Rightarrow> spinlock" where
  "lock_released l L = L(l := (L l)\<lparr>locked := 0\<rparr>)"

definition lock_ints :: "lock_id \<Rightarrow> (lock_id \<Rightarrow> spinlock) \<Rightarrow> bool" where
  "lock_ints l L \<longleftrightarrow> int_state (L l) \<noteq> 0"

lemma lock_ints_held [simp]: "lock_ints l (lock_held k b L) = (if l = k then b else lock_ints l L)"
  by (auto simp: lock_ints_def lock_held_def)

lemma lock_ints_released [simp]: "lock_ints l (lock_released k L) = lock_ints l L"
  by (simp add: lock_ints_def lock_released_def)

lemma addrs_ok_held [simp]: "addrs_ok (lock_held l b L) = addrs_ok L"
  by (auto simp: addrs_ok_def lock_held_def)

lemma addrs_ok_released [simp]: "addrs_ok (lock_released l L) = addrs_ok L"
  by (auto simp: addrs_ok_def lock_released_def)

lemma spin_wait_returns: "(ucast a :: u32) \<noteq> 1 \<Longrightarrow> spin_wait a m = Some m"
  by (subst spin_wait.simps) (simp add: atomic_swap_def)

lemma spinlock_disable_ok [op_simps]:
  "locks_ok s \<Longrightarrow> spinlock_disable l s =
     Some (s\<lparr>int_flag := False, locks := lock_held l (int_flag s) (locks s)\<rparr>)"
  by (simp add: spinlock_disable_def cpu_arch_disable_int_def spin_wait_returns addrs_ok_def lock_held_def)

lemma spinunlock_enable_eq [op_simps]:
  "spinunlock_enable l s = s\<lparr>locks := lock_released l (locks s), int_flag := (lock_ints l (locks s) \<or> int_flag s)\<rparr>"
  by (cases "int_state (locks s l) = 0")
    (simp_all add: spinunlock_enable_def cpu_arch_enable_int_def atomic_set_def lock_released_def lock_ints_def)

lemma spinunlock_eq [op_simps]: "spinunlock l s = s\<lparr>locks := lock_released l (locks s)\<rparr>"
  by (simp add: spinunlock_def atomic_set_def lock_released_def)

lemma locks_ok_init [simp]: "locks_ok (spinlock_init l s) = locks_ok s"
  by (auto simp: addrs_ok_def spinlock_init_def)

lemma sections_restore_interrupts:
  assumes "locks_ok s"
  shows "map_option (\<lambda>s'. int_flag (spinunlock_enable l s')) (spinlock_disable l s) = Some (int_flag s)"
  using assms by (simp add: op_simps)

text \<open>The lock word never becomes 1, so a held lock can be taken again.\<close>

lemma lock_word_unchanged:
  "spinlock_disable l s = Some s' \<Longrightarrow> locks_ok s \<Longrightarrow> locked (locks s' l) = locked (locks s l)"
  by (auto simp: spinlock_disable_ok lock_held_def)

text \<open>The locks after a whole section, the name the results of operations use.\<close>

abbreviation lock_used :: "lock_id \<Rightarrow> 'a cpu_state_scheme \<Rightarrow> lock_id \<Rightarrow> spinlock" where
  "lock_used l s \<equiv> lock_released l (lock_held l (int_flag s) (locks s))"

end
