(* ===== verification/MemMap.thy ===== *)
theory MemMap
  imports Prelude
begin

text \<open>
  \<^verbatim>\<open>mm/map.c\<close>: the map of free regions of an address space, a sorted list of entries
  \<open>(base, size)\<close>.  The list is private to its map, so it is the HOL list of its nodes in link
  order, each with its address; \<^verbatim>\<open>prev\<close> and NULL stay where the code tests or follows them.  The
  entries come from an allocator the map is given (\<^verbatim>\<open>struct memory_map_allocator\<close>): two
  functions over a state of their own, passed along.
\<close>

section \<open>Data\<close>

record memory_map_entry =
  me_base :: u64
  me_size :: u64

type_synonym memory_map = "(ptr \<times> memory_map_entry) list"

record 'a memory_map_allocator =
  mma_alloc :: "'a \<Rightarrow> (ptr \<times> 'a) option"
  mma_free :: "ptr \<Rightarrow> 'a \<Rightarrow> 'a option"

datatype entry_collision_type = NOTHING | BEGIN | END | INSIDE | OVERLAP

section \<open>Operations\<close>

definition check_entry_collision :: "memory_map_entry \<Rightarrow> memory_map_entry \<Rightarrow> entry_collision_type" where
  "check_entry_collision e1 e2 =
     (let e1_begin = me_base e1; e1_end = me_base e1 + me_size e1 - 1;
          e2_begin = me_base e2; e2_end = me_base e2 + me_size e2 - 1
      in if e2_begin \<le> e1_begin \<and> e1_end \<le> e2_end then OVERLAP
         else if e2_begin \<ge> e1_begin \<and> e2_end \<le> e1_end then INSIDE
         else if e2_begin \<ge> e1_begin \<and> e2_begin \<le> e1_end then BEGIN
         else if e2_end \<ge> e1_begin \<and> e2_end \<le> e1_end then END
         else NOTHING)"

text \<open>The loop of \<^verbatim>\<open>memory_map_add\<close>: \<^term>\<open>None\<close> is its \<^verbatim>\<open>return -1\<close> on a collision.\<close>

fun add_entry :: "ptr \<times> memory_map_entry \<Rightarrow> memory_map \<Rightarrow> memory_map option" where
  "add_entry e [] = Some [e]"
| "add_entry e (item # items) =
     (if check_entry_collision (snd item) (snd e) \<noteq> NOTHING then None
      else if me_base (snd item) > me_base (snd e) then Some (e # item # items)
      else map_option (Cons item) (add_entry e items))"

definition memory_map_add ::
  "'a memory_map_allocator \<Rightarrow> memory_map \<Rightarrow> u64 \<Rightarrow> u64 \<Rightarrow> 'a \<Rightarrow> (int \<times> memory_map \<times> 'a) option" where
  "memory_map_add alc m base sz a = do {
     (e, a) \<leftarrow> mma_alloc alc a;
     if e = NULL then Some (-1, m, a)
     else case add_entry (e, \<lparr>me_base = base, me_size = sz\<rparr>) m of
            None \<Rightarrow> Some (-1, m, a)
          | Some m' \<Rightarrow> Some (0, m', a)
   }"

text \<open>
  \<^verbatim>\<open>exclude_inside\<close> returns its code and the nodes that stand for \<^verbatim>\<open>item\<close> afterwards: the
  truncated item, and behind it the new node for the rest when the middle was cut out.
\<close>

definition exclude_inside ::
  "'a memory_map_allocator \<Rightarrow> ptr \<times> memory_map_entry \<Rightarrow> memory_map_entry \<Rightarrow> 'a
     \<Rightarrow> (int \<times> memory_map \<times> 'a) option" where
  "exclude_inside alc node e a =
     (let q = fst node; item = snd node;
          e_end = me_base e + me_size e - 1;
          item_end = me_base item + me_size item - 1
      in if me_base item = me_base e then
           let item' = item\<lparr>me_base := me_base item + me_size e, me_size := me_size item - me_size e\<rparr>
           in if me_size item' = 0 then None else Some (0, [(q, item')], a)
         else if item_end = e_end then
           let item' = item\<lparr>me_size := me_size item - me_size e\<rparr>
           in if me_size item' = 0 then None else Some (0, [(q, item')], a)
         else do {
           (t, a) \<leftarrow> mma_alloc alc a;
           if t = NULL then Some (-1, [node], a)
           else
             let tbase = me_base e + me_size e;
                 tmp = \<lparr>me_base = tbase, me_size = me_size item - (tbase - me_base item)\<rparr>;
                 item' = item\<lparr>me_size := me_base e - me_base item\<rparr>
             in if me_size item' = 0 then None else Some (0, [(q, item'), (t, tmp)], a)
         })"

text \<open>
  The loop of \<^verbatim>\<open>memory_map_exclude\<close>.  After an \<^verbatim>\<open>INSIDE\<close> the walk goes on with the node that
  \<^verbatim>\<open>exclude_inside\<close> may have put behind the item, so it is not structural.
\<close>

partial_function (option) exclude_loop ::
  "'a memory_map_allocator \<Rightarrow> memory_map_entry \<Rightarrow> memory_map \<Rightarrow> 'a \<Rightarrow> (int \<times> memory_map \<times> 'a) option" where
  "exclude_loop alc e m a =
     (case m of
        [] \<Rightarrow> Some (0, [], a)
      | (q, item) # items \<Rightarrow>
          (case check_entry_collision item e of
             BEGIN \<Rightarrow>
               (let item' = item\<lparr>me_size := me_base e - me_base item\<rparr>
                in if me_size item' = 0 then None
                   else do {
                     (r, m', a) \<leftarrow> exclude_loop alc e items a;
                     Some (r, (q, item') # m', a)
                   })
           | END \<Rightarrow>
               (let new_base = me_base e + me_size e;
                    item' = item\<lparr>me_size := me_size item - (new_base - me_base item), me_base := new_base\<rparr>
                in if me_size item' = 0 then None
                   else do {
                     (r, m', a) \<leftarrow> exclude_loop alc e items a;
                     Some (r, (q, item') # m', a)
                   })
           | OVERLAP \<Rightarrow> do {
               a \<leftarrow> mma_free alc q a;
               exclude_loop alc e items a
             }
           | INSIDE \<Rightarrow> do {
               (r, nodes, a) \<leftarrow> exclude_inside alc (q, item) e a;
               if r \<noteq> 0 then Some (-1, nodes @ items, a)
               else do {
                 (r, m', a) \<leftarrow> exclude_loop alc e (tl nodes @ items) a;
                 Some (r, hd nodes # m', a)
               }
             }
           | NOTHING \<Rightarrow> do {
               (r, m', a) \<leftarrow> exclude_loop alc e items a;
               Some (r, (q, item) # m', a)
             }))"

definition memory_map_exclude ::
  "'a memory_map_allocator \<Rightarrow> memory_map \<Rightarrow> u64 \<Rightarrow> u64 \<Rightarrow> 'a \<Rightarrow> (int \<times> memory_map \<times> 'a) option" where
  "memory_map_exclude alc m base sz a = exclude_loop alc \<lparr>me_base = base, me_size = sz\<rparr> m a"

text \<open>
  The loop of \<^verbatim>\<open>memory_map_alloc\<close>, with its \<^verbatim>\<open>prev\<close>: when the item fits exactly, the code
  writes \<^verbatim>\<open>prev->next\<close>, which faults when the item is the first one (\<^verbatim>\<open>prev\<close> is NULL).
\<close>

fun alloc_loop ::
  "'a memory_map_allocator \<Rightarrow> u64 \<Rightarrow> ptr \<Rightarrow> memory_map \<Rightarrow> 'a \<Rightarrow> (u64 \<times> memory_map \<times> 'a) option" where
  "alloc_loop alc sz prev [] a = Some (0, [], a)"
| "alloc_loop alc sz prev ((q, item) # items) a =
     (if me_size item \<ge> sz then
        (if me_size item = sz then
           (if prev = NULL then None
            else do {
              a \<leftarrow> mma_free alc q a;
              Some (me_base item, items, a)
            })
         else Some (me_base item,
                (q, item\<lparr>me_base := me_base item + sz, me_size := me_size item - sz\<rparr>) # items, a))
      else do {
        (p, m', a) \<leftarrow> alloc_loop alc sz q items a;
        Some (p, (q, item) # m', a)
      })"

definition memory_map_alloc ::
  "'a memory_map_allocator \<Rightarrow> memory_map \<Rightarrow> u64 \<Rightarrow> 'a \<Rightarrow> (u64 \<times> memory_map \<times> 'a) option" where
  "memory_map_alloc alc m sz a = alloc_loop alc sz NULL m a"

fun alloc_at_loop ::
  "'a memory_map_allocator \<Rightarrow> memory_map_entry \<Rightarrow> memory_map \<Rightarrow> 'a \<Rightarrow> (int \<times> memory_map \<times> 'a) option" where
  "alloc_at_loop alc e [] a = Some (-1, [], a)"
| "alloc_at_loop alc e ((q, item) # items) a =
     (case check_entry_collision item e of
        BEGIN \<Rightarrow> Some (-1, (q, item) # items, a)
      | END \<Rightarrow> Some (-1, (q, item) # items, a)
      | OVERLAP \<Rightarrow>
          (if me_base item = me_base e \<and> me_size item = me_size e
           then do {
             a \<leftarrow> mma_free alc q a;
             Some (0, items, a)
           }
           else Some (-1, (q, item) # items, a))
      | INSIDE \<Rightarrow> do {
          (r, nodes, a) \<leftarrow> exclude_inside alc (q, item) e a;
          if r \<noteq> 0 then Some (-1, nodes @ items, a) else Some (0, nodes @ items, a)
        }
      | NOTHING \<Rightarrow> do {
          (r, m', a) \<leftarrow> alloc_at_loop alc e items a;
          Some (r, (q, item) # m', a)
        })"

definition memory_map_alloc_at ::
  "'a memory_map_allocator \<Rightarrow> memory_map \<Rightarrow> u64 \<Rightarrow> u64 \<Rightarrow> 'a \<Rightarrow> (int \<times> memory_map \<times> 'a) option" where
  "memory_map_alloc_at alc m base sz a = alloc_at_loop alc \<lparr>me_base = base, me_size = sz\<rparr> m a"

text \<open>The iterator is a function over the state it changes (it may not come back).\<close>

fun memory_map_iterate :: "memory_map \<Rightarrow> (u64 \<Rightarrow> u64 \<Rightarrow> 's \<Rightarrow> 's option) \<Rightarrow> 's \<Rightarrow> 's option" where
  "memory_map_iterate [] it s = Some s"
| "memory_map_iterate ((q, item) # items) it s = do {
     s \<leftarrow> it (me_base item) (me_size item) s;
     memory_map_iterate items it s
   }"

definition memory_map_init :: "memory_map" where
  "memory_map_init = []"

section \<open>The address space a map stands for\<close>

definition entry_end :: "memory_map_entry \<Rightarrow> u64" where
  "entry_end e = me_base e + me_size e - 1"

definition entry_ok :: "memory_map_entry \<Rightarrow> bool" where
  "entry_ok e \<longleftrightarrow> me_size e \<noteq> 0 \<and> me_base e \<le> entry_end e"

definition entry_range :: "memory_map_entry \<Rightarrow> u64 set" where
  "entry_range e = {me_base e .. entry_end e}"

definition map_space :: "memory_map \<Rightarrow> u64 set" where
  "map_space m = (\<Union>n \<in> set m. entry_range (snd n))"

definition map_ok :: "memory_map \<Rightarrow> bool" where
  "map_ok m \<longleftrightarrow> (\<forall>n \<in> set m. entry_ok (snd n))
     \<and> sorted_wrt (\<lambda>x y. entry_end (snd x) < me_base (snd y)) m"

lemma map_ok_Nil [simp]: "map_ok []"
  by (simp add: map_ok_def)

lemma map_ok_Cons:
  "map_ok (n # m) \<longleftrightarrow> entry_ok (snd n) \<and> (\<forall>y \<in> set m. entry_end (snd n) < me_base (snd y)) \<and> map_ok m"
  by (auto simp: map_ok_def)

lemma map_space_Nil [simp]: "map_space [] = {}"
  by (simp add: map_space_def)

lemma map_space_Cons [simp]: "map_space (n # m) = entry_range (snd n) \<union> map_space m"
  by (simp add: map_space_def)

lemma map_space_append [simp]: "map_space (m @ m') = map_space m \<union> map_space m'"
  by (simp add: map_space_def)

lemma entry_okD: "entry_ok e \<Longrightarrow> me_base e \<le> entry_end e"
  by (simp add: entry_ok_def)

text \<open>The collision test, read on the ranges of the two entries.\<close>

lemma check_entry_collision_end:
  "check_entry_collision i e =
     (if me_base e \<le> me_base i \<and> entry_end i \<le> entry_end e then OVERLAP
      else if me_base e \<ge> me_base i \<and> entry_end e \<le> entry_end i then INSIDE
      else if me_base e \<ge> me_base i \<and> me_base e \<le> entry_end i then BEGIN
      else if entry_end e \<ge> me_base i \<and> entry_end e \<le> entry_end i then END
      else NOTHING)"
  by (simp only: check_entry_collision_def entry_end_def Let_def)

lemma collision_cases:
  assumes "entry_ok i" and "entry_ok e"
  shows "case check_entry_collision i e of
     OVERLAP \<Rightarrow> me_base e \<le> me_base i \<and> entry_end i \<le> entry_end e
   | INSIDE \<Rightarrow> me_base i \<le> me_base e \<and> entry_end e \<le> entry_end i
       \<and> \<not> (me_base e = me_base i \<and> entry_end i = entry_end e)
   | BEGIN \<Rightarrow> me_base i < me_base e \<and> me_base e \<le> entry_end i \<and> entry_end i < entry_end e
   | END \<Rightarrow> me_base e < me_base i \<and> me_base i \<le> entry_end e \<and> entry_end e < entry_end i
   | NOTHING \<Rightarrow> entry_end i < me_base e \<or> entry_end e < me_base i"
  using entry_okD [OF assms(1)] entry_okD [OF assms(2)]
  by (auto simp: check_entry_collision_end)

lemma collision_nothing_iff:
  assumes "entry_ok i" and "entry_ok e"
  shows "check_entry_collision i e = NOTHING \<longleftrightarrow> entry_range i \<inter> entry_range e = {}"
proof -
  have "entry_range i \<inter> entry_range e = {} \<longleftrightarrow> entry_end i < me_base e \<or> entry_end e < me_base i"
    using entry_okD [OF assms(1)] entry_okD [OF assms(2)] by (auto simp: entry_range_def) 
  then show ?thesis
    using entry_okD [OF assms(1)] entry_okD [OF assms(2)] by (auto simp: check_entry_collision_end)
qed

text \<open>Ends of the pieces the operations cut.\<close>

lemma word_le_pred: "b \<noteq> 0 \<Longrightarrow> x \<le> b - 1 \<longleftrightarrow> x < (b::u64)"
  by unat_arith

lemma word_pred_unat: "b \<noteq> 0 \<Longrightarrow> unat (b - 1 :: u64) = unat b - 1"
  by unat_arith

lemma word_succ_le: "x < c \<Longrightarrow> x + 1 \<le> b \<longleftrightarrow> x < (b::u64)"
  by unat_arith

lemma entry_size_end: "me_size e = entry_end e - me_base e + 1"
  by (simp add: entry_end_def)

text \<open>What is left of an entry behind \<open>x\<close>, and what is left of it in front of \<open>y\<close>.\<close>

lemma trim_front:
  assumes x: "x < entry_end i"
  shows "entry_end (i\<lparr>me_base := x + 1, me_size := entry_end i - x\<rparr>) = entry_end i"
    and "entry_ok (i\<lparr>me_base := x + 1, me_size := entry_end i - x\<rparr>)"
    and "entry_range (i\<lparr>me_base := x + 1, me_size := entry_end i - x\<rparr>) = {x <.. entry_end i}"
proof -
  let ?i = "i\<lparr>me_base := x + 1, me_size := entry_end i - x\<rparr>"
  show e: "entry_end ?i = entry_end i"
    unfolding entry_end_def [of ?i] by simp
  have "x + 1 \<le> entry_end i" using x by (simp only: word_succ_le [OF x])
  moreover have "entry_end i - x \<noteq> 0" using x by simp
  ultimately show "entry_ok ?i" unfolding entry_ok_def e by simp
  show "entry_range ?i = {x <.. entry_end i}"
    unfolding entry_range_def e by (auto simp: word_succ_le [OF x])
qed

lemma trim_rear:
  assumes y: "me_base i < y"
  shows "entry_end (i\<lparr>me_size := y - me_base i\<rparr>) = y - 1"
    and "entry_ok (i\<lparr>me_size := y - me_base i\<rparr>)"
    and "entry_range (i\<lparr>me_size := y - me_base i\<rparr>) = {me_base i ..< y}"
    and "y - 1 < y"
proof -
  let ?i = "i\<lparr>me_size := y - me_base i\<rparr>"
  have y0: "y \<noteq> 0" using y by auto
  show e: "entry_end ?i = y - 1" unfolding entry_end_def [of ?i] by simp
  have "me_base i \<le> y - 1" using y by (simp only: word_le_pred [OF y0])
  then show "entry_ok ?i" unfolding entry_ok_def e using y by simp
  show "entry_range ?i = {me_base i ..< y}"
    unfolding entry_range_def e by (auto simp: word_le_pred [OF y0])
  show "y - 1 < y" using y0 by unat_arith
qed

section \<open>The allocator interface, and the operations over it\<close>

text \<open>
  What \<^verbatim>\<open>map.c\<close> relies on: \<^verbatim>\<open>alloc\<close> returns NULL or an entry nobody holds, \<^verbatim>\<open>free\<close> of a live
  entry comes back and leaves the other entries live.
\<close>

locale entry_allocator =
  fixes alc :: "'a memory_map_allocator"
    and ainv :: "'a \<Rightarrow> bool"
    and live :: "'a \<Rightarrow> ptr set"
  assumes alloc_law: "ainv a \<Longrightarrow> \<exists>p a'. mma_alloc alc a = Some (p, a') \<and> ainv a' \<and>
      (if p = NULL then live a' = live a else p \<notin> live a \<and> live a' = insert p (live a))"
    and free_law: "ainv a \<Longrightarrow> p \<in> live a \<Longrightarrow>
      \<exists>a'. mma_free alc p a = Some a' \<and> ainv a' \<and> live a - {p} \<subseteq> live a'"

text \<open>The nodes of a map are live entries; an operation keeps those of others out of its map.\<close>

definition owns :: "('a \<Rightarrow> ptr set) \<Rightarrow> memory_map \<Rightarrow> 'a \<Rightarrow> bool" where
  "owns live m a \<longleftrightarrow> distinct (map fst m) \<and> fst ` set m \<subseteq> live a \<and> NULL \<notin> fst ` set m"

definition hands_over :: "('a \<Rightarrow> ptr set) \<Rightarrow> memory_map \<Rightarrow> 'a \<Rightarrow> memory_map \<Rightarrow> 'a \<Rightarrow> bool" where
  "hands_over live m a m' a' \<longleftrightarrow> owns live m' a' \<and> live a - fst ` set m \<subseteq> live a' - fst ` set m'"

lemma hands_over_refl: "owns live m a \<Longrightarrow> hands_over live m a m a"
  by (simp add: hands_over_def)

lemma hands_over_Cons:
  "owns live ((q, i) # m) a \<Longrightarrow> hands_over live m a m' a' \<Longrightarrow>
     hands_over live ((q, i) # m) a ((q, i') # m') a'"
  by (auto simp: owns_def hands_over_def)

lemma owns_tl: "owns live (n # m) a \<Longrightarrow> owns live m a"
  by (auto simp: owns_def)

text \<open>A walk past entries that do not meet the range changes nothing.\<close>

lemma exclude_loop_Nil [simp]: "exclude_loop alc e [] a = Some (0, [], a)"
  by (subst exclude_loop.simps) simp

lemma exclude_loop_disjoint:
  "(\<And>n. n \<in> set m \<Longrightarrow> check_entry_collision (snd n) e = NOTHING) \<Longrightarrow> exclude_loop alc e m a = Some (0, m, a)"
proof (induction m)
  case Nil
  then show ?case by simp
next
  case (Cons n m)
  obtain q i where n: "n = (q, i)" by (cases n)
  have "check_entry_collision i e = NOTHING" using Cons.prems [of n] n by simp
  moreover have "exclude_loop alc e m a = Some (0, m, a)" using Cons by simp
  ultimately show ?case by (subst exclude_loop.simps) (simp add: n)
qed

text \<open>Putting pieces of a map together: order follows from the spaces.\<close>

lemma map_ok_base_in_space: "map_ok m \<Longrightarrow> n \<in> set m \<Longrightarrow> me_base (snd n) \<in> map_space m \<and> entry_end (snd n) \<in> map_space m"
  by (auto simp: map_ok_def map_space_def entry_range_def entry_ok_def)

lemma map_ok_append:
  assumes "map_ok xs" and "map_ok ys" and "\<And>x y. x \<in> map_space xs \<Longrightarrow> y \<in> map_space ys \<Longrightarrow> x < y"
  shows "map_ok (xs @ ys)"
  using assms map_ok_base_in_space [OF assms(1)] map_ok_base_in_space [OF assms(2)]
  by (auto simp: map_ok_def sorted_wrt_append)

lemma map_ok_trim:
  assumes "map_ok ((q, i) # m)" and "entry_ok i'" and "entry_end i' \<le> entry_end i"
    and "map_ok m'" and "map_space m' \<subseteq> map_space m"
  shows "map_ok ((q, i') # m')"
proof -
  have "entry_end i' < me_base (snd y)" if y: "y \<in> set m'" for y
  proof -
    have "me_base (snd y) \<in> map_space m"
      using map_ok_base_in_space [OF assms(4) y] assms(5) by auto
    then obtain k where "k \<in> set m" "me_base (snd k) \<le> me_base (snd y)"
      by (auto simp: map_space_def entry_range_def)
    moreover from this have "entry_end i < me_base (snd k)" using assms(1) by (auto simp: map_ok_Cons)
    ultimately show ?thesis using assms(3) by order
  qed
  then show ?thesis using assms by (auto simp: map_ok_Cons)
qed

text \<open>A region carved from the beginning of another.\<close>

lemma subregion:
  fixes b s z :: u64
  assumes "b \<le> b + s - 1" and "z \<le> s" and "z \<noteq> 0"
  shows "b \<le> b + z - 1 \<and> b + z - 1 \<le> b + s - 1 \<and> (z < s \<longrightarrow> b + z - 1 < b + s - 1)"
proof -
  have s0: "s \<noteq> 0" using assms(2,3) by auto
  have "b + s - 1 = b + (s - 1)" by simp
  with assms(1) have "b \<le> b + (s - 1)" by simp
  then have "unat b + unat (s - 1) < 2 ^ 64"
    unfolding no_plus_overflow_unat_size by (simp add: word_size)
  moreover have "unat (s - 1) = unat s - 1" "unat (z - 1) = unat z - 1"
    using s0 assms(3) by (auto simp: word_pred_unat)
  moreover have "unat z \<le> unat s" "unat z \<noteq> 0"
    using assms(2,3) by (auto simp: word_le_nat_alt unat_eq_0)
  ultimately have "unat (b + (z - 1)) = unat b + (unat z - 1)" "unat (b + (s - 1)) = unat b + (unat s - 1)"
    by (simp_all add: unat_word_ariths)
  moreover have "b + z - 1 = b + (z - 1)" "b + s - 1 = b + (s - 1)" by simp_all
  ultimately show ?thesis
    using \<open>unat z \<le> unat s\<close> \<open>unat z \<noteq> 0\<close>
    by (simp only: word_le_nat_alt word_less_nat_alt) linarith
qed

text \<open>Inserting an entry in address order.\<close>

lemma add_entry_correct:
  assumes "map_ok m" and "entry_ok e" and "add_entry (t, e) m = Some m'"
  shows "map_ok m' \<and> map_space m \<inter> entry_range e = {} \<and> map_space m' = map_space m \<union> entry_range e
     \<and> set m' = insert (t, e) (set m) \<and> (t \<notin> fst ` set m \<longrightarrow> distinct (map fst m) \<longrightarrow> distinct (map fst m'))"
  using assms
proof (induction m arbitrary: m')
  case Nil
  then show ?case by (auto simp: map_ok_Cons)
next
  case (Cons n m)
  obtain q i where n: "n = (q, i)" by (cases n)
  have i: "entry_ok i" and m: "map_ok m" using Cons.prems(1) by (auto simp: n map_ok_Cons)
  note ee = entry_okD [OF Cons.prems(2)] and ie = entry_okD [OF i]
  have c: "check_entry_collision i e = NOTHING" using Cons.prems(3) by (simp add: n split: if_splits)
  then have dj: "entry_range i \<inter> entry_range e = {}"
    by (simp add: collision_nothing_iff [OF i Cons.prems(2)])
  have lu: "entry_end i < me_base e \<or> entry_end e < me_base i"
    using collision_cases [OF i Cons.prems(2)] c by simp
  have low: "entry_end i < x" if "x \<in> map_space m" for x
    using that Cons.prems(1) by (auto simp: n map_ok_Cons map_space_def entry_range_def intro: less_le_trans)
  show ?case
  proof (cases "me_base i > me_base e")
    case True
    then have lt: "entry_end e < me_base i" using lu ie by auto
    have m': "m' = (t, e) # n # m" using Cons.prems(3) c True by (simp add: n)
    have "map_ok ((t, e) # n # m)"
      using Cons.prems(1,2) lt ie by (auto simp: n map_ok_Cons dest: less_trans le_less_trans) 
    moreover have "map_space m \<inter> entry_range e = {}"
      using low lt ie by (fastforce simp: entry_range_def)
    ultimately show ?thesis using dj by (auto simp: m' n)
  next
    case False
    obtain m1 where m1: "add_entry (t, e) m = Some m1" "m' = n # m1"
      using Cons.prems(3) c False by (auto simp: n)
    note IH = Cons.IH [OF m Cons.prems(2) m1(1)]
    have "entry_end i < me_base e" using lu False ee ie by auto
    then have "map_ok (n # m1)" using IH Cons.prems(1) by (auto simp: n map_ok_Cons)
    then show ?thesis using IH dj m1(2) by (auto simp: n)
  qed
qed

context entry_allocator begin

lemma exclude_inside_cut:
  assumes i: "entry_ok i" and e: "entry_ok e" and c: "check_entry_collision i e = INSIDE"
    and a: "ainv a" and o: "owns live ((q, i) # m) a"
  shows "\<exists>r nodes a'. exclude_inside alc (q, i) e a = Some (r, nodes, a') \<and> ainv a' \<and>
     hands_over live ((q, i) # m) a (nodes @ m) a' \<and>
     (r = 0 \<and> nodes \<noteq> [] \<and> map_ok nodes \<and> map_space nodes = entry_range i - entry_range e
        \<and> (\<forall>n \<in> set nodes. entry_range (snd n) \<inter> entry_range e = {})
      \<or> r = -1 \<and> nodes = [(q, i)])"
proof -
  have ie: "me_base i \<le> me_base e" "entry_end e \<le> entry_end i"
      "\<not> (me_base e = me_base i \<and> entry_end i = entry_end e)"
    using collision_cases [OF i e] c by auto
  note ee = entry_okD [OF e]
  consider (front) "me_base i = me_base e" "entry_end e < entry_end i"
    | (rear) "me_base i < me_base e" "entry_end i = entry_end e"
    | (mid) "me_base i < me_base e" "entry_end e < entry_end i"
    using ie by fastforce
  then show ?thesis
  proof cases
    case front
    note T = trim_front [OF front(2)]
    have "exclude_inside alc (q, i) e a = Some (0, [(q, i\<lparr>me_base := entry_end e + 1, me_size := entry_end i - entry_end e\<rparr>)], a)"
      using front by (simp add: exclude_inside_def entry_size_end [of e] entry_size_end [of i])
    moreover have "{entry_end e <.. entry_end i} = entry_range i - entry_range e"
      using front ee by (auto simp: entry_range_def)
    ultimately show ?thesis
      using o a T by (auto simp: map_ok_Cons hands_over_def owns_def)
  next
    case rear
    note T = trim_rear [OF rear(1)]
    have "me_base i + me_size i - 1 = me_base e + me_size e - 1" using rear(2) by (simp only: entry_end_def)
    moreover have "me_size i - me_size e = me_base e - me_base i"
      by (simp only: entry_size_end [of e] entry_size_end [of i] rear(2)) simp
    moreover have "me_base i \<noteq> me_base e" "me_base e - me_base i \<noteq> 0" using rear(1) by auto
    ultimately have "exclude_inside alc (q, i) e a = Some (0, [(q, i\<lparr>me_size := me_base e - me_base i\<rparr>)], a)"
      by (simp only: exclude_inside_def Let_def fst_conv snd_conv if_True if_False simp_thms) simp
    moreover have "{me_base i ..< me_base e} = entry_range i - entry_range e"
      using rear ee by (auto simp: entry_range_def)
    ultimately show ?thesis
      using o a T by (auto simp: map_ok_Cons hands_over_def owns_def)
  next
    case mid
    note L = trim_rear [OF mid(1)] and R = trim_front [OF mid(2)]
    let ?l = "i\<lparr>me_size := me_base e - me_base i\<rparr>"
    let ?r = "i\<lparr>me_base := entry_end e + 1, me_size := entry_end i - entry_end e\<rparr>"
    obtain t a' where al: "mma_alloc alc a = Some (t, a')" and a': "ainv a'"
      and lv: "if t = NULL then live a' = live a else t \<notin> live a \<and> live a' = insert t (live a)"
      using alloc_law [OF a] by blast
    have ne: "me_base i \<noteq> me_base e" "me_base i + me_size i - 1 \<noteq> me_base e + me_size e - 1"
      using mid by (auto simp: entry_end_def)
    have res: "exclude_inside alc (q, i) e a = Some (if t = NULL then (-1, [(q, i)], a') else (0, [(q, ?l), (t, ?r)], a'))"
      using ne al by (simp add: exclude_inside_def entry_size_end [of e] entry_size_end [of i])
    have un: "entry_range ?l \<union> entry_range ?r = entry_range i - entry_range e"
      using L(3) R(3) mid ee by (auto simp: entry_range_def)
    have "entry_end e < entry_end e + 1" using mid(2) by unat_arith
    then have "entry_end ?l < me_base ?r" using L(1,4) ee by auto
    then show ?thesis using res un L(2) R(2) a' o lv
      by (cases "t = NULL") (auto simp: map_ok_Cons hands_over_def owns_def)
  qed
qed

text \<open>What \<^verbatim>\<open>exclude_inside\<close> leaves, and what lies behind it, does not meet the range any more.\<close>

lemma exclude_inside_rest:
  assumes "map_ok ((q, i) # m)" and e: "entry_ok e" and c: "entry_end e \<le> entry_end i"
    and nd: "nodes \<noteq> []" "map_ok nodes" "\<forall>n \<in> set nodes. entry_range (snd n) \<inter> entry_range e = {}"
  shows "exclude_loop alc e (tl nodes @ m) a = Some (0, tl nodes @ m, a)"
proof (rule exclude_loop_disjoint)
  fix k assume "k \<in> set (tl nodes @ m)"
  then consider (new) "k \<in> set nodes" | (old) "k \<in> set m" using nd(1) by (cases nodes) auto
  then show "check_entry_collision (snd k) e = NOTHING"
  proof cases
    case new
    then show ?thesis using nd(2,3) e by (auto simp: collision_nothing_iff map_ok_def)
  next
    case old
    then have "entry_ok (snd k)" "entry_end i < me_base (snd k)" using assms(1) by (auto simp: map_ok_Cons map_ok_def)
    moreover from this c have "entry_range (snd k) \<inter> entry_range e = {}"
      by (auto simp: entry_range_def)
    ultimately show ?thesis using e by (simp add: collision_nothing_iff)
  qed
qed

text \<open>\<^verbatim>\<open>memory_map_exclude\<close> removes the range from the space of the map, or fails and changes nothing.\<close>

lemma exclude_loop_correct:
  assumes "map_ok m" and "entry_ok e" and "ainv a" and "owns live m a"
  shows "\<exists>r m' a'. exclude_loop alc e m a = Some (r, m', a') \<and> ainv a' \<and> hands_over live m a m' a'
     \<and> map_ok m' \<and> map_space m' \<subseteq> map_space m
     \<and> (r = 0 \<and> map_space m' = map_space m - entry_range e
        \<or> r = -1 \<and> m' = m \<and> (\<exists>n \<in> set m. me_base (snd n) \<le> me_base e))"
  using assms
proof (induction m arbitrary: a)
  case Nil
  then show ?case by (auto simp: hands_over_refl)
next
  case (Cons n m)
  obtain q i where n: "n = (q, i)" by (cases n)
  have i: "entry_ok i" and m: "map_ok m" and sep: "\<And>y. y \<in> set m \<Longrightarrow> entry_end i < me_base (snd y)"
    using Cons.prems(1) by (auto simp: n map_ok_Cons)
  note e = Cons.prems(2)
  note ie = entry_okD [OF i] and ee = entry_okD [OF e]
  have own: "owns live ((q, i) # m) a" using Cons.prems(4) by (simp add: n)
  obtain r m' a' where IH: "exclude_loop alc e m a = Some (r, m', a')" "ainv a'" "hands_over live m a m' a'"
      "map_ok m'" "map_space m' \<subseteq> map_space m"
      and post: "r = 0 \<and> map_space m' = map_space m - entry_range e
        \<or> r = -1 \<and> m' = m \<and> (\<exists>n \<in> set m. me_base (snd n) \<le> me_base e)"
    using Cons.IH [OF m e Cons.prems(3) owns_tl [OF own]] by blast
  have low: "entry_end i < x" if "x \<in> map_space m" for x
    using that sep by (auto simp: map_space_def entry_range_def intro: less_le_trans)
  show ?case
  proof (cases "check_entry_collision i e")
    case NOTHING
    then have "entry_range i \<inter> entry_range e = {}" by (simp add: collision_nothing_iff [OF i e])
    moreover have "exclude_loop alc e (n # m) a = Some (r, (q, i) # m', a')"
      using NOTHING IH(1) by (subst exclude_loop.simps) (simp add: n)
    moreover have "map_ok ((q, i) # m')"
      by (rule map_ok_trim [OF Cons.prems(1) [unfolded n] i order_refl IH(4,5)])
    ultimately show ?thesis
      using IH(2,5) hands_over_Cons [OF own IH(3), of i] post by (auto simp: n)
  next
    case BEGIN
    have c: "me_base i < me_base e" "me_base e \<le> entry_end i" "entry_end i < entry_end e"
      using collision_cases [OF i e] BEGIN by auto
    let ?i = "i\<lparr>me_size := me_base e - me_base i\<rparr>"
    note T = trim_rear [OF c(1)]
    have nz: "me_base e - me_base i \<noteq> 0" using c(1) by auto
    have r0: "r = 0" and sp: "map_space m' = map_space m - entry_range e"
      using post c sep by fastforce+
    have "exclude_loop alc e (n # m) a = Some (0, (q, ?i) # m', a')"
      using IH(1) r0 by (subst exclude_loop.simps) (simp add: n BEGIN nz Let_def del: right_minus_eq)
    moreover have "map_ok ((q, ?i) # m')"
      by (rule map_ok_trim [OF Cons.prems(1) [unfolded n] T(2) _ IH(4,5)]) (use T(1,4) c in simp)
    moreover have "entry_range ?i = entry_range i - entry_range e"
      unfolding T(3) using c by (auto simp: entry_range_def)
    ultimately show ?thesis
      using IH(2) hands_over_Cons [OF own IH(3), of ?i] sp by (auto simp: n)
  next
    case END
    have c: "me_base e < me_base i" "me_base i \<le> entry_end e" "entry_end e < entry_end i"
      using collision_cases [OF i e] END by auto
    let ?i = "i\<lparr>me_base := entry_end e + 1, me_size := entry_end i - entry_end e\<rparr>"
    note T = trim_front [OF c(3)]
    have eq: "i\<lparr>me_size := me_size i - (me_base e + me_size e - me_base i), me_base := me_base e + me_size e\<rparr> = ?i"
      by (simp add: entry_size_end [of e] entry_size_end [of i])
    have r0: "r = 0" and sp: "map_space m' = map_space m - entry_range e"
      using post c sep ie by fastforce+
    have sz: "me_size i - (me_base e + me_size e - me_base i) \<noteq> 0"
      using c(3) by (simp add: entry_size_end [of e] entry_size_end [of i])
    have "exclude_loop alc e (n # m) a = Some (0, (q, ?i) # m', a')"
      using IH(1) r0 by (subst exclude_loop.simps) (simp add: n END sz eq Let_def del: right_minus_eq)
    moreover have "map_ok ((q, ?i) # m')"
      by (rule map_ok_trim [OF Cons.prems(1) [unfolded n] T(2) _ IH(4,5)]) (use T(1) in simp)
    moreover have "entry_range ?i = entry_range i - entry_range e"
      unfolding T(3) using c by (auto simp: entry_range_def)
    ultimately show ?thesis
      using IH(2) hands_over_Cons [OF own IH(3), of ?i] sp by (auto simp: n)
  next
    case OVERLAP
    have c: "me_base e \<le> me_base i" "entry_end i \<le> entry_end e"
      using collision_cases [OF i e] OVERLAP by auto
    have "q \<in> live a" using own by (auto simp: owns_def)
    then obtain a1 where f: "mma_free alc q a = Some a1" "ainv a1" "live a - {q} \<subseteq> live a1"
      using free_law [OF Cons.prems(3)] by blast
    have own1: "owns live m a1" using own f(3) by (auto simp: owns_def)
    obtain r1 m1 a2 where IH1: "exclude_loop alc e m a1 = Some (r1, m1, a2)" "ainv a2" "hands_over live m a1 m1 a2"
        "map_ok m1" "map_space m1 \<subseteq> map_space m"
        and post1: "r1 = 0 \<and> map_space m1 = map_space m - entry_range e
          \<or> r1 = -1 \<and> m1 = m \<and> (\<exists>n \<in> set m. me_base (snd n) \<le> me_base e)"
      using Cons.IH [OF m e f(2) own1] by blast
    have r0: "r1 = 0" and sp: "map_space m1 = map_space m - entry_range e"
      using post1 c sep ie by fastforce+
    have "exclude_loop alc e (n # m) a = Some (0, m1, a2)"
      using OVERLAP IH1(1) f(1) r0 by (subst exclude_loop.simps) (simp add: n)
    moreover have "hands_over live ((q, i) # m) a m1 a2"
      using IH1(3) f(3) by (auto simp: hands_over_def)
    moreover have "entry_range i \<subseteq> entry_range e" using c by (auto simp: entry_range_def)
    ultimately show ?thesis using IH1(2,4) sp by (auto simp: n)
  next
    case INSIDE
    have c: "me_base i \<le> me_base e" "entry_end e \<le> entry_end i"
      using collision_cases [OF i e] INSIDE by auto
    have far: "map_space m \<inter> entry_range e = {}"
      using low c by (fastforce simp: entry_range_def)
    obtain r1 nodes a1 where x: "exclude_inside alc (q, i) e a = Some (r1, nodes, a1)" "ainv a1"
        "hands_over live ((q, i) # m) a (nodes @ m) a1"
        and p: "r1 = 0 \<and> nodes \<noteq> [] \<and> map_ok nodes \<and> map_space nodes = entry_range i - entry_range e
             \<and> (\<forall>n \<in> set nodes. entry_range (snd n) \<inter> entry_range e = {})
           \<or> r1 = -1 \<and> nodes = [(q, i)]"
      using exclude_inside_cut [OF i e INSIDE Cons.prems(3) own] by blast
    show ?thesis
    proof (cases "r1 = 0")
      case False
      then have "exclude_loop alc e (n # m) a = Some (-1, (q, i) # m, a1)"
        using INSIDE x(1) p by (subst exclude_loop.simps) (auto simp: n)
      then show ?thesis using x p False Cons.prems(1) c by (auto simp: n)
    next
      case True
      with p have nd: "nodes \<noteq> []" "map_ok nodes" "map_space nodes = entry_range i - entry_range e"
          "\<And>n. n \<in> set nodes \<Longrightarrow> entry_range (snd n) \<inter> entry_range e = {}" by auto
      have "exclude_loop alc e (n # m) a = Some (0, nodes @ m, a1)"
        using INSIDE x(1) True nd(1) exclude_inside_rest [OF Cons.prems(1) [unfolded n] e c(2) nd(1,2), of a1] nd(4)
        by (subst exclude_loop.simps) (simp add: n flip: append_Cons)
      moreover have "map_ok (nodes @ m)"
        by (rule map_ok_append [OF nd(2) m]) (use nd(3) low in \<open>auto simp: entry_range_def intro: le_less_trans\<close>)
      moreover have "map_space (nodes @ m) = map_space ((q, i) # m) - entry_range e"
        using nd(3) far by auto
      ultimately show ?thesis using x(2,3) by (auto simp: n)
    qed
  qed
qed

text \<open>\<^verbatim>\<open>memory_map_alloc\<close> takes its region from the first entry that is big enough.\<close>

lemma alloc_loop_none:
  "\<forall>n \<in> set m. me_size (snd n) < sz \<Longrightarrow> alloc_loop alc sz prev m a = Some (0, m, a)"
  by (induction m arbitrary: prev) auto

lemma alloc_loop_some:
  assumes "map_ok m" and "ainv a" and "owns live m a" and "sz \<noteq> 0"
    and "prev \<noteq> NULL \<or> me_size (snd (hd m)) \<noteq> sz"
    and "\<exists>n \<in> set m. sz \<le> me_size (snd n)"
  shows "\<exists>p m' a'. alloc_loop alc sz prev m a = Some (p, m', a') \<and> ainv a' \<and> hands_over live m a m' a'
     \<and> map_ok m' \<and> p \<le> p + sz - 1 \<and> {p .. p + sz - 1} \<subseteq> map_space m
     \<and> map_space m' = map_space m - {p .. p + sz - 1}"
  using assms
proof (induction m arbitrary: prev a)
  case Nil
  then show ?case by simp
next
  case (Cons n m)
  obtain q i where n: "n = (q, i)" by (cases n)
  have i: "entry_ok i" and m: "map_ok m" using Cons.prems(1) by (auto simp: n map_ok_Cons)
  have own: "owns live ((q, i) # m) a" using Cons.prems(3) by (simp add: n)
  have low: "entry_end i < x" if "x \<in> map_space m" for x
    using that Cons.prems(1) by (auto simp: n map_ok_Cons map_space_def entry_range_def intro: less_le_trans)
  note cut = subregion [OF entry_okD [OF i, unfolded entry_end_def] _ \<open>sz \<noteq> 0\<close>]
  show ?case
  proof (cases "sz \<le> me_size i")
    case fits: True
    show ?thesis
    proof (cases "me_size i = sz")
      case True
      then have nz: "prev \<noteq> NULL" using Cons.prems(5) by (simp add: n)
      have "q \<in> live a" using own by (auto simp: owns_def)
      then obtain a1 where f: "mma_free alc q a = Some a1" "ainv a1" "live a - {q} \<subseteq> live a1"
        using free_law [OF Cons.prems(2)] by blast
      have "alloc_loop alc sz prev (n # m) a = Some (me_base i, m, a1)"
        using f(1) True nz by (simp add: n)
      moreover have "hands_over live (n # m) a m a1"
        using own f(3) by (auto simp: hands_over_def owns_def n)
      moreover have "{me_base i .. me_base i + sz - 1} = entry_range i"
        using True by (auto simp: entry_range_def entry_end_def)
      moreover have "map_space m \<inter> entry_range i = {}" using low by (fastforce simp: entry_range_def)
      moreover have "me_base i \<le> me_base i + sz - 1" using cut [OF fits] True by simp
      ultimately show ?thesis using f(2) m by (auto simp: n)
    next
      case False
      with fits have lt: "sz < me_size i" by simp
      let ?i = "i\<lparr>me_base := me_base i + sz, me_size := me_size i - sz\<rparr>"
      have e: "entry_end ?i = entry_end i" by (simp add: entry_end_def)
      have b: "me_base i \<le> me_base i + sz - 1" "me_base i + sz - 1 < entry_end i"
        using cut [OF fits] lt by (auto simp: entry_end_def)
      have bs: "me_base i + sz \<le> x \<longleftrightarrow> me_base i + sz - 1 < x" for x
        using word_succ_le [OF b(2), of x] by simp
      have r: "entry_range ?i = entry_range i - {me_base i .. me_base i + sz - 1}"
        using b(1) e by (auto simp: entry_range_def bs)
      have ok: "entry_ok ?i" using b(2) e lt by (simp add: entry_ok_def bs)
      have "alloc_loop alc sz prev (n # m) a = Some (me_base i, (q, ?i) # m, a)"
        using fits False by (simp add: n)
      moreover have "map_ok ((q, ?i) # m)" using Cons.prems(1) ok e by (auto simp: n map_ok_Cons)
      moreover have "hands_over live (n # m) a ((q, ?i) # m) a"
        using own by (auto simp: hands_over_def owns_def n)
      moreover have "map_space m \<inter> {me_base i .. me_base i + sz - 1} = {}"
        using low b(2) by fastforce
      moreover have "{me_base i .. me_base i + sz - 1} \<subseteq> entry_range i"
        using b(2) by (auto simp: entry_range_def)
      ultimately show ?thesis using Cons.prems(2) b(1) r by (auto simp: n)
    qed
  next
    case False
    have q: "q \<noteq> NULL" using own by (auto simp: owns_def)
    have "\<exists>k \<in> set m. sz \<le> me_size (snd k)" using Cons.prems(6) False by (auto simp: n)
    then obtain p m' a' where IH: "alloc_loop alc sz q m a = Some (p, m', a')" "ainv a'" "hands_over live m a m' a'"
        "map_ok m'" "p \<le> p + sz - 1" "{p .. p + sz - 1} \<subseteq> map_space m"
        "map_space m' = map_space m - {p .. p + sz - 1}"
      using Cons.IH [OF m Cons.prems(2) owns_tl [OF own] \<open>sz \<noteq> 0\<close>, of q] q by blast
    have "alloc_loop alc sz prev (n # m) a = Some (p, (q, i) # m', a')"
      using IH(1) False by (simp add: n)
    moreover have "map_ok ((q, i) # m')"
      by (rule map_ok_trim [OF Cons.prems(1) [unfolded n] i order_refl IH(4)]) (use IH(7) in auto)
    moreover have "entry_range i \<inter> {p .. p + sz - 1} = {}"
      using IH(6) low by (fastforce simp: entry_range_def)
    ultimately show ?thesis
      using IH(2,5,6,7) hands_over_Cons [OF own IH(3), of i] by (auto simp: n)
  qed
qed

lemma alloc_at_correct:
  assumes "map_ok m" and "entry_ok e" and "ainv a" and "owns live m a"
  shows "\<exists>r m' a'. alloc_at_loop alc e m a = Some (r, m', a') \<and> ainv a' \<and> hands_over live m a m' a'
     \<and> map_ok m' \<and> map_space m' \<subseteq> map_space m
     \<and> (r = 0 \<and> entry_range e \<subseteq> map_space m \<and> map_space m' = map_space m - entry_range e \<or> r = -1 \<and> m' = m)"
  using assms
proof (induction m arbitrary: a)
  case Nil
  then show ?case by (auto simp: hands_over_refl)
next
  case (Cons n m)
  obtain q i where n: "n = (q, i)" by (cases n)
  have i: "entry_ok i" and m: "map_ok m" using Cons.prems(1) by (auto simp: n map_ok_Cons)
  note e = Cons.prems(2)
  have own: "owns live ((q, i) # m) a" using Cons.prems(4) by (simp add: n)
  have low: "entry_end i < x" if "x \<in> map_space m" for x
    using that Cons.prems(1) by (auto simp: n map_ok_Cons map_space_def entry_range_def intro: less_le_trans)
  have stay: ?case if "alloc_at_loop alc e (n # m) a = Some (-1, n # m, a)"
    using that Cons.prems(1,3) hands_over_refl [OF Cons.prems(4)]
    by (intro exI [of _ "-1"] exI [of _ "n # m"] exI [of _ a]) simp
  show ?case
  proof (cases "check_entry_collision i e")
    case NOTHING
    then have dj: "entry_range i \<inter> entry_range e = {}" by (simp add: collision_nothing_iff [OF i e])
    obtain r m' a' where IH: "alloc_at_loop alc e m a = Some (r, m', a')" "ainv a'" "hands_over live m a m' a'"
        "map_ok m'" "map_space m' \<subseteq> map_space m"
        and post: "r = 0 \<and> entry_range e \<subseteq> map_space m \<and> map_space m' = map_space m - entry_range e
          \<or> r = -1 \<and> m' = m"
      using Cons.IH [OF m e Cons.prems(3) owns_tl [OF own]] by blast
    have "alloc_at_loop alc e (n # m) a = Some (r, (q, i) # m', a')"
      using NOTHING IH(1) by (simp add: n)
    moreover have "map_ok ((q, i) # m')"
      by (rule map_ok_trim [OF Cons.prems(1) [unfolded n] i order_refl IH(4,5)])
    moreover note hands_over_Cons [OF own IH(3), of i] IH(2)
    moreover have "map_space ((q, i) # m') \<subseteq> map_space (n # m)" using IH(5) by (auto simp: n)
    moreover have "r = 0 \<and> entry_range e \<subseteq> map_space (n # m) \<and> map_space ((q, i) # m') = map_space (n # m) - entry_range e
        \<or> r = -1 \<and> (q, i) # m' = n # m"
      using post dj by (auto simp: n)
    ultimately show ?thesis by (simp only: n) blast
  next
    case OVERLAP
    show ?thesis
    proof (cases "me_base i = me_base e \<and> me_size i = me_size e")
      case True
      have "q \<in> live a" using own by (auto simp: owns_def)
      then obtain a1 where f: "mma_free alc q a = Some a1" "ainv a1" "live a - {q} \<subseteq> live a1"
        using free_law [OF Cons.prems(3)] by blast
      have "alloc_at_loop alc e (n # m) a = Some (0, m, a1)" using OVERLAP True f(1) by (simp add: n)
      moreover have "hands_over live (n # m) a m a1"
        using own f(3) by (auto simp: hands_over_def owns_def n)
      moreover have "entry_range e = entry_range i" using True by (simp add: entry_range_def entry_end_def)
      moreover have "map_space m \<inter> entry_range i = {}" using low by (fastforce simp: entry_range_def)
      ultimately show ?thesis using f(2) m by (auto simp: n)
    next
      case False
      then have "\<not> (me_base i = me_base e \<and> me_size i = me_size e)" .
      then show ?thesis using OVERLAP by (intro stay) (simp only: n alloc_at_loop.simps entry_collision_type.case if_False)
    qed
  next
    case INSIDE
    have c: "me_base i \<le> me_base e" "entry_end e \<le> entry_end i"
      using collision_cases [OF i e] INSIDE by auto
    obtain r1 nodes a1 where x: "exclude_inside alc (q, i) e a = Some (r1, nodes, a1)" "ainv a1"
        "hands_over live ((q, i) # m) a (nodes @ m) a1"
        and p: "r1 = 0 \<and> nodes \<noteq> [] \<and> map_ok nodes \<and> map_space nodes = entry_range i - entry_range e
             \<and> (\<forall>n \<in> set nodes. entry_range (snd n) \<inter> entry_range e = {})
           \<or> r1 = -1 \<and> nodes = [(q, i)]"
      using exclude_inside_cut [OF i e INSIDE Cons.prems(3) own] by blast
    show ?thesis
    proof (cases "r1 = 0")
      case False
      then show ?thesis using INSIDE x p Cons.prems(1) by (auto simp: n)
    next
      case True
      with p have nd: "map_ok nodes" "map_space nodes = entry_range i - entry_range e" by auto
      have "entry_range e \<subseteq> entry_range i" using c by (auto simp: entry_range_def)
      moreover have "map_space m \<inter> entry_range e = {}" using low c by (fastforce simp: entry_range_def)
      moreover have "map_ok (nodes @ m)"
        by (rule map_ok_append [OF nd(1) m]) (use nd(2) low in \<open>auto simp: entry_range_def intro: le_less_trans\<close>)
      ultimately show ?thesis using INSIDE x True nd by (auto simp: n)
    qed
  next
    case BEGIN
    then show ?thesis by (intro stay) (simp add: n)
  next
    case END
    then show ?thesis by (intro stay) (simp add: n)
  qed
qed

lemma add_correct:
  assumes m: "map_ok m" and e: "entry_ok \<lparr>me_base = b, me_size = sz\<rparr>" and a: "ainv a" and o: "owns live m a"
  shows "\<exists>r m' a'. memory_map_add alc m b sz a = Some (r, m', a') \<and> ainv a' \<and> hands_over live m a m' a'
     \<and> map_ok m'
     \<and> (r = 0 \<and> map_space m \<inter> {b .. b + sz - 1} = {} \<and> map_space m' = map_space m \<union> {b .. b + sz - 1}
        \<or> r = -1 \<and> m' = m)"
proof -
  let ?e = "\<lparr>me_base = b, me_size = sz\<rparr>"
  have rng: "entry_range ?e = {b .. b + sz - 1}" by (simp add: entry_range_def entry_end_def)
  obtain t a' where al: "mma_alloc alc a = Some (t, a')" and a': "ainv a'"
    and lv: "if t = NULL then live a' = live a else t \<notin> live a \<and> live a' = insert t (live a)"
    using alloc_law [OF a] by blast
  show ?thesis
  proof (cases "t = NULL")
    case True
    then show ?thesis using al a' lv m o by (auto simp: memory_map_add_def hands_over_def owns_def)
  next
    case False
    with lv have lv': "t \<notin> live a" "live a' = insert t (live a)" by auto
    show ?thesis
    proof (cases "add_entry (t, ?e) m")
      case None
      then show ?thesis using al a' lv' False m o by (auto simp: memory_map_add_def hands_over_def owns_def)
    next
      case (Some m')
      have "t \<notin> fst ` set m" using o lv' by (auto simp: owns_def)
      then have x: "map_ok m'" "map_space m \<inter> entry_range ?e = {}" "map_space m' = map_space m \<union> entry_range ?e"
          "set m' = insert (t, ?e) (set m)" "distinct (map fst m')"
        using add_entry_correct [OF m e Some] o by (auto simp: owns_def)
      then have "hands_over live m a m' a'"
        using o lv' False by (auto simp: hands_over_def owns_def)
      then show ?thesis using al a' False Some x rng by (auto simp: memory_map_add_def)
    qed
  qed
qed

end

text \<open>
  An allocator that counts: it fails only when nothing is left, and an allocation takes one.
  Then \<^verbatim>\<open>memory_map_exclude\<close> and \<^verbatim>\<open>memory_map_add\<close> fail only for lack of entries.
\<close>

locale counted_allocator = entry_allocator alc ainv live
  for alc :: "'a memory_map_allocator" and ainv :: "'a \<Rightarrow> bool" and live :: "'a \<Rightarrow> ptr set" +
  fixes avail :: "'a \<Rightarrow> nat"
  assumes count_alloc: "ainv a \<Longrightarrow> mma_alloc alc a = Some (p, a') \<Longrightarrow>
      avail a \<le> Suc (avail a') \<and> (0 < avail a \<longrightarrow> p \<noteq> NULL)"
    and count_free: "ainv a \<Longrightarrow> p \<in> live a \<Longrightarrow> mma_free alc p a = Some a' \<Longrightarrow> avail a \<le> avail a'"

lemma add_entry_disjoint:
  assumes "map_ok m" and "entry_ok e" and "map_space m \<inter> entry_range e = {}"
  shows "add_entry (t, e) m \<noteq> None"
  using assms by (induction m) (auto simp: map_ok_Cons collision_nothing_iff)

context counted_allocator begin

lemma exclude_inside_counted:
  assumes "exclude_inside alc (q, i) e a = Some (r, nodes, a')" and "ainv a"
  shows "avail a \<le> Suc (avail a') \<and> (0 < avail a \<longrightarrow> r = 0)"
  using assms count_alloc [OF assms(2)]
  by (auto simp: exclude_inside_def Let_def bind_Some_conv split: if_splits)

lemma exclude_loop_counted:
  assumes "map_ok m" and "entry_ok e" and "ainv a" and "owns live m a"
    and "exclude_loop alc e m a = Some (r, m', a')"
  shows "avail a \<le> Suc (avail a') \<and> (0 < avail a \<longrightarrow> r = 0)"
  using assms
proof (induction m arbitrary: a m')
  case Nil
  then show ?case by simp
next
  case (Cons n m)
  obtain q i where n: "n = (q, i)" by (cases n)
  have i: "entry_ok i" and m: "map_ok m" using Cons.prems(1) by (auto simp: n map_ok_Cons)
  have own: "owns live ((q, i) # m) a" using Cons.prems(4) by (simp add: n)
  note run = Cons.prems(5) [unfolded n, simplified exclude_loop.simps [of alc e "(q, i) # m"], simplified]
  note IH = Cons.IH [OF m Cons.prems(2,3) owns_tl [OF own]]
  show ?case
  proof (cases "check_entry_collision i e")
    case OVERLAP
    then obtain a1 where a1: "mma_free alc q a = Some a1" "exclude_loop alc e m a1 = Some (r, m', a')"
      using run by (auto simp: bind_Some_conv)
    have q: "q \<in> live a" using own by (auto simp: owns_def)
    from free_law [OF Cons.prems(3) q] a1(1) have "ainv a1" "live a - {q} \<subseteq> live a1" by auto
    moreover from this have "owns live m a1" using own by (auto simp: owns_def)
    ultimately show ?thesis
      using Cons.IH [OF m Cons.prems(2) _ _ a1(2)] count_free [OF Cons.prems(3) q a1(1)] by fastforce
  next
    case INSIDE
    then obtain r1 nodes a1 where x: "exclude_inside alc (q, i) e a = Some (r1, nodes, a1)"
      and rest: "if r1 \<noteq> 0 then r = -1 \<and> a' = a1
        else \<exists>m1. exclude_loop alc e (tl nodes @ m) a1 = Some (r, m1, a')"
      using run by (auto simp: bind_Some_conv split: if_splits)
    have c: "entry_end e \<le> entry_end i"
      using collision_cases [OF i Cons.prems(2)] INSIDE by auto
    have "r1 = 0 \<longrightarrow> exclude_loop alc e (tl nodes @ m) a1 = Some (0, tl nodes @ m, a1)"
      using exclude_inside_cut [OF i Cons.prems(2) INSIDE Cons.prems(3) own] x
        exclude_inside_rest [OF Cons.prems(1) [unfolded n] Cons.prems(2) c] by auto
    then show ?thesis using exclude_inside_counted [OF x Cons.prems(3)] rest by (auto split: if_splits)
  qed (use run IH in \<open>auto simp: Let_def bind_Some_conv split: if_splits\<close>)
qed

lemma exclude_succeeds:
  assumes "map_ok m" and "entry_ok \<lparr>me_base = b, me_size = sz\<rparr>" and "ainv a" and "owns live m a" and "0 < avail a"
  shows "\<exists>m' a'. memory_map_exclude alc m b sz a = Some (0, m', a') \<and> ainv a' \<and> owns live m' a'
    \<and> avail a \<le> Suc (avail a') \<and> map_ok m' \<and> map_space m' = map_space m - {b .. b + sz - 1}"
proof -
  obtain r m' a' where x: "exclude_loop alc \<lparr>me_base = b, me_size = sz\<rparr> m a = Some (r, m', a')"
    "ainv a'" "hands_over live m a m' a'" "map_ok m'"
    "r = 0 \<and> map_space m' = map_space m - entry_range \<lparr>me_base = b, me_size = sz\<rparr> \<or> r = -1"
    using exclude_loop_correct [OF assms(1-4)] by blast
  then show ?thesis
    using exclude_loop_counted [OF assms(1-4) x(1)] assms(5)
    by (auto simp: memory_map_exclude_def hands_over_def entry_range_def entry_end_def)
qed

lemma add_succeeds:
  assumes "map_ok m" and "entry_ok \<lparr>me_base = b, me_size = sz\<rparr>" and "ainv a" and "owns live m a" and "0 < avail a"
    and "map_space m \<inter> {b .. b + sz - 1} = {}"
  shows "\<exists>m' a'. memory_map_add alc m b sz a = Some (0, m', a') \<and> ainv a' \<and> owns live m' a'
    \<and> avail a \<le> Suc (avail a') \<and> map_ok m' \<and> map_space m' = map_space m \<union> {b .. b + sz - 1}"
proof -
  obtain r m' a' where x: "memory_map_add alc m b sz a = Some (r, m', a')" "ainv a'" "hands_over live m a m' a'"
    "map_ok m'" "r = 0 \<and> map_space m' = map_space m \<union> {b .. b + sz - 1} \<or> r = -1"
    using add_correct [OF assms(1-4)] by blast
  obtain p a1 where al: "mma_alloc alc a = Some (p, a1)" using alloc_law [OF assms(3)] by blast
  then have "p \<noteq> NULL" "avail a \<le> Suc (avail a1)" using count_alloc [OF assms(3) al] assms(5) by auto
  moreover have "entry_range \<lparr>me_base = b, me_size = sz\<rparr> = {b .. b + sz - 1}"
    by (simp add: entry_range_def entry_end_def)
  ultimately show ?thesis
    using x al assms(6) add_entry_disjoint [OF assms(1,2), of p]
    by (auto simp: memory_map_add_def hands_over_def split: option.splits)
qed

end

end
