(* ===== verification/Pmm.thy ===== *)
theory Pmm
  imports MemMap Spinlock
begin

text \<open>
  Physical memory: the conversions of \<^verbatim>\<open>mm/vmm.c\<close> between physical pages and their place in the
  physical map, the table of free pages of \<^verbatim>\<open>mm/pmm.c\<close>, and the construction of the map of free
  memory from the multiboot information in \<^verbatim>\<open>arch/amd64/src/mm/pmm.c\<close>.
\<close>

section \<open>Physical addresses\<close>

definition vmm_provide_phys :: "ptr \<Rightarrow> ptr option" where
  "vmm_provide_phys phys =
     (if phys \<ge> PHYS_MAP_SIZE then None
      else if phys = 0 then None
      else Some (PHYS_MAP_BASE + phys))"

definition vmm_revert_phys :: "ptr \<Rightarrow> ptr option" where
  "vmm_revert_phys virt =
     (if virt < PHYS_MAP_BASE \<or> virt > (PHYS_MAP_BASE + PHYS_MAP_SIZE - 1) then None
      else Some (virt - PHYS_MAP_BASE))"

section \<open>The table of free pages\<close>

text \<open>
  The variable \<^verbatim>\<open>s_freeTable\<close> is a pointer: its value is \<open>free_table\<close>, and \<open>s_freeTable\<close> is what the table
  holds.  The pages at indices from the number of allocated pages up to the number of pages are free.
\<close>

record pmm_state = cpu_state +
  free_table :: ptr
  s_freeTable :: "nat \<Rightarrow> ptr"
  s_freePageCount :: nat
  s_allocatedPageCount :: nat

record pmm_statistics =
  memory_size :: u64
  used_size :: u64

definition pmm_alloc :: "'a pmm_state_scheme \<Rightarrow> (ptr \<times> 'a pmm_state_scheme) option" where
  "pmm_alloc s = do {
     s \<leftarrow> spinlock_disable PMM_LOCK s;
     let (p, s) = (if s_allocatedPageCount s = s_freePageCount s then (0, s)
                   else (s_freeTable s (s_allocatedPageCount s),
                         s\<lparr>s_allocatedPageCount := s_allocatedPageCount s + 1\<rparr>));
     Some (p, spinunlock_enable PMM_LOCK s)
   }"

definition pmm_free :: "ptr \<Rightarrow> 'a pmm_state_scheme \<Rightarrow> 'a pmm_state_scheme option" where
  "pmm_free p s =
     (if p AND NOT PAGE_MASK \<noteq> 0 then None
      else do {
        s \<leftarrow> spinlock_disable PMM_LOCK s;
        if s_allocatedPageCount s = 0 then None
        else
          let s = s\<lparr>s_allocatedPageCount := s_allocatedPageCount s - 1\<rparr>;
              s = s\<lparr>s_freeTable := (s_freeTable s)(s_allocatedPageCount s := p)\<rparr>
          in Some (spinunlock_enable PMM_LOCK s)
      })"

definition sys_pmm_get_statistics ::
  "'a pmm_state_scheme \<Rightarrow> (int \<times> pmm_statistics \<times> 'a pmm_state_scheme) option" where
  "sys_pmm_get_statistics s = do {
     s \<leftarrow> spinlock_disable PMM_LOCK s;
     let stat = \<lparr>memory_size = of_nat (s_freePageCount s) * PAGE_SIZE,
                 used_size = of_nat (s_allocatedPageCount s) * PAGE_SIZE\<rparr>;
     Some (0, stat, spinunlock_enable PMM_LOCK s)
   }"

definition free_table_filler :: "u64 \<Rightarrow> u64 \<Rightarrow> 'a pmm_state_scheme \<Rightarrow> 'a pmm_state_scheme option" where
  "free_table_filler base sz s =
     map_option snd (for_pages
       (\<lambda>i s. Some (True, s\<lparr>s_freeTable := (s_freeTable s)(s_freePageCount s := base + i),
                            s_freePageCount := s_freePageCount s + 1\<rparr>)) sz 0 s)"

definition pmm_init ::
  "'b memory_map_allocator \<Rightarrow> u64 \<Rightarrow> memory_map \<Rightarrow> 'b \<Rightarrow> 'a pmm_state_scheme
     \<Rightarrow> (memory_map \<times> 'b \<times> 'a pmm_state_scheme) option" where
  "pmm_init alc mem_size free_map b s = do {
     let sz = mem_size div PAGE_SIZE * 8;
     (p, free_map, b) \<leftarrow> memory_map_alloc alc free_map (PAGE_ALIGN sz) b;
     if p = 0 then None
     else do {
       table \<leftarrow> vmm_provide_phys p;
       s \<leftarrow> memory_map_iterate free_map free_table_filler (s\<lparr>free_table := table\<rparr>);
       Some (free_map, b, s)
     }
   }"

section \<open>The free memory map at boot\<close>

abbreviation (input) INITIAL_ENTRIES :: nat where
  "INITIAL_ENTRIES \<equiv> 32"

abbreviation (input) KERNEL_PHYS_BASE :: u64 where
  "KERNEL_PHYS_BASE \<equiv> 0x200000"

abbreviation (input) KERNEL_VIRT_BASE :: u64 where
  "KERNEL_VIRT_BASE \<equiv> 0xffffffff80000000"

text \<open>The static array of entries: where the linker put it, and how many are used.\<close>

record early_entries =
  entry_cache :: ptr
  used_entries :: nat

abbreviation (input) sizeof_memory_map_entry :: u64 where
  "sizeof_memory_map_entry \<equiv> 24"

definition pmm_arch_early_entry_alloc :: "early_entries \<Rightarrow> (ptr \<times> early_entries) option" where
  "pmm_arch_early_entry_alloc a =
     (if used_entries a = INITIAL_ENTRIES then Some (NULL, a)
      else Some (entry_cache a + of_nat (used_entries a) * sizeof_memory_map_entry,
                 a\<lparr>used_entries := used_entries a + 1\<rparr>))"

definition pmm_arch_early_entry_free :: "ptr \<Rightarrow> early_entries \<Rightarrow> early_entries option" where
  "pmm_arch_early_entry_free e a = Some a"

definition s_pmm_early_map_allocator :: "early_entries memory_map_allocator" where
  "s_pmm_early_map_allocator =
     \<lparr>mma_alloc = pmm_arch_early_entry_alloc, mma_free = pmm_arch_early_entry_free\<rparr>"

record mb_mmap_entry =
  mm_size :: u32
  mm_base :: u64
  mm_length :: u64
  mm_type :: u32

record mb_mod_entry =
  mod_start :: u32
  mod_end :: u32
  mod_params :: u32

text \<open>\<open>mb_info\<close> holds the fields the kernel reads; what lies at the addresses it names are functions.\<close>

record mb_info =
  mem_upper :: u32
  mmap_addr :: u32
  mmap_length :: u32
  mods_addr :: u32
  mods_length :: u32
  mmap_at :: "ptr \<Rightarrow> mb_mmap_entry"
  mod_at :: "ptr \<Rightarrow> mb_mod_entry"

abbreviation (input) MEM_AVAILABLE :: u32 where
  "MEM_AVAILABLE \<equiv> 1"

partial_function (option) mmap_loop ::
  "mb_info \<Rightarrow> ptr \<Rightarrow> ptr \<Rightarrow> memory_map \<Rightarrow> early_entries \<Rightarrow> (memory_map \<times> early_entries) option" where
  "mmap_loop info data dend m a =
     (if data < dend then do {
        (m, a) \<leftarrow> (if mm_type (mmap_at info data) = MEM_AVAILABLE
                   then map_option snd (memory_map_add s_pmm_early_map_allocator m
                          (mm_base (mmap_at info data)) (mm_length (mmap_at info data)) a)
                   else Some (m, a));
        mmap_loop info (data + ucast (mm_size (mmap_at info data) + 4)) dend m a
      }
      else Some (m, a))"

text \<open>The alignment of the end of a module is computed on 32 bits.\<close>

definition mod_entry :: "mb_info \<Rightarrow> nat \<Rightarrow> mb_mod_entry" where
  "mod_entry info i = mod_at info (ucast (mods_addr info) + of_nat i * 16)"

definition mod_room :: "mb_mod_entry \<Rightarrow> u64" where
  "mod_room md = ucast (((mod_end md + 0x1000 - 1) AND NOT 0xfff) - mod_start md)"

fun exclude_mods ::
  "mb_info \<Rightarrow> nat list \<Rightarrow> memory_map \<Rightarrow> early_entries \<Rightarrow> (memory_map \<times> early_entries) option" where
  "exclude_mods info [] m a = Some (m, a)"
| "exclude_mods info (i # is) m a = do {
     (r, m, a) \<leftarrow> memory_map_exclude s_pmm_early_map_allocator m
        (ucast (mod_start (mod_entry info i))) (mod_room (mod_entry info i)) a;
     exclude_mods info is m a
   }"

text \<open>The result: \<^verbatim>\<open>s_memory_size\<close> (a 32-bit computation) and the free map.\<close>

definition pmm_arch_build_free_map ::
  "mb_info \<Rightarrow> ptr \<Rightarrow> early_entries \<Rightarrow> (u64 \<times> memory_map \<times> early_entries) option" where
  "pmm_arch_build_free_map info kernel_end a = do {
     let memory_size = ucast (mem_upper info * 1024 + 1024 * 1024);
     let data = ucast (mmap_addr info);
     (m, a) \<leftarrow> mmap_loop info data (data + ucast (mmap_length info)) memory_map_init a;
     (r, m, a) \<leftarrow> memory_map_exclude s_pmm_early_map_allocator m 0 0x100000 a;
     (r, m, a) \<leftarrow> memory_map_exclude s_pmm_early_map_allocator m KERNEL_PHYS_BASE
        ((kernel_end - KERNEL_VIRT_BASE) - KERNEL_PHYS_BASE) a;
     (m, a) \<leftarrow> exclude_mods info [0 ..< unat (mods_length info)] m a;
     Some (memory_size, m, a)
   }"

section \<open>Physical and virtual addresses of a page\<close>

lemma unat_phys_map:
  assumes "p < PHYS_MAP_SIZE"
  shows "unat (PHYS_MAP_BASE + p) = 0xffff800000000000 + unat p"
  using assms by (simp add: word_less_nat_alt unat_word_ariths)

lemma revert_provide [simp]: "vmm_provide_phys p = Some v \<Longrightarrow> vmm_revert_phys v = Some p"
  by (auto simp: vmm_provide_phys_def vmm_revert_phys_def word_less_nat_alt [of "PHYS_MAP_BASE + p"]
      word_less_nat_alt [of _ "PHYS_MAP_BASE + p"] unat_phys_map split: if_splits)
    (simp add: word_le_nat_alt)

lemma provide_revert:
  assumes "vmm_revert_phys v = Some p" and "p \<noteq> 0"
  shows "vmm_provide_phys p = Some v"
proof -
  have v: "PHYS_MAP_BASE \<le> v" "v \<le> PHYS_MAP_BASE + PHYS_MAP_SIZE - 1" "p = v - PHYS_MAP_BASE"
    using assms(1) by (auto simp: vmm_revert_phys_def split: if_splits)
  then have "unat p = unat v - unat PHYS_MAP_BASE" by (simp only: unat_sub)
  with v(2) have "p < PHYS_MAP_SIZE" by (simp add: word_le_nat_alt word_less_nat_alt)
  then show ?thesis using v(3) assms(2) by (simp add: vmm_provide_phys_def not_le)
qed

lemma provide_eq_Some: "vmm_provide_phys p = Some v \<longleftrightarrow> p < PHYS_MAP_SIZE \<and> p \<noteq> 0 \<and> v = PHYS_MAP_BASE + p"
  by (auto simp: vmm_provide_phys_def)

lemma provide_inj: "vmm_provide_phys p = Some v \<Longrightarrow> vmm_provide_phys q = Some v \<Longrightarrow> p = q"
  by (auto simp: provide_eq_Some)

section \<open>The free pages as a stack\<close>

text \<open>
  The free pages, the next one to hand out first.  As everywhere below, the invariant is a
  predicate of the fields it is about, so the simplifier sees through updates of other fields.
\<close>

definition page_stack :: "(nat \<Rightarrow> ptr) \<Rightarrow> nat \<Rightarrow> nat \<Rightarrow> ptr list" where
  "page_stack F a n = map F [a ..< n]"

abbreviation free_stack :: "'a pmm_state_scheme \<Rightarrow> ptr list" where
  "free_stack s \<equiv> page_stack (s_freeTable s) (s_allocatedPageCount s) (s_freePageCount s)"

text \<open>
  A page that can be handed out: not NULL, aligned and below the end of the physical map, which is what
  \<^verbatim>\<open>vmm_provide_phys\<close> asks for.  Memory above 1 GB is not mapped there by the boot code.
\<close>

definition usable_page :: "ptr \<Rightarrow> bool" where
  "usable_page p \<longleftrightarrow> p \<noteq> 0 \<and> page_aligned p \<and> p < PHYS_MAP_SIZE"

definition pages_ok :: "(nat \<Rightarrow> ptr) \<Rightarrow> nat \<Rightarrow> nat \<Rightarrow> bool" where
  "pages_ok F a n \<longleftrightarrow> a \<le> n \<and> distinct (page_stack F a n) \<and> (\<forall>p \<in> set (page_stack F a n). usable_page p)"

abbreviation pmm_inv :: "'a pmm_state_scheme \<Rightarrow> bool" where
  "pmm_inv s \<equiv> locks_ok s \<and> pages_ok (s_freeTable s) (s_allocatedPageCount s) (s_freePageCount s)"

lemma usable_provide: "usable_page p \<Longrightarrow> vmm_provide_phys p = Some (PHYS_MAP_BASE + p)"
  by (auto simp: usable_page_def provide_eq_Some)

lemma usable_nonzero: "usable_page p \<Longrightarrow> p \<noteq> 0"
  by (simp add: usable_page_def)

lemma page_stack_Nil [simp]: "page_stack F a n = [] \<longleftrightarrow> n \<le> a"
  by (cases n) (auto simp: page_stack_def)

lemma page_stack_Cons: "a < n \<Longrightarrow> page_stack F a n = F a # page_stack F (Suc a) n"
  by (simp add: page_stack_def upt_conv_Cons)

lemma page_stack_eq_Cons:
  "page_stack F a n = p # ps \<longleftrightarrow> a < n \<and> F a = p \<and> page_stack F (Suc a) n = ps"
  by (cases "a < n") (auto simp: page_stack_Cons, auto simp: page_stack_def)

lemma page_stack_push: "k < n \<Longrightarrow> page_stack (F(k := p)) k n = p # page_stack F (Suc k) n"
  by (simp add: page_stack_Cons) (simp add: page_stack_def)

lemma pages_ok_pop:
  "pages_ok F a n \<Longrightarrow> page_stack F a n = p # ps \<Longrightarrow>
     pages_ok F (Suc a) n \<and> usable_page p \<and> p \<notin> set ps"
  by (auto simp: pages_ok_def page_stack_eq_Cons page_stack_Cons)

lemma pages_ok_push:
  "pages_ok F (Suc k) n \<Longrightarrow> usable_page p \<Longrightarrow> p \<notin> set (page_stack F (Suc k) n) \<Longrightarrow>
     pages_ok (F(k := p)) k n"
  by (auto simp: pages_ok_def page_stack_push)

section \<open>Allocation and release of a page\<close>

lemma pmm_alloc_eq [op_simps]:
  assumes "locks_ok s"
  shows "pmm_alloc s =
    (if s_allocatedPageCount s = s_freePageCount s then Some (0, s\<lparr>locks := lock_used PMM_LOCK s\<rparr>)
     else Some (s_freeTable s (s_allocatedPageCount s),
                s\<lparr>locks := lock_used PMM_LOCK s, s_allocatedPageCount := s_allocatedPageCount s + 1\<rparr>))"
  using assms by (simp add: pmm_alloc_def op_simps)

text \<open>What the two operations do to the stack, as equations for the operations above them.\<close>

lemma pmm_alloc_empty:
  assumes "pmm_inv s" and "free_stack s = []"
  shows "pmm_alloc s = Some (0, s\<lparr>locks := lock_used PMM_LOCK s\<rparr>)"
  using assms by (simp add: op_simps pages_ok_def)

lemma pmm_alloc_some:
  assumes "pmm_inv s" and "free_stack s = p # ps"
  shows "pmm_alloc s = Some (p, s\<lparr>locks := lock_used PMM_LOCK s, s_allocatedPageCount := s_allocatedPageCount s + 1\<rparr>)"
  using assms by (auto simp: op_simps page_stack_eq_Cons)

lemma pmm_free_ok:
  assumes "pmm_inv s" and "page_aligned p" and "s_allocatedPageCount s = Suc k"
  shows "pmm_free p s = Some (s\<lparr>locks := lock_used PMM_LOCK s, s_allocatedPageCount := k,
                                s_freeTable := (s_freeTable s)(k := p)\<rparr>)"
  using assms by (simp add: pmm_free_def op_simps page_aligned_iff)

section \<open>The early allocator of map entries\<close>

definition early_inv :: "early_entries \<Rightarrow> bool" where
  "early_inv a \<longleftrightarrow> used_entries a \<le> INITIAL_ENTRIES \<and> entry_cache a \<noteq> 0
     \<and> unat (entry_cache a) + INITIAL_ENTRIES * 24 \<le> 2 ^ 64"

definition early_entry :: "early_entries \<Rightarrow> nat \<Rightarrow> ptr" where
  "early_entry a k = entry_cache a + of_nat k * sizeof_memory_map_entry"

lemma early_entry_upd [simp]: "early_entry (a\<lparr>used_entries := n\<rparr>) = early_entry a"
  by (rule ext) (simp add: early_entry_def)

definition early_live :: "early_entries \<Rightarrow> ptr set" where
  "early_live a = early_entry a ` {..< used_entries a}"

definition early_avail :: "early_entries \<Rightarrow> nat" where
  "early_avail a = INITIAL_ENTRIES - used_entries a"

lemma unat_early_entry:
  assumes "early_inv a" and "k < INITIAL_ENTRIES"
  shows "unat (early_entry a k) = unat (entry_cache a) + k * 24"
proof -
  have "unat (of_nat k * 24 :: u64) = k * 24" using assms(2) by (simp add: unat_word_ariths unat_of_nat)
  then show ?thesis using assms by (simp add: early_entry_def early_inv_def unat_word_ariths)
qed

lemma early_entry_inj:
  assumes "early_inv a" and "j < INITIAL_ENTRIES" and "k < INITIAL_ENTRIES" and "early_entry a j = early_entry a k"
  shows "j = k"
  using unat_early_entry [OF assms(1,2)] unat_early_entry [OF assms(1,3)] unfolding assms(4) by linarith

interpretation early: counted_allocator s_pmm_early_map_allocator early_inv early_live early_avail
proof unfold_locales
  fix a assume inv: "early_inv a"
  show "\<exists>p a'. mma_alloc s_pmm_early_map_allocator a = Some (p, a') \<and> early_inv a' \<and>
     (if p = NULL then early_live a' = early_live a else p \<notin> early_live a \<and> early_live a' = insert p (early_live a))"
  proof (cases "used_entries a = INITIAL_ENTRIES")
    case True
    then show ?thesis using inv by (simp add: s_pmm_early_map_allocator_def pmm_arch_early_entry_alloc_def)
  next
    case False
    with inv have lt: "used_entries a < INITIAL_ENTRIES" by (simp add: early_inv_def)
    let ?p = "early_entry a (used_entries a)" and ?a = "a\<lparr>used_entries := used_entries a + 1\<rparr>"
    have "0 < unat (entry_cache a)" using inv by (simp add: early_inv_def unat_gt_0)
    then have "0 < unat ?p" unfolding unat_early_entry [OF inv lt] by linarith
    then have "?p \<noteq> 0" by (simp only: unat_gt_0 simp_thms)
    moreover have "?p \<notin> early_live a"
    proof
      assume "?p \<in> early_live a"
      then obtain k where "k < used_entries a" "?p = early_entry a k" by (auto simp only: early_live_def)
      with early_entry_inj [OF inv lt, of k] lt show False by simp
    qed
    moreover have "early_live ?a = insert ?p (early_live a)"
      by (simp add: early_live_def lessThan_Suc)
    moreover have "mma_alloc s_pmm_early_map_allocator a = Some (?p, ?a)"
      using False by (simp add: s_pmm_early_map_allocator_def pmm_arch_early_entry_alloc_def early_entry_def)
    moreover have "early_inv ?a" using inv lt by (simp add: early_inv_def)
    ultimately show ?thesis by auto
  qed
next
  fix a p a' assume inv: "early_inv a" and al: "mma_alloc s_pmm_early_map_allocator a = Some (p, a')"
  show "early_avail a \<le> Suc (early_avail a') \<and> (0 < early_avail a \<longrightarrow> p \<noteq> NULL)"
  proof (cases "used_entries a = INITIAL_ENTRIES")
    case False
    with inv have lt: "used_entries a < INITIAL_ENTRIES" by (simp add: early_inv_def)
    have al': "p = early_entry a (used_entries a)" "early_avail a = Suc (early_avail a')"
      using al False lt by (auto simp: s_pmm_early_map_allocator_def pmm_arch_early_entry_alloc_def
          early_entry_def early_avail_def)
    have "0 < unat (entry_cache a)" using inv by (simp add: early_inv_def unat_gt_0)
    then have "0 < unat (early_entry a (used_entries a))" unfolding unat_early_entry [OF inv lt] by linarith
    then have "early_entry a (used_entries a) \<noteq> NULL" by (simp only: unat_gt_0 simp_thms)
    then show ?thesis using al' by simp
  qed (use al in \<open>simp add: s_pmm_early_map_allocator_def pmm_arch_early_entry_alloc_def early_avail_def\<close>)
qed (auto simp: s_pmm_early_map_allocator_def pmm_arch_early_entry_free_def)

section \<open>The free map at boot\<close>

text \<open>The entries the walk over the memory map of the boot loader meets.\<close>

primrec mmap_list :: "mb_info \<Rightarrow> ptr \<Rightarrow> ptr \<Rightarrow> mb_mmap_entry list \<Rightarrow> bool" where
  "mmap_list info data dend [] \<longleftrightarrow> \<not> data < dend"
| "mmap_list info data dend (e # es) \<longleftrightarrow> data < dend \<and> mmap_at info data = e
     \<and> mmap_list info (data + ucast (mm_size e + 4)) dend es"

definition region :: "mb_mmap_entry \<Rightarrow> u64 set" where
  "region e = {mm_base e .. mm_base e + mm_length e - 1}"

definition available :: "mb_mmap_entry list \<Rightarrow> mb_mmap_entry list" where
  "available es = filter (\<lambda>e. mm_type e = MEM_AVAILABLE) es"

definition region_ok :: "mb_mmap_entry \<Rightarrow> bool" where
  "region_ok e \<longleftrightarrow> entry_ok \<lparr>me_base = mm_base e, me_size = mm_length e\<rparr>"

abbreviation free_entries :: "early_entries \<Rightarrow> memory_map \<Rightarrow> bool" where
  "free_entries a m \<equiv> early_inv a \<and> owns early_live m a \<and> map_ok m"

lemma mmap_loop_correct:
  assumes "mmap_list info data dend es" and "free_entries a m"
    and "\<forall>e \<in> set (available es). region_ok e \<and> map_space m \<inter> region e = {}"
    and "pairwise (\<lambda>e f. region e \<inter> region f = {}) (set (available es))" and "distinct (available es)"
    and "length (available es) \<le> early_avail a"
  shows "\<exists>m' a'. mmap_loop info data dend m a = Some (m', a') \<and> free_entries a' m'
     \<and> early_avail a \<le> length (available es) + early_avail a'
     \<and> map_space m' = map_space m \<union> (\<Union>e \<in> set (available es). region e)"
  using assms
proof (induction es arbitrary: data m a)
  case Nil
  then show ?case by (subst mmap_loop.simps) (auto simp: available_def)
next
  case (Cons e es)
  have d: "data < dend" "mmap_at info data = e" "mmap_list info (data + ucast (mm_size e + 4)) dend es"
    using Cons.prems(1) by auto
  show ?case
  proof (cases "mm_type e = MEM_AVAILABLE")
    case False
    then have "available (e # es) = available es" by (simp add: available_def)
    then show ?thesis using Cons.IH [OF d(3), of a m] Cons.prems d(1,2) False
      by (subst mmap_loop.simps) simp
  next
    case True
    then have av: "available (e # es) = e # available es" by (simp add: available_def)
    obtain m1 a1 where add: "memory_map_add s_pmm_early_map_allocator m (mm_base e) (mm_length e) a = Some (0, m1, a1)"
      and m1: "free_entries a1 m1" "early_avail a \<le> Suc (early_avail a1)" "map_space m1 = map_space m \<union> region e"
      using early.add_succeeds [of m "mm_base e" "mm_length e" a] Cons.prems av
      by (auto simp: region_ok_def region_def)
    have "\<exists>m' a'. mmap_loop info (data + ucast (mm_size e + 4)) dend m1 a1 = Some (m', a') \<and> free_entries a' m'
       \<and> early_avail a1 \<le> length (available es) + early_avail a'
       \<and> map_space m' = map_space m1 \<union> (\<Union>e \<in> set (available es). region e)"
    proof (rule Cons.IH [OF d(3) m1(1)])
      show "\<forall>f \<in> set (available es). region_ok f \<and> map_space m1 \<inter> region f = {}"
        using Cons.prems(3-5) av m1(3) by (auto simp: pairwise_insert)
    qed (use Cons.prems(4-6) av m1(2) in \<open>auto simp: pairwise_insert\<close>)
    then show ?thesis using d add m1(2,3) av True by (subst mmap_loop.simps) auto
  qed
qed

definition mod_region :: "mb_info \<Rightarrow> nat \<Rightarrow> u64 set" where
  "mod_region info i = {ucast (mod_start (mod_entry info i)) ..
     ucast (mod_start (mod_entry info i)) + mod_room (mod_entry info i) - 1}"

definition mod_ok :: "mb_info \<Rightarrow> nat \<Rightarrow> bool" where
  "mod_ok info i \<longleftrightarrow>
     entry_ok \<lparr>me_base = ucast (mod_start (mod_entry info i)), me_size = mod_room (mod_entry info i)\<rparr>"

lemma exclude_mods_correct:
  assumes "free_entries a m" and "\<forall>i \<in> set is. mod_ok info i" and "length is \<le> early_avail a"
  shows "\<exists>m' a'. exclude_mods info is m a = Some (m', a') \<and> free_entries a' m'
     \<and> map_space m' = map_space m - (\<Union>i \<in> set is. mod_region info i)"
  using assms
proof (induction "is" arbitrary: m a)
  case Nil
  then show ?case by simp
next
  case (Cons i is')
  obtain m1 a1 where x: "memory_map_exclude s_pmm_early_map_allocator m (ucast (mod_start (mod_entry info i)))
        (mod_room (mod_entry info i)) a = Some (0, m1, a1)"
      "free_entries a1 m1" "early_avail a \<le> Suc (early_avail a1)" "map_space m1 = map_space m - mod_region info i"
    using early.exclude_succeeds [of m "ucast (mod_start (mod_entry info i))" "mod_room (mod_entry info i)" a] Cons.prems
    by (auto simp: mod_ok_def mod_region_def)
  have "\<forall>i \<in> set is'. mod_ok info i" "length is' \<le> early_avail a1" using Cons.prems(2,3) x(3) by auto
  from Cons.IH [OF x(2) this] obtain m' a' where
    "exclude_mods info is' m1 a1 = Some (m', a')" "free_entries a' m'"
    "map_space m' = map_space m1 - (\<Union>i \<in> set is'. mod_region info i)" by blast
  then show ?case using x(1,4) by auto
qed

section \<open>Filling the table of free pages\<close>

definition entry_pages :: "memory_map_entry \<Rightarrow> ptr list" where
  "entry_pages e = map (\<lambda>k. me_base e + of_nat k * PAGE_SIZE) [0 ..< unat (me_size e) div 4096]"

definition entry_aligned :: "memory_map_entry \<Rightarrow> bool" where
  "entry_aligned e \<longleftrightarrow> page_aligned (me_base e) \<and> page_aligned (me_size e)"

definition fill_table :: "(nat \<Rightarrow> ptr) \<Rightarrow> nat \<Rightarrow> ptr list \<Rightarrow> nat \<Rightarrow> ptr" where
  "fill_table F n ps = (\<lambda>k. if n \<le> k \<and> k < n + length ps then ps ! (k - n) else F k)"

lemma fill_table_Nil [simp]: "fill_table F n [] = F"
  by (rule ext) (auto simp: fill_table_def)

lemma fill_table_snoc: "(fill_table F n ps)(n + length ps := p) = fill_table F n (ps @ [p])"
  by (auto simp: fill_table_def fun_eq_iff nth_append)

lemma fill_table_append: "fill_table (fill_table F n ps) (n + length ps) qs = fill_table F n (ps @ qs)"
  by (auto simp: fill_table_def fun_eq_iff nth_append)

lemma page_stack_fill: "a \<le> n \<Longrightarrow> page_stack (fill_table F n ps) a (n + length ps) = page_stack F a n @ ps"
  by (rule nth_equalityI) (auto simp: page_stack_def fill_table_def nth_append add.commute)

lemma free_table_filler_eq:
  assumes "page_aligned sz"
  shows "free_table_filler b sz s = Some (s\<lparr>s_freeTable := fill_table (s_freeTable s) (s_freePageCount s)
              (entry_pages \<lparr>me_base = b, me_size = sz\<rparr>),
            s_freePageCount := s_freePageCount s + unat sz div 4096\<rparr>)"
proof -
  obtain n where n: "n < 2 ^ 52" "sz = of_nat n * PAGE_SIZE" "unat sz = n * 4096"
    using page_aligned_count [OF assms] by blast
  let ?ps = "\<lambda>k. map (\<lambda>k. b + of_nat k * PAGE_SIZE) [0 ..< k]"
  let ?I = "\<lambda>k t. t = s\<lparr>s_freeTable := fill_table (s_freeTable s) (s_freePageCount s) (?ps k),
     s_freePageCount := s_freePageCount s + k\<rparr>"
  let ?f = "\<lambda>i s. Some (True, s\<lparr>s_freeTable := (s_freeTable s)(s_freePageCount s := b + i),
                            s_freePageCount := s_freePageCount s + 1\<rparr>)"
  have "\<exists>ok t. for_pages ?f (of_nat n * PAGE_SIZE) 0 s = Some (ok, t) \<and> (if ok then ?I n t else False)"
  proof (rule for_pages_total [OF n(1)])
    fix k t assume "?I k t"
    then show "\<exists>ok t'. ?f (of_nat k * PAGE_SIZE) t = Some (ok, t') \<and> (if ok then ?I (Suc k) t' else False)"
      using fill_table_snoc [of "s_freeTable s" "s_freePageCount s" "?ps k"] by auto
  qed simp
  then show ?thesis using n by (auto simp: free_table_filler_def entry_pages_def split: if_splits)
qed

lemma length_entry_pages [simp]: "length (entry_pages e) = unat (me_size e) div 4096"
  by (simp add: entry_pages_def)

lemma iterate_filler:
  assumes "\<forall>n \<in> set m. entry_aligned (snd n)"
  shows "memory_map_iterate m free_table_filler s =
    Some (s\<lparr>s_freeTable := fill_table (s_freeTable s) (s_freePageCount s) (concat (map (entry_pages \<circ> snd) m)),
            s_freePageCount := s_freePageCount s + length (concat (map (entry_pages \<circ> snd) m))\<rparr>)"
  using assms
proof (induction m arbitrary: s)
  case Nil
  then show ?case by simp
next
  case (Cons n m)
  obtain q i where n: "n = (q, i)" by (cases n)
  have i: "page_aligned (me_size i)" using Cons.prems by (simp add: n entry_aligned_def)
  have e: "\<lparr>me_base = me_base i, me_size = me_size i\<rparr> = i" by simp
  show ?case using Cons.IH Cons.prems
    fill_table_append [of "s_freeTable s" "s_freePageCount s" "entry_pages i"]
    by (simp add: n free_table_filler_eq [OF i] e add.assoc)
qed

text \<open>The pages of an entry are the aligned addresses in it.\<close>

lemma entry_pages_props:
  assumes "entry_ok e" and "entry_aligned e"
  shows "set (entry_pages e) = {p \<in> entry_range e. page_aligned p}" and "distinct (entry_pages e)"
proof -
  obtain n where n: "n < 2 ^ 52" "me_size e = of_nat n * PAGE_SIZE" "unat (me_size e) = n * 4096"
    using page_aligned_count assms(2) by (auto simp: entry_aligned_def)
  obtain k where k: "unat (me_base e) = k * 4096"
    using assms(2) by (auto simp: entry_aligned_def elim: page_aligned_count)
  have n0: "0 < n" using assms(1) n(2) by (cases n) (auto simp: entry_ok_def)
  have top: "unat (entry_end e) = (k + n) * 4096 - 1" and fits: "(k + n) * 4096 \<le> 2 ^ 64"
  proof -
    have "me_base e \<le> me_base e + (me_size e - 1)"
      using entry_okD [OF assms(1)] by (simp add: entry_end_def algebra_simps)
    then have "unat (me_base e) + unat (me_size e - 1) < 2 ^ 64"
      unfolding no_plus_overflow_unat_size by (simp add: word_size)
    moreover have "unat (me_size e - 1) = n * 4096 - 1"
      using assms(1) n(3) by (subst word_pred_unat) (auto simp: entry_ok_def)
    moreover have "entry_end e = me_base e + (me_size e - 1)" by (simp add: entry_end_def)
    ultimately show "unat (entry_end e) = (k + n) * 4096 - 1" "(k + n) * 4096 \<le> 2 ^ 64"
      using k n0 by (simp_all add: unat_word_ariths)
  qed
  have u: "unat (me_base e + of_nat j * PAGE_SIZE) = (k + j) * 4096" if "j < n" for j
    using that k fits n(1) of_nat_page_less(2) [OF n(1) that] by (simp add: unat_word_ariths)
  show "set (entry_pages e) = {p \<in> entry_range e. page_aligned p}"
  proof (intro equalityI subsetI)
    fix p assume "p \<in> set (entry_pages e)"
    then obtain j where "j < n" "p = me_base e + of_nat j * PAGE_SIZE"
      using n(3) by (auto simp: entry_pages_def)
    then show "p \<in> {p \<in> entry_range e. page_aligned p}"
      using u [of j] k top by (simp add: entry_range_def page_aligned_mod word_le_nat_alt)
  next
    fix p assume p: "p \<in> {p \<in> entry_range e. page_aligned p}"
    then obtain l where l: "unat p = l * 4096" by (auto elim: page_aligned_count)
    have "(k + n) * 4096 - 1 < (k + n) * 4096" using n0 by simp
    then have "k * 4096 \<le> l * 4096" "l * 4096 < (k + n) * 4096"
      using p l k top by (auto simp: entry_range_def word_le_nat_alt)
    then have "k \<le> l" "l < k + n" by (simp_all only: mult_le_cancel2 mult_less_cancel2)
    then obtain j where j: "l = k + j" "j < n" by (metis le_Suc_ex nat_add_left_cancel_less)
    then have "p = me_base e + of_nat j * PAGE_SIZE" using u [OF j(2)] l by (simp add: word_unat_eq_iff)
    then show "p \<in> set (entry_pages e)" using j(2) n(3) by (simp add: entry_pages_def)
  qed
  have "inj_on (\<lambda>j. me_base e + of_nat j * PAGE_SIZE) {0 ..< n}"
  proof (rule inj_onI)
    fix x y assume "x \<in> {0 ..< n}" "y \<in> {0 ..< n}"
      and eq: "me_base e + of_nat x * PAGE_SIZE = me_base e + of_nat y * PAGE_SIZE"
    then have xy: "x < n" "y < n" by auto
    have "(k + x) * 4096 = (k + y) * 4096"
      unfolding u [OF xy(1), symmetric] u [OF xy(2), symmetric] by (rule arg_cong [OF eq])
    then show "x = y" by simp
  qed
  then show "distinct (entry_pages e)" using n(3) by (simp add: entry_pages_def distinct_map)
qed

lemma map_pages_props:
  assumes "map_ok m" and "\<forall>n \<in> set m. entry_aligned (snd n)"
  shows "set (concat (map (entry_pages \<circ> snd) m)) = {p \<in> map_space m. page_aligned p}"
    and "distinct (concat (map (entry_pages \<circ> snd) m))"
proof -
  have *: "set (concat (map (entry_pages \<circ> snd) m)) = {p \<in> map_space m. page_aligned p}" if "map_ok m"
    "\<forall>n \<in> set m. entry_aligned (snd n)" for m
    using that entry_pages_props(1) by (fastforce simp: map_space_def map_ok_def)
  from * [OF assms] show "set (concat (map (entry_pages \<circ> snd) m)) = {p \<in> map_space m. page_aligned p}" .
  show "distinct (concat (map (entry_pages \<circ> snd) m))" using assms
  proof (induction m)
    case Nil
    then show ?case by simp
  next
    case (Cons n m)
    have ok: "entry_ok (snd n)" "map_ok m" "entry_aligned (snd n)" "\<forall>n \<in> set m. entry_aligned (snd n)"
      using Cons.prems by (auto simp: map_ok_Cons)
    have "entry_range (snd n) \<inter> map_space m = {}"
      using Cons.prems(1) by (fastforce simp: map_ok_Cons map_space_def entry_range_def)
    then show ?case
      using Cons.IH [OF ok(2,4)] entry_pages_props [OF ok(1,3)] * [OF ok(2,4)] by auto
  qed
qed

lemma alloc_loop_aligned:
  assumes "alloc_loop alc sz prev m a = Some (p, m', a')" and "page_aligned sz"
    and "\<forall>n \<in> set m. entry_aligned (snd n)"
  shows "\<forall>n \<in> set m'. entry_aligned (snd n)"
  using assms
proof (induction alc sz prev m a arbitrary: p m' a' rule: alloc_loop.induct)
  case (2 alc sz prev q i items a)
  have diff: "page_aligned (x - sz)" if "page_aligned x" "sz \<le> x" for x
    using that 2(3) by (simp add: page_aligned_mod unat_sub mod_eq_0_iff_dvd)
  show ?case
  proof (cases "me_size i \<ge> sz")
    case True
    then show ?thesis using 2(2-4) diff
      by (auto simp: bind_Some_conv entry_aligned_def page_aligned_add split: if_splits)
  next
    case False
    then obtain m1 where "alloc_loop alc sz q items a = Some (p, m1, a')" "m' = (q, i) # m1"
      using 2(2) by (auto simp: bind_Some_conv)
    then show ?thesis using 2(1) [OF False] 2(3,4) by simp
  qed
qed simp

lemma PAGE_ALIGN_aligned [simp]: "page_aligned (PAGE_ALIGN a)"
  by (simp add: PAGE_ALIGN_def)

text \<open>Distinct pages below a bound fit in a table of one entry per page of that size.\<close>

lemma card_pages_below:
  assumes "\<forall>p \<in> set ps. page_aligned p \<and> p < M" and "distinct ps" and "page_aligned M"
  shows "length ps \<le> unat (M div PAGE_SIZE)"
proof -
  have page: "unat p = unat p div 4096 * 4096" if "page_aligned p" for p
    using that div_mult_mod_eq [of "unat p" 4096] by (simp add: page_aligned_mod)
  have "inj_on (\<lambda>p. unat p div 4096) (set ps)"
    using assms(1) page by (auto simp: inj_on_def word_unat_eq_iff) metis
  moreover have "(\<lambda>p. unat p div 4096) ` set ps \<subseteq> {..< unat M div 4096}"
  proof
    fix x assume "x \<in> (\<lambda>p. unat p div 4096) ` set ps"
    then obtain p where p: "p \<in> set ps" "x = unat p div 4096" by auto
    then have "unat p < unat M" using assms(1) by (auto simp: word_less_nat_alt)
    then have "unat p div 4096 * 4096 < unat M div 4096 * 4096"
      using p(1) assms(1,3) page [of p] page [of M] by simp
    then show "x \<in> {..< unat M div 4096}" using p(2) by (simp only: mult_less_cancel2 lessThan_iff)
  qed
  ultimately have "card (set ps) \<le> unat M div 4096"
    using card_inj_on_le [of _ "set ps" "{..< unat M div 4096}"] by fastforce
  then show ?thesis using assms(2) by (simp add: distinct_card unat_div)
qed

section \<open>Properties\<close>

text \<open>
  C1: \<^verbatim>\<open>pmm_alloc\<close> hands out the page on top of the stack of free pages and takes it off, or
  returns 0 when there is none; it keeps the invariant and restores the interrupt flag.
\<close>

theorem pmm_alloc_takes_top:
  assumes "pmm_inv s"
  shows "\<exists>p s'. pmm_alloc s = Some (p, s') \<and> pmm_inv s' \<and> int_flag s' = int_flag s
    \<and> (case free_stack s of [] \<Rightarrow> p = 0 \<and> free_stack s' = []
       | q # qs \<Rightarrow> p = q \<and> usable_page p \<and> free_stack s' = qs)"
proof (cases "free_stack s")
  case Nil
  with assms show ?thesis by (simp add: pmm_alloc_empty [OF assms] del: page_stack_Nil)
next
  case (Cons q qs)
  then have "page_stack (s_freeTable s) (Suc (s_allocatedPageCount s)) (s_freePageCount s) = qs"
    by (simp add: page_stack_eq_Cons)
  with Cons show ?thesis
    using assms pmm_alloc_some [OF assms Cons] pages_ok_pop [OF conjunct2 [OF assms] Cons] by simp
qed

abbreviation (input) sample_locks :: "lock_id \<Rightarrow> spinlock" where
  "sample_locks \<equiv> \<lambda>_. \<lparr>sl_addr = 0, locked = 0, int_state = 0\<rparr>"

abbreviation (input) sample_pages :: "nat \<Rightarrow> pmm_state" where
  "sample_pages k \<equiv> \<lparr>int_flag = True, locks = sample_locks,
     free_table = PHYS_MAP_BASE + 0x8000, s_freeTable = (\<lambda>i. if i = 0 then 0x1000 else 0x2000), s_freePageCount = 2, s_allocatedPageCount = k\<rparr>"

lemma sample_stack:
  "page_stack (\<lambda>i. if i = 0 then 0x1000 else 0x2000) 0 2 = [0x1000, 0x2000]"
  "page_stack (\<lambda>i. if i = 0 then 0x1000 else 0x2000) (Suc 0) 2 = [0x2000]"
  by (simp_all add: page_stack_def upt_conv_Cons)

lemma sample_pages_inv: "pmm_inv (sample_pages 0)" "pmm_inv (sample_pages (Suc 0))"
  by (simp_all add: addrs_ok_def pages_ok_def sample_stack usable_page_def page_aligned_def)

lemma pmm_alloc_takes_top_witness:
  "\<exists>s'. pmm_alloc (sample_pages 0) = Some (0x1000, s') \<and> pmm_inv s' \<and> int_flag s' \<and> free_stack s' = [0x2000]"
  using pmm_alloc_takes_top [OF sample_pages_inv(1)] by (simp add: sample_stack) blast

text \<open>
  \<^verbatim>\<open>pmm_free\<close> puts an allocated page back on top of the stack, so the next \<^verbatim>\<open>pmm_alloc\<close> returns
  that page and leaves the free pages as they were.
\<close>

theorem pmm_free_then_alloc:
  assumes "pmm_inv s" and "usable_page p" and "p \<notin> set (free_stack s)" and "0 < s_allocatedPageCount s"
  shows "\<exists>s' s''. pmm_free p s = Some s' \<and> pmm_inv s' \<and> free_stack s' = p # free_stack s
    \<and> pmm_alloc s' = Some (p, s'') \<and> pmm_inv s'' \<and> free_stack s'' = free_stack s"
proof -
  obtain k where k: "s_allocatedPageCount s = Suc k" using assms(4) by (cases "s_allocatedPageCount s") auto
  let ?s = "s\<lparr>locks := lock_used PMM_LOCK s, s_allocatedPageCount := k, s_freeTable := (s_freeTable s)(k := p)\<rparr>"
  have lt: "k < s_freePageCount s" using assms(1) k by (simp add: pages_ok_def)
  have free: "pmm_free p s = Some ?s"
    using pmm_free_ok [OF assms(1) _ k] assms(2) by (simp add: usable_page_def)
  have st: "free_stack ?s = p # free_stack s" using lt k by (simp add: page_stack_push)
  have inv: "pmm_inv ?s" using assms k pages_ok_push by simp
  show ?thesis
    using free st inv pmm_alloc_some [OF inv st] pages_ok_pop [OF conjunct2 [OF inv] st]
    by (simp add: page_stack_eq_Cons)
qed

lemma pmm_free_then_alloc_witness:
  "\<exists>s' s''. pmm_free 0x1000 (sample_pages (Suc 0)) = Some s' \<and> pmm_alloc s' = Some (0x1000, s'')"
  using pmm_free_then_alloc [OF sample_pages_inv(2), of "0x1000"]
  by (simp add: sample_stack usable_page_def page_aligned_def) blast

text \<open>
  C2: the free map built at boot covers exactly the available regions the boot loader reports, less
  the first megabyte, the kernel image and the modules, provided there are entries for all of
  them; the walk over the boot loader's list ends.
\<close>

theorem build_free_map_space:
  assumes walk: "mmap_list info (ucast (mmap_addr info)) (ucast (mmap_addr info) + ucast (mmap_length info)) es"
    and fresh: "early_inv a" "used_entries a = 0"
    and ok: "\<forall>e \<in> set (available es). region_ok e"
    and disj: "pairwise (\<lambda>e f. region e \<inter> region f = {}) (set (available es))" "distinct (available es)"
    and kernel: "entry_ok \<lparr>me_base = KERNEL_PHYS_BASE, me_size = (kernel_end - KERNEL_VIRT_BASE) - KERNEL_PHYS_BASE\<rparr>"
    and mods: "\<forall>i < unat (mods_length info). mod_ok info i"
    and room: "length (available es) + 2 + unat (mods_length info) \<le> INITIAL_ENTRIES"
  shows "\<exists>m a'. pmm_arch_build_free_map info kernel_end a
      = Some (ucast (mem_upper info * 1024 + 1024 * 1024), m, a') \<and> free_entries a' m
    \<and> map_space m = (\<Union>e \<in> set (available es). region e) - {0 .. 0xfffff}
        - {KERNEL_PHYS_BASE .. kernel_end - KERNEL_VIRT_BASE - 1}
        - (\<Union>i < unat (mods_length info). mod_region info i)"
proof -
  have av: "early_avail a = INITIAL_ENTRIES" by (simp add: early_avail_def fresh)
  have emp: "free_entries a memory_map_init" using fresh by (simp add: memory_map_init_def owns_def)
  obtain m1 a1 where 1: "mmap_loop info (ucast (mmap_addr info)) (ucast (mmap_addr info) + ucast (mmap_length info))
        memory_map_init a = Some (m1, a1)" "free_entries a1 m1"
      "early_avail a \<le> length (available es) + early_avail a1" "map_space m1 = (\<Union>e \<in> set (available es). region e)"
    using mmap_loop_correct [OF walk emp] ok disj room av by (auto simp: memory_map_init_def)
  have low: "entry_ok \<lparr>me_base = 0, me_size = 0x100000\<rparr>" by (simp add: entry_ok_def entry_end_def)
  obtain m2 a2 where 2: "memory_map_exclude s_pmm_early_map_allocator m1 0 0x100000 a1 = Some (0, m2, a2)"
      "free_entries a2 m2" "early_avail a1 \<le> Suc (early_avail a2)" "map_space m2 = map_space m1 - {0 .. 0xfffff}"
  proof -
    have "0 < early_avail a1" using 1(3) room av by linarith
    then show thesis using early.exclude_succeeds [of m1 0 "0x100000" a1] low 1(2) that by auto
  qed
  obtain m3 a3 where 3: "memory_map_exclude s_pmm_early_map_allocator m2 KERNEL_PHYS_BASE
        ((kernel_end - KERNEL_VIRT_BASE) - KERNEL_PHYS_BASE) a2 = Some (0, m3, a3)"
      "free_entries a3 m3" "early_avail a2 \<le> Suc (early_avail a3)"
      "map_space m3 = map_space m2 - {KERNEL_PHYS_BASE .. kernel_end - KERNEL_VIRT_BASE - 1}"
  proof -
    have "0 < early_avail a2" using 1(3) 2(3) room av by linarith
    then show thesis
      using early.exclude_succeeds [of m2 KERNEL_PHYS_BASE "(kernel_end - KERNEL_VIRT_BASE) - KERNEL_PHYS_BASE" a2]
        kernel 2(2) that by auto
  qed
  obtain m4 a4 where 4: "exclude_mods info [0 ..< unat (mods_length info)] m3 a3 = Some (m4, a4)" "free_entries a4 m4"
      "map_space m4 = map_space m3 - (\<Union>i < unat (mods_length info). mod_region info i)"
    using exclude_mods_correct [OF 3(2), of "[0 ..< unat (mods_length info)]" info] mods 1(3) 2(3) 3(3) room av
    by (auto simp: atLeast0LessThan)
  show ?thesis using 1 2 3 4 by (simp add: pmm_arch_build_free_map_def)
qed

abbreviation (input) sample_info :: mb_info where
  "sample_info \<equiv> \<lparr>mem_upper = 0x1fc00, mmap_addr = 0x9000, mmap_length = 24, mods_addr = 0xa000, mods_length = 1,
     mmap_at = (\<lambda>_. \<lparr>mm_size = 20, mm_base = 0x100000, mm_length = 0x7f00000, mm_type = 1\<rparr>),
     mod_at = (\<lambda>_. \<lparr>mod_start = 0x400000, mod_end = 0x401234, mod_params = 0\<rparr>)\<rparr>"

lemma build_free_map_space_witness:
  "\<exists>m a'. pmm_arch_build_free_map sample_info 0xffffffff80300000 \<lparr>entry_cache = 0x1000, used_entries = 0\<rparr>
      = Some (0x8000000, m, a') \<and> map_ok m \<and> 0x300000 \<in> map_space m \<and> 0x401fff \<notin> map_space m"
proof -
  let ?e = "\<lparr>mm_size = 20, mm_base = 0x100000, mm_length = 0x7f00000, mm_type = 1\<rparr>"
  have mod: "mod_entry sample_info i = \<lparr>mod_start = 0x400000, mod_end = 0x401234, mod_params = 0\<rparr>" for i
    by (simp add: mod_entry_def)
  have room: "mod_room \<lparr>mod_start = 0x400000, mod_end = 0x401234, mod_params = 0\<rparr> = 0x2000"
    by (simp add: mod_room_def)
  have "\<exists>m a'. pmm_arch_build_free_map sample_info 0xffffffff80300000 \<lparr>entry_cache = 0x1000, used_entries = 0\<rparr>
      = Some (ucast (mem_upper sample_info * 1024 + 1024 * 1024), m, a') \<and> free_entries a' m
    \<and> map_space m = (\<Union>e \<in> set (available [?e]). region e) - {0 .. 0xfffff}
        - {KERNEL_PHYS_BASE .. 0xffffffff80300000 - KERNEL_VIRT_BASE - 1}
        - (\<Union>i < unat (mods_length sample_info). mod_region sample_info i)"
    by (rule build_free_map_space)
      (simp_all add: early_inv_def available_def region_ok_def entry_ok_def entry_end_def mod_ok_def mod room)
  then show ?thesis
    by (elim exE conjE) (simp add: available_def region_def mod_region_def mod room lessThan_Suc)
qed

lemma PAGE_ALIGN_above:
  assumes "unat x < 2 ^ 55"
  shows "unat x \<le> unat (PAGE_ALIGN x)"
proof -
  have y: "unat (0xfff + x) = unat x + 4095" using assms by (simp add: unat_word_ariths)
  have "unat (PAGE_ALIGN x) = (unat x + 4095) - (unat x + 4095) mod 4096" using unat_page_base [of "0xfff + x"] by (simp add: PAGE_ALIGN_def y)
  moreover have "n mod 4096 < 4096" for n :: nat by simp
  from this [of "unat x + 4095"] have "unat x \<le> (unat x + 4095) - (unat x + 4095) mod 4096" by linarith
  ultimately show ?thesis by (simp only:)
qed

text \<open>The table has room for an entry of eight bytes per page of the memory.\<close>

lemma table_room:
  assumes "sz = PAGE_ALIGN (m div PAGE_SIZE * 8)"
  shows "unat (m div PAGE_SIZE) * 8 \<le> unat sz"
proof -
  have "unat m < 2 ^ 64" using unsigned_less [of m, where 'a = nat] by simp
  then have "unat (m div PAGE_SIZE) < 2 ^ 52" by (simp add: unat_div)
  then have e: "unat (m div PAGE_SIZE * 8) = unat (m div PAGE_SIZE) * 8" "unat (m div PAGE_SIZE * 8) < 2 ^ 55"
    by (simp_all add: unat_word_ariths)
  have "unat (m div PAGE_SIZE * 8) \<le> unat (PAGE_ALIGN (m div PAGE_SIZE * 8))" using e(2) by (rule PAGE_ALIGN_above)
  then show ?thesis using e(1) assms by simp
qed

text \<open>
  C3: \<^verbatim>\<open>pmm_init\<close> takes one region of the free map for the table: the table is at its first address, in the map of
  physical memory, and it is not free any more.  Then the free pages are exactly the page-aligned addresses of
  the rest of the map, each once, so no page of the table is ever handed out; there is room for all of them in
  the region when the map lies below the memory size that is given.
\<close>

theorem pmm_init_free_pages:
  assumes m: "free_entries a m" "\<forall>n \<in> set m. entry_aligned (snd n)"
    and range: "map_space m \<subseteq> {1 ..< PHYS_MAP_SIZE}" "map_space m \<subseteq> {0 ..< mem_size}" "page_aligned mem_size"
    and sz: "sz = PAGE_ALIGN (mem_size div PAGE_SIZE * 8)" "sz \<noteq> 0" "\<exists>n \<in> set m. sz \<le> me_size (snd n)"
      "me_size (snd (hd m)) \<noteq> sz"
    and s: "locks_ok s" "s_freePageCount s = 0" "s_allocatedPageCount s = 0"
  shows "\<exists>p m' a' s'. pmm_init s_pmm_early_map_allocator mem_size m a s = Some (m', a', s')
    \<and> pmm_inv s' \<and> s_allocatedPageCount s' = 0
    \<and> free_table s' = PHYS_MAP_BASE + p \<and> p \<le> p + sz - 1 \<and> {p .. p + sz - 1} \<subseteq> map_space m
    \<and> map_space m' = map_space m - {p .. p + sz - 1}
    \<and> set (free_stack s') = {q \<in> map_space m'. page_aligned q} \<and> distinct (free_stack s')
    \<and> s_freePageCount s' = length (free_stack s') \<and> s_freePageCount s' * 8 \<le> unat sz"
proof -
  have al: "early_inv a" "owns early_live m a" "map_ok m" using m(1) by auto
  obtain p m' a' where x: "alloc_loop s_pmm_early_map_allocator sz NULL m a = Some (p, m', a')" "map_ok m'"
      "p \<le> p + sz - 1" "{p .. p + sz - 1} \<subseteq> map_space m" "map_space m' = map_space m - {p .. p + sz - 1}"
    using early.alloc_loop_some [OF al(3,1,2) sz(2) _ sz(3), of NULL] sz(4) by blast
  have p: "p \<in> map_space m" using x(3,4) by auto
  then have pr: "vmm_provide_phys p = Some (PHYS_MAP_BASE + p)" "p \<noteq> 0"
    using range(1) by (auto simp: provide_eq_Some)
  have m': "\<forall>n \<in> set m'. entry_aligned (snd n)" using alloc_loop_aligned [OF x(1) _ m(2)] sz(1) by simp
  let ?ps = "concat (map (entry_pages \<circ> snd) m')"
  let ?s = "s\<lparr>free_table := PHYS_MAP_BASE + p, s_freeTable := fill_table (s_freeTable s) 0 ?ps, s_freePageCount := length ?ps\<rparr>"
  have run: "pmm_init s_pmm_early_map_allocator mem_size m a s = Some (m', a', ?s)"
    using x(1) pr iterate_filler [OF m', of "s\<lparr>free_table := PHYS_MAP_BASE + p\<rparr>"] s sz(1) by (simp add: pmm_init_def memory_map_alloc_def)
  have st: "free_stack ?s = ?ps"
    using page_stack_fill [of 0 0 "s_freeTable s" ?ps] s by (simp add: page_stack_def)
  note ps = map_pages_props [OF x(2) m']
  have "pages_ok (s_freeTable ?s) 0 (s_freePageCount ?s)"
    using st ps range(1) x(5) s by (auto simp: pages_ok_def usable_page_def)
  moreover have "length ?ps \<le> unat (mem_size div PAGE_SIZE)"
    by (rule card_pages_below [OF _ ps(2) range(3)]) (use ps(1) x(5) range(2) in auto)
  then have "length ?ps * 8 \<le> unat sz" using table_room [OF sz(1)] by linarith
  ultimately show ?thesis using run st ps x(3-5) s
    by (intro exI [of _ p] exI [of _ m'] exI [of _ a'] exI [of _ ?s]) simp
qed

lemma atLeastAtMost_sub: "a \<le> c \<Longrightarrow> d < b \<Longrightarrow> {c .. d} \<subseteq> {a ..< (b::u64)}"
  by auto

lemma pmm_init_free_pages_witness:
  "\<exists>m' a' s'. pmm_init s_pmm_early_map_allocator 0x8000000 [(0x1000, \<lparr>me_base = 0x300000, me_size = 0x7d00000\<rparr>)]
      \<lparr>entry_cache = 0x1000, used_entries = 1\<rparr> \<lparr>int_flag = False, locks = sample_locks, free_table = PHYS_MAP_BASE + 0x8000, s_freeTable = (\<lambda>_. 0),
         s_freePageCount = 0, s_allocatedPageCount = 0\<rparr> = Some (m', a', s') \<and> pmm_inv s'"
  using pmm_init_free_pages [of "\<lparr>entry_cache = 0x1000, used_entries = 1\<rparr>"
      "[(0x1000, \<lparr>me_base = 0x300000, me_size = 0x7d00000\<rparr>)]" "0x8000000" "0x40000"
      "\<lparr>int_flag = False, locks = sample_locks, free_table = PHYS_MAP_BASE + 0x8000, s_freeTable = (\<lambda>_. 0), s_freePageCount = 0, s_allocatedPageCount = 0\<rparr>"]
    atLeastAtMost_sub [of 1 "0x300000" "0x7ffffff" "PHYS_MAP_SIZE"] atLeastAtMost_sub [of 0 "0x300000" "0x7ffffff" "0x8000000"]
  by (simp add: early_inv_def owns_def early_live_def early_entry_def map_ok_Cons entry_ok_def entry_end_def
      entry_aligned_def page_aligned_def map_space_def entry_range_def PAGE_ALIGN_def addrs_ok_def) blast

end
