(* ===== verification/Slab.thy ===== *)
theory Slab
  imports Pmm HeapList
begin

text \<open>
  \<^verbatim>\<open>mm/slab.c\<close>: the object allocator.  A slab is a page with a \<^verbatim>\<open>struct slab\<close> at its end and
  buffers in front of it; the free buffers of a slab and the slabs of a cache are linked through
  memory (\<open>bufs\<close>, \<open>slabs\<close>).  The theorems show what a client may rely on: an allocation returns
  an object nobody holds, a release gives exactly that object back, and a page whose last object
  is released goes back to the physical memory manager.
\<close>

section \<open>Data\<close>

record slab =
  slab_next :: ptr
  slab_cache_of :: cache_id
  slab_base :: ptr
  free_list :: ptr
  free_count :: nat

record slab_cache =
  slab_size :: u64
  obj_size :: u64
  obj_per_slab :: nat
  slab_full :: ptr
  slab_partial :: ptr

text \<open>\<open>bufs\<close> holds the \<^verbatim>\<open>next\<close> pointers of the free buffers (\<^verbatim>\<open>struct slab_buffer\<close>).\<close>

record slab_state = pmm_state +
  slabs :: "ptr \<Rightarrow> slab"
  bufs :: "ptr \<Rightarrow> ptr"
  caches :: "cache_id \<Rightarrow> slab_cache"

abbreviation (input) sizeof_slab :: u64 where
  "sizeof_slab \<equiv> 40"

section \<open>Operations\<close>

text \<open>The loop of \<^verbatim>\<open>slab_create\<close> over the buffers: \<open>n\<close> to go, the next one at \<open>data\<close>.\<close>

fun slab_fill :: "nat \<Rightarrow> u64 \<Rightarrow> ptr \<Rightarrow> ptr \<Rightarrow> (ptr \<Rightarrow> ptr) \<Rightarrow> ptr \<times> (ptr \<Rightarrow> ptr)" where
  "slab_fill 0 osz data fl b = (fl, b)"
| "slab_fill (Suc n) osz data fl b = slab_fill n osz (data + osz) data (b(data := fl))"

definition slab_create :: "cache_id \<Rightarrow> 'a slab_state_scheme \<Rightarrow> (ptr \<times> 'a slab_state_scheme) option" where
  "slab_create c s = do {
     (p, s) \<leftarrow> pmm_alloc s;
     if p = 0 then Some (NULL, s)
     else do {
       data \<leftarrow> vmm_provide_phys p;
       let cache = caches s c;
       let x = data + slab_size cache - sizeof_slab;
       let (fl, b) = slab_fill (obj_per_slab cache) (obj_size cache) data NULL (bufs s);
       let sl = \<lparr>slab_next = NULL, slab_cache_of = c, slab_base = data, free_list = fl,
                 free_count = obj_per_slab cache\<rparr>;
       Some (x, s\<lparr>slabs := (slabs s)(x := sl), bufs := b\<rparr>)
     }
   }"

definition slab_free :: "cache_id \<Rightarrow> ptr \<Rightarrow> 'a slab_state_scheme \<Rightarrow> 'a slab_state_scheme option" where
  "slab_free c x s = do {
     p \<leftarrow> vmm_revert_phys (x + sizeof_slab - slab_size (caches s c));
     pmm_free p s
   }"

definition slab_cache_init :: "cache_id \<Rightarrow> u64 \<Rightarrow> 'a slab_state_scheme \<Rightarrow> 'a slab_state_scheme option" where
  "slab_cache_init c osz s =
     (let sz = (osz + 8 - 1) AND NOT (8 - 1)
      in if sz < 8 then None
         else if unat ((PAGE_SIZE - sizeof_slab) div sz) < 1 then None
         else Some (spinlock_init (CACHE_LOCK c) (s\<lparr>caches := (caches s)
             (c := \<lparr>slab_size = PAGE_SIZE, obj_size = sz, obj_per_slab = unat ((PAGE_SIZE - sizeof_slab) div sz),
                    slab_full = NULL, slab_partial = NULL\<rparr>)\<rparr>)))"

text \<open>The refill at the top of \<^verbatim>\<open>slab_cache_alloc\<close>: whether there is a slab to allocate from.\<close>

definition slab_refill :: "cache_id \<Rightarrow> 'a slab_state_scheme \<Rightarrow> (bool \<times> 'a slab_state_scheme) option" where
  "slab_refill c s =
     (if slab_partial (caches s c) \<noteq> NULL then Some (True, s)
      else do {
        (x, s) \<leftarrow> slab_create c s;
        if x = NULL then Some (False, s)
        else
          let s = s\<lparr>slabs := (slabs s)(x := (slabs s x)\<lparr>slab_next := NULL\<rparr>)\<rparr>
          in Some (True, s\<lparr>caches := (caches s)(c := (caches s c)\<lparr>slab_partial := x\<rparr>)\<rparr>)
      })"

text \<open>The rest of it: the first free buffer of the first partial slab.\<close>

definition slab_pop :: "cache_id \<Rightarrow> 'a slab_state_scheme \<Rightarrow> (ptr \<times> 'a slab_state_scheme) option" where
  "slab_pop c s =
     (let x = slab_partial (caches s c);
          buffer = free_list (slabs s x)
      in if buffer = NULL then None
         else
           let s = s\<lparr>slabs := (slabs s)(x := (slabs s x)
                  \<lparr>free_list := bufs s buffer, free_count := free_count (slabs s x) - 1\<rparr>)\<rparr>
           in if free_list (slabs s x) = NULL then
                let s = s\<lparr>caches := (caches s)(c := (caches s c)\<lparr>slab_partial := slab_next (slabs s x)\<rparr>)\<rparr>;
                    s = s\<lparr>slabs := (slabs s)(x := (slabs s x)\<lparr>slab_next := slab_full (caches s c)\<rparr>)\<rparr>;
                    s = s\<lparr>caches := (caches s)(c := (caches s c)\<lparr>slab_full := x\<rparr>)\<rparr>
                in Some (buffer, s)
              else Some (buffer, s))"

definition slab_cache_alloc :: "cache_id \<Rightarrow> 'a slab_state_scheme \<Rightarrow> (ptr \<times> 'a slab_state_scheme) option" where
  "slab_cache_alloc c s = do {
     s \<leftarrow> spinlock_disable (CACHE_LOCK c) s;
     (ok, s) \<leftarrow> slab_refill c s;
     if \<not> ok then Some (NULL, spinunlock_enable (CACHE_LOCK c) s)
     else do {
       (p, s) \<leftarrow> slab_pop c s;
       Some (p, spinunlock_enable (CACHE_LOCK c) s)
     }
   }"

text \<open>
  The loop of \<^verbatim>\<open>slab_cache_free\<close> that takes \<open>x\<close> off its list, from \<open>item\<close> on: the head of the list
  and the slabs afterwards.
\<close>

partial_function (option) slab_unlink ::
  "ptr \<Rightarrow> ptr \<Rightarrow> ptr \<Rightarrow> ptr \<Rightarrow> (ptr \<Rightarrow> slab) \<Rightarrow> (ptr \<times> (ptr \<Rightarrow> slab)) option" where
  "slab_unlink x prev item first sl =
     (if item = NULL then Some (first, sl)
      else if item = x then
        (if prev = NULL then Some (slab_next (sl item), sl)
         else Some (first, sl(prev := (sl prev)\<lparr>slab_next := slab_next (sl item)\<rparr>)))
      else slab_unlink x item (slab_next (sl item)) first sl)"

definition slab_cache_free :: "cache_id \<Rightarrow> ptr \<Rightarrow> 'a slab_state_scheme \<Rightarrow> 'a slab_state_scheme option" where
  "slab_cache_free c p s = do {
     s \<leftarrow> spinlock_disable (CACHE_LOCK c) s;
     let x = (p AND NOT (slab_size (caches s c) - 1)) + slab_size (caches s c) - sizeof_slab;
     if slab_cache_of (slabs s x) \<noteq> c then None
     else do {
       let slab_was_full = (free_count (slabs s x) = 0);
       let s = s\<lparr>bufs := (bufs s)(p := free_list (slabs s x))\<rparr>;
       let s = s\<lparr>slabs := (slabs s)(x := (slabs s x)\<lparr>free_list := p, free_count := free_count (slabs s x) + 1\<rparr>)\<rparr>;
       let slab_is_free = (free_count (slabs s x) = obj_per_slab (caches s c));
       s \<leftarrow> (if slab_was_full \<or> slab_is_free then
               (if slab_was_full then do {
                  (first, sl) \<leftarrow> slab_unlink x NULL (slab_full (caches s c)) (slab_full (caches s c)) (slabs s);
                  Some (s\<lparr>slabs := sl, caches := (caches s)(c := (caches s c)\<lparr>slab_full := first\<rparr>)\<rparr>)
                }
                else do {
                  (first, sl) \<leftarrow> slab_unlink x NULL (slab_partial (caches s c)) (slab_partial (caches s c)) (slabs s);
                  Some (s\<lparr>slabs := sl, caches := (caches s)(c := (caches s c)\<lparr>slab_partial := first\<rparr>)\<rparr>)
                })
             else Some s);
       s \<leftarrow> (if slab_is_free then slab_free c x s
             else if slab_was_full then
               let s = s\<lparr>slabs := (slabs s)(x := (slabs s x)\<lparr>slab_next := slab_partial (caches s c)\<rparr>)\<rparr>
               in Some (s\<lparr>caches := (caches s)(c := (caches s c)\<lparr>slab_partial := x\<rparr>)\<rparr>)
             else Some s);
       Some (spinunlock_enable (CACHE_LOCK c) s)
     }
   }"

section \<open>The objects of a slab\<close>

definition cache_sizes :: "slab_cache \<Rightarrow> bool" where
  "cache_sizes ca \<longleftrightarrow> slab_size ca = PAGE_SIZE \<and> 8 \<le> unat (obj_size ca) \<and> 1 \<le> obj_per_slab ca
     \<and> obj_per_slab ca * unat (obj_size ca) \<le> 4056"

text \<open>The address of the slab in the physical page \<open>p\<close>, and the addresses of its objects.\<close>

definition slab_at :: "ptr \<Rightarrow> ptr" where
  "slab_at p = PHYS_MAP_BASE + p + 0xfd8"

definition obj_at :: "slab_cache \<Rightarrow> ptr \<Rightarrow> nat \<Rightarrow> ptr" where
  "obj_at ca p i = PHYS_MAP_BASE + p + of_nat i * obj_size ca"

definition objs :: "slab_cache \<Rightarrow> ptr \<Rightarrow> ptr set" where
  "objs ca p = obj_at ca p ` {..< obj_per_slab ca}"

lemma vpage:
  assumes "usable_page p"
  shows "page_aligned (PHYS_MAP_BASE + p)" and "unat (PHYS_MAP_BASE + p) = 0xffff800000000000 + unat p"
proof -
  show "unat (PHYS_MAP_BASE + p) = 0xffff800000000000 + unat p"
    using assms by (intro unat_phys_map) (simp add: usable_page_def)
  show "page_aligned (PHYS_MAP_BASE + p)"
    using assms by (intro page_aligned_add) (simp_all add: usable_page_def page_aligned_def)
qed

lemma obj_offset:
  assumes "cache_sizes ca" and "i < obj_per_slab ca"
  shows "unat (of_nat i * obj_size ca :: u64) = i * unat (obj_size ca)" and "i * unat (obj_size ca) < 4056"
proof -
  have "Suc i * unat (obj_size ca) \<le> obj_per_slab ca * unat (obj_size ca)"
    using assms(2) by (intro mult_le_mono1) simp
  then show lt: "i * unat (obj_size ca) < 4056" using assms(1) by (simp add: cache_sizes_def)
  have "i * 1 \<le> i * unat (obj_size ca)" using assms(1) by (intro mult_le_mono2) (simp add: cache_sizes_def)
  then have "i < 4056" using lt by linarith
  then show "unat (of_nat i * obj_size ca :: u64) = i * unat (obj_size ca)"
    using lt by (simp add: unat_word_ariths unat_of_nat)
qed

lemma obj_at_props:
  assumes "cache_sizes ca" and "i < obj_per_slab ca" and "usable_page p"
  shows "unat (obj_at ca p i) = 0xffff800000000000 + unat p + i * unat (obj_size ca)"
    and "obj_at ca p i AND - 0x1000 = PHYS_MAP_BASE + p" and "obj_at ca p i \<noteq> 0"
proof -
  have lt: "unat (of_nat i * obj_size ca :: u64) < 4096" using obj_offset [OF assms(1,2)] by simp
  show u: "unat (obj_at ca p i) = 0xffff800000000000 + unat p + i * unat (obj_size ca)"
    unfolding obj_at_def unat_page_offset [OF vpage(1) [OF assms(3)] lt] vpage(2) [OF assms(3)] obj_offset(1) [OF assms(1,2)] ..
  show "obj_at ca p i AND - 0x1000 = PHYS_MAP_BASE + p"
    unfolding obj_at_def using page_base_of_offset [OF vpage(1) [OF assms(3)] lt] by simp
  have "0 < unat (obj_at ca p i)" unfolding u by simp
  then show "obj_at ca p i \<noteq> 0" by (simp only: unat_gt_0 simp_thms)
qed

lemma obj_at_inj:
  assumes "cache_sizes ca" "usable_page p" and "i < obj_per_slab ca" "j < obj_per_slab ca" and eq: "obj_at ca p i = obj_at ca p j"
  shows "i = j"
proof -
  have "0xffff800000000000 + unat p + i * unat (obj_size ca) = 0xffff800000000000 + unat p + j * unat (obj_size ca)"
    unfolding obj_at_props(1) [OF assms(1,3,2), symmetric] obj_at_props(1) [OF assms(1,4,2), symmetric] eq ..
  then show ?thesis using assms(1) by (simp add: cache_sizes_def)
qed

lemma card_objs: "cache_sizes ca \<Longrightarrow> usable_page p \<Longrightarrow> card (objs ca p) = obj_per_slab ca"
  unfolding objs_def by (subst card_image) (auto simp: inj_on_def dest: obj_at_inj)

lemma objs_page: "cache_sizes ca \<Longrightarrow> usable_page p \<Longrightarrow> x \<in> objs ca p \<Longrightarrow> x AND - 0x1000 = PHYS_MAP_BASE + p"
  by (auto simp: objs_def obj_at_props)

lemma objs_nonNULL: "cache_sizes ca \<Longrightarrow> usable_page p \<Longrightarrow> NULL \<notin> objs ca p"
  by (auto simp: objs_def obj_at_props dest: sym)

lemma objs_disjoint:
  "cache_sizes ca \<Longrightarrow> cache_sizes cb \<Longrightarrow> usable_page p \<Longrightarrow> usable_page q \<Longrightarrow> p \<noteq> q \<Longrightarrow> objs ca p \<inter> objs cb q = {}"
  by (fastforce dest: objs_page)

lemma slab_at_inj [simp]: "slab_at p = slab_at q \<longleftrightarrow> p = q"
  by (simp add: slab_at_def)

lemma slab_at_mem: "slab_at u \<in> set (map slab_at ps) \<longleftrightarrow> u \<in> set ps"
  by auto

lemma slab_at_nonNULL: "usable_page p \<Longrightarrow> slab_at p \<noteq> NULL"
proof -
  assume p: "usable_page p"
  have "unat (slab_at p) = 0xffff800000000000 + unat p + 0xfd8"
    unfolding slab_at_def by (subst unat_page_offset [OF vpage(1) [OF p]]) (simp_all add: vpage(2) [OF p])
  then have "0 < unat (slab_at p)" by linarith
  then show ?thesis by (simp only: unat_gt_0 simp_thms)
qed

text \<open>The free list \<^verbatim>\<open>slab_create\<close> builds.\<close>

lemma slab_fill_linked:
  assumes "linked b fl xs" and "distinct (map (\<lambda>i. data + of_nat i * osz) [0 ..< n])"
    and "\<forall>i < n. data + of_nat i * osz \<noteq> NULL \<and> data + of_nat i * osz \<notin> set xs"
    and "slab_fill n osz data fl b = (fl', b')"
  shows "linked b' fl' (rev (map (\<lambda>i. data + of_nat i * osz) [0 ..< n]) @ xs)
    \<and> (\<forall>y. (\<forall>i < n. y \<noteq> data + of_nat i * osz) \<longrightarrow> b' y = b y)"
  using assms
proof (induction n arbitrary: data fl b xs)
  case 0
  then show ?case by simp
next
  case (Suc n)
  have idx: "data + of_nat (Suc i) * osz = data + osz + of_nat i * osz" for i
    by (simp add: algebra_simps)
  have split: "map (\<lambda>i. data + of_nat i * osz) [0 ..< Suc n] = data # map (\<lambda>i. data + osz + of_nat i * osz) [0 ..< n]"
    by (simp only: map_upt_Suc idx) simp
  have d: "data \<noteq> NULL" "data \<notin> set xs" using Suc.prems(3) by force+
  have rest: "\<forall>i < n. data + osz + of_nat i * osz \<noteq> NULL \<and> data + osz + of_nat i * osz \<notin> set (data # xs)"
  proof (intro allI impI)
    fix i assume "i < n"
    then have "data + osz + of_nat i * osz \<noteq> NULL \<and> data + osz + of_nat i * osz \<notin> set xs"
      using Suc.prems(3) idx [of i] by (metis Suc_less_eq)
    moreover have "data + osz + of_nat i * osz \<noteq> data" using Suc.prems(2) \<open>i < n\<close> unfolding split by auto
    ultimately show "data + osz + of_nat i * osz \<noteq> NULL \<and> data + osz + of_nat i * osz \<notin> set (data # xs)" by simp
  qed
  have "linked (b(data := fl)) data (data # xs)" using Suc.prems(1) d by simp
  moreover have "distinct (map (\<lambda>i. data + osz + of_nat i * osz) [0 ..< n])" using Suc.prems(2) unfolding split by simp
  moreover have "slab_fill n osz (data + osz) data (b(data := fl)) = (fl', b')" using Suc.prems(4) by simp
  ultimately have IH: "linked b' fl' (rev (map (\<lambda>i. data + osz + of_nat i * osz) [0 ..< n]) @ data # xs)"
    "\<forall>y. (\<forall>i < n. y \<noteq> data + osz + of_nat i * osz) \<longrightarrow> b' y = (b(data := fl)) y"
    using Suc.IH rest by blast+
  have "b' y = b y" if "\<forall>i < Suc n. y \<noteq> data + of_nat i * osz" for y
  proof -
    have "\<forall>i < n. y \<noteq> data + osz + of_nat i * osz" using that idx by (metis Suc_less_eq)
    moreover have "y \<noteq> data" using that by force
    ultimately show ?thesis using IH(2) by simp
  qed
  then show ?case using IH(1) unfolding split by simp
qed

section \<open>The caches as sets of objects\<close>

text \<open>
  What the memory holds for one cache: the pages of its full slabs, and those of its partial
  slabs with the free objects of each.
\<close>

record cache_view =
  fulls :: "ptr list"
  parts :: "(ptr \<times> ptr list) list"

definition slab_ok :: "(ptr \<Rightarrow> slab) \<Rightarrow> (ptr \<Rightarrow> ptr) \<Rightarrow> cache_id \<Rightarrow> slab_cache \<Rightarrow> ptr \<Rightarrow> ptr list \<Rightarrow> bool" where
  "slab_ok sl bf c ca p fl \<longleftrightarrow> usable_page p \<and> slab_cache_of (sl (slab_at p)) = c
     \<and> linked bf (free_list (sl (slab_at p))) fl \<and> set fl \<subseteq> objs ca p \<and> free_count (sl (slab_at p)) = length fl"

definition cache_ok :: "(ptr \<Rightarrow> slab) \<Rightarrow> (ptr \<Rightarrow> ptr) \<Rightarrow> cache_id \<Rightarrow> slab_cache \<Rightarrow> cache_view \<Rightarrow> bool" where
  "cache_ok sl bf c ca A \<longleftrightarrow>
     (if slab_size ca = 0 then fulls A = [] \<and> parts A = []
      else cache_sizes ca
        \<and> linked (slab_next \<circ> sl) (slab_full ca) (map slab_at (fulls A))
        \<and> linked (slab_next \<circ> sl) (slab_partial ca) (map (slab_at \<circ> fst) (parts A))
        \<and> (\<forall>p \<in> set (fulls A). slab_ok sl bf c ca p [])
        \<and> (\<forall>(p, fl) \<in> set (parts A). slab_ok sl bf c ca p fl \<and> fl \<noteq> [])
        \<and> distinct (fulls A @ map fst (parts A)))"

definition view_pages :: "cache_view \<Rightarrow> ptr set" where
  "view_pages A = set (fulls A) \<union> fst ` set (parts A)"

definition view_live :: "slab_cache \<Rightarrow> cache_view \<Rightarrow> ptr set" where
  "view_live ca A = (\<Union>p \<in> set (fulls A). objs ca p) \<union> (\<Union>(p, fl) \<in> set (parts A). objs ca p - set fl)"

text \<open>
  The invariant of all caches together: \<open>U\<close> are the pages in use by others.  A page is free, in use
  by others or in one slab of one cache, and every page that was taken from the physical memory manager is
  one of the last two: the number of allocated pages leaves room for no other, so a page that somebody forgot
  to give back breaks the invariant.
\<close>

definition all_pages :: "(cache_id \<Rightarrow> cache_view) \<Rightarrow> ptr set" where
  "all_pages T = (\<Union>c. view_pages (T c))"

definition pages_split :: "ptr set \<Rightarrow> ptr set \<Rightarrow> ptr list \<Rightarrow> nat \<Rightarrow> bool" where
  "pages_split U V st n \<longleftrightarrow> finite (U \<union> V) \<and> U \<inter> V = {} \<and> (U \<union> V) \<inter> set st = {} \<and> card (U \<union> V) = n"

definition caches_ok ::
  "(ptr \<Rightarrow> slab) \<Rightarrow> (ptr \<Rightarrow> ptr) \<Rightarrow> (cache_id \<Rightarrow> slab_cache) \<Rightarrow> (cache_id \<Rightarrow> cache_view) \<Rightarrow> bool" where
  "caches_ok sl bf ca T \<longleftrightarrow> (\<forall>c. cache_ok sl bf c (ca c) (T c))"

abbreviation slab_abs :: "'a slab_state_scheme \<Rightarrow> (cache_id \<Rightarrow> cache_view) \<Rightarrow> ptr set \<Rightarrow> bool" where
  "slab_abs s T U \<equiv> pmm_inv s \<and> caches_ok (slabs s) (bufs s) (caches s) T
     \<and> pages_split U (all_pages T) (free_stack s) (s_allocatedPageCount s)"

abbreviation cache_ready :: "'a slab_state_scheme \<Rightarrow> cache_id \<Rightarrow> bool" where
  "cache_ready s c \<equiv> slab_size (caches s c) \<noteq> 0"

section \<open>Frames\<close>

lemma slab_ok_cong:
  assumes "slab_cache_of (sl' (slab_at p)) = slab_cache_of (sl (slab_at p))"
    "free_list (sl' (slab_at p)) = free_list (sl (slab_at p))" "free_count (sl' (slab_at p)) = free_count (sl (slab_at p))"
    and "\<And>x. x \<in> objs ca p \<Longrightarrow> bf' x = bf x"
  shows "slab_ok sl bf c ca p fl \<Longrightarrow> slab_ok sl' bf' c ca p fl"
proof -
  assume ok: "slab_ok sl bf c ca p fl"
  then have "linked bf (free_list (sl (slab_at p))) fl" "set fl \<subseteq> objs ca p" by (auto simp: slab_ok_def)
  then have "linked bf' (free_list (sl (slab_at p))) fl"
    using linked_cong [of fl bf bf'] assms(4) by (metis subsetD)
  then show ?thesis using ok assms(1-3) by (simp add: slab_ok_def)
qed

lemma cache_ok_frame:
  assumes ok: "cache_ok sl bf c ca A"
    and sl: "\<And>p. p \<in> view_pages A \<Longrightarrow> sl' (slab_at p) = sl (slab_at p)"
    and bf: "\<And>p x. p \<in> view_pages A \<Longrightarrow> x \<in> objs ca p \<Longrightarrow> bf' x = bf x"
  shows "cache_ok sl' bf' c ca A"
proof (cases "slab_size ca = 0")
  case True
  then show ?thesis using ok by (simp add: cache_ok_def)
next
  case False
  have "linked (slab_next \<circ> sl') q (map slab_at ps) = linked (slab_next \<circ> sl) q (map slab_at ps)"
    if "set ps \<subseteq> view_pages A" for ps q
    by (rule linked_cong) (use sl that in auto)
  from this [of "fulls A"] this [of "map fst (parts A)"]
  have "linked (slab_next \<circ> sl') (slab_full ca) (map slab_at (fulls A))"
    "linked (slab_next \<circ> sl') (slab_partial ca) (map (slab_at \<circ> fst) (parts A))"
    using ok False by (auto simp: cache_ok_def view_pages_def)
  moreover have keep: "slab_ok sl' bf' c ca p fl" if "slab_ok sl bf c ca p fl" "p \<in> view_pages A" for p fl
    using slab_ok_cong [OF _ _ _ _ that(1)] sl [OF that(2)] bf [OF that(2)] by simp
  moreover have "\<forall>p \<in> set (fulls A). slab_ok sl' bf' c ca p []"
    using ok False keep by (simp add: cache_ok_def view_pages_def)
  moreover have "slab_ok sl' bf' c ca p fl \<and> fl \<noteq> []" if "(p, fl) \<in> set (parts A)" for p fl
    using ok False that keep [of p fl] image_eqI [OF _ that, of p fst] by (auto simp: cache_ok_def view_pages_def)
  ultimately show ?thesis using ok False by (simp add: cache_ok_def case_prod_unfold)
qed

lemma cache_ok_usable: "cache_ok sl bf c ca A \<Longrightarrow> p \<in> view_pages A \<Longrightarrow> usable_page p \<and> cache_sizes ca \<and> slab_cache_of (sl (slab_at p)) = c"
  by (auto simp: cache_ok_def view_pages_def slab_ok_def split: if_splits)

lemma caches_ok_disjoint:
  assumes "caches_ok sl bf ca T" and "p \<in> view_pages (T c)" and "p \<in> view_pages (T d)"
  shows "c = d"
  using assms cache_ok_usable unfolding caches_ok_def by metis

text \<open>Changing one cache leaves the others alone when it writes only to its own pages.\<close>

lemma caches_ok_upd:
  assumes ok: "caches_ok sl bf ca T"
    and new: "cache_ok sl' bf' c ca' A'"
    and sl: "\<And>p. slab_at p \<notin> slab_at ` M \<Longrightarrow> sl' (slab_at p) = sl (slab_at p)"
    and bf: "\<And>x. x \<notin> B \<Longrightarrow> bf' x = bf x" and B: "\<And>x. x \<in> B \<Longrightarrow> \<exists>p \<in> M. x AND - 0x1000 = PHYS_MAP_BASE + p"
    and M: "\<And>d. d \<noteq> c \<Longrightarrow> M \<inter> view_pages (T d) = {}"
  shows "caches_ok sl' bf' (ca(c := ca')) (T(c := A'))"
  unfolding caches_ok_def
proof
  fix d
  show "cache_ok sl' bf' d ((ca(c := ca')) d) ((T(c := A')) d)"
  proof (cases "d = c")
    case True
    with new show ?thesis by simp
  next
    case False
    have okd: "cache_ok sl bf d (ca d) (T d)" using ok by (simp add: caches_ok_def)
    have "cache_ok sl' bf' d (ca d) (T d)"
    proof (rule cache_ok_frame [OF okd])
      fix p assume p: "p \<in> view_pages (T d)"
      then have "p \<notin> M" using M [OF False] by auto
      then show "sl' (slab_at p) = sl (slab_at p)" by (intro sl) auto
    next
      fix p x assume p: "p \<in> view_pages (T d)" and x: "x \<in> objs (ca d) p"
      have "x AND - 0x1000 = PHYS_MAP_BASE + p"
        using objs_page [OF _ _ x] cache_ok_usable [OF okd p] by blast
      then have "x \<notin> B" using B [of x] M [OF False] p by auto
      then show "bf' x = bf x" by (rule bf)
    qed
    with False show ?thesis by simp
  qed
qed

text \<open>The pages when one cache gets, keeps or loses a page.\<close>

lemma all_pages_view: "view_pages (T c) \<subseteq> all_pages T"
  by (auto simp: all_pages_def)

lemma all_pages_insert:
  "view_pages A = insert p (view_pages (T c)) \<Longrightarrow> all_pages (T(c := A)) = insert p (all_pages T)"
  by (auto simp: all_pages_def split: if_splits)

lemma all_pages_same: "view_pages A = view_pages (T c) \<Longrightarrow> all_pages (T(c := A)) = all_pages T"
  by (auto simp: all_pages_def split: if_splits)

lemma all_pages_remove:
  "view_pages A = view_pages (T c) - {p} \<Longrightarrow> (\<And>d. d \<noteq> c \<Longrightarrow> p \<notin> view_pages (T d)) \<Longrightarrow>
     all_pages (T(c := A)) = all_pages T - {p}"
  by (auto simp: all_pages_def split: if_splits)

lemma pages_split_pop:
  "pages_split U V (p # ps) n \<Longrightarrow> p \<notin> set ps \<Longrightarrow> pages_split U (insert p V) ps (Suc n)"
  by (auto simp: pages_split_def card_insert_if)

lemma pages_split_push:
  "pages_split U V ps (Suc n) \<Longrightarrow> p \<in> V \<Longrightarrow> pages_split U (V - {p}) (p # ps) n"
proof -
  assume s: "pages_split U V ps (Suc n)" and p: "p \<in> V"
  then have "U \<union> (V - {p}) = (U \<union> V) - {p}" by (auto simp: pages_split_def)
  moreover have "card ((U \<union> V) - {p}) = n" using s p by (auto simp: pages_split_def card_Diff_singleton)
  ultimately show ?thesis using s p by (auto simp: pages_split_def)
qed

section \<open>The parts of the operations\<close>

lemma slab_refill_full:
  assumes "slab_abs s T U" and "cache_ready s c" and "parts (T c) = []" and "free_stack s = []"
  shows "slab_refill c s = Some (False, s\<lparr>locks := lock_used PMM_LOCK s\<rparr>)"
proof -
  have "cache_ok (slabs s) (bufs s) c (caches s c) (T c)" using assms(1) by (simp add: caches_ok_def)
  then have "slab_partial (caches s c) = NULL" using assms(2,3) by (simp add: cache_ok_def)
  then show ?thesis using assms(1,4) by (simp add: slab_refill_def slab_create_def pmm_alloc_empty)
qed

abbreviation (input) fresh_list :: "slab_cache \<Rightarrow> ptr \<Rightarrow> ptr list" where
  "fresh_list ca p \<equiv> rev (map (obj_at ca p) [0 ..< obj_per_slab ca])"

lemma slab_refill_ok:
  assumes abs: "slab_abs s T U" and ready: "cache_ready s c" and no: "parts (T c) = []" and st: "free_stack s = p # ps"
  shows "\<exists>b'. let sl = \<lparr>slab_next = NULL, slab_cache_of = c, slab_base = PHYS_MAP_BASE + p,
           free_list = hd (fresh_list (caches s c) p), free_count = obj_per_slab (caches s c)\<rparr>;
         s' = s\<lparr>locks := lock_used PMM_LOCK s, s_allocatedPageCount := s_allocatedPageCount s + 1, bufs := b',
                slabs := (slabs s)(slab_at p := sl), caches := (caches s)(c := (caches s c)\<lparr>slab_partial := slab_at p\<rparr>)\<rparr>
     in slab_refill c s = Some (True, s')
      \<and> slab_abs s' (T(c := (T c)\<lparr>parts := [(p, fresh_list (caches s c) p)]\<rparr>)) U"
proof -
  let ?ca = "caches s c" and ?n = "obj_per_slab (caches s c)"
  let ?fl = "fresh_list ?ca p"
  have ok: "cache_ok (slabs s) (bufs s) c ?ca (T c)" using abs by (simp add: caches_ok_def)
  then have sz: "cache_sizes ?ca" and null: "slab_partial ?ca = NULL" using ready no by (auto simp: cache_ok_def)
  have p: "usable_page p" "p \<notin> set ps" "pages_ok (s_freeTable s) (Suc (s_allocatedPageCount s)) (s_freePageCount s)"
    using pages_ok_pop [OF _ st] abs by auto
  have ps: "page_stack (s_freeTable s) (Suc (s_allocatedPageCount s)) (s_freePageCount s) = ps"
    using st by (simp add: page_stack_eq_Cons)
  have new: "p \<notin> all_pages T" using abs st by (auto simp: pages_split_def)
  have n0: "?n \<noteq> 0" using sz by (simp add: cache_sizes_def)
  obtain fl' b' where fill: "slab_fill ?n (obj_size ?ca) (PHYS_MAP_BASE + p) NULL (bufs s) = (fl', b')" by force
  have "linked b' fl' (rev (map (\<lambda>i. PHYS_MAP_BASE + p + of_nat i * obj_size ?ca) [0 ..< ?n]) @ [])
      \<and> (\<forall>y. (\<forall>i < ?n. y \<noteq> PHYS_MAP_BASE + p + of_nat i * obj_size ?ca) \<longrightarrow> b' y = bufs s y)"
  proof (rule slab_fill_linked [OF _ _ _ fill])
    show "distinct (map (\<lambda>i. PHYS_MAP_BASE + p + of_nat i * obj_size ?ca) [0 ..< ?n])"
      using obj_at_inj [OF sz p(1)] by (auto simp: distinct_map inj_on_def obj_at_def)
    show "\<forall>i < ?n. PHYS_MAP_BASE + p + of_nat i * obj_size ?ca \<noteq> NULL \<and> PHYS_MAP_BASE + p + of_nat i * obj_size ?ca \<notin> set []"
      using obj_at_props(3) [OF sz _ p(1)] by (simp add: obj_at_def)
  qed simp
  then have lk: "linked b' fl' ?fl" and bf: "\<And>y. y \<notin> objs ?ca p \<Longrightarrow> b' y = bufs s y"
    by (auto simp: obj_at_def [abs_def] objs_def)
  have ne: "?fl \<noteq> []" using n0 by simp
  then have fl': "fl' = hd ?fl" using linked_hd [OF lk] by (cases ?fl) auto
  let ?sl = "\<lparr>slab_next = NULL, slab_cache_of = c, slab_base = PHYS_MAP_BASE + p, free_list = hd ?fl, free_count = ?n\<rparr>"
  have sa: "PHYS_MAP_BASE + p + slab_size ?ca - sizeof_slab = slab_at p"
    using sz by (simp add: cache_sizes_def slab_at_def)
  have run: "slab_refill c s = Some (True, s\<lparr>locks := lock_used PMM_LOCK s, s_allocatedPageCount := s_allocatedPageCount s + 1,
      bufs := b', slabs := (slabs s)(slab_at p := ?sl), caches := (caches s)(c := ?ca\<lparr>slab_partial := slab_at p\<rparr>)\<rparr>)"
    using null abs st p(1) fill sa fl' slab_at_nonNULL [OF p(1)] usable_nonzero [OF p(1)]
    by (simp add: slab_refill_def slab_create_def pmm_alloc_some usable_provide Let_def)
  have pv: "p \<notin> view_pages (T d)" for d using new by (auto simp: all_pages_def)
  have "cache_ok ((slabs s)(slab_at p := ?sl)) b' c (?ca\<lparr>slab_partial := slab_at p\<rparr>) ((T c)\<lparr>parts := [(p, ?fl)]\<rparr>)"
  proof -
    have "cache_ok ((slabs s)(slab_at p := ?sl)) b' c ?ca (T c)"
    proof (rule cache_ok_frame [OF ok])
      fix q x assume q: "q \<in> view_pages (T c)"
      then have "q \<noteq> p" "usable_page q" using pv [of c] cache_ok_usable [OF ok] by auto
      then show "((slabs s)(slab_at p := ?sl)) (slab_at q) = slabs s (slab_at q)"
        and "x \<in> objs ?ca q \<Longrightarrow> b' x = bufs s x"
        using bf [of x] objs_disjoint [OF sz sz p(1), of q] by auto
    qed
    then show ?thesis
      using ready no lk ne p(1) pv [of c] slab_at_nonNULL [OF p(1)] fl'
      by (auto simp: cache_ok_def slab_ok_def objs_def obj_at_def view_pages_def cache_sizes_def)
  qed
  then have "caches_ok ((slabs s)(slab_at p := ?sl)) b' ((caches s)(c := ?ca\<lparr>slab_partial := slab_at p\<rparr>))
      (T(c := (T c)\<lparr>parts := [(p, ?fl)]\<rparr>))"
    using abs bf pv objs_page [OF sz p(1)]
    by (intro caches_ok_upd [where M = "{p}" and B = "objs ?ca p"]) auto
  moreover have "all_pages (T(c := (T c)\<lparr>parts := [(p, ?fl)]\<rparr>)) = insert p (all_pages T)"
    using no by (intro all_pages_insert) (auto simp: view_pages_def)
  moreover have "pages_split U (insert p (all_pages T)) ps (Suc (s_allocatedPageCount s))"
    using abs st p(2) by (auto intro: pages_split_pop)
  ultimately show ?thesis
    using run abs p(3) ps by (intro exI [of _ b']) (simp add: Let_def)
qed

lemma slab_pop_ok:
  assumes abs: "slab_abs s T U" and ready: "cache_ready s c" and part: "parts (T c) = (p, b # bs) # rest"
  defines "A \<equiv> (if bs = [] then (T c)\<lparr>fulls := p # fulls (T c), parts := rest\<rparr>
                 else (T c)\<lparr>parts := (p, bs) # rest\<rparr>)"
  shows "\<exists>sl ca. slab_pop c s = Some (b, s\<lparr>slabs := sl, caches := (caches s)(c := ca)\<rparr>)
    \<and> slab_abs (s\<lparr>slabs := sl, caches := (caches s)(c := ca)\<rparr>) (T(c := A)) U
    \<and> obj_size ca = obj_size (caches s c) \<and> obj_per_slab ca = obj_per_slab (caches s c) \<and> slab_size ca = slab_size (caches s c)"
proof -
  let ?ca = "caches s c" and ?x = "slab_at p"
  have ok: "cache_ok (slabs s) (bufs s) c ?ca (T c)" using abs by (simp add: caches_ok_def)
  then have sz: "cache_sizes ?ca"
    and lf: "linked (slab_next \<circ> slabs s) (slab_full ?ca) (map slab_at (fulls (T c)))"
    and lp: "slab_partial ?ca = ?x" "?x \<noteq> NULL" "linked (slab_next \<circ> slabs s) (slab_next (slabs s ?x)) (map (slab_at \<circ> fst) rest)"
    and so: "slab_ok (slabs s) (bufs s) c ?ca p (b # bs)"
    and fo: "\<forall>q \<in> set (fulls (T c)). slab_ok (slabs s) (bufs s) c ?ca q []"
    and po: "\<forall>(q, fl) \<in> set rest. slab_ok (slabs s) (bufs s) c ?ca q fl \<and> fl \<noteq> []"
    and di: "p \<notin> set (fulls (T c))" "p \<notin> fst ` set rest" "distinct (fulls (T c) @ map fst rest)"
    using ready part by (auto simp: cache_ok_def)
  have b: "free_list (slabs s ?x) = b" "b \<noteq> NULL" "linked (bufs s) (bufs s b) bs" "free_count (slabs s ?x) = Suc (length bs)"
    using so by (auto simp: slab_ok_def)
  then have nb: "bufs s b = NULL \<longleftrightarrow> bs = []" by (cases bs) auto
  define sl ca where "sl = (slabs s)(?x := (slabs s ?x)\<lparr>free_list := bufs s b, free_count := length bs,
      slab_next := (if bs = [] then slab_full ?ca else slab_next (slabs s ?x))\<rparr>)"
    and "ca = (if bs = [] then ?ca\<lparr>slab_partial := slab_next (slabs s ?x), slab_full := ?x\<rparr> else ?ca)"
  have run: "slab_pop c s = Some (b, s\<lparr>slabs := sl, caches := (caches s)(c := ca)\<rparr>)"
    using lp(1) b nb by (simp add: slab_pop_def Let_def sl_def ca_def)
  have other: "slab_ok sl (bufs s) c ca q fl" if "slab_ok (slabs s) (bufs s) c ?ca q fl" "q \<noteq> p" for q fl
    using that by (auto simp: slab_ok_def sl_def ca_def objs_def obj_at_def)
  have lk: "linked (slab_next \<circ> sl) y (map slab_at ps) = linked (slab_next \<circ> slabs s) y (map slab_at ps)"
    if "p \<notin> set ps" for y ps
    by (rule linked_cong) (use that in \<open>auto simp: sl_def\<close>)
  have me: "slab_ok sl (bufs s) c ca p bs"
    using so b by (auto simp: slab_ok_def sl_def ca_def objs_def obj_at_def)
  have fo': "\<forall>q \<in> set (fulls (T c)). slab_ok sl (bufs s) c ca q []" using fo di other by metis
  have po': "\<forall>(q, fl) \<in> set rest. slab_ok sl (bufs s) c ca q fl \<and> fl \<noteq> []"
  proof clarify
    fix q fl assume m: "(q, fl) \<in> set rest"
    then have "q \<noteq> p" using di(2) image_eqI [OF _ m, of q fst] by auto
    then show "slab_ok sl (bufs s) c ca q fl \<and> fl \<noteq> []" using bspec [OF po m] other by simp
  qed
  have nx: "slab_next (sl ?x) = (if bs = [] then slab_full ?ca else slab_next (slabs s ?x))" by (simp add: sl_def)
  have lks: "linked (slab_next \<circ> sl) (slab_full ?ca) (map slab_at (fulls (T c)))"
    "linked (slab_next \<circ> sl) (slab_next (slabs s ?x)) (map (slab_at \<circ> fst) rest)"
    using lf lp(3) lk [of "fulls (T c)"] lk [of "map fst rest"] di by auto
  have "cache_ok sl (bufs s) c ca A"
  proof (cases "bs = []")
    case True
    then show ?thesis using ready sz lks lp(2) fo' po' di nx me
      by (simp add: cache_ok_def A_def ca_def cache_sizes_def)
  next
    case False
    then show ?thesis using ready sz lks lp(1,2) fo' po' di nx me
      by (simp add: cache_ok_def A_def ca_def cache_sizes_def)
  qed
  then have "caches_ok sl (bufs s) ((caches s)(c := ca)) (T(c := A))"
    using abs caches_ok_disjoint [of "slabs s" "bufs s" "caches s" T p c] part
    by (intro caches_ok_upd [where M = "{p}" and B = "{}"]) (auto simp: sl_def view_pages_def)
  moreover have "all_pages (T(c := A)) = all_pages T"
    using part by (intro all_pages_same) (auto simp: A_def view_pages_def)
  ultimately show ?thesis
    using run abs by (intro exI [of _ sl] exI [of _ ca]) (auto simp: ca_def)
qed

text \<open>Taking a slab off its list changes nothing but one \<^verbatim>\<open>next\<close> pointer.\<close>

lemma slab_unlink_run:
  assumes "linked (slab_next \<circ> sl) item (xs @ x # ys)" and "prev = NULL \<or> prev \<notin> set (xs @ x # ys)"
  shows "slab_unlink x prev item first sl = Some
     (if xs = [] \<and> prev = NULL then slab_next (sl x) else first,
      if xs = [] \<and> prev = NULL then sl
      else let q = (if xs = [] then prev else last xs) in sl(q := (sl q)\<lparr>slab_next := slab_next (sl x)\<rparr>))"
  using assms
proof (induction xs arbitrary: item prev)
  case Nil
  then show ?case by (subst slab_unlink.simps) auto
next
  case (Cons y xs)
  have "distinct ((y # xs) @ x # ys)" by (rule linked_distinct [OF Cons.prems(1)])
  then have y: "y \<noteq> x" "y \<notin> set (xs @ x # ys)" by auto
  have item: "item = y" "y \<noteq> NULL" "linked (slab_next \<circ> sl) (slab_next (sl y)) (xs @ x # ys)"
    using Cons.prems(1) by (auto simp: comp_def)
  show ?case
    using Cons.IH [OF item(3), of y] item(1,2) y by (subst slab_unlink.simps) (auto simp: Let_def)
qed

lemma slab_unlink_ok:
  assumes lk: "linked (slab_next \<circ> sl) first (xs @ x # ys)"
  shows "\<exists>first' sl'. slab_unlink x NULL first first sl = Some (first', sl')
    \<and> linked (slab_next \<circ> sl') first' (xs @ ys)
    \<and> (\<forall>y. \<exists>n. sl' y = (sl y)\<lparr>slab_next := n\<rparr>) \<and> (\<forall>y. y \<notin> set xs \<longrightarrow> sl' y = sl y)"
proof (cases xs rule: rev_cases)
  case Nil
  have "slab_unlink x NULL first first sl = Some (slab_next (sl x), sl)"
    using slab_unlink_run [OF lk] Nil by simp
  moreover have "linked (slab_next \<circ> sl) (slab_next (sl x)) ys" using lk Nil by simp
  moreover have "\<exists>n. sl y = (sl y)\<lparr>slab_next := n\<rparr>" for y by (rule exI [of _ "slab_next (sl y)"]) simp
  ultimately show ?thesis using Nil by auto
next
  case (snoc zs q)
  let ?sl = "sl(q := (sl q)\<lparr>slab_next := slab_next (sl x)\<rparr>)"
  have run: "slab_unlink x NULL first first sl = Some (first, ?sl)"
    using slab_unlink_run [OF lk] snoc by (simp add: Let_def)
  have "linked ((slab_next \<circ> sl)(q := (slab_next \<circ> sl) x)) first (zs @ q # ys)"
    by (rule linked_unlink) (use lk snoc in simp)
  moreover have "linked ((slab_next \<circ> sl)(q := (slab_next \<circ> sl) x)) first (xs @ ys) = linked (slab_next \<circ> ?sl) first (xs @ ys)"
    by (rule linked_cong) simp
  ultimately have "linked (slab_next \<circ> ?sl) first (xs @ ys)" using snoc by simp
  moreover have "\<exists>n. ?sl y = (sl y)\<lparr>slab_next := n\<rparr>" for y
    by (cases "y = q") (auto intro: exI [of _ "slab_next (sl y)"])
  ultimately show ?thesis using run snoc by (intro exI [of _ first] exI [of _ ?sl]) auto
qed

section \<open>Allocation\<close>

text \<open>What an operation of this component may change, and the shape of the caches it keeps.\<close>

definition slab_frame :: "'a slab_state_scheme \<Rightarrow> 'a slab_state_scheme \<Rightarrow> bool" where
  "slab_frame s s' \<longleftrightarrow> s' = s\<lparr>locks := locks s', s_allocatedPageCount := s_allocatedPageCount s',
     s_freeTable := s_freeTable s', slabs := slabs s', bufs := bufs s', caches := caches s'\<rparr>"

definition same_shape :: "(cache_id \<Rightarrow> slab_cache) \<Rightarrow> (cache_id \<Rightarrow> slab_cache) \<Rightarrow> bool" where
  "same_shape ca ca' \<longleftrightarrow> (\<forall>c. slab_size (ca' c) = slab_size (ca c) \<and> obj_size (ca' c) = obj_size (ca c)
     \<and> obj_per_slab (ca' c) = obj_per_slab (ca c))"

lemma slab_frame_refl [simp]: "slab_frame s s"
  by (simp add: slab_frame_def)

lemma slab_frameE:
  assumes "slab_frame s s'"
  obtains L a F sl bf ca where "s' = s\<lparr>locks := L, s_allocatedPageCount := a, s_freeTable := F,
     slabs := sl, bufs := bf, caches := ca\<rparr>"
  using assms unfolding slab_frame_def by blast

lemma slab_frame_trans: "slab_frame s s' \<Longrightarrow> slab_frame s' s'' \<Longrightarrow> slab_frame s s''"
  by (auto simp: slab_frame_def [of s s''] elim!: slab_frameE)

lemma slab_frame_pages: "slab_frame s s' \<Longrightarrow> s_freePageCount s' = s_freePageCount s \<and> int_flag s' = int_flag s"
  by (auto elim!: slab_frameE)

lemma same_shape_refl [simp]: "same_shape ca ca"
  by (simp add: same_shape_def)

lemma same_shape_trans: "same_shape a b \<Longrightarrow> same_shape b c \<Longrightarrow> same_shape a c"
  by (simp add: same_shape_def)

lemma same_shape_upd: "slab_size v = slab_size (ca c) \<Longrightarrow> obj_size v = obj_size (ca c) \<Longrightarrow>
    obj_per_slab v = obj_per_slab (ca c) \<Longrightarrow> same_shape ca (ca(c := v))"
  by (simp add: same_shape_def)

lemma objs_shape: "same_shape ca ca' \<Longrightarrow> objs (ca' c) p = objs (ca c) p"
  by (simp add: same_shape_def objs_def obj_at_def)

lemma view_live_shape: "same_shape ca ca' \<Longrightarrow> view_live (ca' c) A = view_live (ca c) A"
  by (simp add: view_live_def objs_shape)

lemma view_live_pop:
  assumes ok: "cache_ok sl bf c ca A" and r: "slab_size ca \<noteq> 0" and part: "parts A = (p, b # bs) # rest"
    and A': "A' = (if bs = [] then A\<lparr>fulls := p # fulls A, parts := rest\<rparr> else A\<lparr>parts := (p, bs) # rest\<rparr>)"
  shows "b \<noteq> NULL \<and> b \<notin> view_live ca A \<and> view_live ca A' = insert b (view_live ca A)"
proof -
  have sz: "cache_sizes ca" and so: "slab_ok sl bf c ca p (b # bs)" and di: "p \<notin> set (fulls A)" "p \<notin> fst ` set rest"
    using ok r part by (auto simp: cache_ok_def)
  have p: "usable_page p" "b \<in> objs ca p" "b \<notin> set bs" "b \<noteq> NULL" "set bs \<subseteq> objs ca p"
    using so linked_distinct [of bf _ "b # bs"] by (auto simp: slab_ok_def)
  have dj: "b \<notin> objs ca q" if "q \<in> set (fulls A) \<or> q \<in> fst ` set rest" for q
  proof -
    have "q \<in> view_pages A" using that part by (auto simp: view_pages_def)
    then have "usable_page q" using cache_ok_usable [OF ok] by blast
    moreover have "q \<noteq> p" using that di by auto
    ultimately show ?thesis using objs_disjoint [OF sz sz p(1)] p(2) by blast
  qed
  have "b \<notin> view_live ca A" using dj part by (fastforce simp: view_live_def)
  moreover have "view_live ca A' = insert b (view_live ca A)"
    using p A' part by (auto simp: view_live_def)
  ultimately show ?thesis using p(4) by simp
qed

lemma view_live_fresh:
  assumes "cache_ok sl bf c ca A" and "parts A = []"
  shows "view_live ca (A\<lparr>parts := [(p, fresh_list ca p)]\<rparr>) = view_live ca A"
proof -
  have "set (fresh_list ca p) = objs ca p" by (auto simp: objs_def)
  then show ?thesis using assms(2) by (simp add: view_live_def)
qed

lemma slab_alloc_ok:
  assumes abs: "slab_abs s T U" and ready: "cache_ready s c"
  shows "\<exists>p s' A. slab_cache_alloc c s = Some (p, s') \<and> slab_abs s' (T(c := A)) U
    \<and> slab_frame s s' \<and> same_shape (caches s) (caches s')
    \<and> (if p = NULL then A = T c \<and> parts (T c) = [] \<and> free_stack s = []
       else p \<notin> view_live (caches s c) (T c) \<and> view_live (caches s c) A = insert p (view_live (caches s c) (T c)))"
proof -
  let ?s = "s\<lparr>int_flag := False, locks := lock_held (CACHE_LOCK c) (int_flag s) (locks s)\<rparr>"
  have ok: "cache_ok (slabs s) (bufs s) c (caches s c) (T c)" using abs by (simp add: caches_ok_def)
  have abs1: "slab_abs ?s T U" using abs by simp
  show ?thesis
  proof (cases "parts (T c) = []")
    case False
    then obtain p b bs rest where part: "parts (T c) = (p, b # bs) # rest"
      using ok ready by (cases "parts (T c)") (auto simp: cache_ok_def neq_Nil_conv)
    let ?A = "if bs = [] then (T c)\<lparr>fulls := p # fulls (T c), parts := rest\<rparr> else (T c)\<lparr>parts := (p, bs) # rest\<rparr>"
    obtain sl ca where pop: "slab_pop c ?s = Some (b, ?s\<lparr>slabs := sl, caches := (caches s)(c := ca)\<rparr>)"
      "slab_abs (?s\<lparr>slabs := sl, caches := (caches s)(c := ca)\<rparr>) (T(c := ?A)) U"
      "obj_size ca = obj_size (caches s c)" "obj_per_slab ca = obj_per_slab (caches s c)" "slab_size ca = slab_size (caches s c)"
      using slab_pop_ok [OF abs1 _ part] ready by auto
    have "slab_partial (caches s c) \<noteq> NULL" using ok ready part by (auto simp: cache_ok_def)
    then have "slab_cache_alloc c s = Some (b, spinunlock_enable (CACHE_LOCK c) (?s\<lparr>slabs := sl, caches := (caches s)(c := ca)\<rparr>))"
      using pop(1) abs by (simp add: slab_cache_alloc_def spinlock_disable_ok slab_refill_def)
    moreover have "slab_frame s (spinunlock_enable (CACHE_LOCK c) (?s\<lparr>slabs := sl, caches := (caches s)(c := ca)\<rparr>))"
      by (auto simp: spinunlock_enable_eq slab_frame_def)
    ultimately show ?thesis
      using view_live_pop [OF ok ready part refl] pop(2-5)
      by (intro exI [of _ b] exI [of _ "spinunlock_enable (CACHE_LOCK c) (?s\<lparr>slabs := sl, caches := (caches s)(c := ca)\<rparr>)"]
          exI [of _ ?A]) (auto simp: spinunlock_enable_eq same_shape_upd)
  next
    case none: True
    show ?thesis
    proof (cases "free_stack s")
      case Nil
      then have "slab_refill c ?s = Some (False, ?s\<lparr>locks := lock_used PMM_LOCK ?s\<rparr>)"
        using slab_refill_full [OF abs1 _ none] ready by simp
      then have "slab_cache_alloc c s = Some (NULL, spinunlock_enable (CACHE_LOCK c) (?s\<lparr>locks := lock_used PMM_LOCK ?s\<rparr>))"
        using abs by (simp add: slab_cache_alloc_def spinlock_disable_ok)
      moreover have "slab_frame s (spinunlock_enable (CACHE_LOCK c) (?s\<lparr>locks := lock_used PMM_LOCK ?s\<rparr>))"
        by (auto simp: spinunlock_enable_eq slab_frame_def)
      ultimately show ?thesis using abs none Nil
        by (intro exI [of _ NULL] exI [of _ "spinunlock_enable (CACHE_LOCK c) (?s\<lparr>locks := lock_used PMM_LOCK ?s\<rparr>)"]
            exI [of _ "T c"]) (simp add: spinunlock_enable_eq del: page_stack_Nil)
    next
      case (Cons p ps)
      let ?fl = "fresh_list (caches s c) p" and ?T = "T(c := (T c)\<lparr>parts := [(p, fresh_list (caches s c) p)]\<rparr>)"
      let ?mk = "\<lambda>b' sl1. ?s\<lparr>locks := lock_used PMM_LOCK ?s, s_allocatedPageCount := s_allocatedPageCount s + 1,
            bufs := b', slabs := sl1, caches := (caches s)(c := (caches s c)\<lparr>slab_partial := slab_at p\<rparr>)\<rparr>"
      obtain b' sl1 where ref: "slab_refill c ?s = Some (True, ?mk b' sl1)"
        and abs2: "slab_abs (?mk b' sl1) ?T U"
        using slab_refill_ok [OF abs1 _ none, of p ps] ready Cons unfolding Let_def by auto
      let ?s1 = "?mk b' sl1"
      have "obj_per_slab (caches s c) \<noteq> 0" using ok ready by (auto simp: cache_ok_def cache_sizes_def)
      then obtain b bs where fl: "?fl = b # bs" by (cases ?fl) auto
      then have part: "parts (?T c) = (p, b # bs) # []" by simp
      let ?A = "if bs = [] then (?T c)\<lparr>fulls := p # fulls (?T c), parts := []\<rparr> else (?T c)\<lparr>parts := (p, bs) # []\<rparr>"
      have "cache_ready ?s1 c" using ready by simp
      from slab_pop_ok [OF abs2 this part] obtain sl ca where
        pop: "slab_pop c ?s1 = Some (b, ?s1\<lparr>slabs := sl, caches := (caches ?s1)(c := ca)\<rparr>)"
          "slab_abs (?s1\<lparr>slabs := sl, caches := (caches ?s1)(c := ca)\<rparr>) (?T(c := ?A)) U"
          "obj_size ca = obj_size (caches ?s1 c)" "obj_per_slab ca = obj_per_slab (caches ?s1 c)"
          "slab_size ca = slab_size (caches ?s1 c)" by blast
      let ?s2 = "?s1\<lparr>slabs := sl, caches := (caches ?s1)(c := ca)\<rparr>"
      have run: "slab_cache_alloc c s = Some (b, spinunlock_enable (CACHE_LOCK c) ?s2)"
        using pop(1) ref abs by (simp add: slab_cache_alloc_def spinlock_disable_ok)
      have frame: "slab_frame s (spinunlock_enable (CACHE_LOCK c) ?s2)"
        by (auto simp: spinunlock_enable_eq slab_frame_def)
      have ok2: "cache_ok (slabs ?s1) (bufs ?s1) c (caches ?s1 c) (?T c)"
        using abs2 unfolding caches_ok_def by blast
      have "view_live (caches ?s1 c) = view_live (caches s c)"
        using view_live_shape [of "caches s" "caches ?s1" c] by (auto simp: same_shape_def)
      then have "b \<noteq> NULL \<and> b \<notin> view_live (caches s c) (T c) \<and> view_live (caches s c) ?A = insert b (view_live (caches s c) (T c))"
        using view_live_pop [OF ok2 _ part refl] ready view_live_fresh [OF ok none, of p] by simp
      then show ?thesis using run frame pop(2-5)
        by (intro exI [of _ b] exI [of _ "spinunlock_enable (CACHE_LOCK c) ?s2"] exI [of _ ?A])
          (simp add: spinunlock_enable_eq same_shape_upd)
    qed
  qed
qed

section \<open>Release\<close>

lemma slab_free_ok:
  assumes inv: "pmm_inv s" and pg: "pages_split U V (free_stack s) (s_allocatedPageCount s)"
    and p: "p \<in> V" "usable_page p" and sz: "slab_size (caches s c) = PAGE_SIZE"
  shows "\<exists>k F. slab_free c (slab_at p) s = Some (s\<lparr>locks := lock_used PMM_LOCK s, s_allocatedPageCount := k, s_freeTable := F\<rparr>)
    \<and> pages_ok F k (s_freePageCount s) \<and> pages_split U (V - {p}) (page_stack F k (s_freePageCount s)) k
    \<and> page_stack F k (s_freePageCount s) = p # free_stack s"
proof -
  have fin: "finite (U \<union> V)" "p \<in> U \<union> V" "card (U \<union> V) = s_allocatedPageCount s"
    using pg p by (auto simp: pages_split_def)
  then have "0 < card (U \<union> V)" using card_gt_0_iff [of "U \<union> V"] by blast
  then obtain k where k: "s_allocatedPageCount s = Suc k" using fin(3) by (cases "s_allocatedPageCount s") auto
  have "slab_at p + sizeof_slab - slab_size (caches s c) = PHYS_MAP_BASE + p" using sz by (simp add: slab_at_def)
  then have rev: "vmm_revert_phys (slab_at p + sizeof_slab - slab_size (caches s c)) = Some p"
    using revert_provide [OF usable_provide [OF p(2)]] by (simp only:)
  have run: "slab_free c (slab_at p) s = Some (s\<lparr>locks := lock_used PMM_LOCK s, s_allocatedPageCount := k,
      s_freeTable := (s_freeTable s)(k := p)\<rparr>)"
    unfolding slab_free_def rev using pmm_free_ok [OF inv _ k] p(2) by (simp add: usable_page_def)
  have "p \<notin> set (free_stack s)" using pg p by (auto simp: pages_split_def)
  then have "pages_ok ((s_freeTable s)(k := p)) k (s_freePageCount s)" using inv k p(2) by (simp add: pages_ok_push)
  moreover have st: "page_stack ((s_freeTable s)(k := p)) k (s_freePageCount s) = p # free_stack s"
    using inv k by (simp add: page_stack_push pages_ok_def)
  moreover have "pages_split U (V - {p}) (p # free_stack s) k" using pages_split_push [OF pg [unfolded k] p(1)] k by simp
  ultimately show ?thesis using run by (intro exI [of _ k] exI [of _ "(s_freeTable s)(k := p)"]) simp
qed

text \<open>The slab of a live object, and its free list.\<close>

lemma view_live_cases:
  assumes ok: "cache_ok sl bf c ca A" and r: "slab_size ca \<noteq> 0" and x: "x \<in> view_live ca A"
  obtains (full) p xs ys where "fulls A = xs @ p # ys" "x \<in> objs ca p" "slab_ok sl bf c ca p []"
  | (partial) p fl xs ys where "parts A = xs @ (p, fl) # ys" "x \<in> objs ca p" "x \<notin> set fl" "slab_ok sl bf c ca p fl" "fl \<noteq> []"
proof -
  consider p where "p \<in> set (fulls A)" "x \<in> objs ca p" | p fl where "(p, fl) \<in> set (parts A)" "x \<in> objs ca p" "x \<notin> set fl"
    using x by (auto simp: view_live_def)
  then show thesis
  proof cases
    case 1
    then show thesis using full ok r by (metis split_list cache_ok_def)
  next
    case (2 p fl)
    then have "slab_ok sl bf c ca p fl \<and> fl \<noteq> []" using ok r by (auto simp: cache_ok_def)
    then show thesis using 2 partial by (metis split_list)
  qed
qed

text \<open>Pushing an object on the free list of its slab.\<close>

lemma slab_push_ok:
  assumes so: "slab_ok sl bf c ca p fl" and x: "x \<in> objs ca p" "x \<notin> set fl" and sz: "cache_sizes ca"
    and sl1: "free_list (sl1 (slab_at p)) = x" "free_count (sl1 (slab_at p)) = Suc (length fl)"
      "slab_cache_of (sl1 (slab_at p)) = c"
  shows "slab_ok sl1 (bf(x := free_list (sl (slab_at p)))) c ca p (x # fl)"
    and "Suc (length fl) \<le> obj_per_slab ca"
    and "Suc (length fl) = obj_per_slab ca \<Longrightarrow> objs ca p - set fl = {x}"
proof -
  have p: "usable_page p" and fl: "linked bf (free_list (sl (slab_at p))) fl" "set fl \<subseteq> objs ca p"
    using so by (auto simp: slab_ok_def)
  have "x \<noteq> NULL" using x(1) objs_nonNULL [OF sz p] by auto
  then show "slab_ok sl1 (bf(x := free_list (sl (slab_at p)))) c ca p (x # fl)"
    using p fl x sl1 by (simp add: slab_ok_def)
  have "distinct (x # fl)" using linked_distinct [OF fl(1)] x(2) by simp
  then have card: "card (set (x # fl)) = Suc (length fl)" using distinct_card [of "x # fl"] by simp
  have sub: "set (x # fl) \<subseteq> objs ca p" using fl(2) x(1) by simp
  have fin: "finite (objs ca p)" by (simp add: objs_def)
  show "Suc (length fl) \<le> obj_per_slab ca"
    using card_mono [OF fin sub] card card_objs [OF sz p] by simp
  assume "Suc (length fl) = obj_per_slab ca"
  then have "set (x # fl) = objs ca p"
    using card card_objs [OF sz p] by (intro card_subset_eq [OF fin sub]) simp
  then show "objs ca p - set fl = {x}" using x(2) by auto
qed

definition only_next :: "(ptr \<Rightarrow> slab) \<Rightarrow> (ptr \<Rightarrow> slab) \<Rightarrow> bool" where
  "only_next sl sl' \<longleftrightarrow> (\<forall>y. \<exists>n. sl' y = (sl y)\<lparr>slab_next := n\<rparr>)"

lemma only_nextD:
  assumes "only_next sl sl'"
  shows "slab_cache_of (sl' y) = slab_cache_of (sl y)" "free_list (sl' y) = free_list (sl y)" "free_count (sl' y) = free_count (sl y)"
proof -
  obtain n where "sl' y = (sl y)\<lparr>slab_next := n\<rparr>" using assms by (auto simp: only_next_def)
  then show "slab_cache_of (sl' y) = slab_cache_of (sl y)" "free_list (sl' y) = free_list (sl y)" "free_count (sl' y) = free_count (sl y)"
    by simp_all
qed

text \<open>
  The slabs of the cache after \<open>x\<close> was pushed on the free list of the slab in page \<open>p\<close> and some
  \<^verbatim>\<open>next\<close> pointers changed: the slab of \<open>p\<close> has one more free object, the others are as before.
\<close>

lemma slabs_after_push:
  assumes ok: "cache_ok sl bf c ca A" and r: "slab_size ca \<noteq> 0" and so: "slab_ok sl bf c ca p fl"
    and x: "x \<in> objs ca p" "x \<notin> set fl" and p: "p \<in> view_pages A"
    and sl1: "sl1 = sl(slab_at p := (sl (slab_at p))\<lparr>free_list := x, free_count := Suc (length fl)\<rparr>)"
    and nx: "only_next sl1 sl2" and sh: "obj_size ca' = obj_size ca" "obj_per_slab ca' = obj_per_slab ca"
  shows "slab_ok sl2 (bf(x := free_list (sl (slab_at p)))) c ca' p (x # fl)"
    and "q \<in> view_pages A \<Longrightarrow> q \<noteq> p \<Longrightarrow> slab_ok sl bf c ca q gl \<Longrightarrow>
      slab_ok sl2 (bf(x := free_list (sl (slab_at p)))) c ca' q gl"
proof -
  have sz: "cache_sizes ca" and pu: "usable_page p" using cache_ok_usable [OF ok p] by auto
  have ob: "objs ca' q = objs ca q" for q using sh by (simp add: objs_def obj_at_def)
  have shape: "slab_ok s b c ca' q gl = slab_ok s b c ca q gl" for s b q gl by (simp add: slab_ok_def ob)
  have "free_list (sl2 (slab_at p)) = x" "free_count (sl2 (slab_at p)) = Suc (length fl)" "slab_cache_of (sl2 (slab_at p)) = c"
    using so by (simp_all add: only_nextD [OF nx] sl1 slab_ok_def)
  then show "slab_ok sl2 (bf(x := free_list (sl (slab_at p)))) c ca' p (x # fl)"
    using slab_push_ok(1) [OF so x sz] shape by blast
  assume q: "q \<in> view_pages A" "q \<noteq> p" and gl: "slab_ok sl bf c ca q gl"
  have "x \<notin> objs ca q" using objs_disjoint [OF sz sz pu] cache_ok_usable [OF ok q(1)] q(2) x(1) by blast
  then show "slab_ok sl2 (bf(x := free_list (sl (slab_at p)))) c ca' q gl"
    unfolding shape using q(2) by (intro slab_ok_cong [OF _ _ _ _ gl]) (auto simp: only_nextD [OF nx] sl1)
qed

lemma only_next_refl [simp]: "only_next sl sl"
  unfolding only_next_def
proof
  fix y show "\<exists>n. sl y = (sl y)\<lparr>slab_next := n\<rparr>" by (rule exI [of _ "slab_next (sl y)"]) simp
qed

lemma only_next_upd: "only_next sl sl' \<Longrightarrow> only_next sl (sl'(y := (sl' y)\<lparr>slab_next := n\<rparr>))"
  unfolding only_next_def
proof
  fix z assume a: "\<forall>y. \<exists>n. sl' y = (sl y)\<lparr>slab_next := n\<rparr>"
  then obtain m where "sl' z = (sl z)\<lparr>slab_next := m\<rparr>" by blast
  then show "\<exists>m. (sl'(y := (sl' y)\<lparr>slab_next := n\<rparr>)) z = (sl z)\<lparr>slab_next := m\<rparr>" by (cases "z = y") auto
qed

lemma linked_only_next_same:
  assumes "linked (slab_next \<circ> sl) q (map slab_at ps)" and "\<And>p. p \<in> set ps \<Longrightarrow> slab_next (sl' (slab_at p)) = slab_next (sl (slab_at p))"
  shows "linked (slab_next \<circ> sl') q (map slab_at ps)"
proof -
  have "linked (slab_next \<circ> sl') q (map slab_at ps) = linked (slab_next \<circ> sl) q (map slab_at ps)"
    by (rule linked_cong) (use assms(2) in auto)
  then show ?thesis using assms(1) by simp
qed

text \<open>The address \<^verbatim>\<open>slab_cache_free\<close> computes for the slab of an object.\<close>

lemma slab_of_obj:
  assumes "cache_sizes ca" and "usable_page p" and "x \<in> objs ca p"
  shows "(x AND NOT (slab_size ca - 1)) + slab_size ca - sizeof_slab = slab_at p"
proof -
  have "x AND NOT (slab_size ca - 1) = PHYS_MAP_BASE + p"
    using objs_page [OF assms] assms(1) by (simp add: cache_sizes_def)
  then show ?thesis using assms(1) by (simp add: cache_sizes_def slab_at_def)
qed

lemma caches_ok_own:
  assumes ok: "caches_ok sl bf ca T" and new: "cache_ok sl' bf' c ca' A'"
    and sl: "\<And>p. p \<notin> view_pages (T c) \<Longrightarrow> sl' (slab_at p) = sl (slab_at p)"
    and bf: "\<And>y. y \<noteq> x \<Longrightarrow> bf' y = bf y" and x: "x \<in> objs (ca c) p" "p \<in> view_pages (T c)"
  shows "caches_ok sl' bf' (ca(c := ca')) (T(c := A'))"
proof (rule caches_ok_upd [OF ok new, where M = "view_pages (T c)" and B = "{x}"])
  have okc: "cache_ok sl bf c (ca c) (T c)" using ok by (simp add: caches_ok_def)
  show "\<exists>p \<in> view_pages (T c). y AND - 0x1000 = PHYS_MAP_BASE + p" if "y \<in> {x}" for y
    using that objs_page [OF _ _ x(1)] cache_ok_usable [OF okc x(2)] x(2) by auto
  show "view_pages (T c) \<inter> view_pages (T d) = {}" if "d \<noteq> c" for d
    using that caches_ok_disjoint [OF ok] by blast
qed (use sl bf in auto)

text \<open>The lists after the slab left the list it was on, in the four cases of the code.\<close>

lemma free_in_full:
  assumes ok: "cache_ok sl bf c ca A" and r: "slab_size ca \<noteq> 0" and A: "fulls A = xs @ p # ys"
    and x: "x \<in> objs ca p" and so: "slab_ok sl bf c ca p []"
  defines "sl1 \<equiv> sl(slab_at p := (sl (slab_at p))\<lparr>free_list := x, free_count := Suc 0\<rparr>)"
    and "bf1 \<equiv> bf(x := free_list (sl (slab_at p)))"
  shows "\<exists>q sl2. slab_unlink (slab_at p) NULL (slab_full ca) (slab_full ca) sl1 = Some (q, sl2)
     \<and> (\<forall>u. u \<notin> view_pages A \<longrightarrow> sl2 (slab_at u) = sl (slab_at u))
     \<and> cache_ok sl2 bf1 c (ca\<lparr>slab_full := q\<rparr>) (A\<lparr>fulls := xs @ ys\<rparr>)
     \<and> cache_ok (sl2(slab_at p := (sl2 (slab_at p))\<lparr>slab_next := slab_partial ca\<rparr>)) bf1 c
          (ca\<lparr>slab_full := q, slab_partial := slab_at p\<rparr>) (A\<lparr>fulls := xs @ ys, parts := (p, [x]) # parts A\<rparr>)"
proof -
  have sz: "cache_sizes ca" and lf: "linked (slab_next \<circ> sl) (slab_full ca) (map slab_at xs @ slab_at p # map slab_at ys)"
    and lp: "linked (slab_next \<circ> sl) (slab_partial ca) (map slab_at (map fst (parts A)))"
    and di: "distinct (xs @ p # ys @ map fst (parts A))" and pu: "usable_page p"
    and fo: "\<And>q. q \<in> set (xs @ ys) \<Longrightarrow> slab_ok sl bf c ca q []"
    and po: "\<And>q gl. (q, gl) \<in> set (parts A) \<Longrightarrow> slab_ok sl bf c ca q gl \<and> gl \<noteq> []"
    using ok r A so by (auto simp: cache_ok_def slab_ok_def)
  have pv: "p \<in> view_pages A" and vp: "view_pages A = insert p (set xs \<union> set ys \<union> fst ` set (parts A))"
    by (auto simp: view_pages_def A)
  have "linked (slab_next \<circ> sl1) (slab_full ca) (map slab_at (xs @ p # ys))"
    by (rule linked_only_next_same [where sl = sl]) (use lf in \<open>auto simp: sl1_def\<close>)
  then obtain q sl2 where un: "slab_unlink (slab_at p) NULL (slab_full ca) (slab_full ca) sl1 = Some (q, sl2)"
      "linked (slab_next \<circ> sl2) q (map slab_at xs @ map slab_at ys)" "\<forall>y. \<exists>n. sl2 y = (sl1 y)\<lparr>slab_next := n\<rparr>"
      "\<And>y. y \<notin> set (map slab_at xs) \<Longrightarrow> sl2 y = sl1 y"
    using slab_unlink_ok [of sl1 "slab_full ca" "map slab_at xs" "slab_at p" "map slab_at ys"] by auto
  let ?sl3 = "sl2(slab_at p := (sl2 (slab_at p))\<lparr>slab_next := slab_partial ca\<rparr>)"
  have nx: "only_next sl1 sl2" using un(3) by (simp add: only_next_def)
  then have nx3: "only_next sl1 ?sl3" by (rule only_next_upd)
  have sl1: "sl1 = sl(slab_at p := (sl (slab_at p))\<lparr>free_list := x, free_count := Suc (length [])\<rparr>)" by (simp add: sl1_def)
  note push = slabs_after_push [OF ok r so x _ pv sl1, folded bf1_def]
  have dip: "p \<notin> set xs" "p \<notin> set ys" "p \<notin> fst ` set (parts A)" using di by auto
  have lp2: "linked (slab_next \<circ> sl2) (slab_partial ca) (map slab_at (map fst (parts A)))"
  proof (rule linked_only_next_same [OF lp])
    fix u assume u: "u \<in> set (map fst (parts A))"
    have "set xs \<inter> set (map fst (parts A)) = {}" "p \<notin> set (map fst (parts A))" using di by auto
    then have "u \<notin> set xs" "u \<noteq> p" using u by blast+
    then have "slab_at u \<notin> set (map slab_at xs)" "u \<noteq> p" by auto
    then show "slab_next (sl2 (slab_at u)) = slab_next (sl (slab_at u))" using un(4) [of "slab_at u"] by (auto simp: sl1_def)
  qed
  have lf3: "linked (slab_next \<circ> ?sl3) q (map slab_at (xs @ ys))"
    by (rule linked_only_next_same [where sl = sl2]) (use un(2) dip in auto)
  have lp3: "linked (slab_next \<circ> ?sl3) (slab_partial ca) (map slab_at (map fst (parts A)))"
    by (rule linked_only_next_same [OF lp2]) (use dip in auto)
  have keep: "slab_ok sl' bf1 c ca' u gl" if "only_next sl1 sl'" "obj_size ca' = obj_size ca" "obj_per_slab ca' = obj_per_slab ca"
    "u \<in> set xs \<union> set ys \<union> fst ` set (parts A)" "slab_ok sl bf c ca u gl" for sl' ca' u gl
    using push(2) [OF _ that(1-3) _ _ that(5)] that(4) vp dip by auto
  have fo': "slab_ok sl' bf1 c ca' u []" if "only_next sl1 sl'" "obj_size ca' = obj_size ca" "obj_per_slab ca' = obj_per_slab ca"
    "u \<in> set xs \<union> set ys" for sl' ca' u
    using keep [OF that(1-3) _ fo [of u]] that(4) by auto
  have po': "slab_ok sl' bf1 c ca' u gl \<and> gl \<noteq> []" if "only_next sl1 sl'" "obj_size ca' = obj_size ca" "obj_per_slab ca' = obj_per_slab ca"
    "(u, gl) \<in> set (parts A)" for sl' ca' u gl
    using keep [OF that(1-3) _ conjunct1 [OF po [OF that(4)]]] po [OF that(4)] image_eqI [OF _ that(4), of u fst] by auto
  have ne: "snd u \<noteq> []" if "u \<in> set (parts A)" for u using po [of "fst u" "snd u"] that by simp
  have "cache_ok sl2 bf1 c (ca\<lparr>slab_full := q\<rparr>) (A\<lparr>fulls := xs @ ys\<rparr>)"
    unfolding cache_ok_def using r sz un(2) lp2 di fo' [OF nx, of "ca\<lparr>slab_full := q\<rparr>"] po' [OF nx, of "ca\<lparr>slab_full := q\<rparr>"] ne
    by (simp add: cache_sizes_def ball_Un case_prod_unfold)
  moreover have "cache_ok ?sl3 bf1 c (ca\<lparr>slab_full := q, slab_partial := slab_at p\<rparr>) (A\<lparr>fulls := xs @ ys, parts := (p, [x]) # parts A\<rparr>)"
  proof -
    let ?ca = "ca\<lparr>slab_full := q, slab_partial := slab_at p\<rparr>"
    have "slab_ok ?sl3 bf1 c ?ca p [x]" using push(1) [OF _ nx3] by simp
    then show ?thesis unfolding cache_ok_def
      using r sz lf3 lp3 di fo' [OF nx3, of ?ca] po' [OF nx3, of ?ca] ne slab_at_nonNULL [OF pu]
      by (simp add: cache_sizes_def ball_Un case_prod_unfold)
  qed
  moreover have "\<forall>u. u \<notin> view_pages A \<longrightarrow> sl2 (slab_at u) = sl (slab_at u)"
    using un(4) [of "slab_at u" for u, unfolded slab_at_mem] vp by (auto simp: sl1_def)
  ultimately show ?thesis using un(1) by blast
qed

lemma free_in_partial:
  assumes ok: "cache_ok sl bf c ca A" and r: "slab_size ca \<noteq> 0" and A: "parts A = xs @ (p, fl) # ys"
    and x: "x \<in> objs ca p" "x \<notin> set fl" and so: "slab_ok sl bf c ca p fl"
  defines "sl1 \<equiv> sl(slab_at p := (sl (slab_at p))\<lparr>free_list := x, free_count := Suc (length fl)\<rparr>)"
    and "bf1 \<equiv> bf(x := free_list (sl (slab_at p)))"
  shows "cache_ok sl1 bf1 c ca (A\<lparr>parts := xs @ (p, x # fl) # ys\<rparr>)"
    and "\<exists>q sl2. slab_unlink (slab_at p) NULL (slab_partial ca) (slab_partial ca) sl1 = Some (q, sl2)
     \<and> (\<forall>u. u \<notin> view_pages A \<longrightarrow> sl2 (slab_at u) = sl (slab_at u))
     \<and> cache_ok sl2 bf1 c (ca\<lparr>slab_partial := q\<rparr>) (A\<lparr>parts := xs @ ys\<rparr>)"
proof -
  let ?ps = "map fst xs @ p # map fst ys"
  have sz: "cache_sizes ca" and lf: "linked (slab_next \<circ> sl) (slab_full ca) (map slab_at (fulls A))"
    and lp: "linked (slab_next \<circ> sl) (slab_partial ca) (map slab_at ?ps)"
    and di: "distinct (fulls A @ ?ps)"
    and fo: "\<And>q. q \<in> set (fulls A) \<Longrightarrow> slab_ok sl bf c ca q []"
    and po: "\<And>q gl. (q, gl) \<in> set (xs @ ys) \<Longrightarrow> slab_ok sl bf c ca q gl \<and> gl \<noteq> []"
    using ok r A by (auto simp: cache_ok_def)
  have vp: "view_pages A = insert p (set (fulls A) \<union> fst ` set (xs @ ys))" and pv: "p \<in> view_pages A"
    by (auto simp: view_pages_def A)
  note push = slabs_after_push [OF ok r so x pv sl1_def [THEN meta_eq_to_obj_eq], folded bf1_def]
  have dip: "p \<notin> set (fulls A)" "p \<notin> fst ` set (xs @ ys)" using di by auto
  have fo': "slab_ok sl' bf1 c ca' u []" if "only_next sl1 sl'" "obj_size ca' = obj_size ca" "obj_per_slab ca' = obj_per_slab ca"
    "u \<in> set (fulls A)" for sl' ca' u
    using push(2) [OF that(1-3) _ _ fo [OF that(4)]] that(4) dip vp by auto
  have po': "slab_ok sl' bf1 c ca' u gl \<and> gl \<noteq> []" if "only_next sl1 sl'" "obj_size ca' = obj_size ca" "obj_per_slab ca' = obj_per_slab ca"
    "(u, gl) \<in> set (xs @ ys)" for sl' ca' u gl
  proof -
    have u: "u \<in> fst ` set (xs @ ys)" using image_eqI [OF _ that(4), of u fst] by simp
    then have "u \<noteq> p" using dip by auto
    moreover have "u \<in> view_pages A" using u vp by auto
    ultimately show ?thesis using push(2) [OF that(1-3), of u gl] po [OF that(4)] by blast
  qed
  have ne: "snd u \<noteq> []" if "u \<in> set xs \<or> u \<in> set ys" for u
    using po [of "fst u" "snd u"] that by auto
  have lk1: "linked (slab_next \<circ> sl1) q (map slab_at qs)" if "linked (slab_next \<circ> sl) q (map slab_at qs)" for q qs
    by (rule linked_only_next_same [OF that]) (simp add: sl1_def)
  have "slab_ok sl1 bf1 c ca p (x # fl)" using push(1) by simp
  then show "cache_ok sl1 bf1 c ca (A\<lparr>parts := xs @ (p, x # fl) # ys\<rparr>)"
    unfolding cache_ok_def using r sz lk1 [OF lf] lk1 [OF lp] di fo' [OF only_next_refl, of ca] po' [OF only_next_refl, of ca] ne
    by (simp add: ball_Un case_prod_unfold)
  obtain q sl2 where un: "slab_unlink (slab_at p) NULL (slab_partial ca) (slab_partial ca) sl1 = Some (q, sl2)"
      "linked (slab_next \<circ> sl2) q (map slab_at (map fst xs) @ map slab_at (map fst ys))"
      "\<forall>y. \<exists>n. sl2 y = (sl1 y)\<lparr>slab_next := n\<rparr>" "\<And>y. y \<notin> set (map slab_at (map fst xs)) \<Longrightarrow> sl2 y = sl1 y"
    using slab_unlink_ok [of sl1 "slab_partial ca" "map slab_at (map fst xs)" "slab_at p" "map slab_at (map fst ys)"]
      lk1 [OF lp] by auto
  have nx: "only_next sl1 sl2" using un(3) by (simp add: only_next_def)
  have lf2: "linked (slab_next \<circ> sl2) (slab_full ca) (map slab_at (fulls A))"
  proof (rule linked_only_next_same [OF lf])
    fix u assume u: "u \<in> set (fulls A)"
    have "set (fulls A) \<inter> set (map fst xs) = {}" using di by auto
    then have "u \<notin> set (map fst xs)" using u by blast
    then have "slab_at u \<notin> set (map slab_at (map fst xs))" by (simp only: slab_at_mem simp_thms)
    then show "slab_next (sl2 (slab_at u)) = slab_next (sl (slab_at u))" using un(4) [of "slab_at u"] by (auto simp: sl1_def)
  qed
  have "cache_ok sl2 bf1 c (ca\<lparr>slab_partial := q\<rparr>) (A\<lparr>parts := xs @ ys\<rparr>)"
    unfolding cache_ok_def using r sz lf2 un(2) di fo' [OF nx, of "ca\<lparr>slab_partial := q\<rparr>"] po' [OF nx, of "ca\<lparr>slab_partial := q\<rparr>"] ne
    by (simp add: cache_sizes_def ball_Un case_prod_unfold)
  moreover have "\<forall>u. u \<notin> view_pages A \<longrightarrow> sl2 (slab_at u) = sl (slab_at u)"
    using un(4) [of "slab_at u" for u, unfolded slab_at_mem] vp by (auto simp: sl1_def image_Un)
  ultimately show "\<exists>q sl2. slab_unlink (slab_at p) NULL (slab_partial ca) (slab_partial ca) sl1 = Some (q, sl2)
     \<and> (\<forall>u. u \<notin> view_pages A \<longrightarrow> sl2 (slab_at u) = sl (slab_at u))
     \<and> cache_ok sl2 bf1 c (ca\<lparr>slab_partial := q\<rparr>) (A\<lparr>parts := xs @ ys\<rparr>)"
    using un(1) by blast
qed

text \<open>What the release does to the set of live objects of the cache.\<close>

lemma view_live_remove:
  assumes ok: "cache_ok sl bf c ca A" and r: "slab_size ca \<noteq> 0" and x: "x \<in> objs ca p" "x \<notin> set fl"
    and A: "fulls A = xs @ p # ys \<and> fl = [] \<or> parts A = xs' @ (p, fl) # ys'"
  shows "view_live ca A = (objs ca p - set fl) \<union> view_live ca (if p \<in> set (fulls A) then A\<lparr>fulls := xs @ ys\<rparr> else A\<lparr>parts := xs' @ ys'\<rparr>)"
    and "x \<notin> view_live ca (if p \<in> set (fulls A) then A\<lparr>fulls := xs @ ys\<rparr> else A\<lparr>parts := xs' @ ys'\<rparr>)"
proof -
  let ?B = "if p \<in> set (fulls A) then A\<lparr>fulls := xs @ ys\<rparr> else A\<lparr>parts := xs' @ ys'\<rparr>"
  have di: "distinct (fulls A @ map fst (parts A))" and sz: "cache_sizes ca" using ok r by (auto simp: cache_ok_def)
  have pu: "usable_page p" using cache_ok_usable [OF ok, of p] A by (auto simp: view_pages_def)
  have np: "p \<in> set (fulls A) \<longleftrightarrow> fulls A = xs @ p # ys \<and> fl = []" using A di by auto
  show "view_live ca A = (objs ca p - set fl) \<union> view_live ca ?B"
    using A di np by (auto simp: view_live_def)
  have "x \<notin> objs ca q" if "q \<in> view_pages ?B" for q
  proof -
    have "q \<noteq> p" "q \<in> view_pages A" using that A di np by (auto simp: view_pages_def split: if_splits)
    then show ?thesis using objs_disjoint [OF sz sz pu, of q] cache_ok_usable [OF ok, of q] x(1) by auto
  qed
  then show "x \<notin> view_live ca ?B" by (fastforce simp: view_live_def view_pages_def)
qed

text \<open>
  The last step of a release: the slab moved between the lists, or its page goes back.  \<open>A\<close> is the
  view of the cache afterwards.
\<close>

abbreviation (input) release_post ::
  "cache_id \<Rightarrow> ptr \<Rightarrow> 'a slab_state_scheme \<Rightarrow> (cache_id \<Rightarrow> cache_view) \<Rightarrow> ptr set \<Rightarrow> 'a slab_state_scheme \<Rightarrow> cache_view \<Rightarrow> bool" where
  "release_post c x s T U s' A \<equiv> slab_abs s' (T(c := A)) U \<and> slab_frame s s' \<and> same_shape (caches s) (caches s')
     \<and> view_live (caches s c) A = view_live (caches s c) (T c) - {x}"

lemma release_kept:
  assumes abs: "slab_abs s T U" and x: "x \<in> objs (caches s c) p" "p \<in> view_pages (T c)"
    and s': "s' = s\<lparr>locks := L, bufs := bf', slabs := sl', caches := (caches s)(c := ca')\<rparr>" and L: "addrs_ok L"
    and new: "cache_ok sl' bf' c ca' A" "view_pages A = view_pages (T c)"
    and sl: "\<And>p. p \<notin> view_pages (T c) \<Longrightarrow> sl' (slab_at p) = slabs s (slab_at p)" and bf: "\<And>y. y \<noteq> x \<Longrightarrow> bf' y = bufs s y"
    and sh: "slab_size ca' = slab_size (caches s c)" "obj_size ca' = obj_size (caches s c)" "obj_per_slab ca' = obj_per_slab (caches s c)"
    and live: "view_live (caches s c) A = view_live (caches s c) (T c) - {x}"
  shows "release_post c x s T U s' A"
proof -
  have "caches_ok sl' bf' ((caches s)(c := ca')) (T(c := A))"
    by (rule caches_ok_own [of "slabs s" "bufs s" "caches s" T sl' bf' c ca' A x p]) (use abs new(1) sl bf x in simp_all)
  then show ?thesis
    using abs L live all_pages_same [of A T c] new(2) sh by (simp add: s' slab_frame_def same_shape_upd)
qed

lemma release_page:
  assumes abs: "slab_abs s T U" and ready: "cache_ready s c" and x: "x \<in> objs (caches s c) p" "p \<in> view_pages (T c)"
    and s1: "s1 = s\<lparr>int_flag := False, locks := lock_held (CACHE_LOCK c) (int_flag s) (locks s), bufs := bf', slabs := sl',
        caches := (caches s)(c := ca')\<rparr>"
    and new: "cache_ok sl' bf' c ca' A" "view_pages A = view_pages (T c) - {p}"
    and sl: "\<And>p. p \<notin> view_pages (T c) \<Longrightarrow> sl' (slab_at p) = slabs s (slab_at p)" and bf: "\<And>y. y \<noteq> x \<Longrightarrow> bf' y = bufs s y"
    and sh: "slab_size ca' = slab_size (caches s c)" "obj_size ca' = obj_size (caches s c)" "obj_per_slab ca' = obj_per_slab (caches s c)"
    and live: "view_live (caches s c) A = view_live (caches s c) (T c) - {x}"
  shows "\<exists>s2. slab_free c (slab_at p) s1 = Some s2 \<and> release_post c x s T U (spinunlock_enable (CACHE_LOCK c) s2) A"
proof -
  have okc: "cache_ok (slabs s) (bufs s) c (caches s c) (T c)" using abs by (simp add: caches_ok_def)
  have pu: "usable_page p" "cache_sizes (caches s c)" using cache_ok_usable [OF okc x(2)] by auto
  have pa: "p \<in> all_pages T" using x(2) by (auto simp: all_pages_def)
  have inv1: "pmm_inv s1" and pg1: "pages_split U (all_pages T) (free_stack s1) (s_allocatedPageCount s1)"
    and sz1: "slab_size (caches s1 c) = PAGE_SIZE"
    using abs sh pu(2) by (simp_all add: s1 cache_sizes_def)
  obtain k F where run: "slab_free c (slab_at p) s1 = Some (s1\<lparr>locks := lock_used PMM_LOCK s1, s_allocatedPageCount := k, s_freeTable := F\<rparr>)"
    and ok: "pages_ok F k (s_freePageCount s1)" "pages_split U (all_pages T - {p}) (page_stack F k (s_freePageCount s1)) k"
    using slab_free_ok [OF inv1 pg1 pa pu(1) sz1] by blast
  have "caches_ok sl' bf' ((caches s)(c := ca')) (T(c := A))"
    by (rule caches_ok_own [of "slabs s" "bufs s" "caches s" T sl' bf' c ca' A x p]) (use abs new(1) sl bf x in simp_all)
  moreover have "all_pages (T(c := A)) = all_pages T - {p}"
    using abs caches_ok_disjoint x(2) by (intro all_pages_remove [of A T c p, OF new(2)]) blast
  ultimately show ?thesis
    using run ok live sh abs by (simp add: s1 slab_frame_def same_shape_upd spinunlock_enable_eq)
qed

lemma slab_cache_free_ok:
  assumes abs: "slab_abs s T U" and ready: "cache_ready s c" and x: "x \<in> view_live (caches s c) (T c)"
  shows "\<exists>s' A. slab_cache_free c x s = Some s' \<and> release_post c x s T U s' A"
proof -
  let ?ca = "caches s c" and ?A = "T c"
  let ?s = "s\<lparr>int_flag := False, locks := lock_held (CACHE_LOCK c) (int_flag s) (locks s)\<rparr>"
  have ok: "cache_ok (slabs s) (bufs s) c ?ca ?A" using abs by (simp add: caches_ok_def)
  have sz: "cache_sizes ?ca" using ok ready by (simp add: cache_ok_def)
  have di: "distinct (fulls ?A @ map fst (parts ?A))" using ok ready by (simp add: cache_ok_def)
  have L: "locks_ok s" using abs by simp
  from ok ready x show ?thesis
  proof (cases rule: view_live_cases)
    case (full p xs ys)
    have pv: "p \<in> view_pages ?A" and pu: "usable_page p" and nf: "p \<in> set (fulls ?A)"
      using full by (auto simp: view_pages_def slab_ok_def)
    have addr: "(x AND NOT (slab_size ?ca - 1)) + slab_size ?ca - sizeof_slab = slab_at p" by (rule slab_of_obj [OF sz pu full(2)])
    have st: "free_count (slabs s (slab_at p)) = 0" "slab_cache_of (slabs s (slab_at p)) = c"
      using full(3) by (auto simp: slab_ok_def)
    let ?sl1 = "(slabs s)(slab_at p := (slabs s (slab_at p))\<lparr>free_list := x, free_count := Suc 0\<rparr>)"
    let ?bf1 = "(bufs s)(x := free_list (slabs s (slab_at p)))"
    obtain q sl2 where un: "slab_unlink (slab_at p) NULL (slab_full ?ca) (slab_full ?ca) ?sl1 = Some (q, sl2)"
      "\<forall>u. u \<notin> view_pages ?A \<longrightarrow> sl2 (slab_at u) = slabs s (slab_at u)"
      "cache_ok sl2 ?bf1 c (?ca\<lparr>slab_full := q\<rparr>) (?A\<lparr>fulls := xs @ ys\<rparr>)"
      "cache_ok (sl2(slab_at p := (sl2 (slab_at p))\<lparr>slab_next := slab_partial ?ca\<rparr>)) ?bf1 c
         (?ca\<lparr>slab_full := q, slab_partial := slab_at p\<rparr>) (?A\<lparr>fulls := xs @ ys, parts := (p, [x]) # parts ?A\<rparr>)"
      using free_in_full [OF ok ready full(1,2,3)] by blast
    note live = view_live_remove [OF ok ready full(2), of "[]" xs ys, simplified nf if_True]
    have live': "view_live ?ca ?A = (objs ?ca p) \<union> view_live ?ca (?A\<lparr>fulls := xs @ ys\<rparr>)" "x \<notin> view_live ?ca (?A\<lparr>fulls := xs @ ys\<rparr>)"
      using live full(1) by auto
    show ?thesis
    proof (cases "obj_per_slab ?ca = Suc 0")
      case True
      let ?s1 = "s\<lparr>int_flag := False, locks := lock_held (CACHE_LOCK c) (int_flag s) (locks s),
        bufs := ?bf1, slabs := sl2, caches := (caches s)(c := ?ca\<lparr>slab_full := q\<rparr>)\<rparr>"
      have "objs ?ca p = {x}" using full(2) True by (auto simp: objs_def)
      then have lv: "view_live ?ca (?A\<lparr>fulls := xs @ ys\<rparr>) = view_live ?ca ?A - {x}" using live' by auto
      have vp: "view_pages (?A\<lparr>fulls := xs @ ys\<rparr>) = view_pages ?A - {p}" using full(1) di by (auto simp: view_pages_def)
      have "\<exists>s2. slab_free c (slab_at p) ?s1 = Some s2 \<and> release_post c x s T U (spinunlock_enable (CACHE_LOCK c) s2) (?A\<lparr>fulls := xs @ ys\<rparr>)"
        using un(2) by (intro release_page [OF abs ready full(2) pv refl un(3) vp _ _ _ _ _ lv]) auto
      then obtain s2 where fr: "slab_free c (slab_at p) ?s1 = Some s2"
        "release_post c x s T U (spinunlock_enable (CACHE_LOCK c) s2) (?A\<lparr>fulls := xs @ ys\<rparr>)" by blast
      have "slab_cache_free c x s = Some (spinunlock_enable (CACHE_LOCK c) s2)"
        using L addr st True un(1) fr(1) by (simp add: slab_cache_free_def spinlock_disable_ok)
      with fr(2) show ?thesis by blast
    next
      case False
      then have n1: "Suc 0 \<noteq> obj_per_slab ?ca" by simp
      let ?sl3 = "sl2(slab_at p := (sl2 (slab_at p))\<lparr>slab_next := slab_partial ?ca\<rparr>)"
      let ?s' = "s\<lparr>locks := lock_used (CACHE_LOCK c) s, bufs := ?bf1, slabs := ?sl3,
        caches := (caches s)(c := ?ca\<lparr>slab_full := q, slab_partial := slab_at p\<rparr>)\<rparr>"
      have run: "slab_cache_free c x s = Some ?s'"
        using L addr st n1 un(1) by (simp add: slab_cache_free_def spinlock_disable_ok spinunlock_enable_eq Let_def)
      have "view_live ?ca (?A\<lparr>fulls := xs @ ys, parts := (p, [x]) # parts ?A\<rparr>) = (objs ?ca p - {x}) \<union> view_live ?ca (?A\<lparr>fulls := xs @ ys\<rparr>)"
        by (auto simp: view_live_def)
      then have lv: "view_live ?ca (?A\<lparr>fulls := xs @ ys, parts := (p, [x]) # parts ?A\<rparr>) = view_live ?ca ?A - {x}"
        using live' by auto
      have vp: "view_pages (?A\<lparr>fulls := xs @ ys, parts := (p, [x]) # parts ?A\<rparr>) = view_pages ?A"
        using full(1) by (auto simp: view_pages_def)
      have "release_post c x s T U ?s' (?A\<lparr>fulls := xs @ ys, parts := (p, [x]) # parts ?A\<rparr>)"
        using un(2) pv L by (intro release_kept [OF abs full(2) pv refl _ un(4) vp _ _ _ _ _ lv]) auto
      with run show ?thesis by blast
    qed
  next
    case (partial p fl xs ys)
    have pv: "p \<in> view_pages ?A" and pu: "usable_page p"
      using partial by (auto simp: view_pages_def slab_ok_def)
    have nf: "p \<notin> set (fulls ?A)" using di partial(1) by auto
    have addr: "(x AND NOT (slab_size ?ca - 1)) + slab_size ?ca - sizeof_slab = slab_at p" by (rule slab_of_obj [OF sz pu partial(2)])
    have st: "free_count (slabs s (slab_at p)) = length fl" "slab_cache_of (slabs s (slab_at p)) = c"
      using partial(4) by (auto simp: slab_ok_def)
    have n0: "length fl \<noteq> 0" using partial(5) by simp
    let ?sl1 = "(slabs s)(slab_at p := (slabs s (slab_at p))\<lparr>free_list := x, free_count := Suc (length fl)\<rparr>)"
    let ?bf1 = "(bufs s)(x := free_list (slabs s (slab_at p)))"
    note fp = free_in_partial [OF ok ready partial(1,2,3,4)]
    note live = view_live_remove [OF ok ready partial(2,3), of "[]" "[]" xs ys, simplified nf if_False]
    have live': "view_live ?ca ?A = (objs ?ca p - set fl) \<union> view_live ?ca (?A\<lparr>parts := xs @ ys\<rparr>)" "x \<notin> view_live ?ca (?A\<lparr>parts := xs @ ys\<rparr>)"
      using live partial(1) by auto
    show ?thesis
    proof (cases "Suc (length fl) = obj_per_slab ?ca")
      case True
      obtain q sl2 where un: "slab_unlink (slab_at p) NULL (slab_partial ?ca) (slab_partial ?ca) ?sl1 = Some (q, sl2)"
        "\<forall>u. u \<notin> view_pages ?A \<longrightarrow> sl2 (slab_at u) = slabs s (slab_at u)"
        "cache_ok sl2 ?bf1 c (?ca\<lparr>slab_partial := q\<rparr>) (?A\<lparr>parts := xs @ ys\<rparr>)"
        using fp(2) by blast
      let ?s1 = "s\<lparr>int_flag := False, locks := lock_held (CACHE_LOCK c) (int_flag s) (locks s),
        bufs := ?bf1, slabs := sl2, caches := (caches s)(c := ?ca\<lparr>slab_partial := q\<rparr>)\<rparr>"
      have "objs ?ca p - set fl = {x}"
        by (rule slab_push_ok(3) [OF partial(4,2,3) sz, of ?sl1]) (use True st in auto)
      then have lv: "view_live ?ca (?A\<lparr>parts := xs @ ys\<rparr>) = view_live ?ca ?A - {x}" using live' by auto
      have vp: "view_pages (?A\<lparr>parts := xs @ ys\<rparr>) = view_pages ?A - {p}"
        using partial(1) di by (auto simp: view_pages_def)
      have "\<exists>s2. slab_free c (slab_at p) ?s1 = Some s2 \<and> release_post c x s T U (spinunlock_enable (CACHE_LOCK c) s2) (?A\<lparr>parts := xs @ ys\<rparr>)"
        using un(2) by (intro release_page [OF abs ready partial(2) pv refl un(3) vp _ _ _ _ _ lv]) auto
      then obtain s2 where fr: "slab_free c (slab_at p) ?s1 = Some s2"
        "release_post c x s T U (spinunlock_enable (CACHE_LOCK c) s2) (?A\<lparr>parts := xs @ ys\<rparr>)" by blast
      have "slab_cache_free c x s = Some (spinunlock_enable (CACHE_LOCK c) s2)"
        using L addr st n0 True un(1) fr(1) by (simp add: slab_cache_free_def spinlock_disable_ok)
      with fr(2) show ?thesis by blast
    next
      case False
      let ?s' = "s\<lparr>locks := lock_used (CACHE_LOCK c) s, bufs := ?bf1, slabs := ?sl1, caches := (caches s)(c := ?ca)\<rparr>"
      have run: "slab_cache_free c x s = Some ?s'"
        using L addr st n0 False by (simp add: slab_cache_free_def spinlock_disable_ok spinunlock_enable_eq Let_def)
      have lv: "view_live ?ca (?A\<lparr>parts := xs @ (p, x # fl) # ys\<rparr>) = view_live ?ca ?A - {x}"
      proof -
        have "view_live ?ca (?A\<lparr>parts := xs @ (p, x # fl) # ys\<rparr>) = (objs ?ca p - set (x # fl)) \<union> view_live ?ca (?A\<lparr>parts := xs @ ys\<rparr>)"
          by (auto simp: view_live_def)
        then show ?thesis using live' by auto
      qed
      have vp: "view_pages (?A\<lparr>parts := xs @ (p, x # fl) # ys\<rparr>) = view_pages ?A"
        using partial(1) by (auto simp: view_pages_def)
      have "release_post c x s T U ?s' (?A\<lparr>parts := xs @ (p, x # fl) # ys\<rparr>)"
        using pv L by (intro release_kept [OF abs partial(2) pv refl _ fp(1) vp _ _ _ _ _ lv]) auto
      with run show ?thesis by blast
    qed
  qed
qed

section \<open>A new cache\<close>

lemma unat_round_8: "unat ((x::u64) AND - 8) = unat x - unat x mod 8"
proof -
  have "(- 8 :: u64) = NOT 7" by simp
  then have "(x AND - 8) + (x AND 7) = (x AND - 8) OR (x AND 7)"
    by (simp only:) (rule disjunctive_add_eq_or, auto simp: bit_eq_iff bit_simps)
  also have "\<dots> = x" by (simp only: \<open>(- 8 :: u64) = NOT 7\<close>) (auto simp only: bit_eq_iff bit_simps)
  finally have "x AND - 8 = x - (x AND 7)" by (simp add: eq_diff_eq)
  moreover have "x AND 7 = take_bit 3 x" by (simp add: take_bit_eq_mask mask_eq_exp_minus_1)
  moreover have "x AND 7 \<le> x" by (rule word_and_le2)
  ultimately show ?thesis by (simp add: unat_sub unsigned_take_bit_eq) (simp add: take_bit_eq_mod)
qed

text \<open>The size of the objects of a cache, and how many fit.\<close>

lemma rounded_size:
  assumes sz: "0 < unat osz" "unat osz \<le> 4056"
  shows "8 \<le> unat ((osz + 8 - 1) AND NOT (8 - 1))" and "unat osz \<le> unat ((osz + 8 - 1) AND NOT (8 - 1))"
    and "unat ((PAGE_SIZE - sizeof_slab) div ((osz + 8 - 1) AND NOT (8 - 1))) = 4056 div unat ((osz + 8 - 1) AND NOT (8 - 1))"
    and "1 \<le> 4056 div unat ((osz + 8 - 1) AND NOT (8 - 1))"
proof -
  let ?z = "(osz + 8 - 1) AND NOT (8 - 1)"
  have "unat (7 + osz) = unat osz + 7" using sz by (simp add: unat_word_ariths)
  then have z: "unat ?z = unat osz + 7 - (unat osz + 7) mod 8" by (simp add: unat_round_8)
  define m where "m = (unat osz + 7) div 8"
  have m: "unat ?z = 8 * m" unfolding z m_def by (rule minus_mod_eq_mult_div)
  have "8 * m \<le> unat osz + 7 \<and> unat osz + 7 < 8 * m + 8" unfolding m_def by presburger
  then have z': "8 \<le> unat ?z" "unat osz \<le> unat ?z" "unat ?z \<le> 4056" unfolding m using sz by presburger+
  then show "8 \<le> unat ?z" "unat osz \<le> unat ?z" "1 \<le> 4056 div unat ?z" by (simp_all add: Suc_le_eq div_greater_zero_iff)
  show "unat ((PAGE_SIZE - sizeof_slab) div ?z) = 4056 div unat ?z" by (simp add: unat_div)
qed

text \<open>\<^verbatim>\<open>slab_cache_init\<close> succeeds for every object that fits a slab, and gives objects of at least that size.\<close>

lemma slab_cache_init_ok:
  assumes abs: "slab_abs s T U" and new: "slab_size (caches s c) = 0" and sz: "0 < unat osz" "unat osz \<le> 4056"
  shows "\<exists>s'. slab_cache_init c osz s = Some s' \<and> slab_abs s' T U \<and> cache_ready s' c \<and> view_live (caches s' c) (T c) = {}
    \<and> osz \<le> obj_size (caches s' c) \<and> (\<forall>d. d \<noteq> c \<longrightarrow> caches s' d = caches s d)
    \<and> s' = s\<lparr>locks := locks s', caches := caches s'\<rparr>"
proof -
  let ?z = "(osz + 8 - 1) AND NOT (8 - 1)"
  have z': "8 \<le> unat ?z" "unat osz \<le> unat ?z" and n: "unat ((PAGE_SIZE - sizeof_slab) div ?z) = 4056 div unat ?z"
    and n1: "1 \<le> 4056 div unat ?z" using rounded_size [OF sz] by simp_all
  have nle: "4056 div unat ?z * unat ?z \<le> 4056" by simp
  let ?ca = "\<lparr>slab_size = PAGE_SIZE, obj_size = ?z, obj_per_slab = unat ((PAGE_SIZE - sizeof_slab) div ?z),
     slab_full = NULL, slab_partial = NULL\<rparr>"
  have run: "slab_cache_init c osz s = Some (spinlock_init (CACHE_LOCK c) (s\<lparr>caches := (caches s)(c := ?ca)\<rparr>))"
    using z' n n1 by (simp add: slab_cache_init_def word_less_nat_alt Let_def)
  have T: "fulls (T c) = []" "parts (T c) = []"
    using abs new unfolding caches_ok_def cache_ok_def by (metis (full_types))+
  have "cache_sizes ?ca" unfolding cache_sizes_def using z' n n1 nle by simp
  then have "cache_ok (slabs s) (bufs s) c ?ca (T c)" using T by (simp add: cache_ok_def)
  then have "caches_ok (slabs s) (bufs s) ((caches s)(c := ?ca)) T" using abs by (simp add: caches_ok_def)
  moreover have "osz \<le> ?z" using z'(2) by (simp add: word_le_nat_alt)
  ultimately show ?thesis using run abs T
    by (intro exI [of _ "spinlock_init (CACHE_LOCK c) (s\<lparr>caches := (caches s)(c := ?ca)\<rparr>)"])
      (auto simp: spinlock_init_def addrs_ok_def view_live_def)
qed

section \<open>Properties\<close>

text \<open>A state with one cache of two objects per slab and one slab, both of its objects live.\<close>

abbreviation (input) sample_slabs :: slab_state where
  "sample_slabs \<equiv> \<lparr>int_flag = True, locks = sample_locks,
     free_table = PHYS_MAP_BASE + 0x8000, s_freeTable = (\<lambda>i. if i = 0 then 0x1000 else 0x2000), s_freePageCount = 2, s_allocatedPageCount = 1,
     slabs = (\<lambda>_. \<lparr>slab_next = 0, slab_cache_of = ENTRY_CACHE, slab_base = 0, free_list = 0, free_count = 0\<rparr>),
     bufs = (\<lambda>_. 0),
     caches = (\<lambda>c. if c = ENTRY_CACHE
                   then \<lparr>slab_size = 0x1000, obj_size = 8, obj_per_slab = 2, slab_full = PHYS_MAP_BASE + 0x3fd8, slab_partial = 0\<rparr>
                   else \<lparr>slab_size = 0, obj_size = 0, obj_per_slab = 0, slab_full = 0, slab_partial = 0\<rparr>)\<rparr>"

abbreviation (input) sample_view :: "cache_id \<Rightarrow> cache_view" where
  "sample_view \<equiv> \<lambda>c. if c = ENTRY_CACHE then \<lparr>fulls = [0x3000], parts = []\<rparr> else \<lparr>fulls = [], parts = []\<rparr>"

lemma sample_slabs_abs: "slab_abs sample_slabs sample_view {}"
proof -
  have "all_pages sample_view = {0x3000}" by (auto simp: all_pages_def view_pages_def split: if_splits)
  moreover have "caches_ok (slabs sample_slabs) (bufs sample_slabs) (caches sample_slabs) sample_view"
    by (simp add: caches_ok_def cache_ok_def slab_ok_def cache_sizes_def slab_at_def usable_page_def page_aligned_def)
  ultimately show ?thesis using sample_pages_inv(2)
    by (simp add: pages_split_def sample_stack)
qed

lemma sample_live: "view_live (caches sample_slabs ENTRY_CACHE) (sample_view ENTRY_CACHE) = {PHYS_MAP_BASE + 0x3000, PHYS_MAP_BASE + 0x3008}"
  by (simp add: view_live_def objs_def obj_at_def lessThan_Suc numeral_2_eq_2 del: One_nat_def) auto

text \<open>
  C4: \<^verbatim>\<open>slab_cache_alloc\<close> returns NULL only when the cache has no free object and there is no free page,
  and otherwise an object that was not live; that object becomes live and nothing else changes hands,
  in this cache or in another.
\<close>

theorem slab_alloc_fresh:
  assumes "slab_abs s T U" and "cache_ready s c"
  shows "\<exists>p s' T'. slab_cache_alloc c s = Some (p, s') \<and> slab_abs s' T' U \<and> same_shape (caches s) (caches s')
    \<and> (\<forall>d. d \<noteq> c \<longrightarrow> T' d = T d)
    \<and> (if p = NULL then T' = T \<and> parts (T c) = [] \<and> free_stack s = []
       else p \<notin> view_live (caches s c) (T c) \<and> view_live (caches s c) (T' c) = insert p (view_live (caches s c) (T c)))"
proof -
  obtain p s' A where "slab_cache_alloc c s = Some (p, s')" "slab_abs s' (T(c := A)) U" "same_shape (caches s) (caches s')"
    "if p = NULL then A = T c \<and> parts (T c) = [] \<and> free_stack s = []
     else p \<notin> view_live (caches s c) (T c) \<and> view_live (caches s c) A = insert p (view_live (caches s c) (T c))"
    using slab_alloc_ok [OF assms] by blast
  then show ?thesis
    by (intro exI [of _ p] exI [of _ s'] exI [of _ "T(c := A)"]) (auto split: if_splits)
qed

lemma slab_alloc_fresh_witness:
  "\<exists>p s' T'. slab_cache_alloc ENTRY_CACHE sample_slabs = Some (p, s') \<and> slab_abs s' T' {} \<and> p \<noteq> NULL"
  using slab_alloc_fresh [OF sample_slabs_abs, of ENTRY_CACHE] by (auto simp: sample_stack split: if_splits)

text \<open>
  C5: \<^verbatim>\<open>slab_cache_free\<close> of a live object comes back, makes exactly that object free again and keeps the
  invariant (the walk over the slab list finds the slab; a slab without live objects leaves the cache).
\<close>

theorem slab_free_exact:
  assumes "slab_abs s T U" and "cache_ready s c" and "x \<in> view_live (caches s c) (T c)"
  shows "\<exists>s' T'. slab_cache_free c x s = Some s' \<and> slab_abs s' T' U \<and> same_shape (caches s) (caches s')
    \<and> (\<forall>d. d \<noteq> c \<longrightarrow> T' d = T d) \<and> view_live (caches s c) (T' c) = view_live (caches s c) (T c) - {x}"
proof -
  obtain s' A where "slab_cache_free c x s = Some s'" "release_post c x s T U s' A"
    using slab_cache_free_ok [OF assms] by blast
  then show ?thesis by (intro exI [of _ s'] exI [of _ "T(c := A)"]) auto
qed

lemma slab_free_exact_witness:
  "\<exists>s' T'. slab_cache_free ENTRY_CACHE (PHYS_MAP_BASE + 0x3008) sample_slabs = Some s' \<and> slab_abs s' T' {}
     \<and> view_live (caches sample_slabs ENTRY_CACHE) (T' ENTRY_CACHE) = {PHYS_MAP_BASE + 0x3000}"
proof -
  have "PHYS_MAP_BASE + 0x3008 \<in> view_live (caches sample_slabs ENTRY_CACHE) (sample_view ENTRY_CACHE)"
    unfolding sample_live by simp
  moreover have "{PHYS_MAP_BASE + 0x3000, PHYS_MAP_BASE + 0x3008} - {PHYS_MAP_BASE + 0x3008} = {PHYS_MAP_BASE + 0x3000 :: ptr}"
    by auto
  ultimately show ?thesis
    using slab_free_exact [OF sample_slabs_abs, of ENTRY_CACHE "PHYS_MAP_BASE + 0x3008"] unfolding sample_live by auto
qed

text \<open>Where a live object lies: in the part of a page of its cache before the \<^verbatim>\<open>struct slab\<close>.\<close>

lemma live_place:
  assumes abs: "slab_abs s T U" and r: "cache_ready s c" and x: "x \<in> view_live (caches s c) (T c)"
  shows "\<exists>p i. p \<in> view_pages (T c) \<and> usable_page p \<and> unat x = 0xffff800000000000 + unat p + i * unat (obj_size (caches s c))
    \<and> Suc i * unat (obj_size (caches s c)) \<le> 4096"
proof -
  have ok: "cache_ok (slabs s) (bufs s) c (caches s c) (T c)" using abs by (simp add: caches_ok_def)
  obtain p where p: "p \<in> view_pages (T c)" "x \<in> objs (caches s c) p"
    using x by (force simp: view_live_def view_pages_def)
  have u: "usable_page p" "cache_sizes (caches s c)" using cache_ok_usable [OF ok p(1)] by auto
  obtain i where i: "i < obj_per_slab (caches s c)" "unat x = 0xffff800000000000 + unat p + i * unat (obj_size (caches s c))"
    using p(2) obj_at_props(1) [OF u(2) _ u(1)] by (auto simp: objs_def)
  have "Suc i * unat (obj_size (caches s c)) \<le> 4096"
    using mult_le_mono1 [of "Suc i" "obj_per_slab (caches s c)" "unat (obj_size (caches s c))"] i(1) u(2) by (simp add: cache_sizes_def)
  then show ?thesis using p(1) u(1) i(2) by blast
qed

lemma unat_phys_page: "usable_page p \<Longrightarrow> unat (PHYS_MAP_BASE + p) = 0xffff800000000000 + unat p"
  by (rule vpage(2))

text \<open>Live objects do not overlap, whether they are of the same cache or not, nor do they overlap with pages that are in no slab.\<close>

lemma slab_objects_apart:
  assumes abs: "slab_abs s T U"
    and x: "cache_ready s c" "x \<in> view_live (caches s c) (T c)"
    and y: "cache_ready s d" "y \<in> view_live (caches s d) (T d)" and ne: "x \<noteq> y \<or> c \<noteq> d"
  shows "unat x + unat (obj_size (caches s c)) \<le> unat y \<or> unat y + unat (obj_size (caches s d)) \<le> unat x"
proof -
  obtain p i where p: "p \<in> view_pages (T c)" "usable_page p"
    "unat x = 0xffff800000000000 + unat p + i * unat (obj_size (caches s c))" "Suc i * unat (obj_size (caches s c)) \<le> 4096"
    using live_place [OF abs x] by blast
  obtain q j where q: "q \<in> view_pages (T d)" "usable_page q"
    "unat y = 0xffff800000000000 + unat q + j * unat (obj_size (caches s d))" "Suc j * unat (obj_size (caches s d)) \<le> 4096"
    using live_place [OF abs y] by blast
  show ?thesis
  proof (cases "p = q")
    case True
    then have "c = d" using caches_ok_disjoint [of "slabs s" "bufs s" "caches s" T p c d] abs p(1) q(1) by simp
    moreover have "i \<noteq> j" using ne p(3) q(3) True \<open>c = d\<close> by (auto simp: word_unat_eq_iff)
    moreover have "k * n + n \<le> l * n" if "k < l" for k l n :: nat
      using mult_le_mono1 [of "Suc k" l n] that by simp
    moreover have "i < j \<or> j < i" using \<open>i \<noteq> j\<close> by auto
    ultimately have "i * unat (obj_size (caches s c)) + unat (obj_size (caches s c)) \<le> j * unat (obj_size (caches s c))
      \<or> j * unat (obj_size (caches s c)) + unat (obj_size (caches s c)) \<le> i * unat (obj_size (caches s c))" by blast
    then show ?thesis using p(3) q(3) True \<open>c = d\<close> by (elim disjE) simp_all
  next
    case False
    have "unat p + 4096 \<le> unat q \<or> unat q + 4096 \<le> unat p"
      using p(2) q(2) False by (intro pages_apart) (simp_all add: usable_page_def)
    then show ?thesis using p(3) q(3) p(4) [unfolded mult_Suc] q(4) [unfolded mult_Suc] by (elim disjE) linarith+
  qed
qed

lemma slab_object_off_page:
  assumes abs: "slab_abs s T U" and x: "cache_ready s c" "x \<in> view_live (caches s c) (T c)" and q: "q \<notin> all_pages T" "usable_page q"
  shows "unat x + unat (obj_size (caches s c)) \<le> unat (PHYS_MAP_BASE + q) \<or> unat (PHYS_MAP_BASE + q) + 4096 \<le> unat x"
proof -
  obtain p i where p: "p \<in> view_pages (T c)" "usable_page p"
    "unat x = 0xffff800000000000 + unat p + i * unat (obj_size (caches s c))" "Suc i * unat (obj_size (caches s c)) \<le> 4096"
    using live_place [OF abs x] by blast
  have "p \<noteq> q" using p(1) q(1) by (auto simp: all_pages_def)
  then have "unat p + 4096 \<le> unat q \<or> unat q + 4096 \<le> unat p"
    using p(2) q(2) by (intro pages_apart) (simp_all add: usable_page_def)
  then show ?thesis using p(3) p(4) [unfolded mult_Suc] unat_phys_page [OF q(2)] by (elim disjE) linarith+
qed

end
