(* ===== verification/Hashtable.thy ===== *)
theory Hashtable
  imports Slab
begin

text \<open>
  \<^verbatim>\<open>lib/hashtable.c\<close>: chained hash tables over intrusive items.  A table is a page of chain heads
  (\<open>buckets\<close>, by the address of the page and the index) and the \<^verbatim>\<open>next\<close> pointers of the items
  (\<open>hnext\<close>).  The key function of a table reads the item in memory, so it is an argument of the
  operations; keys are \<^verbatim>\<open>int\<close>s (32-bit words) or strings (lists of bytes).  A table is shown to
  behave as a map from keys to stacks of items, the most recently added first.
\<close>

section \<open>Data and operations\<close>

record 'k hashtable =
  ht_table :: ptr
  ht_size :: nat
  ht_items :: nat
  ht_hash :: "'k \<Rightarrow> u32"
  ht_compare :: "'k \<Rightarrow> 'k \<Rightarrow> bool"

record hash_state = slab_state +
  buckets :: "ptr \<Rightarrow> nat \<Rightarrow> ptr"
  hnext :: "ptr \<Rightarrow> ptr"

text \<open>The bytes of an \<^verbatim>\<open>int\<close> in memory; \<^verbatim>\<open>char\<close> is signed, so each is sign-extended.\<close>

fun hash_bytes :: "u8 list \<Rightarrow> u32 \<Rightarrow> u32" where
  "hash_bytes [] hash = hash"
| "hash_bytes (n # ns) hash =
     (let hash = hash + scast n;
          hash = hash + push_bit 10 hash;
          hash = hash XOR drop_bit 6 hash
      in hash_bytes ns hash)"

definition int_bytes :: "u32 \<Rightarrow> u8 list" where
  "int_bytes k = map (\<lambda>i. ucast (drop_bit (8 * i) k)) [0 ..< 4]"

definition hashtable_hash_int :: "u32 \<Rightarrow> u32" where
  "hashtable_hash_int k =
     (let hash = hash_bytes (int_bytes k) 0;
          hash = hash + push_bit 3 hash;
          hash = hash XOR drop_bit 11 hash
      in hash + push_bit 15 hash)"

definition hashtable_hash_string :: "u8 list \<Rightarrow> u32" where
  "hashtable_hash_string k =
     (let hash = foldl (\<lambda>hash c. (hash XOR scast c) * 16777619) 2166136261 k;
          hash = hash + push_bit 13 hash;
          hash = hash XOR drop_bit 7 hash;
          hash = hash + push_bit 3 hash;
          hash = hash XOR drop_bit 17 hash
      in hash + push_bit 5 hash)"

definition hashtable_compare_int :: "u32 \<Rightarrow> u32 \<Rightarrow> bool" where
  "hashtable_compare_int k1 k2 \<longleftrightarrow> k1 = k2"

definition hashtable_compare_string :: "u8 list \<Rightarrow> u8 list \<Rightarrow> bool" where
  "hashtable_compare_string k1 k2 \<longleftrightarrow> k1 = k2"

text \<open>The index of a key; a table whose page could not be allocated has size 0 and the division faults.\<close>

definition hash_idx :: "'k hashtable \<Rightarrow> 'k \<Rightarrow> nat option" where
  "hash_idx t k = (if ht_size t = 0 then None else Some (unat (ht_hash t k) mod ht_size t))"

definition hashtable_add ::
  "(ptr \<Rightarrow> 'k) \<Rightarrow> 'k hashtable \<Rightarrow> ptr \<Rightarrow> 'a hash_state_scheme \<Rightarrow> ('k hashtable \<times> 'a hash_state_scheme) option" where
  "hashtable_add key t item s = do {
     idx \<leftarrow> hash_idx t (key item);
     let s = s\<lparr>hnext := (hnext s)(item := buckets s (ht_table t) idx)\<rparr>;
     let s = s\<lparr>buckets := (buckets s)(ht_table t := (buckets s (ht_table t))(idx := item))\<rparr>;
     Some (t\<lparr>ht_items := ht_items t + 1\<rparr>, s)
   }"

partial_function (option) get_loop ::
  "(ptr \<Rightarrow> 'k) \<Rightarrow> ('k \<Rightarrow> 'k \<Rightarrow> bool) \<Rightarrow> 'k \<Rightarrow> (ptr \<Rightarrow> ptr) \<Rightarrow> ptr \<Rightarrow> ptr option" where
  "get_loop key cmp k nx item =
     (if item = NULL then Some NULL
      else if cmp k (key item) then Some item
      else get_loop key cmp k nx (nx item))"

definition hashtable_get :: "(ptr \<Rightarrow> 'k) \<Rightarrow> 'k hashtable \<Rightarrow> 'k \<Rightarrow> 'a hash_state_scheme \<Rightarrow> ptr option" where
  "hashtable_get key t k s = do {
     idx \<leftarrow> hash_idx t k;
     get_loop key (ht_compare t) k (hnext s) (buckets s (ht_table t) idx)
   }"

text \<open>The loop of \<^verbatim>\<open>hashtable_remove\<close> finds the item and its predecessor.\<close>

partial_function (option) remove_loop ::
  "(ptr \<Rightarrow> 'k) \<Rightarrow> ('k \<Rightarrow> 'k \<Rightarrow> bool) \<Rightarrow> 'k \<Rightarrow> (ptr \<Rightarrow> ptr) \<Rightarrow> ptr \<Rightarrow> ptr \<Rightarrow> (ptr \<times> ptr) option" where
  "remove_loop key cmp k nx prev item =
     (if item = NULL then Some (prev, NULL)
      else if cmp k (key item) then Some (prev, item)
      else remove_loop key cmp k nx item (nx item))"

definition hashtable_remove ::
  "(ptr \<Rightarrow> 'k) \<Rightarrow> 'k hashtable \<Rightarrow> 'k \<Rightarrow> 'a hash_state_scheme \<Rightarrow> (ptr \<times> 'k hashtable \<times> 'a hash_state_scheme) option" where
  "hashtable_remove key t k s = do {
     idx \<leftarrow> hash_idx t k;
     (prev, item) \<leftarrow> remove_loop key (ht_compare t) k (hnext s) NULL (buckets s (ht_table t) idx);
     if item = NULL then Some (NULL, t, s)
     else if prev \<noteq> NULL then Some (item, t, s\<lparr>hnext := (hnext s)(prev := hnext s item)\<rparr>)
     else Some (item, t,
            s\<lparr>buckets := (buckets s)(ht_table t := (buckets s (ht_table t))(idx := hnext s item))\<rparr>)
   }"

text \<open>The iterator may change the state; the \<^verbatim>\<open>next\<close> pointer is read after it has run.\<close>

partial_function (option) iterate_chain ::
  "(ptr \<Rightarrow> 'a hash_state_scheme \<Rightarrow> 'a hash_state_scheme option) \<Rightarrow> ptr \<Rightarrow> 'a hash_state_scheme
     \<Rightarrow> 'a hash_state_scheme option" where
  "iterate_chain it item s =
     (if item = NULL then Some s
      else do {
        s \<leftarrow> it item s;
        iterate_chain it (hnext s item) s
      })"

fun iterate_buckets ::
  "(ptr \<Rightarrow> 'a hash_state_scheme \<Rightarrow> 'a hash_state_scheme option) \<Rightarrow> ptr \<Rightarrow> nat list \<Rightarrow> 'a hash_state_scheme
     \<Rightarrow> 'a hash_state_scheme option" where
  "iterate_buckets it tab [] s = Some s"
| "iterate_buckets it tab (i # is) s = do {
     s \<leftarrow> iterate_chain it (buckets s tab i) s;
     iterate_buckets it tab is s
   }"

definition hashtable_iterate ::
  "'k hashtable \<Rightarrow> (ptr \<Rightarrow> 'a hash_state_scheme \<Rightarrow> 'a hash_state_scheme option) \<Rightarrow> 'a hash_state_scheme
     \<Rightarrow> 'a hash_state_scheme option" where
  "hashtable_iterate t it s = iterate_buckets it (ht_table t) [0 ..< ht_size t] s"

definition hashtable_size :: "'k hashtable \<Rightarrow> nat" where
  "hashtable_size t = ht_items t"

text \<open>\<^verbatim>\<open>hashtable_init\<close> leaves the table as it was when there is no page; the page is not cleared.\<close>

definition hashtable_init ::
  "'k hashtable \<Rightarrow> ('k \<Rightarrow> u32) \<Rightarrow> ('k \<Rightarrow> 'k \<Rightarrow> bool) \<Rightarrow> 'a hash_state_scheme \<Rightarrow> ('k hashtable \<times> 'a hash_state_scheme) option" where
  "hashtable_init t hash cmp s = do {
     (p, s) \<leftarrow> pmm_alloc s;
     if p = 0 then Some (t, s)
     else do {
       v \<leftarrow> vmm_provide_phys p;
       Some (\<lparr>ht_table = v, ht_size = unat (PAGE_SIZE div 8), ht_items = 0, ht_hash = hash, ht_compare = cmp\<rparr>, s)
     }
   }"

section \<open>The chains of a table\<close>

definition chain_of :: "'k hashtable \<Rightarrow> (ptr \<Rightarrow> nat \<Rightarrow> ptr) \<Rightarrow> (ptr \<Rightarrow> ptr) \<Rightarrow> nat \<Rightarrow> ptr list" where
  "chain_of t bk nx i = nodes nx (bk (ht_table t) i)"

text \<open>
  A table is well formed: it has buckets, its comparison is equality, every chain ends and holds only
  items that hash to it, so no item is in two chains.
\<close>

definition table_ok :: "(ptr \<Rightarrow> 'k) \<Rightarrow> 'k hashtable \<Rightarrow> (ptr \<Rightarrow> nat \<Rightarrow> ptr) \<Rightarrow> (ptr \<Rightarrow> ptr) \<Rightarrow> bool" where
  "table_ok key t bk nx \<longleftrightarrow> 0 < ht_size t \<and> ht_compare t = (=)
     \<and> (\<forall>i < ht_size t. linked nx (bk (ht_table t) i) (chain_of t bk nx i)
          \<and> (\<forall>x \<in> set (chain_of t bk nx i). unat (ht_hash t (key x)) mod ht_size t = i))"

definition table_items :: "'k hashtable \<Rightarrow> (ptr \<Rightarrow> nat \<Rightarrow> ptr) \<Rightarrow> (ptr \<Rightarrow> ptr) \<Rightarrow> ptr set" where
  "table_items t bk nx = (\<Union>i < ht_size t. set (chain_of t bk nx i))"

text \<open>The items of a key, the one a lookup returns first.\<close>

definition table_view :: "(ptr \<Rightarrow> 'k) \<Rightarrow> 'k hashtable \<Rightarrow> (ptr \<Rightarrow> nat \<Rightarrow> ptr) \<Rightarrow> (ptr \<Rightarrow> ptr) \<Rightarrow> 'k \<Rightarrow> ptr list" where
  "table_view key t bk nx k =
     filter (\<lambda>x. key x = k) (chain_of t bk nx (unat (ht_hash t k) mod ht_size t))"

lemma chain_eq: "linked nx (bk (ht_table t) i) xs \<Longrightarrow> chain_of t bk nx i = xs"
  by (simp add: chain_of_def nodes_eq)

lemma table_view_items: "table_ok key t bk nx \<Longrightarrow> x \<in> table_items t bk nx \<longleftrightarrow> x \<in> set (table_view key t bk nx (key x))"
  by (auto simp: table_ok_def table_items_def table_view_def intro: mod_less_divisor)

lemma get_loop_linked:
  "linked nx item xs \<Longrightarrow> get_loop key (=) k nx item = Some (case filter (\<lambda>x. key x = k) xs of [] \<Rightarrow> NULL | x # _ \<Rightarrow> x)"
proof (induction xs arbitrary: item)
  case Nil
  then show ?case by (subst get_loop.simps) simp
next
  case (Cons x xs)
  then show ?case by (subst get_loop.simps) auto
qed

lemma remove_loop_none:
  assumes "linked nx item xs" and "\<forall>x \<in> set xs. key x \<noteq> k"
  shows "\<exists>q. remove_loop key (=) k nx prev item = Some (q, NULL)"
  using assms
proof (induction xs arbitrary: item prev)
  case Nil
  then show ?case by (subst remove_loop.simps) simp
next
  case (Cons x xs)
  then show ?case by (subst remove_loop.simps) auto
qed

lemma remove_loop_some:
  assumes "linked nx item (as @ y # bs)" and "\<forall>x \<in> set as. key x \<noteq> k" and "key y = k"
  shows "remove_loop key (=) k nx prev item = Some (if as = [] then prev else last as, y)"
  using assms
proof (induction as arbitrary: item prev)
  case Nil
  then show ?case by (subst remove_loop.simps) auto
next
  case (Cons x as)
  then show ?case by (subst remove_loop.simps) auto
qed

text \<open>The first item of a key in a chain.\<close>

lemma first_item:
  assumes "filter (\<lambda>x. key x = k) xs = y # ys"
  obtains as bs where "xs = as @ y # bs" "\<forall>x \<in> set as. key x \<noteq> k" "key y = k" "ys = filter (\<lambda>x. key x = k) bs"
  using assms by (auto simp: filter_eq_Cons_iff)

section \<open>The operations on a well-formed table\<close>

lemma hash_idx_ok: "table_ok key t bk nx \<Longrightarrow> hash_idx t k = Some (unat (ht_hash t k) mod ht_size t)"
  by (simp add: hash_idx_def table_ok_def)

lemma table_ok_chain:
  assumes "table_ok key t bk nx" and "i < ht_size t"
  shows "linked nx (bk (ht_table t) i) (chain_of t bk nx i)"
    and "x \<in> set (chain_of t bk nx i) \<Longrightarrow> unat (ht_hash t (key x)) mod ht_size t = i"
  using assms by (auto simp: table_ok_def)

text \<open>
  One chain replaced: the table is well formed again when the new chain is linked and holds only
  items that belong there, and the other chains were not touched.
\<close>

lemma table_one_chain:
  assumes ok: "table_ok key t bk nx" and i: "i < ht_size t"
    and size: "ht_table t' = ht_table t" "ht_size t' = ht_size t" "ht_hash t' = ht_hash t" "ht_compare t' = ht_compare t"
    and new: "linked nx' (bk' (ht_table t) i) xs" "\<forall>x \<in> set xs. unat (ht_hash t (key x)) mod ht_size t = i"
    and others: "\<And>j. j < ht_size t \<Longrightarrow> j \<noteq> i \<Longrightarrow> bk' (ht_table t) j = bk (ht_table t) j
        \<and> (\<forall>x \<in> set (chain_of t bk nx j). nx' x = nx x)"
  shows "table_ok key t' bk' nx' \<and> chain_of t' bk' nx' i = xs \<and> (\<forall>j < ht_size t. j \<noteq> i \<longrightarrow> chain_of t' bk' nx' j = chain_of t bk nx j)"
proof -
  have ci: "chain_of t' bk' nx' i = xs" using new(1) size(1) by (simp add: chain_of_def nodes_eq)
  have lj: "linked nx' (bk' (ht_table t) j) (chain_of t bk nx j)" if "j < ht_size t" "j \<noteq> i" for j
    using others [OF that] table_ok_chain(1) [OF ok that(1)] linked_cong [of "chain_of t bk nx j" nx' nx] by simp
  then have cj: "chain_of t' bk' nx' j = chain_of t bk nx j" if "j < ht_size t" "j \<noteq> i" for j
    using that size(1) by (simp add: chain_of_def nodes_eq)
  have "linked nx' (bk' (ht_table t') j) (chain_of t' bk' nx' j)
      \<and> (\<forall>x \<in> set (chain_of t' bk' nx' j). unat (ht_hash t' (key x)) mod ht_size t' = j)" if j: "j < ht_size t" for j
  proof (cases "j = i")
    case True
    then show ?thesis using ci new size by simp
  next
    case False
    then show ?thesis using cj [OF j False] lj [OF j False] table_ok_chain(2) [OF ok j] size by simp
  qed
  then have "table_ok key t' bk' nx'" using ok size by (simp add: table_ok_def)
  then show ?thesis using ci cj by simp
qed

lemma chain_disjoint:
  assumes "table_ok key t bk nx" and "i < ht_size t" "j < ht_size t" "i \<noteq> j"
  shows "set (chain_of t bk nx i) \<inter> set (chain_of t bk nx j) = {}"
  using table_ok_chain(2) [OF assms(1)] assms(2-4) by blast

lemma hashtable_add_ok:
  assumes ok: "table_ok key t (buckets s) (hnext s)" and x: "x \<noteq> NULL" "x \<notin> table_items t (buckets s) (hnext s)"
  shows "\<exists>bk. hashtable_add key t x s = Some (t\<lparr>ht_items := ht_items t + 1\<rparr>,
        s\<lparr>hnext := (hnext s)(x := buckets s (ht_table t) (unat (ht_hash t (key x)) mod ht_size t)), buckets := bk\<rparr>)
    \<and> (\<forall>tab. tab \<noteq> ht_table t \<longrightarrow> bk tab = buckets s tab)
    \<and> (let nx = (hnext s)(x := buckets s (ht_table t) (unat (ht_hash t (key x)) mod ht_size t)) in
        table_ok key (t\<lparr>ht_items := ht_items t + 1\<rparr>) bk nx
      \<and> table_view key (t\<lparr>ht_items := ht_items t + 1\<rparr>) bk nx
          = (table_view key t (buckets s) (hnext s))(key x := x # table_view key t (buckets s) (hnext s) (key x))
      \<and> table_items (t\<lparr>ht_items := ht_items t + 1\<rparr>) bk nx = insert x (table_items t (buckets s) (hnext s)))"
proof -
  let ?i = "unat (ht_hash t (key x)) mod ht_size t" and ?t = "t\<lparr>ht_items := ht_items t + 1\<rparr>"
  have i: "?i < ht_size t" using ok by (simp add: table_ok_def)
  let ?nx = "(hnext s)(x := buckets s (ht_table t) ?i)"
  let ?bk = "(buckets s)(ht_table t := (buckets s (ht_table t))(?i := x))"
  let ?c = "chain_of t (buckets s) (hnext s)"
  have nin: "x \<notin> set (?c j)" if "j < ht_size t" for j using x(2) that by (auto simp: table_items_def)
  have "table_ok key ?t ?bk ?nx \<and> chain_of ?t ?bk ?nx ?i = x # ?c ?i
      \<and> (\<forall>j < ht_size t. j \<noteq> ?i \<longrightarrow> chain_of ?t ?bk ?nx j = ?c j)"
  proof (rule table_one_chain [OF ok i])
    show "linked ?nx (?bk (ht_table t) ?i) (x # ?c ?i)"
      using table_ok_chain(1) [OF ok i] nin [OF i] x(1) by simp
    show "\<forall>y \<in> set (x # ?c ?i). unat (ht_hash t (key y)) mod ht_size t = ?i"
      using table_ok_chain(2) [OF ok i] by simp
    show "?bk (ht_table t) j = buckets s (ht_table t) j \<and> (\<forall>y \<in> set (?c j). ?nx y = hnext s y)"
      if "j < ht_size t" "j \<noteq> ?i" for j
      using nin [OF that(1)] that(2) by auto
  qed simp_all
  then have t: "table_ok key ?t ?bk ?nx" "chain_of ?t ?bk ?nx ?i = x # ?c ?i"
    "\<And>j. j < ht_size t \<Longrightarrow> j \<noteq> ?i \<Longrightarrow> chain_of ?t ?bk ?nx j = ?c j" by blast+
  have run: "hashtable_add key t x s = Some (?t, s\<lparr>hnext := ?nx, buckets := ?bk\<rparr>)"
    using hash_idx_ok [OF ok] by (simp add: hashtable_add_def)
  have view: "table_view key ?t ?bk ?nx k = ((table_view key t (buckets s) (hnext s))
      (key x := x # table_view key t (buckets s) (hnext s) (key x))) k" for k
  proof (cases "unat (ht_hash t k) mod ht_size t = ?i")
    case True
    then show ?thesis using t(2) by (auto simp: table_view_def)
  next
    case False
    have "unat (ht_hash t k) mod ht_size t < ht_size t" using ok by (simp add: table_ok_def)
    then show ?thesis using t(3) [OF _ False] False by (auto simp: table_view_def)
  qed
  have items: "table_items ?t ?bk ?nx = insert x (table_items t (buckets s) (hnext s))"
  proof -
    have "set (chain_of ?t ?bk ?nx j) = (if j = ?i then insert x (set (?c j)) else set (?c j))" if "j < ht_size t" for j
      using t(2) t(3) [OF that] by auto
    then have "table_items ?t ?bk ?nx = (\<Union>j < ht_size t. if j = ?i then insert x (set (?c j)) else set (?c j))"
      by (auto simp: table_items_def)
    also have "\<dots> = insert x (\<Union>j < ht_size t. set (?c j))" using i by auto
    finally show ?thesis by (simp add: table_items_def)
  qed
  show ?thesis unfolding Let_def
    using run t(1) view items by (intro exI [of _ ?bk]) auto
qed

text \<open>A table only depends on the keys of its items.\<close>

lemma table_key_cong:
  assumes "table_ok key t bk nx" and "\<And>x. x \<in> table_items t bk nx \<Longrightarrow> key' x = key x"
  shows "table_ok key' t bk nx" and "table_view key' t bk nx = table_view key t bk nx"
proof -
  have k: "key' x = key x" if "i < ht_size t" "x \<in> set (chain_of t bk nx i)" for x i
    using that assms(2) by (auto simp: table_items_def)
  show "table_ok key' t bk nx" using assms(1) k by (auto simp: table_ok_def)
  have "filter (\<lambda>x. key' x = j) (chain_of t bk nx (unat (ht_hash t j) mod ht_size t))
      = filter (\<lambda>x. key x = j) (chain_of t bk nx (unat (ht_hash t j) mod ht_size t))" for j
    using assms(1) k by (intro filter_cong refl) (metis mod_less_divisor table_ok_def)
  then show "table_view key' t bk nx = table_view key t bk nx" by (simp add: table_view_def fun_eq_iff)
qed

lemma hashtable_get_ok:
  assumes "table_ok key t (buckets s) (hnext s)"
  shows "hashtable_get key t k s = Some (case table_view key t (buckets s) (hnext s) k of [] \<Rightarrow> NULL | x # _ \<Rightarrow> x)"
proof -
  have "unat (ht_hash t k) mod ht_size t < ht_size t" using assms by (simp add: table_ok_def)
  moreover have "ht_compare t = (=)" using assms by (simp add: table_ok_def)
  ultimately show ?thesis
    using table_ok_chain(1) [OF assms] by (simp add: hashtable_get_def hash_idx_ok [OF assms] get_loop_linked table_view_def)
qed

lemma hashtable_remove_none:
  assumes ok: "table_ok key t (buckets s) (hnext s)" and no: "table_view key t (buckets s) (hnext s) k = []"
  shows "hashtable_remove key t k s = Some (NULL, t, s)"
proof -
  let ?i = "unat (ht_hash t k) mod ht_size t"
  have i: "?i < ht_size t" and cmp: "ht_compare t = (=)" using ok by (auto simp: table_ok_def)
  have "\<forall>x \<in> set (chain_of t (buckets s) (hnext s) ?i). key x \<noteq> k"
    using no by (simp add: table_view_def filter_empty_conv)
  from remove_loop_none [OF table_ok_chain(1) [OF ok i] this, of NULL]
  obtain q where "remove_loop key (=) k (hnext s) NULL (buckets s (ht_table t) ?i) = Some (q, NULL)" by (elim exE)
  then show ?thesis by (simp add: hashtable_remove_def hash_idx_ok [OF ok] cmp)
qed

lemma hashtable_remove_some:
  assumes ok: "table_ok key t (buckets s) (hnext s)" and some: "table_view key t (buckets s) (hnext s) k = x # rest"
  shows "\<exists>bk nx. hashtable_remove key t k s = Some (x, t, s\<lparr>buckets := bk, hnext := nx\<rparr>) \<and> key x = k \<and> x \<noteq> NULL
    \<and> (\<forall>tab. tab \<noteq> ht_table t \<longrightarrow> bk tab = buckets s tab)
    \<and> (\<forall>y. y \<notin> table_items t (buckets s) (hnext s) \<longrightarrow> nx y = hnext s y)
    \<and> table_ok key t bk nx \<and> table_view key t bk nx = (table_view key t (buckets s) (hnext s))(k := rest)
    \<and> table_items t bk nx = table_items t (buckets s) (hnext s) - {x}"
proof -
  let ?i = "unat (ht_hash t k) mod ht_size t" and ?c = "chain_of t (buckets s) (hnext s)"
  have i: "?i < ht_size t" and cmp: "ht_compare t = (=)" using ok by (auto simp: table_ok_def)
  obtain as bs where c: "?c ?i = as @ x # bs" and a: "\<forall>y \<in> set as. key y \<noteq> k" "key x = k" and rest: "rest = filter (\<lambda>x. key x = k) bs"
    using first_item [of key k "?c ?i" x rest] some by (auto simp: table_view_def)
  have lk: "linked (hnext s) (buckets s (ht_table t) ?i) (as @ x # bs)" using table_ok_chain(1) [OF ok i] c by simp
  have di: "distinct (as @ x # bs)" by (rule linked_distinct [OF lk])
  have x0: "x \<noteq> NULL" using linked_not_NULL [OF lk] by simp
  have loop: "remove_loop key (=) k (hnext s) NULL (buckets s (ht_table t) ?i) = Some (if as = [] then NULL else last as, x)"
    by (rule remove_loop_some [OF lk a])
  define nx where "nx = (if as = [] then hnext s else (hnext s)(last as := hnext s x))"
  define bk where "bk = (if as = [] then (buckets s)(ht_table t := (buckets s (ht_table t))(?i := hnext s x)) else buckets s)"
  have q: "as \<noteq> [] \<Longrightarrow> last as \<noteq> NULL" using linked_not_NULL [OF lk] by simp
  have run: "hashtable_remove key t k s = Some (x, t, s\<lparr>buckets := bk, hnext := nx\<rparr>)"
    using loop x0 q by (simp add: hashtable_remove_def hash_idx_ok [OF ok] cmp nx_def bk_def)
  have new: "linked nx (bk (ht_table t) ?i) (as @ bs)"
  proof (cases as rule: rev_cases)
    case Nil
    then show ?thesis using lk by (simp add: nx_def bk_def)
  next
    case (snoc zs z)
    then show ?thesis using linked_unlink [of "hnext s" _ zs z x bs] lk by (simp add: nx_def bk_def)
  qed
  have t: "table_ok key t bk nx \<and> chain_of t bk nx ?i = as @ bs \<and> (\<forall>j < ht_size t. j \<noteq> ?i \<longrightarrow> chain_of t bk nx j = ?c j)"
  proof (rule table_one_chain [where t' = t and bk' = bk and nx' = nx and xs = "as @ bs", OF ok i refl refl refl refl new])
    show "\<forall>y \<in> set (as @ bs). unat (ht_hash t (key y)) mod ht_size t = ?i"
      using table_ok_chain(2) [OF ok i] c by auto
    fix j assume j: "j < ht_size t" "j \<noteq> ?i"
    have "last as \<notin> set (?c j)" if "as \<noteq> []"
      using chain_disjoint [OF ok i j(1)] j(2) c last_in_set [OF that] by auto
    then show "bk (ht_table t) j = buckets s (ht_table t) j \<and> (\<forall>y \<in> set (?c j). nx y = hnext s y)"
      using j(2) by (auto simp: bk_def nx_def)
  qed
  have view: "table_view key t bk nx l = ((table_view key t (buckets s) (hnext s))(k := rest)) l" for l
  proof (cases "unat (ht_hash t l) mod ht_size t = ?i")
    case True
    have "filter (\<lambda>x. key x = k) as = []" using a by (simp add: filter_empty_conv)
    then show ?thesis using t True c a rest by (auto simp: table_view_def)
  next
    case False
    have "unat (ht_hash t l) mod ht_size t < ht_size t" using ok by (simp add: table_ok_def)
    then show ?thesis using t False by (auto simp: table_view_def)
  qed
  have items: "table_items t bk nx = table_items t (buckets s) (hnext s) - {x}"
  proof -
    have "set (chain_of t bk nx j) = set (?c j) - {x}" if "j < ht_size t" for j
    proof (cases "j = ?i")
      case True
      then show ?thesis using t c di by auto
    next
      case False
      then have "x \<notin> set (?c j)" using chain_disjoint [OF ok i that] c by auto
      then show ?thesis using t that False by auto
    qed
    then show ?thesis by (auto simp: table_items_def)
  qed
  have "last as \<in> table_items t (buckets s) (hnext s)" if "as \<noteq> []"
    using c i last_in_set [OF that] unfolding table_items_def by (intro UN_I [of ?i]) auto
  then have "y \<notin> table_items t (buckets s) (hnext s) \<longrightarrow> nx y = hnext s y" for y
    by (auto simp: nx_def)
  then show ?thesis using run t view items a x0 by (intro exI [of _ bk] exI [of _ nx]) (auto simp: bk_def)
qed

section \<open>The contract of a dictionary\<close>

text \<open>
  What the kernel relies on when it keeps objects in a table: a stack of items per key, of which
  a lookup sees the top.  The clients of the kernel only ever hold one item per key.
\<close>

locale dictionary =
  fixes dadd :: "ptr \<Rightarrow> 's \<Rightarrow> 's option"
    and dget :: "'k \<Rightarrow> 's \<Rightarrow> ptr option"
    and dremove :: "'k \<Rightarrow> 's \<Rightarrow> (ptr \<times> 's) option"
    and dkey :: "ptr \<Rightarrow> 'k"
    and dinv :: "'s \<Rightarrow> bool"
    and view :: "'s \<Rightarrow> 'k \<Rightarrow> ptr list"
    and ditems :: "'s \<Rightarrow> ptr set"
  assumes add_law: "dinv s \<Longrightarrow> x \<noteq> NULL \<Longrightarrow> x \<notin> ditems s \<Longrightarrow>
      \<exists>s'. dadd x s = Some s' \<and> dinv s' \<and> view s' = (view s)(dkey x := x # view s (dkey x)) \<and> ditems s' = insert x (ditems s)"
    and get_law: "dinv s \<Longrightarrow> dget k s = Some (case view s k of [] \<Rightarrow> NULL | x # _ \<Rightarrow> x)"
    and remove_law: "dinv s \<Longrightarrow> \<exists>s'. dremove k s = Some (case view s k of [] \<Rightarrow> NULL | x # _ \<Rightarrow> x, s') \<and> dinv s'
      \<and> view s' = (view s)(k := tl (view s k)) \<and> ditems s' = ditems s - set (take 1 (view s k))"
    and view_items: "dinv s \<Longrightarrow> x \<in> ditems s \<longleftrightarrow> x \<in> set (view s (dkey x))"
    and view_key: "dinv s \<Longrightarrow> x \<in> set (view s k) \<Longrightarrow> dkey x = k \<and> x \<noteq> NULL"

context dictionary begin

lemma get_added:
  assumes "dinv s" and "x \<noteq> NULL" and "x \<notin> ditems s" and "dadd x s = Some s'"
  shows "dget (dkey x) s' = Some x" and "k \<noteq> dkey x \<Longrightarrow> dget k s' = dget k s"
  using add_law [OF assms(1-3)] assms(1,4) by (auto simp: get_law)

lemma add_remove:
  assumes "dinv s" and "x \<noteq> NULL" and "x \<notin> ditems s"
  shows "\<exists>s' s''. dadd x s = Some s' \<and> dremove (dkey x) s' = Some (x, s'') \<and> dinv s'' \<and> view s'' = view s \<and> ditems s'' = ditems s"
proof -
  obtain s' where s': "dadd x s = Some s'" "dinv s'" "view s' = (view s)(dkey x := x # view s (dkey x))" "ditems s' = insert x (ditems s)"
    using add_law [OF assms] by blast
  obtain s'' where s'': "dremove (dkey x) s' = Some (x, s'')" "dinv s''" "view s'' = (view s')(dkey x := view s (dkey x))"
      "ditems s'' = ditems s' - {x}"
    using remove_law [OF s'(2), of "dkey x"] s'(3) by auto
  have "view s'' = view s" by (simp add: s''(3) s'(3))
  then show ?thesis using s' s'' assms(3) by auto
qed

text \<open>With one item per key, a removed key is gone.\<close>

lemma get_removed:
  assumes "dinv s" and "length (view s k) \<le> 1" and "dremove k s = Some (x, s')"
  shows "dget k s' = Some NULL" and "l \<noteq> k \<Longrightarrow> dget l s' = dget l s"
proof -
  obtain s'' where "dremove k s = Some (case view s k of [] \<Rightarrow> NULL | x # _ \<Rightarrow> x, s'')" "dinv s''"
    "view s'' = (view s)(k := tl (view s k))" using remove_law [OF assms(1)] by blast
  with assms(3) have s': "dinv s'" "view s' = (view s)(k := tl (view s k))" by auto
  have "tl (view s k) = []" using assms(2) by (cases "view s k") auto
  then show "dget k s' = Some NULL" and "l \<noteq> k \<Longrightarrow> dget l s' = dget l s"
    using s' assms(1) by (simp_all add: get_law)
qed

end

text \<open>Every table of the kernel is a dictionary; the state is the table and the memory it is in.\<close>

abbreviation (input) ht_inv :: "(ptr \<Rightarrow> 'k) \<Rightarrow> 'k hashtable \<times> 'a hash_state_scheme \<Rightarrow> bool" where
  "ht_inv key \<equiv> \<lambda>(t, s). table_ok key t (buckets s) (hnext s)"

interpretation ht: dictionary "\<lambda>x (t, s). hashtable_add key t x s" "\<lambda>k (t, s). hashtable_get key t k s"
    "\<lambda>k (t, s). map_option (\<lambda>(x, t, s). (x, t, s)) (hashtable_remove key t k s)" key "ht_inv key"
    "\<lambda>(t, s). table_view key t (buckets s) (hnext s)" "\<lambda>(t, s). table_items t (buckets s) (hnext s)"
  for key :: "ptr \<Rightarrow> 'k"
proof unfold_locales
  fix s :: "'k hashtable \<times> 'a hash_state_scheme" and x
  obtain t m where s: "s = (t, m)" by (cases s)
  assume inv: "ht_inv key s"
  have ok: "table_ok key t (buckets m) (hnext m)" using inv by (simp add: s)
  show "\<exists>s'. (\<lambda>(t, s). hashtable_add key t x s) s = Some s' \<and> ht_inv key s'
      \<and> (\<lambda>(t, s). table_view key t (buckets s) (hnext s)) s'
        = ((\<lambda>(t, s). table_view key t (buckets s) (hnext s)) s)(key x := x # (\<lambda>(t, s). table_view key t (buckets s) (hnext s)) s (key x))
      \<and> (\<lambda>(t, s). table_items t (buckets s) (hnext s)) s' = insert x ((\<lambda>(t, s). table_items t (buckets s) (hnext s)) s)"
    if "x \<noteq> NULL" "x \<notin> (\<lambda>(t, s). table_items t (buckets s) (hnext s)) s"
    using hashtable_add_ok [OF ok that(1)] that(2) by (auto simp: s Let_def)
  show "(\<lambda>(t, s). hashtable_get key t k s) s = Some (case (\<lambda>(t, s). table_view key t (buckets s) (hnext s)) s k of
      [] \<Rightarrow> NULL | x # _ \<Rightarrow> x)" for k
    using hashtable_get_ok [OF ok] by (simp add: s)
  show "\<exists>s'. (\<lambda>(t, s). map_option (\<lambda>(x, t, s). (x, t, s)) (hashtable_remove key t k s)) s
      = Some (case (\<lambda>(t, s). table_view key t (buckets s) (hnext s)) s k of [] \<Rightarrow> NULL | x # _ \<Rightarrow> x, s') \<and> ht_inv key s'
      \<and> (\<lambda>(t, s). table_view key t (buckets s) (hnext s)) s'
        = ((\<lambda>(t, s). table_view key t (buckets s) (hnext s)) s)(k := tl ((\<lambda>(t, s). table_view key t (buckets s) (hnext s)) s k))
      \<and> (\<lambda>(t, s). table_items t (buckets s) (hnext s)) s' = (\<lambda>(t, s). table_items t (buckets s) (hnext s)) s
          - set (take 1 ((\<lambda>(t, s). table_view key t (buckets s) (hnext s)) s k))" for k
  proof (cases "table_view key t (buckets m) (hnext m) k")
    case Nil
    then show ?thesis using hashtable_remove_none [OF ok] ok by (auto simp: s fun_upd_idem)
  next
    case (Cons x rest)
    then show ?thesis using hashtable_remove_some [OF ok Cons] by (auto simp: s)
  qed
  show "x \<in> (\<lambda>(t, s). table_items t (buckets s) (hnext s)) s \<longleftrightarrow>
      x \<in> set ((\<lambda>(t, s). table_view key t (buckets s) (hnext s)) s (key x))"
    using table_view_items [OF ok] by (simp add: s)
  show "key x = k \<and> x \<noteq> NULL" if "x \<in> set ((\<lambda>(t, s). table_view key t (buckets s) (hnext s)) s k)" for k
  proof -
    have "unat (ht_hash t k) mod ht_size t < ht_size t" using ok by (simp add: table_ok_def)
    then show ?thesis using that linked_not_NULL [OF table_ok_chain(1) [OF ok]] by (auto simp: s table_view_def)
  qed
qed

section \<open>Properties\<close>

text \<open>
  C7: a hash table keeps a stack of items per key: a lookup returns the item added last under the key
  (NULL when there is none), an addition pushes one, a removal pops it; no other key is affected and
  all the walks end.
\<close>

theorem hashtable_stacks:
  assumes "table_ok key t (buckets s) (hnext s)" and "x \<noteq> NULL" and "x \<notin> table_items t (buckets s) (hnext s)"
  shows "\<exists>t' s' s''. hashtable_add key t x s = Some (t', s')
    \<and> hashtable_get key t' (key x) s' = Some x
    \<and> (\<forall>k. k \<noteq> key x \<longrightarrow> hashtable_get key t' k s' = hashtable_get key t k s)
    \<and> hashtable_remove key t' (key x) s' = Some (x, t', s'')
    \<and> table_ok key t' (buckets s'') (hnext s'')
    \<and> table_view key t' (buckets s'') (hnext s'') = table_view key t (buckets s) (hnext s)
    \<and> hashtable_size t' = hashtable_size t + 1"
proof -
  obtain bk nx where add: "hashtable_add key t x s = Some (t\<lparr>ht_items := ht_items t + 1\<rparr>, s\<lparr>hnext := nx, buckets := bk\<rparr>)"
    and ok: "table_ok key (t\<lparr>ht_items := ht_items t + 1\<rparr>) bk nx"
    and view: "table_view key (t\<lparr>ht_items := ht_items t + 1\<rparr>) bk nx
      = (table_view key t (buckets s) (hnext s))(key x := x # table_view key t (buckets s) (hnext s) (key x))"
    using hashtable_add_ok [OF assms] by (auto simp: Let_def)
  let ?t = "t\<lparr>ht_items := ht_items t + 1\<rparr>" and ?s = "s\<lparr>hnext := nx, buckets := bk\<rparr>"
  have ok': "table_ok key ?t (buckets ?s) (hnext ?s)" using ok by simp
  have v: "table_view key ?t (buckets ?s) (hnext ?s) (key x) = x # table_view key t (buckets s) (hnext s) (key x)"
    using view by simp
  obtain bk' nx' where rem: "hashtable_remove key ?t (key x) ?s = Some (x, ?t, ?s\<lparr>buckets := bk', hnext := nx'\<rparr>)"
    "table_ok key ?t bk' nx'" "table_view key ?t bk' nx' = (table_view key ?t bk nx)(key x := table_view key t (buckets s) (hnext s) (key x))"
    using hashtable_remove_some [OF ok' v] by auto
  have "table_view key ?t bk' nx' = table_view key t (buckets s) (hnext s)" unfolding rem(3) view by simp
  then show ?thesis
    using add rem(1,2) v view hashtable_get_ok [OF ok'] hashtable_get_ok [OF assms(1)]
    by (intro exI [of _ ?t] exI [of _ ?s] exI [of _ "?s\<lparr>buckets := bk', hnext := nx'\<rparr>"]) (simp add: hashtable_size_def)
qed

abbreviation (input) sample_table :: "u32 hashtable" where
  "sample_table \<equiv> \<lparr>ht_table = 0x1000, ht_size = 512, ht_items = 0, ht_hash = hashtable_hash_int, ht_compare = (=)\<rparr>"

abbreviation (input) sample_hash :: hash_state where
  "sample_hash \<equiv> \<lparr>int_flag = True, locks = sample_locks, free_table = PHYS_MAP_BASE + 0x8000, s_freeTable = (\<lambda>_. 0), s_freePageCount = 0,
     s_allocatedPageCount = 0,
     slabs = (\<lambda>_. \<lparr>slab_next = 0, slab_cache_of = ENTRY_CACHE, slab_base = 0, free_list = 0, free_count = 0\<rparr>),
     bufs = (\<lambda>_. 0),
     caches = (\<lambda>_. \<lparr>slab_size = 0, obj_size = 0, obj_per_slab = 0, slab_full = 0, slab_partial = 0\<rparr>),
     buckets = (\<lambda>_ _. 0), hnext = (\<lambda>_. 0)\<rparr>"

lemma hashtable_stacks_witness:
  "\<exists>t' s'. hashtable_add (\<lambda>p. ucast p :: u32) sample_table 0x2000 sample_hash = Some (t', s')
   \<and> hashtable_get (\<lambda>p. ucast p :: u32) t' 0x2000 s' = Some 0x2000"
  using hashtable_stacks [of "\<lambda>p. ucast p :: u32" sample_table sample_hash "0x2000"]
  by (auto simp: table_ok_def table_items_def chain_of_def)

end
