(* ===== verification/Pic.thy ===== *)
theory Pic
  imports Hashtable
begin

text \<open>
  Port input and output, and the interrupt controllers (\<^verbatim>\<open>platform/pc/src/pic.c\<close>).  What the
  kernel writes to ports is recorded in order; what it reads is given by the devices, as a function of
  the port and of everything written so far.
\<close>

record pic_state = hash_state +
  io_out :: "(u16 \<times> u8) list"
  io_device :: "(u16 \<times> u8) list \<Rightarrow> u16 \<Rightarrow> u8"
  s_master_mask :: u8
  s_slave_mask :: u8

definition outb :: "u8 \<Rightarrow> u16 \<Rightarrow> 'a pic_state_scheme \<Rightarrow> 'a pic_state_scheme" where
  "outb data port s = s\<lparr>io_out := io_out s @ [(port, data)]\<rparr>"

definition inb :: "u16 \<Rightarrow> 'a pic_state_scheme \<Rightarrow> u8" where
  "inb port s = io_device s (io_out s) port"

abbreviation (input) PIC_MASTER_CMD :: u16 where "PIC_MASTER_CMD \<equiv> 0x20"
abbreviation (input) PIC_MASTER_IMR :: u16 where "PIC_MASTER_IMR \<equiv> 0x21"
abbreviation (input) PIC_SLAVE_CMD :: u16 where "PIC_SLAVE_CMD \<equiv> 0xa0"
abbreviation (input) PIC_SLAVE_IMR :: u16 where "PIC_SLAVE_IMR \<equiv> 0xa1"

definition pic_is_masked :: "u32 \<Rightarrow> 'a pic_state_scheme \<Rightarrow> bool" where
  "pic_is_masked irq s =
     (if irq AND 8 \<noteq> 0 then (ucast (s_slave_mask s) AND push_bit (unat (irq - 8)) (1::u32)) \<noteq> 0
      else (ucast (s_master_mask s) AND push_bit (unat irq) (1::u32)) \<noteq> 0)"

definition pic_is_irq_real :: "u32 \<Rightarrow> 'a pic_state_scheme \<Rightarrow> bool \<times> 'a pic_state_scheme" where
  "pic_is_irq_real irq s =
     (let cmd = (if irq AND 8 \<noteq> 0 then PIC_SLAVE_CMD else PIC_MASTER_CMD);
          s = outb 0x0b cmd s;
          isr = inb cmd s;
          s = outb 0x0a cmd s
      in ((ucast isr AND push_bit (unat (irq AND 7)) (1::u32)) \<noteq> 0, s))"

definition pic_enable_irq :: "u32 \<Rightarrow> 'a pic_state_scheme \<Rightarrow> 'a pic_state_scheme" where
  "pic_enable_irq irq s =
     (if irq AND 8 \<noteq> 0 then
        let s = s\<lparr>s_slave_mask := ucast ((ucast (s_slave_mask s) :: u32) AND NOT (push_bit (unat (irq - 8)) 1))\<rparr>
        in outb (s_slave_mask s) PIC_SLAVE_IMR s
      else
        let s = s\<lparr>s_master_mask := ucast ((ucast (s_master_mask s) :: u32) AND NOT (push_bit (unat irq) 1))\<rparr>
        in outb (s_master_mask s) PIC_MASTER_IMR s)"

definition pic_disable_irq :: "u32 \<Rightarrow> 'a pic_state_scheme \<Rightarrow> 'a pic_state_scheme" where
  "pic_disable_irq irq s =
     (if irq AND 8 \<noteq> 0 then
        let s = s\<lparr>s_slave_mask := ucast ((ucast (s_slave_mask s) :: u32) OR push_bit (unat (irq - 8)) 1)\<rparr>
        in outb (s_slave_mask s) PIC_SLAVE_IMR s
      else
        let s = s\<lparr>s_master_mask := ucast ((ucast (s_master_mask s) :: u32) OR push_bit (unat irq) 1)\<rparr>
        in outb (s_master_mask s) PIC_MASTER_IMR s)"

definition pic_send_eoi :: "u32 \<Rightarrow> 'a pic_state_scheme \<Rightarrow> 'a pic_state_scheme" where
  "pic_send_eoi irq s =
     (let s = (if irq AND 8 \<noteq> 0 then outb 0x20 PIC_SLAVE_CMD s else s)
      in outb 0x20 PIC_MASTER_CMD s)"

definition pic_remap :: "'a pic_state_scheme \<Rightarrow> 'a pic_state_scheme" where
  "pic_remap s =
     (let s = outb 0xff PIC_SLAVE_IMR s;
          s = outb 0xff PIC_MASTER_IMR s;
          s = outb 0x11 PIC_MASTER_CMD s;
          s = outb 0x20 PIC_MASTER_IMR s;
          s = outb 4 PIC_MASTER_IMR s;
          s = outb 1 PIC_MASTER_IMR s;
          s = outb 0x11 PIC_SLAVE_CMD s;
          s = outb 0x28 PIC_SLAVE_IMR s;
          s = outb 2 PIC_SLAVE_IMR s;
          s = outb 1 PIC_SLAVE_IMR s;
          s = s\<lparr>s_master_mask := s_master_mask s AND NOT 4\<rparr>;
          s = outb (s_slave_mask s) PIC_SLAVE_IMR s
      in outb (s_master_mask s) PIC_MASTER_IMR s)"

section \<open>The masks\<close>

text \<open>The line of a controller an interrupt number stands for.\<close>

lemma irq_line_slave:
  fixes irq :: u32
  assumes "irq < 16" and "irq AND 8 \<noteq> 0"
  shows "8 \<le> unat irq" and "unat (irq - 8) = unat irq - 8" and "unat irq - 8 < 8"
proof -
  have "irq \<in> {0, 1, 2, 3, 4, 5, 6, 7, 8, 9, 10, 11, 12, 13, 14, 15}"
    using assms(1) by (simp add: word_less_nat_alt word_unat_eq_iff) presburger
  then have "irq \<in> {8, 9, 10, 11, 12, 13, 14, 15}" using assms(2) by auto
  then show "8 \<le> unat irq" and "unat (irq - 8) = unat irq - 8" and "unat irq - 8 < 8" by auto
qed

lemma irq_line_master:
  fixes irq :: u32
  assumes "irq < 16" and "irq AND 8 = 0"
  shows "unat irq < 8"
proof -
  have "irq \<in> {0, 1, 2, 3, 4, 5, 6, 7, 8, 9, 10, 11, 12, 13, 14, 15}"
    using assms(1) by (simp add: word_less_nat_alt word_unat_eq_iff) presburger
  then show ?thesis using assms(2) by auto
qed

lemma mask_bit: "n < 8 \<Longrightarrow> ((ucast (m::u8) :: u32) AND 2 ^ n) \<noteq> 0 \<longleftrightarrow> bit m n"
  by (simp add: and_exp_eq_0_iff_not_bit bit_ucast_iff)

lemma bit_clear: "n < 8 \<Longrightarrow> k < 8 \<Longrightarrow> bit (ucast ((ucast (m::u8) :: u32) AND NOT (2 ^ n)) :: u8) k \<longleftrightarrow> bit m k \<and> k \<noteq> n"
  by (auto simp: bit_simps)

lemma bit_set: "n < 8 \<Longrightarrow> k < 8 \<Longrightarrow> bit (ucast ((ucast (m::u8) :: u32) OR 2 ^ n) :: u8) k \<longleftrightarrow> bit m k \<or> k = n"
  by (auto simp: bit_simps)

lemma pic_is_masked_bit:
  assumes "irq < 16"
  shows "pic_is_masked irq s \<longleftrightarrow> (if irq AND 8 \<noteq> 0 then bit (s_slave_mask s) (unat irq - 8) else bit (s_master_mask s) (unat irq))"
  using irq_line_slave [OF assms] irq_line_master [OF assms] by (simp add: pic_is_masked_def mask_bit)

lemma pic_is_masked_cong:
  "s_slave_mask s = s_slave_mask t \<Longrightarrow> s_master_mask s = s_master_mask t \<Longrightarrow> pic_is_masked k s = pic_is_masked k t"
  by (simp add: pic_is_masked_def)

lemma pic_mask_enable:
  assumes "irq < 16" and "k < 16"
  shows "pic_is_masked k (pic_enable_irq irq s) \<longleftrightarrow> pic_is_masked k s \<and> k \<noteq> irq"
proof -
  have eq: "k = irq \<longleftrightarrow> unat k = unat irq" by (simp add: word_unat_eq_iff)
  then show ?thesis
    using irq_line_slave [OF assms(1)] irq_line_master [OF assms(1)] irq_line_slave [OF assms(2)] irq_line_master [OF assms(2)]
    by (cases "k AND 8 = 0"; cases "irq AND 8 = 0")
      (auto simp: pic_is_masked_bit [OF assms(2)] pic_enable_irq_def outb_def Let_def bit_clear)
qed

lemma pic_mask_disable:
  assumes "irq < 16" and "k < 16"
  shows "pic_is_masked k (pic_disable_irq irq s) \<longleftrightarrow> pic_is_masked k s \<or> k = irq"
proof -
  have eq: "k = irq \<longleftrightarrow> unat k = unat irq" by (simp add: word_unat_eq_iff)
  then show ?thesis
    using irq_line_slave [OF assms(1)] irq_line_master [OF assms(1)] irq_line_slave [OF assms(2)] irq_line_master [OF assms(2)]
    by (cases "k AND 8 = 0"; cases "irq AND 8 = 0")
      (auto simp: pic_is_masked_bit [OF assms(2)] pic_disable_irq_def outb_def Let_def bit_set)
qed

text \<open>
  Unmasking or masking an interrupt line changes that line and no other one, and the mask written
  to the controller is the one the kernel remembers.
\<close>

theorem pic_masks_one_line:
  assumes "irq < 16" and "k < 16"
  shows "(pic_is_masked k (pic_enable_irq irq s) \<longleftrightarrow> pic_is_masked k s \<and> k \<noteq> irq)
    \<and> (pic_is_masked k (pic_disable_irq irq s) \<longleftrightarrow> pic_is_masked k s \<or> k = irq)
    \<and> last (io_out (pic_enable_irq irq s)) = (if irq AND 8 \<noteq> 0 then (PIC_SLAVE_IMR, s_slave_mask (pic_enable_irq irq s))
        else (PIC_MASTER_IMR, s_master_mask (pic_enable_irq irq s)))
    \<and> last (io_out (pic_disable_irq irq s)) = (if irq AND 8 \<noteq> 0 then (PIC_SLAVE_IMR, s_slave_mask (pic_disable_irq irq s))
        else (PIC_MASTER_IMR, s_master_mask (pic_disable_irq irq s)))"
  unfolding pic_mask_enable [OF assms] pic_mask_disable [OF assms]
  by (simp add: pic_enable_irq_def pic_disable_irq_def outb_def Let_def)

abbreviation (input) sample_pic :: pic_state where
  "sample_pic \<equiv> hash_state.extend sample_hash
     \<lparr>io_out = [], io_device = (\<lambda>_ _. 0), s_master_mask = 0xff, s_slave_mask = 0xff\<rparr>"

lemma pic_masks_one_line_witness:
  "\<not> pic_is_masked 12 (pic_enable_irq 12 sample_pic) \<and> pic_is_masked 13 (pic_enable_irq 12 sample_pic)"
  using pic_masks_one_line [of 12 12 sample_pic] pic_masks_one_line [of 12 13 sample_pic]
  by (simp add: pic_is_masked_def hash_state.defs)

end
