(* ===== verification/ThreadQueue.thy ===== *)
theory ThreadQueue
  imports HeapList
begin

text \<open>
  \<^verbatim>\<open>proc/threadqueue.c\<close>: the FIFO queues of threads used by the scheduler, the thread cleaner,
  mutexes and ports.  A thread has one link field, \<^verbatim>\<open>sched_next\<close>, so it can be in one queue at a time;
  the links of all threads are one function \<open>link\<close>, and every operation is stated with the
  frame that keeps the other queues intact.
\<close>

section \<open>Operations\<close>

record threadqueue =
  q_first :: ptr
  q_last :: ptr

text \<open>Adding the thread at NULL writes through the null pointer and faults.\<close>

definition threadqueue_add :: "threadqueue \<Rightarrow> ptr \<Rightarrow> (ptr \<Rightarrow> ptr) \<Rightarrow> (threadqueue \<times> (ptr \<Rightarrow> ptr)) option" where
  "threadqueue_add q t link =
     (if t = NULL then None
      else
        let link = link(t := NULL);
            link = (if q_last q \<noteq> NULL then link(q_last q := t) else link);
            q = q\<lparr>q_last := t\<rparr>;
            q = (if q_first q = NULL then q\<lparr>q_first := t\<rparr> else q)
        in Some (q, link))"

definition threadqueue_pop :: "threadqueue \<Rightarrow> (ptr \<Rightarrow> ptr) \<Rightarrow> ptr \<times> threadqueue" where
  "threadqueue_pop q link =
     (let t = q_first q;
          q = (if t \<noteq> NULL then q\<lparr>q_first := link t\<rparr> else q);
          q = (if q_first q = NULL then q\<lparr>q_last := NULL\<rparr> else q)
      in (t, q))"

definition threadqueue_is_empty :: "threadqueue \<Rightarrow> bool" where
  "threadqueue_is_empty q \<longleftrightarrow> q_first q = NULL"

definition threadqueue_init :: "threadqueue \<Rightarrow> threadqueue" where
  "threadqueue_init q = q\<lparr>q_first := NULL, q_last := NULL\<rparr>"

section \<open>Queues as lists\<close>

text \<open>\<open>queued link q ts\<close>: the queue \<open>q\<close> holds the threads \<open>ts\<close>, the next one to leave first.\<close>

definition queued :: "(ptr \<Rightarrow> ptr) \<Rightarrow> threadqueue \<Rightarrow> ptr list \<Rightarrow> bool" where
  "queued link q ts \<longleftrightarrow> linked link (q_first q) ts \<and> q_last q = (if ts = [] then NULL else last ts)"

definition empty_queue :: threadqueue where
  "empty_queue = \<lparr>q_first = NULL, q_last = NULL\<rparr>"

lemma queued_empty [simp]: "queued link empty_queue ts \<longleftrightarrow> ts = []"
  by (auto simp: queued_def empty_queue_def)

lemma queued_Nil: "queued link q [] \<longleftrightarrow> q = empty_queue"
  by (cases q) (auto simp: queued_def empty_queue_def)

lemma queued_init [simp]: "queued link (threadqueue_init q) ts \<longleftrightarrow> ts = []"
  by (auto simp: queued_def threadqueue_init_def)

lemma queued_distinct: "queued link q ts \<Longrightarrow> distinct ts \<and> NULL \<notin> set ts"
  using linked_distinct linked_not_NULL unfolding queued_def by metis

lemma queued_unique: "queued link q ts \<Longrightarrow> queued link q us \<Longrightarrow> ts = us"
  unfolding queued_def by (blast dest: linked_unique)

lemma queued_frame: "queued link q ts \<Longrightarrow> (\<And>t. t \<in> set ts \<Longrightarrow> link' t = link t) \<Longrightarrow> queued link' q ts"
  unfolding queued_def using linked_cong by metis

lemma queued_is_empty: "queued link q ts \<Longrightarrow> threadqueue_is_empty q \<longleftrightarrow> ts = []"
  by (cases ts) (auto simp: queued_def threadqueue_is_empty_def)

lemma threadqueue_add_ok:
  assumes "queued link q ts" and "t \<noteq> NULL" and "t \<notin> set ts"
  shows "\<exists>q' link'. threadqueue_add q t link = Some (q', link') \<and> queued link' q' (ts @ [t])
    \<and> (\<forall>x. x \<notin> set ts \<longrightarrow> x \<noteq> t \<longrightarrow> link' x = link x)"
proof (cases ts rule: rev_cases)
  case Nil
  then have "q_first q = NULL" "q_last q = NULL" using assms(1) by (auto simp: queued_def)
  then show ?thesis using Nil assms(2) by (simp add: threadqueue_add_def queued_def)
next
  case (snoc xs y)
  have l: "linked link (q_first q) (xs @ [y])" "q_last q = y" using assms(1) snoc by (auto simp: queued_def)
  have nn: "y \<noteq> NULL" "q_first q \<noteq> NULL" using linked_not_NULL [OF l(1), of y] l(1)
    by (auto simp del: linked_NULL simp: linked_NULL [of link "xs @ [y]"])
  have "linked (link(t := NULL, y := t)) (q_first q) (xs @ [y, t])"
    using linked_snoc [OF l(1)] assms(2,3) snoc by simp
  then show ?thesis using assms(2) nn l snoc by (simp add: threadqueue_add_def queued_def Let_def)
qed

text \<open>
  A thread that is already queued must not be added again: the threads behind it drop out of the
  queue, and if it is the last one, its link becomes a cycle.
\<close>

lemma threadqueue_add_again:
  assumes q: "queued link q (xs @ t # ys)"
  shows "threadqueue_add q t link = Some (q\<lparr>q_last := t\<rparr>, link(t := NULL, last (t # ys) := t))
    \<and> (ys \<noteq> [] \<longrightarrow> queued (link(t := NULL, last (t # ys) := t)) (q\<lparr>q_last := t\<rparr>) (xs @ [t]))"
proof -
  have l: "linked link (q_first q) (xs @ t # ys)" "q_last q = last (t # ys)" using q by (simp_all add: queued_def)
  have d: "distinct (xs @ t # ys)" "NULL \<notin> set (xs @ t # ys)" using queued_distinct [OF q] by simp_all
  have nn: "q_first q \<noteq> NULL" "q_last q \<noteq> NULL" "t \<noteq> NULL"
    using linked_hd [OF l(1)] l(2) d(2) last_in_set [of "t # ys"] by (auto split: list.splits simp: append_eq_Cons_conv)
  have add: "threadqueue_add q t link = Some (q\<lparr>q_last := t\<rparr>, link(t := NULL, last (t # ys) := t))"
    using nn l(2) by (simp add: threadqueue_add_def Let_def)
  have "linked (link(t := NULL, last (t # ys) := t)) (q_first q) (xs @ [t])" if "ys \<noteq> []"
  proof -
    have "last (t # ys) \<in> set ys" using that by simp
    then have "last (t # ys) \<notin> set (xs @ [t])" using d(1) by auto
    moreover have "linked (link(t := NULL)) (q_first q) (xs @ [t])"
      using l(1) d(1) linked_append [of t xs link "q_first q" ys] by simp
    ultimately show ?thesis by simp
  qed
  then show ?thesis using add by (auto simp: queued_def)
qed

lemma threadqueue_pop_Nil: "queued link q [] \<Longrightarrow> threadqueue_pop q link = (NULL, q)"
  by (cases q) (auto simp: queued_def threadqueue_pop_def)

lemma threadqueue_pop_Cons:
  assumes "queued link q (t # ts)"
  shows "\<exists>q'. threadqueue_pop q link = (t, q') \<and> queued link q' ts"
  using assms by (cases ts) (auto simp: queued_def threadqueue_pop_def Let_def)

section \<open>The contract of a queue\<close>

text \<open>
  What the scheduler and the mutexes need of a queue.  \<open>turn\<close> is what a round-robin scheduler does
  with one: put the running thread at the end and take the next one; after \<open>n\<close> turns the threads have
  rotated \<open>n\<close> places, so nobody is overtaken.
\<close>

locale fifo =
  fixes enq :: "ptr \<Rightarrow> 's \<Rightarrow> 's option"
    and deq :: "'s \<Rightarrow> ptr \<times> 's"
    and holds :: "'s \<Rightarrow> ptr list \<Rightarrow> bool"
  assumes enq_law: "holds s ts \<Longrightarrow> t \<noteq> NULL \<Longrightarrow> t \<notin> set ts \<Longrightarrow> \<exists>s'. enq t s = Some s' \<and> holds s' (ts @ [t])"
    and deq_empty: "holds s [] \<Longrightarrow> fst (deq s) = NULL \<and> holds (snd (deq s)) []"
    and deq_first: "holds s (t # ts) \<Longrightarrow> fst (deq s) = t \<and> holds (snd (deq s)) ts"
    and holds_distinct: "holds s ts \<Longrightarrow> distinct ts \<and> NULL \<notin> set ts"

context fifo begin

definition turn :: "ptr \<times> 's \<Rightarrow> (ptr \<times> 's) option" where
  "turn = (\<lambda>(t, s). map_option deq (enq t s))"

primrec turns :: "nat \<Rightarrow> ptr \<times> 's \<Rightarrow> (ptr \<times> 's) option" where
  "turns 0 x = Some x"
| "turns (Suc n) x = Option.bind (turns n x) turn"

lemma turns_Suc_first: "turns (Suc n) x = Option.bind (turn x) (turns n)"
  by (induction n arbitrary: x) (auto split: Option.bind_splits)

lemma turn_rotates:
  assumes "holds s ts" and "t \<noteq> NULL" and "t \<notin> set ts"
  shows "\<exists>u s' us. turn (t, s) = Some (u, s') \<and> holds s' us \<and> u # us = rotate1 (t # ts)"
proof -
  obtain s1 where s1: "enq t s = Some s1" "holds s1 (ts @ [t])" using enq_law [OF assms] by blast
  obtain u us where u: "ts @ [t] = u # us" by (cases "ts @ [t]") auto
  show ?thesis using s1 deq_first [of s1 u us] u by (simp add: turn_def) (metis prod.collapse)
qed

lemma turns_rotate:
  assumes "holds s ts" and "t \<noteq> NULL" and "t \<notin> set ts"
  shows "\<exists>u s' us. turns n (t, s) = Some (u, s') \<and> holds s' us \<and> u # us = rotate n (t # ts)"
proof (induction n)
  case 0
  then show ?case using assms by simp
next
  case (Suc n)
  then obtain u s' us where IH: "turns n (t, s) = Some (u, s')" "holds s' us" "u # us = rotate n (t # ts)" by blast
  have "set (u # us) = set (t # ts)" "distinct (u # us)"
    unfolding IH(3) using holds_distinct [OF assms(1)] assms(3) by simp_all
  then have "u \<noteq> NULL" "u \<notin> set us" using holds_distinct [OF assms(1)] assms(2) by auto
  then obtain v s'' vs where "turn (u, s') = Some (v, s'')" "holds s'' vs" "v # vs = rotate1 (u # us)"
    using turn_rotates [OF IH(2)] by blast
  then show ?case unfolding IH(3) by (auto simp: IH(1))
qed

text \<open>Everybody waiting at place \<open>n\<close> is served after \<open>n + 1\<close> turns.\<close>

lemma served_in_turn:
  assumes "holds s ts" and "t \<noteq> NULL" and "t \<notin> set ts" and "n < length ts"
  shows "\<exists>s'. turns (Suc n) (t, s) = Some (ts ! n, s')"
proof -
  obtain u s' us where u: "turns (Suc n) (t, s) = Some (u, s')" "u # us = rotate (Suc n) (t # ts)"
    using turns_rotate [OF assms(1-3), of "Suc n"] by blast
  have "u = (u # us) ! 0" by simp
  also have "... = ts ! n" unfolding u(2) using assms(4) by (subst nth_rotate) simp_all
  finally show ?thesis using u(1) by blast
qed

end

text \<open>The queues of the kernel; a client queue is a queue and the links of all threads.\<close>

interpretation tq: fifo "\<lambda>t (q, link). threadqueue_add q t link"
    "\<lambda>(q, link). (case threadqueue_pop q link of (t, q) \<Rightarrow> (t, q, link))" "\<lambda>(q, link). queued link q"
proof unfold_locales
  fix s :: "threadqueue \<times> (ptr \<Rightarrow> ptr)" and t ts
  obtain q link where s: "s = (q, link)" by (cases s)
  show "\<exists>s'. (\<lambda>(q, link). threadqueue_add q t link) s = Some s' \<and> (\<lambda>(q, link). queued link q) s' (ts @ [t])"
    if "(\<lambda>(q, link). queued link q) s ts" "t \<noteq> NULL" "t \<notin> set ts"
    using threadqueue_add_ok [of link q ts t] that by (auto simp: s)
  show "fst ((\<lambda>(q, link). case threadqueue_pop q link of (t, q) \<Rightarrow> (t, q, link)) s) = NULL
      \<and> (\<lambda>(q, link). queued link q) (snd ((\<lambda>(q, link). case threadqueue_pop q link of (t, q) \<Rightarrow> (t, q, link)) s)) []"
    if "(\<lambda>(q, link). queued link q) s []"
    using threadqueue_pop_Nil [of link q] that by (simp add: s)
  show "fst ((\<lambda>(q, link). case threadqueue_pop q link of (t, q) \<Rightarrow> (t, q, link)) s) = t
      \<and> (\<lambda>(q, link). queued link q) (snd ((\<lambda>(q, link). case threadqueue_pop q link of (t, q) \<Rightarrow> (t, q, link)) s)) ts"
    if "(\<lambda>(q, link). queued link q) s (t # ts)"
    using threadqueue_pop_Cons [of link q t ts] that by (auto simp: s)
  show "distinct ts \<and> NULL \<notin> set ts" if "(\<lambda>(q, link). queued link q) s ts"
    using queued_distinct [of link q ts] that by (simp add: s)
qed

end
