(* ===== verification/Irq.thy ===== *)
theory Irq
  imports Pic
begin

text \<open>
  The table of interrupt handlers (\<^verbatim>\<open>kernel/cpu/irq.c\<close>, \<^verbatim>\<open>arch/cpu/irq.c\<close>): who handles a hardware
  interrupt line, the kernel or the port of a server.  The dispatch of an interrupt, which calls the
  handlers, is in the theory \<open>Dispatch\<close>, above the scheduler and the ports.
\<close>

section \<open>Data\<close>

text \<open>The functions of the kernel whose address is stored somewhere.\<close>

datatype kfun = THREAD_EXIT | THREAD_CLEANER | SCHED_IDLE_THREAD | SCHED_IRQ | INIT_THREAD

text \<open>\<^verbatim>\<open>struct irq_slot\<close>: the tag and the union it selects.\<close>

datatype irq_slot = NONE | KERNEL kfun ptr | SERVER u32

abbreviation (input) ARCH_IRQ_COUNT :: nat where
  "ARCH_IRQ_COUNT \<equiv> 16"

record irq_state = pic_state +
  s_irq_table :: "nat \<Rightarrow> irq_slot"

section \<open>Operations\<close>

definition irq_arch_enable :: "u32 \<Rightarrow> 'a irq_state_scheme \<Rightarrow> 'a irq_state_scheme" where
  "irq_arch_enable irq s = pic_enable_irq irq s"

definition irq_arch_disable :: "u32 \<Rightarrow> 'a irq_state_scheme \<Rightarrow> 'a irq_state_scheme" where
  "irq_arch_disable irq s = pic_disable_irq irq s"

definition irq_arch_finished :: "u32 \<Rightarrow> 'a irq_state_scheme \<Rightarrow> 'a irq_state_scheme" where
  "irq_arch_finished irq s = pic_send_eoi irq s"

text \<open>An interrupt number is a signed \<^verbatim>\<open>int\<close>.\<close>

definition irq_valid :: "u32 \<Rightarrow> bool" where
  "irq_valid irq \<longleftrightarrow> \<not> (sint irq < 0 \<or> sint irq \<ge> int ARCH_IRQ_COUNT)"

text \<open>The common part of the two ways to register: put \<open>slot\<close> into the table unless it is taken.\<close>

definition irq_claim :: "u32 \<Rightarrow> irq_slot \<Rightarrow> 'a irq_state_scheme \<Rightarrow> int \<times> 'a irq_state_scheme" where
  "irq_claim irq slot s =
     (let (ints, s) = cpu_arch_disable_int s;
          (ret, s) = (if s_irq_table s (unat irq) = NONE then
                        (0, irq_arch_enable irq (s\<lparr>s_irq_table := (s_irq_table s)(unat irq := slot)\<rparr>))
                      else (-1, s))
      in (ret, if ints \<noteq> 0 then cpu_arch_enable_int s else s))"

definition irq_register :: "u32 \<Rightarrow> kfun \<Rightarrow> ptr \<Rightarrow> 'a irq_state_scheme \<Rightarrow> int \<times> 'a irq_state_scheme" where
  "irq_register irq handler data s =
     (if \<not> irq_valid irq then (-1, s) else irq_claim irq (KERNEL handler data) s)"

definition sys_irq_register :: "u32 \<Rightarrow> u32 \<Rightarrow> 'a irq_state_scheme \<Rightarrow> int \<times> 'a irq_state_scheme" where
  "sys_irq_register irq port s =
     (if \<not> irq_valid irq then (-1, s) else irq_claim irq (SERVER port) s)"

definition sys_irq_finished :: "u32 \<Rightarrow> 'a irq_state_scheme \<Rightarrow> int \<times> 'a irq_state_scheme" where
  "sys_irq_finished irq s = (0, irq_arch_finished irq s)"

definition irq_init :: "'a irq_state_scheme \<Rightarrow> 'a irq_state_scheme" where
  "irq_init s = s\<lparr>s_irq_table := (\<lambda>i. if i < ARCH_IRQ_COUNT then NONE else s_irq_table s i)\<rparr>"

section \<open>Lemmas\<close>

lemma irq_valid_iff: "irq_valid irq \<longleftrightarrow> irq < 16"
proof -
  have "irq < 16 \<longleftrightarrow> uint irq < 16" by (simp add: word_less_def)
  then show ?thesis using uint_lt2p [of irq] by (auto simp: irq_valid_def sint_u32 split: if_splits)
qed

lemma irq_claim_free:
  "s_irq_table s (unat irq) = NONE \<Longrightarrow> irq_claim irq slot s =
     (0, pic_enable_irq irq (s\<lparr>s_irq_table := (s_irq_table s)(unat irq := slot), int_flag := False\<rparr>)\<lparr>int_flag := int_flag s\<rparr>)"
  by (simp add: irq_claim_def cpu_arch_disable_int_def cpu_arch_enable_int_def irq_arch_enable_def pic_enable_irq_def
      outb_def Let_def)

lemma irq_claim_taken: "s_irq_table s (unat irq) \<noteq> NONE \<Longrightarrow> irq_claim irq slot s = (-1, s)"
  by (simp add: irq_claim_def cpu_arch_disable_int_def cpu_arch_enable_int_def Let_def)

section \<open>Properties\<close>

text \<open>
  C8: an interrupt line has one owner.  A registration of a line below 16 that is free succeeds:
  the owner is stored, exactly that line is unmasked, the interrupt flag is as before; from then on
  every other registration of the line fails and changes nothing, and so does one of an invalid line.
\<close>

theorem irq_one_owner:
  assumes "irq < 16" and "s_irq_table s (unat irq) = NONE"
  shows "\<exists>s'. sys_irq_register irq port s = (0, s')
    \<and> s_irq_table s' = (s_irq_table s)(unat irq := SERVER port)
    \<and> int_flag s' = int_flag s
    \<and> (\<forall>k < 16. pic_is_masked k s' \<longleftrightarrow> pic_is_masked k s \<and> k \<noteq> irq)
    \<and> (\<forall>p. sys_irq_register irq p s' = (-1, s')) \<and> (\<forall>h d. irq_register irq h d s' = (-1, s'))
    \<and> (\<forall>k p. \<not> k < 16 \<longrightarrow> sys_irq_register k p s' = (-1, s'))"
proof -
  let ?s = "s\<lparr>s_irq_table := (s_irq_table s)(unat irq := SERVER port), int_flag := False\<rparr>"
  let ?s' = "pic_enable_irq irq ?s\<lparr>int_flag := int_flag s\<rparr>"
  have eq: "sys_irq_register irq port s = (0, ?s')"
    using assms by (simp add: sys_irq_register_def irq_valid_iff irq_claim_free)
  have tab: "s_irq_table ?s' = (s_irq_table s)(unat irq := SERVER port)" "int_flag ?s' = int_flag s"
    by (simp_all add: pic_enable_irq_def outb_def Let_def)
  have "pic_is_masked k ?s' \<longleftrightarrow> pic_is_masked k s \<and> k \<noteq> irq" if "k < 16" for k
    using that assms(1) by (simp add: pic_is_masked_cong [of ?s' "pic_enable_irq irq ?s"] pic_mask_enable pic_is_masked_cong [of ?s s])
  then show ?thesis using eq tab
    by (intro exI [of _ ?s']) (simp add: sys_irq_register_def irq_register_def irq_valid_iff irq_claim_taken)
qed

abbreviation (input) sample_irq :: irq_state where
  "sample_irq \<equiv> pic_state.extend sample_pic \<lparr>s_irq_table = (\<lambda>_. NONE)\<rparr>"

lemma irq_one_owner_witness:
  "\<exists>s'. sys_irq_register 1 7 sample_irq = (0, s') \<and> sys_irq_register 1 8 s' = (-1, s')"
  using irq_one_owner [of 1 sample_irq 7] by (auto simp: pic_state.defs hash_state.defs)

end
