(* ===== verification/Descriptors.thy ===== *)
theory Descriptors
  imports Irq
begin

text \<open>
  The descriptor tables of the CPU (\<^verbatim>\<open>arch/cpu/gdt.c\<close>, \<^verbatim>\<open>arch/cpu/idt.c\<close>, \<^verbatim>\<open>arch/cpu/cpu.c\<close>).  A
  descriptor is the word the processor reads: 64 bits for a segment, 128 bits for a gate or the task
  state; the bit fields of the packed structures are at the positions the compiler gives them, the
  lowest bits first.
\<close>

section \<open>Data\<close>

record desc_state = irq_state +
  s_gdt :: "nat \<Rightarrow> u64"
  s_idt :: "nat \<Rightarrow> 128 word"
  gdtr :: "u16 \<times> u64"
  idtr :: "u16 \<times> u64"
  task_register :: u16
  tss_rsp0 :: u64
  gdt_addr :: u64
  idt_addr :: u64
  tss_addr :: u64
  isr_addr :: "nat \<Rightarrow> u64"

text \<open>The assignment of \<open>v\<close> to a bit field of \<open>len\<close> bits at \<open>off\<close>, and its value.\<close>

definition set_field :: "nat \<Rightarrow> nat \<Rightarrow> 'a::len word \<Rightarrow> 'a word \<Rightarrow> 'a word" where
  "set_field off len v w = (w AND NOT (push_bit off (mask len))) OR push_bit off (take_bit len v)"

definition get_field :: "nat \<Rightarrow> nat \<Rightarrow> 'a::len word \<Rightarrow> 'a word" where
  "get_field off len w = take_bit len (drop_bit off w)"

text \<open>\<^verbatim>\<open>struct code_segment\<close>, \<^verbatim>\<open>struct data_segment\<close>: the fields the kernel sets.\<close>

abbreviation (input) CS_KERNEL :: nat where "CS_KERNEL \<equiv> 0x08"
abbreviation (input) DS_KERNEL :: nat where "DS_KERNEL \<equiv> 0x10"
abbreviation (input) CS_USER :: nat where "CS_USER \<equiv> 0x18"
abbreviation (input) DS_USER :: nat where "DS_USER \<equiv> 0x20"

definition code_segment :: "u64 \<Rightarrow> u64 \<Rightarrow> u64" where
  "code_segment dpl =
     set_field 54 1 0 \<circ> set_field 53 1 1 \<circ> set_field 47 1 1 \<circ> set_field 45 2 dpl \<circ> set_field 43 2 0x3"

definition data_segment :: "u64 \<Rightarrow> u64 \<Rightarrow> u64" where
  "data_segment dpl = set_field 47 1 1 \<circ> set_field 45 2 dpl \<circ> set_field 44 1 1 \<circ> set_field 41 1 1"

definition gdt_init_cs :: "nat \<Rightarrow> u64 \<Rightarrow> 'a desc_state_scheme \<Rightarrow> 'a desc_state_scheme" where
  "gdt_init_cs i dpl s = s\<lparr>s_gdt := (s_gdt s)(i := code_segment dpl (s_gdt s i))\<rparr>"

definition gdt_init_ds :: "nat \<Rightarrow> u64 \<Rightarrow> 'a desc_state_scheme \<Rightarrow> 'a desc_state_scheme" where
  "gdt_init_ds i dpl s = s\<lparr>s_gdt := (s_gdt s)(i := data_segment dpl (s_gdt s i))\<rparr>"

abbreviation (input) sizeof_tss :: u64 where
  "sizeof_tss \<equiv> 104"

text \<open>\<^verbatim>\<open>struct tss_segment\<close> takes the entries 5 and 6.\<close>

definition tss_segment :: "u64 \<Rightarrow> 128 word \<Rightarrow> 128 word" where
  "tss_segment base =
     (let limit = sizeof_tss
      in set_field 104 5 0
         \<circ> set_field 64 32 (ucast (drop_bit 32 base AND 0xffffffff))
         \<circ> set_field 56 8 (ucast (drop_bit 24 base AND 0xff))
         \<circ> set_field 55 1 0 \<circ> set_field 53 2 0 \<circ> set_field 52 1 0
         \<circ> set_field 48 4 (ucast (drop_bit 16 limit AND 0xf))
         \<circ> set_field 47 1 1 \<circ> set_field 45 2 0 \<circ> set_field 44 1 0 \<circ> set_field 40 4 0x9
         \<circ> set_field 32 8 (ucast (drop_bit 16 base AND 0xff))
         \<circ> set_field 16 16 (ucast (base AND 0xffff))
         \<circ> set_field 0 16 (ucast (limit AND 0xffff)))"

definition gdt_arch_set_tss :: "u64 \<Rightarrow> 'a desc_state_scheme \<Rightarrow> 'a desc_state_scheme" where
  "gdt_arch_set_tss tss s =
     (let d = tss_segment tss (push_bit 64 (ucast (s_gdt s 6)) OR ucast (s_gdt s 5))
      in s\<lparr>s_gdt := (s_gdt s)(5 := ucast d, 6 := ucast (drop_bit 64 d))\<rparr>)"

definition gdt_init :: "'a desc_state_scheme \<Rightarrow> 'a desc_state_scheme" where
  "gdt_init s =
     (let s = s\<lparr>s_gdt := (\<lambda>i. if i < 7 then 0 else s_gdt s i)\<rparr>;
          s = gdt_init_cs 1 0 s;
          s = gdt_init_ds 2 0 s;
          s = gdt_init_cs 3 3 s;
          s = gdt_init_ds 4 3 s
      in s\<lparr>gdtr := (7 * 8 - 1, gdt_addr s)\<rparr>)"

text \<open>\<^verbatim>\<open>cpu_arch_init\<close>: the task state is cleared and its segment loaded.\<close>

definition cpu_arch_init :: "'a desc_state_scheme \<Rightarrow> 'a desc_state_scheme" where
  "cpu_arch_init s =
     (let s = s\<lparr>tss_rsp0 := 0\<rparr>;
          s = gdt_arch_set_tss (tss_addr s) s
      in s\<lparr>task_register := 5 * 8\<rparr>)"

section \<open>Gates\<close>

abbreviation (input) TRAP_GATE :: "128 word" where "TRAP_GATE \<equiv> 0xf"
abbreviation (input) INTR_GATE :: "128 word" where "INTR_GATE \<equiv> 0xe"

text \<open>\<^verbatim>\<open>struct idt_descriptor\<close>, filled the way both kinds of gate are.\<close>

definition idt_descriptor :: "128 word \<Rightarrow> u64 \<Rightarrow> 128 word \<Rightarrow> 128 word \<Rightarrow> 128 word" where
  "idt_descriptor gate addr dpl =
     set_field 64 32 (ucast (drop_bit 32 addr))
     \<circ> set_field 48 16 (ucast (drop_bit 16 addr AND 0xffff))
     \<circ> set_field 47 1 1 \<circ> set_field 45 2 dpl \<circ> set_field 40 4 gate
     \<circ> set_field 16 16 (of_nat CS_KERNEL)
     \<circ> set_field 0 16 (ucast (addr AND 0xffff))"

definition set_trap_gate :: "nat \<Rightarrow> u64 \<Rightarrow> 128 word \<Rightarrow> 'a desc_state_scheme \<Rightarrow> 'a desc_state_scheme" where
  "set_trap_gate num handler dpl s =
     s\<lparr>s_idt := (s_idt s)(num := idt_descriptor TRAP_GATE handler dpl (s_idt s num))\<rparr>"

definition set_intr_gate :: "nat \<Rightarrow> u64 \<Rightarrow> 128 word \<Rightarrow> 'a desc_state_scheme \<Rightarrow> 'a desc_state_scheme" where
  "set_intr_gate num handler dpl s =
     s\<lparr>s_idt := (s_idt s)(num := idt_descriptor INTR_GATE handler dpl (s_idt s num))\<rparr>"

definition idt_init :: "'a desc_state_scheme \<Rightarrow> 'a desc_state_scheme" where
  "idt_init s =
     (let s = s\<lparr>s_idt := (\<lambda>i. if i < 256 then 0 else s_idt s i)\<rparr>;
          s = fold (\<lambda>n s. set_trap_gate n (isr_addr s n) 0 s) [0, 3, 6, 7, 13, 14, 16, 19] s;
          s = fold (\<lambda>n s. set_intr_gate n (isr_addr s n) 0 s) [32 ..< 48] s;
          s = set_trap_gate 128 (isr_addr s 128) 3 s;
          s = s\<lparr>idtr := (256 * 16 - 1, idt_addr s)\<rparr>
      in pic_remap s)"

text \<open>What the processor reads from a gate.\<close>

definition gate_addr :: "128 word \<Rightarrow> u64" where
  "gate_addr d = ucast (get_field 0 16 d) OR push_bit 16 (ucast (get_field 48 16 d)) OR push_bit 32 (ucast (get_field 64 32 d))"

definition segment_base :: "128 word \<Rightarrow> u64" where
  "segment_base d = ucast (get_field 16 16 d) OR push_bit 16 (ucast (get_field 32 8 d)) OR push_bit 24 (ucast (get_field 56 8 d))
     OR push_bit 32 (ucast (get_field 64 32 d))"

section \<open>Fields\<close>

lemma bit_set_field [bit_simps]:
  fixes w :: "'a::len word"
  shows "bit (set_field off len v w) n \<longleftrightarrow>
     (if off \<le> n \<and> n < off + len then n < LENGTH('a) \<and> bit v (n - off) else bit w n)"
  using bit_imp_le_length [of w n] by (auto simp: set_field_def bit_simps)

lemma bit_get_field [bit_simps]: "bit (get_field off len w) n \<longleftrightarrow> n < len \<and> bit w (off + n)"
  by (simp add: get_field_def bit_simps)

lemma mask_const: "(x::u64) AND 0xffff = take_bit 16 x" "(x::u64) AND 0xff = take_bit 8 x" "(x::u64) AND 0xffffffff = take_bit 32 x"
  by (simp_all add: take_bit_eq_mask mask_eq_exp_minus_1)

lemma gate_addr_descriptor: "gate_addr (idt_descriptor gate addr dpl w) = addr"
  by (rule bit_eqI) (auto simp: gate_addr_def idt_descriptor_def bit_simps mask_const)

lemma get_set_same:
  fixes w :: "'a::len word"
  shows "off + len \<le> LENGTH('a) \<Longrightarrow> get_field off len (set_field off len v w) = take_bit len v"
  by (rule bit_eqI) (auto simp: bit_simps)

lemma get_set_other: "off + len \<le> off' \<or> off' + len' \<le> off \<Longrightarrow> get_field off len (set_field off' len' v w) = get_field off len w"
  by (rule bit_eqI) (auto simp: bit_simps)

lemma gate_fields:
  "get_field 16 16 (idt_descriptor gate addr dpl w) = of_nat CS_KERNEL"
  "get_field 40 4 (idt_descriptor gate addr dpl w) = take_bit 4 gate"
  "get_field 45 2 (idt_descriptor gate addr dpl w) = take_bit 2 dpl"
  "get_field 47 1 (idt_descriptor gate addr dpl w) = 1"
  by (simp_all add: idt_descriptor_def get_set_same get_set_other)

lemma field_values:
  "take_bit 4 TRAP_GATE = TRAP_GATE" "take_bit 4 INTR_GATE = INTR_GATE"
  "take_bit 2 (3::128 word) = 3" "take_bit 2 (0::128 word) = 0"
  by simp_all

lemma take_ucast_take: "take_bit n (ucast (take_bit n (b::u64)) :: 128 word) = take_bit n (ucast b)"
  by (rule bit_eqI) (auto simp: bit_simps)

lemma tss_fields:
  "get_field 16 16 (tss_segment base w) = take_bit 16 (ucast base)"
  "get_field 32 8 (tss_segment base w) = take_bit 8 (ucast (drop_bit 16 base))"
  "get_field 56 8 (tss_segment base w) = take_bit 8 (ucast (drop_bit 24 base))"
  "get_field 64 32 (tss_segment base w) = take_bit 32 (ucast (drop_bit 32 base))"
  by (simp_all add: tss_segment_def Let_def get_set_same get_set_other mask_const take_ucast_take)

lemma base_parts:
  fixes base :: u64
  shows "(ucast (take_bit 16 (ucast base :: 128 word)) :: u64) OR push_bit 16 (ucast (take_bit 8 (ucast (drop_bit 16 base) :: 128 word)))
    OR push_bit 24 (ucast (take_bit 8 (ucast (drop_bit 24 base) :: 128 word)))
    OR push_bit 32 (ucast (take_bit 32 (ucast (drop_bit 32 base) :: 128 word))) = base"
proof (rule bit_eqI)
  fix n
  assume "possible_bit TYPE(64 word) n"
  then have "n < 64" by simp
  then consider "n < 16" | "16 \<le> n \<and> n < 24" | "24 \<le> n \<and> n < 32" | "32 \<le> n \<and> n < 64" by linarith
  then show "bit ((ucast (take_bit 16 (ucast base :: 128 word)) :: u64) OR push_bit 16 (ucast (take_bit 8 (ucast (drop_bit 16 base) :: 128 word)))
    OR push_bit 24 (ucast (take_bit 8 (ucast (drop_bit 24 base) :: 128 word)))
    OR push_bit 32 (ucast (take_bit 32 (ucast (drop_bit 32 base) :: 128 word)))) n = bit base n"
    by cases (auto simp: bit_simps)
qed

lemma segment_base_tss: "segment_base (tss_segment base w) = base"
  unfolding segment_base_def tss_fields by (rule base_parts)

section \<open>The interrupt table\<close>

lemma fold_intr:
  "distinct ns \<Longrightarrow> s_idt (fold (\<lambda>n s. set_intr_gate n (isr_addr s n) 0 s) ns s) =
     (\<lambda>i. if i \<in> set ns then idt_descriptor INTR_GATE (isr_addr s i) 0 (s_idt s i) else s_idt s i)
   \<and> isr_addr (fold (\<lambda>n s. set_intr_gate n (isr_addr s n) 0 s) ns s) = isr_addr s"
  by (induction ns arbitrary: s) (auto simp: set_intr_gate_def fun_eq_iff)

lemma fold_trap:
  "distinct ns \<Longrightarrow> s_idt (fold (\<lambda>n s. set_trap_gate n (isr_addr s n) 0 s) ns s) =
     (\<lambda>i. if i \<in> set ns then idt_descriptor TRAP_GATE (isr_addr s i) 0 (s_idt s i) else s_idt s i)
   \<and> isr_addr (fold (\<lambda>n s. set_trap_gate n (isr_addr s n) 0 s) ns s) = isr_addr s"
  by (induction ns arbitrary: s) (auto simp: set_trap_gate_def fun_eq_iff)

lemma pic_remap_idt [simp]: "s_idt (pic_remap s) = s_idt s" "idtr (pic_remap s) = idtr s" "isr_addr (pic_remap s) = isr_addr s"
  by (simp_all add: pic_remap_def outb_def Let_def)

definition exception_vectors :: "nat list" where
  "exception_vectors = [0, 3, 6, 7, 13, 14, 16, 19]"

lemma vector_128: "(32::nat) \<le> 128 \<and> (128::nat) < 48 \<longleftrightarrow> False"
  by simp

lemma idt_syscall_entry:
  "s_idt (pic_remap ((set_trap_gate n a d t)\<lparr>idtr := (x, idt_addr (set_trap_gate n a d t))\<rparr>)) v
     = (if v = n then idt_descriptor TRAP_GATE a d (s_idt t v) else s_idt t v)"
  by (simp add: set_trap_gate_def)

lemma idt_init_entries:
  assumes "v < 256"
  shows "s_idt (idt_init s) v =
     (if v = 128 then idt_descriptor TRAP_GATE (isr_addr s v) 3 0
      else if 32 \<le> v \<and> v < 48 then idt_descriptor INTR_GATE (isr_addr s v) 0 0
      else if v \<in> set exception_vectors then idt_descriptor TRAP_GATE (isr_addr s v) 0 0
      else 0)"
proof -
  let ?s0 = "s\<lparr>s_idt := (\<lambda>i. if i < 256 then 0 else s_idt s i)\<rparr>"
  let ?s1 = "fold (\<lambda>n s. set_trap_gate n (isr_addr s n) 0 s) exception_vectors ?s0"
  let ?s2 = "fold (\<lambda>n s. set_intr_gate n (isr_addr s n) 0 s) [32 ..< 48] ?s1"
  have d: "distinct exception_vectors" "\<forall>i \<in> set exception_vectors. i < 32" by (simp_all add: exception_vectors_def)
  have 1: "s_idt ?s1 = (\<lambda>i. if i \<in> set exception_vectors then idt_descriptor TRAP_GATE (isr_addr s i) 0 (s_idt ?s0 i) else s_idt ?s0 i)"
    "isr_addr ?s1 = isr_addr s"
    using fold_trap [OF d(1), of ?s0] by (simp_all cong: if_cong)
  have 2: "s_idt ?s2 = (\<lambda>i. if i \<in> {32 ..< 48} then idt_descriptor INTR_GATE (isr_addr s i) 0 (s_idt ?s1 i) else s_idt ?s1 i)"
    "isr_addr ?s2 = isr_addr s"
    using fold_intr [of "[32 ..< 48]" ?s1, OF distinct_upt] unfolding 1(2) set_upt by blast+
  have 3: "s_idt (idt_init s) v = (if v = 128 then idt_descriptor TRAP_GATE (isr_addr ?s2 128) 3 (s_idt ?s2 v) else s_idt ?s2 v)"
    unfolding idt_init_def Let_def exception_vectors_def [symmetric] by (rule idt_syscall_entry)
  have 4: "s_idt ?s1 v = (if v \<in> set exception_vectors then idt_descriptor TRAP_GATE (isr_addr s v) 0 0 else 0)"
    unfolding 1 using assms by simp
  consider "v = 128" "v \<notin> set exception_vectors" | "32 \<le> v" "v < 48" "v \<noteq> 128" "v \<notin> set exception_vectors"
    | "v \<in> set exception_vectors" "v \<noteq> 128" "\<not> (32 \<le> v \<and> v < 48)"
    | "v \<noteq> 128" "\<not> (32 \<le> v \<and> v < 48)" "v \<notin> set exception_vectors"
    using d(2) by force
  then show ?thesis
    unfolding 3 2 4 by cases (simp_all only: if_True if_False atLeastLessThan_iff simp_thms vector_128)
qed

text \<open>
  C9: the interrupt table built at boot.  The gate of a vector leads to the handler of that vector,
  in the kernel code segment; the exceptions and the system call vector 128 are trap gates, the sixteen
  hardware lines are interrupt gates, so handlers of hardware start with interrupts disabled; user code
  may raise vector 128 only; every other entry is not present.
\<close>

theorem idt_vectors:
  "\<forall>v < 256. let d = s_idt (idt_init s) v in
     (if v \<in> set exception_vectors \<union> {32 ..< 48} \<union> {128}
      then gate_addr d = isr_addr s v \<and> get_field 47 1 d = 1 \<and> get_field 16 16 d = of_nat CS_KERNEL
        \<and> get_field 40 4 d = (if v \<in> {32 ..< 48} then INTR_GATE else TRAP_GATE)
        \<and> get_field 45 2 d = (if v = 128 then 3 else 0)
      else d = 0)"
proof (intro allI impI)
  fix v :: nat assume v: "v < 256"
  have ex: "v \<in> set exception_vectors \<Longrightarrow> v < 32" by (auto simp: exception_vectors_def)
  consider "v = 128" | "32 \<le> v" "v < 48" "v \<noteq> 128" | "v \<in> set exception_vectors" "\<not> (32 \<le> v \<and> v < 48)" "v \<noteq> 128"
    | "v \<noteq> 128" "\<not> (32 \<le> v \<and> v < 48)" "v \<notin> set exception_vectors"
    using ex by force
  then show "let d = s_idt (idt_init s) v in
     (if v \<in> set exception_vectors \<union> {32 ..< 48} \<union> {128}
      then gate_addr d = isr_addr s v \<and> get_field 47 1 d = 1 \<and> get_field 16 16 d = of_nat CS_KERNEL
        \<and> get_field 40 4 d = (if v \<in> {32 ..< 48} then INTR_GATE else TRAP_GATE)
        \<and> get_field 45 2 d = (if v = 128 then 3 else 0)
      else d = 0)"
    unfolding idt_init_entries [OF v]
    by cases (simp_all only: Let_def if_True if_False Un_iff insert_iff empty_iff atLeastLessThan_iff simp_thms
        gate_addr_descriptor gate_fields field_values vector_128)
qed

abbreviation (input) sample_desc :: desc_state where
  "sample_desc \<equiv> irq_state.extend sample_irq \<lparr>s_gdt = (\<lambda>_. 0), s_idt = (\<lambda>_. 0), gdtr = (0, 0), idtr = (0, 0), task_register = 0,
     tss_rsp0 = 0, gdt_addr = 0x200000, idt_addr = 0x201000, tss_addr = 0x202000, isr_addr = (\<lambda>n. 0x210000 + of_nat n)\<rparr>"

lemma idt_vectors_witness:
  "gate_addr (s_idt (idt_init sample_desc) 33) = 0x210021 \<and> get_field 45 2 (s_idt (idt_init sample_desc) 128) = 3"
proof -
  have "(33::nat) < 256" "(128::nat) < 256" by simp_all
  from idt_vectors [of sample_desc, rule_format, OF this(1)] idt_vectors [of sample_desc, rule_format, OF this(2)]
  show ?thesis by (simp add: Let_def irq_state.defs)
qed

text \<open>
  The segments built at boot.  The descriptors 1 to 4 are the flat code and data segments of the
  kernel (privilege 0) and of user code (privilege 3), and the task segment leads to the task state of
  the CPU.
\<close>

theorem gdt_segments:
  "map (s_gdt (cpu_arch_init (gdt_init s))) [0 ..< 5]
     = [0, 0x0020980000000000, 0x0000920000000000, 0x0020f80000000000, 0x0000f20000000000]
   \<and> segment_base (push_bit 64 (ucast (s_gdt (cpu_arch_init (gdt_init s)) 6)) OR ucast (s_gdt (cpu_arch_init (gdt_init s)) 5))
     = tss_addr s"
proof -
  have u: "[0 ..< 5] = [0, 1, 2, 3, 4::nat]" by (simp add: upt_rec)
  have c: "code_segment 0 0 = 0x0020980000000000" "code_segment 3 0 = 0x0020f80000000000"
    "data_segment 0 0 = 0x0000920000000000" "data_segment 3 0 = 0x0000f20000000000"
    by (simp_all add: code_segment_def data_segment_def set_field_def mask_eq_exp_minus_1)
  have j: "push_bit 64 (ucast (ucast (drop_bit 64 d) :: u64)) OR ucast (ucast d :: u64) = d" for d :: "128 word"
    by (rule bit_eqI) (auto simp: bit_simps)
  show ?thesis
    by (simp add: u c j segment_base_tss cpu_arch_init_def gdt_init_def gdt_init_cs_def gdt_init_ds_def gdt_arch_set_tss_def Let_def)
qed

end
