(* ===== verification/Objects.thy ===== *)
theory Objects
  imports Slab
begin

text \<open>
  The memory of the kernel as its clients see it: the objects of each cache and the pages that are in
  use.  \<open>memory s O U\<close> hides the slabs; the lemmas are the contract of \<^verbatim>\<open>slab_cache_alloc\<close>,
  \<^verbatim>\<open>slab_cache_free\<close>, \<^verbatim>\<open>pmm_alloc\<close> and \<^verbatim>\<open>pmm_free\<close> in these terms, which the proofs about threads, processes,
  page tables and ports rest on.
\<close>

definition mem_ok ::
  "(nat \<Rightarrow> ptr) \<Rightarrow> nat \<Rightarrow> nat \<Rightarrow> (ptr \<Rightarrow> slab) \<Rightarrow> (ptr \<Rightarrow> ptr) \<Rightarrow> (cache_id \<Rightarrow> slab_cache) \<Rightarrow> (cache_id \<Rightarrow> ptr set) \<Rightarrow> ptr set \<Rightarrow> bool" where
  "mem_ok F a n sl bf ca Ob U \<longleftrightarrow> pages_ok F a n
     \<and> (\<exists>T. caches_ok sl bf ca T \<and> pages_split U (all_pages T) (page_stack F a n) a \<and> Ob = (\<lambda>c. view_live (ca c) (T c)))"

abbreviation memory :: "'a slab_state_scheme \<Rightarrow> (cache_id \<Rightarrow> ptr set) \<Rightarrow> ptr set \<Rightarrow> bool" where
  "memory s Ob U \<equiv> locks_ok s \<and> mem_ok (s_freeTable s) (s_allocatedPageCount s) (s_freePageCount s) (slabs s) (bufs s) (caches s) Ob U"

lemma memory_iff: "memory s Ob U \<longleftrightarrow> (\<exists>T. slab_abs s T U \<and> Ob = (\<lambda>c. view_live (caches s c) (T c)))"
  by (auto simp: mem_ok_def)

lemma ready_shape: "same_shape (caches s) (caches s') \<Longrightarrow> cache_ready s' c = cache_ready s c"
  by (simp add: same_shape_def)

lemma slab_frame_pmm:
  "slab_frame s (s\<lparr>locks := L, s_allocatedPageCount := a\<rparr>)"
  "slab_frame s (s\<lparr>locks := L, s_allocatedPageCount := a, s_freeTable := F\<rparr>)"
  "slab_frame s (s\<lparr>locks := L\<rparr>)"
  by (simp_all add: slab_frame_def)

lemma memory_pages: "memory s Ob U \<Longrightarrow> finite U \<and> U \<inter> set (free_stack s) = {} \<and> card U \<le> s_allocatedPageCount s"
proof -
  assume "memory s Ob U"
  then obtain T where "pages_split U (all_pages T) (free_stack s) (s_allocatedPageCount s)" by (auto simp: mem_ok_def)
  then have s: "finite (U \<union> all_pages T)" "U \<inter> set (free_stack s) = {}" "card (U \<union> all_pages T) = s_allocatedPageCount s"
    by (auto simp: pages_split_def)
  have "card U \<le> card (U \<union> all_pages T)" using s(1) by (intro card_mono) auto
  then show ?thesis using s by simp
qed

lemma alloc_object:
  assumes m: "memory s Ob U" and r: "cache_ready s c"
  shows "\<exists>p s'. slab_cache_alloc c s = Some (p, s') \<and> slab_frame s s' \<and> same_shape (caches s) (caches s')
    \<and> memory s' (if p = NULL then Ob else Ob(c := insert p (Ob c))) U
    \<and> (if p = NULL then free_stack s = [] else p \<notin> Ob c)"
proof -
  obtain T where T: "slab_abs s T U" "Ob = (\<lambda>c. view_live (caches s c) (T c))" using m unfolding memory_iff by blast
  obtain p s' A where a: "slab_cache_alloc c s = Some (p, s')" "slab_abs s' (T(c := A)) U" "slab_frame s s'"
    "same_shape (caches s) (caches s')"
    and p: "if p = NULL then A = T c \<and> parts (T c) = [] \<and> free_stack s = []
       else p \<notin> view_live (caches s c) (T c) \<and> view_live (caches s c) A = insert p (view_live (caches s c) (T c))"
    using slab_alloc_ok [OF T(1) r] by blast
  have "(if p = NULL then Ob else Ob(c := insert p (Ob c))) = (\<lambda>d. view_live (caches s' d) ((T(c := A)) d))"
    using p by (auto simp: T(2) view_live_shape [OF a(4)] fun_eq_iff split: if_splits)
  then have "memory s' (if p = NULL then Ob else Ob(c := insert p (Ob c))) U" using a(2) unfolding memory_iff by blast
  then show ?thesis using a p by (intro exI [of _ p] exI [of _ s']) (auto simp: T(2) split: if_splits)
qed

lemma free_object:
  assumes m: "memory s Ob U" and r: "cache_ready s c" and x: "x \<in> Ob c"
  shows "\<exists>s'. slab_cache_free c x s = Some s' \<and> slab_frame s s' \<and> same_shape (caches s) (caches s')
    \<and> memory s' (Ob(c := Ob c - {x})) U"
proof -
  obtain T where T: "slab_abs s T U" "Ob = (\<lambda>c. view_live (caches s c) (T c))" using m unfolding memory_iff by blast
  obtain s' A where a: "slab_cache_free c x s = Some s'" "slab_abs s' (T(c := A)) U" "slab_frame s s'" "same_shape (caches s) (caches s')"
    "view_live (caches s c) A = view_live (caches s c) (T c) - {x}"
    using slab_cache_free_ok [OF T(1) r] x T(2) by blast
  have "Ob(c := Ob c - {x}) = (\<lambda>d. view_live (caches s' d) ((T(c := A)) d))"
    using a(5) by (auto simp: T(2) view_live_shape [OF a(4)] fun_eq_iff)
  then show ?thesis using a unfolding memory_iff by blast
qed

lemma alloc_page:
  assumes m: "memory s Ob U"
  shows "\<exists>p s'. pmm_alloc s = Some (p, s') \<and> slab_frame s s' \<and> caches s' = caches s
    \<and> memory s' Ob (if p = 0 then U else insert p U)
    \<and> (if p = 0 then free_stack s = [] else usable_page p \<and> p \<notin> U \<and> free_stack s = p # free_stack s')"
proof -
  obtain T where T: "slab_abs s T U" "Ob = (\<lambda>c. view_live (caches s c) (T c))" using m unfolding memory_iff by blast
  show ?thesis
  proof (cases "free_stack s")
    case Nil
    then have "pmm_alloc s = Some (0, s\<lparr>locks := lock_used PMM_LOCK s\<rparr>)" using pmm_alloc_empty T(1) by blast
    then show ?thesis using m Nil by (simp add: slab_frame_pmm)
  next
    case (Cons p ps)
    let ?s = "s\<lparr>locks := lock_used PMM_LOCK s, s_allocatedPageCount := s_allocatedPageCount s + 1\<rparr>"
    have run: "pmm_alloc s = Some (p, ?s)" using pmm_alloc_some Cons T(1) by blast
    have ok: "pages_ok (s_freeTable s) (Suc (s_allocatedPageCount s)) (s_freePageCount s)" "usable_page p" "p \<notin> set ps"
      using pages_ok_pop [of "s_freeTable s" "s_allocatedPageCount s" "s_freePageCount s" p ps] Cons T(1) by blast+
    have st: "free_stack ?s = ps" using Cons by (simp add: page_stack_eq_Cons)
    have "pages_split (all_pages T) U (p # ps) (s_allocatedPageCount s)" using T(1) Cons by (auto simp: pages_split_def Un_commute)
    then have "pages_split (all_pages T) (insert p U) ps (Suc (s_allocatedPageCount s))" using pages_split_pop ok(3) by blast
    then have sp: "pages_split (insert p U) (all_pages T) (free_stack ?s) (s_allocatedPageCount ?s)"
      unfolding st by (auto simp: pages_split_def Un_commute)
    have "p \<notin> U" using T(1) Cons by (auto simp: pages_split_def)
    moreover have "slab_abs ?s T (insert p U)" using T(1) ok sp by simp
    then have "memory ?s Ob (insert p U)" unfolding memory_iff T(2) by auto
    ultimately show ?thesis using run ok(2) usable_nonzero [OF ok(2)] Cons st slab_frame_pmm(1)
      by (intro exI [of _ p] exI [of _ ?s]) simp
  qed
qed

lemma free_page:
  assumes m: "memory s Ob U" and p: "p \<in> U" "usable_page p"
  shows "\<exists>s'. pmm_free p s = Some s' \<and> slab_frame s s' \<and> caches s' = caches s \<and> memory s' Ob (U - {p})
    \<and> free_stack s' = p # free_stack s"
proof -
  obtain T where T: "slab_abs s T U" "Ob = (\<lambda>c. view_live (caches s c) (T c))" using m unfolding memory_iff by blast
  have "0 < card U" using p(1) memory_pages [OF m] by (auto simp: card_gt_0_iff)
  then obtain k where k: "s_allocatedPageCount s = Suc k" using memory_pages [OF m] by (cases "s_allocatedPageCount s") auto
  let ?F = "(s_freeTable s)(k := p)"
  let ?s = "s\<lparr>locks := lock_used PMM_LOCK s, s_allocatedPageCount := k, s_freeTable := ?F\<rparr>"
  have run: "pmm_free p s = Some ?s" using pmm_free_ok [OF _ _ k] T(1) p(2) by (simp add: usable_page_def)
  have nin: "p \<notin> set (free_stack s)" using p(1) memory_pages [OF m] by blast
  have ok: "pages_ok ?F k (s_freePageCount s)" using T(1) k p(2) nin by (simp add: pages_ok_push)
  have st: "page_stack ?F k (s_freePageCount s) = p # free_stack s"
    using T(1) k by (simp add: page_stack_push pages_ok_def)
  have "pages_split (all_pages T) U (free_stack s) (Suc k)" using T(1) k by (auto simp: pages_split_def Un_commute)
  then have "pages_split (all_pages T) (U - {p}) (p # free_stack s) k" by (rule pages_split_push [OF _ p(1)])
  then have "pages_split (U - {p}) (all_pages T) (free_stack ?s) (s_allocatedPageCount ?s)"
    using st by (auto simp: pages_split_def Un_commute)
  then have "slab_abs ?s T (U - {p})" using T(1) ok by simp
  then have "memory ?s Ob (U - {p})" unfolding memory_iff T(2) by auto
  then show ?thesis using run st slab_frame_pmm(2) by (intro exI [of _ ?s]) simp
qed

text \<open>
  The pages that are not in slabs are determined: a page more in use, taken and not given back, is a different
  situation.
\<close>

lemma view_pages_unique:
  assumes "cache_ok sl bf c ca A" and "cache_ok sl bf c ca B"
  shows "view_pages A = view_pages B"
proof (cases "slab_size ca = 0")
  case True
  then show ?thesis using assms by (simp add: cache_ok_def view_pages_def)
next
  case False
  have l: "linked (slab_next \<circ> sl) (slab_full ca) (map slab_at (fulls A))" "linked (slab_next \<circ> sl) (slab_full ca) (map slab_at (fulls B))"
    "linked (slab_next \<circ> sl) (slab_partial ca) (map (slab_at \<circ> fst) (parts A))"
    "linked (slab_next \<circ> sl) (slab_partial ca) (map (slab_at \<circ> fst) (parts B))"
    using False assms by (simp_all add: cache_ok_def)
  have f: "map slab_at (fulls A) = map slab_at (fulls B)" by (rule linked_unique [OF l(1,2)])
  have "map (slab_at \<circ> fst) (parts A) = map (slab_at \<circ> fst) (parts B)" by (rule linked_unique [OF l(3,4)])
  then have p: "map slab_at (map fst (parts A)) = map slab_at (map fst (parts B))" by simp
  have "inj slab_at" by (simp add: inj_def)
  then have "fulls A = fulls B" "map fst (parts A) = map fst (parts B)" using f p by (simp_all only: inj_map_eq_map)
  then have "set (fulls A) = set (fulls B)" "fst ` set (parts A) = fst ` set (parts B)" by (simp, metis set_map)
  then show ?thesis by (simp add: view_pages_def)
qed

lemma memory_unique:
  assumes m: "memory s Ob U" and m': "memory s Ob' U'" and sub: "U \<subseteq> U'"
  shows "U' = U"
proof -
  obtain T where T: "slab_abs s T U" using m unfolding memory_iff by blast
  obtain T' where T': "slab_abs s T' U'" using m' unfolding memory_iff by blast
  have "view_pages (T' c) = view_pages (T c)" for c using T T' view_pages_unique unfolding caches_ok_def by metis
  then have v: "all_pages T' = all_pages T" by (simp add: all_pages_def)
  have "finite (U' \<union> all_pages T)" "card (U' \<union> all_pages T) = card (U \<union> all_pages T)" "U' \<inter> all_pages T = {}"
    using T T' unfolding v pages_split_def by auto
  moreover from this have "U \<union> all_pages T = U' \<union> all_pages T" using sub by (intro card_subset_eq) auto
  ultimately show ?thesis using sub by blast
qed

text \<open>A cache that has been initialised is ready and has no objects.\<close>

lemma init_cache:
  assumes m: "memory s Ob U" and new: "slab_size (caches s c) = 0" and sz: "0 < unat osz" "unat osz \<le> 4056"
  shows "\<exists>s'. slab_cache_init c osz s = Some s' \<and> memory s' Ob U \<and> cache_ready s' c \<and> Ob c = {}
    \<and> (\<forall>d. d \<noteq> c \<longrightarrow> caches s' d = caches s d) \<and> s' = s\<lparr>locks := locks s', caches := caches s'\<rparr> \<and> osz \<le> obj_size (caches s' c)"
proof -
  obtain T where T: "slab_abs s T U" "Ob = (\<lambda>c. view_live (caches s c) (T c))" using m unfolding memory_iff by blast
  obtain s' where s': "slab_cache_init c osz s = Some s'" "slab_abs s' T U" "cache_ready s' c" "view_live (caches s' c) (T c) = {}"
    "\<forall>d. d \<noteq> c \<longrightarrow> caches s' d = caches s d" "s' = s\<lparr>locks := locks s', caches := caches s'\<rparr>" "osz \<le> obj_size (caches s' c)"
    using slab_cache_init_ok [OF T(1) new sz] by blast
  have "cache_ok (slabs s) (bufs s) c (caches s c) (T c)" using T(1) by (simp add: caches_ok_def)
  then have "view_live (caches s c) (T c) = {}" using new by (simp add: cache_ok_def view_live_def)
  then have "Ob = (\<lambda>d. view_live (caches s' d) (T d))" "Ob c = {}"
    using s'(4,5) by (auto simp: T(2) fun_eq_iff)
  then show ?thesis using s' unfolding memory_iff by blast
qed

end
