(* ===== verification/Allocation.thy ===== *)
theory Allocation
  imports Objects
begin

text \<open>
  The slab allocator and the physical memory manager as their clients use them: caches are initialised, objects
  and pages are allocated and given back, in any order, from a state without caches on.  Each operation runs
  with interrupts off, so a run of the system is a sequence of them.
\<close>

section \<open>Runs\<close>

text \<open>
  \<open>alloc_run s L Z U\<close>: the state \<open>s\<close> is reached, \<open>L c\<close> are the objects that were handed out by the cache \<open>c\<close> and
  not given back, \<open>Z c\<close> is the size that was asked for when \<open>c\<close> was initialised, and \<open>U\<close> are the pages that were
  handed out and not given back.  A client only gives back what it was given.
\<close>

inductive alloc_run :: "'a slab_state_scheme \<Rightarrow> (cache_id \<Rightarrow> ptr set) \<Rightarrow> (cache_id \<Rightarrow> nat) \<Rightarrow> ptr set \<Rightarrow> bool" where
  start: "pmm_inv s \<Longrightarrow> s_allocatedPageCount s = 0 \<Longrightarrow> \<forall>c. slab_size (caches s c) = 0 \<Longrightarrow> alloc_run s (\<lambda>_. {}) (\<lambda>_. 0) {}"
| init: "alloc_run s L Z U \<Longrightarrow> slab_size (caches s c) = 0 \<Longrightarrow> 0 < unat sz \<Longrightarrow> unat sz \<le> 4056 \<Longrightarrow>
    slab_cache_init c sz s = Some s' \<Longrightarrow> alloc_run s' L (Z(c := unat sz)) U"
| alloc: "alloc_run s L Z U \<Longrightarrow> cache_ready s c \<Longrightarrow> slab_cache_alloc c s = Some (x, s') \<Longrightarrow>
    alloc_run s' (if x = NULL then L else L(c := insert x (L c))) Z U"
| free: "alloc_run s L Z U \<Longrightarrow> x \<in> L c \<Longrightarrow> slab_cache_free c x s = Some s' \<Longrightarrow> alloc_run s' (L(c := L c - {x})) Z U"
| page: "alloc_run s L Z U \<Longrightarrow> pmm_alloc s = Some (p, s') \<Longrightarrow> alloc_run s' L Z (if p = 0 then U else insert p U)"
| page_back: "alloc_run s L Z U \<Longrightarrow> p \<in> U \<Longrightarrow> pmm_free p s = Some s' \<Longrightarrow> alloc_run s' L Z (U - {p})"

text \<open>The objects of the run are the live objects of the caches, which are big enough.\<close>

definition run_ok :: "'a slab_state_scheme \<Rightarrow> (cache_id \<Rightarrow> ptr set) \<Rightarrow> (cache_id \<Rightarrow> nat) \<Rightarrow> ptr set \<Rightarrow> bool" where
  "run_ok s L Z U \<longleftrightarrow> memory s L U \<and> (\<forall>p \<in> U. usable_page p) \<and> (\<forall>c. L c \<noteq> {} \<longrightarrow> cache_ready s c)
     \<and> (\<forall>c. cache_ready s c \<longrightarrow> Z c \<le> unat (obj_size (caches s c)))"

lemma run_ok_shape:
  assumes "run_ok s L Z U" and "same_shape (caches s) (caches s')" and "memory s' L' U'"
    and "\<forall>p \<in> U'. usable_page p" and "\<forall>c. L' c \<noteq> {} \<longrightarrow> cache_ready s c"
  shows "run_ok s' L' Z U'"
  using assms unfolding run_ok_def same_shape_def by auto

lemma alloc_run_ok: "alloc_run s L Z U \<Longrightarrow> run_ok s L Z U"
proof (induction rule: alloc_run.induct)
  case (start s)
  have "caches_ok (slabs s) (bufs s) (caches s) (\<lambda>_. \<lparr>fulls = [], parts = []\<rparr>)" using start(3) by (simp add: caches_ok_def cache_ok_def)
  then have "slab_abs s (\<lambda>_. \<lparr>fulls = [], parts = []\<rparr>) {}"
    using start(1,2) by (simp add: pages_split_def all_pages_def view_pages_def)
  moreover have "(\<lambda>_. {}) = (\<lambda>c. view_live (caches s c) \<lparr>fulls = [], parts = []\<rparr>)" by (simp add: view_live_def)
  ultimately have "memory s (\<lambda>_. {}) {}" unfolding memory_iff by blast
  then show ?case using start(3) by (simp add: run_ok_def)
next
  case (init s L Z U c sz s')
  then have m: "memory s L U" by (simp add: run_ok_def)
  obtain t where t: "slab_cache_init c sz s = Some t" "memory t L U" "cache_ready t c" "\<forall>d. d \<noteq> c \<longrightarrow> caches t d = caches s d"
    "sz \<le> obj_size (caches t c)"
    using init_cache [OF m init(2,3,4)] by blast
  have "Z d \<le> unat (obj_size (caches t d))" if "d \<noteq> c" "cache_ready t d" for d
    using init.IH that t(4) by (simp add: run_ok_def)
  moreover have "cache_ready t d" if "L d \<noteq> {}" for d
    using init.IH that t(3,4) by (cases "d = c") (simp_all add: run_ok_def)
  moreover have "unat sz \<le> unat (obj_size (caches t c))" using t(5) by (simp add: word_le_nat_alt)
  ultimately show ?case using init.IH init.hyps(5) t by (auto simp: run_ok_def)
next
  case (alloc s L Z U c x s')
  then have "memory s L U" "cache_ready s c" by (simp_all add: run_ok_def)
  from alloc_object [OF this] alloc(3)
  have "same_shape (caches s) (caches s')" "memory s' (if x = NULL then L else L(c := insert x (L c))) U" by auto
  then show ?case using alloc.IH alloc(2) by (intro run_ok_shape [OF alloc.IH]) (auto simp: run_ok_def)
next
  case (free s L Z U x c s')
  then have "memory s L U" "cache_ready s c" by (auto simp: run_ok_def)
  from free_object [OF this free(2)] free(3)
  have f: "same_shape (caches s) (caches s')" "memory s' (L(c := L c - {x})) U" by auto
  show ?case using free.IH by (intro run_ok_shape [OF free.IH f]) (auto simp: run_ok_def split: if_splits)
next
  case (page s L Z U p s')
  then have "memory s L U" by (simp add: run_ok_def)
  from alloc_page [OF this] page(2)
  have "caches s' = caches s" "memory s' L (if p = 0 then U else insert p U)" "p \<noteq> 0 \<longrightarrow> usable_page p" by (auto split: if_splits)
  then show ?case using page.IH by (intro run_ok_shape [OF page.IH]) (auto simp: run_ok_def)
next
  case (page_back s L Z U p s')
  then have "memory s L U" "usable_page p" by (auto simp: run_ok_def)
  from free_page [OF this(1) page_back(2) this(2)] page_back(3)
  have "caches s' = caches s" "memory s' L (U - {p})" by auto
  then show ?case using page_back.IH by (intro run_ok_shape [OF page_back.IH]) (auto simp: run_ok_def)
qed

section \<open>Property\<close>


section \<open>Witness\<close>

text \<open>Two caches whose objects fill half a slab, on a machine with four pages, and an object of each.\<close>

abbreviation (input) sample_empty :: slab_state where
  "sample_empty \<equiv> sample_slabs\<lparr>s_freeTable := (\<lambda>i. 0x1000 + of_nat i * 0x1000), s_freePageCount := 4, s_allocatedPageCount := 0,
     caches := (\<lambda>_. \<lparr>slab_size = 0, obj_size = 0, obj_per_slab = 0, slab_full = NULL, slab_partial = NULL\<rparr>)\<rparr>"

definition sample_allocs :: "(ptr \<times> ptr \<times> slab_state) option" where
  "sample_allocs = do {
     s \<leftarrow> slab_cache_init THREAD_CACHE 2000 sample_empty;
     s \<leftarrow> slab_cache_init ENTRY_CACHE 1500 s;
     (x, s) \<leftarrow> slab_cache_alloc THREAD_CACHE s;
     (y, s) \<leftarrow> slab_cache_alloc ENTRY_CACHE s;
     Some (x, y, s)
   }"

lemma slab_fill_two: "slab_fill 2 osz p fl b = (p + osz, b(p := fl, p + osz := p))"
  by (simp add: numeral_2_eq_2)

lemma sample_locks_ok:
  "addrs_ok sample_locks" "addrs_ok L \<Longrightarrow> addrs_ok (L(k := \<lparr>sl_addr = 0, locked = w, int_state = i\<rparr>))"
  by (simp_all add: addrs_ok_def)

lemma sample_allocs_objects: "map_option (\<lambda>(x, y, s). (x, y)) sample_allocs = Some (PHYS_MAP_BASE + 0x17d0, PHYS_MAP_BASE + 0x25e0)"
  by (simp add: sample_allocs_def slab_cache_init_def slab_cache_alloc_def slab_refill_def slab_create_def slab_pop_def
     pmm_alloc_def vmm_provide_phys_def slab_fill_two op_simps Let_def sample_locks_ok spinlock_init_def)

text \<open>A cache that was just initialised can be used, and so can the others as before.\<close>

lemma run_init_ready:
  assumes run: "alloc_run s L Z U" and c: "slab_size (caches s c) = 0" "0 < unat sz" "unat sz \<le> 4056" and i: "slab_cache_init c sz s = Some s'"
  shows "cache_ready s' c" and "d \<noteq> c \<Longrightarrow> caches s' d = caches s d"
proof -
  have "memory s L U" using alloc_run_ok [OF run] by (simp add: run_ok_def)
  from init_cache [OF this c] i show "cache_ready s' c" "d \<noteq> c \<Longrightarrow> caches s' d = caches s d" by auto
qed


end
