(* ===== verification/Thread.thy ===== *)
theory Thread
  imports Descriptors ThreadQueue MemMap Objects
begin

text \<open>
  Threads and the scheduler: \<^verbatim>\<open>kernel/proc/thread.c\<close>, \<^verbatim>\<open>kernel/proc/sched.c\<close>, \<^verbatim>\<open>kernel/cpu/cpu.c\<close> and the
  architecture's \<^verbatim>\<open>proc/thread.c\<close>, \<^verbatim>\<open>proc/sched.c\<close> and \<^verbatim>\<open>asm/sched.S\<close>.  A function that gives up the
  CPU (\<^verbatim>\<open>sched_yield\<close>) ends in the state after the switch, in which another thread is running;
  what the thread does when it is resumed is a function of its own.
\<close>

section \<open>Data\<close>

datatype thread_state = CREATED | SLEEPING | READY | RUNNING | DEAD

record thread =
  t_id :: u32
  t_name :: "u8 list"
  t_proc :: ptr
  t_state :: thread_state
  kernel_stack :: ptr
  kernel_stack_size :: u64
  user_stack :: ptr
  user_stack_size :: u64
  t_arch_data :: ptr

abbreviation (input) THREAD_NAME_SIZE :: nat where
  "THREAD_NAME_SIZE \<equiv> 32"

text \<open>\<^verbatim>\<open>struct process\<close>; its mutex is \<open>VMM_MUTEX p\<close> of the process at \<open>p\<close>.\<close>

record process =
  p_id :: u32
  p_name :: "u8 list"
  p_free_map :: memory_map
  p_arch_data :: ptr

record mutex =
  locker :: ptr
  waiters :: threadqueue

text \<open>The registers as an interrupt saves them; 22 words.\<close>

record irq_context =
  r15 :: u64
  r14 :: u64
  r13 :: u64
  r12 :: u64
  r11 :: u64
  r10 :: u64
  r9 :: u64
  r8 :: u64
  rbp :: u64
  rdi :: u64
  rsi :: u64
  rdx :: u64
  rcx :: u64
  rbx :: u64
  rax :: u64
  int_num :: u64
  err_code :: u64
  ip :: u64
  cs :: u64
  rflags :: u64
  rsp :: u64
  ss :: u64

abbreviation (input) sizeof_irq_context :: u64 where
  "sizeof_irq_context \<equiv> 176"

definition zero_context :: irq_context where
  "zero_context = \<lparr>r15 = 0, r14 = 0, r13 = 0, r12 = 0, r11 = 0, r10 = 0, r9 = 0, r8 = 0, rbp = 0, rdi = 0, rsi = 0,
     rdx = 0, rcx = 0, rbx = 0, rax = 0, int_num = 0, err_code = 0, ip = 0, cs = 0, rflags = 0, rsp = 0, ss = 0\<rparr>"

text \<open>
  The links of the thread queues (\<^verbatim>\<open>sched_next\<close>) are the function \<open>sched_link\<close>; \<open>arch_rsp\<close> and \<open>arch_cr3\<close>
  are \<^verbatim>\<open>struct amd64_thread\<close> and \<^verbatim>\<open>struct amd64_process\<close>, \<open>irq_ctxs\<close> the contexts saved on stacks and
  \<open>stack_words\<close> the return addresses there.  \<open>text_addr\<close> is where the linker puts a function.
  \<open>cpu_regs\<close> is the register file; of what compiled code does with it only the switch is modelled.
\<close>

record sched_state = desc_state +
  threads :: "ptr \<Rightarrow> thread"
  sched_link :: "ptr \<Rightarrow> ptr"
  arch_rsp :: "ptr \<Rightarrow> u64"
  irq_ctxs :: "ptr \<Rightarrow> irq_context"
  stack_words :: "ptr \<Rightarrow> u64"
  text_addr :: "kfun \<Rightarrow> u64"
  cpu_regs :: irq_context
  cr3 :: u64
  thread_idle :: ptr
  thread_current :: ptr
  s_ready_queue :: threadqueue
  s_next_thread_id :: u32
  s_thread_table :: "u32 hashtable"
  s_cleanup_queue :: threadqueue
  s_cleaner_thread :: ptr
  processes :: "ptr \<Rightarrow> process"
  arch_cr3 :: "ptr \<Rightarrow> u64"
  mutexes :: "mutex_id \<Rightarrow> mutex"

text \<open>An assignment to members of the thread at \<open>t\<close>.\<close>

definition set_thread :: "ptr \<Rightarrow> (thread \<Rightarrow> thread) \<Rightarrow> 'a sched_state_scheme \<Rightarrow> 'a sched_state_scheme" where
  "set_thread t f s = s\<lparr>threads := (threads s)(t := f (threads s t))\<rparr>"

section \<open>The scheduler\<close>

text \<open>A NULL thread faults at its first member.\<close>

definition sched_add_ready :: "ptr \<Rightarrow> 'a sched_state_scheme \<Rightarrow> 'a sched_state_scheme option" where
  "sched_add_ready t s = do {
     s \<leftarrow> spinlock_disable SCHED_LOCK s;
     let s = set_thread t (\<lambda>x. x\<lparr>t_state := READY\<rparr>) s;
     (q, link) \<leftarrow> threadqueue_add (s_ready_queue s) t (sched_link s);
     Some (spinunlock_enable SCHED_LOCK (s\<lparr>s_ready_queue := q, sched_link := link\<rparr>))
   }"

definition sched_next :: "ptr \<Rightarrow> 'a sched_state_scheme \<Rightarrow> (ptr \<times> 'a sched_state_scheme) option" where
  "sched_next cur s = do {
     s \<leftarrow> spinlock_disable SCHED_LOCK s;
     s \<leftarrow> (if cur \<noteq> NULL \<and> cur \<noteq> thread_idle s then
             (case t_state (threads s cur) of
                RUNNING \<Rightarrow> sched_add_ready cur s
              | SLEEPING \<Rightarrow> Some s
              | DEAD \<Rightarrow> Some s
              | _ \<Rightarrow> None)
           else Some s);
     let (next, q) = threadqueue_pop (s_ready_queue s) (sched_link s);
     let s = s\<lparr>s_ready_queue := q\<rparr>;
     let next = (if next = NULL then thread_idle s else next);
     if next = NULL then None
     else
       let s = s\<lparr>thread_current := next\<rparr>;
           s = set_thread next (\<lambda>x. x\<lparr>t_state := RUNNING\<rparr>) s
       in Some (next, spinunlock_enable SCHED_LOCK s)
   }"

definition cpu_set_cr3 :: "u64 \<Rightarrow> 'a sched_state_scheme \<Rightarrow> 'a sched_state_scheme" where
  "cpu_set_cr3 v s = s\<lparr>cr3 := v\<rparr>"

text \<open>\<^verbatim>\<open>sched_arch_switch_to\<close> loads the registers saved at \<open>p\<close> and returns from the interrupt.\<close>

definition sched_arch_switch_to :: "u64 \<Rightarrow> 'a sched_state_scheme \<Rightarrow> 'a sched_state_scheme" where
  "sched_arch_switch_to p s = s\<lparr>cpu_regs := irq_ctxs s p, int_flag := bit (rflags (irq_ctxs s p)) 9\<rparr>"

definition sched_irq :: "ptr \<Rightarrow> 'a sched_state_scheme \<Rightarrow> 'a sched_state_scheme option" where
  "sched_irq ctx s = do {
     let s = pic_send_eoi 0 s;
     let cur = thread_current s;
     let s = (if cur \<noteq> NULL then s\<lparr>arch_rsp := (arch_rsp s)(t_arch_data (threads s cur) := ctx)\<rparr> else s);
     (next, s) \<leftarrow> sched_next cur s;
     let n = threads s next;
     let s = s\<lparr>tss_rsp0 := kernel_stack n + kernel_stack_size n\<rparr>;
     let s = (if t_proc n \<noteq> NULL then cpu_set_cr3 (arch_cr3 s (p_arch_data (processes s (t_proc n)))) s else s);
     Some (sched_arch_switch_to (arch_rsp s (t_arch_data n)) s)
   }"

text \<open>
  \<^verbatim>\<open>sched_yield\<close> (assembly) pops its return address, pushes the context an interrupt at this place
  would have saved and enters the scheduler.
\<close>

definition sched_yield :: "'a sched_state_scheme \<Rightarrow> 'a sched_state_scheme option" where
  "sched_yield s =
     (let r = cpu_regs s;
          ret = stack_words s (rsp r);
          sp = rsp r + 8;
          flags = (if int_flag s then rflags r OR 0x200 else rflags r AND NOT 0x200);
          ctx = r\<lparr>ss := of_nat DS_KERNEL, rsp := sp, rflags := flags, cs := of_nat CS_KERNEL, ip := ret,
                  err_code := 0, int_num := 0, rax := ret, rcx := sp\<rparr>;
          p = sp - sizeof_irq_context
      in sched_irq p (s\<lparr>irq_ctxs := (irq_ctxs s)(p := ctx)\<rparr>))"

definition sched_arch_init :: "'a sched_state_scheme \<Rightarrow> 'a sched_state_scheme" where
  "sched_arch_init s = snd (irq_register 0 SCHED_IRQ NULL s)"

section \<open>Sleeping and waking\<close>

definition thread_sleep :: "'a sched_state_scheme \<Rightarrow> 'a sched_state_scheme option" where
  "thread_sleep s =
     (let (_, s) = cpu_arch_disable_int s;
          s = set_thread (thread_current s) (\<lambda>x. x\<lparr>t_state := SLEEPING\<rparr>) s
      in sched_yield s)"

definition thread_wake_up :: "ptr \<Rightarrow> 'a sched_state_scheme \<Rightarrow> (int \<times> 'a sched_state_scheme) option" where
  "thread_wake_up t s = do {
     s \<leftarrow> sched_add_ready t s;
     Some (0, s)
   }"

section \<open>Creation and destruction\<close>

definition thread_arch_create :: "ptr \<Rightarrow> 'a sched_state_scheme \<Rightarrow> (int \<times> 'a sched_state_scheme) option" where
  "thread_arch_create t s = do {
     (arch_t, s) \<leftarrow> slab_cache_alloc ARCH_THREAD_CACHE s;
     if arch_t = NULL then Some (-1, s)
     else
       let s = s\<lparr>arch_rsp := (arch_rsp s)(arch_t := 0)\<rparr>
       in Some (0, set_thread t (\<lambda>x. x\<lparr>t_arch_data := arch_t\<rparr>) s)
   }"

definition thread_arch_destroy :: "ptr \<Rightarrow> 'a sched_state_scheme \<Rightarrow> 'a sched_state_scheme option" where
  "thread_arch_destroy t s = slab_cache_free ARCH_THREAD_CACHE (t_arch_data (threads s t)) s"

definition thread_arch_create_kernel :: "ptr \<Rightarrow> u64 \<Rightarrow> u64 \<Rightarrow> 'a sched_state_scheme \<Rightarrow> int \<times> 'a sched_state_scheme" where
  "thread_arch_create_kernel t entry arg s =
     (let p = kernel_stack (threads s t) + kernel_stack_size (threads s t);
          p = p - 8;
          s = s\<lparr>stack_words := (stack_words s)(p := text_addr s THREAD_EXIT)\<rparr>;
          p = p - sizeof_irq_context;
          ctx = zero_context\<lparr>rdi := arg, cs := of_nat CS_KERNEL, ip := entry, rflags := 0x200 OR 0x3000,
                  rsp := p + sizeof_irq_context, ss := of_nat DS_KERNEL\<rparr>;
          s = s\<lparr>irq_ctxs := (irq_ctxs s)(p := ctx)\<rparr>
      in (0, s\<lparr>arch_rsp := (arch_rsp s)(t_arch_data (threads s t) := p)\<rparr>))"

definition thread_arch_create_user :: "ptr \<Rightarrow> u64 \<Rightarrow> u64 \<Rightarrow> 'a sched_state_scheme \<Rightarrow> int \<times> 'a sched_state_scheme" where
  "thread_arch_create_user t entry arg s =
     (let p = kernel_stack (threads s t) + kernel_stack_size (threads s t);
          p = p - sizeof_irq_context;
          ctx = zero_context\<lparr>rdi := arg, cs := of_nat CS_USER OR 3, ip := entry, rflags := 0x200 OR 0x3000,
                  rsp := user_stack (threads s t) + user_stack_size (threads s t), ss := of_nat DS_USER OR 3\<rparr>;
          s = s\<lparr>irq_ctxs := (irq_ctxs s)(p := ctx)\<rparr>
      in (0, s\<lparr>arch_rsp := (arch_rsp s)(t_arch_data (threads s t) := p)\<rparr>))"

definition thread_arch_init :: "'a sched_state_scheme \<Rightarrow> 'a sched_state_scheme option" where
  "thread_arch_init s = slab_cache_init ARCH_THREAD_CACHE 8 s"

definition thread_item_key :: "(ptr \<Rightarrow> thread) \<Rightarrow> ptr \<Rightarrow> u32" where
  "thread_item_key th item = t_id (th item)"

text \<open>The end of \<^verbatim>\<open>thread_create\<close>: the new thread gets the next id and goes into the table of all threads.\<close>

definition thread_register :: "ptr \<Rightarrow> 'a sched_state_scheme \<Rightarrow> 'a sched_state_scheme option" where
  "thread_register t s = do {
     s \<leftarrow> spinlock_disable THREAD_LOCK s;
     let s = set_thread t (\<lambda>x. x\<lparr>t_id := s_next_thread_id s\<rparr>) s;
     let s = s\<lparr>s_next_thread_id := s_next_thread_id s + 1\<rparr>;
     (tab, s) \<leftarrow> hashtable_add (thread_item_key (threads s)) (s_thread_table s) t s;
     Some (spinunlock_enable THREAD_LOCK (s\<lparr>s_thread_table := tab\<rparr>))
   }"

text \<open>
  \<^verbatim>\<open>thread_create\<close>; the error path \<open>err2\<close> frees the thread, \<open>err3\<close> the page of its stack before that.  The
  name is cut to what fits in front of the terminating zero.
\<close>

definition thread_create :: "u8 list \<Rightarrow> 'a sched_state_scheme \<Rightarrow> (ptr \<times> 'a sched_state_scheme) option" where
  "thread_create name s = do {
     (t, s) \<leftarrow> slab_cache_alloc THREAD_CACHE s;
     if t = NULL then Some (NULL, s)
     else do {
       (p, s) \<leftarrow> pmm_alloc s;
       if p = 0 then do {
         s \<leftarrow> slab_cache_free THREAD_CACHE t s;
         Some (NULL, s)
       }
       else do {
         v \<leftarrow> vmm_provide_phys p;
         let s = set_thread t (\<lambda>x. x\<lparr>kernel_stack := v\<rparr>) s;
         (r, s) \<leftarrow> thread_arch_create t s;
         if r \<noteq> 0 then do {
           s \<leftarrow> pmm_free p s;
           s \<leftarrow> slab_cache_free THREAD_CACHE t s;
           Some (NULL, s)
         }
         else do {
           let s = set_thread t (\<lambda>x. x\<lparr>t_id := -1, t_state := CREATED, t_proc := NULL, kernel_stack_size := PAGE_SIZE,
                     user_stack := NULL, user_stack_size := 0, t_name := take (THREAD_NAME_SIZE - 1) name\<rparr>) s;
           s \<leftarrow> thread_register t s;
           Some (t, s)
         }
       }
     }
   }"

definition thread_destroy :: "ptr \<Rightarrow> 'a sched_state_scheme \<Rightarrow> 'a sched_state_scheme option" where
  "thread_destroy t s = do {
     p \<leftarrow> vmm_revert_phys (kernel_stack (threads s t));
     s \<leftarrow> pmm_free p s;
     s \<leftarrow> thread_arch_destroy t s;
     slab_cache_free THREAD_CACHE t s
   }"

definition thread_create_kernel :: "u8 list \<Rightarrow> u64 \<Rightarrow> u64 \<Rightarrow> 'a sched_state_scheme \<Rightarrow> (ptr \<times> 'a sched_state_scheme) option" where
  "thread_create_kernel name entry arg s = do {
     (t, s) \<leftarrow> thread_create name s;
     if t = NULL then Some (NULL, s)
     else do {
       let (r, s) = thread_arch_create_kernel t entry arg s;
       if r \<noteq> 0 then do {
         s \<leftarrow> thread_destroy t s;
         Some (NULL, s)
       }
       else Some (t, s)
     }
   }"

definition thread_create_user ::
  "ptr \<Rightarrow> u8 list \<Rightarrow> u64 \<Rightarrow> u64 \<Rightarrow> u64 \<Rightarrow> u64 \<Rightarrow> 'a sched_state_scheme \<Rightarrow> (ptr \<times> 'a sched_state_scheme) option" where
  "thread_create_user p name entry arg stack stack_size s = do {
     (t, s) \<leftarrow> thread_create name s;
     if t = NULL then Some (NULL, s)
     else do {
       let s = set_thread t (\<lambda>x. x\<lparr>t_proc := p\<rparr>) s;
       let s = set_thread t (\<lambda>x. x\<lparr>user_stack := stack, user_stack_size := stack_size\<rparr>) s;
       let (r, s) = thread_arch_create_user t entry arg s;
       if r \<noteq> 0 then do {
         s \<leftarrow> thread_destroy t s;
         Some (NULL, s)
       }
       else Some (t, s)
     }
   }"

text \<open>\<^verbatim>\<open>thread_exit\<close> ends in the switch to the next thread; the loop behind it is never reached.\<close>

definition thread_exit :: "'a sched_state_scheme \<Rightarrow> 'a sched_state_scheme option" where
  "thread_exit s = do {
     s \<leftarrow> spinlock_disable CLEANUP_LOCK s;
     let t = thread_current s;
     let s = set_thread t (\<lambda>x. x\<lparr>t_state := DEAD\<rparr>) s;
     (q, link) \<leftarrow> threadqueue_add (s_cleanup_queue s) t (sched_link s);
     let s = s\<lparr>s_cleanup_queue := q, sched_link := link\<rparr>;
     let s = spinunlock CLEANUP_LOCK s;
     (_, s) \<leftarrow> thread_wake_up (s_cleaner_thread s) s;
     sched_yield s
   }"

definition sys_thread_exit :: "u32 \<Rightarrow> 'a sched_state_scheme \<Rightarrow> 'a sched_state_scheme option" where
  "sys_thread_exit code s = thread_exit s"

definition sys_thread_get_statistics :: "'a sched_state_scheme \<Rightarrow> (int \<times> nat \<times> 'a sched_state_scheme) option" where
  "sys_thread_get_statistics s = do {
     s \<leftarrow> spinlock_disable THREAD_LOCK s;
     let number = hashtable_size (s_thread_table s);
     Some (0, number, spinunlock_enable THREAD_LOCK s)
   }"

text \<open>
  One turn of the endless loop of \<^verbatim>\<open>thread_cleaner\<close>: the dead thread it took (it is not destroyed
  yet), or NULL and the cleaner sleeps until the next turn.
\<close>

definition thread_cleaner :: "'a sched_state_scheme \<Rightarrow> (ptr \<times> 'a sched_state_scheme) option" where
  "thread_cleaner s = do {
     s \<leftarrow> spinlock_disable CLEANUP_LOCK s;
     let (t, q) = threadqueue_pop (s_cleanup_queue s) (sched_link s);
     let s = spinunlock_enable CLEANUP_LOCK (s\<lparr>s_cleanup_queue := q\<rparr>);
     if t = NULL then do {
       s \<leftarrow> thread_sleep s;
       Some (NULL, s)
     }
     else Some (t, s)
   }"

text \<open>"cleaner" and "idle" in ASCII.\<close>

definition thread_init :: "'a sched_state_scheme \<Rightarrow> 'a sched_state_scheme option" where
  "thread_init s = do {
     s \<leftarrow> thread_arch_init s;
     (tab, s) \<leftarrow> hashtable_init (s_thread_table s) hashtable_hash_int hashtable_compare_int s;
     let s = s\<lparr>s_thread_table := tab\<rparr>;
     s \<leftarrow> slab_cache_init THREAD_CACHE 112 s;
     let s = s\<lparr>s_cleanup_queue := threadqueue_init (s_cleanup_queue s)\<rparr>;
     (t, s) \<leftarrow> thread_create_kernel [99, 108, 101, 97, 110, 101, 114] (text_addr s THREAD_CLEANER) NULL s;
     Some (s\<lparr>s_cleaner_thread := t\<rparr>)
   }"

definition sched_init :: "'a sched_state_scheme \<Rightarrow> 'a sched_state_scheme option" where
  "sched_init s = do {
     let s = sched_arch_init s;
     (t, s) \<leftarrow> thread_create_kernel [105, 100, 108, 101] (text_addr s SCHED_IDLE_THREAD) NULL s;
     Some (s\<lparr>thread_idle := t\<rparr>)
   }"

section \<open>The ready queue\<close>

lemma sched_add_ready_ok:
  assumes "locks_ok s" and "queued (sched_link s) (s_ready_queue s) ts" and "t \<noteq> NULL" and "t \<notin> set ts"
  shows "\<exists>q link. sched_add_ready t s = Some (s\<lparr>threads := (threads s)(t := (threads s t)\<lparr>t_state := READY\<rparr>),
      s_ready_queue := q, sched_link := link, locks := lock_used SCHED_LOCK s\<rparr>)
    \<and> threadqueue_add (s_ready_queue s) t (sched_link s) = Some (q, link)
    \<and> queued link q (ts @ [t]) \<and> (\<forall>x. x \<notin> set ts \<longrightarrow> x \<noteq> t \<longrightarrow> link x = sched_link s x)"
proof -
  obtain q link where "threadqueue_add (s_ready_queue s) t (sched_link s) = Some (q, link)"
    "queued link q (ts @ [t])" "\<forall>x. x \<notin> set ts \<longrightarrow> x \<noteq> t \<longrightarrow> link x = sched_link s x"
    using threadqueue_add_ok [OF assms(2-4)] by blast
  then show ?thesis
    by (intro exI [of _ q] exI [of _ link]) (simp add: sched_add_ready_def set_thread_def op_simps assms(1))
qed

text \<open>The thread \<^verbatim>\<open>sched_next\<close> gives the CPU to, and the queue it leaves.\<close>

definition sched_pick :: "ptr \<Rightarrow> ptr list \<Rightarrow> ptr \<times> ptr list" where
  "sched_pick idle ts = (case ts of [] \<Rightarrow> (idle, []) | t # ts \<Rightarrow> (t, ts))"

lemma sched_pop_ok:
  assumes "queued link q ts" and "idle \<noteq> NULL"
  shows "\<exists>q' t. threadqueue_pop q link = (t, q') \<and> (if t = NULL then idle else t) = fst (sched_pick idle ts)
    \<and> queued link q' (snd (sched_pick idle ts))"
proof (cases ts)
  case Nil
  then show ?thesis using threadqueue_pop_Nil [of link q] assms by (auto simp: sched_pick_def)
next
  case (Cons t us)
  then show ?thesis using threadqueue_pop_Cons [of link q t us] queued_distinct [OF assms(1)] assms(1)
    by (auto simp: sched_pick_def)
qed

text \<open>What the scheduler keeps: a proper queue of ready threads, the running thread not among them.\<close>

definition sched_inv :: "'a sched_state_scheme \<Rightarrow> ptr list \<Rightarrow> bool" where
  "sched_inv s ts \<longleftrightarrow> locks_ok s \<and> queued (sched_link s) (s_ready_queue s) ts \<and> (\<forall>t \<in> set ts. t_state (threads s t) = READY)
     \<and> thread_idle s \<noteq> NULL \<and> thread_idle s \<notin> set ts \<and> thread_current s \<notin> set ts"

text \<open>The threads that can run, in the order they will: the running one last if it stays ready.\<close>

definition stays_ready :: "'a sched_state_scheme \<Rightarrow> ptr \<Rightarrow> bool" where
  "stays_ready s c \<longleftrightarrow> c \<noteq> NULL \<and> c \<noteq> thread_idle s \<and> t_state (threads s c) = RUNNING"

definition sched_order :: "'a sched_state_scheme \<Rightarrow> ptr \<Rightarrow> ptr list \<Rightarrow> ptr list" where
  "sched_order s c ts = (if stays_ready s c then ts @ [c] else ts)"

abbreviation (input) sched_choice :: "'a sched_state_scheme \<Rightarrow> ptr \<Rightarrow> ptr list \<Rightarrow> ptr \<times> ptr list" where
  "sched_choice s c ts \<equiv> sched_pick (thread_idle s) (sched_order s c ts)"

text \<open>The states of all threads after the switch from \<open>c\<close> to \<open>n\<close>.\<close>

definition switched :: "'a sched_state_scheme \<Rightarrow> ptr \<Rightarrow> ptr \<Rightarrow> ptr \<Rightarrow> thread" where
  "switched s c n x =
     (if x = n then (threads s x)\<lparr>t_state := RUNNING\<rparr>
      else if x = c \<and> stays_ready s c then (threads s x)\<lparr>t_state := READY\<rparr>
      else threads s x)"

lemma switched_fields [simp]:
  "t_arch_data (switched s c n x) = t_arch_data (threads s x)" "kernel_stack (switched s c n x) = kernel_stack (threads s x)"
  "kernel_stack_size (switched s c n x) = kernel_stack_size (threads s x)" "t_proc (switched s c n x) = t_proc (threads s x)"
  "t_state (switched s c n n) = RUNNING"
  by (simp_all add: switched_def)

definition can_switch :: "'a sched_state_scheme \<Rightarrow> ptr \<Rightarrow> bool" where
  "can_switch s c \<longleftrightarrow> c = NULL \<or> c = thread_idle s \<or> t_state (threads s c) \<in> {RUNNING, SLEEPING, DEAD}"

lemma sched_next_ok:
  assumes lk: "locks_ok s" and q: "queued (sched_link s) (s_ready_queue s) ts" and idle: "thread_idle s \<noteq> NULL"
    and c: "can_switch s c" "c \<notin> set ts"
  shows "\<exists>q link L b. sched_next c s = Some (fst (sched_choice s c ts),
      s\<lparr>threads := switched s c (fst (sched_choice s c ts)), s_ready_queue := q, sched_link := link,
        thread_current := fst (sched_choice s c ts), locks := L, int_flag := b\<rparr>)
    \<and> queued link q (snd (sched_choice s c ts)) \<and> addrs_ok L
    \<and> (stays_ready s c \<longrightarrow> tq.turn (c, s_ready_queue s, sched_link s) = Some (fst (sched_choice s c ts), q, link))
    \<and> (\<forall>x. x \<notin> set ts \<longrightarrow> x \<noteq> c \<or> \<not> stays_ready s c \<longrightarrow> link x = sched_link s x)"
proof (cases "stays_ready s c")
  case True
  let ?s = "s\<lparr>int_flag := False, locks := lock_held SCHED_LOCK (int_flag s) (locks s)\<rparr>"
  have cc: "c \<noteq> NULL" "c \<noteq> thread_idle s" "t_state (threads s c) = RUNNING" using True by (simp_all add: stays_ready_def)
  obtain q1 link where add: "sched_add_ready c ?s = Some (?s\<lparr>threads := (threads s)(c := (threads s c)\<lparr>t_state := READY\<rparr>),
      s_ready_queue := q1, sched_link := link, locks := lock_used SCHED_LOCK ?s\<rparr>)"
    and q1: "threadqueue_add (s_ready_queue s) c (sched_link s) = Some (q1, link)" "queued link q1 (ts @ [c])" "\<forall>x. x \<notin> set ts \<longrightarrow> x \<noteq> c \<longrightarrow> link x = sched_link s x"
    using sched_add_ready_ok [of ?s ts c] lk q c cc by auto
  obtain q2 t where pop: "threadqueue_pop q1 link = (t, q2)" "(if t = NULL then thread_idle s else t) = fst (sched_pick (thread_idle s) (ts @ [c]))"
    "queued link q2 (snd (sched_pick (thread_idle s) (ts @ [c])))"
    using sched_pop_ok [OF q1(2) idle] by blast
  have n: "fst (sched_pick (thread_idle s) (ts @ [c])) \<noteq> NULL" unfolding pop(2) [symmetric] using idle by auto
  have ch: "sched_choice s c ts = sched_pick (thread_idle s) (ts @ [c])" using True by (simp add: sched_order_def)
  have th: "switched s c n = ((threads s)(c := (threads s c)\<lparr>t_state := READY\<rparr>))
      (n := (((threads s)(c := (threads s c)\<lparr>t_state := READY\<rparr>)) n)\<lparr>t_state := RUNNING\<rparr>)" for n
    using True by (auto simp: switched_def)
  let ?n = "fst (sched_pick (thread_idle s) (ts @ [c]))"
  have "sched_next c s = Some (?n, s\<lparr>threads := switched s c ?n, s_ready_queue := q2, sched_link := link, thread_current := ?n,
      locks := lock_released SCHED_LOCK (lock_used SCHED_LOCK ?s), int_flag := False\<rparr>)"
    using cc n by (simp add: sched_next_def op_simps set_thread_def th Let_def lk add pop(1,2) split del: if_split cong: if_cong)
  moreover have "addrs_ok (lock_released SCHED_LOCK (lock_used SCHED_LOCK ?s))" using lk by simp
  moreover have "t = ?n"
    using pop(1) threadqueue_pop_Cons [of link q1 "hd (ts @ [c])" "tl (ts @ [c])"] q1(2) pop(2) queued_distinct [OF q1(2)]
    by (auto simp: sched_pick_def split: list.splits)
  then have "tq.turn (c, s_ready_queue s, sched_link s) = Some (?n, q2, link)"
    by (simp add: tq.turn_def q1(1) pop(1))
  ultimately show ?thesis using pop(3) q1(3) True unfolding ch by blast
next
  case False
  obtain q2 t where pop: "threadqueue_pop (s_ready_queue s) (sched_link s) = (t, q2)"
    "(if t = NULL then thread_idle s else t) = fst (sched_pick (thread_idle s) ts)"
    "queued (sched_link s) q2 (snd (sched_pick (thread_idle s) ts))"
    using sched_pop_ok [OF q idle] by blast
  have n: "fst (sched_pick (thread_idle s) ts) \<noteq> NULL" unfolding pop(2) [symmetric] using idle by auto
  have ch: "sched_choice s c ts = sched_pick (thread_idle s) ts" using False by (simp add: sched_order_def)
  have th: "switched s c n = (threads s)(n := (threads s n)\<lparr>t_state := RUNNING\<rparr>)" for n
    using False by (auto simp: switched_def)
  have skip: "(if c \<noteq> NULL \<and> c \<noteq> thread_idle s then
             (case t_state (threads s c) of
                RUNNING \<Rightarrow> f
              | SLEEPING \<Rightarrow> x
              | DEAD \<Rightarrow> x
              | _ \<Rightarrow> None)
           else x) = x" for f x
    using False c(1) by (auto simp: stays_ready_def can_switch_def)
  let ?n = "fst (sched_pick (thread_idle s) ts)"
  have "sched_next c s = Some (?n, s\<lparr>threads := switched s c ?n, s_ready_queue := q2, sched_link := sched_link s,
      thread_current := ?n, locks := lock_used SCHED_LOCK s, int_flag := int_flag s\<rparr>)"
    using n by (simp add: sched_next_def op_simps set_thread_def th Let_def lk pop(1,2) skip split del: if_split cong: if_cong)
  moreover have "addrs_ok (lock_used SCHED_LOCK s)" using lk by simp
  ultimately show ?thesis using pop(3) False unfolding ch by blast
qed

text \<open>
  The invariant is kept by a switch, whatever the running thread was doing: a thread is in the
  ready queue after it only if it was there or was running.
\<close>

lemma set_sched_order: "set (sched_order s c ts) = (if stays_ready s c then insert c (set ts) else set ts)"
  by (simp add: sched_order_def)

lemma sched_pick_set: "distinct us \<Longrightarrow> set (snd (sched_pick i us)) = set us - {fst (sched_pick i us)} \<or> us = []"
  by (auto simp: sched_pick_def split: list.splits)

lemma sched_irq_ok:
  assumes inv: "sched_inv s ts" and c: "can_switch s (thread_current s)"
  defines "n \<equiv> fst (sched_choice s (thread_current s) ts)" and "us \<equiv> snd (sched_choice s (thread_current s) ts)"
  shows "\<exists>s'. sched_irq ctx s = Some s' \<and> sched_inv s' us \<and> thread_current s' = n \<and> thread_idle s' = thread_idle s
    \<and> threads s' = switched s (thread_current s) n
    \<and> (stays_ready s (thread_current s) \<longrightarrow> tq.turn (thread_current s, s_ready_queue s, sched_link s) = Some (n, s_ready_queue s', sched_link s'))
    \<and> tss_rsp0 s' = kernel_stack (threads s n) + kernel_stack_size (threads s n)
    \<and> cpu_regs s' = irq_ctxs s (if thread_current s \<noteq> NULL \<and> t_arch_data (threads s n) = t_arch_data (threads s (thread_current s)) then ctx
                                 else arch_rsp s (t_arch_data (threads s n)))
    \<and> (thread_current s \<noteq> NULL \<longrightarrow> arch_rsp s' (t_arch_data (threads s (thread_current s))) = ctx)
    \<and> mutexes s' = mutexes s
    \<and> (\<forall>x. x \<notin> set ts \<longrightarrow> x \<noteq> thread_current s \<or> \<not> stays_ready s (thread_current s) \<longrightarrow> sched_link s' x = sched_link s x)
    \<and> cr3 s' = (if t_proc (threads s n) \<noteq> NULL then arch_cr3 s (p_arch_data (processes s (t_proc (threads s n)))) else cr3 s)"
proof -
  let ?c = "thread_current s"
  let ?e = "pic_send_eoi 0 s"
  let ?s = "if ?c \<noteq> NULL then ?e\<lparr>arch_rsp := (arch_rsp s)(t_arch_data (threads s ?c) := ctx)\<rparr> else ?e"
  have eoi: "?e = s\<lparr>io_out := io_out s @ [(PIC_MASTER_CMD, 0x20)]\<rparr>" by (simp add: pic_send_eoi_def outb_def)
  have f: "locks ?s = locks s" "sched_link ?s = sched_link s" "s_ready_queue ?s = s_ready_queue s" "thread_idle ?s = thread_idle s"
    "threads ?s = threads s" "thread_current ?s = ?c" "irq_ctxs ?s = irq_ctxs s" "processes ?s = processes s" "arch_cr3 ?s = arch_cr3 s"
    "cr3 ?s = cr3 s"
    by (simp_all add: eoi)
  have same: "stays_ready ?s = stays_ready s" "switched ?s = switched s" "can_switch ?s = can_switch s"
    by (simp_all add: stays_ready_def can_switch_def switched_def fun_eq_iff f(4,5))
  have ord: "sched_order ?s = sched_order s" by (simp add: sched_order_def fun_eq_iff same)
  have i: "locks_ok s" "queued (sched_link s) (s_ready_queue s) ts" "\<forall>t \<in> set ts. t_state (threads s t) = READY"
    "thread_idle s \<noteq> NULL" "thread_idle s \<notin> set ts" "?c \<notin> set ts"
    using inv by (simp_all add: sched_inv_def)
  obtain q link L b where nx: "sched_next ?c ?s = Some (n, ?s\<lparr>threads := switched s ?c n, s_ready_queue := q, sched_link := link,
      thread_current := n, locks := L, int_flag := b\<rparr>)" and q: "queued link q us" and L: "addrs_ok L"
    and li: "\<forall>x. x \<notin> set ts \<longrightarrow> x \<noteq> ?c \<or> \<not> stays_ready s ?c \<longrightarrow> link x = sched_link s x"
    and turn: "stays_ready s ?c \<longrightarrow> tq.turn (?c, s_ready_queue s, sched_link s) = Some (n, q, link)"
    using sched_next_ok [of ?s ts ?c] i c unfolding f same ord n_def us_def by blast
  have d: "distinct (sched_order s ?c ts)" "thread_idle s \<notin> set (sched_order s ?c ts)"
    using queued_distinct [OF i(2)] i(5,6) by (auto simp: sched_order_def stays_ready_def)
  then have us: "set us \<subseteq> set (sched_order s ?c ts)" "n \<notin> set us" "thread_idle s \<notin> set us"
    unfolding n_def us_def by (auto simp: sched_pick_def split: list.splits)
  have ready: "t_state (switched s ?c n t) = READY" if "t \<in> set us" for t
    using that us(1,2) i(3) by (auto simp: switched_def set_sched_order split: if_splits)
  have "\<exists>s'. sched_irq ctx s = Some s' \<and> locks s' = L \<and> sched_link s' = link \<and> s_ready_queue s' = q \<and> thread_current s' = n
      \<and> thread_idle s' = thread_idle s \<and> threads s' = switched s ?c n \<and> mutexes s' = mutexes s
      \<and> tss_rsp0 s' = kernel_stack (threads s n) + kernel_stack_size (threads s n)
      \<and> cpu_regs s' = irq_ctxs s (if ?c \<noteq> NULL \<and> t_arch_data (threads s n) = t_arch_data (threads s ?c) then ctx else arch_rsp s (t_arch_data (threads s n)))
      \<and> (?c \<noteq> NULL \<longrightarrow> arch_rsp s' (t_arch_data (threads s ?c)) = ctx)
      \<and> cr3 s' = (if t_proc (threads s n) \<noteq> NULL then arch_cr3 s (p_arch_data (processes s (t_proc (threads s n)))) else cr3 s)"
    unfolding sched_irq_def Let_def using nx
    by (cases "?c = NULL"; cases "t_proc (threads s n) = NULL")
      (simp_all add: eoi cpu_set_cr3_def sched_arch_switch_to_def)
  then show ?thesis using q L i(4) us ready turn li unfolding sched_inv_def by fastforce
qed

section \<open>Threads and memory\<close>

text \<open>What the memory management leaves alone in the state of the threads.\<close>

lemma slab_frame_sched:
  assumes "slab_frame s s'"
  shows "threads s' = threads s" "s_thread_table s' = s_thread_table s" "buckets s' = buckets s" "hnext s' = hnext s"
    "sched_link s' = sched_link s" "s_ready_queue s' = s_ready_queue s" "thread_current s' = thread_current s"
    "thread_idle s' = thread_idle s" "s_next_thread_id s' = s_next_thread_id s" "arch_rsp s' = arch_rsp s" "irq_ctxs s' = irq_ctxs s"
    "stack_words s' = stack_words s" "mutexes s' = mutexes s" "processes s' = processes s" "int_flag s' = int_flag s"
    "arch_cr3 s' = arch_cr3 s" "s_freePageCount s' = s_freePageCount s" "text_addr s' = text_addr s"
  using assms by (auto elim!: slab_frameE)

lemma thread_arch_create_ok:
  assumes m: "memory s Ob U" and r: "cache_ready s ARCH_THREAD_CACHE"
  shows "\<exists>a s'. thread_arch_create t s = Some (if a = NULL then -1 else 0,
        s'\<lparr>arch_rsp := if a = NULL then arch_rsp s else (arch_rsp s)(a := 0),
           threads := if a = NULL then threads s else (threads s)(t := (threads s t)\<lparr>t_arch_data := a\<rparr>)\<rparr>)
    \<and> slab_frame s s' \<and> same_shape (caches s) (caches s')
    \<and> memory s' (if a = NULL then Ob else Ob(ARCH_THREAD_CACHE := insert a (Ob ARCH_THREAD_CACHE))) U
    \<and> (a \<noteq> NULL \<longrightarrow> a \<notin> Ob ARCH_THREAD_CACHE)"
proof -
  obtain a s' where a: "slab_cache_alloc ARCH_THREAD_CACHE s = Some (a, s')" "slab_frame s s'" "same_shape (caches s) (caches s')"
    "memory s' (if a = NULL then Ob else Ob(ARCH_THREAD_CACHE := insert a (Ob ARCH_THREAD_CACHE))) U"
    "if a = NULL then free_stack s = [] else a \<notin> Ob ARCH_THREAD_CACHE"
    using alloc_object [OF m r] by blast
  note fr = slab_frame_sched [OF a(2)]
  have "thread_arch_create t s = Some (if a = NULL then -1 else 0,
        s'\<lparr>arch_rsp := if a = NULL then arch_rsp s else (arch_rsp s)(a := 0),
           threads := if a = NULL then threads s else (threads s)(t := (threads s t)\<lparr>t_arch_data := a\<rparr>)\<rparr>)"
    using fr by (simp add: thread_arch_create_def a(1) set_thread_def)
  then show ?thesis using a by (intro exI [of _ a] exI [of _ s']) (auto split: if_splits)
qed

text \<open>The table of all threads: its items are live threads.\<close>

abbreviation threads_ok :: "'a sched_state_scheme \<Rightarrow> (cache_id \<Rightarrow> ptr set) \<Rightarrow> bool" where
  "threads_ok s Ob \<equiv> table_ok (thread_item_key (threads s)) (s_thread_table s) (buckets s) (hnext s)
     \<and> table_items (s_thread_table s) (buckets s) (hnext s) \<subseteq> Ob THREAD_CACHE"

definition new_thread :: "u8 list \<Rightarrow> u32 \<Rightarrow> ptr \<Rightarrow> ptr \<Rightarrow> thread" where
  "new_thread name i v a = \<lparr>t_id = i, t_name = take (THREAD_NAME_SIZE - 1) name, t_proc = NULL, t_state = CREATED,
     kernel_stack = v, kernel_stack_size = PAGE_SIZE, user_stack = NULL, user_stack_size = 0, t_arch_data = a\<rparr>"

lemma thread_register_ok:
  assumes tab: "threads_ok s Ob" and t: "t \<noteq> NULL" "t \<notin> Ob THREAD_CACHE" and L: "locks_ok s"
  defines "th \<equiv> (threads s)(t := (threads s t)\<lparr>t_id := s_next_thread_id s\<rparr>)"
  shows "\<exists>tab nx bk. thread_register t s = Some (s\<lparr>threads := th, s_next_thread_id := s_next_thread_id s + 1, hnext := nx,
             buckets := bk, s_thread_table := tab, locks := lock_used THREAD_LOCK s\<rparr>)
    \<and> table_ok (thread_item_key th) tab bk nx \<and> table_items tab bk nx = insert t (table_items (s_thread_table s) (buckets s) (hnext s))
    \<and> table_view (thread_item_key th) tab bk nx = (table_view (thread_item_key (threads s)) (s_thread_table s) (buckets s) (hnext s))
        (s_next_thread_id s := t # table_view (thread_item_key (threads s)) (s_thread_table s) (buckets s) (hnext s) (s_next_thread_id s))"
proof -
  let ?s = "s\<lparr>int_flag := False, locks := lock_held THREAD_LOCK (int_flag s) (locks s), threads := th, s_next_thread_id := s_next_thread_id s + 1\<rparr>"
  have nin: "t \<notin> table_items (s_thread_table s) (buckets s) (hnext s)" using tab t by auto
  have key: "thread_item_key th x = thread_item_key (threads s) x" if "x \<in> table_items (s_thread_table s) (buckets s) (hnext s)" for x
    using that nin by (auto simp: thread_item_key_def th_def)
  have ok: "table_ok (thread_item_key th) (s_thread_table ?s) (buckets ?s) (hnext ?s)"
    using table_key_cong(1) [OF conjunct1 [OF tab] key] by simp
  have view: "table_view (thread_item_key th) (s_thread_table s) (buckets s) (hnext s)
      = table_view (thread_item_key (threads s)) (s_thread_table s) (buckets s) (hnext s)"
    using table_key_cong(2) [OF conjunct1 [OF tab] key] .
  obtain nx bk where add: "hashtable_add (thread_item_key th) (s_thread_table s) t ?s
      = Some ((s_thread_table s)\<lparr>ht_items := ht_items (s_thread_table s) + 1\<rparr>, ?s\<lparr>hnext := nx, buckets := bk\<rparr>)"
    and post: "table_ok (thread_item_key th) ((s_thread_table s)\<lparr>ht_items := ht_items (s_thread_table s) + 1\<rparr>) bk nx"
      "table_view (thread_item_key th) ((s_thread_table s)\<lparr>ht_items := ht_items (s_thread_table s) + 1\<rparr>) bk nx
        = (table_view (thread_item_key th) (s_thread_table s) (buckets s) (hnext s))
          (thread_item_key th t := t # table_view (thread_item_key th) (s_thread_table s) (buckets s) (hnext s) (thread_item_key th t))"
      "table_items ((s_thread_table s)\<lparr>ht_items := ht_items (s_thread_table s) + 1\<rparr>) bk nx = insert t (table_items (s_thread_table s) (buckets s) (hnext s))"
    using hashtable_add_ok [OF ok t(1)] nin by (auto simp: Let_def)
  have k: "thread_item_key th t = s_next_thread_id s" by (simp add: thread_item_key_def th_def)
  show ?thesis
    using add post k view L
    by (intro exI [of _ "(s_thread_table s)\<lparr>ht_items := ht_items (s_thread_table s) + 1\<rparr>"] exI [of _ nx] exI [of _ bk])
      (simp add: thread_register_def op_simps set_thread_def th_def)
qed

text \<open>The last step: the new thread gets its id and can be found under it.\<close>

lemma thread_enroll_ok:
  assumes tab: "threads_ok s Ob" and t: "t \<noteq> NULL" "t \<notin> Ob THREAD_CACHE" and m: "memory s Ob' U"
    and sub: "insert t (Ob THREAD_CACHE) \<subseteq> Ob' THREAD_CACHE" and nt: "threads s t = new_thread name i v a"
  shows "\<exists>s'. thread_register t s = Some s' \<and> memory s' Ob' U \<and> threads_ok s' Ob' \<and> caches s' = caches s
    \<and> threads s' = (threads s)(t := new_thread name (s_next_thread_id s) v a)
    \<and> hashtable_get (thread_item_key (threads s')) (s_thread_table s') (s_next_thread_id s) s' = Some t
    \<and> s_next_thread_id s' = s_next_thread_id s + 1 \<and> arch_rsp s' = arch_rsp s
    \<and> sched_link s' = sched_link s \<and> s_ready_queue s' = s_ready_queue s \<and> thread_current s' = thread_current s"
proof -
  let ?th = "(threads s)(t := (threads s t)\<lparr>t_id := s_next_thread_id s\<rparr>)"
  obtain T nx bk where reg: "thread_register t s = Some (s\<lparr>threads := ?th, s_next_thread_id := s_next_thread_id s + 1, hnext := nx,
      buckets := bk, s_thread_table := T, locks := lock_used THREAD_LOCK s\<rparr>)"
    and ok: "table_ok (thread_item_key ?th) T bk nx" "table_items T bk nx = insert t (table_items (s_thread_table s) (buckets s) (hnext s))"
    and view: "table_view (thread_item_key ?th) T bk nx (s_next_thread_id s)
      = t # table_view (thread_item_key (threads s)) (s_thread_table s) (buckets s) (hnext s) (s_next_thread_id s)"
    using thread_register_ok [of s Ob t, OF tab t conjunct1 [OF m]] by auto
  let ?s = "s\<lparr>threads := ?th, s_next_thread_id := s_next_thread_id s + 1, hnext := nx, buckets := bk, s_thread_table := T,
      locks := lock_used THREAD_LOCK s\<rparr>"
  have th: "?th = (threads s)(t := new_thread name (s_next_thread_id s) v a)" by (simp add: nt new_thread_def)
  have "hashtable_get (thread_item_key (threads ?s)) (s_thread_table ?s) (s_next_thread_id s) ?s = Some t"
    using hashtable_get_ok [of "thread_item_key (threads ?s)" "s_thread_table ?s" ?s "s_next_thread_id s"] ok(1) view by simp
  moreover have "table_items T bk nx \<subseteq> Ob' THREAD_CACHE" using ok(2) tab sub by auto
  ultimately show ?thesis using reg ok(1) m unfolding th by (intro exI [of _ ?s, unfolded th]) simp
qed

text \<open>The error paths of \<^verbatim>\<open>thread_create\<close> give back what was taken.\<close>

lemma thread_undo_ok:
  assumes m: "memory s (Ob(THREAD_CACHE := insert t (Ob THREAD_CACHE))) U" and t: "t \<notin> Ob THREAD_CACHE" and r: "cache_ready s THREAD_CACHE"
  shows "\<exists>s'. slab_cache_free THREAD_CACHE t s = Some s' \<and> slab_frame s s' \<and> same_shape (caches s) (caches s') \<and> memory s' Ob U"
proof -
  have "(Ob(THREAD_CACHE := insert t (Ob THREAD_CACHE)))(THREAD_CACHE := insert t (Ob THREAD_CACHE) - {t}) = Ob" using t by auto
  then show ?thesis using free_object [OF m r, of t] by simp
qed

lemma thread_undo_page_ok:
  assumes m: "memory s (Ob(THREAD_CACHE := insert t (Ob THREAD_CACHE))) (insert p U)" and t: "t \<notin> Ob THREAD_CACHE" and p: "p \<notin> U" "usable_page p"
    and r: "cache_ready s THREAD_CACHE"
  shows "\<exists>s1 s'. pmm_free p s = Some s1 \<and> slab_cache_free THREAD_CACHE t s1 = Some s' \<and> slab_frame s s' \<and> same_shape (caches s) (caches s')
    \<and> memory s' Ob U"
proof -
  obtain s1 where s1: "pmm_free p s = Some s1" "slab_frame s s1" "caches s1 = caches s" "memory s1 (Ob(THREAD_CACHE := insert t (Ob THREAD_CACHE))) U"
    using free_page [OF m _ p(2)] p(1) by auto
  then show ?thesis using thread_undo_ok [OF s1(4) t] r slab_frame_trans [OF s1(2)] by auto
qed

text \<open>The threads a state has, as the clients of \<^verbatim>\<open>thread_create\<close> see it; \<open>t\<close> is new in \<open>s'\<close>.\<close>

definition thread_added ::
  "'a sched_state_scheme \<Rightarrow> (cache_id \<Rightarrow> ptr set) \<Rightarrow> ptr set \<Rightarrow> u8 list \<Rightarrow> ptr \<Rightarrow> 'a sched_state_scheme \<Rightarrow> ptr \<Rightarrow> ptr \<Rightarrow> bool" where
  "thread_added s Ob U name t s' p a \<longleftrightarrow> usable_page p \<and> p \<notin> U \<and> t \<notin> Ob THREAD_CACHE \<and> a \<notin> Ob ARCH_THREAD_CACHE
     \<and> memory s' (Ob(THREAD_CACHE := insert t (Ob THREAD_CACHE), ARCH_THREAD_CACHE := insert a (Ob ARCH_THREAD_CACHE))) (insert p U)
     \<and> threads_ok s' (Ob(THREAD_CACHE := insert t (Ob THREAD_CACHE), ARCH_THREAD_CACHE := insert a (Ob ARCH_THREAD_CACHE)))
     \<and> threads s' = (threads s)(t := new_thread name (s_next_thread_id s) (PHYS_MAP_BASE + p) a)
     \<and> hashtable_get (thread_item_key (threads s')) (s_thread_table s') (s_next_thread_id s) s' = Some t
     \<and> s_next_thread_id s' = s_next_thread_id s + 1 \<and> arch_rsp s' a = 0"

abbreviation (input) sched_same :: "'a sched_state_scheme \<Rightarrow> 'a sched_state_scheme \<Rightarrow> bool" where
  "sched_same s s' \<equiv> sched_link s' = sched_link s \<and> s_ready_queue s' = s_ready_queue s \<and> thread_current s' = thread_current s
     \<and> same_shape (caches s) (caches s')"

lemma new_thread_fields:
  "(x :: thread)\<lparr>kernel_stack := v, t_arch_data := b, t_id := -1, t_state := CREATED, t_proc := NULL,
     kernel_stack_size := PAGE_SIZE, user_stack := NULL, user_stack_size := 0, t_name := take (THREAD_NAME_SIZE - 1) name\<rparr>
   = new_thread name (-1) v b"
  by (simp add: new_thread_def)

lemma threads_ok_outside:
  assumes "threads_ok s Ob" and "t \<notin> Ob THREAD_CACHE"
  shows "table_ok (thread_item_key ((threads s)(t := x))) (s_thread_table s) (buckets s) (hnext s)"
  using assms by (intro table_key_cong(1) [OF conjunct1 [OF assms(1)]]) (auto simp: thread_item_key_def)

lemma thread_create_ok:
  assumes m: "memory s Ob U" and r: "cache_ready s THREAD_CACHE" "cache_ready s ARCH_THREAD_CACHE" and tab: "threads_ok s Ob"
  shows "\<exists>t s'. thread_create name s = Some (t, s') \<and> sched_same s s'
    \<and> (if t = NULL then memory s' Ob U \<and> threads_ok s' Ob \<and> s_next_thread_id s' = s_next_thread_id s
       else \<exists>p a. thread_added s Ob U name t s' p a)"
proof -
  obtain t s1 where t: "slab_cache_alloc THREAD_CACHE s = Some (t, s1)" "slab_frame s s1" "same_shape (caches s) (caches s1)"
    "memory s1 (if t = NULL then Ob else Ob(THREAD_CACHE := insert t (Ob THREAD_CACHE))) U"
    "if t = NULL then free_stack s = [] else t \<notin> Ob THREAD_CACHE"
    using alloc_object [OF m r(1)] by blast
  note f1 = slab_frame_sched [OF t(2)]
  show ?thesis
  proof (cases "t = NULL")
    case True
    then show ?thesis using t tab f1 by (intro exI [of _ NULL] exI [of _ s1]) (simp add: thread_create_def)
  next
    case tn: False
    let ?O1 = "Ob(THREAD_CACHE := insert t (Ob THREAD_CACHE))"
    have m1: "memory s1 ?O1 U" and tnew: "t \<notin> Ob THREAD_CACHE" using t(4,5) tn by simp_all
    obtain p s2 where p: "pmm_alloc s1 = Some (p, s2)" "slab_frame s1 s2" "caches s2 = caches s1"
      "memory s2 ?O1 (if p = 0 then U else insert p U)"
      "if p = 0 then free_stack s1 = [] else usable_page p \<and> p \<notin> U \<and> free_stack s1 = p # free_stack s2"
      using alloc_page [OF m1] by blast
    note f2 = slab_frame_sched [OF slab_frame_trans [OF t(2) p(2)]]
    have r2: "cache_ready s2 THREAD_CACHE" "cache_ready s2 ARCH_THREAD_CACHE"
      using ready_shape [OF t(3)] r p(3) by simp_all
    show ?thesis
    proof (cases "p = 0")
      case True
      obtain s3 where s3: "slab_cache_free THREAD_CACHE t s2 = Some s3" "slab_frame s2 s3" "same_shape (caches s2) (caches s3)" "memory s3 Ob U"
        using thread_undo_ok [of s2 Ob t U] p(4) True r2(1) tnew by auto
      note f3 = slab_frame_sched [OF s3(2)]
      show ?thesis using t(1) p(1,3) s3 tn True tab f2 f3 same_shape_trans [OF t(3), of "caches s3"]
        by (intro exI [of _ NULL] exI [of _ s3]) (simp add: thread_create_def)
    next
      case pn: False
      let ?th3 = "(threads s)(t := (threads s t)\<lparr>kernel_stack := PHYS_MAP_BASE + p\<rparr>)"
      let ?s3 = "s2\<lparr>threads := ?th3\<rparr>"
      have pu: "usable_page p" "p \<notin> U" and m3: "memory ?s3 ?O1 (insert p U)" using p(4,5) pn by simp_all
      obtain a s4 where a: "thread_arch_create t ?s3 = Some (if a = NULL then -1 else 0,
          s4\<lparr>arch_rsp := if a = NULL then arch_rsp ?s3 else (arch_rsp ?s3)(a := 0),
             threads := if a = NULL then threads ?s3 else (threads ?s3)(t := (threads ?s3 t)\<lparr>t_arch_data := a\<rparr>)\<rparr>)"
        "slab_frame ?s3 s4" "same_shape (caches ?s3) (caches s4)"
        "memory s4 (if a = NULL then ?O1 else ?O1(ARCH_THREAD_CACHE := insert a (?O1 ARCH_THREAD_CACHE))) (insert p U)"
        "a \<noteq> NULL \<longrightarrow> a \<notin> ?O1 ARCH_THREAD_CACHE"
        using thread_arch_create_ok [OF m3, of t] r2(2) by auto
      note f4 = slab_frame_sched [OF a(2), simplified]
      have sh4: "same_shape (caches s) (caches s4)" using a(3) same_shape_trans [OF t(3)] p(3) by simp
      have start: "thread_create name s = (if a = NULL then do {
            s \<leftarrow> pmm_free p (s4\<lparr>arch_rsp := arch_rsp s, threads := ?th3\<rparr>);
            s \<leftarrow> slab_cache_free THREAD_CACHE t s;
            Some (NULL, s)
          } else do {
            s \<leftarrow> thread_register t (s4\<lparr>arch_rsp := (arch_rsp s)(a := 0), threads := (threads s)(t := new_thread name (-1) (PHYS_MAP_BASE + p) a)\<rparr>);
            Some (t, s)
          })"
        using t(1) p(1) tn pn a(1) f2 new_thread_fields
        by (simp add: thread_create_def set_thread_def usable_provide [OF pu(1)])
      show ?thesis
      proof (cases "a = NULL")
        case True
        let ?s4 = "s4\<lparr>arch_rsp := arch_rsp s, threads := ?th3\<rparr>"
        obtain s5 s6 where s6: "pmm_free p ?s4 = Some s5" "slab_cache_free THREAD_CACHE t s5 = Some s6" "slab_frame ?s4 s6"
          "same_shape (caches ?s4) (caches s6)" "memory s6 Ob U"
          using thread_undo_page_ok [of ?s4 Ob t p U] a(4) True tnew pu ready_shape [OF sh4] r(1) by auto
        note f6 = slab_frame_sched [OF s6(3), simplified]
        have "threads_ok s6 Ob" using threads_ok_outside [of s Ob t, OF tab tnew] tab f2 f4 f6 by simp
        then show ?thesis using start True s6 f2 f4 f6 same_shape_trans [OF sh4, of "caches s6"]
          by (intro exI [of _ NULL] exI [of _ s6]) simp
      next
        case an: False
        let ?s5 = "s4\<lparr>arch_rsp := (arch_rsp s)(a := 0), threads := (threads s)(t := new_thread name (-1) (PHYS_MAP_BASE + p) a)\<rparr>"
        let ?O5 = "Ob(THREAD_CACHE := insert t (Ob THREAD_CACHE), ARCH_THREAD_CACHE := insert a (Ob ARCH_THREAD_CACHE))"
        have m5: "memory ?s5 ?O5 (insert p U)" using a(4) an by simp
        have tab5: "threads_ok ?s5 Ob" using threads_ok_outside [of s Ob t, OF tab tnew] tab f2 f4 by simp
        have i5: "s_next_thread_id ?s5 = s_next_thread_id s" "threads ?s5 = (threads s)(t := new_thread name (-1) (PHYS_MAP_BASE + p) a)"
          "sched_link ?s5 = sched_link s" "s_ready_queue ?s5 = s_ready_queue s" "thread_current ?s5 = thread_current s"
          "arch_rsp ?s5 = (arch_rsp s)(a := 0)" "caches ?s5 = caches s4"
          using f2 f4 by simp_all
        obtain s6 where s6: "thread_register t ?s5 = Some s6" "memory s6 ?O5 (insert p U)" "threads_ok s6 ?O5" "caches s6 = caches ?s5"
          "threads s6 = (threads ?s5)(t := new_thread name (s_next_thread_id ?s5) (PHYS_MAP_BASE + p) a)"
          "hashtable_get (thread_item_key (threads s6)) (s_thread_table s6) (s_next_thread_id ?s5) s6 = Some t"
          "s_next_thread_id s6 = s_next_thread_id ?s5 + 1" "arch_rsp s6 = arch_rsp ?s5"
          "sched_link s6 = sched_link ?s5" "s_ready_queue s6 = s_ready_queue ?s5" "thread_current s6 = thread_current ?s5"
          using thread_enroll_ok [of ?s5 Ob t ?O5 "insert p U" name "-1" "PHYS_MAP_BASE + p" a, OF tab5 tn tnew m5] by auto
        note s6' = s6 [unfolded i5]
        have "a \<notin> Ob ARCH_THREAD_CACHE" using a(5) an by simp
        then have "thread_added s Ob U name t s6 p a"
          unfolding thread_added_def using pu tnew s6'(2,3,5-8) by simp
        then show ?thesis using start an tn s6' sh4 by (intro exI [of _ t] exI [of _ s6]) auto
      qed
    qed
  qed
qed

section \<open>Properties of the scheduler\<close>

text \<open>
  C10: a switch.  From a state of the invariant the timer interrupt (or a yield) always comes back in
  another thread: the first ready one, the interrupted one again if it is the only one that can run,
  the idle thread if there is none.  The invariant holds again, the threads that can run are the same
  ones, the interrupted thread's context is kept for it, the chosen one runs with the registers saved
  when it was switched out, with its own kernel stack and address space.
\<close>

theorem sched_irq_switches:
  assumes "sched_inv s ts" and "can_switch s (thread_current s)"
    and "n = fst (sched_choice s (thread_current s) ts)" and "us = snd (sched_choice s (thread_current s) ts)"
  shows "\<exists>s'. sched_irq ctx s = Some s' \<and> sched_inv s' us \<and> thread_current s' = n
    \<and> t_state (threads s' n) = RUNNING
    \<and> set us \<union> {n} - {thread_idle s} = set (sched_order s (thread_current s) ts) \<union> {n} - {thread_idle s}
    \<and> (thread_current s \<noteq> NULL \<longrightarrow> arch_rsp s' (t_arch_data (threads s (thread_current s))) = ctx)
    \<and> (t_arch_data (threads s n) \<noteq> t_arch_data (threads s (thread_current s)) \<longrightarrow>
         cpu_regs s' = irq_ctxs s (arch_rsp s (t_arch_data (threads s n))))
    \<and> (n = thread_current s \<longrightarrow> thread_current s \<noteq> NULL \<longrightarrow> cpu_regs s' = irq_ctxs s ctx)
    \<and> tss_rsp0 s' = kernel_stack (threads s n) + kernel_stack_size (threads s n)
    \<and> (t_proc (threads s n) \<noteq> NULL \<longrightarrow> cr3 s' = arch_cr3 s (p_arch_data (processes s (t_proc (threads s n)))))"
proof -
  have "set us \<union> {n} - {thread_idle s} = set (sched_order s (thread_current s) ts) \<union> {n} - {thread_idle s}"
    unfolding assms(3,4) by (auto simp: sched_pick_def split: list.splits)
  then show ?thesis using sched_irq_ok [OF assms(1,2), of ctx] unfolding assms(3,4) by auto
qed

text \<open>A run of the timer: the contexts are where each interrupt saves the registers.\<close>

fun ticks :: "ptr list \<Rightarrow> 'a sched_state_scheme \<Rightarrow> 'a sched_state_scheme option" where
  "ticks [] s = Some s"
| "ticks (p # ps) s = do {
     s \<leftarrow> sched_irq p s;
     ticks ps s
   }"

text \<open>While the running thread stays ready, a tick is one turn of the queue, and it stays so.\<close>

lemma tick_turn:
  assumes "sched_inv s ts" and "stays_ready s (thread_current s)"
  shows "\<exists>s' us. sched_irq p s = Some s' \<and> sched_inv s' us \<and> stays_ready s' (thread_current s')
    \<and> tq.turn (thread_current s, s_ready_queue s, sched_link s) = Some (thread_current s', s_ready_queue s', sched_link s')"
proof -
  obtain n us where ch: "sched_choice s (thread_current s) ts = (n, us)" by (cases "sched_choice s (thread_current s) ts")
  have c: "can_switch s (thread_current s)" using assms(2) by (simp add: stays_ready_def can_switch_def)
  obtain s' where s': "sched_irq p s = Some s'" "sched_inv s' us" "thread_current s' = n" "thread_idle s' = thread_idle s"
    "threads s' = switched s (thread_current s) n"
    "tq.turn (thread_current s, s_ready_queue s, sched_link s) = Some (n, s_ready_queue s', sched_link s')"
    using sched_irq_ok [OF assms(1) c, of p] assms(2) unfolding ch by auto
  have "n \<in> insert (thread_current s) (set ts)"
    using ch assms(2) by (cases ts) (auto simp: sched_order_def sched_pick_def)
  then have "n \<noteq> NULL" "n \<noteq> thread_idle s"
    using assms by (auto simp: sched_inv_def stays_ready_def dest: queued_distinct)
  then have "stays_ready s' n" by (simp add: stays_ready_def s')
  then show ?thesis using s' by auto
qed

lemma ticks_turns:
  assumes "sched_inv s ts" and "stays_ready s (thread_current s)"
  shows "\<exists>s' us. ticks ps s = Some s' \<and> sched_inv s' us \<and> stays_ready s' (thread_current s')
    \<and> tq.turns (length ps) (thread_current s, s_ready_queue s, sched_link s) = Some (thread_current s', s_ready_queue s', sched_link s')"
  using assms
proof (induction ps arbitrary: s ts)
  case Nil
  then show ?case by auto
next
  case (Cons p ps)
  obtain s1 us where s1: "sched_irq p s = Some s1" "sched_inv s1 us" "stays_ready s1 (thread_current s1)"
    "tq.turn (thread_current s, s_ready_queue s, sched_link s) = Some (thread_current s1, s_ready_queue s1, sched_link s1)"
    using tick_turn [OF Cons.prems] by blast
  obtain s2 vs where "ticks ps s1 = Some s2" "sched_inv s2 vs" "stays_ready s2 (thread_current s2)"
    "tq.turns (length ps) (thread_current s1, s_ready_queue s1, sched_link s1) = Some (thread_current s2, s_ready_queue s2, sched_link s2)"
    using Cons.IH [OF s1(2,3)] by blast
  then show ?case using s1(1,4) by (auto simp: tq.turns_Suc_first simp del: tq.turns.simps(2))
qed

text \<open>
  C11: nobody starves.  While no thread blocks, the thread at place \<open>i\<close> of the ready queue runs after
  the \<open>i + 1\<close>st timer interrupt.
\<close>

theorem round_robin_fair:
  assumes "sched_inv s ts" and "stays_ready s (thread_current s)" and "i < length ts" and "length ps = Suc i"
  shows "\<exists>s'. ticks ps s = Some s' \<and> thread_current s' = ts ! i"
proof -
  have q: "queued (sched_link s) (s_ready_queue s) ts" "thread_current s \<noteq> NULL" "thread_current s \<notin> set ts"
    using assms by (simp_all add: sched_inv_def stays_ready_def)
  obtain s' where "ticks ps s = Some s'"
    "tq.turns (Suc i) (thread_current s, s_ready_queue s, sched_link s) = Some (thread_current s', s_ready_queue s', sched_link s')"
    using ticks_turns [OF assms(1,2), of ps] unfolding assms(4) by blast
  then show ?thesis using tq.served_in_turn [of "(s_ready_queue s, sched_link s)" ts "thread_current s" i] q assms(3) by auto
qed

text \<open>
  C12: waking a thread that is already ready loses threads.  \<^verbatim>\<open>thread_exit\<close> wakes the cleaner without
  looking whether it sleeps: if it is still in the ready queue, the threads behind it are READY
  afterwards but in no queue, so they never run again.
\<close>

theorem wake_ready_loses_threads:
  assumes "locks_ok s" and "queued (sched_link s) (s_ready_queue s) (ts @ t # us)" and "us \<noteq> []"
    and "\<forall>u \<in> set us. t_state (threads s u) = READY"
  shows "\<exists>s'. thread_wake_up t s = Some (0, s') \<and> queued (sched_link s') (s_ready_queue s') (ts @ [t])
    \<and> (\<forall>u \<in> set us. t_state (threads s' u) = READY)"
proof -
  let ?l = "(sched_link s)(t := NULL, last (t # us) := t)"
  have a: "threadqueue_add (s_ready_queue s) t (sched_link s) = Some ((s_ready_queue s)\<lparr>q_last := t\<rparr>, ?l)"
    and q: "queued ?l ((s_ready_queue s)\<lparr>q_last := t\<rparr>) (ts @ [t])"
    using threadqueue_add_again [OF assms(2)] assms(3) by simp_all
  have "t \<notin> set us" using queued_distinct [OF assms(2)] by simp
  then show ?thesis using a q assms(1,4)
    by (intro exI [of _ "s\<lparr>threads := (threads s)(t := (threads s t)\<lparr>t_state := READY\<rparr>),
      s_ready_queue := (s_ready_queue s)\<lparr>q_last := t\<rparr>, sched_link := ?l, locks := lock_used SCHED_LOCK s\<rparr>"])
      (auto simp: thread_wake_up_def sched_add_ready_def set_thread_def op_simps)
qed

text \<open>A concrete system: the idle thread, a running one and two ready ones.\<close>

abbreviation (input) sample_thread :: "ptr \<Rightarrow> thread" where
  "sample_thread p \<equiv> \<lparr>t_id = ucast p, t_name = [], t_proc = NULL, t_state = (if p = 0x2000 then RUNNING else READY),
     kernel_stack = p, kernel_stack_size = PAGE_SIZE, user_stack = NULL, user_stack_size = 0, t_arch_data = p\<rparr>"

abbreviation (input) sample_sched :: sched_state where
  "sample_sched \<equiv> desc_state.extend sample_desc \<lparr>threads = sample_thread, sched_link = (\<lambda>_. NULL)(0x3000 := 0x4000),
     arch_rsp = (\<lambda>p. p), irq_ctxs = (\<lambda>p. zero_context\<lparr>ip := p, rflags := 0x200\<rparr>), stack_words = (\<lambda>_. 0), text_addr = (\<lambda>_. 0x100000),
     cpu_regs = zero_context, cr3 = 0x1000, thread_idle = 0x1000, thread_current = 0x2000,
     s_ready_queue = \<lparr>q_first = 0x3000, q_last = 0x4000\<rparr>, s_next_thread_id = 4, s_thread_table = sample_table,
     s_cleanup_queue = empty_queue, s_cleaner_thread = 0x4000, 
     processes = (\<lambda>_. \<lparr>p_id = 0, p_name = [], p_free_map = [], p_arch_data = NULL\<rparr>), arch_cr3 = (\<lambda>_. 0),
     mutexes = (\<lambda>_. \<lparr>locker = NULL, waiters = empty_queue\<rparr>)\<rparr>"

lemmas sample_defs = desc_state.defs irq_state.defs pic_state.defs hash_state.defs

lemma sample_sched_inv: "sched_inv sample_sched [0x3000, 0x4000]"
  by (simp add: sched_inv_def sample_defs queued_def addrs_ok_def)

lemma sched_irq_switches_witness:
  "\<exists>s'. sched_irq 0x5000 sample_sched = Some s' \<and> thread_current s' = 0x3000 \<and> sched_inv s' [0x4000, 0x2000]
     \<and> t_state (threads s' 0x3000) = RUNNING"
proof -
  have c: "can_switch sample_sched (thread_current sample_sched)" by (simp add: sample_defs can_switch_def)
  have ch: "sched_choice sample_sched (thread_current sample_sched) [0x3000, 0x4000] = (0x3000, [0x4000, 0x2000])"
    by (simp add: sample_defs sched_order_def stays_ready_def sched_pick_def)
  show ?thesis
    using sched_irq_switches [OF sample_sched_inv c refl refl, of "0x5000", unfolded ch fst_conv snd_conv] by (elim exE conjE) blast
qed

lemma round_robin_fair_witness:
  "\<exists>s'. ticks [0x5000, 0x6000] sample_sched = Some s' \<and> thread_current s' = 0x4000"
  using round_robin_fair [OF sample_sched_inv, of 1 "[0x5000, 0x6000]"]
  by (auto simp: sample_defs stays_ready_def)

lemma wake_ready_loses_threads_witness:
  "\<exists>s'. thread_wake_up 0x3000 sample_sched = Some (0, s') \<and> queued (sched_link s') (s_ready_queue s') [0x3000]"
  using wake_ready_loses_threads [of sample_sched "[]" "0x3000" "[0x4000]"] sample_sched_inv
  by (auto simp: sched_inv_def sample_defs)

section \<open>Properties of thread creation\<close>

text \<open>The top of a kernel stack: the page does not end at the end of the address space.\<close>

lemma stack_top:
  assumes "usable_page p" and "unat n \<le> 4096"
  shows "unat (PHYS_MAP_BASE + p + PAGE_SIZE - n) + unat n = unat (PHYS_MAP_BASE + p) + 4096"
proof -
  have "unat (PHYS_MAP_BASE + p) = 0xffff800000000000 + unat p" by (rule vpage(2) [OF assms(1)])
  moreover have "unat p < 0x00007fff80000000" using assms(1) by (simp add: usable_page_def word_less_nat_alt)
  ultimately have "unat (PHYS_MAP_BASE + p) + 4096 < 2 ^ 64" by simp
  then have top: "unat (PHYS_MAP_BASE + p + PAGE_SIZE) = unat (PHYS_MAP_BASE + p) + 4096"
    by (subst unat_word_ariths) simp
  then have "n \<le> PHYS_MAP_BASE + p + PAGE_SIZE" using assms(2) by (simp add: word_le_nat_alt)
  then show ?thesis using top assms(2) by (simp add: unat_sub)
qed

text \<open>
  \<^verbatim>\<open>thread_create_kernel\<close> comes back, with NULL and nothing taken, or with a new thread: it can be
  found under the next id, has a kernel stack page nobody else uses, and the context the scheduler
  will load for it lies at the end of that page: it starts at \<open>entry\<close> in the kernel segments with
  interrupts on and \<open>arg\<close> as argument, and its function returns into \<^verbatim>\<open>thread_exit\<close>.
\<close>

theorem thread_create_kernel_starts:
  assumes "memory s Ob U" and "cache_ready s THREAD_CACHE" and "cache_ready s ARCH_THREAD_CACHE" and "threads_ok s Ob"
  shows "\<exists>t s'. thread_create_kernel name entry arg s = Some (t, s')
    \<and> (t = NULL \<longrightarrow> memory s' Ob U \<and> threads_ok s' Ob)
    \<and> (t \<noteq> NULL \<longrightarrow> (\<exists>p a. usable_page p \<and> p \<notin> U \<and> t \<notin> Ob THREAD_CACHE
        \<and> memory s' (Ob(THREAD_CACHE := insert t (Ob THREAD_CACHE), ARCH_THREAD_CACHE := insert a (Ob ARCH_THREAD_CACHE))) (insert p U)
        \<and> threads s' = (threads s)(t := new_thread name (s_next_thread_id s) (PHYS_MAP_BASE + p) a)
        \<and> hashtable_get (thread_item_key (threads s')) (s_thread_table s') (s_next_thread_id s) s' = Some t
        \<and> unat (arch_rsp s' a) + 184 = unat (PHYS_MAP_BASE + p) + 4096
        \<and> (let ctx = irq_ctxs s' (arch_rsp s' a) in ip ctx = entry \<and> rdi ctx = arg \<and> cs ctx = of_nat CS_KERNEL
             \<and> ss ctx = of_nat DS_KERNEL \<and> bit (rflags ctx) 9 \<and> unat (rsp ctx) + 8 = unat (PHYS_MAP_BASE + p) + 4096
             \<and> stack_words s' (rsp ctx) = text_addr s' THREAD_EXIT)))"
proof -
  obtain t s1 where t: "thread_create name s = Some (t, s1)" "if t = NULL then memory s1 Ob U \<and> threads_ok s1 Ob
      \<and> s_next_thread_id s1 = s_next_thread_id s else \<exists>p a. thread_added s Ob U name t s1 p a"
    using thread_create_ok [OF assms] by blast
  show ?thesis
  proof (cases "t = NULL")
    case True
    then show ?thesis using t by (intro exI [of _ NULL] exI [of _ s1]) (simp add: thread_create_kernel_def)
  next
    case False
    then obtain p a where "thread_added s Ob U name t s1 p a" using t(2) by auto
    note ad = this [unfolded thread_added_def]
    define v where "v = PHYS_MAP_BASE + p"
    define sp where "sp = v + PAGE_SIZE - 184"
    have top: "unat sp + 184 = unat v + 4096" "unat (v + PAGE_SIZE - 8) + 8 = unat v + 4096"
      using stack_top [of p 184] stack_top [of p 8] ad by (simp_all add: v_def sp_def)
    let ?ctx = "zero_context\<lparr>rdi := arg, cs := of_nat CS_KERNEL, ip := entry, rflags := 0x200 OR 0x3000, rsp := v + PAGE_SIZE - 8,
        ss := of_nat DS_KERNEL\<rparr>"
    let ?s = "s1\<lparr>stack_words := (stack_words s1)(v + PAGE_SIZE - 8 := text_addr s1 THREAD_EXIT), irq_ctxs := (irq_ctxs s1)(sp := ?ctx),
        arch_rsp := (arch_rsp s1)(a := sp)\<rparr>"
    have st: "threads s1 t = new_thread name (s_next_thread_id s) v a" using ad by (simp add: v_def)
    have run: "thread_create_kernel name entry arg s = Some (t, ?s)"
      using t(1) False st by (simp add: thread_create_kernel_def thread_arch_create_kernel_def new_thread_def Let_def sp_def algebra_simps)
    show ?thesis
      by (rule exI [of _ t], rule exI [of _ ?s], rule conjI [OF run], rule conjI, use False in simp, rule impI,
          rule exI [of _ p], rule exI [of _ a], use ad top in \<open>clarsimp simp: v_def Let_def bit_simps hashtable_get_def\<close>)
  qed
qed

text \<open>
  C13: \<^verbatim>\<open>thread_create_user\<close> comes back, with NULL and nothing taken, or with a new thread of the process.
  Nothing taken: the objects of all caches and the pages in use are those before the call, and the accounts of the
  allocators do not allow for one more page, so the page of the stack was given back.  A new thread:
  its context is at the end of its own kernel stack page, starts at \<open>entry\<close> at privilege level 3
  with interrupts on, and its stack pointer is the end of the user stack.
\<close>

theorem thread_create_user_starts:
  assumes "memory s Ob U" and "cache_ready s THREAD_CACHE" and "cache_ready s ARCH_THREAD_CACHE" and "threads_ok s Ob"
  shows "\<exists>t s'. thread_create_user pr name entry arg stack sz s = Some (t, s')
    \<and> (t = NULL \<longrightarrow> memory s' Ob U \<and> threads_ok s' Ob \<and> (\<forall>Ob' U'. memory s' Ob' U' \<and> U \<subseteq> U' \<longrightarrow> U' = U))
    \<and> (t \<noteq> NULL \<longrightarrow> (\<exists>p a. usable_page p \<and> p \<notin> U \<and> t \<notin> Ob THREAD_CACHE
        \<and> memory s' (Ob(THREAD_CACHE := insert t (Ob THREAD_CACHE), ARCH_THREAD_CACHE := insert a (Ob ARCH_THREAD_CACHE))) (insert p U)
        \<and> threads s' = (threads s)(t := (new_thread name (s_next_thread_id s) (PHYS_MAP_BASE + p) a)
             \<lparr>t_proc := pr, user_stack := stack, user_stack_size := sz\<rparr>)
        \<and> unat (arch_rsp s' a) + 176 = unat (PHYS_MAP_BASE + p) + 4096
        \<and> (let ctx = irq_ctxs s' (arch_rsp s' a) in ip ctx = entry \<and> rdi ctx = arg \<and> cs ctx AND 3 = 3 \<and> ss ctx AND 3 = 3
             \<and> bit (rflags ctx) 9 \<and> rsp ctx = stack + sz)))"
proof -
  obtain t s1 where t: "thread_create name s = Some (t, s1)" "if t = NULL then memory s1 Ob U \<and> threads_ok s1 Ob
      \<and> s_next_thread_id s1 = s_next_thread_id s else \<exists>p a. thread_added s Ob U name t s1 p a"
    using thread_create_ok [OF assms] by blast
  show ?thesis
  proof (cases "t = NULL")
    case True
    then have "memory s1 Ob U" "threads_ok s1 Ob" using t(2) by simp_all
    then show ?thesis using t(1) True memory_unique [of s1 Ob U]
      by (intro exI [of _ NULL] exI [of _ s1]) (auto simp: thread_create_user_def)
  next
    case False
    then obtain p a where "thread_added s Ob U name t s1 p a" using t(2) by auto
    note ad = this [unfolded thread_added_def]
    define v where "v = PHYS_MAP_BASE + p"
    define sp where "sp = v + PAGE_SIZE - 176"
    have top: "unat sp + 176 = unat v + 4096" using stack_top [of p 176] ad by (simp add: v_def sp_def)
    let ?ctx = "zero_context\<lparr>rdi := arg, cs := of_nat CS_USER OR 3, ip := entry, rflags := 0x200 OR 0x3000, rsp := stack + sz,
        ss := of_nat DS_USER OR 3\<rparr>"
    let ?t = "(new_thread name (s_next_thread_id s) v a)\<lparr>t_proc := pr, user_stack := stack, user_stack_size := sz\<rparr>"
    let ?s = "s1\<lparr>threads := (threads s)(t := ?t), irq_ctxs := (irq_ctxs s1)(sp := ?ctx), arch_rsp := (arch_rsp s1)(a := sp)\<rparr>"
    have st: "threads s1 = (threads s)(t := new_thread name (s_next_thread_id s) v a)" using ad by (simp add: v_def)
    have run: "thread_create_user pr name entry arg stack sz s = Some (t, ?s)"
      using t(1) False st by (simp add: thread_create_user_def thread_arch_create_user_def set_thread_def new_thread_def Let_def sp_def algebra_simps)
    show ?thesis
      by (rule exI [of _ t], rule exI [of _ ?s], rule conjI [OF run], rule conjI, use False in simp, rule impI,
          rule exI [of _ p], rule exI [of _ a], use ad top in \<open>clarsimp simp: v_def Let_def bit_simps hashtable_get_def\<close>)
  qed
qed

abbreviation (input) sample_threads :: sched_state where
  "sample_threads \<equiv> sample_sched\<lparr>s_freeTable := (\<lambda>i. 0x100000 + of_nat i * 0x1000), s_freePageCount := 8,
     caches := (\<lambda>_. \<lparr>slab_size = PAGE_SIZE, obj_size = 112, obj_per_slab = 36, slab_full = NULL, slab_partial = NULL\<rparr>)\<rparr>"

lemma sample_threads_memory: "memory sample_threads (\<lambda>_. {}) {}"
proof -
  have u: "[0 ..< 8] = [0, 1, 2, 3, 4, 5, 6, 7::nat]" by (simp add: upt_rec)
  have "caches_ok (slabs sample_threads) (bufs sample_threads) (caches sample_threads) (\<lambda>_. \<lparr>fulls = [], parts = []\<rparr>)"
    by (simp add: caches_ok_def cache_ok_def cache_sizes_def sample_defs)
  moreover have "pages_ok (s_freeTable sample_threads) (s_allocatedPageCount sample_threads) (s_freePageCount sample_threads)"
    by (simp add: pages_ok_def page_stack_def u usable_page_def page_aligned_iff sample_defs)
  ultimately show ?thesis
    by (auto simp: mem_ok_def pages_split_def all_pages_def view_pages_def view_live_def addrs_ok_def sample_defs
        intro!: exI [of _ "\<lambda>_. \<lparr>fulls = [], parts = []\<rparr>"])
qed

lemma sample_threads_ok: "threads_ok sample_threads (\<lambda>_. {})"
  by (auto simp: table_ok_def table_items_def chain_of_def sample_defs)

lemma thread_create_kernel_starts_witness:
  "\<exists>t s'. thread_create_kernel [105, 100, 108, 101] 0x100000 0 sample_threads = Some (t, s')"
proof -
  have "cache_ready sample_threads THREAD_CACHE" "cache_ready sample_threads ARCH_THREAD_CACHE" by simp_all
  from thread_create_kernel_starts [OF sample_threads_memory this sample_threads_ok] show ?thesis by blast
qed

lemma thread_create_user_starts_witness:
  "\<exists>t s'. thread_create_user 0x7000 [105] 0x400000 0 0x500000 0x1000 sample_threads = Some (t, s')"
proof -
  have "cache_ready sample_threads THREAD_CACHE" "cache_ready sample_threads ARCH_THREAD_CACHE" by simp_all
  from thread_create_user_starts [OF sample_threads_memory this sample_threads_ok] show ?thesis by blast
qed

end
