(* ===== verification/Mutex.thy ===== *)
theory Mutex
  imports Thread
begin

text \<open>
  \<^verbatim>\<open>sync/mutex.c\<close>: mutexes of sleeping threads.  \<open>mutex_lock\<close> is one turn of its loop: it takes the mutex,
  or queues the thread and gives up the CPU, and the thread goes through it again when it is resumed.
  \<open>mutex_unlock\<close> has two parts, because interrupts are on between them: it lets the mutex go and takes the first
  waiter out of the queue (\<open>mutex_release\<close>), then it wakes that thread up (\<open>mutex_wake\<close>).
  The threads that use a mutex are a transition system over the real operations, in which the timer
  may switch at any point between them, between the two parts too.
\<close>

section \<open>Operations\<close>

definition set_mutex :: "mutex_id \<Rightarrow> (mutex \<Rightarrow> mutex) \<Rightarrow> 'a sched_state_scheme \<Rightarrow> 'a sched_state_scheme" where
  "set_mutex m f s = s\<lparr>mutexes := (mutexes s)(m := f (mutexes s m))\<rparr>"

definition mutex_lock :: "mutex_id \<Rightarrow> 'a sched_state_scheme \<Rightarrow> (bool \<times> 'a sched_state_scheme) option" where
  "mutex_lock m s = do {
     s \<leftarrow> spinlock_disable (MUTEX_SPINLOCK m) s;
     if locker (mutexes s m) \<noteq> NULL then do {
       (q, link) \<leftarrow> threadqueue_add (waiters (mutexes s m)) (thread_current s) (sched_link s);
       let s = set_mutex m (\<lambda>x. x\<lparr>waiters := q\<rparr>) (s\<lparr>sched_link := link\<rparr>);
       let s = spinunlock (MUTEX_SPINLOCK m) s;
       s \<leftarrow> thread_sleep s;
       Some (False, s)
     }
     else
       let s = set_mutex m (\<lambda>x. x\<lparr>locker := thread_current s\<rparr>) s
       in Some (True, spinunlock_enable (MUTEX_SPINLOCK m) s)
   }"

definition mutex_release :: "mutex_id \<Rightarrow> 'a sched_state_scheme \<Rightarrow> (ptr \<times> 'a sched_state_scheme) option" where
  "mutex_release m s = do {
     s \<leftarrow> spinlock_disable (MUTEX_SPINLOCK m) s;
     let s = set_mutex m (\<lambda>x. x\<lparr>locker := NULL\<rparr>) s;
     let (t, q) = threadqueue_pop (waiters (mutexes s m)) (sched_link s);
     let s = set_mutex m (\<lambda>x. x\<lparr>waiters := q\<rparr>) s;
     Some (t, spinunlock_enable (MUTEX_SPINLOCK m) s)
   }"

definition mutex_wake :: "ptr \<Rightarrow> 'a sched_state_scheme \<Rightarrow> 'a sched_state_scheme option" where
  "mutex_wake t s =
     (if t \<noteq> NULL then do {
        (_, s) \<leftarrow> thread_wake_up t s;
        Some s
      }
      else Some s)"

definition mutex_unlock :: "mutex_id \<Rightarrow> 'a sched_state_scheme \<Rightarrow> 'a sched_state_scheme option" where
  "mutex_unlock m s = do {
     (t, s) \<leftarrow> mutex_release m s;
     mutex_wake t s
   }"

definition mutex_init :: "mutex_id \<Rightarrow> 'a sched_state_scheme \<Rightarrow> 'a sched_state_scheme" where
  "mutex_init m s =
     (let s = spinlock_init (MUTEX_SPINLOCK m) s;
          s = set_mutex m (\<lambda>x. x\<lparr>locker := NULL\<rparr>) s
      in set_mutex m (\<lambda>x. x\<lparr>waiters := threadqueue_init (waiters x)\<rparr>) s)"

text \<open>
  A section under a mutex, as the clients write it.  \<open>Blocked\<close>: the thread went to sleep before the
  section began and starts it again when it is resumed.
\<close>

datatype 'r outcome = Done 'r | Blocked

definition with_mutex ::
  "mutex_id \<Rightarrow> ('a sched_state_scheme \<Rightarrow> ('r \<times> 'a sched_state_scheme) option) \<Rightarrow> 'a sched_state_scheme
     \<Rightarrow> ('r outcome \<times> 'a sched_state_scheme) option" where
  "with_mutex m body s = do {
     (got, s) \<leftarrow> mutex_lock m s;
     if got then do {
       (r, s) \<leftarrow> body s;
       s \<leftarrow> mutex_unlock m s;
       Some (Done r, s)
     }
     else Some (Blocked, s)
   }"

text \<open>Without contention a section runs at once, and leaves the mutex as it was.\<close>

lemma mutex_lock_free:
  assumes "locks_ok s" and "locker (mutexes s m) = NULL"
  shows "mutex_lock m s = Some (True, s\<lparr>mutexes := (mutexes s)(m := (mutexes s m)\<lparr>locker := thread_current s\<rparr>),
      locks := lock_used (MUTEX_SPINLOCK m) s\<rparr>)"
  using assms by (simp add: mutex_lock_def set_mutex_def op_simps)

lemma mutex_unlock_alone:
  assumes "locks_ok s" and "waiters (mutexes s m) = empty_queue"
  shows "mutex_unlock m s = Some (s\<lparr>mutexes := (mutexes s)(m := (mutexes s m)\<lparr>locker := NULL\<rparr>), locks := lock_used (MUTEX_SPINLOCK m) s\<rparr>)"
proof -
  have "threadqueue_pop (waiters (mutexes s m)) (sched_link s) = (NULL, waiters (mutexes s m))"
    using assms(2) by (simp add: threadqueue_pop_Nil)
  then show ?thesis using assms(1) by (simp add: mutex_unlock_def mutex_release_def mutex_wake_def set_mutex_def op_simps)
qed

section \<open>The threads that use a mutex\<close>

text \<open>
  Where a thread is with respect to the mutex: outside, asleep in the queue, taken out of the queue but not woken
  up yet, woken up but not yet back in the loop, inside the section, or in \<^verbatim>\<open>mutex_unlock\<close> about to wake a thread.
\<close>

datatype phase = Outside | Waiting | Popped | Woken | Inside | Waking ptr

text \<open>
  The steps: the running thread goes through the loop of \<^verbatim>\<open>mutex_lock\<close> (from outside, or again after it
  was woken), or goes through the first or the second part of \<^verbatim>\<open>mutex_unlock\<close>, or the timer switches to another
  thread.  The idle thread only idles.
\<close>

inductive mutex_step ::
  "mutex_id \<Rightarrow> sched_state \<times> (ptr \<Rightarrow> phase) \<Rightarrow> sched_state \<times> (ptr \<Rightarrow> phase) \<Rightarrow> bool" for m where
  acquire: "mutex_lock m s = Some (True, s') \<Longrightarrow> ph (thread_current s) \<in> {Outside, Woken} \<Longrightarrow>
      thread_current s \<noteq> NULL \<Longrightarrow> thread_current s \<noteq> thread_idle s \<Longrightarrow>
      mutex_step m (s, ph) (s', ph(thread_current s := Inside))"
| wait: "mutex_lock m s = Some (False, s') \<Longrightarrow> ph (thread_current s) \<in> {Outside, Woken} \<Longrightarrow>
      thread_current s \<noteq> NULL \<Longrightarrow> thread_current s \<noteq> thread_idle s \<Longrightarrow>
      mutex_step m (s, ph) (s', ph(thread_current s := Waiting))"
| release: "mutex_release m s = Some (t, s') \<Longrightarrow> ph (thread_current s) = Inside \<Longrightarrow>
      mutex_step m (s, ph) (s', if t = NULL then ph(thread_current s := Outside) else ph(thread_current s := Waking t, t := Popped))"
| wake: "mutex_wake t s = Some s' \<Longrightarrow> ph (thread_current s) = Waking t \<Longrightarrow>
      mutex_step m (s, ph) (s', ph(thread_current s := Outside, t := Woken))"
| tick: "sched_irq p s = Some s' \<Longrightarrow> mutex_step m (s, ph) (s', ph)"

inductive_cases mutex_stepE: "mutex_step m x y"

text \<open>
  The phases that fit together, when the threads \<open>on\<close> are the running one and the ready ones, \<open>ws\<close> is the queue of
  the mutex and \<open>lk\<close> its owner: every thread that was taken out of the queue is about to be woken by one other, and
  when the mutex is free and threads wait for it, there is one on its way.
\<close>

definition phases_ok :: "(ptr \<Rightarrow> phase) \<Rightarrow> ptr \<Rightarrow> ptr set \<Rightarrow> ptr list \<Rightarrow> ptr \<Rightarrow> bool" where
  "phases_ok ph idle on ws lk \<longleftrightarrow>
     (\<forall>t. ph t = Waiting \<longleftrightarrow> t \<in> set ws)
   \<and> (\<forall>t. ph t = Inside \<longleftrightarrow> t \<noteq> NULL \<and> t = lk)
   \<and> (\<forall>t. ph t = Woken \<longrightarrow> t \<in> on)
   \<and> (\<forall>t w. ph t = Waking w \<longrightarrow> t \<in> on \<and> w \<noteq> NULL \<and> ph w = Popped)
   \<and> (\<forall>t u w. ph t = Waking w \<longrightarrow> ph u = Waking w \<longrightarrow> t = u)
   \<and> (\<forall>w. ph w = Popped \<longrightarrow> w \<notin> on \<and> (\<exists>t. ph t = Waking w))
   \<and> ph idle = Outside
   \<and> (ws \<noteq> [] \<longrightarrow> lk = NULL \<longrightarrow> (\<exists>t. ph t = Woken \<or> (\<exists>w. ph t = Waking w)))"

lemma phases_okI:
  assumes "\<And>t. ph t = Waiting \<longleftrightarrow> t \<in> set ws" and "\<And>t. ph t = Inside \<longleftrightarrow> t \<noteq> NULL \<and> t = lk"
    and "\<And>t. ph t = Woken \<Longrightarrow> t \<in> on" and "\<And>t w. ph t = Waking w \<Longrightarrow> t \<in> on \<and> w \<noteq> NULL \<and> ph w = Popped"
    and "\<And>t u w. ph t = Waking w \<Longrightarrow> ph u = Waking w \<Longrightarrow> t = u" and "\<And>w. ph w = Popped \<Longrightarrow> w \<notin> on \<and> (\<exists>t. ph t = Waking w)"
    and "ph idle = Outside" and "ws \<noteq> [] \<Longrightarrow> lk = NULL \<Longrightarrow> \<exists>t. ph t = Woken \<or> (\<exists>w. ph t = Waking w)"
  shows "phases_ok ph idle on ws lk"
  unfolding phases_ok_def by (intro conjI; (intro allI)?; (intro impI)?; rule assms; assumption)

lemma phases_okD:
  assumes "phases_ok ph idle on ws lk"
  shows "ph t = Waiting \<longleftrightarrow> t \<in> set ws" and "ph t = Inside \<longleftrightarrow> t \<noteq> NULL \<and> t = lk"
    and "ph t = Woken \<Longrightarrow> t \<in> on" and "ph t = Waking w \<Longrightarrow> t \<in> on \<and> w \<noteq> NULL \<and> ph w = Popped"
    and "ph t = Waking w \<Longrightarrow> ph u = Waking w \<Longrightarrow> t = u" and "ph w = Popped \<Longrightarrow> w \<notin> on \<and> (\<exists>t. ph t = Waking w)"
    and "ph idle = Outside" and "ws \<noteq> [] \<Longrightarrow> lk = NULL \<Longrightarrow> \<exists>t. ph t = Woken \<or> (\<exists>w. ph t = Waking w)"
  using assms unfolding phases_ok_def by blast+

lemma phases_switch:
  assumes ok: "phases_ok ph idle on ws lk" and on: "on - {idle} \<subseteq> on'" "on' \<subseteq> insert idle on"
  shows "phases_ok ph idle on' ws lk"
proof (rule phases_okI)
  note D = phases_okD [OF ok]
  have run: "t \<in> on'" if "t \<in> on" "ph t \<noteq> Outside" for t using on(1) D(7) that by blast
  show "t \<in> on'" if "ph t = Woken" for t using run D(3) [OF that] that by simp
  show "t \<in> on' \<and> w \<noteq> NULL \<and> ph w = Popped" if "ph t = Waking w" for t w using run D(4) [OF that] that by simp
  show "w \<notin> on' \<and> (\<exists>t. ph t = Waking w)" if "ph w = Popped" for w
  proof -
    have "w \<noteq> idle" using that D(7) by auto
    then show ?thesis using D(6) [OF that] on(2) by blast
  qed
qed (rule phases_okD [OF ok]; assumption)+

lemma phases_acquire:
  assumes ok: "phases_ok ph idle on ws NULL" and c: "ph c = Outside \<or> ph c = Woken" "c \<noteq> NULL" "c \<noteq> idle"
  shows "phases_ok (ph(c := Inside)) idle on ws c"
proof (rule phases_okI)
  note D = phases_okD [OF ok]
  have p: "ph c \<noteq> Popped" "ph c \<noteq> Waiting" "ph c \<noteq> Waking w" for w using c(1) by auto
  show "(ph(c := Inside)) t = Waiting \<longleftrightarrow> t \<in> set ws" for t using D(1) [of t] p by auto
  show "(ph(c := Inside)) t = Inside \<longleftrightarrow> t \<noteq> NULL \<and> t = c" for t using D(2) [of t] c by auto
  show "t \<in> on" if "(ph(c := Inside)) t = Woken" for t using D(3) [of t] that by (auto split: if_splits)
  show "t \<in> on \<and> w \<noteq> NULL \<and> (ph(c := Inside)) w = Popped" if "(ph(c := Inside)) t = Waking w" for t w
    using D(4) [of t w] p that by (auto split: if_splits)
  show "t = u" if "(ph(c := Inside)) t = Waking w" "(ph(c := Inside)) u = Waking w" for t u w
    using D(5) [of t w u] that by (auto split: if_splits)
  show "w \<notin> on \<and> (\<exists>t. (ph(c := Inside)) t = Waking w)" if "(ph(c := Inside)) w = Popped" for w
    using D(6) [of w] p that by (metis fun_upd_apply phase.distinct(21))
  show "(ph(c := Inside)) idle = Outside" using D(7) c by simp
qed (use c in simp)

lemma phases_wait:
  assumes ok: "phases_ok ph idle on ws lk" and c: "ph c = Outside \<or> ph c = Woken" "c \<noteq> idle" "lk \<noteq> NULL"
    and on: "on - {idle, c} \<subseteq> on'" "on' \<subseteq> insert idle on"
  shows "phases_ok (ph(c := Waiting)) idle on' (ws @ [c]) lk"
proof (rule phases_okI)
  note D = phases_okD [OF ok]
  let ?ph = "ph(c := Waiting)"
  have p: "ph c \<noteq> Popped" "ph c \<noteq> Inside" "ph c \<noteq> Waking w" for w using c(1) by auto
  have run: "t \<in> on'" if "t \<in> on" "ph t \<noteq> Outside" "t \<noteq> c" for t using on(1) D(7) that by blast
  show "?ph t = Waiting \<longleftrightarrow> t \<in> set (ws @ [c])" for t using D(1) [of t] by auto
  show "?ph t = Inside \<longleftrightarrow> t \<noteq> NULL \<and> t = lk" for t using D(2) [of t] p by auto
  show "t \<in> on'" if "?ph t = Woken" for t using D(3) [of t] run that by (auto split: if_splits)
  show "t \<in> on' \<and> w \<noteq> NULL \<and> ?ph w = Popped" if "?ph t = Waking w" for t w
    using D(4) [of t w] p run that by (auto split: if_splits)
  show "t = u" if "?ph t = Waking w" "?ph u = Waking w" for t u w
    using D(5) [of t w u] that by (auto split: if_splits)
  show "w \<notin> on' \<and> (\<exists>t. ?ph t = Waking w)" if a: "?ph w = Popped" for w
  proof -
    have w: "ph w = Popped" using a by (auto split: if_splits)
    then obtain t where "ph t = Waking w" using D(6) by blast
    then have "?ph t = Waking w" using p by auto
    moreover have "w \<noteq> idle" using w D(7) by auto
    ultimately show ?thesis using D(6) [OF w] on(2) by blast
  qed
  show "?ph idle = Outside" using D(7) c by simp
qed (use c in simp)

lemma phases_leave:
  assumes ok: "phases_ok ph idle on [] c" and c: "ph c = Inside"
  shows "phases_ok (ph(c := Outside)) idle on [] NULL"
proof (rule phases_okI)
  note D = phases_okD [OF ok]
  let ?ph = "ph(c := Outside)"
  show "?ph t = Waiting \<longleftrightarrow> t \<in> set []" for t using D(1) [of t] by auto
  show "?ph t = Inside \<longleftrightarrow> t \<noteq> NULL \<and> t = NULL" for t using D(2) [of t] by auto
  show "t \<in> on" if "?ph t = Woken" for t using D(3) [of t] that by (auto split: if_splits)
  show "t \<in> on \<and> w \<noteq> NULL \<and> ?ph w = Popped" if "?ph t = Waking w" for t w
    using D(4) [of t w] c that by (auto split: if_splits)
  show "t = u" if "?ph t = Waking w" "?ph u = Waking w" for t u w
    using D(5) [of t w u] that by (auto split: if_splits)
  show "w \<notin> on \<and> (\<exists>t. ?ph t = Waking w)" if a: "?ph w = Popped" for w
  proof -
    have w: "ph w = Popped" using a by (auto split: if_splits)
    then obtain t where "ph t = Waking w" using D(6) by blast
    then have "?ph t = Waking w" using c by auto
    then show ?thesis using D(6) [OF w] by blast
  qed
  show "?ph idle = Outside" using D(7) by simp
qed simp

lemma phases_release:
  assumes ok: "phases_ok ph idle on (w # ws) c" and c: "ph c = Inside" "c \<in> on" and w: "w \<noteq> NULL" "w \<notin> set ws" "w \<notin> on" "w \<noteq> idle"
  shows "phases_ok (ph(c := Waking w, w := Popped)) idle on ws NULL"
proof (rule phases_okI)
  note D = phases_okD [OF ok]
  let ?ph = "ph(c := Waking w, w := Popped)"
  have p: "ph w = Waiting" "c \<noteq> w" using D(1) [of w] c(1) by auto
  have nw: "ph t \<noteq> Waking w" for t using D(4) [of t w] p(1) by auto
  show "?ph t = Waiting \<longleftrightarrow> t \<in> set ws" for t using D(1) [of t] c w(2) by auto
  show "?ph t = Inside \<longleftrightarrow> t \<noteq> NULL \<and> t = NULL" for t using D(2) [of t] by auto
  show "t \<in> on" if "?ph t = Woken" for t using D(3) [of t] that by (auto split: if_splits)
  show "t \<in> on \<and> x \<noteq> NULL \<and> ?ph x = Popped" if "?ph t = Waking x" for t x
    using D(4) [of t x] c w(1) that by (auto split: if_splits)
  show "t = u" if "?ph t = Waking x" "?ph u = Waking x" for t u x
    using D(5) [of t x u] nw that by (auto split: if_splits)
  show "x \<notin> on \<and> (\<exists>t. ?ph t = Waking x)" if a: "?ph x = Popped" for x
  proof (cases "x = w")
    case True
    then show ?thesis using p(2) w(3) by (auto intro: exI [of _ c])
  next
    case False
    then have x: "ph x = Popped" using a by (auto split: if_splits)
    then obtain t where t: "ph t = Waking x" using D(6) by blast
    then have "?ph t = Waking x" using c(1) p(1) by auto
    then show ?thesis using D(6) [OF x] by blast
  qed
  show "?ph idle = Outside" using D(7) c w(4) by auto
  show "\<exists>t. ?ph t = Woken \<or> (\<exists>w. ?ph t = Waking w)" using p(2) by (auto intro: exI [of _ c])
qed

lemma phases_wake:
  assumes ok: "phases_ok ph idle on ws lk" and c: "ph c = Waking w"
  shows "phases_ok (ph(c := Outside, w := Woken)) idle (insert w on) ws lk"
proof (rule phases_okI)
  note D = phases_okD [OF ok]
  let ?ph = "ph(c := Outside, w := Woken)"
  have p: "ph w = Popped" "w \<noteq> c" "c \<in> on" using D(4) [OF c] c by auto
  show "?ph t = Waiting \<longleftrightarrow> t \<in> set ws" for t using D(1) [of t] c p by auto
  show "?ph t = Inside \<longleftrightarrow> t \<noteq> NULL \<and> t = lk" for t using D(2) [of t] c p by auto
  show "t \<in> insert w on" if "?ph t = Woken" for t using D(3) [of t] that by (auto split: if_splits)
  show "t \<in> insert w on \<and> x \<noteq> NULL \<and> ?ph x = Popped" if a: "?ph t = Waking x" for t x
  proof -
    have t: "t \<noteq> c" "ph t = Waking x" using a by (auto split: if_splits)
    then have "x \<noteq> w" using D(5) [OF c, of t] by auto
    then show ?thesis using D(4) [OF t(2)] c by auto
  qed
  show "t = u" if "?ph t = Waking x" "?ph u = Waking x" for t u x
    using D(5) [of t x u] that by (auto split: if_splits)
  show "x \<notin> insert w on \<and> (\<exists>t. ?ph t = Waking x)" if a: "?ph x = Popped" for x
  proof -
    have x: "ph x = Popped" "x \<noteq> w" using a by (auto split: if_splits)
    then obtain t where t: "ph t = Waking x" using D(6) by blast
    then have "?ph t = Waking x" using c p x by auto
    then show ?thesis using D(6) [OF x(1)] x(2) by blast
  qed
  show "?ph idle = Outside" using D(7) p by auto
qed (auto intro: exI [of _ w])

text \<open>The invariant, for the ready threads \<open>ts\<close> and the waiting threads \<open>ws\<close>.\<close>

definition mutex_inv :: "mutex_id \<Rightarrow> sched_state \<Rightarrow> (ptr \<Rightarrow> phase) \<Rightarrow> ptr list \<Rightarrow> ptr list \<Rightarrow> bool" where
  "mutex_inv m s ph ts ws \<longleftrightarrow> sched_inv s ts \<and> queued (sched_link s) (waiters (mutexes s m)) ws
     \<and> set ws \<inter> set ts = {} \<and> thread_current s \<notin> set ws \<and> thread_idle s \<notin> set ws
     \<and> thread_current s \<noteq> NULL \<and> t_state (threads s (thread_current s)) = RUNNING
     \<and> phases_ok ph (thread_idle s) (insert (thread_current s) (set ts)) ws (locker (mutexes s m))"

inductive mutex_reach :: "mutex_id \<Rightarrow> sched_state \<times> (ptr \<Rightarrow> phase) \<Rightarrow> bool" for m where
  start: "sched_inv s ts \<Longrightarrow> thread_current s \<noteq> NULL \<Longrightarrow> t_state (threads s (thread_current s)) = RUNNING \<Longrightarrow>
      mutex_reach m (mutex_init m s, \<lambda>_. Outside)"
| step: "mutex_reach m x \<Longrightarrow> mutex_step m x y \<Longrightarrow> mutex_reach m y"

lemma mutex_inv_start:
  assumes "sched_inv s ts" and "thread_current s \<noteq> NULL" and "t_state (threads s (thread_current s)) = RUNNING"
  shows "mutex_inv m (mutex_init m s) (\<lambda>_. Outside) ts []"
  using assms by (simp add: mutex_inv_def phases_ok_def sched_inv_def mutex_init_def set_mutex_def Let_def spinlock_init_def addrs_ok_def)

text \<open>A switch, by the timer or by a thread that has queued itself and sleeps, leaves a waiting queue alone.\<close>

lemma switch_keeps_queue:
  assumes si: "sched_inv s ts" and c: "can_switch s (thread_current s)"
    and q: "queued (sched_link s) q ws" "set ws \<inter> set ts = {}" "thread_idle s \<notin> set ws"
    and cw: "thread_current s \<in> set ws \<longrightarrow> \<not> stays_ready s (thread_current s)"
  shows "\<exists>s' us. sched_irq p s = Some s' \<and> sched_inv s' us \<and> queued (sched_link s') q ws \<and> mutexes s' = mutexes s
    \<and> set ws \<inter> set us = {} \<and> thread_current s' \<notin> set ws \<and> thread_idle s' = thread_idle s
    \<and> thread_current s' \<noteq> NULL \<and> t_state (threads s' (thread_current s')) = RUNNING
    \<and> set ts \<union> (if stays_ready s (thread_current s) then {thread_current s} else {}) \<subseteq> insert (thread_current s') (set us)
    \<and> insert (thread_current s') (set us) \<subseteq> insert (thread_idle s) (insert (thread_current s) (set ts))"
proof -
  let ?c = "thread_current s"
  obtain n us where ch: "sched_choice s ?c ts = (n, us)" by (cases "sched_choice s ?c ts")
  obtain s' where s': "sched_irq p s = Some s'" "sched_inv s' us" "thread_current s' = n" "thread_idle s' = thread_idle s"
    "threads s' = switched s ?c n" "mutexes s' = mutexes s"
    "\<forall>x. x \<notin> set ts \<longrightarrow> x \<noteq> ?c \<or> \<not> stays_ready s ?c \<longrightarrow> sched_link s' x = sched_link s x"
    using sched_irq_ok [OF si c, of p] unfolding ch by auto
  have set: "set (sched_order s ?c ts) \<subseteq> insert n (set us)" "insert n (set us) \<subseteq> insert (thread_idle s) (set (sched_order s ?c ts))"
    using ch by (auto simp: sched_pick_def split: list.splits)
  have "queued (sched_link s') q ws"
    using q(1,2) cw s'(7) by (intro queued_frame [OF q(1)]) blast
  moreover have "set ws \<inter> insert n (set us) = {}"
    using set(2) q(2,3) cw by (auto simp: set_sched_order split: if_splits)
  moreover have "n \<noteq> NULL"
    using set(2) si by (auto simp: set_sched_order sched_inv_def stays_ready_def split: if_splits dest: queued_distinct)
  moreover have "set ts \<union> (if stays_ready s ?c then {?c} else {}) \<subseteq> insert n (set us)"
    using set(1) by (auto simp: set_sched_order split: if_splits)
  moreover have "insert n (set us) \<subseteq> insert (thread_idle s) (insert ?c (set ts))"
    using set(2) by (auto simp: set_sched_order split: if_splits)
  ultimately show ?thesis using s' by (intro exI [of _ s'] exI [of _ us]) auto
qed

text \<open>The steps keep the invariant.\<close>

lemma mutex_inv_tick:
  assumes inv: "mutex_inv m s ph ts ws" and irq: "sched_irq p s = Some s'"
  shows "\<exists>us. mutex_inv m s' ph us ws"
proof -
  have i: "sched_inv s ts" "can_switch s (thread_current s)" "queued (sched_link s) (waiters (mutexes s m)) ws"
    "set ws \<inter> set ts = {}" "thread_idle s \<notin> set ws" "thread_current s \<notin> set ws"
    using inv by (simp_all add: mutex_inv_def can_switch_def)
  obtain us where us: "sched_inv s' us" "queued (sched_link s') (waiters (mutexes s m)) ws" "mutexes s' = mutexes s"
    "set ws \<inter> set us = {}" "thread_current s' \<notin> set ws" "thread_idle s' = thread_idle s"
    "thread_current s' \<noteq> NULL" "t_state (threads s' (thread_current s')) = RUNNING"
    "set ts \<union> (if stays_ready s (thread_current s) then {thread_current s} else {}) \<subseteq> insert (thread_current s') (set us)"
    "insert (thread_current s') (set us) \<subseteq> insert (thread_idle s) (insert (thread_current s) (set ts))"
    using switch_keeps_queue [OF i(1-5), of p] i(6) irq by auto
  have "thread_current s \<noteq> thread_idle s \<longrightarrow> stays_ready s (thread_current s)"
    using inv by (simp add: mutex_inv_def stays_ready_def)
  then have on: "insert (thread_current s) (set ts) - {thread_idle s} \<subseteq> insert (thread_current s') (set us)"
    using us(9) by (auto split: if_splits)
  have "phases_ok ph (thread_idle s) (insert (thread_current s') (set us)) ws (locker (mutexes s m))"
    using inv by (intro phases_switch [OF _ on us(10)]) (simp add: mutex_inv_def)
  then have "mutex_inv m s' ph us ws" using us(1,2,4,5,7,8) i(5) by (simp add: mutex_inv_def us(3,6))
  then show ?thesis by blast
qed

lemma mutex_inv_acquire:
  assumes inv: "mutex_inv m s ph ts ws" and l: "mutex_lock m s = Some (True, s')" and ph: "ph (thread_current s) \<in> {Outside, Woken}"
    and c: "thread_current s \<noteq> thread_idle s"
  shows "mutex_inv m s' (ph(thread_current s := Inside)) ts ws"
proof -
  have lk: "locks_ok s" "thread_current s \<noteq> NULL" using inv by (simp_all add: mutex_inv_def sched_inv_def)
  have free: "locker (mutexes s m) = NULL"
    using l lk by (auto simp: mutex_lock_def op_simps Let_def split: Option.bind_splits prod.splits if_splits)
  have s': "s' = s\<lparr>mutexes := (mutexes s)(m := (mutexes s m)\<lparr>locker := thread_current s\<rparr>), locks := lock_used (MUTEX_SPINLOCK m) s\<rparr>"
    using l mutex_lock_free [OF lk(1) free] by simp
  have "phases_ok (ph(thread_current s := Inside)) (thread_idle s) (insert (thread_current s) (set ts)) ws (thread_current s)"
    using inv free ph lk(2) c by (intro phases_acquire) (auto simp: mutex_inv_def)
  then show ?thesis using inv by (simp add: mutex_inv_def sched_inv_def s')
qed

text \<open>The loop of \<^verbatim>\<open>mutex_lock\<close> on a held mutex: the thread is the last of the queue and another one runs.\<close>

lemma mutex_lock_waits:
  assumes si: "sched_inv s ts" and held: "locker (mutexes s m) \<noteq> NULL" and c: "thread_current s \<noteq> NULL" "thread_current s \<noteq> thread_idle s"
    and w: "queued (sched_link s) (waiters (mutexes s m)) ws" "set ws \<inter> set ts = {}" "thread_idle s \<notin> set ws" "thread_current s \<notin> set ws"
  shows "\<exists>s' us q. mutex_lock m s = Some (False, s') \<and> sched_inv s' us \<and> queued (sched_link s') q (ws @ [thread_current s])
    \<and> mutexes s' = (mutexes s)(m := (mutexes s m)\<lparr>waiters := q\<rparr>)
    \<and> set (ws @ [thread_current s]) \<inter> set us = {} \<and> thread_current s' \<notin> set (ws @ [thread_current s]) \<and> thread_idle s' = thread_idle s
    \<and> thread_current s' \<noteq> NULL \<and> t_state (threads s' (thread_current s')) = RUNNING
    \<and> set ts \<subseteq> insert (thread_current s') (set us)
    \<and> insert (thread_current s') (set us) \<subseteq> insert (thread_idle s) (insert (thread_current s) (set ts))"
proof -
  let ?c = "thread_current s"
  have i: "locks_ok s" "?c \<notin> set ts" using si by (simp_all add: sched_inv_def)
  obtain q link where q: "threadqueue_add (waiters (mutexes s m)) ?c (sched_link s) = Some (q, link)" "queued link q (ws @ [?c])"
    "\<forall>x. x \<notin> set ws \<longrightarrow> x \<noteq> ?c \<longrightarrow> link x = sched_link s x"
    using threadqueue_add_ok [OF w(1) c(1) w(4)] by blast
  let ?s1 = "\<lambda>ctxs. s\<lparr>sched_link := link, mutexes := (mutexes s)(m := (mutexes s m)\<lparr>waiters := q\<rparr>), locks := lock_used (MUTEX_SPINLOCK m) s,
      int_flag := False, threads := (threads s)(?c := (threads s ?c)\<lparr>t_state := SLEEPING\<rparr>), irq_ctxs := ctxs\<rparr>"
  have "\<exists>ctxs p. mutex_lock m s = Option.bind (sched_irq p (?s1 ctxs)) (\<lambda>s. Some (False, s))"
    using held i(1) q(1)
    by (simp add: mutex_lock_def thread_sleep_def cpu_arch_disable_int_def sched_yield_def Let_def set_thread_def set_mutex_def op_simps)
      blast
  then obtain ctxs p where run: "mutex_lock m s = Option.bind (sched_irq p (?s1 ctxs)) (\<lambda>s. Some (False, s))" by blast
  let ?s = "?s1 ctxs"
  have q': "queued link (s_ready_queue s) ts"
  proof (rule queued_frame)
    show "queued (sched_link s) (s_ready_queue s) ts" using si by (simp add: sched_inv_def)
    show "link x = sched_link s x" if "x \<in> set ts" for x
      using that w(2) i(2) q(3) by (metis disjoint_iff)
  qed
  have "\<forall>t \<in> set ts. t_state (threads ?s t) = READY" using si i(2) by (auto simp: sched_inv_def)
  then have si': "sched_inv ?s ts" using si q' by (simp add: sched_inv_def)
  have cs: "can_switch ?s (thread_current ?s)" "thread_current ?s \<in> set (ws @ [?c]) \<longrightarrow> \<not> stays_ready ?s (thread_current ?s)"
    by (simp_all add: can_switch_def stays_ready_def)
  have qs: "queued (sched_link ?s) q (ws @ [?c])" "set (ws @ [?c]) \<inter> set ts = {}" "thread_idle ?s \<notin> set (ws @ [?c])"
    using q(2) i(2) w c by auto
  obtain s2 us where "sched_irq p ?s = Some s2" "sched_inv s2 us" "queued (sched_link s2) q (ws @ [?c])" "mutexes s2 = mutexes ?s"
    "set (ws @ [?c]) \<inter> set us = {}" "thread_current s2 \<notin> set (ws @ [?c])" "thread_idle s2 = thread_idle ?s"
    "thread_current s2 \<noteq> NULL" "t_state (threads s2 (thread_current s2)) = RUNNING"
    "set ts \<union> (if stays_ready ?s (thread_current ?s) then {thread_current ?s} else {}) \<subseteq> insert (thread_current s2) (set us)"
    "insert (thread_current s2) (set us) \<subseteq> insert (thread_idle ?s) (insert (thread_current ?s) (set ts))"
    using switch_keeps_queue [OF si' cs(1) qs cs(2), of p] by blast
  then show ?thesis using run by (intro exI [of _ s2] exI [of _ us] exI [of _ q]) (simp split: if_splits)
qed

lemma mutex_inv_wait:
  assumes inv: "mutex_inv m s ph ts ws" and l: "mutex_lock m s = Some (False, s')" and ph: "ph (thread_current s) \<in> {Outside, Woken}"
    and c: "thread_current s \<noteq> thread_idle s"
  shows "\<exists>us. mutex_inv m s' (ph(thread_current s := Waiting)) us (ws @ [thread_current s])"
proof -
  let ?c = "thread_current s"
  have i: "locks_ok s" "?c \<noteq> NULL" "?c \<notin> set ws" "queued (sched_link s) (waiters (mutexes s m)) ws" "sched_inv s ts" "set ws \<inter> set ts = {}"
    "thread_idle s \<notin> set ws"
    using inv by (simp_all add: mutex_inv_def sched_inv_def)
  have held: "locker (mutexes s m) \<noteq> NULL"
    using l i(1) mutex_lock_free [OF i(1), of m] by auto
  obtain us q where us: "sched_inv s' us" "queued (sched_link s') q (ws @ [?c])" "mutexes s' = (mutexes s)(m := (mutexes s m)\<lparr>waiters := q\<rparr>)"
    "set (ws @ [?c]) \<inter> set us = {}" "thread_current s' \<notin> set (ws @ [?c])" "thread_idle s' = thread_idle s"
    "thread_current s' \<noteq> NULL" "t_state (threads s' (thread_current s')) = RUNNING" "set ts \<subseteq> insert (thread_current s') (set us)"
    "insert (thread_current s') (set us) \<subseteq> insert (thread_idle s) (insert ?c (set ts))"
    using mutex_lock_waits [OF i(5) held i(2) c i(4,6,7,3)] l by auto
  have mx: "mutexes s' m = (mutexes s m)\<lparr>waiters := q\<rparr>" by (simp add: us(3))
  have on: "insert ?c (set ts) - {thread_idle s, ?c} \<subseteq> insert (thread_current s') (set us)" using us(9) by auto
  have on': "insert (thread_current s') (set us) \<subseteq> insert (thread_idle s) (insert ?c (set ts))" using us(10) .
  have "phases_ok (ph(?c := Waiting)) (thread_idle s) (insert (thread_current s') (set us)) (ws @ [?c]) (locker (mutexes s m))"
    using inv ph c held by (intro phases_wait [OF _ _ _ _ on on']) (auto simp: mutex_inv_def)
  then have "mutex_inv m s' (ph(?c := Waiting)) us (ws @ [?c])"
    using us(1-8) mx i(7) c by (simp add: mutex_inv_def)
  then show ?thesis by blast
qed

lemma mutex_inv_release:
  assumes inv: "mutex_inv m s ph ts ws" and l: "mutex_release m s = Some (t, s')" and ph: "ph (thread_current s) = Inside"
  shows "\<exists>vs. mutex_inv m s' (if t = NULL then ph(thread_current s := Outside) else ph(thread_current s := Waking t, t := Popped)) ts vs"
proof -
  let ?c = "thread_current s" and ?on = "insert (thread_current s) (set ts)"
  have i: "locks_ok s" "?c \<notin> set ws" "queued (sched_link s) (waiters (mutexes s m)) ws" "set ws \<inter> set ts = {}" "thread_idle s \<notin> set ws"
    "phases_ok ph (thread_idle s) ?on ws (locker (mutexes s m))"
    using inv by (simp_all add: mutex_inv_def sched_inv_def)
  have c: "locker (mutexes s m) = ?c" using phases_okD(2) [OF i(6), of ?c] ph by simp
  let ?s = "\<lambda>q. s\<lparr>mutexes := (mutexes s)(m := (mutexes s m)\<lparr>locker := NULL, waiters := q\<rparr>), locks := lock_used (MUTEX_SPINLOCK m) s\<rparr>"
  have run: "t = w \<and> s' = ?s q" if "threadqueue_pop (waiters (mutexes s m)) (sched_link s) = (w, q)" for w q
    using l i(1) that by (simp add: mutex_release_def set_mutex_def op_simps)
  show ?thesis
  proof (cases ws)
    case Nil
    have pop: "threadqueue_pop (waiters (mutexes s m)) (sched_link s) = (NULL, waiters (mutexes s m))"
      using i(3) Nil threadqueue_pop_Nil by blast
    have "phases_ok (ph(?c := Outside)) (thread_idle s) ?on [] NULL" using i(6) unfolding Nil c using ph by (rule phases_leave)
    then have "mutex_inv m s' (ph(?c := Outside)) ts []" using inv Nil run [OF pop] by (simp add: mutex_inv_def sched_inv_def)
    then show ?thesis using run [OF pop] by auto
  next
    case (Cons w vs)
    obtain q where pop: "threadqueue_pop (waiters (mutexes s m)) (sched_link s) = (w, q)" "queued (sched_link s) q vs"
      using threadqueue_pop_Cons i(3) Cons by blast
    have w: "w \<noteq> NULL" "w \<notin> set vs" "w \<notin> ?on" "w \<noteq> thread_idle s"
      using queued_distinct [OF i(3)] Cons i(2,4,5) by auto
    have "phases_ok (ph(?c := Waking w, w := Popped)) (thread_idle s) ?on vs NULL"
      using i(6) unfolding Cons c by (rule phases_release) (use ph w in simp_all)
    then have "mutex_inv m s' (ph(?c := Waking w, w := Popped)) ts vs"
      using inv Cons pop(2) run [OF pop(1)] by (simp add: mutex_inv_def sched_inv_def)
    then show ?thesis using run [OF pop(1)] w(1) by auto
  qed
qed

text \<open>The second part always runs to its end, and the thread is the last of the ready queue then.\<close>

lemma mutex_inv_wake:
  assumes inv: "mutex_inv m s ph ts ws" and ph: "ph (thread_current s) = Waking w"
  shows "\<exists>s'. mutex_wake w s = Some s' \<and> mutex_inv m s' (ph(thread_current s := Outside, w := Woken)) (ts @ [w]) ws"
proof -
  let ?c = "thread_current s" and ?on = "insert (thread_current s) (set ts)"
  have i: "locks_ok s" "queued (sched_link s) (waiters (mutexes s m)) ws" "sched_inv s ts" "set ws \<inter> set ts = {}"
    "phases_ok ph (thread_idle s) ?on ws (locker (mutexes s m))"
    using inv by (simp_all add: mutex_inv_def sched_inv_def)
  have w: "w \<noteq> NULL" "ph w = Popped" using phases_okD(4) [OF i(5) ph] by simp_all
  then have n: "w \<notin> set ts" "w \<noteq> ?c" "w \<notin> set ws" "w \<noteq> thread_idle s"
    using phases_okD(6) [OF i(5) w(2)] phases_okD(1) [OF i(5), of w] phases_okD(7) [OF i(5)] by auto
  let ?s = "\<lambda>rq link. s\<lparr>threads := (threads s)(w := (threads s w)\<lparr>t_state := READY\<rparr>), s_ready_queue := rq, sched_link := link,
      locks := lock_used SCHED_LOCK s\<rparr>"
  obtain rq link where add: "sched_add_ready w s = Some (?s rq link)" "queued link rq (ts @ [w])"
    "\<forall>x. x \<notin> set ts \<longrightarrow> x \<noteq> w \<longrightarrow> link x = sched_link s x"
    using sched_add_ready_ok [of s ts w] i(1,3) w(1) n(1) by (auto simp: sched_inv_def)
  have run: "mutex_wake w s = Some (?s rq link)" using w(1) add(1) by (simp add: mutex_wake_def thread_wake_up_def)
  have q: "queued link (waiters (mutexes s m)) ws" using add(3) n(3) i(4) by (intro queued_frame [OF i(2)]) auto
  have "phases_ok (ph(?c := Outside, w := Woken)) (thread_idle s) (insert w ?on) ws (locker (mutexes s m))"
    by (rule phases_wake [OF i(5) ph])
  then have "phases_ok (ph(?c := Outside, w := Woken)) (thread_idle s) (insert ?c (set (ts @ [w]))) ws (locker (mutexes s m))"
    by (simp add: insert_commute)
  moreover have "sched_inv (?s rq link) (ts @ [w])" using i(3) add(2) n by (auto simp: sched_inv_def)
  ultimately have "mutex_inv m (?s rq link) (ph(?c := Outside, w := Woken)) (ts @ [w]) ws"
    using inv q n by (simp add: mutex_inv_def)
  then show ?thesis using run by blast
qed

lemma mutex_inv_step:
  assumes "mutex_step m x y" and "mutex_inv m (fst x) (snd x) ts ws"
  shows "\<exists>us vs. mutex_inv m (fst y) (snd y) us vs"
  using assms
proof (induction rule: mutex_step.induct)
  case (acquire s s' ph)
  then show ?case using mutex_inv_acquire [of m s ph ts ws s'] unfolding fst_conv snd_conv by blast
next
  case (wait s s' ph)
  then show ?case using mutex_inv_wait [of m s ph ts ws s'] unfolding fst_conv snd_conv by blast
next
  case (release s t s' ph)
  then show ?case using mutex_inv_release [of m s ph ts ws t s'] unfolding fst_conv snd_conv by blast
next
  case (wake t s s' ph)
  then show ?case using mutex_inv_wake [of m s ph ts ws t] unfolding fst_conv snd_conv by (metis option.inject)
next
  case (tick p s s' ph)
  then show ?case using mutex_inv_tick [of m s ph ts ws p s'] unfolding fst_conv snd_conv by blast
qed

lemma mutex_inv_reach: "mutex_reach m x \<Longrightarrow> \<exists>ts ws. mutex_inv m (fst x) (snd x) ts ws"
proof (induction rule: mutex_reach.induct)
  case (start s ts)
  then show ?case using mutex_inv_start [of s ts m] by auto
next
  case (step x y)
  then show ?case using mutex_inv_step by blast
qed

section \<open>Properties\<close>

text \<open>
  C14: mutual exclusion.  In every reachable state at most one thread is inside the section, and it is
  the one the mutex names as its owner, wherever the timer switched and whoever was woken.
\<close>

theorem mutex_exclusion:
  assumes "mutex_reach m (s, ph)" and "ph t = Inside"
  shows "locker (mutexes s m) = t \<and> (\<forall>u. ph u = Inside \<longrightarrow> u = t)"
proof -
  obtain ts ws where "mutex_inv m s ph ts ws" using mutex_inv_reach [OF assms(1)] by auto
  then have "phases_ok ph (thread_idle s) (insert (thread_current s) (set ts)) ws (locker (mutexes s m))" by (simp add: mutex_inv_def)
  then have "u = locker (mutexes s m)" if "ph u = Inside" for u using phases_okD(2) that by simp
  then show ?thesis using assms(2) by metis
qed

text \<open>
  C15: no lost wake-up.  In every reachable state the threads asleep in the queue of the mutex are those
  waiting for it.  If there are any and the mutex is free, a woken thread that will try again, or a thread that is about to wake
  one up in \<^verbatim>\<open>mutex_unlock\<close>, is running or in the ready queue.  A thread that was taken out of the queue and is not
  woken up yet has such a thread of its own; when that one runs, \<^verbatim>\<open>mutex_unlock\<close> ends with the other ready to run.
\<close>

theorem mutex_no_lost_wakeup:
  assumes "mutex_reach m (s, ph)"
  shows "\<exists>ts ws. sched_inv s ts \<and> queued (sched_link s) (waiters (mutexes s m)) ws \<and> (\<forall>t. ph t = Waiting \<longleftrightarrow> t \<in> set ws)
    \<and> (ws \<noteq> [] \<and> locker (mutexes s m) = NULL \<longrightarrow> (\<exists>u. (u = thread_current s \<or> u \<in> set ts) \<and> (ph u = Woken \<or> (\<exists>w. ph u = Waking w))))
    \<and> (\<forall>w. ph w = Popped \<longrightarrow> (\<exists>u. (u = thread_current s \<or> u \<in> set ts) \<and> ph u = Waking w))
    \<and> (\<forall>w. ph (thread_current s) = Waking w \<longrightarrow> ph w = Popped
        \<and> (\<exists>s'. mutex_wake w s = Some s' \<and> sched_inv s' (ts @ [w]) \<and> mutex_reach m (s', ph(thread_current s := Outside, w := Woken))))"
proof -
  obtain ts ws where inv: "mutex_inv m s ph ts ws" using mutex_inv_reach [OF assms] by auto
  then have ok: "phases_ok ph (thread_idle s) (insert (thread_current s) (set ts)) ws (locker (mutexes s m))" by (simp add: mutex_inv_def)
  note D = phases_okD [OF ok]
  have "\<exists>u. (u = thread_current s \<or> u \<in> set ts) \<and> (ph u = Woken \<or> (\<exists>w. ph u = Waking w))" if "ws \<noteq> []" "locker (mutexes s m) = NULL"
    using D(8) [OF that] D(3,4) by (metis insert_iff)
  moreover have "\<exists>u. (u = thread_current s \<or> u \<in> set ts) \<and> ph u = Waking w" if "ph w = Popped" for w
    using D(6) [OF that] D(4) by (metis insert_iff)
  moreover have "ph w = Popped \<and> (\<exists>s'. mutex_wake w s = Some s' \<and> sched_inv s' (ts @ [w]) \<and> mutex_reach m (s', ph(thread_current s := Outside, w := Woken)))"
    if p: "ph (thread_current s) = Waking w" for w
  proof -
    obtain s' where s': "mutex_wake w s = Some s'" "mutex_inv m s' (ph(thread_current s := Outside, w := Woken)) (ts @ [w]) ws"
      using mutex_inv_wake [OF inv p] by blast
    have "mutex_step m (s, ph) (s', ph(thread_current s := Outside, w := Woken))" using s'(1) p by (rule mutex_step.wake)
    then show ?thesis using D(4) [OF p] s' mutex_reach.step [OF assms] by (auto simp: mutex_inv_def)
  qed
  moreover have "sched_inv s ts" "queued (sched_link s) (waiters (mutexes s m)) ws" using inv by (simp_all add: mutex_inv_def)
  ultimately show ?thesis using D(1) by (intro exI [of _ ts] exI [of _ ws] conjI allI impI) simp_all
qed

text \<open>
  A run: the thread \<open>0x2000\<close> takes the mutex, the timer switches to \<open>0x3000\<close>, which has to wait.
\<close>

lemma sample_reach:
  "\<exists>s ph. mutex_reach SHMEM_MUTEX (s, ph) \<and> ph 0x2000 = Inside \<and> thread_current s = 0x2000 \<and> ph 0x3000 = Outside
     \<and> sched_inv s [0x3000, 0x4000] \<and> locker (mutexes s SHMEM_MUTEX) = 0x2000 \<and> thread_idle s = 0x1000
     \<and> t_state (threads s 0x2000) = RUNNING \<and> queued (sched_link s) (waiters (mutexes s SHMEM_MUTEX)) []"
proof -
  let ?m = SHMEM_MUTEX
  define s where "s = mutex_init ?m sample_sched"
  have start: "mutex_reach ?m (s, \<lambda>_. Outside)"
    unfolding s_def by (rule mutex_reach.start [OF sample_sched_inv]) (simp_all add: sample_defs)
  have inv: "sched_inv s [0x3000, 0x4000]" "locker (mutexes s ?m) = NULL" "thread_current s = 0x2000" "thread_idle s = 0x1000"
    "queued (sched_link s) (waiters (mutexes s ?m)) []" "t_state (threads s 0x2000) = RUNNING"
    using mutex_inv_start [OF sample_sched_inv, of ?m] unfolding s_def
    by (simp_all add: mutex_inv_def sample_defs mutex_init_def set_mutex_def Let_def spinlock_init_def)
  let ?s = "s\<lparr>mutexes := (mutexes s)(?m := (mutexes s ?m)\<lparr>locker := thread_current s\<rparr>), locks := lock_used (MUTEX_SPINLOCK ?m) s\<rparr>"
  have l: "mutex_lock ?m s = Some (True, ?s)"
    using mutex_lock_free [of s ?m] inv(1,2) by (simp add: sched_inv_def)
  have "mutex_reach ?m (?s, (\<lambda>_. Outside)(thread_current s := Inside))"
    by (rule mutex_reach.step [OF start mutex_step.acquire [OF l]]) (simp_all add: inv)
  then show ?thesis using inv by (intro exI [of _ ?s] exI [of _ "(\<lambda>_. Outside)(thread_current s := Inside)"]) (simp add: sched_inv_def)
qed

lemma mutex_exclusion_witness:
  "\<exists>s ph. mutex_reach SHMEM_MUTEX (s, ph) \<and> locker (mutexes s SHMEM_MUTEX) = 0x2000 \<and> (\<forall>u. ph u = Inside \<longrightarrow> u = 0x2000)"
  using sample_reach mutex_exclusion by blast

lemma mutex_no_lost_wakeup_witness:
  "\<exists>s ph ws. mutex_reach SHMEM_MUTEX (s, ph) \<and> queued (sched_link s) (waiters (mutexes s SHMEM_MUTEX)) ws \<and> 0x3000 \<in> set ws"
proof -
  let ?m = SHMEM_MUTEX
  obtain s ph where s: "mutex_reach ?m (s, ph)" "ph 0x3000 = Outside" "thread_current s = 0x2000" "sched_inv s [0x3000, 0x4000]"
    "locker (mutexes s ?m) = 0x2000" "thread_idle s = 0x1000" "t_state (threads s 0x2000) = RUNNING"
    "queued (sched_link s) (waiters (mutexes s ?m)) []"
    using sample_reach by blast
  have "sched_choice s (thread_current s) [0x3000, 0x4000] = (0x3000, [0x4000, 0x2000])"
    using s by (simp add: sched_order_def stays_ready_def sched_pick_def)
  then obtain s1 where s1: "sched_irq 0x5000 s = Some s1" "thread_current s1 = 0x3000" "mutexes s1 = mutexes s" "thread_idle s1 = 0x1000"
    using sched_irq_ok [OF s(4), of "0x5000"] s by (auto simp: can_switch_def)
  have r1: "mutex_reach ?m (s1, ph)" using mutex_reach.step [OF s(1) mutex_step.tick [OF s1(1)]] .
  then obtain ts ws where inv: "mutex_inv ?m s1 ph ts ws" using mutex_inv_reach by fastforce
  then obtain s2 where l: "mutex_lock ?m s1 = Some (False, s2)"
    using mutex_lock_waits [of s1 ts ?m ws] s(5) s1 by (auto simp: mutex_inv_def)
  have r2: "mutex_reach ?m (s2, ph(thread_current s1 := Waiting))"
    by (rule mutex_reach.step [OF r1 mutex_step.wait [OF l]]) (simp_all add: s1 s)
  then show ?thesis using mutex_no_lost_wakeup [OF r2] s1(2) by (metis fun_upd_same)
qed

end
