(* ===== verification/Paging.thy ===== *)
theory Paging
  imports Thread
begin

text \<open>
  The page tables (\<^verbatim>\<open>arch/mm/vmm.c\<close>).  A table is a page of 512 entries, read and written through the
  physical map: \<open>ptes v i\<close> is entry \<open>i\<close> of the table at the virtual address \<open>v\<close>.  The theorems relate
  the walk the kernel does with the translation the processor does with the same tables.
\<close>

section \<open>Data\<close>

abbreviation (input) PAGE_PRESENT :: u32 where "PAGE_PRESENT \<equiv> 1"
abbreviation (input) PAGE_WRITE :: u32 where "PAGE_WRITE \<equiv> 2"
abbreviation (input) PAGE_USER :: u32 where "PAGE_USER \<equiv> 4"
abbreviation (input) PAGE_2MB :: u32 where "PAGE_2MB \<equiv> 0x80"

abbreviation (input) VMM_READ :: u32 where "VMM_READ \<equiv> 1"
abbreviation (input) VMM_WRITE :: u32 where "VMM_WRITE \<equiv> 2"
abbreviation (input) VMM_USER :: u32 where "VMM_USER \<equiv> 4"
abbreviation (input) VMM_FIXED :: u32 where "VMM_FIXED \<equiv> 8"
abbreviation (input) VMM_STACK :: u32 where "VMM_STACK \<equiv> 16"

text \<open>
  \<open>kpml4\<close>, \<open>kpdp\<close>, \<open>phys_pdp\<close> and \<open>phys_pd\<close> are the addresses of the tables the kernel image holds;
  \<open>tlb_flushes\<close> counts the reloads of \<^verbatim>\<open>cr3\<close>.
\<close>

record page_state = sched_state +
  ptes :: "ptr \<Rightarrow> nat \<Rightarrow> u64"
  kpml4 :: ptr
  kpdp :: ptr
  phys_pdp :: ptr
  phys_pd :: ptr
  tlb_flushes :: nat

definition PML4_INDEX :: "u64 \<Rightarrow> nat" where "PML4_INDEX a = unat (drop_bit 39 a AND 0x1ff)"
definition PDP_INDEX :: "u64 \<Rightarrow> nat" where "PDP_INDEX a = unat (drop_bit 30 a AND 0x1ff)"
definition PD_INDEX :: "u64 \<Rightarrow> nat" where "PD_INDEX a = unat (drop_bit 21 a AND 0x1ff)"
definition PT_INDEX :: "u64 \<Rightarrow> nat" where "PT_INDEX a = unat (drop_bit 12 a AND 0x1ff)"

section \<open>Operations\<close>

definition get_paging_flags :: "u32 \<Rightarrow> u32" where
  "get_paging_flags vmm_flags =
     (let ret = PAGE_PRESENT;
          ret = (if vmm_flags AND VMM_WRITE \<noteq> 0 then ret OR PAGE_WRITE else ret)
      in if vmm_flags AND VMM_USER \<noteq> 0 then ret OR PAGE_USER else ret)"

definition set_pte :: "ptr \<Rightarrow> nat \<Rightarrow> u64 \<Rightarrow> 'a page_state_scheme \<Rightarrow> 'a page_state_scheme" where
  "set_pte tab i v s = s\<lparr>ptes := (ptes s)(tab := (ptes s tab)(i := v))\<rparr>"

definition set_pml4_entry :: "ptr \<Rightarrow> u64 \<Rightarrow> u64 \<Rightarrow> u32 \<Rightarrow> 'a page_state_scheme \<Rightarrow> 'a page_state_scheme" where
  "set_pml4_entry pml4 addr p flags s = set_pte pml4 (PML4_INDEX addr) (p OR ucast flags) s"

definition set_pdp_entry :: "ptr \<Rightarrow> u64 \<Rightarrow> u64 \<Rightarrow> u32 \<Rightarrow> 'a page_state_scheme \<Rightarrow> 'a page_state_scheme" where
  "set_pdp_entry pdp addr p flags s = set_pte pdp (PDP_INDEX addr) (p OR ucast flags) s"

definition cpu_flush_cr3 :: "'a page_state_scheme \<Rightarrow> 'a page_state_scheme" where
  "cpu_flush_cr3 s = s\<lparr>tlb_flushes := tlb_flushes s + 1\<rparr>"

text \<open>\<^verbatim>\<open>memsetl(p, 0, PAGE_SIZE / 4)\<close> on a table.\<close>

definition clear_table :: "ptr \<Rightarrow> 'a page_state_scheme \<Rightarrow> 'a page_state_scheme" where
  "clear_table tab s = s\<lparr>ptes := (ptes s)(tab := (\<lambda>i. if i < 512 then 0 else ptes s tab i))\<rparr>"

text \<open>
  \<^verbatim>\<open>get_pml4_entry\<close>, \<^verbatim>\<open>get_pdp_entry\<close> and \<^verbatim>\<open>get_pd_entry\<close> have the same body up to the index: the physical
  address of the next table, allocated if need be, or NULL.
\<close>

definition get_entry :: "ptr \<Rightarrow> nat \<Rightarrow> bool \<Rightarrow> u32 \<Rightarrow> 'a page_state_scheme \<Rightarrow> (ptr \<times> 'a page_state_scheme) option" where
  "get_entry tab idx alloc flags s =
     (if ptes s tab idx \<noteq> 0 then Some (ptes s tab idx AND PAGE_MASK, s)
      else if \<not> alloc then Some (NULL, s)
      else do {
        (p, s) \<leftarrow> pmm_alloc s;
        if p = 0 then Some (NULL, s)
        else do {
          v \<leftarrow> vmm_provide_phys p;
          let s = clear_table v s;
          Some (p, set_pte tab idx (p OR ucast flags OR ucast PAGE_WRITE) s)
        }
      })"

definition get_pml4_entry :: "ptr \<Rightarrow> u64 \<Rightarrow> bool \<Rightarrow> u32 \<Rightarrow> 'a page_state_scheme \<Rightarrow> (ptr \<times> 'a page_state_scheme) option" where
  "get_pml4_entry pml4 addr alloc flags s = get_entry pml4 (PML4_INDEX addr) alloc flags s"

definition get_pdp_entry :: "ptr \<Rightarrow> u64 \<Rightarrow> bool \<Rightarrow> u32 \<Rightarrow> 'a page_state_scheme \<Rightarrow> (ptr \<times> 'a page_state_scheme) option" where
  "get_pdp_entry pdp addr alloc flags s = get_entry pdp (PDP_INDEX addr) alloc flags s"

definition get_pd_entry :: "ptr \<Rightarrow> u64 \<Rightarrow> bool \<Rightarrow> u32 \<Rightarrow> 'a page_state_scheme \<Rightarrow> (ptr \<times> 'a page_state_scheme) option" where
  "get_pd_entry pd addr alloc flags s = get_entry pd (PD_INDEX addr) alloc flags s"

definition vmm_arch_init_process :: "ptr \<Rightarrow> 'a page_state_scheme \<Rightarrow> 'a page_state_scheme option" where
  "vmm_arch_init_process arch_p s = do {
     pml4 \<leftarrow> vmm_provide_phys (arch_cr3 s arch_p);
     Some (s\<lparr>ptes := (ptes s)(pml4 := (\<lambda>i. if 256 \<le> i \<and> i < 512 then ptes s (kpml4 s) i else ptes s pml4 i))\<rparr>)
   }"

definition vmm_arch_get_pt :: "ptr \<Rightarrow> u64 \<Rightarrow> bool \<Rightarrow> u32 \<Rightarrow> 'a page_state_scheme \<Rightarrow> (ptr \<times> 'a page_state_scheme) option" where
  "vmm_arch_get_pt pml4 virt alloc flags s = do {
     (pdp, s) \<leftarrow> get_pml4_entry pml4 virt alloc flags s;
     if pdp = NULL then Some (NULL, s)
     else do {
       pdp \<leftarrow> vmm_provide_phys pdp;
       (pd, s) \<leftarrow> get_pdp_entry pdp virt alloc flags s;
       if pd = NULL then Some (NULL, s)
       else do {
         pd \<leftarrow> vmm_provide_phys pd;
         get_pd_entry pd virt alloc flags s
       }
     }
   }"

definition vmm_arch_map :: "u64 \<Rightarrow> u64 \<Rightarrow> u32 \<Rightarrow> 'a page_state_scheme \<Rightarrow> (int \<times> 'a page_state_scheme) option" where
  "vmm_arch_map virt phys flags s = do {
     (pt, s) \<leftarrow> vmm_arch_get_pt (kpml4 s) virt True (get_paging_flags flags) s;
     if pt = NULL then Some (-1, s)
     else do {
       pt \<leftarrow> vmm_provide_phys pt;
       let s = set_pte pt (PT_INDEX virt) (phys OR ucast (get_paging_flags flags)) s;
       Some (0, cpu_flush_cr3 s)
     }
   }"

definition vmm_arch_unmap :: "u64 \<Rightarrow> 'a page_state_scheme \<Rightarrow> (int \<times> 'a page_state_scheme) option" where
  "vmm_arch_unmap virt s = do {
     (pt, s) \<leftarrow> vmm_arch_get_pt (kpml4 s) virt False 0 s;
     if pt = NULL then Some (-1, s)
     else do {
       pt \<leftarrow> vmm_provide_phys pt;
       Some (0, cpu_flush_cr3 (set_pte pt (PT_INDEX virt) 0 s))
     }
   }"

definition proc_cr3 :: "ptr \<Rightarrow> 'a sched_state_scheme \<Rightarrow> u64" where
  "proc_cr3 proc s = arch_cr3 s (p_arch_data (processes s proc))"

definition vmm_arch_proc_map :: "ptr \<Rightarrow> u64 \<Rightarrow> u64 \<Rightarrow> u32 \<Rightarrow> 'a page_state_scheme \<Rightarrow> (int \<times> 'a page_state_scheme) option" where
  "vmm_arch_proc_map proc virt phys flags s = do {
     pml4 \<leftarrow> vmm_provide_phys (proc_cr3 proc s);
     (pt, s) \<leftarrow> vmm_arch_get_pt pml4 virt True (get_paging_flags flags) s;
     if pt = NULL then Some (-1, s)
     else do {
       pt \<leftarrow> vmm_provide_phys pt;
       if ptes s pt (PT_INDEX virt) \<noteq> 0 then Some (-1, s)
       else Some (0, set_pte pt (PT_INDEX virt) (phys OR ucast (get_paging_flags flags)) s)
     }
   }"

text \<open>The physical address is an out parameter, set when the result is 0.\<close>

definition vmm_arch_proc_translate :: "ptr \<Rightarrow> u64 \<Rightarrow> 'a page_state_scheme \<Rightarrow> (int \<times> u64 \<times> 'a page_state_scheme) option" where
  "vmm_arch_proc_translate proc virt s = do {
     pml4 \<leftarrow> vmm_provide_phys (proc_cr3 proc s);
     (pt, s) \<leftarrow> vmm_arch_get_pt pml4 virt False 0 s;
     if pt = NULL then Some (-1, 0, s)
     else do {
       pt \<leftarrow> vmm_provide_phys pt;
       if ptes s pt (PT_INDEX virt) = 0 then Some (-1, 0, s)
       else Some (0, ptes s pt (PT_INDEX virt) AND PAGE_MASK, s)
     }
   }"

text \<open>The boot-time part of the physical map: 512 pages of 2 MB.\<close>

definition MM_V2P :: "u64 \<Rightarrow> u64" where
  "MM_V2P a = a - KERNEL_VIRT_BASE"

definition vmm_arch_pre_init :: "'a page_state_scheme \<Rightarrow> 'a page_state_scheme" where
  "vmm_arch_pre_init s =
     (let s = set_pte (kpml4 s) 0 0 s;
          s = set_pte (kpdp s) 0 0 s;
          s = cpu_flush_cr3 s;
          s = s\<lparr>ptes := (ptes s)(phys_pd s := (\<lambda>i. if i < 512 then
                 ucast ((of_nat i * 2 * 1024 * 1024 :: u32) OR PAGE_PRESENT OR PAGE_WRITE OR PAGE_2MB) else ptes s (phys_pd s) i))\<rparr>;
          s = set_pdp_entry (phys_pdp s) PHYS_MAP_BASE (MM_V2P (phys_pd s)) (PAGE_PRESENT OR PAGE_WRITE) s
      in set_pml4_entry (kpml4 s) PHYS_MAP_BASE (MM_V2P (phys_pdp s)) (PAGE_PRESENT OR PAGE_WRITE) s)"

text \<open>\<^verbatim>\<open>vmm_arch_init\<close> has an empty loop body; it changes nothing.\<close>

definition vmm_arch_init :: "u64 \<Rightarrow> 'a page_state_scheme \<Rightarrow> 'a page_state_scheme" where
  "vmm_arch_init mem_size s = s"

section \<open>Address spaces\<close>

text \<open>
  The table or page a path of indices leads to from the table in the physical page \<open>r\<close>; the last index
  of the path is its head.  A path of four indices leads to the page an address is mapped to.
\<close>

fun follow :: "(ptr \<Rightarrow> nat \<Rightarrow> u64) \<Rightarrow> ptr \<Rightarrow> nat list \<Rightarrow> ptr option" where
  "follow pt r [] = Some r"
| "follow pt r (i # path) =
     (case follow pt r path of
        None \<Rightarrow> None
      | Some p \<Rightarrow> if pt (PHYS_MAP_BASE + p) i = 0 then None else Some (pt (PHYS_MAP_BASE + p) i AND PAGE_MASK))"

text \<open>Paths in the user half; the upper half of all address spaces is shared with the kernel.\<close>

definition user_path :: "nat list \<Rightarrow> bool" where
  "user_path path \<longleftrightarrow> length path \<le> 4 \<and> (\<forall>i \<in> set path. i < 512) \<and> (path \<noteq> [] \<longrightarrow> last path < 256)"

definition user_addr :: "u64 \<Rightarrow> bool" where
  "user_addr virt \<longleftrightarrow> virt < USER_REGION_SIZE"

text \<open>
  An entry of a table in the user half: present and for the user; an entry that leads to a table is also
  writable and does not stand for a large page.  The rights of a page are those of its last entry.
\<close>

definition entry_rights :: "bool \<Rightarrow> u64 \<Rightarrow> bool" where
  "entry_rights inner e \<longleftrightarrow> bit e 0 \<and> bit e 2 \<and> usable_page (e AND PAGE_MASK) \<and> (inner \<longrightarrow> bit e 1 \<and> \<not> bit e 7)"

text \<open>
  The tables of the address spaces with the roots \<open>R\<close>: each is a usable page of the pages \<open>U\<close> in use, no
  table is reached in two ways, and the entries have the rights above.
\<close>

definition tables_ok :: "(ptr \<Rightarrow> nat \<Rightarrow> u64) \<Rightarrow> ptr set \<Rightarrow> ptr set \<Rightarrow> bool" where
  "tables_ok pt R U \<longleftrightarrow>
     (\<forall>r \<in> R. \<forall>path p. user_path path \<and> length path \<le> 3 \<and> follow pt r path = Some p \<longrightarrow> usable_page p \<and> p \<in> U)
   \<and> (\<forall>r \<in> R. \<forall>r' \<in> R. \<forall>path path' p. user_path path \<and> length path \<le> 3 \<and> follow pt r path = Some p
        \<and> user_path path' \<and> length path' \<le> 3 \<and> follow pt r' path' = Some p \<longrightarrow> r = r' \<and> path = path')
   \<and> (\<forall>r \<in> R. \<forall>i path p. user_path (i # path) \<and> follow pt r path = Some p \<and> pt (PHYS_MAP_BASE + p) i \<noteq> 0 \<longrightarrow>
        entry_rights (length path < 3) (pt (PHYS_MAP_BASE + p) i))"

text \<open>The page an address is mapped to, and whether it may be written.\<close>

definition translate :: "(ptr \<Rightarrow> nat \<Rightarrow> u64) \<Rightarrow> ptr \<Rightarrow> u64 \<Rightarrow> (u64 \<times> bool) option" where
  "translate pt r virt =
     (case follow pt r [PD_INDEX virt, PDP_INDEX virt, PML4_INDEX virt] of
        None \<Rightarrow> None
      | Some t \<Rightarrow> let e = pt (PHYS_MAP_BASE + t) (PT_INDEX virt) in
                  if e = 0 then None else Some (e AND PAGE_MASK, bit e 1))"

text \<open>
  The translation of the processor in long mode: a present entry gives the next table, \<open>0x80\<close> a large
  page, and the rights are those all levels give.  The physical memory is seen at \<open>view\<close>.  The result is the physical address, whether the
  page may be written and whether user code may touch it.
\<close>

definition hw_entry :: "u64 \<Rightarrow> (u64 \<times> bool \<times> bool) option" where
  "hw_entry e = (if bit e 0 then Some (e AND 0x000ffffffffff000, bit e 1, bit e 2) else None)"

definition hw_walk :: "(ptr \<Rightarrow> nat \<Rightarrow> u64) \<Rightarrow> u64 \<Rightarrow> u64 \<Rightarrow> u64 \<Rightarrow> (u64 \<times> bool \<times> bool) option" where
  "hw_walk pt view root virt = do {
     (t3, w3, u3) \<leftarrow> hw_entry (pt (view + root) (PML4_INDEX virt));
     (t2, w2, u2) \<leftarrow> hw_entry (pt (view + t3) (PDP_INDEX virt));
     if bit (pt (view + t3) (PDP_INDEX virt)) 7
     then Some (t2 + take_bit 30 virt, w3 \<and> w2, u3 \<and> u2)
     else do {
       (t1, w1, u1) \<leftarrow> hw_entry (pt (view + t2) (PD_INDEX virt));
       if bit (pt (view + t2) (PD_INDEX virt)) 7
       then Some (t1 + take_bit 21 virt, w3 \<and> w2 \<and> w1, u3 \<and> u2 \<and> u1)
       else do {
         (p, w, u) \<leftarrow> hw_entry (pt (view + t1) (PT_INDEX virt));
         Some (p + take_bit 12 virt, w3 \<and> w2 \<and> w1 \<and> w, u3 \<and> u2 \<and> u1 \<and> u)
       }
     }
   }"

lemma user_path_tl: "user_path (i # path) \<Longrightarrow> user_path path"
  by (auto simp: user_path_def)

lemma tables_page: "tables_ok pt R U \<Longrightarrow> r \<in> R \<Longrightarrow> user_path path \<Longrightarrow> length path \<le> 3 \<Longrightarrow> follow pt r path = Some p \<Longrightarrow>
    usable_page p \<and> p \<in> U"
  unfolding tables_ok_def by blast

lemma tables_unique: "tables_ok pt R U \<Longrightarrow> r \<in> R \<Longrightarrow> r' \<in> R \<Longrightarrow> user_path path \<Longrightarrow> length path \<le> 3 \<Longrightarrow> follow pt r path = Some p \<Longrightarrow>
    user_path path' \<Longrightarrow> length path' \<le> 3 \<Longrightarrow> follow pt r' path' = Some p \<Longrightarrow> r = r' \<and> path = path'"
  unfolding tables_ok_def by blast

lemma tables_rights: "tables_ok pt R U \<Longrightarrow> r \<in> R \<Longrightarrow> user_path (i # path) \<Longrightarrow> follow pt r path = Some p \<Longrightarrow>
    pt (PHYS_MAP_BASE + p) i \<noteq> 0 \<Longrightarrow> entry_rights (length path < 3) (pt (PHYS_MAP_BASE + p) i)"
  unfolding tables_ok_def by blast

lemma tables_mono: "tables_ok pt R U \<Longrightarrow> U \<subseteq> V \<Longrightarrow> tables_ok pt R V"
  unfolding tables_ok_def by blast

lemma phys_map_inj: "usable_page p \<Longrightarrow> usable_page q \<Longrightarrow> PHYS_MAP_BASE + p = PHYS_MAP_BASE + q \<longleftrightarrow> p = q"
  by simp

text \<open>Writing a table that belongs to no address space, and writing one entry.\<close>

lemma follow_outside:
  assumes ok: "tables_ok pt R U" and q: "usable_page q" "q \<notin> U" and r: "r \<in> R" and path: "user_path path"
  shows "follow (pt(PHYS_MAP_BASE + q := f)) r path = follow pt r path"
  using path
proof (induction path)
  case Nil
  then show ?case by simp
next
  case (Cons i path)
  have u: "user_path path" "length path \<le> 3" using Cons.prems user_path_tl by (auto simp: user_path_def)
  show ?case
  proof (cases "follow pt r path")
    case None
    then show ?thesis using Cons.IH [OF u(1)] by simp
  next
    case (Some p)
    then have "p \<noteq> q" using tables_page [OF ok r u(1,2)] q(2) by auto
    then show ?thesis using Cons.IH [OF u(1)] Some by simp
  qed
qed

lemma follow_entry:
  assumes ok: "tables_ok pt R U" and r: "r \<in> R" "user_path path" "length path \<le> 3" "follow pt r path = Some p"
    and r': "r' \<in> R" "user_path path'" and ne: "\<not> (r' = r \<and> (\<exists>us. path' = us @ i # path))"
  shows "follow (pt(PHYS_MAP_BASE + p := (pt (PHYS_MAP_BASE + p))(i := v))) r' path' = follow pt r' path'"
  using r'(2) ne
proof (induction path')
  case Nil
  then show ?case by simp
next
  case (Cons j js)
  have u: "user_path js" "length js \<le> 3" using Cons.prems(1) user_path_tl by (auto simp: user_path_def)
  have "\<not> (r' = r \<and> (\<exists>us. js = us @ i # path))" using Cons.prems(2) by (metis append_Cons)
  note IH = Cons.IH [OF u(1) this]
  show ?case
  proof (cases "follow pt r' js")
    case None
    then show ?thesis using IH by simp
  next
    case (Some q)
    have "\<not> (q = p \<and> j = i)"
      using tables_unique [OF ok r'(1) r(1) u Some r(2-3)] r(4) Cons.prems(2) by (metis append_Nil)
    then show ?thesis using IH Some by auto
  qed
qed

lemma follow_none: "follow pt r path = None \<Longrightarrow> follow pt r (us @ path) = None"
  by (induction us) auto

text \<open>
  One step of the walk: the next table, which may be a new empty one.  \<open>extended pt pt' R\<close>: the tables of
  every address space are where they were and the last of them hold what they held, up to empty tables
  that have been added.
\<close>

definition extended :: "(ptr \<Rightarrow> nat \<Rightarrow> u64) \<Rightarrow> (ptr \<Rightarrow> nat \<Rightarrow> u64) \<Rightarrow> ptr set \<Rightarrow> bool" where
  "extended pt pt' R \<longleftrightarrow> (\<forall>r \<in> R. \<forall>path t. user_path path \<and> length path \<le> 3 \<longrightarrow>
     (follow pt r path = Some t \<longrightarrow> follow pt' r path = Some t)
   \<and> (length path = 3 \<and> follow pt' r path = Some t \<longrightarrow> (\<forall>i < 512. pt' (PHYS_MAP_BASE + t) i =
        (if follow pt r path = Some t then pt (PHYS_MAP_BASE + t) i else 0))))"

lemma extended_refl [simp]: "extended pt pt R"
  by (simp add: extended_def)

lemma extended_follow: "extended pt pt' R \<Longrightarrow> r \<in> R \<Longrightarrow> user_path path \<Longrightarrow> length path \<le> 3 \<Longrightarrow> follow pt r path = Some t \<Longrightarrow>
    follow pt' r path = Some t"
  unfolding extended_def by blast

lemma extended_entry: "extended pt pt' R \<Longrightarrow> r \<in> R \<Longrightarrow> user_path path \<Longrightarrow> length path = 3 \<Longrightarrow> follow pt' r path = Some t \<Longrightarrow> i < 512 \<Longrightarrow>
    pt' (PHYS_MAP_BASE + t) i = (if follow pt r path = Some t then pt (PHYS_MAP_BASE + t) i else 0)"
  unfolding extended_def by simp

lemma extended_trans:
  assumes a: "extended pt pt' R" and b: "extended pt' pt'' R"
  shows "extended pt pt'' R"
  unfolding extended_def
proof (intro ballI allI impI conjI; (elim conjE)?)
  fix r path t assume "r \<in> R" "user_path path" "length path \<le> 3" "follow pt r path = Some t"
  then show "follow pt'' r path = Some t" using extended_follow [OF a] extended_follow [OF b] by blast
next
  fix r path t and i :: nat
  assume c: "r \<in> R" "user_path path" "length path = 3" "follow pt'' r path = Some t" "i < 512"
  show "pt'' (PHYS_MAP_BASE + t) i = (if follow pt r path = Some t then pt (PHYS_MAP_BASE + t) i else 0)"
    using extended_entry [OF b c] extended_entry [OF a c(1,2,3) _ c(5)] extended_follow [OF a c(1,2), of t] c(3) by auto
qed

lemma page_entry:
  assumes "page_aligned p" and "unat f < 4096"
  shows "(p OR f) AND PAGE_MASK = p"
proof -
  have p: "p AND - 0x1000 = p" using assms(1) by (simp add: page_aligned_mask)
  have "f AND - 0x1000 = 0"
    using unat_page_base [of f] assms(2) by (simp add: unat_eq_zero [symmetric] del: unat_eq_zero)
  then show ?thesis using p(1) by (simp add: bit.conj_disj_distrib2)
qed

lemma page_entry_bit:
  assumes "page_aligned p" and "n < 12"
  shows "bit (p OR f) n \<longleftrightarrow> bit f n"
proof -
  have "take_bit 12 p = 0" using assms(1) by (simp add: page_aligned_iff flip: and_fff_take_bit)
  then have "\<not> bit (take_bit 12 p) n" by simp
  then show ?thesis using assms(2) by (simp add: bit_take_bit_iff bit_or_iff)
qed

lemma entry_page:
  assumes "usable_page p" and "unat f < 4096"
  shows "(p OR f) AND PAGE_MASK = p" and "p OR f \<noteq> 0"
proof -
  show m: "(p OR f) AND PAGE_MASK = p" using page_entry assms by (simp add: usable_page_def)
  show "p OR f \<noteq> 0"
  proof
    assume "p OR f = 0"
    then have "p = 0" using m by simp
    then show False using assms(1) by (simp add: usable_page_def)
  qed
qed

lemma entry_bit: "usable_page p \<Longrightarrow> n < 12 \<Longrightarrow> bit (p OR f) n \<longleftrightarrow> bit f n"
  by (simp add: page_entry_bit usable_page_def)

text \<open>What the operations of this component may change.\<close>

definition page_frame :: "'a page_state_scheme \<Rightarrow> 'a page_state_scheme \<Rightarrow> bool" where
  "page_frame s s' \<longleftrightarrow> s' = s\<lparr>locks := locks s', s_allocatedPageCount := s_allocatedPageCount s', ptes := ptes s'\<rparr>"

lemma page_frame_refl [simp]: "page_frame s s"
  by (simp add: page_frame_def)

lemma page_frameE:
  assumes "page_frame s s'"
  obtains L a pt where "s' = s\<lparr>locks := L, s_allocatedPageCount := a, ptes := pt\<rparr>"
  using assms unfolding page_frame_def by blast

lemma page_frame_ptes: "page_frame s s' \<Longrightarrow> page_frame s (s'\<lparr>ptes := pt\<rparr>)"
  by (elim page_frameE) (simp add: page_frame_def)

lemma page_frame_trans: "page_frame s s' \<Longrightarrow> page_frame s' s'' \<Longrightarrow> page_frame s s''"
  by (auto simp: page_frame_def [of s s''] elim!: page_frameE)

lemma page_frame_keeps:
  assumes "page_frame s s'"
  shows "caches s' = caches s" "processes s' = processes s" "arch_cr3 s' = arch_cr3 s" "mutexes s' = mutexes s" "kpml4 s' = kpml4 s"
    "sched_link s' = sched_link s" "s_ready_queue s' = s_ready_queue s" "threads s' = threads s" "thread_current s' = thread_current s"
    "thread_idle s' = thread_idle s" "int_flag s' = int_flag s" "proc_cr3 p s' = proc_cr3 p s"
  using assms by (auto elim!: page_frameE simp: proc_cr3_def)

lemma alloc_page_frame:
  assumes m: "memory s Ob U"
  shows "\<exists>p s'. pmm_alloc s = Some (p, s') \<and> page_frame s s' \<and> ptes s' = ptes s
    \<and> memory s' Ob (if p = 0 then U else insert p U)
    \<and> (if p = 0 then free_stack s' = [] else usable_page p \<and> p \<notin> U)"
proof -
  obtain p s' where a: "pmm_alloc s = Some (p, s')" "memory s' Ob (if p = 0 then U else insert p U)"
    "if p = 0 then free_stack s = [] else usable_page p \<and> p \<notin> U \<and> free_stack s = p # free_stack s'"
    using alloc_page [OF m] by blast
  have "page_frame s s' \<and> ptes s' = ptes s"
    using a(1) m by (auto simp: pmm_alloc_eq page_frame_def split: if_splits)
  moreover have "p = 0 \<Longrightarrow> free_stack s' = []"
    using a(1,3) pmm_alloc_empty [of s] m by (auto simp: mem_ok_def)
  ultimately show ?thesis using a by (intro exI [of _ p] exI [of _ s']) (auto split: if_splits)
qed

text \<open>A new table \<open>q\<close> behind the entry \<open>i\<close> of the table at \<open>path\<close>.\<close>

lemma table_entry_7: "usable_page q \<Longrightarrow> entry_rights inner (q OR 7)"
  using entry_page(1) [of q 7] entry_bit [of q _ 7] by (simp add: entry_rights_def)

lemma new_table:
  assumes ok: "tables_ok pt R U" and r: "r \<in> R" "user_path (i # path)" "length path \<le> 2" "follow pt r path = Some p"
    and free: "pt (PHYS_MAP_BASE + p) i = 0" and q: "usable_page q" "q \<notin> U"
    and pt': "pt' = (pt(PHYS_MAP_BASE + q := (\<lambda>i. if i < 512 then 0 else pt (PHYS_MAP_BASE + q) i)))"
  defines "pt2 \<equiv> pt'(PHYS_MAP_BASE + p := (pt' (PHYS_MAP_BASE + p))(i := q OR 7))"
  shows "tables_ok pt2 R (insert q U)" and "extended pt pt2 R" and "follow pt2 r (i # path) = Some q"
proof -
  have up: "user_path path" "length path \<le> 3" using r(2,3) user_path_tl by auto
  have same: "follow pt' r' path' = follow pt r' path'" if "r' \<in> R" "user_path path'" for r' path'
    unfolding pt' using follow_outside [OF ok q that] .
  have ok3: "tables_ok pt' R U"
    unfolding tables_ok_def
  proof (intro conjI)
    show "\<forall>r \<in> R. \<forall>path p. user_path path \<and> length path \<le> 3 \<and> follow pt' r path = Some p \<longrightarrow> usable_page p \<and> p \<in> U"
      using same tables_page [OF ok] by (metis (no_types, lifting))
    show "\<forall>r \<in> R. \<forall>r' \<in> R. \<forall>path path' p. user_path path \<and> length path \<le> 3 \<and> follow pt' r path = Some p
        \<and> user_path path' \<and> length path' \<le> 3 \<and> follow pt' r' path' = Some p \<longrightarrow> r = r' \<and> path = path'"
      using same tables_unique [OF ok] by metis
    show "\<forall>r \<in> R. \<forall>i path p. user_path (i # path) \<and> follow pt' r path = Some p \<and> pt' (PHYS_MAP_BASE + p) i \<noteq> 0 \<longrightarrow>
        entry_rights (length path < 3) (pt' (PHYS_MAP_BASE + p) i)"
    proof (intro ballI allI impI; elim conjE)
      fix r' j path' x assume a: "r' \<in> R" "user_path (j # path')" "follow pt' r' path' = Some x" "pt' (PHYS_MAP_BASE + x) j \<noteq> 0"
      have u: "user_path path'" "length path' \<le> 3" using user_path_tl [OF a(2)] a(2) by (simp_all add: user_path_def)
      have fx: "follow pt r' path' = Some x" using same [OF a(1) u(1)] a(3) by simp
      then have "x \<noteq> q" using tables_page [OF ok a(1) u] q(2) by auto
      then show "entry_rights (length path' < 3) (pt' (PHYS_MAP_BASE + x) j)"
        using tables_rights [OF ok a(1,2) fx] a(4) by (simp add: pt')
    qed
  qed
  have fp: "follow pt' r path = Some p" using same [OF r(1) up(1)] r(4) by simp
  have pq: "p \<noteq> q" using tables_page [OF ok r(1) up r(4)] q(2) by auto
  have other: "follow pt2 r' path' = follow pt r' path'"
    if "r' \<in> R" "user_path path'" "\<not> (r' = r \<and> (\<exists>us. path' = us @ i # path))" for r' path'
    unfolding pt2_def using follow_entry [OF ok3 r(1) up fp that] same [OF that(1,2)] by simp
  have nself: "\<not> (\<exists>us. path = us @ i # path)" by auto
  have fp2: "follow pt2 r path = Some p" using other [OF r(1) up(1)] nself r(4) by simp
  show here: "follow pt2 r (i # path) = Some q"
    using fp2 entry_page [OF q(1), of 7] by (simp add: pt2_def)
  have zero: "pt2 (PHYS_MAP_BASE + q) j = 0" if "j < 512" for j
    using that pq by (simp add: pt2_def pt')
  have below: "follow pt2 r (us @ j # i # path) = None" if "j < 512" for us j
    using follow_none [of pt2 r "j # i # path" us] here zero [OF that] by simp
  have before: "follow pt r (i # path) = None" using r(4) free by simp
  have cases: "follow pt2 r' path' = follow pt r' path' \<or> (r' = r \<and> path' = i # path \<and> follow pt2 r' path' = Some q)"
    if "r' \<in> R" "user_path path'" for r' path'
  proof (cases "r' = r \<and> (\<exists>us. path' = us @ i # path)")
    case True
    then obtain us where us: "path' = us @ i # path" by blast
    show ?thesis
    proof (cases us rule: rev_cases)
      case Nil
      then show ?thesis using True us here by simp
    next
      case (snoc vs j)
      have "j < 512" using that(2) us snoc by (simp add: user_path_def)
      moreover have "follow pt r path' = None" using follow_none [OF before, of us] us by simp
      ultimately show ?thesis using below [of j vs] True us snoc by simp
    qed
  next
    case False
    then show ?thesis using other [OF that] by blast
  qed
  have keep: "pt2 (PHYS_MAP_BASE + x) j = pt (PHYS_MAP_BASE + x) j"
    if "r' \<in> R" "user_path path'" "length path' \<le> 3" "follow pt r' path' = Some x" "\<not> (r' = r \<and> path' = path \<and> j = i)" for r' path' x j
  proof -
    have "x \<noteq> q" using tables_page [OF ok that(1-4)] q(2) by auto
    moreover have "\<not> (x = p \<and> j = i)" using tables_unique [OF ok that(1) r(1) that(2-4) up] r(4) that(5) by auto
    ultimately show ?thesis using pq by (auto simp: pt2_def pt')
  qed
  show "tables_ok pt2 R (insert q U)"
    unfolding tables_ok_def
  proof (intro conjI ballI allI impI; elim conjE)
    fix r' path' x assume "r' \<in> R" "user_path path'" "length path' \<le> 3" "follow pt2 r' path' = Some x"
    then show "usable_page x" "x \<in> insert q U"
      using cases [of r' path'] tables_page [OF ok, of r' path' x] q(1) by auto
  next
    fix r1 r2 path1 path2 x
    assume a: "r1 \<in> R" "r2 \<in> R" "user_path path1" "length path1 \<le> 3" "follow pt2 r1 path1 = Some x"
      "user_path path2" "length path2 \<le> 3" "follow pt2 r2 path2 = Some x"
    have "r1 = r2 \<and> path1 = path2"
    proof (cases "x = q")
      case True
      have "r' = r \<and> path' = i # path" if "r' \<in> R" "user_path path'" "length path' \<le> 3" "follow pt2 r' path' = Some q" for r' path'
        using cases [OF that(1,2)] tables_page [OF ok that(1-3)] that(4) q(2) by auto
      then show ?thesis using a True by metis
    next
      case False
      have "follow pt r1 path1 = Some x" "follow pt r2 path2 = Some x"
        using cases [OF a(1,3)] cases [OF a(2,6)] a(5,8) False by auto
      then show ?thesis using tables_unique [OF ok a(1,2,3,4) _ a(6,7)] by blast
    qed
    then show "r1 = r2" "path1 = path2" by simp_all
  next
    fix r' j path' x
    assume a: "r' \<in> R" "user_path (j # path')" "follow pt2 r' path' = Some x" "pt2 (PHYS_MAP_BASE + x) j \<noteq> 0"
    have u: "user_path path'" "length path' \<le> 3" "j < 512" using user_path_tl [OF a(2)] a(2) by (auto simp: user_path_def)
    show "entry_rights (length path' < 3) (pt2 (PHYS_MAP_BASE + x) j)"
    proof (cases "r' = r \<and> path' = path \<and> j = i")
      case True
      then show ?thesis using a(3) fp2 table_entry_7 [OF q(1)] by (simp add: pt2_def)
    next
      case False
      have "follow pt r' path' = Some x"
        using cases [OF a(1) u(1)] a(3,4) zero [OF u(3)] by auto
      then show ?thesis using keep [OF a(1) u(1,2) _ False] tables_rights [OF ok a(1,2)] a(4) by simp
    qed
  qed
  show "extended pt pt2 R"
    unfolding extended_def
  proof (intro ballI allI impI conjI; (elim conjE)?)
    fix r' path' t assume a: "r' \<in> R" "user_path path'" "length path' \<le> 3" "follow pt r' path' = Some t"
    then show "follow pt2 r' path' = Some t" using cases [OF a(1,2)] before by auto
  next
    fix r' path' t and j :: nat
    assume a: "r' \<in> R" "user_path path'" "length path' = 3" "follow pt2 r' path' = Some t" "j < 512"
    show "pt2 (PHYS_MAP_BASE + t) j = (if follow pt r' path' = Some t then pt (PHYS_MAP_BASE + t) j else 0)"
    proof (cases "follow pt r' path' = Some t")
      case True
      moreover have "path' \<noteq> path" using a(3) r(3) by auto
      ultimately show ?thesis using keep [OF a(1,2) _ True, of j] a(3) by simp
    next
      case False
      then have "t = q" using cases [OF a(1,2)] a(4) by auto
      then show ?thesis using False zero [OF a(5)] by simp
    qed
  qed
qed

text \<open>The tables of processes are made with the flags of user pages.\<close>

definition user_flags :: "u32 \<Rightarrow> bool" where
  "user_flags f \<longleftrightarrow> f = PAGE_PRESENT OR PAGE_USER \<or> f = PAGE_PRESENT OR PAGE_WRITE OR PAGE_USER"

lemma user_flags_get: "flags AND VMM_USER \<noteq> 0 \<Longrightarrow> user_flags (get_paging_flags flags)"
  by (simp add: user_flags_def get_paging_flags_def Let_def)

lemma user_flags_7: "user_flags f \<Longrightarrow> (q OR ucast f OR 2 :: u64) = q OR 7"
  by (auto simp: user_flags_def word_bw_assocs)

lemma get_entry_ok:
  assumes m: "memory s Ob U" and ok: "tables_ok (ptes s) R U" and r: "r \<in> R" "user_path (i # path)" "length path \<le> 2"
    "follow (ptes s) r path = Some p" and f: "alloc \<Longrightarrow> user_flags flags"
  shows "\<exists>q s' V. get_entry (PHYS_MAP_BASE + p) i alloc flags s = Some (q, s') \<and> page_frame s s'
    \<and> memory s' Ob V \<and> U \<subseteq> V \<and> tables_ok (ptes s') R V \<and> extended (ptes s) (ptes s') R
    \<and> (if q = NULL then follow (ptes s) r (i # path) = None \<and> (alloc \<longrightarrow> free_stack s' = [])
       else follow (ptes s') r (i # path) = Some q \<and> usable_page q)
    \<and> (\<not> alloc \<longrightarrow> s' = s)"
proof (cases "ptes s (PHYS_MAP_BASE + p) i = 0")
  case False
  then have fo: "follow (ptes s) r (i # path) = Some (ptes s (PHYS_MAP_BASE + p) i AND PAGE_MASK)" using r(4) by simp
  have "usable_page (ptes s (PHYS_MAP_BASE + p) i AND PAGE_MASK)" using tables_page [OF ok r(1,2) _ fo] r(3) by simp
  then show ?thesis using False m ok fo usable_nonzero
    by (intro exI [of _ "ptes s (PHYS_MAP_BASE + p) i AND PAGE_MASK"] exI [of _ s] exI [of _ U]) (auto simp: get_entry_def)
next
  case True
  then have no: "follow (ptes s) r (i # path) = None" using r(4) by simp
  show ?thesis
  proof (cases alloc)
    case False
    then show ?thesis using True m ok no
      by (intro exI [of _ NULL] exI [of _ s] exI [of _ U]) (simp add: get_entry_def)
  next
    case al: True
    obtain q s1 where q: "pmm_alloc s = Some (q, s1)" "page_frame s s1" "ptes s1 = ptes s"
      "memory s1 Ob (if q = 0 then U else insert q U)" "if q = 0 then free_stack s1 = [] else usable_page q \<and> q \<notin> U"
      using alloc_page_frame [OF m] by blast
    show ?thesis
    proof (cases "q = 0")
      case q0: True
      then show ?thesis using True al q ok no
        by (intro exI [of _ NULL] exI [of _ s1] exI [of _ U]) (simp add: get_entry_def)
    next
      case qn: False
      have u: "usable_page q" "q \<notin> U" using q(5) qn by simp_all
      note nt = new_table [OF ok r True u refl]
      let ?pt = "(ptes s)(PHYS_MAP_BASE + q := (\<lambda>i. if i < 512 then 0 else ptes s (PHYS_MAP_BASE + q) i))"
      let ?s = "s1\<lparr>ptes := ?pt(PHYS_MAP_BASE + p := (?pt (PHYS_MAP_BASE + p))(i := q OR 7))\<rparr>"
      have run: "get_entry (PHYS_MAP_BASE + p) i alloc flags s = Some (q, ?s)"
        using True al q(1,3) qn user_flags_7 [OF f [OF al]]
        by (simp add: get_entry_def usable_provide [OF u(1)] clear_table_def set_pte_def cong: if_cong)
      have "page_frame s ?s" using q(2) by (rule page_frame_ptes)
      then show ?thesis using run nt q(4) qn u(1) al
        by (intro exI [of _ q] exI [of _ ?s] exI [of _ "insert q U"]) auto
    qed
  qed
qed

text \<open>The indices of an address as arithmetic.\<close>

lemma unat_index: "unat (drop_bit n (a :: u64) AND 0x1ff) = unat a div 2 ^ n mod 512"
proof -
  have u: "unat a < 2 ^ 64" using unsigned_less [of a] by simp
  have "drop_bit n a AND 0x1ff = take_bit 9 (drop_bit n a)" by (simp add: take_bit_eq_mask mask_eq_exp_minus_1)
  also have "unat \<dots> = take_bit 9 (drop_bit n (unat a))"
    using u by (simp only: unsigned_take_bit_eq unsigned_drop_bit_eq) (simp add: take_bit_nat_eq_self)
  finally show ?thesis by (simp add: take_bit_eq_mod drop_bit_eq_div)
qed

lemma indices:
  "PML4_INDEX a = unat a div 4096 div 512 div 512 div 512 mod 512" "PDP_INDEX a = unat a div 4096 div 512 div 512 mod 512"
  "PD_INDEX a = unat a div 4096 div 512 mod 512" "PT_INDEX a = unat a div 4096 mod 512"
  unfolding PML4_INDEX_def PDP_INDEX_def PD_INDEX_def PT_INDEX_def unat_index by (simp_all add: div_mult2_eq [symmetric])

lemma user_addr_unat: "user_addr a \<Longrightarrow> unat a div 4096 div 512 div 512 div 512 < 256"
  by (simp add: user_addr_def word_less_nat_alt div_mult2_eq [symmetric] less_mult_imp_div_less)

lemma PML4_INDEX_user: "user_addr a \<Longrightarrow> PML4_INDEX a < 256"
  unfolding indices using order_le_less_trans [OF mod_less_eq_dividend user_addr_unat] .

lemma user_path_steps:
  assumes "user_addr a"
  shows "user_path [PML4_INDEX a]" "user_path [PDP_INDEX a, PML4_INDEX a]" "user_path [PD_INDEX a, PDP_INDEX a, PML4_INDEX a]"
    "user_path [PT_INDEX a, PD_INDEX a, PDP_INDEX a, PML4_INDEX a]"
  using PML4_INDEX_user [OF assms] by (simp_all add: user_path_def indices(2-4))

lemma page_number:
  assumes "user_addr a"
  shows "unat a div 4096 = PT_INDEX a + 512 * (PD_INDEX a + 512 * (PDP_INDEX a + 512 * PML4_INDEX a))"
proof -
  have "x = x mod 512 + 512 * (x div 512 mod 512 + 512 * (x div 512 div 512 mod 512 + 512 * (x div 512 div 512 div 512)))" for x :: nat
    by simp
  then show ?thesis using user_addr_unat [OF assms] unfolding indices by simp
qed

lemma indices_page:
  assumes "user_addr a" "user_addr b"
  shows "PT_INDEX a = PT_INDEX b \<and> PD_INDEX a = PD_INDEX b \<and> PDP_INDEX a = PDP_INDEX b \<and> PML4_INDEX a = PML4_INDEX b
    \<longleftrightarrow> unat a div 4096 = unat b div 4096"
  using page_number [OF assms(1)] page_number [OF assms(2)] indices [of a] indices [of b] by metis

section \<open>The walk of the kernel\<close>

lemma get_pt_ok:
  assumes m: "memory s Ob U" and ok: "tables_ok (ptes s) R U" and r: "r \<in> R" and v: "user_addr virt" and f: "alloc \<Longrightarrow> user_flags flags"
  shows "\<exists>q s' V. vmm_arch_get_pt (PHYS_MAP_BASE + r) virt alloc flags s = Some (q, s') \<and> page_frame s s'
    \<and> memory s' Ob V \<and> U \<subseteq> V \<and> tables_ok (ptes s') R V \<and> extended (ptes s) (ptes s') R
    \<and> (if q = NULL then follow (ptes s) r [PD_INDEX virt, PDP_INDEX virt, PML4_INDEX virt] = None \<and> (alloc \<longrightarrow> free_stack s' = [])
       else follow (ptes s') r [PD_INDEX virt, PDP_INDEX virt, PML4_INDEX virt] = Some q \<and> usable_page q)
    \<and> (\<not> alloc \<longrightarrow> s' = s)"
proof -
  note up = user_path_steps [OF v]
  have f0: "follow (ptes s) r [] = Some r" and l: "length [] \<le> (2 :: nat)" "length [x] \<le> (2 :: nat)" "length [x, y] \<le> (2 :: nat)" for x y :: nat
    by simp_all
  note def = vmm_arch_get_pt_def get_pml4_entry_def get_pdp_entry_def get_pd_entry_def
  obtain q1 s1 V1 where 1: "get_entry (PHYS_MAP_BASE + r) (PML4_INDEX virt) alloc flags s = Some (q1, s1)" "page_frame s s1"
    "memory s1 Ob V1" "U \<subseteq> V1" "tables_ok (ptes s1) R V1" "extended (ptes s) (ptes s1) R"
    "if q1 = NULL then follow (ptes s) r [PML4_INDEX virt] = None \<and> (alloc \<longrightarrow> free_stack s1 = [])
       else follow (ptes s1) r [PML4_INDEX virt] = Some q1 \<and> usable_page q1" "\<not> alloc \<longrightarrow> s1 = s"
    using get_entry_ok [where alloc = alloc, OF m ok r up(1) l(1) f0 f] by blast
  show ?thesis
  proof (cases "q1 = NULL")
    case True
    then show ?thesis using 1 follow_none [of "ptes s" r "[PML4_INDEX virt]" "[PD_INDEX virt, PDP_INDEX virt]"]
      by (intro exI [of _ NULL] exI [of _ s1] exI [of _ V1]) (simp add: def)
  next
    case q1: False
    then have f1: "follow (ptes s1) r [PML4_INDEX virt] = Some q1" and u1: "usable_page q1" using 1(7) by simp_all
    obtain q2 s2 V2 where 2: "get_entry (PHYS_MAP_BASE + q1) (PDP_INDEX virt) alloc flags s1 = Some (q2, s2)" "page_frame s1 s2"
      "memory s2 Ob V2" "V1 \<subseteq> V2" "tables_ok (ptes s2) R V2" "extended (ptes s1) (ptes s2) R"
      "if q2 = NULL then follow (ptes s1) r [PDP_INDEX virt, PML4_INDEX virt] = None \<and> (alloc \<longrightarrow> free_stack s2 = [])
         else follow (ptes s2) r [PDP_INDEX virt, PML4_INDEX virt] = Some q2 \<and> usable_page q2" "\<not> alloc \<longrightarrow> s2 = s1"
      using get_entry_ok [where alloc = alloc, OF 1(3,5) r up(2) l(2) f1 f] by blast
    have e2: "extended (ptes s) (ptes s2) R" "page_frame s s2" "U \<subseteq> V2"
      using extended_trans [OF 1(6) 2(6)] page_frame_trans [OF 1(2) 2(2)] 1(4) 2(4) by auto
    show ?thesis
    proof (cases "q2 = NULL")
      case True
      have "follow (ptes s) r [PDP_INDEX virt, PML4_INDEX virt] = None"
        using 2(7) True extended_follow [OF 1(6) r up(2)] by (cases "follow (ptes s) r [PDP_INDEX virt, PML4_INDEX virt]") auto
      then show ?thesis
        using 1(1,8) 2 e2 q1 True follow_none [of "ptes s" r "[PDP_INDEX virt, PML4_INDEX virt]" "[PD_INDEX virt]"]
        by (intro exI [of _ NULL] exI [of _ s2] exI [of _ V2]) (simp add: def usable_provide [OF u1])
    next
      case q2: False
      then have f2: "follow (ptes s2) r [PDP_INDEX virt, PML4_INDEX virt] = Some q2" and u2: "usable_page q2" using 2(7) by simp_all
      obtain q3 s3 V3 where 3: "get_entry (PHYS_MAP_BASE + q2) (PD_INDEX virt) alloc flags s2 = Some (q3, s3)" "page_frame s2 s3"
        "memory s3 Ob V3" "V2 \<subseteq> V3" "tables_ok (ptes s3) R V3" "extended (ptes s2) (ptes s3) R"
        "if q3 = NULL then follow (ptes s2) r [PD_INDEX virt, PDP_INDEX virt, PML4_INDEX virt] = None \<and> (alloc \<longrightarrow> free_stack s3 = [])
           else follow (ptes s3) r [PD_INDEX virt, PDP_INDEX virt, PML4_INDEX virt] = Some q3 \<and> usable_page q3" "\<not> alloc \<longrightarrow> s3 = s2"
        using get_entry_ok [where alloc = alloc, OF 2(3,5) r up(3) l(3) f2 f] by blast
      have e3: "extended (ptes s) (ptes s3) R" "page_frame s s3" "U \<subseteq> V3"
        using extended_trans [OF e2(1) 3(6)] page_frame_trans [OF e2(2) 3(2)] e2(3) 3(4) by auto
      have run: "vmm_arch_get_pt (PHYS_MAP_BASE + r) virt alloc flags s = Some (q3, s3)"
        using 1(1) 2(1) 3(1) q1 q2 by (simp add: def usable_provide [OF u1] usable_provide [OF u2])
      have "q3 = NULL \<Longrightarrow> follow (ptes s) r [PD_INDEX virt, PDP_INDEX virt, PML4_INDEX virt] = None"
        using 3(7) extended_follow [OF e2(1) r up(3)] by (cases "follow (ptes s) r [PD_INDEX virt, PDP_INDEX virt, PML4_INDEX virt]") auto
      then show ?thesis using run 1(8) 2(8) 3 e3
        by (intro exI [of _ q3] exI [of _ s3] exI [of _ V3]) (auto simp del: follow.simps)
    qed
  qed
qed

abbreviation (input) page_of :: "u64 \<Rightarrow> nat" where
  "page_of virt \<equiv> unat virt div 4096"

text \<open>The state of the address spaces with the roots \<open>R\<close>.\<close>

abbreviation spaces_ok :: "'a page_state_scheme \<Rightarrow> (cache_id \<Rightarrow> ptr set) \<Rightarrow> ptr set \<Rightarrow> ptr set \<Rightarrow> bool" where
  "spaces_ok s Ob R U \<equiv> memory s Ob U \<and> tables_ok (ptes s) R U"

lemma tables_root: "tables_ok pt R U \<Longrightarrow> r \<in> R \<Longrightarrow> usable_page r \<and> r \<in> U"
  using tables_page [of pt R U r "[]" r] by (simp add: user_path_def)

lemma extended_translate:
  assumes e: "extended pt pt' R" and r: "r \<in> R" and v: "user_addr virt"
  shows "translate pt' r virt = translate pt r virt"
proof -
  let ?path = "[PD_INDEX virt, PDP_INDEX virt, PML4_INDEX virt]"
  have up: "user_path ?path" "length ?path \<le> 3" "length ?path = 3" "PT_INDEX virt < 512"
    using user_path_steps(3) [OF v] by (simp_all add: indices)
  show ?thesis
  proof (cases "follow pt r ?path")
    case None
    then show ?thesis using extended_entry [OF e r up(1,3) _ up(4)] unfolding translate_def
      by (auto simp: Let_def simp del: follow.simps split: option.splits)
  next
    case (Some t)
    then have "follow pt' r ?path = Some t" using extended_follow [OF e r up(1,2)] by blast
    then show ?thesis using Some extended_entry [OF e r up(1,3) _ up(4)] unfolding translate_def
      by (simp add: Let_def del: follow.simps)
  qed
qed

text \<open>Writing the last entry of an address.\<close>

lemma set_leaf:
  assumes ok: "tables_ok pt R U" and r: "r \<in> R" and v: "user_addr virt"
    and t: "follow pt r [PD_INDEX virt, PDP_INDEX virt, PML4_INDEX virt] = Some t"
    and p: "usable_page p" and f: "user_flags f"
  defines "pt' \<equiv> pt(PHYS_MAP_BASE + t := (pt (PHYS_MAP_BASE + t))(PT_INDEX virt := p OR ucast f))"
  shows "tables_ok pt' R U" and "translate pt' r virt = Some (p, f AND PAGE_WRITE \<noteq> 0)"
    and "\<forall>r' \<in> R. \<forall>v'. user_addr v' \<and> (r', page_of v') \<noteq> (r, page_of virt) \<longrightarrow> translate pt' r' v' = translate pt r' v'"
proof -
  let ?path = "[PD_INDEX virt, PDP_INDEX virt, PML4_INDEX virt]"
  have up: "user_path ?path" "length ?path \<le> 3" using user_path_steps(3) [OF v] by simp_all
  have same: "follow pt' r' path' = follow pt r' path'" if "r' \<in> R" "user_path path'" "length path' \<le> 3" for r' path'
    unfolding pt'_def by (rule follow_entry [OF ok r up t that(1,2)]) (use that(3) in auto)
  have low: "unat (ucast f :: u64) < 4096" "bit (ucast f :: u64) 0" "bit (ucast f :: u64) 2"
      "bit (ucast f :: u64) 1 \<longleftrightarrow> f AND 2 \<noteq> 0"
    using f by (auto simp: user_flags_def)
  have leaf: "entry_rights False (p OR ucast f)"
    using entry_page(1) [OF p low(1)] low(2,3) p entry_bit [OF p] by (simp add: entry_rights_def)
  have other: "pt' (PHYS_MAP_BASE + x) j = pt (PHYS_MAP_BASE + x) j"
    if "r' \<in> R" "user_path path'" "length path' \<le> 3" "follow pt r' path' = Some x"
      "\<not> (r' = r \<and> path' = ?path \<and> j = PT_INDEX virt)" for r' path' x j
  proof -
    have "\<not> (x = t \<and> j = PT_INDEX virt)" using tables_unique [OF ok that(1) r that(2-4) up] t that(5) by blast
    then show ?thesis by (auto simp: pt'_def)
  qed
  show "tables_ok pt' R U"
    unfolding tables_ok_def
  proof (intro conjI)
    show "\<forall>r \<in> R. \<forall>path p. user_path path \<and> length path \<le> 3 \<and> follow pt' r path = Some p \<longrightarrow> usable_page p \<and> p \<in> U"
      using same tables_page [OF ok] by (metis (no_types, lifting))
    show "\<forall>r \<in> R. \<forall>r' \<in> R. \<forall>path path' p. user_path path \<and> length path \<le> 3 \<and> follow pt' r path = Some p
        \<and> user_path path' \<and> length path' \<le> 3 \<and> follow pt' r' path' = Some p \<longrightarrow> r = r' \<and> path = path'"
      using same tables_unique [OF ok] by metis
    show "\<forall>r \<in> R. \<forall>i path p. user_path (i # path) \<and> follow pt' r path = Some p \<and> pt' (PHYS_MAP_BASE + p) i \<noteq> 0 \<longrightarrow>
        entry_rights (length path < 3) (pt' (PHYS_MAP_BASE + p) i)"
    proof (intro ballI allI impI; elim conjE)
      fix r' j path' x assume a: "r' \<in> R" "user_path (j # path')" "follow pt' r' path' = Some x" "pt' (PHYS_MAP_BASE + x) j \<noteq> 0"
      have u: "user_path path'" "length path' \<le> 3" using user_path_tl [OF a(2)] a(2) by (simp_all add: user_path_def)
      have fx: "follow pt r' path' = Some x" using same [OF a(1) u] a(3) by simp
      show "entry_rights (length path' < 3) (pt' (PHYS_MAP_BASE + x) j)"
      proof (cases "r' = r \<and> path' = ?path \<and> j = PT_INDEX virt")
        case True
        then have "x = t" using fx t by simp
        then show ?thesis using leaf True by (simp add: pt'_def)
      next
        case False
        then show ?thesis using other [OF a(1) u fx] tables_rights [OF ok a(1,2) fx] a(4) by simp
      qed
    qed
  qed
  have t': "follow pt' r ?path = Some t" using same [OF r up] t by simp
  show "translate pt' r virt = Some (p, f AND PAGE_WRITE \<noteq> 0)"
    unfolding translate_def t' using entry_page [OF p low(1)] entry_bit [OF p, of 1] low(4) by (simp add: Let_def pt'_def)
  show "\<forall>r' \<in> R. \<forall>v'. user_addr v' \<and> (r', page_of v') \<noteq> (r, page_of virt) \<longrightarrow> translate pt' r' v' = translate pt r' v'"
  proof (intro ballI allI impI; elim conjE)
    fix r' v' assume a: "r' \<in> R" "user_addr v'" "(r', page_of v') \<noteq> (r, page_of virt)"
    let ?path' = "[PD_INDEX v', PDP_INDEX v', PML4_INDEX v']"
    have u: "user_path ?path'" "length ?path' \<le> 3" using user_path_steps(3) [OF a(2)] by simp_all
    have "\<not> (r' = r \<and> ?path' = ?path \<and> PT_INDEX v' = PT_INDEX virt)" using a(3) indices_page [OF a(2) v] by auto
    then show "translate pt' r' v' = translate pt r' v'"
      using same [OF a(1) u] other [OF a(1) u] unfolding translate_def by (simp del: follow.simps split: option.split)
  qed
qed

text \<open>Without leave to allocate the walk changes nothing.\<close>

lemma walk_only:
  assumes "memory s Ob U" "tables_ok (ptes s) R U" "r \<in> R" "user_addr virt"
  shows "\<exists>q. vmm_arch_get_pt (PHYS_MAP_BASE + r) virt False flags s = Some (q, s)
    \<and> (if q = NULL then follow (ptes s) r [PD_INDEX virt, PDP_INDEX virt, PML4_INDEX virt] = None
       else follow (ptes s) r [PD_INDEX virt, PDP_INDEX virt, PML4_INDEX virt] = Some q \<and> usable_page q)"
proof -
  have f: "False \<Longrightarrow> user_flags flags" by simp
  obtain q s' V where q: "vmm_arch_get_pt (PHYS_MAP_BASE + r) virt False flags s = Some (q, s')"
    "if q = NULL then follow (ptes s) r [PD_INDEX virt, PDP_INDEX virt, PML4_INDEX virt] = None \<and> (False \<longrightarrow> free_stack s' = [])
       else follow (ptes s') r [PD_INDEX virt, PDP_INDEX virt, PML4_INDEX virt] = Some q \<and> usable_page q" "\<not> False \<longrightarrow> s' = s"
    using get_pt_ok [where alloc = False and flags = flags, OF assms f] by blast
  then show ?thesis by (intro exI [of _ q]) (simp del: follow.simps split: if_splits)
qed

lemma get_paging_flags_write: "get_paging_flags flags AND PAGE_WRITE \<noteq> 0 \<longleftrightarrow> flags AND VMM_WRITE \<noteq> 0"
  by (simp add: get_paging_flags_def Let_def bit.conj_disj_distrib2)

text \<open>\<^verbatim>\<open>vmm_arch_proc_translate\<close> returns the translation.\<close>

lemma proc_translate_ok:
  assumes m: "spaces_ok s Ob R U" and r: "proc_cr3 proc s \<in> R" and v: "user_addr virt"
  shows "vmm_arch_proc_translate proc virt s =
    Some (case translate (ptes s) (proc_cr3 proc s) virt of None \<Rightarrow> (-1, 0, s) | Some (p, w) \<Rightarrow> (0, p, s))"
proof -
  have root: "vmm_provide_phys (proc_cr3 proc s) = Some (PHYS_MAP_BASE + proc_cr3 proc s)"
    using tables_root m r usable_provide by blast
  obtain q where q: "vmm_arch_get_pt (PHYS_MAP_BASE + proc_cr3 proc s) virt False 0 s = Some (q, s)"
    "if q = NULL then follow (ptes s) (proc_cr3 proc s) [PD_INDEX virt, PDP_INDEX virt, PML4_INDEX virt] = None
     else follow (ptes s) (proc_cr3 proc s) [PD_INDEX virt, PDP_INDEX virt, PML4_INDEX virt] = Some q \<and> usable_page q"
    using walk_only [of s Ob U R] m r v by blast
  then show ?thesis using root usable_provide [of q]
    by (auto simp: vmm_arch_proc_translate_def translate_def Let_def simp del: follow.simps)
qed

text \<open>\<^verbatim>\<open>vmm_arch_proc_map\<close> maps one page and nothing else.\<close>

lemma proc_map_ok:
  assumes m: "spaces_ok s Ob R U" and r: "proc_cr3 proc s \<in> R" and v: "user_addr virt" and p: "usable_page phys"
    and f: "flags AND VMM_USER \<noteq> 0"
  shows "\<exists>res s' V. vmm_arch_proc_map proc virt phys flags s = Some (res, s') \<and> page_frame s s' \<and> spaces_ok s' Ob R V \<and> U \<subseteq> V
    \<and> (if res = 0 then translate (ptes s) (proc_cr3 proc s) virt = None
          \<and> translate (ptes s') (proc_cr3 proc s) virt = Some (phys, flags AND VMM_WRITE \<noteq> 0)
       else res = -1 \<and> (translate (ptes s) (proc_cr3 proc s) virt \<noteq> None \<or> free_stack s' = []))
    \<and> (\<forall>r' \<in> R. \<forall>v'. user_addr v' \<and> (res = 0 \<longrightarrow> (r', page_of v') \<noteq> (proc_cr3 proc s, page_of virt)) \<longrightarrow>
        translate (ptes s') r' v' = translate (ptes s) r' v')"
proof -
  let ?r = "proc_cr3 proc s" and ?path = "[PD_INDEX virt, PDP_INDEX virt, PML4_INDEX virt]" and ?f = "get_paging_flags flags"
  note uf = user_flags_get [OF f]
  have root: "vmm_provide_phys ?r = Some (PHYS_MAP_BASE + ?r)" using tables_root m r usable_provide by blast
  have m1: "memory s Ob U" and ok: "tables_ok (ptes s) R U" using m by blast+
  obtain q s' V where q: "vmm_arch_get_pt (PHYS_MAP_BASE + ?r) virt True ?f s = Some (q, s')" "page_frame s s'"
    "memory s' Ob V" "U \<subseteq> V" "tables_ok (ptes s') R V" "extended (ptes s) (ptes s') R"
    "if q = NULL then follow (ptes s) ?r ?path = None \<and> (True \<longrightarrow> free_stack s' = [])
     else follow (ptes s') ?r ?path = Some q \<and> usable_page q"
    using get_pt_ok [where alloc = True, OF m1 ok r v uf] by blast
  note same = extended_translate [OF q(6)]
  show ?thesis
  proof (cases "q = NULL")
    case True
    then have "vmm_arch_proc_map proc virt phys flags s = Some (-1, s')"
      using q(1) root by (simp add: vmm_arch_proc_map_def)
    then show ?thesis using q True same by (intro exI [of _ "-1"] exI [of _ s'] exI [of _ V]) (simp del: follow.simps)
  next
    case False
    then have t: "follow (ptes s') ?r ?path = Some q" "usable_page q" using q(7) by simp_all
    have tr: "translate (ptes s') ?r virt = None \<longleftrightarrow> ptes s' (PHYS_MAP_BASE + q) (PT_INDEX virt) = 0"
      unfolding translate_def t(1) by (simp add: Let_def)
    show ?thesis
    proof (cases "ptes s' (PHYS_MAP_BASE + q) (PT_INDEX virt) = 0")
      case no: False
      then have "vmm_arch_proc_map proc virt phys flags s = Some (-1, s')"
        using q(1) root False usable_provide [OF t(2)] by (simp add: vmm_arch_proc_map_def)
      then show ?thesis using q same tr no r v by (intro exI [of _ "-1"] exI [of _ s'] exI [of _ V]) simp
    next
      case yes: True
      let ?s = "set_pte (PHYS_MAP_BASE + q) (PT_INDEX virt) (phys OR ucast ?f) s'"
      have run: "vmm_arch_proc_map proc virt phys flags s = Some (0, ?s)"
        using q(1) root False usable_provide [OF t(2)] yes by (simp add: vmm_arch_proc_map_def)
      have pt: "ptes ?s = (ptes s')(PHYS_MAP_BASE + q := (ptes s' (PHYS_MAP_BASE + q))(PT_INDEX virt := phys OR ucast ?f))"
        and mem: "memory ?s Ob V" and fr: "page_frame s ?s"
        using q(3) page_frame_ptes [OF q(2)] by (simp_all add: set_pte_def)
      note sl = set_leaf [OF q(5) r v t(1) p uf, folded pt]
      show ?thesis
        using run mem fr q(4) sl same tr yes r v get_paging_flags_write [of flags]
        by (intro exI [of _ 0] exI [of _ ?s] exI [of _ V]) simp
    qed
  qed
qed

section \<open>The processor and the kernel agree\<close>

lemma low_mask: "unat (e AND PAGE_MASK) < 2 ^ 52 \<Longrightarrow> e AND 0x000ffffffffff000 = e AND PAGE_MASK"
proof -
  assume "unat (e AND PAGE_MASK) < 2 ^ 52"
  then have "take_bit 52 (e AND PAGE_MASK) = e AND PAGE_MASK"
    by (simp only: word_unat_eq_iff unsigned_take_bit_eq take_bit_nat_eq_self)
  moreover have "take_bit 52 (e AND PAGE_MASK) = e AND (PAGE_MASK AND mask 52)" by (simp only: take_bit_eq_mask and.assoc)
  moreover have "PAGE_MASK AND mask 52 = (0x000ffffffffff000 :: u64)" by (simp add: mask_eq_exp_minus_1)
  ultimately show ?thesis by simp
qed

lemma low_mask_page: "usable_page (e AND PAGE_MASK) \<Longrightarrow> e AND 0x000ffffffffff000 = e AND PAGE_MASK"
  by (rule low_mask) (simp add: usable_page_def word_less_nat_alt)

lemma hw_entry_rights: "entry_rights inner e \<Longrightarrow> hw_entry e = Some (e AND PAGE_MASK, bit e 1, True)"
  by (simp add: entry_rights_def hw_entry_def low_mask_page)

lemma hw_entry_0 [simp]: "hw_entry 0 = None"
  by (simp add: hw_entry_def)

lemma hw_walk_ok:
  assumes ok: "tables_ok pt R U" and r: "r \<in> R" and v: "user_addr virt"
  shows "hw_walk pt PHYS_MAP_BASE r virt = (case translate pt r virt of None \<Rightarrow> None | Some (p, w) \<Rightarrow> Some (p + (virt AND 0xfff), w, True))"
proof -
  note up = user_path_steps [OF v]
  let ?e3 = "pt (PHYS_MAP_BASE + r) (PML4_INDEX virt)"
  let ?e2 = "pt (PHYS_MAP_BASE + (?e3 AND PAGE_MASK)) (PDP_INDEX virt)"
  let ?e1 = "pt (PHYS_MAP_BASE + (?e2 AND PAGE_MASK)) (PD_INDEX virt)"
  let ?e0 = "pt (PHYS_MAP_BASE + (?e1 AND PAGE_MASK)) (PT_INDEX virt)"
  have 3: "entry_rights True ?e3" if "?e3 \<noteq> 0" using tables_rights [OF ok r up(1)] that by simp
  have 2: "entry_rights True ?e2" if "?e3 \<noteq> 0" "?e2 \<noteq> 0" using tables_rights [OF ok r up(2)] that by simp
  have 1: "entry_rights True ?e1" if "?e3 \<noteq> 0" "?e2 \<noteq> 0" "?e1 \<noteq> 0" using tables_rights [OF ok r up(3)] that by simp
  have 0: "entry_rights False ?e0" if "?e3 \<noteq> 0" "?e2 \<noteq> 0" "?e1 \<noteq> 0" "?e0 \<noteq> 0" using tables_rights [OF ok r up(4)] that by simp
  have in_walk: "bit e 1 \<and> \<not> bit e 7" if "entry_rights True e" for e using that by (simp add: entry_rights_def)
  show ?thesis
  proof (cases "?e3 = 0 \<or> ?e2 = 0 \<or> ?e1 = 0 \<or> ?e0 = 0")
    case False
    then have e: "entry_rights True ?e3" "entry_rights True ?e2" "entry_rights True ?e1" "entry_rights False ?e0"
      using 0 1 2 3 by blast+
    then show ?thesis using False in_walk [OF e(1)] in_walk [OF e(2)] in_walk [OF e(3)] e
      by (simp add: hw_walk_def translate_def Let_def hw_entry_rights [of True] hw_entry_rights [of False] and_fff_take_bit)
  next
    case True
    have "translate pt r virt = None" using True by (auto simp: translate_def Let_def)
    moreover have "hw_walk pt PHYS_MAP_BASE r virt = None"
      using True 1 2 3 hw_entry_rights in_walk
      by (cases "?e3 = 0"; cases "?e2 = 0"; cases "?e1 = 0") (simp_all add: hw_walk_def)
    ultimately show ?thesis by simp
  qed
qed

text \<open>The first gigabyte of the physical map, made before there is an allocator.\<close>

definition boot_tables :: "'a page_state_scheme \<Rightarrow> bool" where
  "boot_tables s \<longleftrightarrow> distinct [kpml4 s, phys_pdp s, phys_pd s]
     \<and> (\<forall>v \<in> {phys_pdp s, phys_pd s}. page_aligned v \<and> KERNEL_VIRT_BASE \<le> v)"

lemma unat_ucast_u32: "unat (ucast (x :: u32) :: u64) = unat x"
  by (simp add: unsigned_ucast_eq take_bit_nat_eq_self_iff order_less_trans [OF unsigned_less])

lemma boot_page:
  assumes i: "i < 512"
  defines "e \<equiv> (ucast ((of_nat i * 2 * 1024 * 1024 :: u32) OR PAGE_PRESENT OR PAGE_WRITE OR PAGE_2MB) :: u64)"
  shows "hw_entry e = Some (of_nat i * 0x200000, True, False)" and "bit e 7"
proof -
  have "of_nat i * 2 * 1024 * 1024 = (of_nat (i * 0x200000) :: u32)" by simp
  moreover have "ucast (of_nat (i * 0x200000) :: u32) = (of_nat i * 0x200000 :: u64)"
  proof -
    have "unat (ucast (of_nat (i * 0x200000) :: u32) :: u64) = i * 0x200000"
      using i by (simp only: unat_ucast_u32 unat_of_nat) simp
    moreover have "unat (of_nat i * 0x200000 :: u64) = i * 0x200000" using i by (simp add: unat_word_ariths unat_of_nat)
    ultimately show ?thesis by (simp add: word_unat_eq_iff)
  qed
  moreover have "e = ucast (of_nat i * 2 * 1024 * 1024 :: u32) OR 0x83"
    unfolding e_def by (simp only: unsigned_or_eq or.assoc) simp
  ultimately have e: "e = (of_nat i * 0x200000) OR 0x83" by (simp only:)
  have u: "unat (of_nat i * 0x200000 :: u64) = i * 0x200000" using i by (simp add: unat_word_ariths unat_of_nat)
  then have al: "page_aligned (of_nat i * 0x200000 :: u64)" by (simp add: page_aligned_mod mod_mult_right_eq [symmetric])
  note bits = page_entry_bit [OF al, of _ "0x83"]
  have m: "e AND PAGE_MASK = of_nat i * 0x200000" unfolding e by (rule page_entry [OF al]) simp
  then have "e AND 0x000ffffffffff000 = of_nat i * 0x200000" using low_mask [of e] u i by simp
  moreover have "bit e 0" "bit e 1" "\<not> bit e 2" "bit e 7" unfolding e by (simp_all add: bits)
  ultimately show "hw_entry e = Some (of_nat i * 0x200000, True, False)" "bit e 7" by (simp_all add: hw_entry_def)
qed

lemma indices_phys_map:
  assumes "unat x < 2 ^ 30"
  shows "PML4_INDEX (PHYS_MAP_BASE + x) = 256" "PDP_INDEX (PHYS_MAP_BASE + x) = 0" "PD_INDEX (PHYS_MAP_BASE + x) = unat x div 0x200000"
    "take_bit 21 (PHYS_MAP_BASE + x) = take_bit 21 x"
proof -
  have u: "unat (PHYS_MAP_BASE + x) = 0xffff800000000000 + unat x" using assms by (simp add: unat_word_ariths)
  show "PML4_INDEX (PHYS_MAP_BASE + x) = 256" "PDP_INDEX (PHYS_MAP_BASE + x) = 0" "PD_INDEX (PHYS_MAP_BASE + x) = unat x div 0x200000"
  proof -
    have "(0xffff800000000000 + unat x) div 2 ^ 39 = 0x1ffff00" "(0xffff800000000000 + unat x) div 2 ^ 30 = 0x3fffe0000"
      using assms by (auto intro!: div_nat_eqI)
    then show "PML4_INDEX (PHYS_MAP_BASE + x) = 256" "PDP_INDEX (PHYS_MAP_BASE + x) = 0"
      unfolding PML4_INDEX_def PDP_INDEX_def unat_index u by simp_all
    have "0xffff800000000000 + unat x = unat x + 0x3fffe0000 * 512 * 2 ^ 21" by simp
    then have "(0xffff800000000000 + unat x) div 2 ^ 21 = unat x div 2 ^ 21 + 0x3fffe0000 * 512"
      by (simp only: div_mult_self1 power_eq_0_iff) simp
    then have "(0xffff800000000000 + unat x) div 2 ^ 21 mod 512 = unat x div 2 ^ 21 mod 512" by (simp only: mod_mult_self1)
    then show "PD_INDEX (PHYS_MAP_BASE + x) = unat x div 0x200000"
      unfolding PD_INDEX_def unat_index u using assms by simp
  qed
  show "take_bit 21 (PHYS_MAP_BASE + x) = take_bit 21 x"
  proof -
    have "0xffff800000000000 + unat x = unat x + 0x7fffc000000 * 2 ^ 21" by simp
    then have "(0xffff800000000000 + unat x) mod 2 ^ 21 = unat x mod 2 ^ 21" by (simp only: mod_mult_self1)
    then have "take_bit 21 (unat (PHYS_MAP_BASE + x)) = take_bit 21 (unat x)" by (simp only: u take_bit_eq_mod)
    then show ?thesis by (simp only: word_unat_eq_iff unsigned_take_bit_eq)
  qed
qed

lemma pre_init_ok:
  assumes t: "boot_tables s" and x: "unat x < 2 ^ 30"
  shows "hw_walk (ptes (vmm_arch_pre_init s)) KERNEL_VIRT_BASE (MM_V2P (kpml4 s)) (PHYS_MAP_BASE + x) = Some (x, True, False)"
proof -
  let ?s = "vmm_arch_pre_init s" and ?v = "PHYS_MAP_BASE + x"
  have home: "KERNEL_VIRT_BASE + MM_V2P v = v" for v by (simp add: MM_V2P_def)
  have d: "phys_pdp s \<noteq> kpml4 s" "phys_pd s \<noteq> kpml4 s" "phys_pdp s \<noteq> phys_pd s" using t by (auto simp: boot_tables_def)
  have i: "unat x div 0x200000 < 512" using x by simp
  have e3: "ptes ?s (kpml4 s) 256 = MM_V2P (phys_pdp s) OR 3"
    using indices_phys_map(1) [of 0] d
    by (simp add: vmm_arch_pre_init_def Let_def set_pml4_entry_def set_pdp_entry_def set_pte_def cpu_flush_cr3_def)
  have e2: "ptes ?s (phys_pdp s) 0 = MM_V2P (phys_pd s) OR 3"
    using indices_phys_map(2) [of 0] d
    by (simp add: vmm_arch_pre_init_def Let_def set_pml4_entry_def set_pdp_entry_def set_pte_def cpu_flush_cr3_def)
  have e1: "ptes ?s (phys_pd s) j = ucast ((of_nat j * 2 * 1024 * 1024 :: u32) OR PAGE_PRESENT OR PAGE_WRITE OR PAGE_2MB)" if "j < 512" for j
    using that d
    by (simp add: vmm_arch_pre_init_def Let_def set_pml4_entry_def set_pdp_entry_def set_pte_def cpu_flush_cr3_def)
  have table: "hw_entry (MM_V2P v OR 3) = Some (MM_V2P v, True, False)" "\<not> bit (MM_V2P v OR 3) 7"
    if "v \<in> {phys_pdp s, phys_pd s}" for v
  proof -
    have al: "page_aligned (MM_V2P v)"
      using that t page_aligned_add [of v "- KERNEL_VIRT_BASE"] by (auto simp: boot_tables_def MM_V2P_def page_aligned_iff)
    have uv: "unat v < 2 ^ 64" using unsigned_less [of v] by simp
    have "unat (MM_V2P v) < 2 ^ 52"
      using that t uv by (auto simp: boot_tables_def MM_V2P_def word_le_nat_alt unat_sub_if' word_less_nat_alt)
    then have "(MM_V2P v OR 3) AND 0x000ffffffffff000 = MM_V2P v" using low_mask [of "MM_V2P v OR 3"] page_entry [OF al, of 3] by simp
    then show "hw_entry (MM_V2P v OR 3) = Some (MM_V2P v, True, False)" "\<not> bit (MM_V2P v OR 3) 7"
      using page_entry_bit [OF al, of _ 3] by (simp_all add: hw_entry_def)
  qed
  have sum: "of_nat (unat x div 0x200000) * 0x200000 + take_bit 21 x = x"
  proof -
    have "unat (of_nat (unat x div 0x200000) * 0x200000 :: u64) = unat x div 0x200000 * 0x200000"
      using x by (simp add: unat_word_ariths unat_of_nat)
    then have "unat (of_nat (unat x div 0x200000) * 0x200000 + take_bit 21 x) = unat x"
      using x by (simp add: unat_word_ariths unsigned_take_bit_eq take_bit_eq_mod)
    then show ?thesis by (simp add: word_unat_eq_iff)
  qed
  show ?thesis
    unfolding hw_walk_def home indices_phys_map [OF x] e3
    by (simp add: table home e2 e1 [OF i] boot_page [OF i, simplified] sum)
qed

section \<open>Properties\<close>

text \<open>
  C16: \<^verbatim>\<open>vmm_arch_proc_map\<close> of a user page always returns.  On success the address was not mapped before, it
  now translates to the page with the rights asked for, and \<^verbatim>\<open>vmm_arch_proc_translate\<close> finds the page.  On
  failure (\<open>-1\<close>) the address was already mapped or there is no free page.  No other address of any address
  space changes its translation, and the tables stay well formed.
\<close>

theorem proc_map_isolates:
  assumes "spaces_ok s Ob R U" and "proc_cr3 proc s \<in> R" and "user_addr virt" and "usable_page phys" and "flags AND VMM_USER \<noteq> 0"
  shows "\<exists>res s' V. vmm_arch_proc_map proc virt phys flags s = Some (res, s') \<and> spaces_ok s' Ob R V \<and> U \<subseteq> V
    \<and> (if res = 0 then translate (ptes s) (proc_cr3 proc s) virt = None
          \<and> translate (ptes s') (proc_cr3 proc s) virt = Some (phys, flags AND VMM_WRITE \<noteq> 0)
          \<and> vmm_arch_proc_translate proc virt s' = Some (0, phys, s')
       else res = -1 \<and> (translate (ptes s) (proc_cr3 proc s) virt \<noteq> None \<or> free_stack s' = []))
    \<and> (\<forall>r' \<in> R. \<forall>v'. user_addr v' \<and> (res = 0 \<longrightarrow> (r', page_of v') \<noteq> (proc_cr3 proc s, page_of virt)) \<longrightarrow>
        translate (ptes s') r' v' = translate (ptes s) r' v')"
proof -
  obtain res s' V where x: "vmm_arch_proc_map proc virt phys flags s = Some (res, s')" "page_frame s s'" "spaces_ok s' Ob R V" "U \<subseteq> V"
    "if res = 0 then translate (ptes s) (proc_cr3 proc s) virt = None
          \<and> translate (ptes s') (proc_cr3 proc s) virt = Some (phys, flags AND VMM_WRITE \<noteq> 0)
       else res = -1 \<and> (translate (ptes s) (proc_cr3 proc s) virt \<noteq> None \<or> free_stack s' = [])"
    "\<forall>r' \<in> R. \<forall>v'. user_addr v' \<and> (res = 0 \<longrightarrow> (r', page_of v') \<noteq> (proc_cr3 proc s, page_of virt)) \<longrightarrow>
        translate (ptes s') r' v' = translate (ptes s) r' v'"
    using proc_map_ok [OF assms] by blast
  have "proc_cr3 proc s' = proc_cr3 proc s" using page_frame_keeps [OF x(2)] by blast
  then have "res = 0 \<Longrightarrow> vmm_arch_proc_translate proc virt s' = Some (0, phys, s')"
    using proc_translate_ok [OF x(3) _ assms(3), of proc] assms(2) x(5) by simp
  then show ?thesis using x by (intro exI [of _ res] exI [of _ s'] exI [of _ V]) (cases "res = 0"; simp)
qed

text \<open>
  C17: The kernel and the processor translate user addresses alike: \<^verbatim>\<open>vmm_arch_proc_translate\<close> succeeds
  exactly on the addresses the processor can translate for user code, with the page the processor
  finds, and changes nothing.
\<close>

theorem kernel_and_processor_agree:
  assumes "spaces_ok s Ob R U" and "proc_cr3 proc s \<in> R" and "user_addr virt"
  shows "\<exists>res p. vmm_arch_proc_translate proc virt s = Some (res, p, s) \<and> (res = 0 \<or> res = -1)
    \<and> (case hw_walk (ptes s) PHYS_MAP_BASE (proc_cr3 proc s) virt of
         None \<Rightarrow> res = -1
       | Some (phys, writable, user) \<Rightarrow> res = 0 \<and> phys = p + (virt AND 0xfff) \<and> user)"
  using proc_translate_ok [OF assms] hw_walk_ok [OF _ assms(2,3)] assms(1) by (auto split: option.splits)

text \<open>
  After \<^verbatim>\<open>vmm_arch_pre_init\<close> the processor translates each of the first \<open>2^30\<close> addresses of the physical
  map to the physical address it stands for, writable and for the kernel only.
\<close>

theorem boot_physical_map:
  assumes "boot_tables s" and "unat x < 2 ^ 30"
  shows "hw_walk (ptes (vmm_arch_pre_init s)) KERNEL_VIRT_BASE (MM_V2P (kpml4 s)) (PHYS_MAP_BASE + x) = Some (x, True, False)"
  using assms by (rule pre_init_ok)

section \<open>Witnesses\<close>

abbreviation (input) sample_spaces :: page_state where
  "sample_spaces \<equiv> sched_state.extend (sample_threads\<lparr>s_allocatedPageCount := 1, arch_cr3 := (\<lambda>_. 0x100000)\<rparr>)
     \<lparr>ptes = (\<lambda>_ _. 0), kpml4 = 0xffffffff80010000, kpdp = 0xffffffff80011000, phys_pdp = 0xffffffff80012000,
      phys_pd = 0xffffffff80013000, tlb_flushes = 0\<rparr>"

lemmas space_defs = sample_defs sched_state.defs page_state.defs

lemma sample_spaces_ok: "spaces_ok sample_spaces (\<lambda>_. {}) {0x100000} {0x100000}"
proof -
  have u: "[Suc 0 ..< 8] = [1, 2, 3, 4, 5, 6, 7::nat]" by (simp add: upt_rec)
  have "caches_ok (slabs sample_spaces) (bufs sample_spaces) (caches sample_spaces) (\<lambda>_. \<lparr>fulls = [], parts = []\<rparr>)"
    by (simp add: caches_ok_def cache_ok_def cache_sizes_def space_defs)
  moreover have "pages_ok (s_freeTable sample_spaces) (s_allocatedPageCount sample_spaces) (s_freePageCount sample_spaces)"
    by (simp add: pages_ok_def page_stack_def u usable_page_def page_aligned_iff space_defs)
  ultimately have "memory sample_spaces (\<lambda>_. {}) {0x100000}"
    by (auto simp: mem_ok_def pages_split_def all_pages_def view_pages_def view_live_def addrs_ok_def page_stack_def u
        space_defs intro!: exI [of _ "\<lambda>_. \<lparr>fulls = [], parts = []\<rparr>"])
  moreover have "follow (\<lambda>_ _. 0) r path = Some p \<longleftrightarrow> path = [] \<and> p = r" for r p path
    by (cases path) (auto split: option.splits)
  then have "tables_ok (ptes sample_spaces) {0x100000} {0x100000}"
    by (simp add: tables_ok_def usable_page_def page_aligned_iff space_defs)
  ultimately show ?thesis by blast
qed

lemma proc_map_isolates_witness:
  "\<exists>res s'. vmm_arch_proc_map 0x7000 0x400000 0x200000 (VMM_READ OR VMM_USER) sample_spaces = Some (res, s')
     \<and> translate (ptes s') 0x100000 0x401000 = None"
proof -
  have r: "proc_cr3 0x7000 sample_spaces \<in> {0x100000}" by (simp add: proc_cr3_def space_defs)
  have v: "user_addr 0x400000" "user_addr 0x401000" and p: "usable_page 0x200000" and f: "(VMM_READ OR VMM_USER) AND VMM_USER \<noteq> 0"
    by (simp_all add: user_addr_def usable_page_def page_aligned_iff)
  have n: "translate (ptes sample_spaces) 0x100000 0x401000 = None" by (simp add: translate_def space_defs)
  obtain res s' where "vmm_arch_proc_map 0x7000 0x400000 0x200000 (VMM_READ OR VMM_USER) sample_spaces = Some (res, s')"
    "\<forall>r' \<in> {0x100000}. \<forall>v'. user_addr v' \<and> (res = 0 \<longrightarrow> (r', page_of v') \<noteq> (proc_cr3 0x7000 sample_spaces, page_of 0x400000)) \<longrightarrow>
        translate (ptes s') r' v' = translate (ptes sample_spaces) r' v'"
    using proc_map_isolates [OF sample_spaces_ok r v(1) p f] by blast
  then show ?thesis using v(2) n by auto
qed

lemma kernel_and_processor_agree_witness: "\<exists>res p. vmm_arch_proc_translate 0x7000 0x400123 sample_spaces = Some (res, p, sample_spaces)"
proof -
  have "proc_cr3 0x7000 sample_spaces \<in> {0x100000}" by (simp add: proc_cr3_def space_defs)
  moreover have "user_addr 0x400123" by (simp add: user_addr_def)
  ultimately show ?thesis using kernel_and_processor_agree [OF sample_spaces_ok] by blast
qed

lemma boot_physical_map_witness:
  "hw_walk (ptes (vmm_arch_pre_init sample_spaces)) KERNEL_VIRT_BASE 0x10000 (PHYS_MAP_BASE + 0xb8000) = Some (0xb8000, True, False)"
  using boot_physical_map [of sample_spaces "0xb8000"]
  by (simp add: boot_tables_def page_aligned_iff MM_V2P_def space_defs)

end
