(* ===== verification/EntryOwners.thy ===== *)
theory EntryOwners
  imports MemMap
begin

text \<open>
  Allocators of map entries whose state does not say which entries are handed out, as the slab caches:
  \<open>recorded alc\<close> runs \<open>alc\<close> and keeps the set of the entries beside its state.  What a map operation does
  over \<open>recorded alc\<close> it does over \<open>alc\<close>, so the contracts of the operations carry over.
\<close>

definition recorded :: "'a memory_map_allocator \<Rightarrow> ('a \<times> ptr set) memory_map_allocator" where
  "recorded alc = \<lparr>
     mma_alloc = (\<lambda>(a, L). case mma_alloc alc a of
         None \<Rightarrow> None
       | Some (p, a') \<Rightarrow> Some (p, a', if p = NULL then L else insert p L)),
     mma_free = (\<lambda>p (a, L). case mma_free alc p a of
         None \<Rightarrow> None
       | Some a' \<Rightarrow> Some (a', L - {p}))\<rparr>"

lemma recorded_alloc: "mma_alloc (recorded alc) (a, L) = Some (p, a', L') \<Longrightarrow> mma_alloc alc a = Some (p, a')"
  by (auto simp: recorded_def split: option.splits)

lemma recorded_free: "mma_free (recorded alc) p (a, L) = Some (a', L') \<Longrightarrow> mma_free alc p a = Some a'"
  by (auto simp: recorded_def split: option.splits)

lemma alloc_loop_recorded:
  "alloc_loop (recorded alc) sz prev m (a, L) = Some (p, m', a', L') \<Longrightarrow> alloc_loop alc sz prev m a = Some (p, m', a')"
proof (induction m arbitrary: prev m')
  case Nil
  then show ?case by simp
next
  case (Cons n m)
  then show ?case
    by (cases n) (auto simp: bind_Some_conv dest!: recorded_free split: if_splits)
qed

lemma memory_map_alloc_recorded:
  "memory_map_alloc (recorded alc) m sz (a, L) = Some (p, m', a', L') \<Longrightarrow> memory_map_alloc alc m sz a = Some (p, m', a')"
  unfolding memory_map_alloc_def by (rule alloc_loop_recorded)

lemma exclude_inside_recorded:
  "exclude_inside (recorded alc) n e (a, L) = Some (r, nodes, a', L') \<Longrightarrow> exclude_inside alc n e a = Some (r, nodes, a')"
  by (auto simp: exclude_inside_def Let_def bind_Some_conv dest!: recorded_alloc split: if_splits)

lemma alloc_at_loop_recorded:
  "alloc_at_loop (recorded alc) e m (a, L) = Some (r, m', a', L') \<Longrightarrow> alloc_at_loop alc e m a = Some (r, m', a')"
proof (induction m arbitrary: m')
  case Nil
  then show ?case by simp
next
  case (Cons n m)
  then show ?case
    by (cases n) (auto simp: bind_Some_conv dest!: recorded_free exclude_inside_recorded
        split: if_splits entry_collision_type.splits)
qed

lemma memory_map_alloc_at_recorded:
  "memory_map_alloc_at (recorded alc) m b sz (a, L) = Some (r, m', a', L') \<Longrightarrow> memory_map_alloc_at alc m b sz a = Some (r, m', a')"
  unfolding memory_map_alloc_at_def by (rule alloc_at_loop_recorded)

lemma memory_map_add_recorded:
  assumes "memory_map_add (recorded alc) m b sz (a, L) = Some (r, m', a', L')"
  shows "memory_map_add alc m b sz a = Some (r, m', a')"
proof -
  obtain t a1 L1 where al: "mma_alloc (recorded alc) (a, L) = Some (t, a1, L1)"
    using assms by (auto simp: memory_map_add_def bind_Some_conv)
  show ?thesis using assms al recorded_alloc [OF al]
    by (auto simp: memory_map_add_def split: if_splits option.splits)
qed

lemma exclude_loop_recorded:
  assumes "exclude_loop rc e m x = Some y"
  shows "\<forall>alc. rc = recorded alc \<longrightarrow> exclude_loop alc e m (fst x) = Some (fst y, fst (snd y), fst (snd (snd y)))"
proof (rule exclude_loop.raw_induct [where P = "\<lambda>rc e m x y. \<forall>alc. rc = recorded alc \<longrightarrow>
      exclude_loop alc e m (fst x) = Some (fst y, fst (snd y), fst (snd (snd y)))", OF _ assms], goal_cases)
  case 1: (1 f rc e m x y)
  show ?case
  proof (intro allI impI)
    fix alc assume rc: "rc = recorded alc"
    have IH: "f (recorded alc) e m (a, L) = Some (r, m', a', L') \<Longrightarrow> exclude_loop alc e m a = Some (r, m', a')" for m a L r m' a' L'
      using 1(1) rc by fastforce
    obtain a L r m' a' L' where x: "x = (a, L)" "y = (r, m', a', L')" by (metis prod.collapse)
    show "exclude_loop alc e m (fst x) = Some (fst y, fst (snd y), fst (snd (snd y)))"
    proof (cases m)
      case Nil
      then show ?thesis using 1(2) x by (subst exclude_loop.simps) simp
    next
      case (Cons n ns)
      obtain q i where n: "n = (q, i)" by (cases n)
      show ?thesis
        using 1(2) unfolding Cons n x rc
        by (subst exclude_loop.simps)
          (auto simp: Let_def bind_Some_conv dest!: IH exclude_inside_recorded recorded_free
            split: if_splits entry_collision_type.splits)
    qed
  qed
qed

lemma memory_map_exclude_recorded:
  "memory_map_exclude (recorded alc) m b sz (a, L) = Some (r, m', a', L') \<Longrightarrow> memory_map_exclude alc m b sz a = Some (r, m', a')"
  unfolding memory_map_exclude_def using exclude_loop_recorded by fastforce

end
