(* ===== verification/Vmm.thy ===== *)
theory Vmm
  imports Paging Mutex EntryOwners
begin

text \<open>
  The address spaces of processes (\<^verbatim>\<open>kernel/mm/vmm.c\<close>): regions taken from the map of free regions of a
  process, mapped page by page.  The entries of the free maps
  come from a slab cache, which is the instance of the allocator interface of the memory maps.
\<close>

section \<open>Data\<close>

record shmem_block =
  sb_used :: nat
  sb_pages :: "nat \<Rightarrow> u64"
  sb_next :: ptr

text \<open>\<open>mem\<close> is the memory the kernel addresses, byte by byte, as far as user data is concerned.\<close>

record vmm_state = page_state +
  mem :: "ptr \<Rightarrow> u8"
  shmem_blocks :: "ptr \<Rightarrow> shmem_block"

section \<open>Operations\<close>

definition entry_alloc :: "'a vmm_state_scheme \<Rightarrow> (ptr \<times> 'a vmm_state_scheme) option" where
  "entry_alloc = slab_cache_alloc ENTRY_CACHE"

definition entry_free :: "ptr \<Rightarrow> 'a vmm_state_scheme \<Rightarrow> 'a vmm_state_scheme option" where
  "entry_free = slab_cache_free ENTRY_CACHE"

definition s_map_allocator :: "'a vmm_state_scheme memory_map_allocator" where
  "s_map_allocator = \<lparr>mma_alloc = entry_alloc, mma_free = entry_free\<rparr>"

definition set_free_map :: "ptr \<Rightarrow> memory_map \<Rightarrow> 'a vmm_state_scheme \<Rightarrow> 'a vmm_state_scheme" where
  "set_free_map proc m s = s\<lparr>processes := (processes s)(proc := (processes s proc)\<lparr>p_free_map := m\<rparr>)\<rparr>"

text \<open>\<^verbatim>\<open>memory_map_alloc(&proc->vmm_ctx.free_map, size)\<close> and \<^verbatim>\<open>memory_map_alloc_at\<close>.\<close>

definition region_alloc :: "ptr \<Rightarrow> u64 \<Rightarrow> 'a vmm_state_scheme \<Rightarrow> (u64 \<times> 'a vmm_state_scheme) option" where
  "region_alloc proc sz s = do {
     (base, m, s) \<leftarrow> memory_map_alloc s_map_allocator (p_free_map (processes s proc)) sz s;
     Some (base, set_free_map proc m s)
   }"

definition region_alloc_at :: "ptr \<Rightarrow> u64 \<Rightarrow> u64 \<Rightarrow> 'a vmm_state_scheme \<Rightarrow> (int \<times> 'a vmm_state_scheme) option" where
  "region_alloc_at proc base sz s = do {
     (r, m, s) \<leftarrow> memory_map_alloc_at s_map_allocator (p_free_map (processes s proc)) base sz s;
     Some (r, set_free_map proc m s)
   }"

text \<open>
  The operations that have an out parameter \<^verbatim>\<open>base\<close> return its value too.  \<^verbatim>\<open>proc\<close> is NULL for kernel threads;
  its mutex is then behind a NULL pointer.
\<close>

definition vmm_map ::
  "ptr \<Rightarrow> u64 \<Rightarrow> u64 \<Rightarrow> u64 \<Rightarrow> u32 \<Rightarrow> 'a vmm_state_scheme \<Rightarrow> ((int \<times> u64) outcome \<times> 'a vmm_state_scheme) option" where
  "vmm_map proc base phys sz flags s =
     (if \<not> page_aligned phys \<or> \<not> page_aligned sz then Some (Done (-1, base), s)
      else if proc = NULL then None
      else with_mutex (VMM_MUTEX proc) (\<lambda>s. do {
        (base, s) \<leftarrow> region_alloc proc sz s;
        if base = 0 then Some ((-1, base), s)
        else do {
          (ok, s) \<leftarrow> for_pages (\<lambda>i s. do {
              (r, s) \<leftarrow> vmm_arch_proc_map proc (base + i) (phys + i) flags s;
              Some (r = 0, s)
            }) sz 0 s;
          Some ((if ok then 0 else -1, base), s)
        }
      }) s)"

definition vmm_alloc ::
  "ptr \<Rightarrow> u64 \<Rightarrow> u64 \<Rightarrow> u32 \<Rightarrow> 'a vmm_state_scheme \<Rightarrow> ((int \<times> u64) outcome \<times> 'a vmm_state_scheme) option" where
  "vmm_alloc proc base sz flags s =
     (if \<not> page_aligned sz then Some (Done (-1, base), s)
      else if proc = NULL then None
      else with_mutex (VMM_MUTEX proc) (\<lambda>s. do {
        (r, base, s) \<leftarrow>
          (if flags AND VMM_FIXED \<noteq> 0 then
             if \<not> page_aligned base then None
             else do {
               (r, s) \<leftarrow> region_alloc_at proc base sz s;
               Some (r, base, s)
             }
           else do {
             (base, s) \<leftarrow> region_alloc proc sz s;
             Some (if base = 0 then -1 else 0, base, s)
           });
        if r \<noteq> 0 then Some ((-1, base), s)
        else do {
          (ok, s) \<leftarrow> for_pages (\<lambda>i s. do {
              (p, s) \<leftarrow> pmm_alloc s;
              if p = 0 then Some (False, s)
              else do {
                (r, s) \<leftarrow> vmm_arch_proc_map proc (base + i) p flags s;
                Some (r = 0, s)
              }
            }) sz 0 s;
          Some ((if ok then 0 else -1, base), s)
        }
      }) s)"

text \<open>
  The loops of \<^verbatim>\<open>vmm_map_shmem\<close> over the pages of a block and over the blocks, from the address \<open>p\<close> on; the
  list of blocks may be cyclic for all the types say.
\<close>

fun map_block_pages ::
  "ptr \<Rightarrow> u32 \<Rightarrow> u64 list \<Rightarrow> u64 \<Rightarrow> 'a vmm_state_scheme \<Rightarrow> (bool \<times> u64 \<times> 'a vmm_state_scheme) option" where
  "map_block_pages proc flags [] p s = Some (True, p, s)"
| "map_block_pages proc flags (page # pages) p s = do {
     (r, s) \<leftarrow> vmm_arch_proc_map proc p page flags s;
     if r \<noteq> 0 then Some (False, p, s)
     else map_block_pages proc flags pages (p + PAGE_SIZE) s
   }"

partial_function (option) map_blocks ::
  "ptr \<Rightarrow> u32 \<Rightarrow> ptr \<Rightarrow> u64 \<Rightarrow> 'a vmm_state_scheme \<Rightarrow> (bool \<times> 'a vmm_state_scheme) option" where
  "map_blocks proc flags block p s =
     (if block = NULL then Some (True, s)
      else do {
        (ok, p, s) \<leftarrow> map_block_pages proc flags
          (map (sb_pages (shmem_blocks s block)) [0 ..< sb_used (shmem_blocks s block)]) p s;
        if \<not> ok then Some (False, s)
        else map_blocks proc flags (sb_next (shmem_blocks s block)) p s
      })"

definition vmm_map_shmem ::
  "ptr \<Rightarrow> u64 \<Rightarrow> ptr \<Rightarrow> u64 \<Rightarrow> u32 \<Rightarrow> 'a vmm_state_scheme \<Rightarrow> ((int \<times> u64) outcome \<times> 'a vmm_state_scheme) option" where
  "vmm_map_shmem proc base blocks sz flags s =
     (if \<not> page_aligned sz then Some (Done (-1, base), s)
      else if proc = NULL then None
      else with_mutex (VMM_MUTEX proc) (\<lambda>s. do {
        (base, s) \<leftarrow> region_alloc proc sz s;
        if base = 0 then Some ((-1, base), s)
        else do {
          (ok, s) \<leftarrow> map_blocks proc flags blocks base s;
          Some ((if ok then 0 else -1, base), s)
        }
      }) s)"

definition sys_vmm_map :: "u64 \<Rightarrow> u64 \<Rightarrow> u64 \<Rightarrow> 'a vmm_state_scheme \<Rightarrow> ((int \<times> u64) outcome \<times> 'a vmm_state_scheme) option" where
  "sys_vmm_map phys sz base s =
     vmm_map (t_proc (threads s (thread_current s))) base phys sz (VMM_READ OR VMM_WRITE OR VMM_USER) s"

definition sys_vmm_alloc :: "u64 \<Rightarrow> u64 \<Rightarrow> 'a vmm_state_scheme \<Rightarrow> ((int \<times> u64) outcome \<times> 'a vmm_state_scheme) option" where
  "sys_vmm_alloc sz base s =
     vmm_alloc (t_proc (threads s (thread_current s))) base sz (VMM_READ OR VMM_WRITE OR VMM_USER) s"

text \<open>\<^verbatim>\<open>vmm_context_init\<close> does not look at the results of the map operations.\<close>

definition vmm_context_init :: "ptr \<Rightarrow> 'a vmm_state_scheme \<Rightarrow> (int \<times> 'a vmm_state_scheme) option" where
  "vmm_context_init proc s = do {
     (_, m, s) \<leftarrow> memory_map_add s_map_allocator memory_map_init USER_REGION_BASE USER_REGION_SIZE s;
     (_, m, s) \<leftarrow> memory_map_exclude s_map_allocator m 0 PAGE_SIZE s;
     Some (0, mutex_init (VMM_MUTEX proc) (set_free_map proc m s))
   }"

definition vmm_init :: "'a vmm_state_scheme \<Rightarrow> (int \<times> 'a vmm_state_scheme) option" where
  "vmm_init s = do {
     s \<leftarrow> slab_cache_init ENTRY_CACHE 24 s;
     Some (0, s)
   }"

section \<open>The entries of the free maps\<close>

text \<open>
  The allocator over a state that began as \<open>s0\<close>, with the other objects \<open>Ob\<close> and the pages \<open>U\<close>; the set is
  that of the live entries.
\<close>

definition entries_inv ::
  "'a vmm_state_scheme \<Rightarrow> (cache_id \<Rightarrow> ptr set) \<Rightarrow> ptr set \<Rightarrow> 'a vmm_state_scheme \<times> ptr set \<Rightarrow> bool" where
  "entries_inv s0 Ob U = (\<lambda>(s, L). memory s (Ob(ENTRY_CACHE := L)) U \<and> slab_frame s0 s \<and> same_shape (caches s0) (caches s)
     \<and> cache_ready s0 ENTRY_CACHE)"

lemma entries_alloc:
  assumes "entries_inv s0 Ob U (s, L)"
  shows "\<exists>p s'. entry_alloc s = Some (p, s') \<and> entries_inv s0 Ob U (s', if p = NULL then L else insert p L) \<and> (p \<noteq> NULL \<longrightarrow> p \<notin> L)"
proof -
  have i: "memory s (Ob(ENTRY_CACHE := L)) U" "slab_frame s0 s" "same_shape (caches s0) (caches s)" "cache_ready s0 ENTRY_CACHE"
    using assms by (simp_all add: entries_inv_def)
  have r: "cache_ready s ENTRY_CACHE" using i(3,4) by (simp add: ready_shape)
  obtain p s' where a: "slab_cache_alloc ENTRY_CACHE s = Some (p, s')" "slab_frame s s'" "same_shape (caches s) (caches s')"
    "memory s' (if p = NULL then Ob(ENTRY_CACHE := L)
       else (Ob(ENTRY_CACHE := L))(ENTRY_CACHE := insert p ((Ob(ENTRY_CACHE := L)) ENTRY_CACHE))) U"
    "if p = NULL then free_stack s = [] else p \<notin> (Ob(ENTRY_CACHE := L)) ENTRY_CACHE"
    using alloc_object [OF i(1) r] by blast
  have "memory s' (Ob(ENTRY_CACHE := if p = NULL then L else insert p L)) U" using a(4) by (cases "p = NULL") simp_all
  moreover have "p \<noteq> NULL \<longrightarrow> p \<notin> L" using a(5) by auto
  ultimately show ?thesis using a(1) i(4) slab_frame_trans [OF i(2) a(2)] same_shape_trans [OF i(3) a(3)]
    by (intro exI [of _ p] exI [of _ s']) (simp add: entries_inv_def entry_alloc_def)
qed

lemma entries_free:
  assumes "entries_inv s0 Ob U (s, L)" and p: "p \<in> L"
  shows "\<exists>s'. entry_free p s = Some s' \<and> entries_inv s0 Ob U (s', L - {p})"
proof -
  have i: "memory s (Ob(ENTRY_CACHE := L)) U" "slab_frame s0 s" "same_shape (caches s0) (caches s)" "cache_ready s0 ENTRY_CACHE"
    using assms by (simp_all add: entries_inv_def)
  have r: "cache_ready s ENTRY_CACHE" using i(3,4) by (simp add: ready_shape)
  have "p \<in> (Ob(ENTRY_CACHE := L)) ENTRY_CACHE" using p by simp
  from free_object [OF i(1) r this] obtain s' where a: "slab_cache_free ENTRY_CACHE p s = Some s'" "slab_frame s s'"
    "same_shape (caches s) (caches s')" "memory s' ((Ob(ENTRY_CACHE := L))(ENTRY_CACHE := (Ob(ENTRY_CACHE := L)) ENTRY_CACHE - {p})) U"
    by blast
  then show ?thesis using i slab_frame_trans [OF i(2) a(2)] same_shape_trans [OF i(3) a(3)]
    by (intro exI [of _ s']) (simp add: entries_inv_def entry_free_def)
qed

interpretation entries: entry_allocator "recorded s_map_allocator" "entries_inv s0 Ob U" snd
proof
  fix a :: "'a vmm_state_scheme \<times> ptr set" assume "entries_inv s0 Ob U a"
  then show "\<exists>p a'. mma_alloc (recorded s_map_allocator) a = Some (p, a') \<and> entries_inv s0 Ob U a' \<and>
      (if p = NULL then snd a' = snd a else p \<notin> snd a \<and> snd a' = insert p (snd a))"
    using entries_alloc [of s0 Ob U "fst a" "snd a"] by (cases a) (fastforce simp: recorded_def s_map_allocator_def)
next
  fix a :: "'a vmm_state_scheme \<times> ptr set" and p assume "entries_inv s0 Ob U a" "p \<in> snd a"
  then show "\<exists>a'. mma_free (recorded s_map_allocator) p a = Some a' \<and> entries_inv s0 Ob U a' \<and> snd a - {p} \<subseteq> snd a'"
    using entries_free [of s0 Ob U "fst a" "snd a" p] by (cases a) (fastforce simp: recorded_def s_map_allocator_def)
qed

text \<open>The operations keep the entries of a map page-aligned.\<close>

definition map_aligned :: "memory_map \<Rightarrow> bool" where
  "map_aligned m \<longleftrightarrow> (\<forall>n \<in> set m. entry_aligned (snd n))"

lemma page_aligned_diff: "page_aligned a \<Longrightarrow> page_aligned b \<Longrightarrow> page_aligned (a - b)"
proof -
  assume a: "page_aligned a" and b: "page_aligned b"
  have m: "4096 dvd (unat a + 2 ^ 64)" "4096 dvd unat a" "4096 dvd unat b" using a b by (simp_all add: page_aligned_mod mod_0_imp_dvd)
  have "(unat a + 2 ^ 64 - unat b) mod 4096 = 0" "(unat a - unat b) mod 4096 = 0"
    using dvd_diff_nat [OF m(1,3)] dvd_diff_nat [OF m(2,3)] by (simp_all only: dvd_eq_mod_eq_0)
  then show ?thesis by (simp add: page_aligned_mod unat_sub_if')
qed

lemma region_aligned:
  "memory_map_alloc alc m sz a = Some (p, m', a') \<Longrightarrow> page_aligned sz \<Longrightarrow> map_aligned m \<Longrightarrow> map_aligned m' \<and> page_aligned p"
  unfolding memory_map_alloc_def map_aligned_def
proof (intro conjI)
  assume a: "alloc_loop alc sz NULL m a = Some (p, m', a')" "page_aligned sz" "\<forall>n \<in> set m. entry_aligned (snd n)"
  then show "\<forall>n \<in> set m'. entry_aligned (snd n)" by (rule alloc_loop_aligned)
  have "alloc_loop alc sz prev m a = Some (p, m', a') \<Longrightarrow> page_aligned p" for prev
    using a(3)
  proof (induction m arbitrary: prev a m')
    case Nil
    then show ?case by simp
  next
    case (Cons n m)
    then show ?case by (cases n) (auto simp: bind_Some_conv entry_aligned_def split: if_splits)
  qed
  then show "page_aligned p" using a(1) by blast
qed

lemma region_at_aligned:
  assumes "memory_map_alloc_at alc m b sz a = Some (r, m', a')" and "page_aligned b" and "page_aligned sz" and "map_aligned m"
  shows "map_aligned m'"
proof -
  have "alloc_at_loop alc e m a = Some (r, m', a') \<Longrightarrow> entry_aligned e \<Longrightarrow> \<forall>n \<in> set m. entry_aligned (snd n) \<Longrightarrow>
      \<forall>n \<in> set m'. entry_aligned (snd n)" for e
  proof (induction m arbitrary: m')
    case Nil
    then show ?case by simp
  next
    case (Cons n m)
    have ins: "\<forall>n \<in> set nodes. entry_aligned (snd n)"
      if "exclude_inside alc n e a = Some (x, nodes, a1)" for x nodes a1
      using that Cons.prems(2,3)
      by (auto simp: exclude_inside_def Let_def bind_Some_conv entry_aligned_def page_aligned_add page_aligned_diff split: if_splits)
    show ?case using Cons.prems Cons.IH ins
      by (cases n) (fastforce simp: bind_Some_conv split: if_splits entry_collision_type.splits)
  qed
  then show ?thesis using assms unfolding memory_map_alloc_at_def map_aligned_def by (simp add: entry_aligned_def)
qed

section \<open>Address spaces\<close>

text \<open>
  The address space of a process: its map of free regions has page-aligned entries in the user region
  behind the first page, no free address is mapped, and the entries are live objects of their cache.
\<close>

definition free_space :: "'a vmm_state_scheme \<Rightarrow> ptr \<Rightarrow> u64 set" where
  "free_space s proc = map_space (p_free_map (processes s proc))"

definition space_ok :: "'a vmm_state_scheme \<Rightarrow> ptr set \<Rightarrow> ptr \<Rightarrow> bool" where
  "space_ok s R proc \<longleftrightarrow> proc \<noteq> NULL \<and> proc_cr3 proc s \<in> R
     \<and> map_ok (p_free_map (processes s proc)) \<and> map_aligned (p_free_map (processes s proc))
     \<and> free_space s proc \<subseteq> {PAGE_SIZE ..< USER_REGION_SIZE}
     \<and> (\<forall>v \<in> free_space s proc. translate (ptes s) (proc_cr3 proc s) v = None)"

definition map_nodes :: "'a vmm_state_scheme \<Rightarrow> ptr \<Rightarrow> ptr set" where
  "map_nodes s proc = fst ` set (p_free_map (processes s proc))"

text \<open>All address spaces, of the processes \<open>P\<close>: also, no two share a root or an entry.\<close>

definition vmm_ok :: "'a vmm_state_scheme \<Rightarrow> (cache_id \<Rightarrow> ptr set) \<Rightarrow> ptr set \<Rightarrow> ptr set \<Rightarrow> ptr set \<Rightarrow> bool" where
  "vmm_ok s Ob R U P \<longleftrightarrow> spaces_ok s Ob R U \<and> cache_ready s ENTRY_CACHE
     \<and> (\<forall>p \<in> P. space_ok s R p \<and> owns snd (p_free_map (processes s p)) (s, Ob ENTRY_CACHE))
     \<and> inj_on (\<lambda>p. proc_cr3 p s) P
     \<and> (\<forall>p \<in> P. \<forall>q \<in> P. p \<noteq> q \<longrightarrow> map_nodes s p \<inter> map_nodes s q = {})"

text \<open>What the operations on the address space of \<open>proc\<close> may change.\<close>

definition vmm_frame :: "ptr \<Rightarrow> 'a vmm_state_scheme \<Rightarrow> 'a vmm_state_scheme \<Rightarrow> bool" where
  "vmm_frame proc s s' \<longleftrightarrow> s' = s\<lparr>locks := locks s', s_allocatedPageCount := s_allocatedPageCount s', s_freeTable := s_freeTable s',
     slabs := slabs s', bufs := bufs s', caches := caches s', mutexes := mutexes s', ptes := ptes s', mem := mem s',
     processes := (processes s)(proc := (processes s proc)\<lparr>p_free_map := p_free_map (processes s' proc)\<rparr>)\<rparr>
     \<and> same_shape (caches s) (caches s')"

lemma vmm_frameE:
  assumes "vmm_frame proc s s'"
  obtains L a F sl b c mx pt me m where "s' = s\<lparr>locks := L, s_allocatedPageCount := a, s_freeTable := F,
     slabs := sl, bufs := b, caches := c, mutexes := mx, ptes := pt, mem := me,
     processes := (processes s)(proc := (processes s proc)\<lparr>p_free_map := m\<rparr>)\<rparr>" "same_shape (caches s) c"
  using assms unfolding vmm_frame_def by blast

lemma vmm_frame_refl [simp]: "vmm_frame proc s s"
  by (simp add: vmm_frame_def)

lemma vmm_frame_trans: "vmm_frame proc s s' \<Longrightarrow> vmm_frame proc s' s'' \<Longrightarrow> vmm_frame proc s s''"
  by (elim vmm_frameE) (auto simp: vmm_frame_def intro: same_shape_trans)

lemma slab_frame_vmm: "slab_frame s s' \<Longrightarrow> same_shape (caches s) (caches s') \<Longrightarrow> vmm_frame proc s s'"
  by (elim slab_frameE) (simp add: vmm_frame_def)

lemma page_frame_vmm: "page_frame s s' \<Longrightarrow> vmm_frame proc s s'"
  by (elim page_frameE) (simp add: vmm_frame_def)

lemma vmm_frame_keeps:
  assumes "vmm_frame proc s s'"
  shows "proc_cr3 p s' = proc_cr3 p s" "q \<noteq> proc \<Longrightarrow> processes s' q = processes s q" "p_id (processes s' q) = p_id (processes s q)"
    "p_name (processes s' q) = p_name (processes s q)" "p_arch_data (processes s' q) = p_arch_data (processes s q)"
    "cache_ready s' c = cache_ready s c" "s_freePageCount s' = s_freePageCount s" "shmem_blocks s' = shmem_blocks s"
    "thread_current s' = thread_current s" "threads s' = threads s" "int_flag s' = int_flag s"
  using assms by (auto elim!: vmm_frameE simp: proc_cr3_def same_shape_def)

lemma vmm_ok_space: "vmm_ok s Ob R U P \<Longrightarrow> proc \<in> P \<Longrightarrow> space_ok s R proc"
  by (simp add: vmm_ok_def)

text \<open>
  A map operation on the free map of one process, seen from all: the others keep their entries.
\<close>

lemma free_map_changed:
  assumes ok: "vmm_ok s Ob R U P" and p: "proc \<in> P" and fr: "slab_frame s s'" "same_shape (caches s) (caches s')"
    and mem: "memory s' (Ob(ENTRY_CACHE := L)) U"
    and m: "map_ok m" "map_aligned m" "map_space m \<subseteq> free_space s proc"
    and own: "hands_over snd (p_free_map (processes s proc)) (s, Ob ENTRY_CACHE) m (s', L)"
  shows "vmm_ok (set_free_map proc m s') (Ob(ENTRY_CACHE := L)) R U P" and "vmm_frame proc s (set_free_map proc m s')"
    and "ptes (set_free_map proc m s') = ptes s" and "mutexes (set_free_map proc m s') = mutexes s"
    and "mem (set_free_map proc m s') = mem s"
proof -
  let ?s = "set_free_map proc m s'"
  have pr: "processes s' = processes s" "ptes s' = ptes s" "arch_cr3 s' = arch_cr3 s" "mutexes s' = mutexes s" "mem s' = mem s"
    using fr(1) by (auto elim!: slab_frameE)
  then have eqs: "ptes ?s = ptes s" "proc_cr3 q ?s = proc_cr3 q s" "mutexes ?s = mutexes s" "mem ?s = mem s"
      "processes ?s = (processes s)(proc := (processes s proc)\<lparr>p_free_map := m\<rparr>)" for q
    by (simp_all add: set_free_map_def proc_cr3_def)
  show "ptes ?s = ptes s" "mutexes ?s = mutexes s" "mem ?s = mem s" by (simp_all add: eqs)
  show "vmm_frame proc s ?s" using fr pr by (elim slab_frameE) (simp add: vmm_frame_def set_free_map_def)
  have nodes: "map_nodes ?s q = (if q = proc then fst ` set m else map_nodes s q)" for q
    by (simp add: map_nodes_def eqs)
  have free: "free_space ?s q = (if q = proc then map_space m else free_space s q)" for q
    by (simp add: free_space_def eqs)
  have o: "owns snd m (s', L)" "Ob ENTRY_CACHE - map_nodes s proc \<subseteq> L - fst ` set m"
    using own by (simp_all add: hands_over_def map_nodes_def)
  have "space_ok ?s R q" if "q \<in> P" for q
    using vmm_ok_space [OF ok that] vmm_ok_space [OF ok p] m by (auto simp: space_ok_def free eqs)
  moreover have "owns snd (p_free_map (processes ?s q)) (?s, L)" if q: "q \<in> P" for q
  proof (cases "q = proc")
    case True
    then show ?thesis using o(1) by (simp add: eqs owns_def)
  next
    case False
    have "map_nodes s q \<subseteq> Ob ENTRY_CACHE" "map_nodes s q \<inter> map_nodes s proc = {}"
      using ok p q False by (auto simp: vmm_ok_def owns_def map_nodes_def)
    then have "map_nodes s q \<subseteq> L" using o(2) by blast
    then show ?thesis using ok q False by (simp add: vmm_ok_def owns_def eqs map_nodes_def)
  qed
  moreover have "map_nodes ?s q \<inter> map_nodes ?s r = {}" if q: "q \<in> P" "r \<in> P" "q \<noteq> r" for q r
  proof -
    have sub: "map_nodes s q \<subseteq> Ob ENTRY_CACHE" if "q \<in> P" for q
      using ok that by (auto simp: vmm_ok_def owns_def map_nodes_def)
    have dis: "map_nodes s q \<inter> map_nodes s r = {}" if "q \<in> P" "r \<in> P" "q \<noteq> r" for q r
      using ok that by (simp add: vmm_ok_def)
    have one: "fst ` set m \<inter> map_nodes s x = {}" if "x \<in> P" "x \<noteq> proc" for x
      using o(2) sub [OF that(1)] dis [OF that(1) p that(2)] by blast
    show ?thesis using q dis [OF q] one [OF q(1)] one [OF q(2)] unfolding nodes by (cases "q = proc"; cases "r = proc") auto
  qed
  moreover have "memory ?s (Ob(ENTRY_CACHE := L)) U" using mem by (simp add: set_free_map_def)
  moreover have "tables_ok (ptes ?s) R U" using ok by (simp add: vmm_ok_def eqs)
  moreover have "cache_ready ?s ENTRY_CACHE" using ok ready_shape [OF fr(2)] by (simp add: vmm_ok_def set_free_map_def)
  moreover have "inj_on (\<lambda>p. proc_cr3 p ?s) P" using ok by (simp add: vmm_ok_def eqs)
  ultimately show "vmm_ok ?s (Ob(ENTRY_CACHE := L)) R U P" by (simp add: vmm_ok_def)
qed

text \<open>Taking a region from the free map.\<close>

definition region :: "u64 \<Rightarrow> u64 \<Rightarrow> u64 set" where
  "region base sz = {base .. base + sz - 1}"

lemma entries_inv_start:
  "vmm_ok s Ob R U P \<Longrightarrow> entries_inv s Ob U (s, Ob ENTRY_CACHE)"
  by (simp add: vmm_ok_def entries_inv_def)

lemma region_alloc_ok:
  assumes ok: "vmm_ok s Ob R U P" and p: "proc \<in> P" and sz: "page_aligned sz" "sz \<noteq> 0"
    and first: "p_free_map (processes s proc) \<noteq> [] \<Longrightarrow> me_size (snd (hd (p_free_map (processes s proc)))) \<noteq> sz"
  shows "\<exists>base s' L. region_alloc proc sz s = Some (base, s') \<and> vmm_ok s' (Ob(ENTRY_CACHE := L)) R U P \<and> vmm_frame proc s s'
    \<and> ptes s' = ptes s \<and> mutexes s' = mutexes s \<and> mem s' = mem s
    \<and> (if base = 0 then free_space s' proc = free_space s proc \<and> (\<forall>n \<in> set (p_free_map (processes s proc)). me_size (snd n) < sz)
       else page_aligned base \<and> base \<le> base + sz - 1 \<and> region base sz \<subseteq> free_space s proc
         \<and> free_space s' proc = free_space s proc - region base sz)"
proof -
  let ?m = "p_free_map (processes s proc)"
  have so: "map_ok ?m" "map_aligned ?m" "free_space s proc \<subseteq> {PAGE_SIZE ..< USER_REGION_SIZE}"
    using vmm_ok_space [OF ok p] by (simp_all add: space_ok_def)
  have own: "owns snd ?m (s, Ob ENTRY_CACHE)" using ok p by (simp add: vmm_ok_def)
  note inv = entries_inv_start [OF ok]
  show ?thesis
  proof (cases "\<exists>n \<in> set ?m. sz \<le> me_size (snd n)")
    case False
    then have no: "\<forall>n \<in> set ?m. me_size (snd n) < sz" by (auto simp: not_le)
    have "memory_map_alloc s_map_allocator ?m sz s = Some (0, ?m, s)"
      unfolding memory_map_alloc_def using entries.alloc_loop_none [OF no]
      by (metis alloc_loop_recorded prod.collapse memory_map_alloc_def)
    moreover have "set_free_map proc ?m s = s" by (simp add: set_free_map_def)
    ultimately show ?thesis using ok no
      by (intro exI [of _ 0] exI [of _ s] exI [of _ "Ob ENTRY_CACHE"]) (simp add: region_alloc_def)
  next
    case True
    then have "?m \<noteq> []" by auto
    then have "NULL \<noteq> NULL \<or> me_size (snd (hd ?m)) \<noteq> sz" using first by blast
    from entries.alloc_loop_some [OF so(1) inv own sz(2) this True]
    obtain base m x where l: "alloc_loop (recorded s_map_allocator) sz NULL ?m (s, Ob ENTRY_CACHE) = Some (base, m, x)"
      "entries_inv s Ob U x" "hands_over snd ?m (s, Ob ENTRY_CACHE) m x" "map_ok m" "base \<le> base + sz - 1"
      "{base .. base + sz - 1} \<subseteq> map_space ?m" "map_space m = map_space ?m - {base .. base + sz - 1}"
      by blast
    obtain s1 L where x: "x = (s1, L)" by (cases x)
    have run: "memory_map_alloc s_map_allocator ?m sz s = Some (base, m, s1)"
      using memory_map_alloc_recorded l(1) unfolding x memory_map_alloc_def by fast
    note al = region_aligned [OF run sz(1) so(2)]
    have i: "memory s1 (Ob(ENTRY_CACHE := L)) U" "slab_frame s s1" "same_shape (caches s) (caches s1)"
      using l(2) by (simp_all add: x entries_inv_def)
    have sub: "map_space m \<subseteq> free_space s proc" using l(7) by (auto simp: free_space_def)
    note fc = free_map_changed [OF ok p i(2,3,1) l(4) _ sub l(3) [unfolded x]]
    have "base \<in> free_space s proc" using l(5,6) by (auto simp: free_space_def)
    then have "base \<noteq> 0" using so(3) by auto
    moreover have "free_space (set_free_map proc m s1) proc = map_space m" by (simp add: free_space_def set_free_map_def)
    ultimately show ?thesis using run al fc l(5-7)
      by (intro exI [of _ base] exI [of _ "set_free_map proc m s1"] exI [of _ L]) (simp add: region_alloc_def region_def free_space_def)
  qed
qed

lemma region_alloc_at_ok:
  assumes ok: "vmm_ok s Ob R U P" and p: "proc \<in> P" and sz: "page_aligned base" "page_aligned sz" "sz \<noteq> 0" "base \<le> base + sz - 1"
  shows "\<exists>r s' L. region_alloc_at proc base sz s = Some (r, s') \<and> vmm_ok s' (Ob(ENTRY_CACHE := L)) R U P \<and> vmm_frame proc s s'
    \<and> ptes s' = ptes s \<and> mutexes s' = mutexes s \<and> mem s' = mem s
    \<and> (if r = 0 then region base sz \<subseteq> free_space s proc \<and> free_space s' proc = free_space s proc - region base sz
       else r = -1 \<and> free_space s' proc = free_space s proc)"
proof -
  let ?m = "p_free_map (processes s proc)" and ?e = "\<lparr>me_base = base, me_size = sz\<rparr>"
  have so: "map_ok ?m" "map_aligned ?m" using vmm_ok_space [OF ok p] by (simp_all add: space_ok_def)
  have own: "owns snd ?m (s, Ob ENTRY_CACHE)" using ok p by (simp add: vmm_ok_def)
  have e: "entry_ok ?e" "entry_range ?e = region base sz" using sz(3,4) by (simp_all add: entry_ok_def entry_end_def entry_range_def region_def)
  from entries.alloc_at_correct [OF so(1) e(1) entries_inv_start [OF ok] own]
  obtain r m x where l: "alloc_at_loop (recorded s_map_allocator) ?e ?m (s, Ob ENTRY_CACHE) = Some (r, m, x)"
    "entries_inv s Ob U x" "hands_over snd ?m (s, Ob ENTRY_CACHE) m x" "map_ok m" "map_space m \<subseteq> map_space ?m"
    "r = 0 \<and> entry_range ?e \<subseteq> map_space ?m \<and> map_space m = map_space ?m - entry_range ?e \<or> r = -1 \<and> m = ?m"
    by blast
  obtain s1 L where x: "x = (s1, L)" by (cases x)
  have run: "memory_map_alloc_at s_map_allocator ?m base sz s = Some (r, m, s1)"
    using memory_map_alloc_at_recorded l(1) unfolding x memory_map_alloc_at_def by fast
  have i: "memory s1 (Ob(ENTRY_CACHE := L)) U" "slab_frame s s1" "same_shape (caches s) (caches s1)"
    using l(2) by (simp_all add: x entries_inv_def)
  note fc = free_map_changed [OF ok p i(2,3,1) l(4) region_at_aligned [OF run sz(1,2) so(2)] l(5) [folded free_space_def] l(3) [unfolded x]]
  have "free_space (set_free_map proc m s1) proc = map_space m" by (simp add: free_space_def set_free_map_def)
  moreover have "region_alloc_at proc base sz s = Some (r, set_free_map proc m s1)" by (simp add: region_alloc_at_def run)
  moreover have "if r = 0 then region base sz \<subseteq> free_space s proc \<and> map_space m = free_space s proc - region base sz
      else r = -1 \<and> map_space m = free_space s proc"
    using l(6) unfolding e(2) free_space_def by (cases "r = 0") simp_all
  ultimately show ?thesis using fc by (intro exI [of _ r] exI [of _ "set_free_map proc m s1"] exI [of _ L]) simp
qed

section \<open>Mapping the pages of a region\<close>

lemma region_pages:
  assumes b: "page_aligned base" "base \<le> base + sz - 1" "base + sz - 1 < USER_REGION_SIZE"
    and n: "unat sz = n * 4096" "sz \<noteq> 0" and k: "k < n"
  shows "unat (base + of_nat k * PAGE_SIZE) = unat base + k * 4096" and "user_addr (base + of_nat k * PAGE_SIZE)"
    and "base + of_nat k * PAGE_SIZE \<in> region base sz" and "page_of (base + of_nat k * PAGE_SIZE) = page_of base + k"
proof -
  have s1: "unat (sz - 1) = n * 4096 - 1" using n by (simp add: word_pred_unat)
  have a: "base + sz - 1 = base + (sz - 1)" by (rule add_diff_eq [symmetric])
  have "unat (base + (sz - 1)) = unat base + unat (sz - 1)"
    using b(2) unfolding a by (simp only: unat_plus_simple)
  then have top: "unat (base + sz - 1) = unat base + (n * 4096 - 1)" unfolding a s1 .
  then have lim: "unat base + (n * 4096 - 1) < 2 ^ 47" using b(3) by (simp add: word_less_nat_alt)
  have k4: "k * 4096 + 4096 \<le> n * 4096" using k by (metis add_mult_distrib mult_le_mono1 Suc_leI mult_Suc add.commute)
  have uk: "unat (of_nat k * PAGE_SIZE :: u64) = k * 4096" using of_nat_page_less(2) [of "Suc k" k] lim k4 by simp
  show u: "unat (base + of_nat k * PAGE_SIZE) = unat base + k * 4096"
    using lim k4 uk by (simp add: unat_word_ariths(1))
  show "user_addr (base + of_nat k * PAGE_SIZE)" using u lim k4 by (simp add: user_addr_def word_less_nat_alt)
  show "base + of_nat k * PAGE_SIZE \<in> region base sz" using u top k4 by (simp add: region_def word_le_nat_alt)
  show "page_of (base + of_nat k * PAGE_SIZE) = page_of base + k" unfolding u by simp
qed

text \<open>
  The pages \<open>ps\<close> have been mapped from \<open>base\<close> on in the address space with the root \<open>r\<close>, since the state
  was \<open>s0\<close>; nothing else has changed its translation.
\<close>

definition pages_mapped ::
  "'a page_state_scheme \<Rightarrow> ptr set \<Rightarrow> ptr \<Rightarrow> u64 \<Rightarrow> bool \<Rightarrow> ptr list \<Rightarrow> 'a page_state_scheme \<Rightarrow> bool" where
  "pages_mapped s0 R r base w ps s \<longleftrightarrow> page_frame s0 s
     \<and> (\<forall>j < length ps. translate (ptes s) r (base + of_nat j * PAGE_SIZE) = Some (ps ! j, w))
     \<and> (\<forall>r' \<in> R. \<forall>v. user_addr v \<and> (r' = r \<longrightarrow> page_of v \<notin> {page_of base ..< page_of base + length ps}) \<longrightarrow>
          translate (ptes s) r' v = translate (ptes s0) r' v)"

lemma pages_mapped_Nil: "page_frame s0 s \<Longrightarrow> ptes s = ptes s0 \<Longrightarrow> pages_mapped s0 R r base w [] s"
  by (simp add: pages_mapped_def)

lemma pages_mapped_frame: "pages_mapped s0 R r base w ps s \<Longrightarrow> page_frame s s' \<Longrightarrow> ptes s' = ptes s \<Longrightarrow> pages_mapped s0 R r base w ps s'"
  by (auto simp: pages_mapped_def intro: page_frame_trans)

lemma map_next_page:
  assumes ok: "spaces_ok s Ob R V" and m: "pages_mapped s0 R r base w ps s" and r: "r = proc_cr3 proc s0" "r \<in> R"
    and b: "page_aligned base" "base \<le> base + sz - 1" "base + sz - 1 < USER_REGION_SIZE"
    and n: "unat sz = n * 4096" "sz \<noteq> 0" and k: "length ps < n"
    and free: "\<forall>v \<in> region base sz. translate (ptes s0) r v = None"
    and p: "usable_page p" and f: "flags AND VMM_USER \<noteq> 0" and w: "w \<longleftrightarrow> flags AND VMM_WRITE \<noteq> 0"
  shows "\<exists>res s' V'. vmm_arch_proc_map proc (base + of_nat (length ps) * PAGE_SIZE) p flags s = Some (res, s')
    \<and> spaces_ok s' Ob R V' \<and> V \<subseteq> V'
    \<and> (if res = 0 then pages_mapped s0 R r base w (ps @ [p]) s' else pages_mapped s0 R r base w ps s' \<and> free_stack s' = [])"
proof -
  let ?v = "base + of_nat (length ps) * PAGE_SIZE"
  note rp = region_pages [OF b n]
  have fr: "page_frame s0 s" and old: "\<And>r' v. r' \<in> R \<Longrightarrow> user_addr v \<Longrightarrow>
      (r' = r \<longrightarrow> page_of v \<notin> {page_of base ..< page_of base + length ps}) \<Longrightarrow> translate (ptes s) r' v = translate (ptes s0) r' v"
    and mapped: "\<And>j. j < length ps \<Longrightarrow> translate (ptes s) r (base + of_nat j * PAGE_SIZE) = Some (ps ! j, w)"
    using m by (simp_all add: pages_mapped_def)
  have c: "proc_cr3 proc s = r" using page_frame_keeps(12) [OF fr] r by simp
  have un: "translate (ptes s) r ?v = None" using old [OF r(2) rp(2) [OF k]] rp(3,4) [OF k] free by simp
  have cr: "proc_cr3 proc s \<in> R" using c r by simp
  obtain res s' V' where x: "vmm_arch_proc_map proc ?v p flags s = Some (res, s')" "page_frame s s'" "spaces_ok s' Ob R V'" "V \<subseteq> V'"
    "if res = 0 then translate (ptes s) (proc_cr3 proc s) ?v = None
          \<and> translate (ptes s') (proc_cr3 proc s) ?v = Some (p, flags AND VMM_WRITE \<noteq> 0)
       else res = -1 \<and> (translate (ptes s) (proc_cr3 proc s) ?v \<noteq> None \<or> free_stack s' = [])"
    and keep: "\<forall>r' \<in> R. \<forall>v'. user_addr v' \<and> (res = 0 \<longrightarrow> (r', page_of v') \<noteq> (proc_cr3 proc s, page_of ?v)) \<longrightarrow>
        translate (ptes s') r' v' = translate (ptes s) r' v'"
    using proc_map_ok [OF ok cr rp(2) [OF k] p f] by blast
  have keep': "translate (ptes s') r' v' = translate (ptes s) r' v'"
    if "r' \<in> R" "user_addr v'" "res = 0 \<longrightarrow> r' = r \<longrightarrow> page_of v' \<noteq> page_of base + length ps" for r' v'
    using keep that unfolding c rp(4) [OF k] by auto
  have fr': "page_frame s0 s'" using page_frame_trans [OF fr x(2)] .
  show ?thesis
  proof (cases "res = 0")
    case True
    have "translate (ptes s') r (base + of_nat j * PAGE_SIZE) = Some ((ps @ [p]) ! j, w)" if j: "j < Suc (length ps)" for j
    proof (cases "j = length ps")
      case t: True
      then show ?thesis using x(5) True w by (simp add: c)
    next
      case False
      then have j: "j < length ps" "j < n" using j k by simp_all
      then show ?thesis using keep' [OF r(2) rp(2) [OF j(2)]] rp(4) [OF j(2)] mapped [OF j(1)] by (simp add: nth_append)
    qed
    moreover have "translate (ptes s') r' v = translate (ptes s0) r' v"
      if "r' \<in> R" "user_addr v" "r' = r \<longrightarrow> page_of v \<notin> {page_of base ..< page_of base + Suc (length ps)}" for r' v
      using keep' [OF that(1,2)] old [OF that(1,2)] that(3) by auto
    ultimately have "pages_mapped s0 R r base w (ps @ [p]) s'" using fr' by (simp add: pages_mapped_def)
    then show ?thesis using x(1,3,4) True by (intro exI [of _ res] exI [of _ s'] exI [of _ V']) simp
  next
    case False
    have "pages_mapped s0 R r base w ps s'"
      unfolding pages_mapped_def
    proof (intro conjI allI impI ballI)
      show "page_frame s0 s'" by (rule fr')
      show "translate (ptes s') r (base + of_nat j * PAGE_SIZE) = Some (ps ! j, w)" if j: "j < length ps" for j
        using keep' [OF r(2) rp(2)] mapped [OF j] False j k by simp
      show "translate (ptes s') r' v = translate (ptes s0) r' v"
        if "r' \<in> R" "user_addr v \<and> (r' = r \<longrightarrow> page_of v \<notin> {page_of base ..< page_of base + length ps})" for r' v
        using keep' [OF that(1)] old [OF that(1)] that(2) False by simp
    qed
    moreover have "free_stack s' = []" using x(5) False un by (simp add: c)
    ultimately show ?thesis using x(1,3,4) False by auto
  qed
qed

text \<open>The loop of \<^verbatim>\<open>vmm_alloc\<close>, over \<open>n\<close> pages: fresh pages, as far as there are any.\<close>

lemma alloc_pages_ok:
  assumes ok: "spaces_ok s Ob R U" and r: "proc_cr3 proc s \<in> R"
    and b: "page_aligned base" "base \<le> base + sz - 1" "base + sz - 1 < USER_REGION_SIZE"
    and sz: "page_aligned sz" "sz \<noteq> 0"
    and free: "\<forall>v \<in> region base sz. translate (ptes s) (proc_cr3 proc s) v = None" and f: "flags AND VMM_USER \<noteq> 0"
  shows "\<exists>res s' V ps. for_pages (\<lambda>i s. do {
              (p, s) \<leftarrow> pmm_alloc s;
              if p = 0 then Some (False, s)
              else do {
                (r, s) \<leftarrow> vmm_arch_proc_map proc (base + i) p flags s;
                Some (r = 0, s)
              }
            }) sz 0 s = Some (res, s') \<and> spaces_ok s' Ob R V \<and> U \<subseteq> V
    \<and> pages_mapped s R (proc_cr3 proc s) base (flags AND VMM_WRITE \<noteq> 0) ps s'
    \<and> set ps \<subseteq> V - U \<and> distinct ps \<and> (if res then length ps * 4096 = unat sz else free_stack s' = []) \<and> length ps * 4096 \<le> unat sz"
proof -
  let ?r = "proc_cr3 proc s" and ?w = "flags AND VMM_WRITE \<noteq> 0"
  let ?f = "\<lambda>i s. do {
              (p, s) \<leftarrow> pmm_alloc s;
              if p = 0 then Some (False, s)
              else do {
                (r, s) \<leftarrow> vmm_arch_proc_map proc (base + i) p flags s;
                Some (r = 0, s)
              }
            }"
  obtain n where n: "n < 2 ^ 52" "sz = of_nat n * PAGE_SIZE" "unat sz = n * 4096" using page_aligned_count [OF sz(1)] .
  let ?I = "\<lambda>k s'. \<exists>V ps. spaces_ok s' Ob R V \<and> U \<subseteq> V \<and> pages_mapped s R ?r base ?w ps s' \<and> set ps \<subseteq> V - U \<and> distinct ps \<and> length ps = k \<and> k \<le> n"
  let ?E = "\<lambda>s'. \<exists>V ps. spaces_ok s' Ob R V \<and> U \<subseteq> V \<and> pages_mapped s R ?r base ?w ps s' \<and> set ps \<subseteq> V - U \<and> distinct ps \<and> length ps \<le> n
      \<and> free_stack s' = []"
  have start: "?I 0 s" using ok pages_mapped_Nil [of s s] by fastforce
  have step: "\<exists>res s'. ?f (of_nat k * PAGE_SIZE) t = Some (res, s') \<and> (if res then ?I (Suc k) s' else ?E s')"
    if k: "k < n" and I: "?I k t" for k t
  proof -
    obtain V ps where i: "spaces_ok t Ob R V" "U \<subseteq> V" "pages_mapped s R ?r base ?w ps t" "set ps \<subseteq> V - U" "distinct ps" "length ps = k"
      using I by blast
    have mt: "memory t Ob V" using i(1) by blast
    obtain p t1 where p: "pmm_alloc t = Some (p, t1)" "page_frame t t1" "ptes t1 = ptes t" "memory t1 Ob (if p = 0 then V else insert p V)"
      "if p = 0 then free_stack t1 = [] else usable_page p \<and> p \<notin> V"
      using alloc_page_frame [OF mt] by blast
    have pm: "pages_mapped s R ?r base ?w ps t1" using pages_mapped_frame [OF i(3) p(2,3)] .
    show ?thesis
    proof (cases "p = 0")
      case True
      have sp: "spaces_ok t1 Ob R V" using p(3,4) True i(1) by simp
      have "?E t1"
        using sp i(2,4,5,6) pm p(5) True k by (intro exI [of _ V] exI [of _ ps]) simp
      then show ?thesis using p(1) True by (intro exI [of _ False] exI [of _ t1]) simp
    next
      case False
      have pn: "usable_page p" "p \<notin> V" using p(5) False by simp_all
      have sp: "spaces_ok t1 Ob R (insert p V)" using p(3,4) False i(1) tables_mono [of "ptes t" R V "insert p V"] by auto
      have kn: "length ps < n" using k i(6) by simp
      obtain res t2 V' where x: "vmm_arch_proc_map proc (base + of_nat (length ps) * PAGE_SIZE) p flags t1 = Some (res, t2)"
        "spaces_ok t2 Ob R V'" "insert p V \<subseteq> V'"
        "if res = 0 then pages_mapped s R ?r base ?w (ps @ [p]) t2 else pages_mapped s R ?r base ?w ps t2 \<and> free_stack t2 = []"
        using map_next_page [OF sp pm refl r b n(3) sz(2) kn free pn(1) f refl] by blast
      have run: "?f (of_nat k * PAGE_SIZE) t = Some (res = 0, t2)" using p(1) False x(1) i(6) by simp
      have "if res = 0 then ?I (Suc k) t2 else ?E t2"
      proof (cases "res = 0")
        case True
        have "set (ps @ [p]) \<subseteq> V' - U" "distinct (ps @ [p])" "length (ps @ [p]) = Suc k" "U \<subseteq> V'"
          using i(2,4,5,6) pn(2) x(3) by auto
        then show ?thesis using x(2,4) True k by (intro iffD2 [OF if_P] exI [of _ V'] exI [of _ "ps @ [p]"]) simp_all
      next
        case False
        have "set ps \<subseteq> V' - U" "U \<subseteq> V'" using i(2,4) x(3) by auto
        then show ?thesis using x(2,4) False i(5,6) k by (intro iffD2 [OF if_not_P] exI [of _ V'] exI [of _ ps]) simp_all
      qed
      then show ?thesis using run by (intro exI [of _ "res = 0"] exI [of _ t2]) simp
    qed
  qed
  obtain res s' where "for_pages ?f (of_nat n * PAGE_SIZE) 0 s = Some (res, s')" "if res then ?I n s' else ?E s'"
    using for_pages_total [where I = ?I and E = ?E and f = ?f, OF n(1) start step] by blast
  then show ?thesis unfolding n(2) [symmetric] n(3) by (cases res) (simp_all, blast+)
qed

text \<open>The loop of \<^verbatim>\<open>vmm_map\<close>: the given pages, in order, as far as the tables can be had.\<close>

definition phys_pages :: "u64 \<Rightarrow> nat \<Rightarrow> u64 list" where
  "phys_pages phys n = map (\<lambda>j. phys + of_nat j * PAGE_SIZE) [0 ..< n]"

lemma map_pages_ok:
  assumes ok: "spaces_ok s Ob R U" and r: "proc_cr3 proc s \<in> R"
    and b: "page_aligned base" "base \<le> base + sz - 1" "base + sz - 1 < USER_REGION_SIZE"
    and sz: "page_aligned sz" "sz \<noteq> 0"
    and free: "\<forall>v \<in> region base sz. translate (ptes s) (proc_cr3 proc s) v = None" and f: "flags AND VMM_USER \<noteq> 0"
    and p: "\<forall>p \<in> set (phys_pages phys (unat sz div 4096)). usable_page p"
  shows "\<exists>res s' V k. for_pages (\<lambda>i s. do {
              (r, s) \<leftarrow> vmm_arch_proc_map proc (base + i) (phys + i) flags s;
              Some (r = 0, s)
            }) sz 0 s = Some (res, s') \<and> spaces_ok s' Ob R V \<and> U \<subseteq> V
    \<and> pages_mapped s R (proc_cr3 proc s) base (flags AND VMM_WRITE \<noteq> 0) (phys_pages phys k) s'
    \<and> (if res then k * 4096 = unat sz else free_stack s' = [] \<and> k * 4096 < unat sz)"
proof -
  let ?r = "proc_cr3 proc s" and ?w = "flags AND VMM_WRITE \<noteq> 0"
  let ?f = "\<lambda>i s. do {
              (r, s) \<leftarrow> vmm_arch_proc_map proc (base + i) (phys + i) flags s;
              Some (r = 0, s)
            }"
  obtain n where n: "n < 2 ^ 52" "sz = of_nat n * PAGE_SIZE" "unat sz = n * 4096" using page_aligned_count [OF sz(1)] .
  let ?I = "\<lambda>k s'. k \<le> n \<and> (\<exists>V. spaces_ok s' Ob R V \<and> U \<subseteq> V \<and> pages_mapped s R ?r base ?w (phys_pages phys k) s')"
  let ?E = "\<lambda>s'. \<exists>V k. k < n \<and> spaces_ok s' Ob R V \<and> U \<subseteq> V \<and> pages_mapped s R ?r base ?w (phys_pages phys k) s' \<and> free_stack s' = []"
  have start: "?I 0 s" using ok pages_mapped_Nil [of s s] by (fastforce simp: phys_pages_def)
  have step: "\<exists>res s'. ?f (of_nat k * PAGE_SIZE) t = Some (res, s') \<and> (if res then ?I (Suc k) s' else ?E s')"
    if k: "k < n" and I: "?I k t" for k t
  proof -
    obtain V where i: "spaces_ok t Ob R V" "U \<subseteq> V" "pages_mapped s R ?r base ?w (phys_pages phys k) t" using I by blast
    have kn: "length (phys_pages phys k) < n" using k by (simp add: phys_pages_def)
    have u: "usable_page (phys + of_nat k * PAGE_SIZE)" using p k n(3) by (simp add: phys_pages_def)
    have next_k: "phys_pages phys k @ [phys + of_nat k * PAGE_SIZE] = phys_pages phys (Suc k)" by (simp add: phys_pages_def)
    obtain res t2 V' where x: "vmm_arch_proc_map proc (base + of_nat (length (phys_pages phys k)) * PAGE_SIZE) (phys + of_nat k * PAGE_SIZE) flags t = Some (res, t2)"
      "spaces_ok t2 Ob R V'" "V \<subseteq> V'"
      "if res = 0 then pages_mapped s R ?r base ?w (phys_pages phys k @ [phys + of_nat k * PAGE_SIZE]) t2
       else pages_mapped s R ?r base ?w (phys_pages phys k) t2 \<and> free_stack t2 = []"
      using map_next_page [OF i(1,3) refl r b n(3) sz(2) kn free u f refl] by blast
    have run: "?f (of_nat k * PAGE_SIZE) t = Some (res = 0, t2)" using x(1) by (simp add: phys_pages_def)
    have UV: "U \<subseteq> V'" using i(2) x(3) by blast
    have "if res = 0 then ?I (Suc k) t2 else ?E t2"
      using x(2,4) k UV unfolding next_k by (cases "res = 0") auto
    then show ?thesis using run by (intro exI [of _ "res = 0"] exI [of _ t2]) simp
  qed
  obtain res s' where l: "for_pages ?f (of_nat n * PAGE_SIZE) 0 s = Some (res, s')" "if res then ?I n s' else ?E s'"
    using for_pages_total [where I = ?I and E = ?E and f = ?f, OF n(1) start step] by blast
  show ?thesis
  proof (cases res)
    case True
    then obtain V where "spaces_ok s' Ob R V" "U \<subseteq> V" "pages_mapped s R ?r base ?w (phys_pages phys n) s'" using l(2) by auto
    then show ?thesis using l(1) True unfolding n(2) [symmetric] n(3)
      by (intro exI [of _ True] exI [of _ s'] exI [of _ V] exI [of _ n]) simp
  next
    case False
    then obtain V k where "k < n" "spaces_ok s' Ob R V" "U \<subseteq> V" "pages_mapped s R ?r base ?w (phys_pages phys k) s'" "free_stack s' = []"
      using l(2) by auto
    then show ?thesis using l(1) False unfolding n(2) [symmetric] n(3)
      by (intro exI [of _ False] exI [of _ s'] exI [of _ V] exI [of _ k]) simp
  qed
qed

section \<open>Sections under the mutex of an address space\<close>

definition uncontended :: "'a sched_state_scheme \<Rightarrow> mutex_id \<Rightarrow> bool" where
  "uncontended s m \<longleftrightarrow> locker (mutexes s m) = NULL \<and> waiters (mutexes s m) = empty_queue"

definition entered :: "mutex_id \<Rightarrow> 'a sched_state_scheme \<Rightarrow> 'a sched_state_scheme" where
  "entered m s = s\<lparr>mutexes := (mutexes s)(m := (mutexes s m)\<lparr>locker := thread_current s\<rparr>), locks := lock_used (MUTEX_SPINLOCK m) s\<rparr>"

lemma with_mutex_free:
  assumes l: "locks_ok s" and m: "uncontended s m" and b: "body (entered m s) = Some (r, s2)" "locks_ok s2"
    and mx: "mutexes s2 = mutexes (entered m s)"
  shows "with_mutex m body s = Some (Done r, s2\<lparr>mutexes := mutexes s, locks := lock_used (MUTEX_SPINLOCK m) s2\<rparr>)"
proof -
  have w: "waiters (mutexes s2 m) = empty_queue" using m mx by (simp add: entered_def uncontended_def)
  have id: "(mutexes s)(m := (mutexes s m)\<lparr>locker := NULL\<rparr>) = mutexes s"
    using m by (auto simp: uncontended_def fun_eq_iff)
  have "mutex_unlock m s2 = Some (s2\<lparr>mutexes := mutexes s, locks := lock_used (MUTEX_SPINLOCK m) s2\<rparr>)"
    unfolding mutex_unlock_alone [OF b(2) w] mx using id by (simp add: entered_def)
  then show ?thesis using mutex_lock_free [OF l, of m] m b(1)
    by (simp add: with_mutex_def entered_def [symmetric] uncontended_def)
qed

lemma vmm_ok_mutexes:
  "vmm_ok s Ob R U P \<Longrightarrow> vmm_ok (s\<lparr>mutexes := mx, locks := lock_used l s\<rparr>) Ob R U P"
  by (simp add: vmm_ok_def space_ok_def free_space_def map_nodes_def owns_def proc_cr3_def inj_on_def)

lemma vmm_ok_entered: "vmm_ok s Ob R U P \<Longrightarrow> vmm_ok (entered m s) Ob R U P"
  unfolding entered_def by (rule vmm_ok_mutexes)

lemma entered_simps [simp]:
  "ptes (entered m s) = ptes s" "free_space (entered m s) p = free_space s p" "proc_cr3 p (entered m s) = proc_cr3 p s"
  "processes (entered m s) = processes s" "mem (entered m s) = mem s" "shmem_blocks (entered m s) = shmem_blocks s"
  "s_freeTable (entered m s) = s_freeTable s" "s_allocatedPageCount (entered m s) = s_allocatedPageCount s"
  "s_freePageCount (entered m s) = s_freePageCount s" "caches (entered m s) = caches s" "threads (entered m s) = threads s"
  by (simp_all add: entered_def free_space_def proc_cr3_def)

lemma vmm_frame_entered: "vmm_frame proc s (entered m s)"
  by (simp add: vmm_frame_def entered_def)

lemma vmm_frame_left: "vmm_frame proc s s' \<Longrightarrow> vmm_frame proc s (s'\<lparr>mutexes := mx, locks := L\<rparr>)"
  by (elim vmm_frameE) (simp add: vmm_frame_def)

text \<open>Pages mapped in a region that has been taken from the free map.\<close>

lemma nat_page_range:
  assumes "b mod 4096 = (0 :: nat)" and "b div 4096 \<le> v div 4096" and "v div 4096 < b div 4096 + k" and "k * 4096 \<le> n"
  shows "b \<le> v \<and> v < b + n"
proof -
  obtain c where c: "b = 4096 * c" using assms(1) by blast
  obtain q r where v: "v = 4096 * q + r" "r < 4096" using div_mod_decomp [of v 4096] by (metis mod_less_divisor mult.commute zero_less_numeral)
  then have "v div 4096 = q" by simp
  then have "c \<le> q" "q < c + k" using assms(2,3) c by simp_all
  then show ?thesis using assms(4) c v by simp
qed

lemma region_page:
  assumes v: "page_of v \<in> {page_of base ..< page_of base + k}" and k: "k * 4096 \<le> unat sz"
    and b: "page_aligned base" "base \<le> base + sz - 1" and nz: "sz \<noteq> 0"
  shows "v \<in> region base sz"
proof -
  have s1: "unat (sz - 1) = unat sz - 1" using nz by (simp add: word_pred_unat)
  have a: "base + sz - 1 = base + (sz - 1)" by (rule add_diff_eq [symmetric])
  have top: "unat (base + sz - 1) = unat base + (unat sz - 1)" using b(2) unfolding a s1 [symmetric] by (simp only: unat_plus_simple)
  have "unat base \<le> unat v \<and> unat v < unat base + unat sz"
    using nat_page_range [of "unat base" "unat v" k "unat sz"] v k b(1) by (simp add: page_aligned_mod)
  moreover have "unat sz \<noteq> 0" using nz by (simp add: unat_eq_0)
  ultimately have "unat base \<le> unat v" "unat v \<le> unat (base + sz - 1)" unfolding top by linarith+
  then show ?thesis by (simp add: region_def word_le_nat_alt)
qed

lemma pages_mapped_vmm:
  assumes ok: "vmm_ok s Ob R U P" and p: "proc \<in> P" and m: "pages_mapped s R (proc_cr3 proc s) base w ps s'"
    and sp: "spaces_ok s' Ob R V" and b: "page_aligned base" "base \<le> base + sz - 1" "sz \<noteq> 0" and l: "length ps * 4096 \<le> unat sz"
    and taken: "region base sz \<inter> free_space s proc = {}"
  shows "vmm_ok s' Ob R V P"
    and "\<forall>r' \<in> R. \<forall>v. user_addr v \<and> \<not> (r' = proc_cr3 proc s \<and> v \<in> region base sz) \<longrightarrow> translate (ptes s') r' v = translate (ptes s) r' v"
proof -
  let ?r = "proc_cr3 proc s"
  have fr: "page_frame s s'" and old: "\<And>r' v. r' \<in> R \<Longrightarrow> user_addr v \<Longrightarrow>
      (r' = ?r \<longrightarrow> page_of v \<notin> {page_of base ..< page_of base + length ps}) \<Longrightarrow> translate (ptes s') r' v = translate (ptes s) r' v"
    using m by (simp_all add: pages_mapped_def)
  have same: "translate (ptes s') r' v = translate (ptes s) r' v"
    if "r' \<in> R" "user_addr v" "\<not> (r' = ?r \<and> v \<in> region base sz)" for r' v
    using old [OF that(1,2)] that(3) region_page [OF _ l b] by blast
  then show "\<forall>r' \<in> R. \<forall>v. user_addr v \<and> \<not> (r' = ?r \<and> v \<in> region base sz) \<longrightarrow> translate (ptes s') r' v = translate (ptes s) r' v"
    by blast
  have k: "processes s' = processes s" "proc_cr3 q s' = proc_cr3 q s" "caches s' = caches s" for q
    using page_frame_keeps [OF fr] by blast+
  have "space_ok s' R q" if q: "q \<in> P" for q
  proof -
    have so: "space_ok s R q" using vmm_ok_space [OF ok q] .
    have "translate (ptes s') (proc_cr3 q s) v = None" if v: "v \<in> free_space s q" for v
    proof -
      have "user_addr v" "proc_cr3 q s \<in> R" "translate (ptes s) (proc_cr3 q s) v = None"
        using so v by (auto simp: space_ok_def user_addr_def)
      moreover have "\<not> (proc_cr3 q s = ?r \<and> v \<in> region base sz)"
        using ok p q taken v by (auto simp: vmm_ok_def inj_on_def)
      ultimately show ?thesis using same by simp
    qed
    then show ?thesis using so by (simp add: space_ok_def free_space_def k)
  qed
  moreover have "owns snd (p_free_map (processes s' q)) (s', Ob ENTRY_CACHE)" if "q \<in> P" for q
    using ok that by (simp add: vmm_ok_def owns_def k)
  ultimately show "vmm_ok s' Ob R V P" using ok sp by (simp add: vmm_ok_def map_nodes_def k)
qed

text \<open>What an operation that takes a region and maps it promises.\<close>

definition region_result ::
  "'a vmm_state_scheme \<Rightarrow> 'a vmm_state_scheme \<Rightarrow> ptr set \<Rightarrow> ptr \<Rightarrow> u64 \<Rightarrow> u64 \<Rightarrow> bool \<Rightarrow> ptr list \<Rightarrow> bool" where
  "region_result s s' R proc base sz w ps \<longleftrightarrow>
     region base sz \<subseteq> free_space s proc \<and> free_space s' proc = free_space s proc - region base sz
   \<and> length ps * 4096 = unat sz
   \<and> (\<forall>j < length ps. translate (ptes s') (proc_cr3 proc s) (base + of_nat j * PAGE_SIZE) = Some (ps ! j, w))"

text \<open>
  What it leaves behind when the pages for its tables run out: the region stays taken, and the pages that were
  mapped before the failure stay mapped.
\<close>

definition region_failed ::
  "'a vmm_state_scheme \<Rightarrow> 'a vmm_state_scheme \<Rightarrow> ptr \<Rightarrow> u64 \<Rightarrow> u64 \<Rightarrow> bool \<Rightarrow> ptr list \<Rightarrow> bool" where
  "region_failed s s' proc base sz w ps \<longleftrightarrow> free_stack s' = [] \<and> base \<noteq> 0
   \<and> region base sz \<subseteq> free_space s proc \<and> free_space s' proc = free_space s proc - region base sz
   \<and> (\<exists>k < length ps. \<forall>j < length ps. translate (ptes s') (proc_cr3 proc s) (base + of_nat j * PAGE_SIZE) = (if j < k then Some (ps ! j, w) else None))"

text \<open>What it leaves alone when there is no region to take.\<close>

definition no_region :: "'a vmm_state_scheme \<Rightarrow> 'a vmm_state_scheme \<Rightarrow> ptr set \<Rightarrow> ptr \<Rightarrow> u64 \<Rightarrow> bool" where
  "no_region s s' R proc sz \<longleftrightarrow> free_space s' proc = free_space s proc \<and> (\<forall>r' \<in> R. \<forall>v. user_addr v \<longrightarrow> translate (ptes s') r' v = translate (ptes s) r' v)
   \<and> (\<forall>n \<in> set (p_free_map (processes s proc)). me_size (snd n) < sz)"

definition others_kept :: "'a vmm_state_scheme \<Rightarrow> 'a vmm_state_scheme \<Rightarrow> ptr set \<Rightarrow> ptr \<Rightarrow> u64 \<Rightarrow> u64 \<Rightarrow> bool" where
  "others_kept s s' R proc base sz \<longleftrightarrow> vmm_frame proc s s' \<and> mutexes s' = mutexes s \<and> mem s' = mem s
   \<and> (\<forall>r' \<in> R. \<forall>v. user_addr v \<and> \<not> (base \<noteq> 0 \<and> r' = proc_cr3 proc s \<and> v \<in> region base sz) \<longrightarrow>
        translate (ptes s') r' v = translate (ptes s) r' v)"

text \<open>The bodies of the two operations after the region has been taken.\<close>

lemma alloc_region_pages:
  assumes ok: "vmm_ok s Ob R U P" and p: "proc \<in> P" and f: "flags AND VMM_USER \<noteq> 0"
    and b: "page_aligned base" "base \<le> base + sz - 1" "page_aligned sz" "sz \<noteq> 0" "base \<noteq> 0"
    and reg: "region base sz \<subseteq> {PAGE_SIZE ..< USER_REGION_SIZE}" "region base sz \<inter> free_space s proc = {}"
      "\<forall>v \<in> region base sz. translate (ptes s) (proc_cr3 proc s) v = None"
  shows "\<exists>res s' V ps. for_pages (\<lambda>i s. do {
              (p, s) \<leftarrow> pmm_alloc s;
              if p = 0 then Some (False, s)
              else do {
                (r, s) \<leftarrow> vmm_arch_proc_map proc (base + i) p flags s;
                Some (r = 0, s)
              }
            }) sz 0 s = Some (res, s') \<and> vmm_ok s' Ob R V P \<and> page_frame s s' \<and> U \<subseteq> V
    \<and> (if res then length ps * 4096 = unat sz \<and> distinct ps \<and> set ps \<subseteq> V - U
         \<and> (\<forall>j < length ps. translate (ptes s') (proc_cr3 proc s) (base + of_nat j * PAGE_SIZE) = Some (ps ! j, flags AND VMM_WRITE \<noteq> 0))
       else free_stack s' = [])
    \<and> (\<forall>r' \<in> R. \<forall>v. user_addr v \<and> \<not> (r' = proc_cr3 proc s \<and> v \<in> region base sz) \<longrightarrow> translate (ptes s') r' v = translate (ptes s) r' v)"
proof -
  have sp: "spaces_ok s Ob R U" and r: "proc_cr3 proc s \<in> R" using ok p by (auto simp: vmm_ok_def space_ok_def)
  have "base + sz - 1 \<in> region base sz" using b(2) by (simp add: region_def)
  then have lim: "base + sz - 1 < USER_REGION_SIZE" using reg(1) by auto
  obtain res s' V ps where x: "for_pages (\<lambda>i s. do {
              (p, s) \<leftarrow> pmm_alloc s;
              if p = 0 then Some (False, s)
              else do {
                (r, s) \<leftarrow> vmm_arch_proc_map proc (base + i) p flags s;
                Some (r = 0, s)
              }
            }) sz 0 s = Some (res, s')" "spaces_ok s' Ob R V" "U \<subseteq> V"
    "pages_mapped s R (proc_cr3 proc s) base (flags AND VMM_WRITE \<noteq> 0) ps s'" "set ps \<subseteq> V - U" "distinct ps"
    "if res then length ps * 4096 = unat sz else free_stack s' = []" "length ps * 4096 \<le> unat sz"
    using alloc_pages_ok [OF sp r b(1,2) lim b(3,4) reg(3) f] by blast
  note pm = pages_mapped_vmm [OF ok p x(4,2) b(1,2,4) x(8) reg(2)]
  have "page_frame s s'" "\<forall>j < length ps. translate (ptes s') (proc_cr3 proc s) (base + of_nat j * PAGE_SIZE) = Some (ps ! j, flags AND VMM_WRITE \<noteq> 0)"
    using x(4) by (simp_all add: pages_mapped_def)
  then show ?thesis using x(1,3,5-7) pm by (intro exI [of _ res] exI [of _ s'] exI [of _ V] exI [of _ ps]) (cases res; simp)
qed

text \<open>
  Leaving the section: what holds of the body's final state holds of the state after \<^verbatim>\<open>mutex_unlock\<close>.
\<close>

definition left :: "mutex_id \<Rightarrow> 'a sched_state_scheme \<Rightarrow> 'a sched_state_scheme \<Rightarrow> 'a sched_state_scheme" where
  "left m s s2 = s2\<lparr>mutexes := mutexes s, locks := lock_used (MUTEX_SPINLOCK m) s2\<rparr>"

lemma left_simps [simp]:
  "ptes (left m s x) = ptes x" "free_space (left m s x) p = free_space x p" "proc_cr3 p (left m s x) = proc_cr3 p x"
  "mutexes (left m s y) = mutexes s" "mem (left m s x) = mem x" "processes (left m s y) = processes y"
  "s_freeTable (left m s y) = s_freeTable y" "s_allocatedPageCount (left m s y) = s_allocatedPageCount y"
  "s_freePageCount (left m s y) = s_freePageCount y" "threads (left m s y) = threads y" "caches (left m s y) = caches y"
  by (simp_all add: left_def free_space_def proc_cr3_def)

lemma vmm_ok_left: "vmm_ok x Ob R U P \<Longrightarrow> vmm_ok (left m s x) Ob R U P"
  unfolding left_def by (rule vmm_ok_mutexes)

lemma vmm_frame_section: "vmm_frame proc (entered m s) x \<Longrightarrow> vmm_frame proc s (left m s x)"
  unfolding left_def by (rule vmm_frame_left) (rule vmm_frame_trans [OF vmm_frame_entered])

lemma vmm_section:
  assumes ok: "vmm_ok s Ob R U P" and u: "uncontended s m"
    and body: "body (entered m s) = Some (r, x)" and x: "vmm_ok x Ob' R V P" "mutexes x = mutexes (entered m s)"
  shows "with_mutex m body s = Some (Done r, left m s x)" and "vmm_ok (left m s x) Ob' R V P"
proof -
  have "locks_ok s" "locks_ok x" using ok x by (auto simp: vmm_ok_def)
  then show "with_mutex m body s = Some (Done r, left m s x)"
    unfolding left_def using with_mutex_free [of s m body r x] u body x(2) by blast
  show "vmm_ok (left m s x) Ob' R V P" using vmm_ok_left [OF x(1)] .
qed

text \<open>The part the operations share: a region that was free a moment ago is filled with fresh pages.\<close>

lemma alloc_taken:
  assumes ok: "vmm_ok s Ob R U P" and p: "proc \<in> P" and f: "flags AND VMM_USER \<noteq> 0"
    and b: "page_aligned base" "base \<le> base + sz - 1" "page_aligned sz" "sz \<noteq> 0"
    and ok1: "vmm_ok s1 Ob1 R U P" and fr1: "vmm_frame proc s s1" "ptes s1 = ptes s" "mutexes s1 = mutexes s" "mem s1 = mem s"
    and reg: "region base sz \<subseteq> free_space s proc" "free_space s1 proc = free_space s proc - region base sz"
  shows "\<exists>res s2 V ps. for_pages (\<lambda>i s. do {
              (p, s) \<leftarrow> pmm_alloc s;
              if p = 0 then Some (False, s)
              else do {
                (r, s) \<leftarrow> vmm_arch_proc_map proc (base + i) p flags s;
                Some (r = 0, s)
              }
            }) sz 0 s1 = Some (res, s2) \<and> vmm_ok s2 Ob1 R V P \<and> U \<subseteq> V \<and> others_kept s s2 R proc base sz
    \<and> (if res then region_result s s2 R proc base sz (flags AND VMM_WRITE \<noteq> 0) ps \<and> distinct ps \<and> set ps \<subseteq> V - U
       else free_stack s2 = [])"
proof -
  have so: "space_ok s R proc" using vmm_ok_space [OF ok p] .
  have c: "proc_cr3 proc s1 = proc_cr3 proc s" using vmm_frame_keeps(1) [OF fr1(1)] .
  have in_user: "region base sz \<subseteq> {PAGE_SIZE ..< USER_REGION_SIZE}" using so reg(1) by (auto simp: space_ok_def)
  moreover have "base \<in> region base sz" using b(2) by (simp add: region_def)
  ultimately have nz: "base \<noteq> 0" by auto
  have un: "\<forall>v \<in> region base sz. translate (ptes s1) (proc_cr3 proc s1) v = None"
    using so reg(1) by (auto simp: space_ok_def fr1(2) c)
  have dis: "region base sz \<inter> free_space s1 proc = {}" using reg(2) by blast
  obtain res s2 V ps where x: "for_pages (\<lambda>i s. do {
              (p, s) \<leftarrow> pmm_alloc s;
              if p = 0 then Some (False, s)
              else do {
                (r, s) \<leftarrow> vmm_arch_proc_map proc (base + i) p flags s;
                Some (r = 0, s)
              }
            }) sz 0 s1 = Some (res, s2)" "vmm_ok s2 Ob1 R V P" "page_frame s1 s2" "U \<subseteq> V"
    "if res then length ps * 4096 = unat sz \<and> distinct ps \<and> set ps \<subseteq> V - U
         \<and> (\<forall>j < length ps. translate (ptes s2) (proc_cr3 proc s1) (base + of_nat j * PAGE_SIZE) = Some (ps ! j, flags AND VMM_WRITE \<noteq> 0))
       else free_stack s2 = []"
    "\<forall>r' \<in> R. \<forall>v. user_addr v \<and> \<not> (r' = proc_cr3 proc s1 \<and> v \<in> region base sz) \<longrightarrow> translate (ptes s2) r' v = translate (ptes s1) r' v"
    using alloc_region_pages [OF ok1 p f b nz in_user dis un] by blast
  have k: "mutexes s2 = mutexes s1" "processes s2 = processes s1" "mem s2 = mem s1" using x(3) by (auto elim!: page_frameE)
  have "others_kept s s2 R proc base sz"
    using vmm_frame_trans [OF fr1(1) page_frame_vmm [OF x(3)]] k fr1 x(6) nz by (simp add: others_kept_def c)
  moreover have "free_space s2 proc = free_space s proc - region base sz" using reg(2) by (simp add: free_space_def k)
  ultimately show ?thesis using x(1,2,4,5) reg(1)
    by (intro exI [of _ res] exI [of _ s2] exI [of _ V] exI [of _ ps]) (cases res; simp add: region_result_def c)
qed

lemma others_kept_left: "others_kept (entered m s) x R proc base sz \<Longrightarrow> others_kept s (left m s x) R proc base sz"
  using vmm_frame_section [of proc m s x] by (simp add: others_kept_def)

lemma region_result_left: "region_result (entered m s) x R proc base sz w ps \<Longrightarrow> region_result s (left m s x) R proc base sz w ps"
  by (simp add: region_result_def)

text \<open>\<^verbatim>\<open>vmm_alloc\<close>, with the address chosen by the kernel and with a fixed one.\<close>

lemma vmm_alloc_ok:
  assumes ok: "vmm_ok s Ob R U P" and p: "proc \<in> P" and u: "uncontended s (VMM_MUTEX proc)" and f: "flags AND VMM_USER \<noteq> 0"
    and sz: "page_aligned sz" "sz \<noteq> 0"
    and first: "flags AND VMM_FIXED = 0 \<Longrightarrow> p_free_map (processes s proc) \<noteq> [] \<Longrightarrow> me_size (snd (hd (p_free_map (processes s proc)))) \<noteq> sz"
    and fixed: "flags AND VMM_FIXED \<noteq> 0 \<Longrightarrow> page_aligned base \<and> base \<le> base + sz - 1"
  shows "\<exists>res base' s' L V ps. vmm_alloc proc base sz flags s = Some (Done (res, base'), s')
    \<and> vmm_ok s' (Ob(ENTRY_CACHE := L)) R V P \<and> U \<subseteq> V \<and> others_kept s s' R proc base' sz
    \<and> (flags AND VMM_FIXED \<noteq> 0 \<longrightarrow> base' = base)
    \<and> (if res = 0 then region_result s s' R proc base' sz (flags AND VMM_WRITE \<noteq> 0) ps \<and> distinct ps \<and> set ps \<subseteq> V - U
       else res = -1 \<and> (free_stack s' = []
          \<or> free_space s' proc = free_space s proc \<and> (\<forall>r' \<in> R. \<forall>v. user_addr v \<longrightarrow> translate (ptes s') r' v = translate (ptes s) r' v)
            \<and> (flags AND VMM_FIXED = 0 \<longrightarrow> (\<forall>n \<in> set (p_free_map (processes s proc)). me_size (snd n) < sz))))"
proof -
  let ?m = "VMM_MUTEX proc" and ?w = "flags AND VMM_WRITE \<noteq> 0"
  let ?e = "entered ?m s"
  note oke = vmm_ok_entered [OF ok, of ?m]
  have nn: "proc \<noteq> NULL" using vmm_ok_space [OF ok p] by (simp add: space_ok_def)
  let ?loop = "\<lambda>base. for_pages (\<lambda>i s. do {
              (p, s) \<leftarrow> pmm_alloc s;
              if p = 0 then Some (False, s)
              else do {
                (r, s) \<leftarrow> vmm_arch_proc_map proc (base + i) p flags s;
                Some (r = 0, s)
              }
            }) sz 0"
  let ?take = "\<lambda>s. if flags AND VMM_FIXED \<noteq> 0 then
             if \<not> page_aligned base then None
             else do {
               (r, s) \<leftarrow> region_alloc_at proc base sz s;
               Some (r, base, s)
             }
           else do {
             (base, s) \<leftarrow> region_alloc proc sz s;
             Some (if base = 0 then -1 else 0, base, s)
           }"
  let ?body = "\<lambda>s. do {
        (r, base, s) \<leftarrow> ?take s;
        if r \<noteq> 0 then Some ((-1, base), s)
        else do {
          (ok, s) \<leftarrow> ?loop base s;
          Some ((if ok then 0 else -1, base), s)
        }
      }"
  have def: "vmm_alloc proc base sz flags s = with_mutex ?m ?body s" using sz(1) nn by (simp add: vmm_alloc_def)
  have take: "\<exists>r base' s1 L. ?take ?e = Some (r, base', s1) \<and> vmm_ok s1 (Ob(ENTRY_CACHE := L)) R U P \<and> vmm_frame proc ?e s1
      \<and> ptes s1 = ptes s \<and> mutexes s1 = mutexes ?e \<and> mem s1 = mem s \<and> (flags AND VMM_FIXED \<noteq> 0 \<longrightarrow> base' = base)
      \<and> (if r = 0 then page_aligned base' \<and> base' \<le> base' + sz - 1 \<and> region base' sz \<subseteq> free_space s proc
           \<and> free_space s1 proc = free_space s proc - region base' sz
         else free_space s1 proc = free_space s proc
           \<and> (flags AND VMM_FIXED = 0 \<longrightarrow> (\<forall>n \<in> set (p_free_map (processes s proc)). me_size (snd n) < sz)))"
  proof (cases "flags AND VMM_FIXED = 0")
    case True
    have fi: "p_free_map (processes ?e proc) \<noteq> [] \<Longrightarrow> me_size (snd (hd (p_free_map (processes ?e proc)))) \<noteq> sz"
      using first [OF True] by simp
    obtain base' s1 L where x: "region_alloc proc sz ?e = Some (base', s1)" "vmm_ok s1 (Ob(ENTRY_CACHE := L)) R U P" "vmm_frame proc ?e s1"
      "ptes s1 = ptes ?e" "mutexes s1 = mutexes ?e" "mem s1 = mem ?e"
      "if base' = 0 then free_space s1 proc = free_space ?e proc \<and> (\<forall>n \<in> set (p_free_map (processes ?e proc)). me_size (snd n) < sz)
       else page_aligned base' \<and> base' \<le> base' + sz - 1 \<and> region base' sz \<subseteq> free_space ?e proc
         \<and> free_space s1 proc = free_space ?e proc - region base' sz"
      using region_alloc_ok [OF oke p sz fi] by blast
    then show ?thesis using True
      by (intro exI [of _ "if base' = 0 then -1 else 0"] exI [of _ base'] exI [of _ s1] exI [of _ L]) (cases "base' = 0"; simp)
  next
    case False
    then have b: "page_aligned base" "base \<le> base + sz - 1" using fixed by blast+
    obtain r s1 L where "region_alloc_at proc base sz ?e = Some (r, s1)" "vmm_ok s1 (Ob(ENTRY_CACHE := L)) R U P" "vmm_frame proc ?e s1"
      "ptes s1 = ptes ?e" "mutexes s1 = mutexes ?e" "mem s1 = mem ?e"
      "if r = 0 then region base sz \<subseteq> free_space ?e proc \<and> free_space s1 proc = free_space ?e proc - region base sz
       else r = -1 \<and> free_space s1 proc = free_space ?e proc"
      using region_alloc_at_ok [OF oke p b(1) sz b(2)] by blast
    then show ?thesis using False b
      by (intro exI [of _ r] exI [of _ base] exI [of _ s1] exI [of _ L]) (cases "r = 0"; simp)
  qed
  then obtain r base' s1 L where t: "?take ?e = Some (r, base', s1)" "vmm_ok s1 (Ob(ENTRY_CACHE := L)) R U P" "vmm_frame proc ?e s1"
      "ptes s1 = ptes s" "mutexes s1 = mutexes ?e" "mem s1 = mem s" "flags AND VMM_FIXED \<noteq> 0 \<longrightarrow> base' = base"
    and tr: "if r = 0 then page_aligned base' \<and> base' \<le> base' + sz - 1 \<and> region base' sz \<subseteq> free_space s proc
           \<and> free_space s1 proc = free_space s proc - region base' sz
         else free_space s1 proc = free_space s proc
           \<and> (flags AND VMM_FIXED = 0 \<longrightarrow> (\<forall>n \<in> set (p_free_map (processes s proc)). me_size (snd n) < sz))"
    by blast
  show ?thesis
  proof (cases "r = 0")
    case False
    then have run: "?body ?e = Some ((-1, base'), s1)" unfolding t(1) by simp
    note sec = vmm_section [where body = ?body, OF ok u run t(2) t(5)]
    have k: "others_kept ?e s1 R proc base' sz" using t(3-6) by (simp add: others_kept_def)
    show ?thesis using sec def others_kept_left [OF k] t(4,7) tr False
      by (intro exI [of _ "-1"] exI [of _ base'] exI [of _ "left ?m s s1"] exI [of _ L] exI [of _ U]) simp
  next
    case True
    then have b: "page_aligned base'" "base' \<le> base' + sz - 1" and reg: "region base' sz \<subseteq> free_space ?e proc"
        "free_space s1 proc = free_space ?e proc - region base' sz"
      using tr by simp_all
    have pe: "ptes s1 = ptes ?e" and me: "mem s1 = mem ?e" using t(4,6) by simp_all
    obtain res s2 V ps where x: "?loop base' s1 = Some (res, s2)" "vmm_ok s2 (Ob(ENTRY_CACHE := L)) R V P" "U \<subseteq> V"
      "others_kept ?e s2 R proc base' sz"
      "if res then region_result ?e s2 R proc base' sz ?w ps \<and> distinct ps \<and> set ps \<subseteq> V - U else free_stack s2 = []"
      using alloc_taken [OF oke p f b sz t(2,3) pe t(5) me reg] by blast
    have run: "?body ?e = Some ((if res then 0 else -1, base'), s2)" unfolding t(1) using x(1) True by simp
    have mx: "mutexes s2 = mutexes ?e" using x(4) by (simp add: others_kept_def)
    note sec = vmm_section [where body = ?body, OF ok u run x(2) mx]
    have fin: "if res then region_result s (left ?m s s2) R proc base' sz ?w ps \<and> distinct ps \<and> set ps \<subseteq> V - U
        else free_stack (left ?m s s2) = []"
      using x(5) region_result_left [of ?m s s2 R proc base' sz ?w ps] by (cases res) simp_all
    show ?thesis using sec def others_kept_left [OF x(4)] t(7) x(3) fin
      by (intro exI [of _ "if res then 0 else -1"] exI [of _ base'] exI [of _ "left ?m s s2"] exI [of _ L] exI [of _ V] exI [of _ ps])
        (cases res; simp)
  qed
qed

text \<open>\<^verbatim>\<open>vmm_map\<close>: the pages of a physical region.\<close>

text \<open>
  The operations that map pages which exist already share their section too: a region is taken from the free map
  and a loop maps the pages \<open>ps\<close> in it, in order.
\<close>

lemma map_region_ok:
  assumes ok: "vmm_ok s Ob R U P" and p: "proc \<in> P" and u: "uncontended s (VMM_MUTEX proc)"
    and sz: "page_aligned sz" "sz \<noteq> 0" and len: "length ps * 4096 = unat sz"
    and first: "p_free_map (processes s proc) \<noteq> [] \<Longrightarrow> me_size (snd (hd (p_free_map (processes s proc)))) \<noteq> sz"
    and loop: "\<And>base s1 Ob1. spaces_ok s1 Ob1 R U \<Longrightarrow> proc_cr3 proc s1 \<in> R \<Longrightarrow> shmem_blocks s1 = shmem_blocks s \<Longrightarrow>
      page_aligned base \<Longrightarrow> base \<le> base + sz - 1 \<Longrightarrow> base + sz - 1 < USER_REGION_SIZE \<Longrightarrow>
      \<forall>v \<in> region base sz. translate (ptes s1) (proc_cr3 proc s1) v = None \<Longrightarrow>
      \<exists>res s2 V k. loop base s1 = Some (res, s2) \<and> spaces_ok s2 Ob1 R V \<and> U \<subseteq> V \<and> k \<le> length ps
        \<and> pages_mapped s1 R (proc_cr3 proc s1) base w (take k ps) s2
        \<and> (if res then k = length ps else free_stack s2 = [] \<and> k < length ps)"
  shows "\<exists>res base s' L V. with_mutex (VMM_MUTEX proc) (\<lambda>s. do {
        (base, s) \<leftarrow> region_alloc proc sz s;
        if base = 0 then Some ((-1, base), s)
        else do {
          (ok, s) \<leftarrow> loop base s;
          Some ((if ok then 0 else -1, base), s)
        }
      }) s = Some (Done (res, base), s')
    \<and> vmm_ok s' (Ob(ENTRY_CACHE := L)) R V P \<and> U \<subseteq> V \<and> others_kept s s' R proc base sz
    \<and> (if res = (0 :: int) then region_result s s' R proc base sz w ps
       else res = -1 \<and> (region_failed s s' proc base sz w ps \<or> no_region s s' R proc sz))"
proof -
  let ?m = "VMM_MUTEX proc" and ?e = "entered (VMM_MUTEX proc) s"
  note oke = vmm_ok_entered [OF ok, of ?m]
  have so: "space_ok s R proc" using vmm_ok_space [OF ok p] .
  let ?body = "\<lambda>s. do {
        (base, s) \<leftarrow> region_alloc proc sz s;
        if base = 0 then Some ((-1, base), s)
        else do {
          (ok, s) \<leftarrow> loop base s;
          Some ((if ok then 0 else -1 :: int, base), s)
        }
      }"
  have fi: "p_free_map (processes ?e proc) \<noteq> [] \<Longrightarrow> me_size (snd (hd (p_free_map (processes ?e proc)))) \<noteq> sz"
    using first by simp
  obtain base s1 L where t: "region_alloc proc sz ?e = Some (base, s1)" "vmm_ok s1 (Ob(ENTRY_CACHE := L)) R U P" "vmm_frame proc ?e s1"
    "ptes s1 = ptes ?e" "mutexes s1 = mutexes ?e" "mem s1 = mem ?e"
    "if base = 0 then free_space s1 proc = free_space ?e proc \<and> (\<forall>n \<in> set (p_free_map (processes ?e proc)). me_size (snd n) < sz)
     else page_aligned base \<and> base \<le> base + sz - 1 \<and> region base sz \<subseteq> free_space ?e proc
       \<and> free_space s1 proc = free_space ?e proc - region base sz"
    using region_alloc_ok [OF oke p sz fi] by blast
  show ?thesis
  proof (cases "base = 0")
    case True
    then have run: "?body ?e = Some ((-1, base), s1)" using t(1) by simp
    note sec = vmm_section [where body = ?body, OF ok u run t(2) t(5)]
    have k: "others_kept ?e s1 R proc base sz" using t(3-6) by (simp add: others_kept_def)
    have "no_region s (left ?m s s1) R proc sz" using t(4,7) True by (simp add: no_region_def)
    then show ?thesis using sec others_kept_left [OF k]
      by (intro exI [of _ "-1"] exI [of _ base] exI [of _ "left ?m s s1"] exI [of _ L] exI [of _ U]) simp
  next
    case nz: False
    then have b: "page_aligned base" "base \<le> base + sz - 1" and reg: "region base sz \<subseteq> free_space s proc"
        "free_space s1 proc = free_space s proc - region base sz"
      using t(7) by simp_all
    have c: "proc_cr3 proc s1 = proc_cr3 proc s" "shmem_blocks s1 = shmem_blocks s"
      using vmm_frame_keeps(1,8) [OF t(3)] by simp_all
    have so1: "space_ok s1 R proc" using vmm_ok_space [OF t(2) p] .
    have "base + sz - 1 \<in> region base sz" using b(2) by (simp add: region_def)
    then have lim: "base + sz - 1 < USER_REGION_SIZE" using reg(1) so by (auto simp: space_ok_def)
    have sp1: "spaces_ok s1 (Ob(ENTRY_CACHE := L)) R U" and r1: "proc_cr3 proc s1 \<in> R"
      using t(2) so1 by (simp_all add: vmm_ok_def space_ok_def)
    have un: "\<forall>v \<in> region base sz. translate (ptes s1) (proc_cr3 proc s1) v = None"
      using so reg(1) t(4) by (auto simp: space_ok_def c)
    have dis: "region base sz \<inter> free_space s1 proc = {}" using reg(2) by blast
    obtain res s2 V k where x: "loop base s1 = Some (res, s2)" "spaces_ok s2 (Ob(ENTRY_CACHE := L)) R V" "U \<subseteq> V" "k \<le> length ps"
      "pages_mapped s1 R (proc_cr3 proc s1) base w (take k ps) s2" "if res then k = length ps else free_stack s2 = [] \<and> k < length ps"
      using loop [OF sp1 r1 c(2) b lim un] by blast
    have l: "length (take k ps) * 4096 \<le> unat sz" using x(4) len by simp
    note pm = pages_mapped_vmm [OF t(2) p x(5,2) b sz(2) l dis]
    have fr: "page_frame s1 s2" and tr: "\<forall>j < length (take k ps). translate (ptes s2) (proc_cr3 proc s1) (base + of_nat j * PAGE_SIZE)
        = Some (take k ps ! j, w)"
      using x(5) by (simp_all add: pages_mapped_def)
    have same: "mutexes s2 = mutexes s1" "processes s2 = processes s1" "mem s2 = mem s1" using fr by (auto elim!: page_frameE)
    have run: "?body ?e = Some ((if res then 0 else -1, base), s2)" using t(1) x(1) nz by simp
    have mx: "mutexes s2 = mutexes ?e" using same t(5) by simp
    note sec = vmm_section [where body = ?body, OF ok u run pm(1) mx]
    have ke: "others_kept ?e s2 R proc base sz"
      using vmm_frame_trans [OF t(3) page_frame_vmm [OF fr]] same t(4-6) pm(2) nz by (simp add: others_kept_def c)
    have fs: "free_space s2 proc = free_space s proc - region base sz" using reg(2) by (simp add: free_space_def same)
    have un2: "translate (ptes s2) (proc_cr3 proc s) (base + of_nat j * PAGE_SIZE) = None" if j: "k \<le> j" "j < length ps" for j
    proof -
      note rp = region_pages [OF b lim len [symmetric] sz(2) j(2)]
      have "page_of (base + of_nat j * PAGE_SIZE) \<notin> {page_of base ..< page_of base + length (take k ps)}" using rp(4) j(1) by simp
      then have "translate (ptes s2) (proc_cr3 proc s1) (base + of_nat j * PAGE_SIZE) = translate (ptes s1) (proc_cr3 proc s1) (base + of_nat j * PAGE_SIZE)"
        using x(5) r1 rp(2) unfolding pages_mapped_def by blast
      then show ?thesis using un rp(3) by (simp add: c)
    qed
    have "if res then region_result s (left ?m s s2) R proc base sz w ps else region_failed s (left ?m s s2) proc base sz w ps"
    proof (cases res)
      case True
      then show ?thesis using x(6) tr reg(1) fs len by (simp add: region_result_def c)
    next
      case False
      then have "free_stack s2 = []" "k < length ps" using x(6) by simp_all
      then show ?thesis using False tr reg(1) fs un2 nz by (simp add: region_failed_def c not_less) (intro exI [of _ k], simp add: not_less)
    qed
    then show ?thesis using sec others_kept_left [OF ke] x(3)
      by (intro exI [of _ "if res then 0 else -1"] exI [of _ base] exI [of _ "left ?m s s2"] exI [of _ L] exI [of _ V])
        (cases res; simp)
  qed
qed

lemma vmm_map_ok:
  assumes ok: "vmm_ok s Ob R U P" and p: "proc \<in> P" and u: "uncontended s (VMM_MUTEX proc)" and f: "flags AND VMM_USER \<noteq> 0"
    and sz: "page_aligned sz" "sz \<noteq> 0" and ph: "page_aligned phys" "\<forall>p \<in> set (phys_pages phys (unat sz div 4096)). usable_page p"
    and first: "p_free_map (processes s proc) \<noteq> [] \<Longrightarrow> me_size (snd (hd (p_free_map (processes s proc)))) \<noteq> sz"
  shows "\<exists>res base' s' L V. vmm_map proc base phys sz flags s = Some (Done (res, base'), s')
    \<and> vmm_ok s' (Ob(ENTRY_CACHE := L)) R V P \<and> U \<subseteq> V \<and> others_kept s s' R proc base' sz
    \<and> (if res = 0 then region_result s s' R proc base' sz (flags AND VMM_WRITE \<noteq> 0) (phys_pages phys (unat sz div 4096))
       else res = -1 \<and> (region_failed s s' proc base' sz (flags AND VMM_WRITE \<noteq> 0) (phys_pages phys (unat sz div 4096)) \<or> no_region s s' R proc sz))"
proof -
  let ?n = "unat sz div 4096"
  obtain m where "unat sz = m * 4096" using page_aligned_count [OF sz(1)] .
  then have n: "?n * 4096 = unat sz" by simp
  have nn: "proc \<noteq> NULL" using vmm_ok_space [OF ok p] by (simp add: space_ok_def)
  have prefix: "phys_pages phys k = take k (phys_pages phys ?n)" if "k * 4096 \<le> unat sz" for k
    using that by (simp add: phys_pages_def take_map take_upt)
  have loop: "\<exists>res s2 V k. for_pages (\<lambda>i s. do {
        (r, s) \<leftarrow> vmm_arch_proc_map proc (base + i) (phys + i) flags s;
        Some (r = 0, s)
      }) sz 0 s1 = Some (res, s2) \<and> spaces_ok s2 Ob1 R V \<and> U \<subseteq> V \<and> k \<le> length (phys_pages phys ?n)
      \<and> pages_mapped s1 R (proc_cr3 proc s1) base (flags AND VMM_WRITE \<noteq> 0) (take k (phys_pages phys ?n)) s2
      \<and> (if res then k = length (phys_pages phys ?n) else free_stack s2 = [] \<and> k < length (phys_pages phys ?n))"
    if a: "spaces_ok s1 Ob1 R U" "proc_cr3 proc s1 \<in> R" "page_aligned base" "base \<le> base + sz - 1" "base + sz - 1 < USER_REGION_SIZE"
      "\<forall>v \<in> region base sz. translate (ptes s1) (proc_cr3 proc s1) v = None" for base Ob1 and s1 :: "'a vmm_state_scheme"
  proof -
    obtain res s2 V k where x: "for_pages (\<lambda>i s. do {
        (r, s) \<leftarrow> vmm_arch_proc_map proc (base + i) (phys + i) flags s;
        Some (r = 0, s)
      }) sz 0 s1 = Some (res, s2)" "spaces_ok s2 Ob1 R V" "U \<subseteq> V"
      "pages_mapped s1 R (proc_cr3 proc s1) base (flags AND VMM_WRITE \<noteq> 0) (phys_pages phys k) s2"
      "if res then k * 4096 = unat sz else free_stack s2 = [] \<and> k * 4096 < unat sz"
      using map_pages_ok [OF a(1-5) sz a(6) f ph(2)] by blast
    have le: "k * 4096 \<le> unat sz" using x(5) by (auto split: if_splits)
    have "k \<le> ?n" "res \<Longrightarrow> k = ?n" "\<not> res \<Longrightarrow> k < ?n" using x(5) n by (auto split: if_splits)
    then show ?thesis using x(1-5) prefix [OF le]
      by (intro exI [of _ res] exI [of _ s2] exI [of _ V] exI [of _ k]) (cases res; simp add: phys_pages_def)
  qed
  have l: "length (phys_pages phys ?n) * 4096 = unat sz" using n by (simp add: phys_pages_def)
  have def: "vmm_map proc base phys sz flags s = with_mutex (VMM_MUTEX proc) (\<lambda>s. do {
        (base, s) \<leftarrow> region_alloc proc sz s;
        if base = 0 then Some ((-1, base), s)
        else do {
          (ok, s) \<leftarrow> for_pages (\<lambda>i s. do {
              (r, s) \<leftarrow> vmm_arch_proc_map proc (base + i) (phys + i) flags s;
              Some (r = 0, s)
            }) sz 0 s;
          Some ((if ok then 0 else -1, base), s)
        }
      }) s"
    using sz(1) ph(1) nn by (simp add: vmm_map_def)
  show ?thesis unfolding def using loop by (intro map_region_ok [OF ok p u sz l first]) blast+
qed

section \<open>Shared memory\<close>

text \<open>The pages of a list of blocks.\<close>

definition block_pages :: "'a vmm_state_scheme \<Rightarrow> ptr \<Rightarrow> ptr list" where
  "block_pages s b = map (sb_pages (shmem_blocks s b)) [0 ..< sb_used (shmem_blocks s b)]"

definition blocks_hold :: "'a vmm_state_scheme \<Rightarrow> ptr \<Rightarrow> ptr list \<Rightarrow> bool" where
  "blocks_hold s head ps \<longleftrightarrow> (\<exists>bs. linked (\<lambda>b. sb_next (shmem_blocks s b)) head bs \<and> ps = concat (map (block_pages s) bs))"

text \<open>A loop that has mapped the pages \<open>qs\<close> of a region goes on with the pages \<open>ps\<close>.\<close>

lemma map_block_pages_ok:
  assumes r: "r = proc_cr3 proc s0" "r \<in> R"
    and b: "page_aligned base" "base \<le> base + sz - 1" "base + sz - 1 < USER_REGION_SIZE"
    and n: "unat sz = n * 4096" "sz \<noteq> 0" and free: "\<forall>v \<in> region base sz. translate (ptes s0) r v = None"
    and f: "flags AND VMM_USER \<noteq> 0" and w: "w \<longleftrightarrow> flags AND VMM_WRITE \<noteq> 0"
  shows "spaces_ok s Ob R V \<Longrightarrow> pages_mapped s0 R r base w qs s \<Longrightarrow> length qs + length ps \<le> n \<Longrightarrow> \<forall>p \<in> set ps. usable_page p \<Longrightarrow>
    \<exists>res p' s' V' k. map_block_pages proc flags ps (base + of_nat (length qs) * PAGE_SIZE) s = Some (res, p', s')
      \<and> spaces_ok s' Ob R V' \<and> V \<subseteq> V' \<and> k \<le> length ps \<and> pages_mapped s0 R r base w (qs @ take k ps) s'
      \<and> (if res then k = length ps \<and> p' = base + of_nat (length qs + length ps) * PAGE_SIZE else free_stack s' = [] \<and> k < length ps)"
proof (induction ps arbitrary: qs s V)
  case Nil
  then show ?case by (intro exI [of _ True] exI [of _ "base + of_nat (length qs) * PAGE_SIZE"] exI [of _ s] exI [of _ V] exI [of _ 0]) simp
next
  case (Cons p ps)
  have k: "length qs < n" and p: "usable_page p" using Cons.prems(3,4) by simp_all
  obtain res s1 V1 where x: "vmm_arch_proc_map proc (base + of_nat (length qs) * PAGE_SIZE) p flags s = Some (res, s1)"
    "spaces_ok s1 Ob R V1" "V \<subseteq> V1"
    "if res = 0 then pages_mapped s0 R r base w (qs @ [p]) s1 else pages_mapped s0 R r base w qs s1 \<and> free_stack s1 = []"
    using map_next_page [OF Cons.prems(1,2) r b n k free p f w] by blast
  show ?case
  proof (cases "res = 0")
    case True
    have a: "base + of_nat (length qs) * PAGE_SIZE + PAGE_SIZE = base + of_nat (length (qs @ [p])) * PAGE_SIZE" by (simp add: algebra_simps)
    have l: "length (qs @ [p]) + length ps \<le> n" "\<forall>p \<in> set ps. usable_page p" using Cons.prems(3,4) by simp_all
    have m: "pages_mapped s0 R r base w (qs @ [p]) s1" using x(4) True by simp
    obtain res' p' s' V' k where y: "map_block_pages proc flags ps (base + of_nat (length (qs @ [p])) * PAGE_SIZE) s1 = Some (res', p', s')"
      "spaces_ok s' Ob R V'" "V1 \<subseteq> V'" "k \<le> length ps" "pages_mapped s0 R r base w ((qs @ [p]) @ take k ps) s'"
      "if res' then k = length ps \<and> p' = base + of_nat (length (qs @ [p]) + length ps) * PAGE_SIZE else free_stack s' = [] \<and> k < length ps"
      using Cons.IH [OF x(2) m l] by blast
    have run: "map_block_pages proc flags (p # ps) (base + of_nat (length qs) * PAGE_SIZE) s = Some (res', p', s')"
      using x(1) y(1) True unfolding a [symmetric] by simp
    show ?thesis using run x(3) y(2-6)
      by (intro exI [of _ res'] exI [of _ p'] exI [of _ s'] exI [of _ V'] exI [of _ "Suc k"]) (cases res'; simp)
  next
    case False
    then show ?thesis using x
      by (intro exI [of _ False] exI [of _ "base + of_nat (length qs) * PAGE_SIZE"] exI [of _ s1] exI [of _ V1] exI [of _ 0]) simp
  qed
qed

lemma block_pages_cong: "shmem_blocks s' = shmem_blocks s \<Longrightarrow> block_pages s' = block_pages s"
  by (simp add: block_pages_def fun_eq_iff)

lemma map_blocks_ok:
  assumes r: "r = proc_cr3 proc s0" "r \<in> R"
    and b: "page_aligned base" "base \<le> base + sz - 1" "base + sz - 1 < USER_REGION_SIZE"
    and n: "unat sz = n * 4096" "sz \<noteq> 0" and free: "\<forall>v \<in> region base sz. translate (ptes s0) r v = None"
    and f: "flags AND VMM_USER \<noteq> 0" and w: "w \<longleftrightarrow> flags AND VMM_WRITE \<noteq> 0"
  shows "spaces_ok s Ob R V \<Longrightarrow> pages_mapped s0 R r base w qs s \<Longrightarrow> shmem_blocks s = shmem_blocks s0 \<Longrightarrow>
    linked (\<lambda>b. sb_next (shmem_blocks s0 b)) block bs \<Longrightarrow> ps = concat (map (block_pages s0) bs) \<Longrightarrow>
    length qs + length ps \<le> n \<Longrightarrow> \<forall>p \<in> set ps. usable_page p \<Longrightarrow>
    \<exists>res s' V' k. map_blocks proc flags block (base + of_nat (length qs) * PAGE_SIZE) s = Some (res, s')
      \<and> spaces_ok s' Ob R V' \<and> V \<subseteq> V' \<and> k \<le> length ps \<and> pages_mapped s0 R r base w (qs @ take k ps) s'
      \<and> (if res then k = length ps else free_stack s' = [] \<and> k < length ps)"
proof (induction bs arbitrary: block qs ps s V)
  case Nil
  then have "map_blocks proc flags block (base + of_nat (length qs) * PAGE_SIZE) s = Some (True, s)" by (subst map_blocks.simps) simp
  then show ?case using Nil by (intro exI [of _ True] exI [of _ s] exI [of _ V] exI [of _ 0]) simp
next
  case (Cons c bs)
  let ?rest = "concat (map (block_pages s0) bs)"
  have c: "block = c" "c \<noteq> NULL" "linked (\<lambda>b. sb_next (shmem_blocks s0 b)) (sb_next (shmem_blocks s0 c)) bs" using Cons.prems(4) by auto
  have ps: "ps = block_pages s0 c @ ?rest" using Cons.prems(5) by simp
  have l: "length qs + length (block_pages s0 c) \<le> n" "\<forall>p \<in> set (block_pages s0 c). usable_page p"
    using Cons.prems(6,7) unfolding ps by simp_all
  obtain res p' s1 V1 k where x: "map_block_pages proc flags (block_pages s0 c) (base + of_nat (length qs) * PAGE_SIZE) s = Some (res, p', s1)"
    "spaces_ok s1 Ob R V1" "V \<subseteq> V1" "k \<le> length (block_pages s0 c)" "pages_mapped s0 R r base w (qs @ take k (block_pages s0 c)) s1"
    "if res then k = length (block_pages s0 c) \<and> p' = base + of_nat (length qs + length (block_pages s0 c)) * PAGE_SIZE
       else free_stack s1 = [] \<and> k < length (block_pages s0 c)"
    using map_block_pages_ok [OF r b n free f w Cons.prems(1,2) l] by blast
  have sb: "shmem_blocks s1 = shmem_blocks s0"
    using x(5) vmm_frame_keeps(8) [OF page_frame_vmm [of s0 s1 proc]] by (simp add: pages_mapped_def)
  have here: "map (sb_pages (shmem_blocks s0 c)) [0 ..< sb_used (shmem_blocks s0 c)] = block_pages s0 c" by (simp add: block_pages_def)
  show ?case
  proof (cases res)
    case True
    let ?qs = "qs @ block_pages s0 c"
    have m: "pages_mapped s0 R r base w ?qs s1" and p': "p' = base + of_nat (length ?qs) * PAGE_SIZE" using x(5,6) True by simp_all
    have l': "length ?qs + length ?rest \<le> n" "\<forall>p \<in> set ?rest. usable_page p" using Cons.prems(6,7) unfolding ps by simp_all
    obtain res' s' V' k' where y: "map_blocks proc flags (sb_next (shmem_blocks s0 c)) p' s1 = Some (res', s')"
      "spaces_ok s' Ob R V'" "V1 \<subseteq> V'" "k' \<le> length ?rest" "pages_mapped s0 R r base w (?qs @ take k' ?rest) s'"
      "if res' then k' = length ?rest else free_stack s' = [] \<and> k' < length ?rest"
      using Cons.IH [OF x(2) m sb c(3) refl l'] unfolding p' by blast
    have run: "map_blocks proc flags block (base + of_nat (length qs) * PAGE_SIZE) s = Some (res', s')"
      using x(1) y(1) True c(1,2) sb Cons.prems(3) by (subst map_blocks.simps) (simp add: here)
    show ?thesis using run x(3) y(2-6) unfolding ps
      by (intro exI [of _ res'] exI [of _ s'] exI [of _ V'] exI [of _ "length (block_pages s0 c) + k'"]) (cases res'; simp)
  next
    case False
    then have "map_blocks proc flags block (base + of_nat (length qs) * PAGE_SIZE) s = Some (False, s1)"
      using x(1) c(1,2) Cons.prems(3) by (subst map_blocks.simps) (simp add: here)
    then show ?thesis using x(2-6) False unfolding ps
      by (intro exI [of _ False] exI [of _ s1] exI [of _ V1] exI [of _ k]) simp
  qed
qed

lemma vmm_map_shmem_ok:
  assumes ok: "vmm_ok s Ob R U P" and p: "proc \<in> P" and u: "uncontended s (VMM_MUTEX proc)" and f: "flags AND VMM_USER \<noteq> 0"
    and sz: "page_aligned sz" "sz \<noteq> 0" and bl: "blocks_hold s blocks ps" and len: "length ps * 4096 = unat sz" and us: "\<forall>p \<in> set ps. usable_page p"
    and first: "p_free_map (processes s proc) \<noteq> [] \<Longrightarrow> me_size (snd (hd (p_free_map (processes s proc)))) \<noteq> sz"
  shows "\<exists>res base' s' L V. vmm_map_shmem proc base blocks sz flags s = Some (Done (res, base'), s')
    \<and> vmm_ok s' (Ob(ENTRY_CACHE := L)) R V P \<and> U \<subseteq> V \<and> others_kept s s' R proc base' sz
    \<and> (if res = 0 then region_result s s' R proc base' sz (flags AND VMM_WRITE \<noteq> 0) ps
       else res = -1 \<and> (region_failed s s' proc base' sz (flags AND VMM_WRITE \<noteq> 0) ps \<or> no_region s s' R proc sz))"
proof -
  obtain bs where bs: "linked (\<lambda>b. sb_next (shmem_blocks s b)) blocks bs" "ps = concat (map (block_pages s) bs)"
    using bl by (auto simp: blocks_hold_def)
  have nn: "proc \<noteq> NULL" using vmm_ok_space [OF ok p] by (simp add: space_ok_def)
  have loop: "\<exists>res s2 V k. map_blocks proc flags blocks base s1 = Some (res, s2) \<and> spaces_ok s2 Ob1 R V \<and> U \<subseteq> V \<and> k \<le> length ps
      \<and> pages_mapped s1 R (proc_cr3 proc s1) base (flags AND VMM_WRITE \<noteq> 0) (take k ps) s2
      \<and> (if res then k = length ps else free_stack s2 = [] \<and> k < length ps)"
    if a: "spaces_ok s1 Ob1 R U" "proc_cr3 proc s1 \<in> R" "shmem_blocks s1 = shmem_blocks s"
      "page_aligned base" "base \<le> base + sz - 1" "base + sz - 1 < USER_REGION_SIZE"
      "\<forall>v \<in> region base sz. translate (ptes s1) (proc_cr3 proc s1) v = None" for base Ob1 and s1 :: "'a vmm_state_scheme"
  proof -
    have l: "linked (\<lambda>b. sb_next (shmem_blocks s1 b)) blocks bs" "ps = concat (map (block_pages s1) bs)"
      using bs a(3) block_pages_cong [OF a(3)] by simp_all
    have m: "pages_mapped s1 R (proc_cr3 proc s1) base (flags AND VMM_WRITE \<noteq> 0) [] s1" by (rule pages_mapped_Nil) simp_all
    have n: "unat sz = length ps * 4096" "length ([] :: ptr list) + length ps \<le> length ps" using len by simp_all
    show ?thesis using map_blocks_ok [OF refl a(2,4-6) n(1) sz(2) a(7) f refl a(1) m refl l n(2) us] by simp
  qed
  have def: "vmm_map_shmem proc base blocks sz flags s = with_mutex (VMM_MUTEX proc) (\<lambda>s. do {
        (base, s) \<leftarrow> region_alloc proc sz s;
        if base = 0 then Some ((-1, base), s)
        else do {
          (ok, s) \<leftarrow> map_blocks proc flags blocks base s;
          Some ((if ok then 0 else -1, base), s)
        }
      }) s"
    using sz(1) nn by (simp add: vmm_map_shmem_def)
  show ?thesis unfolding def using loop by (intro map_region_ok [OF ok p u sz len first]) blast+
qed

section \<open>New address spaces\<close>

lemma threadqueue_init_empty: "threadqueue_init q = empty_queue"
  using queued_init [of undefined q "[]"] unfolding queued_Nil by simp

lemma init_free_map:
  assumes "entry_alloc s = Some (e, s1)"
  shows "vmm_context_init proc s = Some (0, mutex_init (VMM_MUTEX proc) (set_free_map proc
      (if e = NULL then [] else [(e, \<lparr>me_base = PAGE_SIZE, me_size = USER_REGION_SIZE - PAGE_SIZE\<rparr>)]) s1))"
proof (cases "e = NULL")
  case True
  then show ?thesis using assms
    by (simp add: vmm_context_init_def memory_map_add_def memory_map_init_def s_map_allocator_def memory_map_exclude_def exclude_loop.simps)
next
  case False
  let ?i = "\<lparr>me_base = USER_REGION_BASE, me_size = USER_REGION_SIZE\<rparr>" and ?e = "\<lparr>me_base = 0, me_size = PAGE_SIZE\<rparr>"
  have c: "check_entry_collision ?i ?e = INSIDE" by (simp add: check_entry_collision_def Let_def)
  have "exclude_loop s_map_allocator ?e [] s1 = Some (0, [], s1)" by (simp add: exclude_loop.simps)
  then have "exclude_loop s_map_allocator ?e [(e, ?i)] s1 = Some (0, [(e, \<lparr>me_base = PAGE_SIZE, me_size = USER_REGION_SIZE - PAGE_SIZE\<rparr>)], s1)"
    using c by (subst exclude_loop.simps) (simp add: exclude_inside_def Let_def)
  then show ?thesis using assms False
    by (simp add: vmm_context_init_def memory_map_add_def memory_map_init_def s_map_allocator_def memory_map_exclude_def)
qed

lemma vmm_context_init_ok:
  assumes ok: "vmm_ok s Ob R U P" and p: "proc \<notin> P" "proc \<noteq> NULL"
    and r: "proc_cr3 proc s \<in> R" "\<forall>q \<in> P. proc_cr3 q s \<noteq> proc_cr3 proc s"
    and none: "\<forall>v. user_addr v \<longrightarrow> translate (ptes s) (proc_cr3 proc s) v = None"
  shows "\<exists>s' L. vmm_context_init proc s = Some (0, s') \<and> vmm_ok s' (Ob(ENTRY_CACHE := L)) R U (insert proc P)
    \<and> vmm_frame proc s s' \<and> ptes s' = ptes s \<and> mem s' = mem s
    \<and> uncontended s' (VMM_MUTEX proc) \<and> (\<forall>m. m \<noteq> VMM_MUTEX proc \<longrightarrow> mutexes s' m = mutexes s m)
    \<and> (free_space s' proc = {PAGE_SIZE ..< USER_REGION_SIZE} \<or> free_space s' proc = {} \<and> free_stack s = [])
    \<and> (p_free_map (processes s' proc) = [] \<or>
         (\<exists>e. p_free_map (processes s' proc) = [(e, \<lparr>me_base = PAGE_SIZE, me_size = USER_REGION_SIZE - PAGE_SIZE\<rparr>)]))"
proof -
  obtain e s1 where e: "entry_alloc s = Some (e, s1)" "entries_inv s Ob U (s1, if e = NULL then Ob ENTRY_CACHE else insert e (Ob ENTRY_CACHE))"
    "e \<noteq> NULL \<longrightarrow> e \<notin> Ob ENTRY_CACHE" "e = NULL \<longrightarrow> free_stack s = []"
  proof -
    have m: "memory s Ob U" and rd: "cache_ready s ENTRY_CACHE" using ok by (simp_all add: vmm_ok_def)
    obtain e s1 where "entry_alloc s = Some (e, s1)" "entries_inv s Ob U (s1, if e = NULL then Ob ENTRY_CACHE else insert e (Ob ENTRY_CACHE))"
      "e \<noteq> NULL \<longrightarrow> e \<notin> Ob ENTRY_CACHE" using entries_alloc [OF entries_inv_start [OF ok]] by blast
    then show thesis using that alloc_object [OF m rd] by (fastforce simp: entry_alloc_def)
  qed
  let ?L = "if e = NULL then Ob ENTRY_CACHE else insert e (Ob ENTRY_CACHE)"
  define m where "m = (if e = NULL then [] else [(e, \<lparr>me_base = PAGE_SIZE, me_size = USER_REGION_SIZE - PAGE_SIZE\<rparr>)])"
  define s2 where "s2 = mutex_init (VMM_MUTEX proc) (set_free_map proc m s1)"
  have i: "memory s1 (Ob(ENTRY_CACHE := ?L)) U" "slab_frame s s1" "same_shape (caches s) (caches s1)"
    using e(2) by (simp_all add: entries_inv_def)
  have k: "processes s1 = processes s" "ptes s1 = ptes s" "arch_cr3 s1 = arch_cr3 s" "mutexes s1 = mutexes s" "mem s1 = mem s"
    using i(2) by (auto elim!: slab_frameE)
  have eqs: "ptes s2 = ptes s" "proc_cr3 q s2 = proc_cr3 q s" "mem s2 = mem s" "caches s2 = caches s1"
      "processes s2 = (processes s)(proc := (processes s proc)\<lparr>p_free_map := m\<rparr>)" for q
    using k by (simp_all add: s2_def set_free_map_def proc_cr3_def mutex_init_def set_mutex_def spinlock_init_def)
  have run: "vmm_context_init proc s = Some (0, s2)" using init_free_map [OF e(1)] by (simp add: s2_def m_def)
  have mem: "memory s2 (Ob(ENTRY_CACHE := ?L)) U"
    using i(1) by (simp add: s2_def set_free_map_def mutex_init_def set_mutex_def spinlock_init_def addrs_ok_def)
  have fr: "vmm_frame proc s s2" using i(2,3) k
    by (elim slab_frameE) (simp add: s2_def vmm_frame_def set_free_map_def mutex_init_def set_mutex_def spinlock_init_def)
  have free: "free_space s2 q = (if q = proc then map_space m else free_space s q)" for q
    by (simp add: free_space_def eqs)
  have space: "map_space m = (if e = NULL then {} else {PAGE_SIZE ..< USER_REGION_SIZE})"
  proof -
    have "x \<le> 0x7fffffffffff \<longleftrightarrow> x < USER_REGION_SIZE" for x using word_le_pred [of USER_REGION_SIZE x] by simp
    then have "{PAGE_SIZE .. 0x7fffffffffff} = {PAGE_SIZE ..< USER_REGION_SIZE}"
      by (simp only: set_eq_iff atLeastAtMost_iff atLeastLessThan_iff) simp
    then show ?thesis by (simp add: m_def entry_range_def entry_end_def)
  qed
  have "map_ok m" "map_aligned m"
    by (simp_all add: m_def map_ok_Cons entry_ok_def entry_end_def map_aligned_def entry_aligned_def page_aligned_iff)
  then have "space_ok s2 R proc" using p(2) r(1) none space by (auto simp: space_ok_def free eqs user_addr_def)
  moreover have "space_ok s2 R q" if "q \<in> P" for q
  proof -
    have "q \<noteq> proc" using that p(1) by blast
    then show ?thesis using vmm_ok_space [OF ok that] by (simp add: space_ok_def free eqs)
  qed
  moreover have sub: "map_nodes s q \<subseteq> Ob ENTRY_CACHE" if "q \<in> P" for q
    using ok that by (auto simp: vmm_ok_def owns_def map_nodes_def)
  moreover have "owns snd (p_free_map (processes s2 q)) (s2, ?L)" if "q \<in> insert proc P" for q
  proof (cases "q = proc")
    case True
    then show ?thesis by (simp add: eqs owns_def m_def)
  next
    case False
    then show ?thesis using ok that by (auto simp: vmm_ok_def owns_def eqs)
  qed
  moreover have "map_nodes s2 q \<inter> map_nodes s2 q' = {}" if "q \<in> insert proc P" "q' \<in> insert proc P" "q \<noteq> q'" for q q'
  proof -
    have n: "map_nodes s2 x = (if x = proc then fst ` set m else map_nodes s x)" for x by (simp add: map_nodes_def eqs)
    have mm: "fst ` set m \<inter> map_nodes s x = {}" if "x \<in> P" for x using sub [OF that] e(3) by (auto simp: m_def)
    have "map_nodes s q \<inter> map_nodes s q' = {}" if "q \<in> P" "q' \<in> P" using ok that \<open>q \<noteq> q'\<close> by (simp add: vmm_ok_def)
    then show ?thesis using that mm [of q] mm [of q'] unfolding n by (cases "q = proc"; cases "q' = proc") auto
  qed
  moreover have "inj_on (\<lambda>q. proc_cr3 q s2) (insert proc P)"
    using ok r(2) p(1) by (auto simp: vmm_ok_def eqs inj_on_def)
  moreover have "cache_ready s2 ENTRY_CACHE" "tables_ok (ptes s2) R U"
    using ok ready_shape [OF i(3)] by (simp_all add: vmm_ok_def eqs)
  ultimately have "vmm_ok s2 (Ob(ENTRY_CACHE := ?L)) R U (insert proc P)" using mem by (simp add: vmm_ok_def)
  moreover have "uncontended s2 (VMM_MUTEX proc)" "\<forall>m. m \<noteq> VMM_MUTEX proc \<longrightarrow> mutexes s2 m = mutexes s m"
    using k(4) by (simp_all add: s2_def uncontended_def mutex_init_def set_mutex_def set_free_map_def spinlock_init_def threadqueue_init_empty)
  moreover have "p_free_map (processes s2 proc) = m" by (simp add: eqs)
  ultimately show ?thesis using run fr eqs(1,3) free [of proc] space e(4)
    by (intro exI [of _ s2] exI [of _ ?L]) (cases "e = NULL"; simp add: m_def)
qed

section \<open>Properties\<close>

text \<open>
  C18: \<^verbatim>\<open>sys_vmm_alloc\<close> of a number of pages always returns when nobody holds the address space (and the size
  is not exactly that of the first free region).  On success the region was free, is not free any more, and
  its pages are mapped writable to distinct pages that were not in use.  On failure (\<open>-1\<close>) there is no free
  page left, or no free region is big enough and nothing has changed.  Nothing else is remapped in any
  address space, and the invariant of all address spaces is kept.
\<close>

theorem sys_vmm_alloc_fresh:
  assumes "vmm_ok s Ob R U P" and "t_proc (threads s (thread_current s)) = proc" and "proc \<in> P"
    and "uncontended s (VMM_MUTEX proc)" and "page_aligned sz" and "sz \<noteq> 0"
    and "p_free_map (processes s proc) \<noteq> [] \<Longrightarrow> me_size (snd (hd (p_free_map (processes s proc)))) \<noteq> sz"
  shows "\<exists>res base' s' Ob' V ps. sys_vmm_alloc sz base s = Some (Done (res, base'), s')
    \<and> vmm_ok s' Ob' R V P \<and> U \<subseteq> V \<and> others_kept s s' R proc base' sz
    \<and> (if res = 0 then region_result s s' R proc base' sz True ps \<and> distinct ps \<and> set ps \<subseteq> V - U
       else res = -1 \<and> (free_stack s' = []
          \<or> free_space s' proc = free_space s proc \<and> (\<forall>r' \<in> R. \<forall>v. user_addr v \<longrightarrow> translate (ptes s') r' v = translate (ptes s) r' v)
            \<and> (\<forall>n \<in> set (p_free_map (processes s proc)). me_size (snd n) < sz)))"
proof -
  let ?f = "VMM_READ OR VMM_WRITE OR VMM_USER"
  have f: "?f AND VMM_USER \<noteq> 0" "(?f AND VMM_WRITE \<noteq> 0) = True" "?f AND VMM_FIXED = 0" by simp_all
  have call: "sys_vmm_alloc sz base s = vmm_alloc proc base sz ?f s" by (simp add: sys_vmm_alloc_def assms(2))
  have fi: "?f AND VMM_FIXED = 0 \<Longrightarrow> p_free_map (processes s proc) \<noteq> [] \<Longrightarrow> me_size (snd (hd (p_free_map (processes s proc)))) \<noteq> sz"
    and fx: "?f AND VMM_FIXED \<noteq> 0 \<Longrightarrow> page_aligned base \<and> base \<le> base + sz - 1"
    using assms(7) f(3) by blast+
  obtain res base' s' L V ps where x: "vmm_alloc proc base sz ?f s = Some (Done (res, base'), s')"
    "vmm_ok s' (Ob(ENTRY_CACHE := L)) R V P" "U \<subseteq> V" "others_kept s s' R proc base' sz"
    "if res = 0 then region_result s s' R proc base' sz (?f AND VMM_WRITE \<noteq> 0) ps \<and> distinct ps \<and> set ps \<subseteq> V - U
       else res = -1 \<and> (free_stack s' = []
          \<or> free_space s' proc = free_space s proc \<and> (\<forall>r' \<in> R. \<forall>v. user_addr v \<longrightarrow> translate (ptes s') r' v = translate (ptes s) r' v)
            \<and> (?f AND VMM_FIXED = 0 \<longrightarrow> (\<forall>n \<in> set (p_free_map (processes s proc)). me_size (snd n) < sz)))"
    using vmm_alloc_ok [OF assms(1,3,4) f(1) assms(5,6) fi fx] by blast
  show ?thesis unfolding call using x(1-4) x(5) [unfolded f(2)] f(3)
    by (intro exI [of _ res] exI [of _ base'] exI [of _ s'] exI [of _ "Ob(ENTRY_CACHE := L)"] exI [of _ V] exI [of _ ps])
      (cases "res = 0"; simp)
qed

text \<open>
  \<^verbatim>\<open>sys_vmm_map\<close> of a page-aligned physical region of usable pages maps it, in order, at a region that
  was free, with the same guarantees for everything else as \<^verbatim>\<open>sys_vmm_alloc\<close>.  When the pages for the tables run
  out, the region stays taken and its first pages stay mapped; when there is no region big enough, nothing changes.
\<close>

theorem sys_vmm_map_maps:
  assumes "vmm_ok s Ob R U P" and "t_proc (threads s (thread_current s)) = proc" and "proc \<in> P"
    and "uncontended s (VMM_MUTEX proc)" and "page_aligned sz" and "sz \<noteq> 0"
    and "page_aligned phys" and "\<forall>p \<in> set (phys_pages phys (unat sz div 4096)). usable_page p"
    and "p_free_map (processes s proc) \<noteq> [] \<Longrightarrow> me_size (snd (hd (p_free_map (processes s proc)))) \<noteq> sz"
  shows "\<exists>res base' s' Ob' V. sys_vmm_map phys sz base s = Some (Done (res, base'), s')
    \<and> vmm_ok s' Ob' R V P \<and> U \<subseteq> V \<and> others_kept s s' R proc base' sz
    \<and> (if res = 0 then region_result s s' R proc base' sz True (phys_pages phys (unat sz div 4096))
       else res = -1 \<and> (region_failed s s' proc base' sz True (phys_pages phys (unat sz div 4096)) \<or> no_region s s' R proc sz))"
proof -
  let ?f = "VMM_READ OR VMM_WRITE OR VMM_USER"
  have f: "?f AND VMM_USER \<noteq> 0" "(?f AND VMM_WRITE \<noteq> 0) = True" by simp_all
  have call: "sys_vmm_map phys sz base s = vmm_map proc base phys sz ?f s" by (simp add: sys_vmm_map_def assms(2))
  show ?thesis unfolding call using vmm_map_ok [OF assms(1,3,4) f(1) assms(5-9), where base = base] unfolding f(2) by blast
qed

text \<open>
  Isolation.  If every page mapped in user space is in use, the pages \<^verbatim>\<open>vmm_alloc\<close> maps are mapped
  nowhere else, in no address space: an address that leads to one of them is in the page it was mapped at.
\<close>

theorem vmm_alloc_private:
  assumes ok: "vmm_ok s Ob R U P" and p: "proc \<in> P" and u: "uncontended s (VMM_MUTEX proc)" and f: "flags AND VMM_USER \<noteq> 0"
    and sz: "page_aligned sz" "sz \<noteq> 0"
    and first: "flags AND VMM_FIXED = 0 \<Longrightarrow> p_free_map (processes s proc) \<noteq> [] \<Longrightarrow> me_size (snd (hd (p_free_map (processes s proc)))) \<noteq> sz"
    and fixed: "flags AND VMM_FIXED \<noteq> 0 \<Longrightarrow> page_aligned base \<and> base \<le> base + sz - 1"
    and used: "\<forall>r \<in> R. \<forall>v p w. user_addr v \<and> translate (ptes s) r v = Some (p, w) \<longrightarrow> p \<in> U"
  shows "\<exists>res base' s' ps. vmm_alloc proc base sz flags s = Some (Done (res, base'), s') \<and> (res = 0 \<longrightarrow>
      length ps * 4096 = unat sz
    \<and> (\<forall>j < length ps. translate (ptes s') (proc_cr3 proc s) (base' + of_nat j * PAGE_SIZE) = Some (ps ! j, flags AND VMM_WRITE \<noteq> 0))
    \<and> (\<forall>r \<in> R. \<forall>v w. \<forall>j < length ps. user_addr v \<and> translate (ptes s') r v = Some (ps ! j, w) \<longrightarrow>
         r = proc_cr3 proc s \<and> v \<in> region base' sz))"
proof -
  obtain res base' s' L V ps where run: "vmm_alloc proc base sz flags s = Some (Done (res, base'), s')"
    and o: "others_kept s s' R proc base' sz"
    and x: "if res = 0 then region_result s s' R proc base' sz (flags AND VMM_WRITE \<noteq> 0) ps \<and> distinct ps \<and> set ps \<subseteq> V - U
       else res = -1 \<and> (free_stack s' = []
          \<or> free_space s' proc = free_space s proc \<and> (\<forall>r' \<in> R. \<forall>v. user_addr v \<longrightarrow> translate (ptes s') r' v = translate (ptes s) r' v)
            \<and> (flags AND VMM_FIXED = 0 \<longrightarrow> (\<forall>n \<in> set (p_free_map (processes s proc)). me_size (snd n) < sz)))"
    using vmm_alloc_ok [OF ok p u f sz first fixed] by blast
  have "r = proc_cr3 proc s \<and> v \<in> region base' sz"
    if a: "r \<in> R" "j < length ps" "user_addr v" "translate (ptes s') r v = Some (ps ! j, w)" "res = 0" for r v w j
  proof (rule ccontr)
    assume "\<not> (r = proc_cr3 proc s \<and> v \<in> region base' sz)"
    then have "translate (ptes s) r v = Some (ps ! j, w)" using o a by (auto simp: others_kept_def)
    then have "ps ! j \<in> U" using used a(1,3) by blast
    moreover have "ps ! j \<in> set ps" using a(2) by simp
    ultimately show False using x a(5) by auto
  qed
  then show ?thesis using run x by (intro exI [of _ res] exI [of _ base'] exI [of _ s'] exI [of _ ps]) (auto simp: region_result_def)
qed

section \<open>Witnesses\<close>

abbreviation (input) sample_vmm :: vmm_state where
  "sample_vmm \<equiv> page_state.extend (sample_spaces\<lparr>threads := (\<lambda>p. (sample_thread p)\<lparr>t_proc := 0x7000\<rparr>)\<rparr>)
     \<lparr>mem = (\<lambda>_. 0), shmem_blocks = (\<lambda>_. \<lparr>sb_used = 0, sb_pages = (\<lambda>_. 0), sb_next = NULL\<rparr>)\<rparr>"

lemmas vmm_defs = space_defs page_state.defs

lemma sample_vmm_ok: "vmm_ok sample_vmm (\<lambda>_. {}) {0x100000} {0x100000} {}"
  using sample_spaces_ok by (simp add: vmm_ok_def vmm_defs)

text \<open>The address space of a first process, made by \<^verbatim>\<open>vmm_context_init\<close>.\<close>

lemma sample_space:
  "\<exists>s L. vmm_context_init 0x7000 sample_vmm = Some (0, s) \<and> vmm_ok s ((\<lambda>_. {})(ENTRY_CACHE := L)) {0x100000} {0x100000} {0x7000}
     \<and> uncontended s (VMM_MUTEX 0x7000) \<and> t_proc (threads s (thread_current s)) = 0x7000
     \<and> ptes s = ptes sample_vmm \<and> p_free_map (processes s 0x7000) \<noteq> [] \<and> me_size (snd (hd (p_free_map (processes s 0x7000)))) = USER_REGION_SIZE - PAGE_SIZE"
proof -
  have r: "proc_cr3 0x7000 sample_vmm \<in> {0x100000}" "\<forall>q \<in> {}. proc_cr3 q sample_vmm \<noteq> proc_cr3 0x7000 sample_vmm"
    "(0x7000 :: ptr) \<notin> {}" "0x7000 \<noteq> NULL"
    by (simp_all add: proc_cr3_def vmm_defs)
  have none: "\<forall>v. user_addr v \<longrightarrow> translate (ptes sample_vmm) (proc_cr3 0x7000 sample_vmm) v = None"
    by (simp add: translate_def vmm_defs)
  obtain s L where s: "vmm_context_init 0x7000 sample_vmm = Some (0, s)"
    "vmm_ok s ((\<lambda>_. {})(ENTRY_CACHE := L)) {0x100000} {0x100000} {0x7000}" "vmm_frame 0x7000 sample_vmm s"
    "ptes s = ptes sample_vmm" "uncontended s (VMM_MUTEX 0x7000)"
    "free_space s 0x7000 = {PAGE_SIZE ..< USER_REGION_SIZE} \<or> free_space s 0x7000 = {} \<and> free_stack sample_vmm = []"
    "p_free_map (processes s 0x7000) = [] \<or>
      (\<exists>e. p_free_map (processes s 0x7000) = [(e, \<lparr>me_base = PAGE_SIZE, me_size = USER_REGION_SIZE - PAGE_SIZE\<rparr>)])"
    using vmm_context_init_ok [OF sample_vmm_ok r(3,4,1,2) none] by blast
  have "free_stack sample_vmm \<noteq> []" by (simp add: vmm_defs)
  moreover have "PAGE_SIZE \<in> {PAGE_SIZE ..< USER_REGION_SIZE}" by simp
  ultimately have "free_space s 0x7000 \<noteq> {}" using s(6) by blast
  then have "p_free_map (processes s 0x7000) \<noteq> []" by (auto simp: free_space_def)
  moreover have "t_proc (threads s (thread_current s)) = 0x7000" using vmm_frame_keeps(9,10) [OF s(3)] by (simp add: vmm_defs)
  ultimately show ?thesis using s(1,2,4,5,7) by (intro exI [of _ s] exI [of _ L]) auto
qed

lemma sys_vmm_alloc_fresh_witness:
  "\<exists>s s' res base. vmm_context_init 0x7000 sample_vmm = Some (0, s) \<and> sys_vmm_alloc 0x2000 0 s = Some (Done (res, base), s')"
proof -
  obtain s L where s: "vmm_context_init 0x7000 sample_vmm = Some (0, s)" "vmm_ok s ((\<lambda>_. {})(ENTRY_CACHE := L)) {0x100000} {0x100000} {0x7000}"
     "uncontended s (VMM_MUTEX 0x7000)" "t_proc (threads s (thread_current s)) = 0x7000"
     "me_size (snd (hd (p_free_map (processes s 0x7000)))) = USER_REGION_SIZE - PAGE_SIZE"
    using sample_space by blast
  have sz: "(0x7000 :: ptr) \<in> {0x7000}" "page_aligned 0x2000" "(0x2000 :: u64) \<noteq> 0" by (simp_all add: page_aligned_iff)
  have "me_size (snd (hd (p_free_map (processes s 0x7000)))) \<noteq> 0x2000" by (simp add: s(5))
  then show ?thesis using sys_vmm_alloc_fresh [OF s(2,4) sz(1) s(3) sz(2,3)] s(1) by blast
qed

lemma sys_vmm_map_maps_witness:
  "\<exists>s s' res base. vmm_context_init 0x7000 sample_vmm = Some (0, s) \<and> sys_vmm_map 0xb8000 0x1000 0 s = Some (Done (res, base), s')"
proof -
  obtain s L where s: "vmm_context_init 0x7000 sample_vmm = Some (0, s)" "vmm_ok s ((\<lambda>_. {})(ENTRY_CACHE := L)) {0x100000} {0x100000} {0x7000}"
     "uncontended s (VMM_MUTEX 0x7000)" "t_proc (threads s (thread_current s)) = 0x7000"
     "me_size (snd (hd (p_free_map (processes s 0x7000)))) = USER_REGION_SIZE - PAGE_SIZE"
    using sample_space by blast
  have sz: "(0x7000 :: ptr) \<in> {0x7000}" "page_aligned 0x1000" "(0x1000 :: u64) \<noteq> 0" "page_aligned 0xb8000"
    by (simp_all add: page_aligned_iff)
  have ph: "\<forall>p \<in> set (phys_pages 0xb8000 (unat (0x1000 :: u64) div 4096)). usable_page p"
    by (simp add: phys_pages_def usable_page_def page_aligned_iff)
  have "me_size (snd (hd (p_free_map (processes s 0x7000)))) \<noteq> 0x1000" by (simp add: s(5))
  then show ?thesis using sys_vmm_map_maps [OF s(2,4) sz(1) s(3) sz(2,3,4) ph] s(1) by blast
qed

lemma vmm_alloc_private_witness:
  "\<exists>s s' res base. vmm_context_init 0x7000 sample_vmm = Some (0, s) \<and>
     vmm_alloc 0x7000 0x400000 0x1000 (VMM_USER OR VMM_FIXED) s = Some (Done (res, base), s')"
proof -
  obtain s L where s: "vmm_context_init 0x7000 sample_vmm = Some (0, s)" "vmm_ok s ((\<lambda>_. {})(ENTRY_CACHE := L)) {0x100000} {0x100000} {0x7000}"
     "uncontended s (VMM_MUTEX 0x7000)" "ptes s = ptes sample_vmm"
    using sample_space by blast
  have sz: "(0x7000 :: ptr) \<in> {0x7000}" "page_aligned 0x1000" "(0x1000 :: u64) \<noteq> 0" "(VMM_USER OR VMM_FIXED) AND VMM_USER \<noteq> 0"
    by (simp_all add: page_aligned_iff)
  have fi: "(VMM_USER OR VMM_FIXED) AND VMM_FIXED = 0 \<Longrightarrow> p_free_map (processes s 0x7000) \<noteq> [] \<Longrightarrow>
      me_size (snd (hd (p_free_map (processes s 0x7000)))) \<noteq> 0x1000"
    and fx: "(VMM_USER OR VMM_FIXED) AND VMM_FIXED \<noteq> 0 \<Longrightarrow> page_aligned 0x400000 \<and> 0x400000 \<le> 0x400000 + (0x1000 :: u64) - 1"
    by (simp_all add: page_aligned_iff)
  have used: "\<forall>r \<in> {0x100000}. \<forall>v p w. user_addr v \<and> translate (ptes s) r v = Some (p, w) \<longrightarrow> p \<in> {0x100000}"
    unfolding s(4) by (simp add: translate_def vmm_defs)
  show ?thesis using vmm_alloc_private [OF s(2) sz(1) s(3) sz(4,2,3) fi fx used] s(1) by blast
qed

end
