(* ===== verification/CString.thy ===== *)
theory CString
  imports Prelude
begin

text \<open>
  \<^verbatim>\<open>lib/string.c\<close>: the memory and string functions of the kernel, over the bytes of memory.  A loop
  that counts down to zero is a recursion over the count; a loop that looks for the end of a string is a
  partial function, which has no result when there is no end.
\<close>

section \<open>Memory\<close>

type_synonym memory = "ptr \<Rightarrow> u8"

fun copy_up :: "nat \<Rightarrow> ptr \<Rightarrow> ptr \<Rightarrow> memory \<Rightarrow> memory" where
  "copy_up 0 d s m = m"
| "copy_up (Suc n) d s m = copy_up n (d + 1) (s + 1) (m(d := m s))"

fun copy_down :: "nat \<Rightarrow> ptr \<Rightarrow> ptr \<Rightarrow> memory \<Rightarrow> memory" where
  "copy_down 0 d s m = m"
| "copy_down (Suc n) d s m = copy_down n (d - 1) (s - 1) (m(d - 1 := m (s - 1)))"

definition memcpy :: "ptr \<Rightarrow> ptr \<Rightarrow> u64 \<Rightarrow> memory \<Rightarrow> memory" where
  "memcpy d s n m = copy_up (unat n) d s m"

definition memmove :: "ptr \<Rightarrow> ptr \<Rightarrow> u64 \<Rightarrow> memory \<Rightarrow> memory" where
  "memmove dest src n m =
     (if dest < src then copy_up (unat n) dest src m
      else copy_down (unat n) (dest + n) (src + n) m)"

fun set_up :: "nat \<Rightarrow> ptr \<Rightarrow> u8 \<Rightarrow> memory \<Rightarrow> memory" where
  "set_up 0 p c m = m"
| "set_up (Suc n) p c m = set_up n (p + 1) c (m(p := c))"

definition memset :: "ptr \<Rightarrow> u32 \<Rightarrow> u64 \<Rightarrow> memory \<Rightarrow> memory" where
  "memset s c n m = set_up (unat n) s (ucast c) m"

text \<open>An \<^verbatim>\<open>int\<close> is stored as four bytes, the lowest first.\<close>

definition store_int :: "ptr \<Rightarrow> u32 \<Rightarrow> memory \<Rightarrow> memory" where
  "store_int p c m = m(p := ucast c, p + 1 := ucast (drop_bit 8 c), p + 2 := ucast (drop_bit 16 c), p + 3 := ucast (drop_bit 24 c))"

fun setl_up :: "nat \<Rightarrow> ptr \<Rightarrow> u32 \<Rightarrow> memory \<Rightarrow> memory" where
  "setl_up 0 p c m = m"
| "setl_up (Suc n) p c m = setl_up n (p + 4) c (store_int p c m)"

definition memsetl :: "ptr \<Rightarrow> u32 \<Rightarrow> u64 \<Rightarrow> memory \<Rightarrow> memory" where
  "memsetl s c n m = setl_up (unat n) s c m"

section \<open>Strings\<close>

partial_function (option) strlen_loop :: "memory \<Rightarrow> ptr \<Rightarrow> u64 \<Rightarrow> u64 option" where
  "strlen_loop m s r = (if m s = 0 then Some r else strlen_loop m (s + 1) (r + 1))"

definition strlen :: "memory \<Rightarrow> ptr \<Rightarrow> u64 option" where
  "strlen m s = strlen_loop m s 0"

text \<open>The loop of \<^verbatim>\<open>strrchr\<close> walks from the terminating zero down to the first character.\<close>

partial_function (option) strrchr_loop :: "memory \<Rightarrow> ptr \<Rightarrow> u8 \<Rightarrow> ptr \<Rightarrow> ptr option" where
  "strrchr_loop m s c e =
     (if m e = c then Some e
      else let e = e - 1 in if e \<ge> s then strrchr_loop m s c e else Some NULL)"

definition strrchr :: "memory \<Rightarrow> ptr \<Rightarrow> u32 \<Rightarrow> ptr option" where
  "strrchr m s c = do {
     n \<leftarrow> strlen m s;
     strrchr_loop m s (ucast c) (s + n)
   }"

text \<open>The two loops of \<^verbatim>\<open>strncpy\<close>: \<open>i\<close> bytes are done, \<open>k\<close> remain.\<close>

fun strncpy_pad :: "nat \<Rightarrow> ptr \<Rightarrow> u64 \<Rightarrow> memory \<Rightarrow> memory" where
  "strncpy_pad 0 d i m = m"
| "strncpy_pad (Suc k) d i m = strncpy_pad k d (i + 1) (m(d + i := 0))"

fun strncpy_copy :: "nat \<Rightarrow> ptr \<Rightarrow> ptr \<Rightarrow> u64 \<Rightarrow> memory \<Rightarrow> memory" where
  "strncpy_copy 0 d s i m = m"
| "strncpy_copy (Suc k) d s i m =
     (if m (s + i) \<noteq> 0 then strncpy_copy k d s (i + 1) (m(d + i := m (s + i)))
      else strncpy_pad (Suc k) d i m)"

definition strncpy :: "ptr \<Rightarrow> ptr \<Rightarrow> u64 \<Rightarrow> memory \<Rightarrow> memory" where
  "strncpy d s n m = strncpy_copy (unat n) d s 0 m"

text \<open>\<^verbatim>\<open>char\<close> is signed; the difference of two does not overflow an \<^verbatim>\<open>int\<close>.\<close>

partial_function (option) strcmp :: "memory \<Rightarrow> ptr \<Rightarrow> ptr \<Rightarrow> int option" where
  "strcmp m s1 s2 =
     (let r = sint (m s1) - sint (m s2)
      in if r \<noteq> 0 \<or> m s1 = 0 then Some r else strcmp m (s1 + 1) (s2 + 1))"

section \<open>What they compute\<close>

text \<open>\<open>in_range p n a\<close>: \<open>a\<close> is one of the \<open>n\<close> addresses from \<open>p\<close> on.\<close>

definition in_range :: "ptr \<Rightarrow> nat \<Rightarrow> ptr \<Rightarrow> bool" where
  "in_range p n a \<longleftrightarrow> unat (a - p) < n"

lemma unat_below: "unat (n :: u64) < 2 ^ 64"
  using unsigned_less [of n] by simp

lemma in_range_0 [simp]: "\<not> in_range p 0 a"
  by (simp add: in_range_def)

lemma unat_diff_1: "(a :: u64) \<noteq> p \<Longrightarrow> unat (a - p) = Suc (unat (a - (p + 1)))"
proof -
  assume "a \<noteq> p"
  then have "a - p \<noteq> 0" by simp
  then have "unat (a - p) \<noteq> 0" by (simp only: unat_eq_zero) simp
  then have "unat (a - p - 1) = unat (a - p) - 1" by (simp add: unat_sub_if')
  then have "unat (a - p) = Suc (unat (a - p - 1))" using \<open>unat (a - p) \<noteq> 0\<close> by simp
  then show ?thesis by (simp add: diff_diff_eq)
qed

lemma in_range_Suc: "in_range p (Suc n) a \<longleftrightarrow> a = p \<or> in_range (p + 1) n a" if "n < 2 ^ 64"
proof (cases "a = p")
  case True
  then show ?thesis by (simp add: in_range_def)
next
  case False
  then show ?thesis by (simp add: in_range_def unat_diff_1)
qed

lemma copy_up_outside: "\<not> in_range d n a \<Longrightarrow> n < 2 ^ 64 \<Longrightarrow> copy_up n d s m a = m a"
proof (induction n arbitrary: d s m)
  case (Suc n)
  then show ?case using in_range_Suc [of n d a] by simp
qed simp

text \<open>Copying upwards is right when no source byte is overwritten before it is read.\<close>

lemma copy_up_value:
  assumes "n < 2 ^ 64" and "k < n" and "\<And>i j. i < j \<Longrightarrow> j < n \<Longrightarrow> d + of_nat i \<noteq> s + of_nat j"
  shows "copy_up n d s m (d + of_nat k) = m (s + of_nat k)"
  using assms
proof (induction n arbitrary: d s m k)
  case (Suc n)
  show ?case
  proof (cases k)
    case 0
    have "unat (- 1 :: u64) = 2 ^ 64 - 1" by (simp add: unsigned_minus_1_eq_mask mask_eq_exp_minus_1)
    then have "\<not> in_range (d + 1) n d" using Suc.prems(1) by (simp add: in_range_def)
    then show ?thesis using 0 Suc.prems(1) by (simp add: copy_up_outside)
  next
    case (Suc l)
    have "d + 1 + of_nat i \<noteq> s + 1 + of_nat j" if "i < j" "j < n" for i j
      using Suc.prems(3) [of "Suc i" "Suc j"] that by (simp add: algebra_simps)
    then have "copy_up n (d + 1) (s + 1) (m(d := m s)) (d + 1 + of_nat l) = (m(d := m s)) (s + 1 + of_nat l)"
      using Suc.IH [of l "d + 1" "s + 1"] Suc.prems(1,2) Suc by simp
    moreover have "d \<noteq> s + 1 + of_nat l" using Suc.prems(3) [of 0 "Suc l"] Suc.prems(2) Suc by (simp add: algebra_simps)
    ultimately show ?thesis using Suc by (simp add: algebra_simps)
  qed
qed simp

lemma copy_down_outside: "\<not> in_range (d - of_nat n) n a \<Longrightarrow> n < 2 ^ 64 \<Longrightarrow> copy_down n d s m a = m a"
proof (induction n arbitrary: d s m)
  case (Suc n)
  have e: "d - of_nat (Suc n) + 1 = d - of_nat n" "d - 1 - of_nat n = d - of_nat (Suc n)" by simp_all
  have "a \<noteq> d - 1"
  proof
    assume "a = d - 1"
    then have "a - (d - of_nat (Suc n)) = of_nat n" by simp
    then have "unat (a - (d - of_nat (Suc n))) = n" using Suc.prems(2) by (simp only:) (simp add: unat_of_nat)
    then show False using Suc.prems(1) by (simp add: in_range_def)
  qed
  moreover have "\<not> in_range (d - 1 - of_nat n) n a"
    using Suc.prems(1) unfolding in_range_def e by simp
  ultimately show ?case using Suc.IH [of "d - 1"] Suc.prems(2) by simp
qed simp

lemma copy_down_value:
  assumes "n < 2 ^ 64" and "k < n" and "\<And>i j. i < j \<Longrightarrow> j < n \<Longrightarrow> d - 1 - of_nat i \<noteq> s - 1 - of_nat j"
  shows "copy_down n d s m (d - 1 - of_nat k) = m (s - 1 - of_nat k)"
  using assms
proof (induction n arbitrary: d s m k)
  case (Suc n)
  show ?case
  proof (cases k)
    case 0
    have "d - 1 - (d - 1 - of_nat n) = of_nat n" by simp
    then have "\<not> in_range (d - 1 - of_nat n) n (d - 1)"
      using Suc.prems(1) unfolding in_range_def by (simp only:) (simp add: unat_of_nat)
    then show ?thesis using 0 Suc.prems(1) by (simp add: copy_down_outside)
  next
    case (Suc l)
    have "d - 1 - 1 - of_nat i \<noteq> s - 1 - 1 - of_nat j" if "i < j" "j < n" for i j
      using Suc.prems(3) [of "Suc i" "Suc j"] that by (simp add: algebra_simps)
    then have "copy_down n (d - 1) (s - 1) (m(d - 1 := m (s - 1))) (d - 1 - 1 - of_nat l)
        = (m(d - 1 := m (s - 1))) (s - 1 - 1 - of_nat l)"
      using Suc.IH [of l "d - 1" "s - 1"] Suc.prems(1,2) Suc by simp
    moreover have "d - 1 \<noteq> s - 1 - 1 - of_nat l" using Suc.prems(3) [of 0 "Suc l"] Suc.prems(2) Suc by (simp add: algebra_simps)
    moreover have "d - 1 - of_nat k = d - 1 - 1 - of_nat l" "s - 1 - of_nat k = s - 1 - 1 - of_nat l"
      using \<open>k = Suc l\<close> by (simp_all only: of_nat_Suc) (simp_all add: algebra_simps)
    ultimately show ?thesis by (simp only: copy_down.simps fun_upd_apply) simp
  qed
qed simp

lemma memcpy_outside: "\<not> a - d < n \<Longrightarrow> memcpy d s n m a = m a"
  using copy_up_outside [of d "unat n" a] unat_below [of n] by (simp add: memcpy_def in_range_def word_less_nat_alt)

lemma memcpy_apart:
  assumes "\<And>k. k < unat n \<Longrightarrow> \<not> s + of_nat k - d < n" and "a - d < n"
  shows "memcpy d s n m a = m (s + (a - d))"
proof -
  let ?k = "unat (a - d)"
  have k: "?k < unat n" "a = d + of_nat ?k" using assms(2) by (simp_all add: word_less_nat_alt)
  have "d + of_nat i \<noteq> s + of_nat j" if "i < j" "j < unat n" for i j
  proof
    assume "d + of_nat i = s + of_nat j"
    then have e: "s + of_nat j - d = (of_nat i :: u64)" by (metis add_diff_cancel_left')
    have "unat (of_nat i :: u64) = i" using that unat_below [of n] by (simp add: unat_of_nat)
    then have "s + of_nat j - d < n" using that unfolding e by (simp add: word_less_nat_alt)
    then show False using assms(1) [OF that(2)] by simp
  qed
  then have "copy_up (unat n) d s m (d + of_nat ?k) = m (s + of_nat ?k)"
    using copy_up_value [of "unat n" ?k d s m] k(1) unat_below [of n] by simp
  then show ?thesis using k(2) by (simp add: memcpy_def)
qed

lemma set_up_eq: "n < 2 ^ 64 \<Longrightarrow> set_up n p c m a = (if in_range p n a then c else m a)"
  by (induction n arbitrary: p m) (auto simp: in_range_Suc)

lemma memset_eq: "memset p c n m a = (if a - p < n then ucast c else m a)"
  using unat_below [of n] by (simp add: memset_def set_up_eq in_range_def word_less_nat_alt)

text \<open>\<open>cstring m p xs\<close>: the characters \<open>xs\<close> and a terminating zero are at \<open>p\<close>.\<close>

fun cstring :: "memory \<Rightarrow> ptr \<Rightarrow> u8 list \<Rightarrow> bool" where
  "cstring m p [] \<longleftrightarrow> m p = 0"
| "cstring m p (x # xs) \<longleftrightarrow> x \<noteq> 0 \<and> m p = x \<and> cstring m (p + 1) xs"

lemma strlen_loop_ok: "cstring m p xs \<Longrightarrow> strlen_loop m p r = Some (r + of_nat (length xs))"
proof (induction xs arbitrary: p r)
  case Nil
  then show ?case by (simp add: strlen_loop.simps)
next
  case (Cons x xs)
  then have "strlen_loop m (p + 1) (r + 1) = Some (r + 1 + of_nat (length xs))" by simp
  then show ?case using Cons.prems by (subst strlen_loop.simps) (simp add: algebra_simps)
qed

lemma strlen_ok: "cstring m p xs \<Longrightarrow> strlen m p = Some (of_nat (length xs))"
  by (simp add: strlen_def strlen_loop_ok)

text \<open>\<^verbatim>\<open>strrchr\<close> from the end of a string, over the reversed characters that are left.\<close>

lemma strrchr_loop_ok:
  assumes "\<And>k. k < length xs \<Longrightarrow> m (p + of_nat k) = xs ! k" and "p \<noteq> 0" and "unat p + length xs < 2 ^ 64"
    and "xs \<noteq> []"
  shows "strrchr_loop m p c (p + of_nat (length xs - 1))
    = Some (if c \<in> set xs then p + of_nat (length xs - 1 - length (takeWhile (\<lambda>x. x \<noteq> c) (rev xs))) else NULL)"
  using assms
proof (induction xs rule: rev_induct)
  case (snoc x xs)
  let ?e = "p + of_nat (length xs)"
  have last: "m ?e = x" using snoc.prems(1) [of "length xs"] by simp
  show ?case
  proof (cases "x = c")
    case True
    then show ?thesis using last by (simp add: strrchr_loop.simps)
  next
    case False
    have step: "strrchr_loop m p c ?e = (if ?e - 1 \<ge> p then strrchr_loop m p c (?e - 1) else Some NULL)"
      using False last by (subst strrchr_loop.simps) (simp add: Let_def)
    show ?thesis
    proof (cases "xs = []")
      case True
      have "\<not> p \<le> p - 1" using snoc.prems(2) by (simp add: word_le_nat_alt unat_sub_if' unat_gt_0 Suc_le_eq flip: not_less)
      then show ?thesis using step True False by simp
    next
      case nonempty: False
      then have e: "?e - 1 = p + of_nat (length xs - 1)" by (cases xs) simp_all
      have "unat (p + of_nat (length xs - 1)) = unat p + (length xs - 1)"
        using snoc.prems(3) by (simp add: unat_word_ariths(1) unat_of_nat)
      then have le: "p \<le> p + of_nat (length xs - 1)" by (simp add: word_le_nat_alt)
      have "strrchr_loop m p c (p + of_nat (length xs - 1))
          = Some (if c \<in> set xs then p + of_nat (length xs - 1 - length (takeWhile (\<lambda>x. x \<noteq> c) (rev xs))) else NULL)"
        using snoc.IH snoc.prems nonempty by (simp add: nth_append)
      then show ?thesis using step le False unfolding e by simp
    qed
  qed
qed simp

lemma sint_u8_eq: "sint (x :: u8) = sint (y :: u8) \<longleftrightarrow> x = y"
  by (auto intro: signed_word_eqI)

lemma strcmp_ok: "cstring m p xs \<Longrightarrow> cstring m q ys \<Longrightarrow> \<exists>r. strcmp m p q = Some r \<and> (r = 0 \<longleftrightarrow> xs = ys)"
proof (induction xs arbitrary: p q ys)
  case Nil
  then show ?case using sint_u8_eq [of "m q" 0] by (cases ys) (auto simp: strcmp.simps)
next
  case (Cons x xs)
  show ?case
  proof (cases "m q = x")
    case True
    then obtain zs where ys: "ys = x # zs" "cstring m (q + 1) zs" using Cons.prems by (cases ys) auto
    then obtain r where "strcmp m (p + 1) (q + 1) = Some r" "r = 0 \<longleftrightarrow> xs = zs" using Cons by fastforce
    then show ?thesis using Cons.prems True ys by (subst strcmp.simps) simp
  next
    case False
    then have "ys \<noteq> x # xs" using Cons.prems by auto
    then show ?thesis using Cons.prems False by (subst strcmp.simps) (auto simp: sint_u8_eq)
  qed
qed

section \<open>Properties\<close>

text \<open>
  \<^verbatim>\<open>memmove\<close> of two regions that do not run over the end of the address space, and may overlap in any
  way, puts at the destination the bytes the source held before, and changes nothing else.
\<close>

theorem memmove_moves:
  assumes "unat dest + unat n \<le> 2 ^ 64" and "unat src + unat n \<le> 2 ^ 64"
  shows "(\<forall>k < unat n. memmove dest src n m (dest + of_nat k) = m (src + of_nat k))
    \<and> (\<forall>a. \<not> a - dest < n \<longrightarrow> memmove dest src n m a = m a)"
proof (cases "dest < src")
  case True
  have "dest + of_nat i \<noteq> src + of_nat j" if "i < j" "j < unat n" for i j
  proof -
    have "unat (dest + of_nat i) = unat dest + i" "unat (src + of_nat j) = unat src + j"
      using that assms by (simp_all add: unat_word_ariths(1) unat_of_nat)
    then show ?thesis using True that by (simp add: word_less_nat_alt) (metis add_less_mono less_irrefl_nat)
  qed
  then show ?thesis using True copy_up_value [of "unat n" _ dest src m] copy_up_outside [of dest "unat n" _ src m] unat_below [of n]
    by (simp add: memmove_def in_range_def word_less_nat_alt)
next
  case False
  have rev: "dest + of_nat k = dest + n - 1 - of_nat (unat n - 1 - k)" "src + of_nat k = src + n - 1 - of_nat (unat n - 1 - k)"
    if "k < unat n" for k
  proof -
    have "(of_nat (unat n - 1 - k) :: u64) = n - 1 - of_nat k"
      using that by (simp add: of_nat_diff)
    then show "dest + of_nat k = dest + n - 1 - of_nat (unat n - 1 - k)" "src + of_nat k = src + n - 1 - of_nat (unat n - 1 - k)"
      by (simp_all add: algebra_simps)
  qed
  have "dest + n - 1 - of_nat i \<noteq> src + n - 1 - of_nat j" if "i < j" "j < unat n" for i j
  proof -
    have add: "unat (p + of_nat l) = unat p + l" if "l < unat n" "unat p + unat n \<le> 2 ^ 64" for p :: ptr and l
      using that by (simp add: unat_word_ariths(1) unat_of_nat)
    have u: "unat (dest + of_nat (unat n - 1 - i)) = unat dest + (unat n - 1 - i)"
      "unat (src + of_nat (unat n - 1 - j)) = unat src + (unat n - 1 - j)"
      by (rule add; use that assms in linarith)+
    have "unat n - 1 - j < unat n - 1 - i" "unat src \<le> unat dest" using that False by (simp_all add: word_less_nat_alt)
    then have "dest + of_nat (unat n - 1 - i) \<noteq> src + of_nat (unat n - 1 - j)" using u by (metis add_mono_thms_linordered_field(4) less_irrefl_nat)
    moreover have "unat n - 1 - (unat n - 1 - i) = i" "unat n - 1 - (unat n - 1 - j) = j" using that by linarith+
    ultimately show ?thesis using rev [of "unat n - 1 - i"] rev [of "unat n - 1 - j"] that by simp
  qed
  then have "copy_down (unat n) (dest + n) (src + n) m (dest + of_nat k) = m (src + of_nat k)" if "k < unat n" for k
    using copy_down_value [of "unat n" "unat n - 1 - k" "dest + n" "src + n" m] that unat_below [of n] unfolding rev [OF that] by simp
  then show ?thesis using False copy_down_outside [of "dest + n" "unat n" _ "src + n" m] unat_below [of n]
    by (simp add: memmove_def in_range_def word_less_nat_alt)
qed

lemma memmove_moves_witness: "memmove 0x11 0x10 2 (\<lambda>a. ucast a) 0x12 = 0x11"
proof -
  have "\<forall>k < unat (2 :: u64). memmove 0x11 0x10 2 (\<lambda>a. ucast a) (0x11 + of_nat k) = (ucast (0x10 + of_nat k :: u64) :: u8)"
    using memmove_moves [of "0x11" 2 "0x10" "\<lambda>a. ucast a"] by simp
  from this [rule_format, of 1] show ?thesis by simp
qed

text \<open>C20: \<^verbatim>\<open>strcmp\<close> of two strings ends, and its result is 0 exactly when they have the same characters.\<close>

theorem strcmp_decides:
  assumes "cstring m s1 xs" and "cstring m s2 ys"
  shows "\<exists>r. strcmp m s1 s2 = Some r \<and> (r = 0 \<longleftrightarrow> xs = ys)"
  using strcmp_ok [OF assms] .

lemma strcmp_decides_witness:
  "\<exists>r. strcmp (\<lambda>a. if a = 1 \<or> a = 5 then 7 else 0) 1 5 = Some r \<and> r = 0"
  using strcmp_decides [of "\<lambda>a. if a = 1 \<or> a = 5 then 7 else 0" 1 "[7]" 5 "[7]"] by simp

end
