(* ===== verification/UserCopy.thy ===== *)
theory UserCopy
  imports Vmm CString
begin

text \<open>
  The kernel writing into the address space of a process (\<^verbatim>\<open>vmm_copy_to\<close>, \<^verbatim>\<open>vmm_clear\<close> of
  \<^verbatim>\<open>kernel/mm/vmm.c\<close>), page by page through the physical map.
\<close>

section \<open>Operations\<close>

text \<open>
  The loop of the two functions, with \<open>f i dst n\<close> what they do at \<open>dst\<close> with \<open>n\<close> bytes, after \<open>i\<close> bytes
  have been done.  \<open>False\<close> is the way out through \<^verbatim>\<open>err1\<close>.
\<close>

partial_function (option) user_loop ::
  "ptr \<Rightarrow> (u64 \<Rightarrow> ptr \<Rightarrow> u64 \<Rightarrow> (ptr \<Rightarrow> u8) \<Rightarrow> ptr \<Rightarrow> u8) \<Rightarrow> u64 \<Rightarrow> u64 \<Rightarrow> u64
     \<Rightarrow> 'a vmm_state_scheme \<Rightarrow> (bool \<times> 'a vmm_state_scheme) option" where
  "user_loop proc f i virt sz s =
     (if sz > 0 then
        let off = virt AND NOT PAGE_MASK;
            n = min sz (PAGE_SIZE - off)
        in do {
          (r, phys, s) \<leftarrow> vmm_arch_proc_translate proc (virt - off) s;
          if r \<noteq> 0 then Some (False, s)
          else do {
            phys \<leftarrow> vmm_provide_phys phys;
            user_loop proc f (i + n) (virt + n) (sz - n) (s\<lparr>mem := f i (phys + off) n (mem s)\<rparr>)
          }
        }
      else Some (True, s))"

definition vmm_copy_to ::
  "ptr \<Rightarrow> u64 \<Rightarrow> ptr \<Rightarrow> u64 \<Rightarrow> 'a vmm_state_scheme \<Rightarrow> (int outcome \<times> 'a vmm_state_scheme) option" where
  "vmm_copy_to proc virt data sz s =
     (if proc = NULL then None
      else with_mutex (VMM_MUTEX proc) (\<lambda>s. do {
        (ok, s) \<leftarrow> user_loop proc (\<lambda>i dst n. memcpy dst (data + i) n) 0 virt sz s;
        Some (if ok then 0 else -1, s)
      }) s)"

definition vmm_clear :: "ptr \<Rightarrow> u64 \<Rightarrow> u64 \<Rightarrow> 'a vmm_state_scheme \<Rightarrow> (int outcome \<times> 'a vmm_state_scheme) option" where
  "vmm_clear proc virt sz s =
     (if proc = NULL then None
      else with_mutex (VMM_MUTEX proc) (\<lambda>s. do {
        (ok, s) \<leftarrow> user_loop proc (\<lambda>i dst n. memset dst 0 n) 0 virt sz s;
        Some (if ok then 0 else -1, s)
      }) s)"

section \<open>The bytes of an address space\<close>

text \<open>Where the kernel sees the byte at a user address.\<close>

definition byte_addr :: "(ptr \<Rightarrow> nat \<Rightarrow> u64) \<Rightarrow> ptr \<Rightarrow> u64 \<Rightarrow> ptr option" where
  "byte_addr pt r v = (case translate pt r v of None \<Rightarrow> None | Some (p, w) \<Rightarrow> Some (PHYS_MAP_BASE + p + (v AND 0xfff)))"

lemma translate_page_base:
  assumes "page_of v = page_of v'" and "user_addr v" and "user_addr v'"
  shows "translate pt r v = translate pt r v'"
  using indices_page [OF assms(2,3)] assms(1) by (simp add: translate_def)

text \<open>One turn of the loop: the bytes up to the end of the page.\<close>

lemma chunk:
  assumes sz: "sz \<noteq> 0" and lim: "unat virt + unat sz \<le> 2 ^ 47"
  defines "off \<equiv> virt AND NOT PAGE_MASK" and "n \<equiv> min sz (PAGE_SIZE - (virt AND NOT PAGE_MASK))"
  shows "unat n = min (unat sz) (4096 - unat virt mod 4096)" and "n \<noteq> 0" and "unat off = unat virt mod 4096"
    and "unat (virt - off) = unat virt - unat virt mod 4096"
    and "unat (virt + n) = unat virt + unat n" and "unat (sz - n) = unat sz - unat n"
    and "\<And>k. k < unat n \<Longrightarrow> page_of (virt + of_nat k) = page_of virt \<and> user_addr (virt + of_nat k)
       \<and> (virt + of_nat k) AND 0xfff = off + of_nat k"
proof -
  show o: "unat off = unat virt mod 4096" by (simp add: off_def unat_and_fff)
  have m: "unat virt mod 4096 < 4096" by simp
  have d: "unat (PAGE_SIZE - off) = 4096 - unat virt mod 4096"
    using o m by (simp add: unat_sub_if')
  show n: "unat n = min (unat sz) (4096 - unat virt mod 4096)"
    unfolding n_def off_def [symmetric] using d by (simp add: min_def word_le_nat_alt)
  have "0 < unat sz" using sz by (simp add: unat_gt_0)
  then have "0 < unat n" unfolding n using m by simp
  then show "n \<noteq> 0" by auto
  show "unat (virt - off) = unat virt - unat virt mod 4096"
    using o by (simp add: unat_sub_if')
  have le: "unat n \<le> unat sz" unfolding n by simp
  show "unat (virt + n) = unat virt + unat n" using lim le by (simp add: unat_word_ariths(1))
  show "unat (sz - n) = unat sz - unat n" using le by (simp add: unat_sub_if')
  fix k assume k: "k < unat n"
  have uk: "unat (of_nat k :: u64) = k" using k lim le by (simp add: unat_of_nat)
  have uv: "unat (virt + of_nat k) = unat virt + k" using k lim le uk by (simp add: unat_word_ariths(1))
  have q: "unat virt = 4096 * page_of virt + unat virt mod 4096" by simp
  have "k < 4096 - unat virt mod 4096" using k unfolding n by simp
  then have r: "unat virt mod 4096 + k < 4096" by linarith
  have "unat virt + k = 4096 * page_of virt + (unat virt mod 4096 + k)" using q by linarith
  then have dm: "(unat virt + k) div 4096 = page_of virt" "(unat virt + k) mod 4096 = unat virt mod 4096 + k"
    using r by (simp_all only: div_mult_self4 mod_mult_self4) simp_all
  have "unat (off + of_nat k) = unat virt mod 4096 + k" using r o uk by (simp add: unat_word_ariths(1))
  then have "unat ((virt + of_nat k) AND 0xfff) = unat (off + of_nat k)" by (simp only: unat_and_fff uv dm(2))
  then show "page_of (virt + of_nat k) = page_of virt \<and> user_addr (virt + of_nat k) \<and> (virt + of_nat k) AND 0xfff = off + of_nat k"
    using dm(1) k lim le by (simp add: uv user_addr_def word_less_nat_alt word_unat_eq_iff)
qed

lemma translate_usable:
  assumes ok: "tables_ok pt R U" and r: "r \<in> R" and v: "user_addr v" and t: "translate pt r v = Some (p, w)"
  shows "usable_page p"
proof -
  obtain t where "follow pt r [PD_INDEX v, PDP_INDEX v, PML4_INDEX v] = Some t" "pt (PHYS_MAP_BASE + t) (PT_INDEX v) \<noteq> 0"
    "p = pt (PHYS_MAP_BASE + t) (PT_INDEX v) AND PAGE_MASK"
    using t unfolding translate_def by (auto simp: Let_def simp del: follow.simps split: option.splits if_splits)
  then show ?thesis using tables_rights [OF ok r user_path_steps(4) [OF v]] by (simp add: entry_rights_def del: follow.simps)
qed

definition range_addrs :: "(ptr \<Rightarrow> nat \<Rightarrow> u64) \<Rightarrow> ptr \<Rightarrow> u64 \<Rightarrow> u64 \<Rightarrow> ptr set" where
  "range_addrs pt r virt sz = {a. \<exists>k < unat sz. byte_addr pt r (virt + of_nat k) = Some a}"

lemma byte_addr_chunk:
  assumes "sz \<noteq> 0" and "unat virt + unat sz \<le> 2 ^ 47" and "k < unat (min sz (PAGE_SIZE - (virt AND NOT PAGE_MASK)))"
  shows "byte_addr pt r (virt + of_nat k) = (case translate pt r (virt - (virt AND NOT PAGE_MASK)) of
     None \<Rightarrow> None | Some (p, w) \<Rightarrow> Some (PHYS_MAP_BASE + p + (virt AND NOT PAGE_MASK) + of_nat k))"
proof -
  note c = chunk [OF assms(1,2)]
  have k: "page_of (virt + of_nat k) = page_of virt" "user_addr (virt + of_nat k)"
    "(virt + of_nat k) AND 0xfff = (virt AND NOT PAGE_MASK) + of_nat k" using c(7) [OF assms(3)] by blast+
  have b: "page_of (virt - (virt AND NOT PAGE_MASK)) = page_of virt" unfolding c(4) by (simp add: minus_mod_eq_mult_div)
  have "user_addr virt" using assms(1,2) by (simp add: user_addr_def word_less_nat_alt) (metis unat_gt_0 add_less_cancel_left less_le_trans add.right_neutral)
  then have "user_addr (virt - (virt AND NOT PAGE_MASK))" using c(4) by (simp add: user_addr_def word_less_nat_alt)
  then have "translate pt r (virt + of_nat k) = translate pt r (virt - (virt AND NOT PAGE_MASK))"
    using k b translate_page_base by simp
  then show ?thesis unfolding byte_addr_def k(3) by (simp add: add.assoc split: option.split)
qed

text \<open>\<open>stays_inside f\<close>: \<open>f\<close> changes nothing outside the bytes it is called for.\<close>

definition stays_inside :: "(u64 \<Rightarrow> ptr \<Rightarrow> u64 \<Rightarrow> memory \<Rightarrow> memory) \<Rightarrow> bool" where
  "stays_inside f \<longleftrightarrow> (\<forall>i dst n m a. \<not> a - dst < n \<longrightarrow> f i dst n m a = m a)"

text \<open>
  \<open>fills f g i sz A\<close>: what \<open>f\<close> does to a chunk inside \<open>A\<close> is to put the bytes \<open>g\<close> of the memory there, and these do
  not depend on the memory in \<open>A\<close>; \<open>sz\<close> bytes are to be done, from the \<open>i\<close>-th on.
\<close>

definition fills ::
  "(u64 \<Rightarrow> ptr \<Rightarrow> u64 \<Rightarrow> memory \<Rightarrow> memory) \<Rightarrow> (memory \<Rightarrow> u64 \<Rightarrow> u8) \<Rightarrow> u64 \<Rightarrow> u64 \<Rightarrow> ptr set \<Rightarrow> bool" where
  "fills f g i sz A \<longleftrightarrow>
     (\<forall>m m'. (\<forall>a. a \<notin> A \<longrightarrow> m a = m' a) \<longrightarrow> (\<forall>k < unat sz. g m (i + of_nat k) = g m' (i + of_nat k)))
     \<and> (\<forall>c dst n m a. c + unat n \<le> unat sz \<longrightarrow> (\<forall>k < unat n. dst + of_nat k \<in> A) \<longrightarrow> a - dst < n
          \<longrightarrow> f (i + of_nat c) dst n m a = g m (i + of_nat c + (a - dst)))"

lemma fillsD:
  assumes "fills f g i sz A"
  shows "(\<And>a. a \<notin> A \<Longrightarrow> m a = m' a) \<Longrightarrow> k < unat sz \<Longrightarrow> g m (i + of_nat k) = g m' (i + of_nat k)"
    and "unat n \<le> unat sz \<Longrightarrow> (\<And>k. k < unat n \<Longrightarrow> dst + of_nat k \<in> A) \<Longrightarrow> a - dst < n \<Longrightarrow> f i dst n m a = g m (i + (a - dst))"
proof -
  show "g m (i + of_nat k) = g m' (i + of_nat k)" if "\<And>a. a \<notin> A \<Longrightarrow> m a = m' a" "k < unat sz"
    using assms that unfolding fills_def by blast
  show "f i dst n m a = g m (i + (a - dst))" if "unat n \<le> unat sz" "\<And>k. k < unat n \<Longrightarrow> dst + of_nat k \<in> A" "a - dst < n"
    using conjunct2 [OF assms [unfolded fills_def], rule_format, of 0 n dst a m] that by simp
qed

lemma fills_rest:
  assumes f: "fills f g i sz A" and sub: "A' \<subseteq> A" and n: "unat n \<le> unat sz"
  shows "fills f g (i + n) (sz - n) A'"
proof -
  have sh: "i + n + of_nat k = i + of_nat (unat n + k)" for k by (simp add: algebra_simps)
  have d: "unat (sz - n) = unat sz - unat n" using n by (simp add: unat_sub_if')
  have "g m (i + n + of_nat k) = g m' (i + n + of_nat k)" if "\<forall>a. a \<notin> A' \<longrightarrow> m a = m' a" "k < unat (sz - n)" for m m' k
  proof -
    have "unat n + k < unat sz" using that(2) d n by linarith
    moreover have "m a = m' a" if "a \<notin> A" for a using that \<open>\<forall>a. a \<notin> A' \<longrightarrow> m a = m' a\<close> sub by blast
    ultimately show ?thesis unfolding sh using fillsD(1) [OF f] by blast
  qed
  moreover have "f (i + n + of_nat c) dst l m a = g m (i + n + of_nat c + (a - dst))"
    if "c + unat l \<le> unat (sz - n)" "\<forall>k < unat l. dst + of_nat k \<in> A'" "a - dst < l" for c dst l m a
  proof -
    have "unat n + c + unat l \<le> unat sz" using that(1) d n by linarith
    moreover have "\<forall>k < unat l. dst + of_nat k \<in> A" using that(2) sub by blast
    ultimately show ?thesis unfolding sh
      using conjunct2 [OF f [unfolded fills_def], rule_format, of "unat n + c" l dst a m] that(3) by blast
  qed
  ultimately show ?thesis unfolding fills_def by blast
qed

lemma user_loop_ok:
  assumes f: "stays_inside f"
    and sp: "spaces_ok s Ob R U" and r: "r = proc_cr3 proc s" "r \<in> R" and lim: "unat virt + unat sz \<le> 2 ^ 47"
  shows "\<exists>ok m. user_loop proc f i virt sz s = Some (ok, s\<lparr>mem := m\<rparr>)
    \<and> (ok \<longleftrightarrow> (\<forall>k < unat sz. byte_addr (ptes s) r (virt + of_nat k) \<noteq> None))
    \<and> (\<forall>a. a \<notin> range_addrs (ptes s) r virt sz \<longrightarrow> m a = mem s a)
    \<and> (ok \<and> inj_on (\<lambda>k. byte_addr (ptes s) r (virt + of_nat k)) {..< unat sz} \<and> fills f g i sz (range_addrs (ptes s) r virt sz)
      \<longrightarrow> (\<forall>k < unat sz. \<forall>a. byte_addr (ptes s) r (virt + of_nat k) = Some a \<longrightarrow> m a = g (mem s) (i + of_nat k)))"
  using sp r lim
proof (induction "unat sz" arbitrary: sz virt i s rule: less_induct)
  case less
  show ?case
  proof (cases "sz = 0")
    case True
    then show ?thesis by (intro exI [of _ True] exI [of _ "mem s"]) (simp add: user_loop.simps range_addrs_def)
  next
    case False
    let ?off = "virt AND NOT PAGE_MASK"
    let ?n = "min sz (PAGE_SIZE - ?off)"
    note c = chunk [OF False less.prems(4)] and ba = byte_addr_chunk [OF False less.prems(4), of _ "ptes s" r]
    have n: "unat ?n \<le> unat sz" "0 < unat ?n" using c(1,2) False by (simp_all add: unat_gt_0)
    have va: "user_addr (virt - ?off)" using c(4) n less.prems(4) by (simp add: user_addr_def word_less_nat_alt)
    note tr = proc_translate_ok [OF less.prems(1) _ va, of proc, folded less.prems(2), OF less.prems(3)]
    show ?thesis
    proof (cases "translate (ptes s) r (virt - ?off)")
      case None
      have "byte_addr (ptes s) r (virt + of_nat 0) = None" using ba [OF n(2)] None by simp
      then have "\<exists>k. k < unat sz \<and> byte_addr (ptes s) r (virt + of_nat k) = None" using n by (intro exI [of _ 0]) simp
      then have "\<not> (\<forall>k < unat sz. byte_addr (ptes s) r (virt + of_nat k) \<noteq> None)" by blast
      moreover have "user_loop proc f i virt sz s = Some (False, s)"
        using tr None False by (subst user_loop.simps) (simp add: Let_def word_gt_0)
      ultimately show ?thesis by (intro exI [of _ False] exI [of _ "mem s"]) simp
    next
      case (Some pw)
      obtain p w where pw: "pw = (p, w)" by (cases pw)
      let ?dst = "PHYS_MAP_BASE + p + ?off"
      let ?s = "s\<lparr>mem := f i ?dst ?n (mem s)\<rparr>"
      have "usable_page p" using translate_usable [OF _ less.prems(3) va] less.prems(1) Some pw by blast
      then have step: "user_loop proc f i virt sz s = user_loop proc f (i + ?n) (virt + ?n) (sz - ?n) ?s"
        using tr Some False pw usable_provide by (subst user_loop.simps) (simp add: Let_def word_gt_0)
      have fewer: "unat (sz - ?n) < unat sz" using c(6) n by simp
      have sp1: "spaces_ok ?s Ob R U" "r = proc_cr3 proc ?s" "unat (virt + ?n) + unat (sz - ?n) \<le> 2 ^ 47"
        using less.prems c(5,6) n by (simp_all add: proc_cr3_def)
      have shift: "virt + ?n + of_nat k = virt + of_nat (unat ?n + k)" "i + ?n + of_nat k = i + of_nat (unat ?n + k)" for k
        by (simp_all add: algebra_simps)
      have first: "byte_addr (ptes s) r (virt + of_nat k) = Some (?dst + of_nat k)" if "k < unat ?n" for k
        using ba [OF that] Some pw by simp
      have in_chunk: "a - ?dst < ?n \<longleftrightarrow> (\<exists>k < unat ?n. a = ?dst + of_nat k)" for a
      proof
        assume "a - ?dst < ?n"
        then have "unat (a - ?dst) < unat ?n" by (simp only: word_less_nat_alt)
        then show "\<exists>k < unat ?n. a = ?dst + of_nat k" by (intro exI [of _ "unat (a - ?dst)"]) (simp add: algebra_simps)
      next
        assume "\<exists>k < unat ?n. a = ?dst + of_nat k"
        then obtain k where k: "k < unat ?n" "a - ?dst = of_nat k" by auto
        have "unat (of_nat k :: u64) = k" using k(1) n less.prems(4) by (simp add: unat_of_nat)
        then show "a - ?dst < ?n" using k by (simp only: word_less_nat_alt)
      qed
      have rest: "byte_addr (ptes s) r (virt + ?n + of_nat k) = byte_addr (ptes s) r (virt + of_nat (unat ?n + k))" for k
        by (simp only: shift)
      have split_k: "(\<forall>k < unat sz. Q k) \<longleftrightarrow> (\<forall>k < unat ?n. Q k) \<and> (\<forall>k < unat (sz - ?n). Q (unat ?n + k))" for Q
      proof (intro iffI conjI allI impI)
        assume q: "\<forall>k < unat sz. Q k"
        fix k
        show "Q k" if "k < unat ?n" using q that n(1) by simp
        show "Q (unat ?n + k)" if "k < unat (sz - ?n)" using q that n(1) c(6) by simp
      next
        fix k assume q: "(\<forall>k < unat ?n. Q k) \<and> (\<forall>k < unat (sz - ?n). Q (unat ?n + k))" and k: "k < unat sz"
        then have "k < unat ?n \<or> (k - unat ?n < unat (sz - ?n) \<and> k = unat ?n + (k - unat ?n))" using c(6) n(1) by linarith
        then show "Q k" using q by metis
      qed
      have pe: "ptes ?s = ptes s" by simp
      have within: "unat ?n + k < unat sz" if "k < unat (sz - ?n)" for k using that c(6) n(1) by linarith
      obtain ok m where IH: "user_loop proc f (i + ?n) (virt + ?n) (sz - ?n) ?s = Some (ok, ?s\<lparr>mem := m\<rparr>)"
        "ok \<longleftrightarrow> (\<forall>k < unat (sz - ?n). byte_addr (ptes s) r (virt + ?n + of_nat k) \<noteq> None)"
        "\<forall>a. a \<notin> range_addrs (ptes s) r (virt + ?n) (sz - ?n) \<longrightarrow> m a = mem ?s a"
        "ok \<and> inj_on (\<lambda>k. byte_addr (ptes s) r (virt + ?n + of_nat k)) {..< unat (sz - ?n)}
          \<and> fills f g (i + ?n) (sz - ?n) (range_addrs (ptes s) r (virt + ?n) (sz - ?n))
         \<longrightarrow> (\<forall>k < unat (sz - ?n). \<forall>a. byte_addr (ptes s) r (virt + ?n + of_nat k) = Some a \<longrightarrow> m a = g (mem ?s) (i + ?n + of_nat k))"
        using less.hyps [OF fewer sp1(1,2) less.prems(3) sp1(3), of "i + ?n"] unfolding pe by blast
      have sub: "range_addrs (ptes s) r (virt + ?n) (sz - ?n) \<subseteq> range_addrs (ptes s) r virt sz"
      proof
        fix a assume "a \<in> range_addrs (ptes s) r (virt + ?n) (sz - ?n)"
        then obtain k where k: "k < unat (sz - ?n)" "byte_addr (ptes s) r (virt + of_nat (unat ?n + k)) = Some a"
          unfolding range_addrs_def rest by blast
        then have "unat ?n + k < unat sz" using c(6) n(1) by simp
        then show "a \<in> range_addrs (ptes s) r virt sz" using k(2) unfolding range_addrs_def by blast
      qed
      have chunk_in: "a \<in> range_addrs (ptes s) r virt sz" if near: "a - ?dst < ?n" for a
      proof -
        obtain k where k: "k < unat ?n" "a = ?dst + of_nat k" using iffD1 [OF in_chunk near] by blast
        then have "byte_addr (ptes s) r (virt + of_nat k) = Some a" using first by simp
        moreover have "k < unat sz" using k(1) n(1) by linarith
        ultimately show ?thesis unfolding range_addrs_def by blast
      qed
      have kept: "mem ?s a = mem s a" if "\<not> a - ?dst < ?n" for a using f that by (simp add: stays_inside_def)
      have "m a = mem s a" if "a \<notin> range_addrs (ptes s) r virt sz" for a
      proof -
        have "a \<notin> range_addrs (ptes s) r (virt + ?n) (sz - ?n)" using that sub by blast
        then have "m a = mem ?s a" using IH(3) by blast
        moreover have "\<not> a - ?dst < ?n" using that chunk_in by blast
        ultimately show ?thesis using kept by simp
      qed
      moreover have "ok \<longleftrightarrow> (\<forall>k < unat sz. byte_addr (ptes s) r (virt + of_nat k) \<noteq> None)"
        unfolding split_k using first IH(2) by (simp only: rest option.distinct) simp
      moreover have "\<forall>k < unat sz. \<forall>a. byte_addr (ptes s) r (virt + of_nat k) = Some a \<longrightarrow> m a = g (mem s) (i + of_nat k)"
        if okk: "ok" and inj: "inj_on (\<lambda>k. byte_addr (ptes s) r (virt + of_nat k)) {..< unat sz}"
          and fl: "fills f g i sz (range_addrs (ptes s) r virt sz)"
        unfolding split_k
      proof (intro conjI allI impI)
        fix k a assume k: "k < unat ?n" and "byte_addr (ptes s) r (virt + of_nat k) = Some a"
        then have a: "a = ?dst + of_nat k" using first by simp
        have "a \<notin> range_addrs (ptes s) r (virt + ?n) (sz - ?n)"
        proof
          assume "a \<in> range_addrs (ptes s) r (virt + ?n) (sz - ?n)"
          then obtain l where l: "l < unat (sz - ?n)" "byte_addr (ptes s) r (virt + of_nat (unat ?n + l)) = Some a"
            unfolding range_addrs_def rest by blast
          have "unat ?n + l < unat sz" "k < unat sz" using l(1) k c(6) n(1) by linarith+
          then have "unat ?n + l = k" using inj_onD [OF inj, of "unat ?n + l" k] first [OF k] l(2) a
            by (simp only: lessThan_iff)
          then show False using k by simp
        qed
        then have "m a = mem ?s a" using IH(3) by blast
        moreover have "f i ?dst ?n (mem s) a = g (mem s) (i + (a - ?dst))"
          by (rule fillsD(2) [OF fl n(1)]) (use chunk_in in_chunk k a in blast)+
        ultimately show "m a = g (mem s) (i + of_nat k)" using a by simp
      next
        fix k a assume k: "k < unat (sz - ?n)" and a: "byte_addr (ptes s) r (virt + of_nat (unat ?n + k)) = Some a"
        have "inj_on (\<lambda>k. byte_addr (ptes s) r (virt + ?n + of_nat k)) {..< unat (sz - ?n)}"
          unfolding rest
        proof (rule inj_onI)
          fix x y assume "x \<in> {..< unat (sz - ?n)}" "y \<in> {..< unat (sz - ?n)}"
            "byte_addr (ptes s) r (virt + of_nat (unat ?n + x)) = byte_addr (ptes s) r (virt + of_nat (unat ?n + y))"
          then show "x = y" using inj_onD [OF inj, of "unat ?n + x" "unat ?n + y"] c(6) n(1) by simp
        qed
        moreover note fills_rest [OF fl sub n(1)]
        ultimately have "m a = g (mem ?s) (i + ?n + of_nat k)" using IH(4) okk k a unfolding rest by blast
        moreover have "\<forall>a. a \<notin> range_addrs (ptes s) r virt sz \<longrightarrow> mem ?s a = mem s a" using chunk_in kept by metis
        then have "g (mem ?s) (i + of_nat (unat ?n + k)) = g (mem s) (i + of_nat (unat ?n + k))"
          using fillsD(1) [OF fl] within [OF k] by blast
        ultimately show "m a = g (mem s) (i + of_nat (unat ?n + k))" by (simp only: shift)
      qed
      ultimately show ?thesis using step IH(1) by (intro exI [of _ ok] exI [of _ m]) simp
    qed
  qed
qed

lemma mem_section:
  assumes ok: "vmm_ok s Ob R U P" and p: "proc \<in> P" and u: "uncontended s (VMM_MUTEX proc)" and lim: "unat virt + unat sz \<le> 2 ^ 47"
    and f: "stays_inside f"
  shows "\<exists>ok m. with_mutex (VMM_MUTEX proc) (\<lambda>s. do {
        (ok, s) \<leftarrow> user_loop proc f 0 virt sz s;
        Some (if ok then 0 else -1, s)
      }) s = Some (Done (if ok then 0 else -1 :: int), left (VMM_MUTEX proc) s ((entered (VMM_MUTEX proc) s)\<lparr>mem := m\<rparr>))
    \<and> vmm_ok (left (VMM_MUTEX proc) s ((entered (VMM_MUTEX proc) s)\<lparr>mem := m\<rparr>)) Ob R U P
    \<and> (ok \<longleftrightarrow> (\<forall>k < unat sz. byte_addr (ptes s) (proc_cr3 proc s) (virt + of_nat k) \<noteq> None))
    \<and> (\<forall>a. a \<notin> range_addrs (ptes s) (proc_cr3 proc s) virt sz \<longrightarrow> m a = mem s a)
    \<and> (ok \<and> inj_on (\<lambda>k. byte_addr (ptes s) (proc_cr3 proc s) (virt + of_nat k)) {..< unat sz}
        \<and> fills f g 0 sz (range_addrs (ptes s) (proc_cr3 proc s) virt sz)
      \<longrightarrow> (\<forall>k < unat sz. \<forall>a. byte_addr (ptes s) (proc_cr3 proc s) (virt + of_nat k) = Some a \<longrightarrow> m a = g (mem s) (of_nat k)))"
proof -
  let ?m = "VMM_MUTEX proc" and ?r = "proc_cr3 proc s"
  let ?e = "entered ?m s"
  have sp: "spaces_ok ?e Ob R U" and r: "?r = proc_cr3 proc ?e" "?r \<in> R"
    using vmm_ok_entered [OF ok, of ?m] vmm_ok_space [OF ok p] by (simp_all add: vmm_ok_def space_ok_def)
  have z: "0 + x = (x :: u64)" for x by simp
  have pe: "ptes ?e = ptes s" "mem ?e = mem s" by simp_all
  obtain okk m where x: "user_loop proc f 0 virt sz ?e = Some (okk, ?e\<lparr>mem := m\<rparr>)"
    "okk \<longleftrightarrow> (\<forall>k < unat sz. byte_addr (ptes s) ?r (virt + of_nat k) \<noteq> None)"
    "\<forall>a. a \<notin> range_addrs (ptes s) ?r virt sz \<longrightarrow> m a = mem s a"
    "okk \<and> inj_on (\<lambda>k. byte_addr (ptes s) ?r (virt + of_nat k)) {..< unat sz}
        \<and> fills f g 0 sz (range_addrs (ptes s) ?r virt sz)
      \<longrightarrow> (\<forall>k < unat sz. \<forall>a. byte_addr (ptes s) ?r (virt + of_nat k) = Some a \<longrightarrow> m a = g (mem s) (of_nat k))"
    using user_loop_ok [OF f sp r lim, of 0, unfolded z pe] by blast
  let ?body = "\<lambda>s. do {
        (ok, s) \<leftarrow> user_loop proc f 0 virt sz s;
        Some (if ok then 0 else -1 :: int, s)
      }"
  have run: "?body ?e = Some (if okk then 0 else -1, ?e\<lparr>mem := m\<rparr>)" using x(1) by simp
  have okm: "vmm_ok (?e\<lparr>mem := m\<rparr>) Ob R U P"
    using vmm_ok_entered [OF ok, of ?m] by (simp add: vmm_ok_def space_ok_def free_space_def map_nodes_def owns_def proc_cr3_def)
  have mx: "mutexes (?e\<lparr>mem := m\<rparr>) = mutexes ?e" by simp
  note sec = vmm_section [where body = ?body, OF ok u run okm mx]
  show ?thesis using sec x(2-4) by (intro exI [of _ okk] exI [of _ m]) blast
qed

text \<open>The two operations, with the state they leave behind.\<close>

lemma vmm_copy_to_ok:
  assumes ok: "vmm_ok s Ob R U P" and p: "proc \<in> P" and u: "uncontended s (VMM_MUTEX proc)" and lim: "unat virt + unat sz \<le> 2 ^ 47"
  shows "\<exists>okk s'. vmm_copy_to proc virt data sz s = Some (Done (if okk then 0 else -1), s') \<and> vmm_ok s' Ob R U P
    \<and> ptes s' = ptes s \<and> proc_cr3 proc s' = proc_cr3 proc s \<and> mutexes s' = mutexes s
    \<and> (okk \<longleftrightarrow> (\<forall>k < unat sz. byte_addr (ptes s) (proc_cr3 proc s) (virt + of_nat k) \<noteq> None))
    \<and> (\<forall>a. a \<notin> range_addrs (ptes s) (proc_cr3 proc s) virt sz \<longrightarrow> mem s' a = mem s a)
    \<and> (okk \<and> inj_on (\<lambda>k. byte_addr (ptes s) (proc_cr3 proc s) (virt + of_nat k)) {..< unat sz}
        \<and> (\<forall>k < unat sz. data + of_nat k \<notin> range_addrs (ptes s) (proc_cr3 proc s) virt sz)
      \<longrightarrow> (\<forall>k < unat sz. map_option (mem s') (byte_addr (ptes s) (proc_cr3 proc s) (virt + of_nat k)) = Some (mem s (data + of_nat k))))"
proof -
  let ?r = "proc_cr3 proc s"
  have nn: "proc \<noteq> NULL" using vmm_ok_space [OF ok p] by (simp add: space_ok_def)
  have call: "vmm_copy_to proc virt data sz s = with_mutex (VMM_MUTEX proc) (\<lambda>s. do {
        (ok, s) \<leftarrow> user_loop proc (\<lambda>i dst n. memcpy dst (data + i) n) 0 virt sz s;
        Some (if ok then 0 else -1, s)
      }) s" by (simp add: vmm_copy_to_def nn)
  let ?f = "\<lambda>i dst n. memcpy dst (data + i) n" and ?g = "\<lambda>m k. m (data + k)" and ?A = "range_addrs (ptes s) ?r virt sz"
  have f: "stays_inside ?f" by (simp add: stays_inside_def memcpy_outside)
  have fl: "fills ?f ?g 0 sz ?A" if src: "\<forall>k < unat sz. data + of_nat k \<notin> ?A"
    unfolding fills_def
  proof (intro conjI allI impI)
    fix m m' :: memory and k assume "\<forall>a. a \<notin> ?A \<longrightarrow> m a = m' a" "k < unat sz"
    then show "m (data + (0 + of_nat k)) = m' (data + (0 + of_nat k))" using src by simp
  next
    fix c dst n m a assume c: "c + unat n \<le> unat sz" "\<forall>k < unat n. dst + of_nat k \<in> ?A" "a - dst < n"
    have "\<not> data + (0 + of_nat c) + of_nat k - dst < n" if "k < unat n" for k
    proof
      let ?x = "data + (0 + of_nat c) + of_nat k"
      assume "?x - dst < n"
      then have "dst + of_nat (unat (?x - dst)) \<in> ?A" using c(2) by (simp only: word_less_nat_alt)
      moreover have "dst + of_nat (unat (y - dst)) = y" for y :: u64 by simp
      ultimately have "?x \<in> ?A" by (simp only:)
      moreover have "?x = data + of_nat (c + k)" "c + k < unat sz" using that c(1) by (simp_all add: algebra_simps)
      ultimately show False using src by (metis (no_types))
    qed
    then show "memcpy dst (data + (0 + of_nat c)) n m a = m (data + (0 + of_nat c + (a - dst)))"
      using memcpy_apart [of n "data + (0 + of_nat c)" dst a m] c(3) by (simp add: add.assoc)
  qed
  obtain okk m where x: "vmm_copy_to proc virt data sz s = Some (Done (if okk then 0 else -1), left (VMM_MUTEX proc) s ((entered (VMM_MUTEX proc) s)\<lparr>mem := m\<rparr>))"
    "vmm_ok (left (VMM_MUTEX proc) s ((entered (VMM_MUTEX proc) s)\<lparr>mem := m\<rparr>)) Ob R U P"
    "okk \<longleftrightarrow> (\<forall>k < unat sz. byte_addr (ptes s) ?r (virt + of_nat k) \<noteq> None)"
    "\<forall>a. a \<notin> range_addrs (ptes s) ?r virt sz \<longrightarrow> m a = mem s a"
    "okk \<and> inj_on (\<lambda>k. byte_addr (ptes s) ?r (virt + of_nat k)) {..< unat sz}
        \<and> fills (\<lambda>i dst n. memcpy dst (data + i) n) (\<lambda>m k. m (data + k)) 0 sz (range_addrs (ptes s) ?r virt sz)
      \<longrightarrow> (\<forall>k < unat sz. \<forall>a. byte_addr (ptes s) ?r (virt + of_nat k) = Some a \<longrightarrow> m a = mem s (data + of_nat k))"
    using mem_section [of s Ob R U P proc virt sz "\<lambda>i dst n. memcpy dst (data + i) n" "\<lambda>m k. m (data + k)", OF ok p u lim f]
    by (elim exE conjE) (erule that [unfolded call], assumption+)
  have "map_option m (byte_addr (ptes s) ?r (virt + of_nat k)) = Some (mem s (data + of_nat k))"
    if "okk" "inj_on (\<lambda>k. byte_addr (ptes s) ?r (virt + of_nat k)) {..< unat sz}"
      "\<forall>k < unat sz. data + of_nat k \<notin> range_addrs (ptes s) ?r virt sz" "k < unat sz" for k
    using that x(3,5) fl by fastforce
  moreover have cr: "proc_cr3 proc (left (VMM_MUTEX proc) s ((entered (VMM_MUTEX proc) s)\<lparr>mem := m\<rparr>)) = ?r"
    by (simp add: left_def entered_def proc_cr3_def)
  ultimately show ?thesis using x(1-4)
    by (intro exI [of _ okk] exI [of _ "left (VMM_MUTEX proc) s ((entered (VMM_MUTEX proc) s)\<lparr>mem := m\<rparr>)"])
      (simp add: cr)
qed

lemma vmm_clear_ok:
  assumes ok: "vmm_ok s Ob R U P" and p: "proc \<in> P" and u: "uncontended s (VMM_MUTEX proc)" and lim: "unat virt + unat sz \<le> 2 ^ 47"
  shows "\<exists>okk s'. vmm_clear proc virt sz s = Some (Done (if okk then 0 else -1), s') \<and> vmm_ok s' Ob R U P
    \<and> ptes s' = ptes s \<and> proc_cr3 proc s' = proc_cr3 proc s \<and> mutexes s' = mutexes s
    \<and> (okk \<longleftrightarrow> (\<forall>k < unat sz. byte_addr (ptes s) (proc_cr3 proc s) (virt + of_nat k) \<noteq> None))
    \<and> (\<forall>a. a \<notin> range_addrs (ptes s) (proc_cr3 proc s) virt sz \<longrightarrow> mem s' a = mem s a)
    \<and> (okk \<and> inj_on (\<lambda>k. byte_addr (ptes s) (proc_cr3 proc s) (virt + of_nat k)) {..< unat sz}
      \<longrightarrow> (\<forall>k < unat sz. map_option (mem s') (byte_addr (ptes s) (proc_cr3 proc s) (virt + of_nat k)) = Some 0))"
proof -
  let ?r = "proc_cr3 proc s"
  have nn: "proc \<noteq> NULL" using vmm_ok_space [OF ok p] by (simp add: space_ok_def)
  have call: "vmm_clear proc virt sz s = with_mutex (VMM_MUTEX proc) (\<lambda>s. do {
        (ok, s) \<leftarrow> user_loop proc (\<lambda>i dst n. memset dst 0 n) 0 virt sz s;
        Some (if ok then 0 else -1, s)
      }) s" by (simp add: vmm_clear_def nn)
  have f: "stays_inside (\<lambda>i dst n. memset dst 0 n)" by (simp add: stays_inside_def memset_eq)
  have fl: "fills (\<lambda>i dst n. memset dst 0 n) (\<lambda>m k. 0) 0 sz (range_addrs (ptes s) ?r virt sz)"
    by (simp add: fills_def memset_eq)
  obtain okk m where x: "vmm_clear proc virt sz s = Some (Done (if okk then 0 else -1), left (VMM_MUTEX proc) s ((entered (VMM_MUTEX proc) s)\<lparr>mem := m\<rparr>))"
    "vmm_ok (left (VMM_MUTEX proc) s ((entered (VMM_MUTEX proc) s)\<lparr>mem := m\<rparr>)) Ob R U P"
    "okk \<longleftrightarrow> (\<forall>k < unat sz. byte_addr (ptes s) ?r (virt + of_nat k) \<noteq> None)"
    "\<forall>a. a \<notin> range_addrs (ptes s) ?r virt sz \<longrightarrow> m a = mem s a"
    "okk \<and> inj_on (\<lambda>k. byte_addr (ptes s) ?r (virt + of_nat k)) {..< unat sz}
      \<longrightarrow> (\<forall>k < unat sz. \<forall>a. byte_addr (ptes s) ?r (virt + of_nat k) = Some a \<longrightarrow> m a = 0)"
    using mem_section [of s Ob R U P proc virt sz "\<lambda>i dst n. memset dst 0 n" "\<lambda>m k. 0", OF ok p u lim f] fl
    by (elim exE conjE) (erule that [unfolded call], assumption+, simp)
  have "map_option m (byte_addr (ptes s) ?r (virt + of_nat k)) = Some 0"
    if "okk" "inj_on (\<lambda>k. byte_addr (ptes s) ?r (virt + of_nat k)) {..< unat sz}" "k < unat sz" for k
    using that x(3,5) by fastforce
  moreover have cr: "proc_cr3 proc (left (VMM_MUTEX proc) s ((entered (VMM_MUTEX proc) s)\<lparr>mem := m\<rparr>)) = ?r"
    by (simp add: left_def entered_def proc_cr3_def)
  ultimately show ?thesis using x(1-4)
    by (intro exI [of _ okk] exI [of _ "left (VMM_MUTEX proc) s ((entered (VMM_MUTEX proc) s)\<lparr>mem := m\<rparr>)"])
      (simp add: cr)
qed

section \<open>Properties\<close>

text \<open>
  C19: \<^verbatim>\<open>vmm_copy_to\<close> into a range of user addresses returns when nobody holds the address space: 0 exactly
  when every address of the range is mapped.  Then, if the range shows no byte of memory twice and does not
  show the source, every address of the range reads the byte of the source.  In all cases no other byte of
  memory changes and the invariant of the address spaces is kept.
\<close>

theorem vmm_copy_to_copies:
  assumes ok: "vmm_ok s Ob R U P" and p: "proc \<in> P" and u: "uncontended s (VMM_MUTEX proc)" and lim: "unat virt + unat sz \<le> 2 ^ 47"
  shows "\<exists>res s'. vmm_copy_to proc virt data sz s = Some (Done res, s') \<and> vmm_ok s' Ob R U P
    \<and> (res = 0 \<longleftrightarrow> (\<forall>k < unat sz. byte_addr (ptes s) (proc_cr3 proc s) (virt + of_nat k) \<noteq> None)) \<and> (res = 0 \<or> res = -1)
    \<and> (\<forall>a. a \<notin> range_addrs (ptes s) (proc_cr3 proc s) virt sz \<longrightarrow> mem s' a = mem s a)
    \<and> (res = 0 \<and> inj_on (\<lambda>k. byte_addr (ptes s) (proc_cr3 proc s) (virt + of_nat k)) {..< unat sz}
        \<and> (\<forall>k < unat sz. data + of_nat k \<notin> range_addrs (ptes s) (proc_cr3 proc s) virt sz)
      \<longrightarrow> (\<forall>k < unat sz. map_option (mem s') (byte_addr (ptes s) (proc_cr3 proc s) (virt + of_nat k)) = Some (mem s (data + of_nat k))))"
proof -
  from vmm_copy_to_ok [OF assms, of data] show ?thesis
    by (elim exE, rename_tac okk s', rule_tac x = "if okk then 0 else -1" in exI, rule_tac x = s' in exI, case_tac okk) simp_all
qed

text \<open>Likewise \<^verbatim>\<open>vmm_clear\<close> sets every byte of the range to zero.\<close>

theorem vmm_clear_clears:
  assumes ok: "vmm_ok s Ob R U P" and p: "proc \<in> P" and u: "uncontended s (VMM_MUTEX proc)" and lim: "unat virt + unat sz \<le> 2 ^ 47"
  shows "\<exists>res s'. vmm_clear proc virt sz s = Some (Done res, s') \<and> vmm_ok s' Ob R U P
    \<and> (res = 0 \<longleftrightarrow> (\<forall>k < unat sz. byte_addr (ptes s) (proc_cr3 proc s) (virt + of_nat k) \<noteq> None)) \<and> (res = 0 \<or> res = -1)
    \<and> (\<forall>a. a \<notin> range_addrs (ptes s) (proc_cr3 proc s) virt sz \<longrightarrow> mem s' a = mem s a)
    \<and> (res = 0 \<and> inj_on (\<lambda>k. byte_addr (ptes s) (proc_cr3 proc s) (virt + of_nat k)) {..< unat sz}
      \<longrightarrow> (\<forall>k < unat sz. map_option (mem s') (byte_addr (ptes s) (proc_cr3 proc s) (virt + of_nat k)) = Some 0))"
proof -
  from vmm_clear_ok [OF assms] show ?thesis
    by (elim exE, rename_tac okk s', rule_tac x = "if okk then 0 else -1" in exI, rule_tac x = s' in exI, case_tac okk) simp_all
qed

lemma vmm_copy_to_copies_witness:
  "\<exists>s s' res. vmm_context_init 0x7000 sample_vmm = Some (0, s) \<and> vmm_copy_to 0x7000 0x400ff0 0x100000 0x20 s = Some (Done res, s')"
proof -
  obtain s L where s: "vmm_context_init 0x7000 sample_vmm = Some (0, s)" "vmm_ok s ((\<lambda>_. {})(ENTRY_CACHE := L)) {0x100000} {0x100000} {0x7000}"
     "uncontended s (VMM_MUTEX 0x7000)" using sample_space by blast
  have p: "(0x7000 :: ptr) \<in> {0x7000}" "unat (0x400ff0 :: u64) + unat (0x20 :: u64) \<le> 2 ^ 47" by simp_all
  show ?thesis using vmm_copy_to_copies [OF s(2) p(1) s(3) p(2)] s(1) by blast
qed

lemma vmm_clear_clears_witness:
  "\<exists>s s' res. vmm_context_init 0x7000 sample_vmm = Some (0, s) \<and> vmm_clear 0x7000 0x400ff0 0x20 s = Some (Done res, s')"
proof -
  obtain s L where s: "vmm_context_init 0x7000 sample_vmm = Some (0, s)" "vmm_ok s ((\<lambda>_. {})(ENTRY_CACHE := L)) {0x100000} {0x100000} {0x7000}"
     "uncontended s (VMM_MUTEX 0x7000)" using sample_space by blast
  have p: "(0x7000 :: ptr) \<in> {0x7000}" "unat (0x400ff0 :: u64) + unat (0x20 :: u64) \<le> 2 ^ 47" by simp_all
  show ?thesis using vmm_clear_clears [OF s(2) p(1) s(3) p(2)] s(1) by blast
qed

end
