(* ===== verification/Tables.thy ===== *)
theory Tables
  imports Hashtable
begin

text \<open>
  Lemmas for the components that keep their objects in a hash table: giving a new object its key and
  adding it, and what a change elsewhere in memory leaves of a table.
\<close>

text \<open>A new item, whose key has just been written.\<close>

lemma table_enroll:
  assumes ok: "table_ok key t (buckets s) (hnext s)" and x: "x \<noteq> NULL" "x \<notin> table_items t (buckets s) (hnext s)"
    and key: "\<And>y. y \<noteq> x \<Longrightarrow> key' y = key y"
  shows "\<exists>nx bk. hashtable_add key' t x s = Some (t\<lparr>ht_items := ht_items t + 1\<rparr>, s\<lparr>hnext := nx, buckets := bk\<rparr>)
    \<and> (\<forall>y. y \<noteq> x \<longrightarrow> nx y = hnext s y) \<and> (\<forall>tab. tab \<noteq> ht_table t \<longrightarrow> bk tab = buckets s tab)
    \<and> table_ok key' (t\<lparr>ht_items := ht_items t + 1\<rparr>) bk nx
    \<and> table_view key' (t\<lparr>ht_items := ht_items t + 1\<rparr>) bk nx
        = (table_view key t (buckets s) (hnext s))(key' x := x # table_view key t (buckets s) (hnext s) (key' x))
    \<and> table_items (t\<lparr>ht_items := ht_items t + 1\<rparr>) bk nx = insert x (table_items t (buckets s) (hnext s))"
proof -
  have same: "key' y = key y" if "y \<in> table_items t (buckets s) (hnext s)" for y using that x(2) key by metis
  have k: "table_ok key' t (buckets s) (hnext s)"
    "table_view key' t (buckets s) (hnext s) = table_view key t (buckets s) (hnext s)"
    using table_key_cong [OF ok, of key'] same by blast+
  let ?nx = "(hnext s)(x := buckets s (ht_table t) (unat (ht_hash t (key' x)) mod ht_size t))"
  obtain bk where "hashtable_add key' t x s = Some (t\<lparr>ht_items := ht_items t + 1\<rparr>, s\<lparr>hnext := ?nx, buckets := bk\<rparr>)"
    "\<forall>tab. tab \<noteq> ht_table t \<longrightarrow> bk tab = buckets s tab"
    "table_ok key' (t\<lparr>ht_items := ht_items t + 1\<rparr>) bk ?nx"
    "table_view key' (t\<lparr>ht_items := ht_items t + 1\<rparr>) bk ?nx
        = (table_view key t (buckets s) (hnext s))(key' x := x # table_view key t (buckets s) (hnext s) (key' x))"
    "table_items (t\<lparr>ht_items := ht_items t + 1\<rparr>) bk ?nx = insert x (table_items t (buckets s) (hnext s))"
    using hashtable_add_ok [OF k(1) x, unfolded Let_def k(2)] by blast
  then show ?thesis by (intro exI [of _ ?nx] exI [of _ bk]) simp
qed

text \<open>A table that nothing has been done to.\<close>

lemma table_untouched:
  assumes ok: "table_ok key t bk nx" and b: "bk' (ht_table t) = bk (ht_table t)"
    and n: "\<And>x. x \<in> table_items t bk nx \<Longrightarrow> nx' x = nx x" and k: "\<And>x. x \<in> table_items t bk nx \<Longrightarrow> key' x = key x"
  shows "table_ok key' t bk' nx'" and "table_view key' t bk' nx' = table_view key t bk nx"
    and "table_items t bk' nx' = table_items t bk nx"
proof -
  have l: "linked nx (bk (ht_table t) i) (chain_of t bk nx i)" if "i < ht_size t" for i
    using ok that by (simp add: table_ok_def)
  have eq: "nx x = nx' x" if "i < ht_size t" "x \<in> set (chain_of t bk nx i)" for x i
  proof -
    have "x \<in> table_items t bk nx" using that unfolding table_items_def by blast
    then show ?thesis using n by metis
  qed
  have c: "chain_of t bk' nx' i = chain_of t bk nx i" if i: "i < ht_size t" for i
  proof -
    have "linked nx' (bk (ht_table t) i) (chain_of t bk nx i)"
      by (rule linked_cong [THEN iffD1, OF _ l [OF i]]) (rule eq [OF i])
    then show ?thesis using chain_eq [of nx' bk' t i] b by simp
  qed
  show it: "table_items t bk' nx' = table_items t bk nx" using c by (simp add: table_items_def)
  have ok': "table_ok key t bk' nx'"
    unfolding table_ok_def
  proof (intro conjI allI impI)
    show "0 < ht_size t" "ht_compare t = (=)" using ok by (simp_all add: table_ok_def)
    fix i assume i: "i < ht_size t"
    show "linked nx' (bk' (ht_table t) i) (chain_of t bk' nx' i)"
      unfolding c [OF i] b by (rule linked_cong [THEN iffD1, OF _ l [OF i]]) (rule eq [OF i])
    show "\<forall>x \<in> set (chain_of t bk' nx' i). unat (ht_hash t (key x)) mod ht_size t = i"
      unfolding c [OF i] using ok i by (simp add: table_ok_def)
  qed
  have "table_view key t bk' nx' = table_view key t bk nx"
    using ok c by (auto simp: table_view_def table_ok_def fun_eq_iff)
  then show "table_ok key' t bk' nx'" "table_view key' t bk' nx' = table_view key t bk nx"
    using table_key_cong [OF ok', of key'] k unfolding it by simp_all
qed

text \<open>What a lookup returns, and that it returns.\<close>

lemma table_lookup:
  assumes ok: "table_ok key t (buckets s) (hnext s)"
  shows "\<exists>x. hashtable_get key t k s = Some x
    \<and> (if x = NULL then table_view key t (buckets s) (hnext s) k = []
       else x \<in> table_items t (buckets s) (hnext s) \<and> key x = k \<and> (\<exists>xs. table_view key t (buckets s) (hnext s) k = x # xs))"
proof (cases "table_view key t (buckets s) (hnext s) k")
  case Nil
  then show ?thesis using hashtable_get_ok [OF ok] by simp
next
  case (Cons x xs)
  then have "x \<in> set (table_view key t (buckets s) (hnext s) k)" by simp
  then have k: "key x = k" "x \<in> set (table_view key t (buckets s) (hnext s) (key x))" by (auto simp: table_view_def)
  then have it: "x \<in> table_items t (buckets s) (hnext s)" using table_view_items [OF ok] by blast
  then obtain i where "i < ht_size t" "x \<in> set (chain_of t (buckets s) (hnext s) i)" by (auto simp: table_items_def)
  then have "x \<noteq> NULL" using ok linked_not_NULL by (fastforce simp: table_ok_def)
  then show ?thesis using hashtable_get_ok [OF ok, of k] Cons k(1) it by auto
qed

end
