(* ===== verification/Process.thy ===== *)
theory Process
  imports Vmm Tables
begin

text \<open>
  \<^verbatim>\<open>proc/process.c\<close> and the architecture's \<^verbatim>\<open>proc/process.c\<close>: processes, each with an address space of its
  own, and the table of all of them.
\<close>

section \<open>Operations\<close>

record proc_state = vmm_state +
  s_next_process_id :: u32
  s_process_table :: "u32 hashtable"

definition set_process :: "ptr \<Rightarrow> (process \<Rightarrow> process) \<Rightarrow> 'a sched_state_scheme \<Rightarrow> 'a sched_state_scheme" where
  "set_process p f s = s\<lparr>processes := (processes s)(p := f (processes s p))\<rparr>"

definition process_arch_create :: "ptr \<Rightarrow> 'a page_state_scheme \<Rightarrow> (int \<times> 'a page_state_scheme) option" where
  "process_arch_create p s = do {
     (arch_p, s) \<leftarrow> slab_cache_alloc ARCH_PROC_CACHE s;
     if arch_p = NULL then Some (-1, s)
     else do {
       (root, s) \<leftarrow> pmm_alloc s;
       let s = s\<lparr>arch_cr3 := (arch_cr3 s)(arch_p := root)\<rparr>;
       if root = 0 then do {
         s \<leftarrow> slab_cache_free ARCH_PROC_CACHE arch_p s;
         Some (-1, s)
       }
       else do {
         v \<leftarrow> vmm_provide_phys root;
         let s = clear_table v s;
         s \<leftarrow> vmm_arch_init_process arch_p s;
         Some (0, set_process p (\<lambda>x. x\<lparr>p_arch_data := arch_p\<rparr>) s)
       }
     }
   }"

definition process_arch_destroy :: "ptr \<Rightarrow> 'a sched_state_scheme \<Rightarrow> 'a sched_state_scheme option" where
  "process_arch_destroy p s = slab_cache_free ARCH_PROC_CACHE (p_arch_data (processes s p)) s"

definition process_arch_init :: "'a slab_state_scheme \<Rightarrow> 'a slab_state_scheme option" where
  "process_arch_init s = slab_cache_init ARCH_PROC_CACHE 8 s"

abbreviation (input) PROC_NAME_SIZE :: nat where
  "PROC_NAME_SIZE \<equiv> 32"

definition process_item_key :: "(ptr \<Rightarrow> process) \<Rightarrow> ptr \<Rightarrow> u32" where
  "process_item_key pr item = p_id (pr item)"

text \<open>The section of \<^verbatim>\<open>process_create\<close> that puts the process into the global table.\<close>

definition process_register :: "ptr \<Rightarrow> 'a proc_state_scheme \<Rightarrow> 'a proc_state_scheme option" where
  "process_register p s = do {
     s \<leftarrow> spinlock_disable PROCESS_LOCK s;
     let s = set_process p (\<lambda>x. x\<lparr>p_id := s_next_process_id s\<rparr>) s;
     let s = s\<lparr>s_next_process_id := s_next_process_id s + 1\<rparr>;
     (tab, s) \<leftarrow> hashtable_add (process_item_key (processes s)) (s_process_table s) p s;
     Some (spinunlock_enable PROCESS_LOCK (s\<lparr>s_process_table := tab\<rparr>))
   }"

text \<open>A name is cut to what fits in front of the terminating zero.\<close>

definition process_create :: "u8 list \<Rightarrow> 'a proc_state_scheme \<Rightarrow> (ptr \<times> 'a proc_state_scheme) option" where
  "process_create name s = do {
     (p, s) \<leftarrow> slab_cache_alloc PROCESS_CACHE s;
     if p = NULL then Some (NULL, s)
     else do {
       (r, s) \<leftarrow> process_arch_create p s;
       if r \<noteq> 0 then do {
         s \<leftarrow> slab_cache_free PROCESS_CACHE p s;
         Some (NULL, s)
       }
       else do {
         (r, s) \<leftarrow> vmm_context_init p s;
         if r \<noteq> 0 then do {
           s \<leftarrow> process_arch_destroy p s;
           s \<leftarrow> slab_cache_free PROCESS_CACHE p s;
           Some (NULL, s)
         }
         else do {
           let s = set_process p (\<lambda>x. x\<lparr>p_name := take (PROC_NAME_SIZE - 1) name\<rparr>) s;
           s \<leftarrow> process_register p s;
           Some (p, s)
         }
       }
     }
   }"

text \<open>The size of \<^verbatim>\<open>struct process\<close> is 104; the first process, "kernel" in ASCII, stands for the kernel.\<close>

definition process_init :: "'a proc_state_scheme \<Rightarrow> 'a proc_state_scheme option" where
  "process_init s = do {
     s \<leftarrow> process_arch_init s;
     (tab, s) \<leftarrow> hashtable_init (s_process_table s) hashtable_hash_int hashtable_compare_int s;
     let s = s\<lparr>s_process_table := tab\<rparr>;
     s \<leftarrow> slab_cache_init PROCESS_CACHE 104 s;
     (p, s) \<leftarrow> process_create [107, 101, 114, 110, 101, 108] s;
     Some s
   }"

section \<open>A new root\<close>

text \<open>A page that no address space uses and whose lower half is empty is the root of an empty address space.\<close>

lemma follow_new_root:
  assumes "\<forall>i < 256. h i = 0" and "user_path path"
  shows "follow (pt(PHYS_MAP_BASE + q := h)) q path = (if path = [] then Some q else None)"
  using assms(2)
proof (induction path)
  case (Cons i path)
  then have "user_path path" using user_path_tl by blast
  moreover have "path = [] \<Longrightarrow> i < 256" using Cons.prems by (simp add: user_path_def)
  ultimately show ?case using Cons.IH assms(1) by (cases "path = []") simp_all
qed simp

lemma new_root:
  assumes ok: "tables_ok pt R U" and q: "usable_page q" "q \<notin> U" and h: "\<forall>i < 256. h i = 0"
  defines "pt' \<equiv> pt(PHYS_MAP_BASE + q := h)"
  shows "tables_ok pt' (insert q R) (insert q U)"
    and "\<And>r v. r \<in> R \<Longrightarrow> user_addr v \<Longrightarrow> translate pt' r v = translate pt r v"
    and "\<And>v. user_addr v \<Longrightarrow> translate pt' q v = None"
proof -
  have old: "follow pt' r path = follow pt r path" if "r \<in> R" "user_path path" for r path
    unfolding pt'_def using follow_outside [OF ok q that] .
  have new: "follow pt' q path = (if path = [] then Some q else None)" if "user_path path" for path
    unfolding pt'_def using follow_new_root [OF h that] .
  have page: "usable_page p \<and> p \<in> U" if "r \<in> R" "user_path path" "length path \<le> 3" "follow pt r path = Some p" for r path p
    using tables_page [OF ok that] .
  have entry: "pt' (PHYS_MAP_BASE + p) = pt (PHYS_MAP_BASE + p)" if "p \<in> U" for p
    using that q(2) by (auto simp: pt'_def)
  have qR: "q \<notin> R" using tables_root [OF ok] q(2) by blast
  show "tables_ok pt' (insert q R) (insert q U)"
    unfolding tables_ok_def
  proof (intro conjI ballI allI impI; elim conjE)
    fix r path p assume r: "r \<in> insert q R" and p: "user_path path" "length path \<le> 3" "follow pt' r path = Some p"
    show "usable_page p" "p \<in> insert q U"
      using r p q(1) new [OF p(1)] old [OF _ p(1)] page [OF _ p(1,2)] by (cases "r = q"; auto split: if_splits)+
  next
    fix r r' path path' p
    assume r: "r \<in> insert q R" "r' \<in> insert q R" and p: "user_path path" "length path \<le> 3" "follow pt' r path = Some p"
      and p': "user_path path'" "length path' \<le> 3" "follow pt' r' path' = Some p"
    have "r = q \<longleftrightarrow> r' = q"
      using r p p' q(2) new [OF p(1)] new [OF p'(1)] old [OF _ p(1)] old [OF _ p'(1)] page [OF _ p(1,2)] page [OF _ p'(1,2)]
      by (cases "r = q"; cases "r' = q") (auto split: if_splits)
    then show "r = r'" "path = path'"
      using r p p' new [OF p(1)] new [OF p'(1)] old [OF _ p(1)] old [OF _ p'(1)] tables_unique [OF ok _ _ p(1,2) _ p'(1,2)]
      by (cases "r = q"; auto split: if_splits)+
  next
    fix r i path p
    assume r: "r \<in> insert q R" and p: "user_path (i # path)" "follow pt' r path = Some p" "pt' (PHYS_MAP_BASE + p) i \<noteq> 0"
    have up: "user_path path" "length path \<le> 3" using p(1) user_path_tl by (auto simp: user_path_def)
    show "entry_rights (length path < 3) (pt' (PHYS_MAP_BASE + p) i)"
    proof (cases "r = q")
      case True
      then have "p = q" "path = []" using new [OF up(1)] p(2) by (simp_all split: if_splits)
      then show ?thesis using p h by (simp add: user_path_def pt'_def)
    next
      case False
      then have f: "follow pt r path = Some p" "r \<in> R" using old [OF _ up(1)] p(2) r by auto
      then show ?thesis using tables_rights [OF ok f(2) p(1) f(1)] entry page [OF f(2) up f(1)] p(3) by simp
    qed
  qed
  show "translate pt' q v = None" if "user_addr v" for v
    using new [OF user_path_steps(3) [OF that]] by (simp add: translate_def del: follow.simps)
  show "translate pt' r v = translate pt r v" if r: "r \<in> R" and v: "user_addr v" for r v
  proof -
    let ?path = "[PD_INDEX v, PDP_INDEX v, PML4_INDEX v]"
    have up: "user_path ?path" "length ?path \<le> 3" using user_path_steps(3) [OF v] by simp_all
    show ?thesis using old [OF r up(1)] page [OF r up] entry
      by (auto simp: translate_def Let_def simp del: follow.simps split: option.split)
  qed
qed

section \<open>The address spaces while a process is made\<close>

text \<open>What the operations of this component may change.\<close>

definition proc_frame :: "'a vmm_state_scheme \<Rightarrow> 'a vmm_state_scheme \<Rightarrow> bool" where
  "proc_frame s s' \<longleftrightarrow> s' = s\<lparr>locks := locks s', s_allocatedPageCount := s_allocatedPageCount s', s_freeTable := s_freeTable s',
     slabs := slabs s', bufs := bufs s', caches := caches s', mutexes := mutexes s', ptes := ptes s', mem := mem s',
     processes := processes s', arch_cr3 := arch_cr3 s'\<rparr> \<and> same_shape (caches s) (caches s')"

lemma proc_frameE:
  assumes "proc_frame s s'"
  obtains L a F sl b c mx pt me pr cr where "s' = s\<lparr>locks := L, s_allocatedPageCount := a, s_freeTable := F,
     slabs := sl, bufs := b, caches := c, mutexes := mx, ptes := pt, mem := me, processes := pr, arch_cr3 := cr\<rparr>" "same_shape (caches s) c"
  using assms unfolding proc_frame_def by blast

lemma proc_frame_trans: "proc_frame s s' \<Longrightarrow> proc_frame s' s'' \<Longrightarrow> proc_frame s s''"
  by (elim proc_frameE) (auto simp: proc_frame_def intro: same_shape_trans)

lemma slab_frame_proc: "slab_frame s s' \<Longrightarrow> same_shape (caches s) (caches s') \<Longrightarrow> proc_frame s s'"
  by (elim slab_frameE) (simp add: proc_frame_def)

lemma vmm_frame_proc: "vmm_frame p s s' \<Longrightarrow> proc_frame s s'"
  by (elim vmm_frameE) (simp add: proc_frame_def)

lemma proc_frame_writes: "proc_frame s (s\<lparr>arch_cr3 := cr, ptes := pt, processes := pr\<rparr>)" "proc_frame s (s\<lparr>arch_cr3 := cr\<rparr>)"
  by (simp_all add: proc_frame_def)

lemma proc_frame_keeps:
  assumes "proc_frame s s'"
  shows "cache_ready s' c = cache_ready s c" "buckets s' = buckets s" "hnext s' = hnext s" "threads s' = threads s"
    "thread_current s' = thread_current s" "int_flag s' = int_flag s" "same_shape (caches s) (caches s')"
  using assms by (auto elim!: proc_frameE simp: same_shape_def)

text \<open>The address spaces after a change that concerns none of them.\<close>

lemma vmm_ok_moved:
  assumes ok: "vmm_ok s Ob R U P" and m: "memory s' Ob' U'" "Ob' ENTRY_CACHE = Ob ENTRY_CACHE" "cache_ready s' ENTRY_CACHE"
    and t: "tables_ok (ptes s') R' U'" "R \<subseteq> R'"
    and same: "\<And>q. q \<in> P \<Longrightarrow> p_free_map (processes s' q) = p_free_map (processes s q)" "\<And>q. q \<in> P \<Longrightarrow> proc_cr3 q s' = proc_cr3 q s"
      "\<And>r v. r \<in> R \<Longrightarrow> user_addr v \<Longrightarrow> translate (ptes s') r v = translate (ptes s) r v"
  shows "vmm_ok s' Ob' R' U' P"
proof -
  have "space_ok s' R' q" if "q \<in> P" for q
  proof -
    have o: "space_ok s R q" using vmm_ok_space [OF ok that] .
    then have "user_addr v" if "v \<in> free_space s q" for v using that by (auto simp: space_ok_def user_addr_def)
    then show ?thesis using o same that t(2) by (auto simp: space_ok_def free_space_def)
  qed
  moreover have "owns snd (p_free_map (processes s' q)) (s', Ob' ENTRY_CACHE)" if "q \<in> P" for q
    using ok that same(1) m(2) by (simp add: vmm_ok_def owns_def)
  moreover have "inj_on (\<lambda>p. proc_cr3 p s') P" using ok same(2) by (simp add: vmm_ok_def inj_on_def)
  moreover have "map_nodes s' q = map_nodes s q" if "q \<in> P" for q using same(1) that by (simp add: map_nodes_def)
  ultimately show ?thesis using m t(1) ok by (auto simp: vmm_ok_def)
qed

lemma process_arch_create_ok:
  assumes ok: "vmm_ok s Ob R U P" and rdy: "cache_ready s ARCH_PROC_CACHE"
    and arch: "\<And>q. q \<in> P \<Longrightarrow> p_arch_data (processes s q) \<in> Ob ARCH_PROC_CACHE" and p: "p \<notin> P"
  shows "\<exists>res s'. process_arch_create p s = Some (res, s') \<and> proc_frame s s' \<and> mutexes s' = mutexes s \<and> mem s' = mem s
    \<and> (\<forall>r \<in> R. \<forall>v. user_addr v \<longrightarrow> translate (ptes s') r v = translate (ptes s) r v)
    \<and> (if res \<noteq> 0 then vmm_ok s' Ob R U P \<and> processes s' = processes s \<and> (\<forall>q \<in> P. proc_cr3 q s' = proc_cr3 q s)
       else \<exists>a q. a \<notin> Ob ARCH_PROC_CACHE \<and> usable_page q \<and> q \<notin> U
         \<and> processes s' = (processes s)(p := (processes s p)\<lparr>p_arch_data := a\<rparr>) \<and> arch_cr3 s' = (arch_cr3 s)(a := q)
         \<and> vmm_ok s' (Ob(ARCH_PROC_CACHE := insert a (Ob ARCH_PROC_CACHE))) (insert q R) (insert q U) P
         \<and> (\<forall>v. user_addr v \<longrightarrow> translate (ptes s') q v = None))"
proof -
  have m: "memory s Ob U" and tb: "tables_ok (ptes s) R U" and re: "cache_ready s ENTRY_CACHE" using ok by (simp_all add: vmm_ok_def)
  obtain a s1 where a: "slab_cache_alloc ARCH_PROC_CACHE s = Some (a, s1)" "slab_frame s s1" "same_shape (caches s) (caches s1)"
    "memory s1 (if a = NULL then Ob else Ob(ARCH_PROC_CACHE := insert a (Ob ARCH_PROC_CACHE))) U"
    "if a = NULL then free_stack s = [] else a \<notin> Ob ARCH_PROC_CACHE"
    using alloc_object [OF m rdy] by blast
  have f1: "processes s1 = processes s" "ptes s1 = ptes s" "arch_cr3 s1 = arch_cr3 s" "mutexes s1 = mutexes s" "mem s1 = mem s"
    "cache_ready s1 c = cache_ready s c" for c
    using a(2) ready_shape [OF a(3)] by (auto elim!: slab_frameE)
  show ?thesis
  proof (cases "a = NULL")
    case True
    have "vmm_ok s1 Ob R U P"
      by (rule vmm_ok_moved [OF ok]) (use a(4) True re tb f1 in \<open>simp_all add: proc_cr3_def\<close>)
    then show ?thesis using a(1) True f1 slab_frame_proc [OF a(2,3)]
      by (intro exI [of _ "-1"] exI [of _ s1]) (simp add: process_arch_create_def proc_cr3_def)
  next
    case an: False
    let ?O1 = "Ob(ARCH_PROC_CACHE := insert a (Ob ARCH_PROC_CACHE))"
    have m1: "memory s1 ?O1 U" and anew: "a \<notin> Ob ARCH_PROC_CACHE" using a(4,5) an by simp_all
    obtain q s2 where q: "pmm_alloc s1 = Some (q, s2)" "slab_frame s1 s2" "caches s2 = caches s1"
      "memory s2 ?O1 (if q = 0 then U else insert q U)"
      "if q = 0 then free_stack s1 = [] else usable_page q \<and> q \<notin> U \<and> free_stack s1 = q # free_stack s2"
      using alloc_page [OF m1] by blast
    have f2: "processes s2 = processes s" "ptes s2 = ptes s" "arch_cr3 s2 = arch_cr3 s" "mutexes s2 = mutexes s" "mem s2 = mem s"
      "cache_ready s2 c = cache_ready s c" for c
      using f1 q(2,3) by (auto elim!: slab_frameE)
    have fr2: "proc_frame s s2"
      using slab_frame_proc [OF slab_frame_trans [OF a(2) q(2)]] a(3) q(3) by simp
    have cr: "arch_cr3 s (p_arch_data (processes s r)) = ((arch_cr3 s)(a := q)) (p_arch_data (processes s r))" if "r \<in> P" for r
      using arch [OF that] anew by auto
    show ?thesis
    proof (cases "q = 0")
      case True
      let ?s2 = "s2\<lparr>arch_cr3 := (arch_cr3 s)(a := q)\<rparr>"
      have m2: "memory ?s2 ?O1 U" using q(4) True by simp
      have r2: "cache_ready ?s2 ARCH_PROC_CACHE" using f2(6) rdy by simp
      obtain s3 where s3: "slab_cache_free ARCH_PROC_CACHE a ?s2 = Some s3" "slab_frame ?s2 s3" "same_shape (caches ?s2) (caches s3)"
        "memory s3 (?O1(ARCH_PROC_CACHE := ?O1 ARCH_PROC_CACHE - {a})) U"
        using free_object [OF m2 r2, of a] by auto
      have ob: "?O1(ARCH_PROC_CACHE := ?O1 ARCH_PROC_CACHE - {a}) = Ob" using anew by (auto simp: fun_eq_iff)
      have f3: "processes s3 = processes s" "ptes s3 = ptes s" "arch_cr3 s3 = (arch_cr3 s)(a := q)" "mutexes s3 = mutexes s" "mem s3 = mem s"
        "cache_ready s3 c = cache_ready s c" for c
        using f2 s3(2) ready_shape [OF s3(3)] by (auto elim!: slab_frameE)
      have "vmm_ok s3 Ob R U P"
        by (rule vmm_ok_moved [OF ok]) (use s3(4) ob re tb f3 cr in \<open>simp_all add: proc_cr3_def\<close>)
      moreover have "proc_frame s s3"
        using proc_frame_trans [OF proc_frame_trans [OF fr2 proc_frame_writes(2)] slab_frame_proc [OF s3(2,3)]] .
      ultimately show ?thesis using a(1) q(1) s3(1) True an f2 f3 cr
        by (intro exI [of _ "-1"] exI [of _ s3]) (simp add: process_arch_create_def proc_cr3_def)
    next
      case qn: False
      have pu: "usable_page q" "q \<notin> U" and m2: "memory s2 ?O1 (insert q U)" using q(4,5) qn by simp_all
      define h where "h = (\<lambda>i. if 256 \<le> i \<and> i < 512 then ((ptes s)(PHYS_MAP_BASE + q := (\<lambda>i. if i < 512 then 0 else ptes s (PHYS_MAP_BASE + q) i)))
          (kpml4 s2) i else if i < 512 then 0 else ptes s (PHYS_MAP_BASE + q) i)"
      have h0: "\<forall>i < 256. h i = 0" by (simp add: h_def)
      note nr = new_root [OF tb pu h0]
      let ?s3 = "s2\<lparr>arch_cr3 := (arch_cr3 s)(a := q), ptes := (ptes s)(PHYS_MAP_BASE + q := h),
          processes := (processes s)(p := (processes s p)\<lparr>p_arch_data := a\<rparr>)\<rparr>"
      have run: "process_arch_create p s = Some (0, ?s3)"
        using a(1) q(1) an qn f2 usable_provide [OF pu(1)]
        by (simp add: process_arch_create_def clear_table_def vmm_arch_init_process_def set_process_def h_def Let_def cong: if_cong)
      have "vmm_ok ?s3 ?O1 (insert q R) (insert q U) P"
      proof (rule vmm_ok_moved [OF ok])
        show "memory ?s3 ?O1 (insert q U)" using m2 by simp
        show "cache_ready ?s3 ENTRY_CACHE" using f2(6) re by simp
        show "tables_ok (ptes ?s3) (insert q R) (insert q U)" using nr(1) by simp
        show "p_free_map (processes ?s3 r) = p_free_map (processes s r)" if "r \<in> P" for r using p that by simp
        show "proc_cr3 r ?s3 = proc_cr3 r s" if "r \<in> P" for r
          using p that cr [OF that] by (auto simp: proc_cr3_def)
        show "translate (ptes ?s3) r v = translate (ptes s) r v" if "r \<in> R" "user_addr v" for r v using nr(2) [OF that] by simp
      qed auto
      moreover have "proc_frame s ?s3"
        using proc_frame_trans [OF fr2, of ?s3] by (simp add: proc_frame_def)
      ultimately show ?thesis using run nr(2,3) anew pu f2
        by (intro exI [of _ 0] exI [of _ ?s3]) auto
    qed
  qed
qed

section \<open>All processes\<close>

text \<open>The processes \<open>P\<close>: their address spaces, the objects they own, and the table they are in.\<close>

definition procs_ok :: "'a proc_state_scheme \<Rightarrow> (cache_id \<Rightarrow> ptr set) \<Rightarrow> ptr set \<Rightarrow> ptr set \<Rightarrow> ptr set \<Rightarrow> bool" where
  "procs_ok s Ob R U P \<longleftrightarrow> vmm_ok s Ob R U P \<and> cache_ready s PROCESS_CACHE \<and> cache_ready s ARCH_PROC_CACHE
     \<and> P \<subseteq> Ob PROCESS_CACHE \<and> (\<forall>q \<in> P. p_arch_data (processes s q) \<in> Ob ARCH_PROC_CACHE)
     \<and> table_ok (process_item_key (processes s)) (s_process_table s) (buckets s) (hnext s)
     \<and> table_items (s_process_table s) (buckets s) (hnext s) \<subseteq> P"

text \<open>The end of \<^verbatim>\<open>process_create\<close>: the process gets its name and its id and goes into the table.\<close>

lemma process_enroll_ok:
  assumes ok: "vmm_ok s Ob R U (insert p P)" and p: "p \<notin> P" "p \<noteq> NULL"
    and tab: "table_ok (process_item_key (processes s)) (s_process_table s) (buckets s) (hnext s)"
      "table_items (s_process_table s) (buckets s) (hnext s) \<subseteq> P"
  shows "\<exists>s'. process_register p (set_process p (\<lambda>x. x\<lparr>p_name := n\<rparr>) s) = Some s' \<and> vmm_ok s' Ob R U (insert p P)
    \<and> table_ok (process_item_key (processes s')) (s_process_table s') (buckets s') (hnext s')
    \<and> table_items (s_process_table s') (buckets s') (hnext s') \<subseteq> insert p P
    \<and> hashtable_get (process_item_key (processes s')) (s_process_table s') (s_next_process_id s) s' = Some p
    \<and> processes s' = (processes s)(p := (processes s p)\<lparr>p_name := n, p_id := s_next_process_id s\<rparr>)
    \<and> s_next_process_id s' = s_next_process_id s + 1 \<and> ptes s' = ptes s \<and> arch_cr3 s' = arch_cr3 s \<and> mutexes s' = mutexes s
    \<and> caches s' = caches s"
proof -
  have L: "locks_ok s" using ok by (simp add: vmm_ok_def)
  let ?pr = "(processes s)(p := (processes s p)\<lparr>p_name := n, p_id := s_next_process_id s\<rparr>)" and ?T = "s_process_table s"
  let ?s = "s\<lparr>int_flag := False, locks := lock_held PROCESS_LOCK (int_flag s) (locks s), processes := ?pr,
      s_next_process_id := s_next_process_id s + 1\<rparr>"
  have nin: "p \<notin> table_items (s_process_table ?s) (buckets ?s) (hnext ?s)" using tab(2) p(1) by auto
  have tab': "table_ok (process_item_key (processes s)) (s_process_table ?s) (buckets ?s) (hnext ?s)" using tab(1) by simp
  have key: "process_item_key ?pr y = process_item_key (processes s) y" if "y \<noteq> p" for y using that by (simp add: process_item_key_def)
  have kp: "process_item_key ?pr p = s_next_process_id s" by (simp add: process_item_key_def)
  obtain nx bk where add: "hashtable_add (process_item_key ?pr) (s_process_table ?s) p ?s
      = Some (?T\<lparr>ht_items := ht_items ?T + 1\<rparr>, ?s\<lparr>hnext := nx, buckets := bk\<rparr>)"
    and post: "table_ok (process_item_key ?pr) (?T\<lparr>ht_items := ht_items ?T + 1\<rparr>) bk nx"
      "table_view (process_item_key ?pr) (?T\<lparr>ht_items := ht_items ?T + 1\<rparr>) bk nx = (table_view (process_item_key (processes s)) ?T (buckets s) (hnext s))
          (process_item_key ?pr p := p # table_view (process_item_key (processes s)) ?T (buckets s) (hnext s) (process_item_key ?pr p))"
      "table_items (?T\<lparr>ht_items := ht_items ?T + 1\<rparr>) bk nx = insert p (table_items ?T (buckets s) (hnext s))"
    using table_enroll [OF tab' p(2) nin, of "process_item_key ?pr"] key by auto
  define s' where "s' = s\<lparr>locks := lock_used PROCESS_LOCK s, processes := ?pr, s_next_process_id := s_next_process_id s + 1,
      hnext := nx, buckets := bk, s_process_table := ?T\<lparr>ht_items := ht_items ?T + 1\<rparr>\<rparr>"
  have run: "process_register p (set_process p (\<lambda>x. x\<lparr>p_name := n\<rparr>) s) = Some s'"
    using add L by (simp add: process_register_def set_process_def op_simps s'_def)
  have "vmm_ok s' Ob R U (insert p P)"
    by (rule vmm_ok_moved [OF ok]) (use ok in \<open>auto simp: vmm_ok_def s'_def proc_cr3_def\<close>)
  moreover have "hashtable_get (process_item_key (processes s')) (s_process_table s') (s_next_process_id s) s' = Some p"
  proof -
    have "table_ok (process_item_key (processes s')) (s_process_table s') (buckets s') (hnext s')" using post(1) by (simp add: s'_def)
    from hashtable_get_ok [OF this, of "s_next_process_id s"] show ?thesis using post(2) kp by (simp add: s'_def)
  qed
  ultimately show ?thesis using run post tab(2) by (intro exI [of _ s']) (auto simp: s'_def)
qed

lemma process_create_ok:
  assumes ok: "procs_ok s Ob R U P"
  shows "\<exists>p s'. process_create name s = Some (p, s')
    \<and> (\<forall>r \<in> R. \<forall>v. user_addr v \<longrightarrow> translate (ptes s') r v = translate (ptes s) r v)
    \<and> (\<forall>q \<in> P. proc_cr3 q s' = proc_cr3 q s)
    \<and> (if p = NULL then procs_ok s' Ob R U P \<and> s_next_process_id s' = s_next_process_id s
       else p \<notin> P \<and> (\<exists>L a q. procs_ok s' (Ob(PROCESS_CACHE := insert p (Ob PROCESS_CACHE), ARCH_PROC_CACHE := insert a (Ob ARCH_PROC_CACHE),
                ENTRY_CACHE := L)) (insert q R) (insert q U) (insert p P)
            \<and> proc_cr3 p s' = q \<and> q \<notin> R \<and> (\<forall>v. user_addr v \<longrightarrow> translate (ptes s') q v = None))
          \<and> p_name (processes s' p) = take (PROC_NAME_SIZE - 1) name \<and> p_id (processes s' p) = s_next_process_id s
          \<and> s_next_process_id s' = s_next_process_id s + 1 \<and> uncontended s' (VMM_MUTEX p)
          \<and> hashtable_get (process_item_key (processes s')) (s_process_table s') (s_next_process_id s) s' = Some p
          \<and> (free_space s' p = {PAGE_SIZE ..< USER_REGION_SIZE} \<or> free_space s' p = {}))"
proof -
  have vok: "vmm_ok s Ob R U P" and m: "memory s Ob U" and rd: "cache_ready s PROCESS_CACHE" "cache_ready s ARCH_PROC_CACHE" "cache_ready s ENTRY_CACHE"
    and sub: "P \<subseteq> Ob PROCESS_CACHE" and arch: "\<And>q. q \<in> P \<Longrightarrow> p_arch_data (processes s q) \<in> Ob ARCH_PROC_CACHE"
    and tab: "table_ok (process_item_key (processes s)) (s_process_table s) (buckets s) (hnext s)"
      "table_items (s_process_table s) (buckets s) (hnext s) \<subseteq> P"
    using ok by (simp_all add: procs_ok_def vmm_ok_def)
  obtain p s1 where p: "slab_cache_alloc PROCESS_CACHE s = Some (p, s1)" "slab_frame s s1" "same_shape (caches s) (caches s1)"
    "memory s1 (if p = NULL then Ob else Ob(PROCESS_CACHE := insert p (Ob PROCESS_CACHE))) U"
    "if p = NULL then free_stack s = [] else p \<notin> Ob PROCESS_CACHE"
    using alloc_object [OF m rd(1)] by blast
  have f1: "processes s1 = processes s" "ptes s1 = ptes s" "arch_cr3 s1 = arch_cr3 s" "mutexes s1 = mutexes s" "buckets s1 = buckets s"
    "hnext s1 = hnext s" "s_process_table s1 = s_process_table s" "s_next_process_id s1 = s_next_process_id s" "cache_ready s1 c = cache_ready s c"
    "proc_cr3 q s1 = proc_cr3 q s" for c q
    using p(2) ready_shape [OF p(3)] by (auto elim!: slab_frameE simp: proc_cr3_def)
  let ?O1 = "if p = NULL then Ob else Ob(PROCESS_CACHE := insert p (Ob PROCESS_CACHE))"
  have v1: "vmm_ok s1 ?O1 R U P"
    by (rule vmm_ok_moved [OF vok]) (use p(4) vok rd f1 in \<open>simp_all add: vmm_ok_def\<close>)
  show ?thesis
  proof (cases "p = NULL")
    case True
    then show ?thesis using p(1) v1 f1 rd sub arch tab
      by (intro exI [of _ NULL] exI [of _ s1]) (simp add: process_create_def procs_ok_def)
  next
    case pn: False
    have pnew: "p \<notin> Ob PROCESS_CACHE" "p \<notin> P" using p(5) pn sub by auto
    have v1': "vmm_ok s1 (Ob(PROCESS_CACHE := insert p (Ob PROCESS_CACHE))) R U P" using v1 pn by simp
    have arch1: "p_arch_data (processes s1 q) \<in> (Ob(PROCESS_CACHE := insert p (Ob PROCESS_CACHE))) ARCH_PROC_CACHE" if "q \<in> P" for q
      using arch [OF that] f1 by simp
    obtain res s2 where c: "process_arch_create p s1 = Some (res, s2)" "proc_frame s1 s2" "mutexes s2 = mutexes s1"
      "\<forall>r \<in> R. \<forall>v. user_addr v \<longrightarrow> translate (ptes s2) r v = translate (ptes s1) r v"
      and alt: "if res \<noteq> 0 then vmm_ok s2 (Ob(PROCESS_CACHE := insert p (Ob PROCESS_CACHE))) R U P \<and> processes s2 = processes s1
          \<and> (\<forall>q \<in> P. proc_cr3 q s2 = proc_cr3 q s1)
        else \<exists>a q. a \<notin> (Ob(PROCESS_CACHE := insert p (Ob PROCESS_CACHE))) ARCH_PROC_CACHE \<and> usable_page q \<and> q \<notin> U
         \<and> processes s2 = (processes s1)(p := (processes s1 p)\<lparr>p_arch_data := a\<rparr>) \<and> arch_cr3 s2 = (arch_cr3 s1)(a := q)
         \<and> vmm_ok s2 (Ob(PROCESS_CACHE := insert p (Ob PROCESS_CACHE), ARCH_PROC_CACHE :=
              insert a ((Ob(PROCESS_CACHE := insert p (Ob PROCESS_CACHE))) ARCH_PROC_CACHE))) (insert q R) (insert q U) P
         \<and> (\<forall>v. user_addr v \<longrightarrow> translate (ptes s2) q v = None)"
      using process_arch_create_ok [OF v1' _ arch1 pnew(2)] f1(9) rd(2) by blast
    note f2 = proc_frame_keeps [OF c(2)]
    have t2: "s_process_table s2 = s_process_table s" "s_next_process_id s2 = s_next_process_id s"
      using c(2) f1 by (auto elim!: proc_frameE)
    show ?thesis
    proof (cases "res = 0")
      case False
      then have alt': "vmm_ok s2 (Ob(PROCESS_CACHE := insert p (Ob PROCESS_CACHE))) R U P" "processes s2 = processes s"
        "\<forall>q \<in> P. proc_cr3 q s2 = proc_cr3 q s" using alt f1 by simp_all
      have m2: "memory s2 (Ob(PROCESS_CACHE := insert p (Ob PROCESS_CACHE))) U" and r2: "cache_ready s2 PROCESS_CACHE"
        using alt'(1) f2(1) f1(9) rd(1) by (simp_all add: vmm_ok_def)
      obtain s3 where s3: "slab_cache_free PROCESS_CACHE p s2 = Some s3" "slab_frame s2 s3" "same_shape (caches s2) (caches s3)"
        "memory s3 Ob U"
      proof -
        have "(Ob(PROCESS_CACHE := insert p (Ob PROCESS_CACHE)))(PROCESS_CACHE := insert p (Ob PROCESS_CACHE) - {p}) = Ob"
          using pnew(1) by (auto simp: fun_eq_iff)
        then show thesis using that free_object [OF m2 r2, of p] by auto
      qed
      have f3: "processes s3 = processes s" "ptes s3 = ptes s2" "arch_cr3 s3 = arch_cr3 s2" "buckets s3 = buckets s" "hnext s3 = hnext s"
        "s_process_table s3 = s_process_table s" "s_next_process_id s3 = s_next_process_id s" "cache_ready s3 c = cache_ready s c"
        "proc_cr3 q s3 = proc_cr3 q s2" for c q
        using s3(2) ready_shape [OF s3(3)] f2 f1 t2 alt'(2) by (auto elim!: slab_frameE simp: proc_cr3_def)
      have v3: "vmm_ok s3 Ob R U P"
        by (rule vmm_ok_moved [OF alt'(1)]) (use s3(4) alt' rd f3 in \<open>simp_all add: vmm_ok_def\<close>)
      have "process_create name s = Some (NULL, s3)" using p(1) pn c(1) False s3(1) by (simp add: process_create_def)
      then show ?thesis using v3 f3 f1 rd sub arch tab c(4) alt'(3)
        by (intro exI [of _ NULL] exI [of _ s3]) (simp add: procs_ok_def)
    next
      case True
      let ?O2 = "\<lambda>a. Ob(PROCESS_CACHE := insert p (Ob PROCESS_CACHE), ARCH_PROC_CACHE := insert a (Ob ARCH_PROC_CACHE))"
      obtain a q where aq: "a \<notin> Ob ARCH_PROC_CACHE" "usable_page q" "q \<notin> U" "processes s2 = (processes s)(p := (processes s p)\<lparr>p_arch_data := a\<rparr>)"
        "arch_cr3 s2 = (arch_cr3 s)(a := q)" "vmm_ok s2 (?O2 a) (insert q R) (insert q U) P" "\<forall>v. user_addr v \<longrightarrow> translate (ptes s2) q v = None"
        using alt True f1 by auto
      have qR: "q \<notin> R" using tables_root [of "ptes s" R U] aq(3) vok by (auto simp: vmm_ok_def)
      have cr: "proc_cr3 p s2 = q" "\<And>r. r \<in> P \<Longrightarrow> proc_cr3 r s2 = proc_cr3 r s"
        using aq(4,5) arch aq(1) pnew(2) by (auto simp: proc_cr3_def)
      have diff: "proc_cr3 r s2 \<noteq> q" if "r \<in> P" for r
        using vmm_ok_space [OF vok that] cr(2) [OF that] qR by (auto simp: space_ok_def)
      obtain s3 L where s3: "vmm_context_init p s2 = Some (0, s3)" "vmm_ok s3 ((?O2 a)(ENTRY_CACHE := L)) (insert q R) (insert q U) (insert p P)"
        "vmm_frame p s2 s3" "ptes s3 = ptes s2" "uncontended s3 (VMM_MUTEX p)"
        "free_space s3 p = {PAGE_SIZE ..< USER_REGION_SIZE} \<or> free_space s3 p = {}"
        using vmm_context_init_ok [OF aq(6) pnew(2) pn] cr(1) diff aq(7) by auto
      note f3 = vmm_frame_keeps [OF s3(3)]
      have t3: "s_process_table s3 = s_process_table s" "s_next_process_id s3 = s_next_process_id s" "buckets s3 = buckets s" "hnext s3 = hnext s"
        "arch_cr3 s3 = arch_cr3 s2" "cache_ready s3 c = cache_ready s c" for c
        using s3(3) t2 f2 f1 by (auto elim!: vmm_frameE simp: same_shape_def)
      have key: "process_item_key (processes s3) y = process_item_key (processes s) y" for y
        using f3(3) [of y] aq(4) by (simp add: process_item_key_def)
      then have key': "process_item_key (processes s3) = process_item_key (processes s)" by (rule ext)
      have tab3: "table_ok (process_item_key (processes s3)) (s_process_table s3) (buckets s3) (hnext s3)"
        "table_items (s_process_table s3) (buckets s3) (hnext s3) \<subseteq> P" using tab unfolding key' t3 .
      obtain s4 where s4: "process_register p (set_process p (\<lambda>x. x\<lparr>p_name := take (PROC_NAME_SIZE - 1) name\<rparr>) s3) = Some s4"
        "vmm_ok s4 ((?O2 a)(ENTRY_CACHE := L)) (insert q R) (insert q U) (insert p P)"
        "table_ok (process_item_key (processes s4)) (s_process_table s4) (buckets s4) (hnext s4)"
        "table_items (s_process_table s4) (buckets s4) (hnext s4) \<subseteq> insert p P"
        "hashtable_get (process_item_key (processes s4)) (s_process_table s4) (s_next_process_id s3) s4 = Some p"
        "processes s4 = (processes s3)(p := (processes s3 p)\<lparr>p_name := take (PROC_NAME_SIZE - 1) name, p_id := s_next_process_id s3\<rparr>)"
        "s_next_process_id s4 = s_next_process_id s3 + 1" "ptes s4 = ptes s3" "arch_cr3 s4 = arch_cr3 s3" "mutexes s4 = mutexes s3" "caches s4 = caches s3"
        using process_enroll_ok [OF s3(2) pnew(2) pn tab3] by blast
      have run: "process_create name s = Some (p, s4)" using p(1) pn c(1) True s3(1) s4(1) by (simp add: process_create_def)
      have cr4: "proc_cr3 r s4 = proc_cr3 r s2" for r
        using f3(5) [of r] s4(6,9) t3(5) by (cases "r = p") (simp_all add: proc_cr3_def)
      have ready4: "cache_ready s4 c = cache_ready s c" for c using s4(11) t3(6) by simp
      have ad4: "p_arch_data (processes s4 r) = (if r = p then a else p_arch_data (processes s r))" for r
        using f3(5) [of r] s4(6) aq(4) by (cases "r = p") simp_all
      have fs4: "free_space s4 p = free_space s3 p" using s4(6) by (simp add: free_space_def)
      have un4: "uncontended s4 (VMM_MUTEX p)" using s3(5) s4(10) by (simp add: uncontended_def)
      have pok: "procs_ok s4 ((?O2 a)(ENTRY_CACHE := L)) (insert q R) (insert q U) (insert p P)"
        unfolding procs_ok_def using s4(2-4) ready4 rd sub arch ad4 by auto
      have tr: "translate (ptes s4) r v = translate (ptes s) r v" if "r \<in> R" "user_addr v" for r v
        using c(4) that s4(8) s3(4) f1(2) by simp
      have trq: "\<forall>v. user_addr v \<longrightarrow> translate (ptes s4) q v = None" using aq(7) s4(8) s3(4) by simp
      have ids: "p_name (processes s4 p) = take (PROC_NAME_SIZE - 1) name" "p_id (processes s4 p) = s_next_process_id s"
        "s_next_process_id s4 = s_next_process_id s + 1"
        "hashtable_get (process_item_key (processes s4)) (s_process_table s4) (s_next_process_id s) s4 = Some p"
        using s4(5,6,7) t3(2) by simp_all
      show ?thesis
      proof (intro exI [of _ p] exI [of _ s4] conjI)
        show "process_create name s = Some (p, s4)" by (rule run)
        show "\<forall>r \<in> R. \<forall>v. user_addr v \<longrightarrow> translate (ptes s4) r v = translate (ptes s) r v" using tr by blast
        show "\<forall>q \<in> P. proc_cr3 q s4 = proc_cr3 q s" using cr4 cr(2) by simp
        have "\<exists>L a q. procs_ok s4 (Ob(PROCESS_CACHE := insert p (Ob PROCESS_CACHE), ARCH_PROC_CACHE := insert a (Ob ARCH_PROC_CACHE),
                ENTRY_CACHE := L)) (insert q R) (insert q U) (insert p P)
            \<and> proc_cr3 p s4 = q \<and> q \<notin> R \<and> (\<forall>v. user_addr v \<longrightarrow> translate (ptes s4) q v = None)"
          using pok cr4 [of p] cr(1) qR trq by blast
        then show "if p = NULL then procs_ok s4 Ob R U P \<and> s_next_process_id s4 = s_next_process_id s
          else p \<notin> P \<and> (\<exists>L a q. procs_ok s4 (Ob(PROCESS_CACHE := insert p (Ob PROCESS_CACHE), ARCH_PROC_CACHE := insert a (Ob ARCH_PROC_CACHE),
                ENTRY_CACHE := L)) (insert q R) (insert q U) (insert p P)
            \<and> proc_cr3 p s4 = q \<and> q \<notin> R \<and> (\<forall>v. user_addr v \<longrightarrow> translate (ptes s4) q v = None))
          \<and> p_name (processes s4 p) = take (PROC_NAME_SIZE - 1) name \<and> p_id (processes s4 p) = s_next_process_id s
          \<and> s_next_process_id s4 = s_next_process_id s + 1 \<and> uncontended s4 (VMM_MUTEX p)
          \<and> hashtable_get (process_item_key (processes s4)) (s_process_table s4) (s_next_process_id s) s4 = Some p
          \<and> (free_space s4 p = {PAGE_SIZE ..< USER_REGION_SIZE} \<or> free_space s4 p = {})"
          using pn pnew(2) ids un4 fs4 s3(6) by (simp only: if_False simp_thms)
      qed
    qed
  qed
qed

section \<open>Properties\<close>

text \<open>
  C21: \<^verbatim>\<open>process_create\<close> always returns.  It returns NULL with nothing taken, or a new process that has the
  next id and the name cut to 31 characters, that the process table returns for the id, and whose address
  space is its own: its root is shared with no other, nothing is mapped in it, and its free map holds the
  whole user region but the first page (or nothing, when there was no memory for the entry).  Every other
  address space is as it was.
\<close>

theorem process_create_fresh:
  assumes "procs_ok s Ob R U P"
  shows "\<exists>p s'. process_create name s = Some (p, s')
    \<and> (\<forall>q \<in> P. proc_cr3 q s' = proc_cr3 q s \<and> (\<forall>v. user_addr v \<longrightarrow> translate (ptes s') (proc_cr3 q s) v = translate (ptes s) (proc_cr3 q s) v))
    \<and> (if p = NULL then procs_ok s' Ob R U P \<and> s_next_process_id s' = s_next_process_id s
       else p \<notin> P \<and> (\<exists>Ob' R' U'. procs_ok s' Ob' R' U' (insert p P))
          \<and> proc_cr3 p s' \<notin> R \<and> (\<forall>v. user_addr v \<longrightarrow> translate (ptes s') (proc_cr3 p s') v = None)
          \<and> p_name (processes s' p) = take 31 name \<and> p_id (processes s' p) = s_next_process_id s
          \<and> s_next_process_id s' = s_next_process_id s + 1
          \<and> hashtable_get (process_item_key (processes s')) (s_process_table s') (s_next_process_id s) s' = Some p
          \<and> (free_space s' p = {PAGE_SIZE ..< USER_REGION_SIZE} \<or> free_space s' p = {}))"
proof -
  obtain p s' where run: "process_create name s = Some (p, s')"
    and old: "\<forall>r \<in> R. \<forall>v. user_addr v \<longrightarrow> translate (ptes s') r v = translate (ptes s) r v" "\<forall>q \<in> P. proc_cr3 q s' = proc_cr3 q s"
    and new: "if p = NULL then procs_ok s' Ob R U P \<and> s_next_process_id s' = s_next_process_id s
       else p \<notin> P \<and> (\<exists>L a q. procs_ok s' (Ob(PROCESS_CACHE := insert p (Ob PROCESS_CACHE), ARCH_PROC_CACHE := insert a (Ob ARCH_PROC_CACHE),
                ENTRY_CACHE := L)) (insert q R) (insert q U) (insert p P)
            \<and> proc_cr3 p s' = q \<and> q \<notin> R \<and> (\<forall>v. user_addr v \<longrightarrow> translate (ptes s') q v = None))
          \<and> p_name (processes s' p) = take (PROC_NAME_SIZE - 1) name \<and> p_id (processes s' p) = s_next_process_id s
          \<and> s_next_process_id s' = s_next_process_id s + 1 \<and> uncontended s' (VMM_MUTEX p)
          \<and> hashtable_get (process_item_key (processes s')) (s_process_table s') (s_next_process_id s) s' = Some p
          \<and> (free_space s' p = {PAGE_SIZE ..< USER_REGION_SIZE} \<or> free_space s' p = {})"
    using process_create_ok [OF assms, of name] by blast
  have root: "proc_cr3 q s \<in> R" if "q \<in> P" for q using assms that vmm_ok_space [of s Ob R U P q] by (simp add: procs_ok_def space_ok_def)
  have frame: "\<forall>q \<in> P. proc_cr3 q s' = proc_cr3 q s \<and> (\<forall>v. user_addr v \<longrightarrow> translate (ptes s') (proc_cr3 q s) v = translate (ptes s) (proc_cr3 q s) v)"
    using old root by blast
  show ?thesis
  proof (cases "p = NULL")
    case True
    then show ?thesis using run frame new by (intro exI [of _ p] exI [of _ s']) simp
  next
    case False
    then have "\<exists>Ob' R' U'. procs_ok s' Ob' R' U' (insert p P)" "proc_cr3 p s' \<notin> R"
      "\<forall>v. user_addr v \<longrightarrow> translate (ptes s') (proc_cr3 p s') v = None" using new by auto
    then show ?thesis using run frame new False by (intro exI [of _ p] exI [of _ s']) simp
  qed
qed

text \<open>A state with no process yet.\<close>

abbreviation (input) sample_procs :: proc_state where
  "sample_procs \<equiv> vmm_state.extend sample_vmm \<lparr>s_next_process_id = 0,
     s_process_table = \<lparr>ht_table = PHYS_MAP_BASE + 0x90000, ht_size = 512, ht_items = 0, ht_hash = hashtable_hash_int, ht_compare = (=)\<rparr>\<rparr>"

lemmas proc_defs = vmm_defs vmm_state.defs

lemma sample_procs_ok: "procs_ok sample_procs (\<lambda>_. {}) {0x100000} {0x100000} {}"
proof -
  have "vmm_ok sample_procs (\<lambda>_. {}) {0x100000} {0x100000} {}" using sample_vmm_ok by (simp add: vmm_ok_def proc_defs)
  then show ?thesis by (simp add: procs_ok_def table_ok_def table_items_def chain_of_def proc_defs)
qed

lemma process_create_fresh_witness: "\<exists>p s'. process_create [105, 110, 105, 116] sample_procs = Some (p, s')"
  using process_create_fresh [OF sample_procs_ok] by blast

end
