(* ===== verification/Sections.thy ===== *)
theory Sections
  imports Objects
begin

text \<open>
  Allocation inside a critical section: the object allocator takes its own locks only, so the lock of
  the section around it still knows the interrupt flag it has to restore.
\<close>

lemma pmm_alloc_locks: "pmm_alloc s = Some (p, s') \<Longrightarrow> locks_ok s \<Longrightarrow> l \<noteq> PMM_LOCK \<Longrightarrow> lock_ints l (locks s') = lock_ints l (locks s)"
  by (auto simp: pmm_alloc_def op_simps Let_def split: if_splits)

lemma pmm_free_locks: "pmm_free p s = Some s' \<Longrightarrow> locks_ok s \<Longrightarrow> l \<noteq> PMM_LOCK \<Longrightarrow> lock_ints l (locks s') = lock_ints l (locks s)"
  by (auto simp: pmm_free_def op_simps Let_def split: if_splits)

lemma slab_create_locks:
  "slab_create c s = Some (x, s') \<Longrightarrow> locks_ok s \<Longrightarrow> l \<noteq> PMM_LOCK \<Longrightarrow> lock_ints l (locks s') = lock_ints l (locks s)"
  unfolding slab_create_def bind_Some_conv
  by (elim exE conjE) (auto simp: Let_def bind_Some_conv case_prod_beta split: if_split_asm dest: pmm_alloc_locks [where l = l])

lemma slab_refill_locks:
  "slab_refill c s = Some (r, s') \<Longrightarrow> locks_ok s \<Longrightarrow> l \<noteq> PMM_LOCK \<Longrightarrow> lock_ints l (locks s') = lock_ints l (locks s)"
  by (auto simp: slab_refill_def Let_def bind_Some_conv split: if_split_asm dest: slab_create_locks [where l = l])

lemma slab_pop_locks: "slab_pop c s = Some (r, s') \<Longrightarrow> locks s' = locks s"
  by (auto simp: slab_pop_def Let_def split: if_splits)

lemma alloc_locks:
  assumes "slab_cache_alloc c s = Some (p, s')" and "locks_ok s" and "l \<noteq> CACHE_LOCK c" and "l \<noteq> PMM_LOCK"
  shows "lock_ints l (locks s') = lock_ints l (locks s)"
proof -
  let ?s = "s\<lparr>int_flag := False, locks := lock_held (CACHE_LOCK c) (int_flag s) (locks s)\<rparr>"
  obtain r s1 where r: "slab_refill c ?s = Some (r, s1)"
    "if r then \<exists>s2. slab_pop c s1 = Some (p, s2) \<and> s' = spinunlock_enable (CACHE_LOCK c) s2 else s' = spinunlock_enable (CACHE_LOCK c) s1"
    using assms(1,2) by (auto simp: slab_cache_alloc_def op_simps bind_Some_conv split: if_splits)
  have "lock_ints l (locks s1) = lock_ints l (locks s)"
    using slab_refill_locks [OF r(1) _ assms(4)] assms(2,3) by simp
  then show ?thesis using r(2) slab_pop_locks [of c s1 p] by (auto simp: op_simps split: if_splits)
qed

lemma free_locks:
  assumes "slab_cache_free c p s = Some s'" and "locks_ok s" and "l \<noteq> CACHE_LOCK c" and "l \<noteq> PMM_LOCK"
  shows "lock_ints l (locks s') = lock_ints l (locks s)"
  using assms
  by (auto simp: slab_cache_free_def slab_free_def op_simps Let_def bind_Some_conv split: if_splits prod.splits dest!: pmm_free_locks [where l = l])

end
