(* ===== verification/Switching.thy ===== *)
theory Switching
  imports Mutex
begin

text \<open>
  What a switch to another thread leaves alone: the registers, the queues and the states of threads
  change, the objects of the other components do not.
\<close>

section \<open>What a switch leaves alone\<close>

definition switch_frame :: "'a sched_state_scheme \<Rightarrow> 'a sched_state_scheme \<Rightarrow> bool" where
  "switch_frame s s' \<longleftrightarrow> s' = s\<lparr>locks := locks s', int_flag := int_flag s', io_out := io_out s', arch_rsp := arch_rsp s',
     threads := threads s', s_ready_queue := s_ready_queue s', sched_link := sched_link s', thread_current := thread_current s',
     tss_rsp0 := tss_rsp0 s', cr3 := cr3 s', cpu_regs := cpu_regs s', irq_ctxs := irq_ctxs s'\<rparr>"

lemma switch_frameE:
  assumes "switch_frame s s'"
  obtains L b io ar th rq li cu tr c re ic where "s' = s\<lparr>locks := L, int_flag := b, io_out := io, arch_rsp := ar,
     threads := th, s_ready_queue := rq, sched_link := li, thread_current := cu, tss_rsp0 := tr, cr3 := c, cpu_regs := re, irq_ctxs := ic\<rparr>"
  using assms unfolding switch_frame_def by blast

lemma bind_SomeE: "Option.bind m f = Some y \<Longrightarrow> (\<And>x. m = Some x \<Longrightarrow> f x = Some y \<Longrightarrow> P) \<Longrightarrow> P"
  by (cases m) simp_all

lemma switch_frame_trans: "switch_frame s s' \<Longrightarrow> switch_frame s' s'' \<Longrightarrow> switch_frame s s''"
  by (elim switch_frameE) (simp add: switch_frame_def)

lemma sched_add_ready_frame: "sched_add_ready t s = Some s' \<Longrightarrow> locks_ok s \<Longrightarrow> switch_frame s s' \<and> locks_ok s'"
  by (auto simp: sched_add_ready_def switch_frame_def set_thread_def op_simps bind_Some_conv)

lemma sched_next_frame:
  assumes "sched_next c s = Some (n, s')" and "locks_ok s"
  shows "switch_frame s s'"
proof -
  let ?s = "s\<lparr>int_flag := False, locks := lock_held SCHED_LOCK (int_flag s) (locks s)\<rparr>"
  obtain s1 where s1: "(if c \<noteq> NULL \<and> c \<noteq> thread_idle ?s then
             (case t_state (threads ?s c) of RUNNING \<Rightarrow> sched_add_ready c ?s | SLEEPING \<Rightarrow> Some ?s | DEAD \<Rightarrow> Some ?s | _ \<Rightarrow> None)
           else Some ?s) = Some s1"
    and rest: "(let (next, q) = threadqueue_pop (s_ready_queue s1) (sched_link s1);
         s = s1\<lparr>s_ready_queue := q\<rparr>;
         next = (if next = NULL then thread_idle s else next)
     in if next = NULL then None
     else
       let s = s\<lparr>thread_current := next\<rparr>;
           s = set_thread next (\<lambda>x. x\<lparr>t_state := RUNNING\<rparr>) s
       in Some (next, spinunlock_enable SCHED_LOCK s)) = Some (n, s')"
    using assms(1) unfolding sched_next_def spinlock_disable_ok [OF assms(2)] Option.bind.simps by (elim bind_SomeE) (rule that)
  have a: "switch_frame s ?s" by (simp add: switch_frame_def)
  have b: "switch_frame ?s s1"
    using s1 sched_add_ready_frame [of c ?s s1] assms(2)
    by (auto simp: switch_frame_def split: if_split_asm thread_state.split_asm)
  have c: "switch_frame s1 s'"
    using rest by (auto simp: Let_def case_prod_beta switch_frame_def set_thread_def op_simps split: if_split_asm)
  show ?thesis by (rule switch_frame_trans [OF switch_frame_trans [OF a b] c])
qed

lemma sched_irq_frame:
  assumes "sched_irq p s = Some s'" and "locks_ok s"
  shows "switch_frame s s'"
proof -
  let ?s1 = "pic_send_eoi 0 s"
  let ?s = "if thread_current ?s1 \<noteq> NULL then ?s1\<lparr>arch_rsp := (arch_rsp ?s1)(t_arch_data (threads ?s1 (thread_current ?s1)) := p)\<rparr> else ?s1"
  obtain n s2 where n: "sched_next (thread_current ?s1) ?s = Some (n, s2)"
    and rest: "Some s' = (let k = threads s2 n;
         s = s2\<lparr>tss_rsp0 := kernel_stack k + kernel_stack_size k\<rparr>;
         s = (if t_proc k \<noteq> NULL then cpu_set_cr3 (arch_cr3 s (p_arch_data (processes s (t_proc k)))) s else s)
      in Some (sched_arch_switch_to (arch_rsp s (t_arch_data k)) s))"
    using assms(1) unfolding sched_irq_def Let_def by (auto simp: bind_Some_conv split: if_split_asm)
  have a: "switch_frame s ?s" by (simp add: switch_frame_def pic_send_eoi_def outb_def)
  have "locks_ok ?s" using assms(2) by (simp add: pic_send_eoi_def outb_def)
  then have b: "switch_frame ?s s2" by (rule sched_next_frame [OF n])
  have c: "switch_frame s2 s'"
    using rest by (simp add: Let_def switch_frame_def cpu_set_cr3_def sched_arch_switch_to_def split: if_split_asm)
  show ?thesis by (rule switch_frame_trans [OF switch_frame_trans [OF a b] c])
qed

end
