(* ===== verification/Port.thy ===== *)
theory Port
  imports Process Sections Switching
begin

text \<open>
  Messages and ports: \<^verbatim>\<open>ipc/message.c\<close> and \<^verbatim>\<open>ipc/port.c\<close>.  A port is a queue of messages and a queue of
  threads that wait for one.  \<open>sys_ipc_port_receive\<close> is one turn of its loop: it takes a message, or queues
  the thread and gives up the CPU; \<open>receive_turn\<close> is what the thread goes through again when it is resumed.
\<close>

section \<open>Data\<close>

text \<open>\<^verbatim>\<open>struct ipc_user_msg\<close> is six words.  \<open>msg_data\<close> is the list of them.\<close>

record ipc_message =
  msg_sender :: u32
  msg_data :: "u64 list"
  msg_next :: ptr

record ipc_port =
  port_id :: u32
  msg_first :: ptr
  msg_last :: ptr
  port_waiters :: threadqueue

record port_state = proc_state +
  ipc_messages :: "ptr \<Rightarrow> ipc_message"
  ipc_ports :: "ptr \<Rightarrow> ipc_port"
  s_next_port_id :: u32
  s_port_table :: "u32 hashtable"

definition set_message :: "ptr \<Rightarrow> (ipc_message \<Rightarrow> ipc_message) \<Rightarrow> 'a port_state_scheme \<Rightarrow> 'a port_state_scheme" where
  "set_message m f s = s\<lparr>ipc_messages := (ipc_messages s)(m := f (ipc_messages s m))\<rparr>"

definition set_port :: "ptr \<Rightarrow> (ipc_port \<Rightarrow> ipc_port) \<Rightarrow> 'a port_state_scheme \<Rightarrow> 'a port_state_scheme" where
  "set_port p f s = s\<lparr>ipc_ports := (ipc_ports s)(p := f (ipc_ports s p))\<rparr>"

section \<open>Messages\<close>

definition ipc_message_create :: "'a port_state_scheme \<Rightarrow> (ptr \<times> 'a port_state_scheme) option" where
  "ipc_message_create s = do {
     (m, s) \<leftarrow> slab_cache_alloc MESSAGE_CACHE s;
     if m = NULL then Some (NULL, s)
     else Some (m, set_message m (\<lambda>x. x\<lparr>msg_next := NULL\<rparr>) s)
   }"

definition ipc_message_destroy :: "ptr \<Rightarrow> 'a port_state_scheme \<Rightarrow> 'a port_state_scheme option" where
  "ipc_message_destroy m s = slab_cache_free MESSAGE_CACHE m s"

text \<open>The size of \<^verbatim>\<open>struct ipc_message\<close> is 64.\<close>

definition ipc_message_init :: "'a port_state_scheme \<Rightarrow> 'a port_state_scheme option" where
  "ipc_message_init s = slab_cache_init MESSAGE_CACHE 64 s"

section \<open>Ports\<close>

definition ipc_port_item_key :: "(ptr \<Rightarrow> ipc_port) \<Rightarrow> ptr \<Rightarrow> u32" where
  "ipc_port_item_key ports item = port_id (ports item)"

definition ipc_port_create :: "'a port_state_scheme \<Rightarrow> (ptr \<times> 'a port_state_scheme) option" where
  "ipc_port_create s = do {
     (p, s) \<leftarrow> slab_cache_alloc PORT_CACHE s;
     if p = NULL then Some (NULL, s)
     else Some (p, set_port p (\<lambda>x. x\<lparr>port_id := -1, msg_first := NULL, msg_last := NULL,
                                    port_waiters := threadqueue_init (port_waiters x)\<rparr>) s)
   }"

text \<open>
  The loop of \<^verbatim>\<open>ipc_port_destroy\<close>.  It reads the link of a message after it has freed it; the allocator
  overwrites the first word of a freed object only, and the link is the last.
\<close>

partial_function (option) destroy_messages :: "ptr \<Rightarrow> 'a port_state_scheme \<Rightarrow> 'a port_state_scheme option" where
  "destroy_messages m s =
     (if m = NULL then Some s
      else do {
        s \<leftarrow> ipc_message_destroy m s;
        destroy_messages (msg_next (ipc_messages s m)) s
      })"

definition ipc_port_destroy :: "ptr \<Rightarrow> 'a port_state_scheme \<Rightarrow> 'a port_state_scheme option" where
  "ipc_port_destroy p s = do {
     s \<leftarrow> destroy_messages (msg_first (ipc_ports s p)) s;
     slab_cache_free PORT_CACHE p s
   }"

definition ipc_port_insert :: "ptr \<Rightarrow> 'a port_state_scheme \<Rightarrow> (int \<times> 'a port_state_scheme) option" where
  "ipc_port_insert p s = do {
     s \<leftarrow> spinlock_disable PORT_LOCK s;
     let s = set_port p (\<lambda>x. x\<lparr>port_id := s_next_port_id s\<rparr>) s;
     let s = s\<lparr>s_next_port_id := s_next_port_id s + 1\<rparr>;
     (tab, s) \<leftarrow> hashtable_add (ipc_port_item_key (ipc_ports s)) (s_port_table s) p s;
     Some (0, spinunlock_enable PORT_LOCK (s\<lparr>s_port_table := tab\<rparr>))
   }"

definition do_send :: "ptr \<Rightarrow> ptr \<Rightarrow> 'a port_state_scheme \<Rightarrow> 'a port_state_scheme option" where
  "do_send p msg s = do {
     let s = (if msg_last (ipc_ports s p) \<noteq> NULL
              then set_message (msg_last (ipc_ports s p)) (\<lambda>x. x\<lparr>msg_next := msg\<rparr>) s else s);
     let s = set_port p (\<lambda>x. x\<lparr>msg_last := msg\<rparr>) s;
     let s = (if msg_first (ipc_ports s p) = NULL then set_port p (\<lambda>x. x\<lparr>msg_first := msg\<rparr>) s else s);
     let (t, q) = threadqueue_pop (port_waiters (ipc_ports s p)) (sched_link s);
     let s = set_port p (\<lambda>x. x\<lparr>port_waiters := q\<rparr>) s;
     if t \<noteq> NULL then do {
       (_, s) \<leftarrow> thread_wake_up t s;
       Some s
     }
     else Some s
   }"

definition ipc_port_send :: "u32 \<Rightarrow> u64 list \<Rightarrow> u32 \<Rightarrow> 'a port_state_scheme \<Rightarrow> (int \<times> 'a port_state_scheme) option" where
  "ipc_port_send port data sender s = do {
     s \<leftarrow> spinlock_disable PORT_LOCK s;
     p \<leftarrow> hashtable_get (ipc_port_item_key (ipc_ports s)) (s_port_table s) port s;
     if p = NULL then Some (-1, spinunlock_enable PORT_LOCK s)
     else do {
       (msg, s) \<leftarrow> ipc_message_create s;
       if msg = NULL then Some (-1, spinunlock_enable PORT_LOCK s)
       else do {
         let s = set_message msg (\<lambda>x. x\<lparr>msg_sender := sender, msg_data := data\<rparr>) s;
         s \<leftarrow> do_send p msg s;
         Some (0, spinunlock_enable PORT_LOCK s)
       }
     }
   }"

definition sys_ipc_port_create :: "'a port_state_scheme \<Rightarrow> (int \<times> 'a port_state_scheme) option" where
  "sys_ipc_port_create s = do {
     (p, s) \<leftarrow> ipc_port_create s;
     if p = NULL then Some (-1, s)
     else do {
       (_, s) \<leftarrow> ipc_port_insert p s;
       Some (sint (port_id (ipc_ports s p)), s)
     }
   }"

definition sys_ipc_port_delete :: "u32 \<Rightarrow> 'a port_state_scheme \<Rightarrow> (int \<times> 'a port_state_scheme) option" where
  "sys_ipc_port_delete port s = do {
     s \<leftarrow> spinlock_disable PORT_LOCK s;
     (p, tab, s) \<leftarrow> hashtable_remove (ipc_port_item_key (ipc_ports s)) (s_port_table s) port s;
     let s = spinunlock_enable PORT_LOCK (s\<lparr>s_port_table := tab\<rparr>);
     if p = NULL then Some (-1, s)
     else do {
       s \<leftarrow> ipc_port_destroy p s;
       Some (0, s)
     }
   }"

definition sys_ipc_port_send :: "u32 \<Rightarrow> u64 list \<Rightarrow> 'a port_state_scheme \<Rightarrow> (int \<times> 'a port_state_scheme) option" where
  "sys_ipc_port_send port data s =
     ipc_port_send port data (p_id (processes s (t_proc (threads s (thread_current s))))) s"

text \<open>
  The loop of \<^verbatim>\<open>sys_ipc_port_receive\<close>, with the lock held, and what follows it: the result, and the message and
  the sender that are stored for the caller (who may pass NULL for the sender and not get it).
\<close>

type_synonym received = "int \<times> (u64 list \<times> u32) option"

definition receive_turn :: "ptr \<Rightarrow> 'a port_state_scheme \<Rightarrow> (received outcome \<times> 'a port_state_scheme) option" where
  "receive_turn p s =
     (if msg_first (ipc_ports s p) = NULL then do {
        (q, link) \<leftarrow> threadqueue_add (port_waiters (ipc_ports s p)) (thread_current s) (sched_link s);
        let s = set_port p (\<lambda>x. x\<lparr>port_waiters := q\<rparr>) (s\<lparr>sched_link := link\<rparr>);
        let s = spinunlock PORT_LOCK s;
        s \<leftarrow> thread_sleep s;
        Some (Blocked, s)
      }
      else do {
        let msg = msg_first (ipc_ports s p);
        let s = set_port p (\<lambda>x. x\<lparr>msg_first := msg_next (ipc_messages s msg)\<rparr>) s;
        let s = (if msg_first (ipc_ports s p) = NULL then set_port p (\<lambda>x. x\<lparr>msg_last := NULL\<rparr>) s else s);
        let s = spinunlock_enable PORT_LOCK s;
        let out = (msg_data (ipc_messages s msg), msg_sender (ipc_messages s msg));
        s \<leftarrow> ipc_message_destroy msg s;
        Some (Done (0, Some out), s)
      })"

definition receive_resumed :: "ptr \<Rightarrow> 'a port_state_scheme \<Rightarrow> (received outcome \<times> 'a port_state_scheme) option" where
  "receive_resumed p s = do {
     s \<leftarrow> spinlock_disable PORT_LOCK s;
     receive_turn p s
   }"

definition sys_ipc_port_receive :: "u32 \<Rightarrow> 'a port_state_scheme \<Rightarrow> (received outcome \<times> 'a port_state_scheme) option" where
  "sys_ipc_port_receive port s = do {
     s \<leftarrow> spinlock_disable PORT_LOCK s;
     p \<leftarrow> hashtable_get (ipc_port_item_key (ipc_ports s)) (s_port_table s) port s;
     if p = NULL then Some (Done (-1, None), spinunlock_enable PORT_LOCK s)
     else receive_turn p s
   }"

text \<open>The size of \<^verbatim>\<open>struct ipc_port\<close> is 48.\<close>

definition ipc_port_init :: "'a port_state_scheme \<Rightarrow> 'a port_state_scheme option" where
  "ipc_port_init s = do {
     s \<leftarrow> slab_cache_init PORT_CACHE 48 s;
     (tab, s) \<leftarrow> hashtable_init (s_port_table s) hashtable_hash_int hashtable_compare_int s;
     Some (s\<lparr>s_port_table := tab\<rparr>)
   }"

section \<open>The queues of a port\<close>

definition port_queue :: "(ptr \<Rightarrow> ipc_message) \<Rightarrow> ipc_port \<Rightarrow> ptr list \<Rightarrow> bool" where
  "port_queue mm x ms \<longleftrightarrow> linked (\<lambda>m. msg_next (mm m)) (msg_first x) ms \<and> msg_last x = (if ms = [] then NULL else last ms)"

text \<open>What the messages say: data and sender.\<close>

definition contents :: "(ptr \<Rightarrow> ipc_message) \<Rightarrow> ptr list \<Rightarrow> (u64 list \<times> u32) list" where
  "contents mm ms = map (\<lambda>m. (msg_data (mm m), msg_sender (mm m))) ms"

lemma port_queue_cong:
  "port_queue mm x ms \<Longrightarrow> (\<And>m. m \<in> set ms \<Longrightarrow> mm' m = mm m) \<Longrightarrow> msg_first x' = msg_first x \<Longrightarrow> msg_last x' = msg_last x \<Longrightarrow> port_queue mm' x' ms"
  unfolding port_queue_def using linked_cong [of ms "\<lambda>m. msg_next (mm m)" "\<lambda>m. msg_next (mm' m)" "msg_first x"] by simp

lemma port_queue_add:
  assumes q: "port_queue mm x ms" and m: "m \<notin> set ms" "m \<noteq> NULL" "msg_next (mm m) = NULL"
  defines "mm' \<equiv> if msg_last x \<noteq> NULL then mm(msg_last x := (mm (msg_last x))\<lparr>msg_next := m\<rparr>) else mm"
    and "x' \<equiv> if msg_first x = NULL then x\<lparr>msg_last := m, msg_first := m\<rparr> else x\<lparr>msg_last := m\<rparr>"
  shows "port_queue mm' x' (ms @ [m])" and "\<And>y. y \<notin> set ms \<Longrightarrow> mm' y = mm y" and "contents mm' ns = contents mm ns"
proof -
  let ?nx = "\<lambda>m. msg_next (mm m)"
  have l: "linked ?nx (msg_first x) ms" "msg_last x = (if ms = [] then NULL else last ms)" using q by (simp_all add: port_queue_def)
  show "port_queue mm' x' (ms @ [m])"
  proof (cases ms rule: rev_cases)
    case Nil
    then show ?thesis using l m by (simp add: port_queue_def mm'_def x'_def)
  next
    case (snoc xs y)
    have ly: "linked ?nx (msg_first x) (xs @ [y])" "msg_last x = y" using l snoc by simp_all
    have nn: "y \<noteq> NULL" "msg_first x \<noteq> NULL" using linked_not_NULL [OF ly(1), of y] linked_NULL [of ?nx "xs @ [y]"] ly(1)
      by auto
    have "linked (?nx(m := NULL, y := m)) (msg_first x) (xs @ [y, m])"
      using linked_snoc [OF ly(1)] m(1,2) snoc by simp
    moreover have "(\<lambda>z. msg_next (mm' z)) = ?nx(m := NULL, y := m)" using m(3) nn ly(2) by (auto simp: mm'_def fun_eq_iff)
    ultimately show ?thesis using nn ly(2) snoc by (simp add: port_queue_def x'_def)
  qed
  show "mm' y = mm y" if "y \<notin> set ms" for y
    using that l(2) by (auto simp: mm'_def)
  show "contents mm' ns = contents mm ns" by (auto simp: contents_def mm'_def)
qed

lemma port_queue_Nil: "port_queue mm x [] \<longleftrightarrow> msg_first x = NULL \<and> msg_last x = NULL"
  by (simp add: port_queue_def)

lemma port_queue_pop:
  assumes "port_queue mm x (m # ms)"
  shows "msg_first x = m" and "m \<noteq> NULL" and "m \<notin> set ms"
    and "port_queue mm (if msg_next (mm m) = NULL then x\<lparr>msg_first := msg_next (mm m), msg_last := NULL\<rparr> else x\<lparr>msg_first := msg_next (mm m)\<rparr>) ms"
proof -
  have l: "linked (\<lambda>m. msg_next (mm m)) (msg_first x) (m # ms)" "msg_last x = last (m # ms)" using assms by (simp_all add: port_queue_def)
  show "msg_first x = m" "m \<noteq> NULL" using l by auto
  show "m \<notin> set ms" using linked_distinct [OF l(1)] by simp
  have "linked (\<lambda>m. msg_next (mm m)) (msg_next (mm m)) ms" using l(1) by auto
  then show "port_queue mm (if msg_next (mm m) = NULL then x\<lparr>msg_first := msg_next (mm m), msg_last := NULL\<rparr> else x\<lparr>msg_first := msg_next (mm m)\<rparr>) ms"
    using l(2) by (cases ms) (auto simp: port_queue_def)
qed

text \<open>
  The ports \<open>P\<close>, with the threads \<open>ws p\<close> waiting at each and its messages \<open>ms p\<close>: no thread waits twice or
  is ready while it waits, no message is at two ports.
\<close>

definition queues_ok ::
  "'a port_state_scheme \<Rightarrow> ptr set \<Rightarrow> ptr list \<Rightarrow> (ptr \<Rightarrow> ptr list) \<Rightarrow> (ptr \<Rightarrow> ptr list) \<Rightarrow> bool" where
  "queues_ok s P ts ws ms \<longleftrightarrow>
     (\<forall>p \<in> P. queued (sched_link s) (port_waiters (ipc_ports s p)) (ws p) \<and> port_queue (ipc_messages s) (ipc_ports s p) (ms p)
        \<and> set (ws p) \<inter> set ts = {} \<and> thread_current s \<notin> set (ws p) \<and> thread_idle s \<notin> set (ws p))
     \<and> (\<forall>p \<in> P. \<forall>q \<in> P. p \<noteq> q \<longrightarrow> set (ws p) \<inter> set (ws q) = {} \<and> set (ms p) \<inter> set (ms q) = {})"

lemma queues_okD:
  assumes "queues_ok s P ts ws ms" and "p \<in> P"
  shows "queued (sched_link s) (port_waiters (ipc_ports s p)) (ws p)" "port_queue (ipc_messages s) (ipc_ports s p) (ms p)"
    "set (ws p) \<inter> set ts = {}" "thread_current s \<notin> set (ws p)" "thread_idle s \<notin> set (ws p)"
    "\<And>q. q \<in> P \<Longrightarrow> q \<noteq> p \<Longrightarrow> set (ws q) \<inter> set (ws p) = {} \<and> set (ms q) \<inter> set (ms p) = {}"
  using assms by (simp_all add: queues_ok_def)

lemma queues_ok_upd:
  assumes qs: "queues_ok s P ts ws ms" and p: "p \<in> P"
    and x: "queued (sched_link s) (port_waiters x) (ws p)" "port_queue (ipc_messages s) x ns" "set ns \<subseteq> set (ms p)"
  shows "queues_ok (s\<lparr>ipc_ports := (ipc_ports s)(p := x)\<rparr>) P ts ws (ms(p := ns))"
proof -
  have "set (ws q) \<inter> set (ws r) = {}" "set ((ms(p := ns)) q) \<inter> set ((ms(p := ns)) r) = {}" if "q \<in> P" "r \<in> P" "q \<noteq> r" for q r
    using queues_okD(6) [OF qs that(2,1,3)] x(3) that(3) by auto
  then show ?thesis using qs x p by (simp add: queues_ok_def)
qed

text \<open>\<^verbatim>\<open>do_send\<close>: the message is the last of the port; the first waiting thread, if any, becomes ready.\<close>

lemma do_send_ok:
  assumes si: "sched_inv s ts" and qs: "queues_ok s P ts ws ms" and p: "p \<in> P"
    and m: "m \<noteq> NULL" "\<And>q. q \<in> P \<Longrightarrow> m \<notin> set (ms q)" "msg_next (ipc_messages s m) = NULL"
  shows "\<exists>mm pp link rq th L. do_send p m s = Some (s\<lparr>ipc_messages := mm, ipc_ports := pp, sched_link := link, s_ready_queue := rq,
        threads := th, locks := L\<rparr>)
    \<and> sched_inv (s\<lparr>ipc_messages := mm, ipc_ports := pp, sched_link := link, s_ready_queue := rq, threads := th, locks := L\<rparr>) (ts @ take 1 (ws p))
    \<and> queues_ok (s\<lparr>ipc_messages := mm, ipc_ports := pp, sched_link := link, s_ready_queue := rq, threads := th, locks := L\<rparr>) P
        (ts @ take 1 (ws p)) (ws(p := tl (ws p))) (ms(p := ms p @ [m]))
    \<and> (\<forall>ns. contents mm ns = contents (ipc_messages s) ns) \<and> (\<forall>q. port_id (pp q) = port_id (ipc_ports s q))
    \<and> (\<forall>l. l \<noteq> SCHED_LOCK \<longrightarrow> lock_ints l L = lock_ints l (locks s))
    \<and> th = (case ws p of [] \<Rightarrow> threads s | t # _ \<Rightarrow> (threads s)(t := (threads s t)\<lparr>t_state := READY\<rparr>))"
proof -
  let ?x = "ipc_ports s p"
  note d = queues_okD [OF qs p]
  define mm where "mm = (if msg_last ?x \<noteq> NULL then (ipc_messages s)(msg_last ?x := (ipc_messages s (msg_last ?x))\<lparr>msg_next := m\<rparr>) else ipc_messages s)"
  define x1 where "x1 = (if msg_first ?x = NULL then ?x\<lparr>msg_last := m, msg_first := m\<rparr> else ?x\<lparr>msg_last := m\<rparr>)"
  note pq = port_queue_add [OF d(2) m(2) [OF p] m(1,3), folded mm_def x1_def]
  have mmq: "mm y = ipc_messages s y" if "q \<in> P" "q \<noteq> p" "y \<in> set (ms q)" for q y
    using d(6) [OF that(1,2)] that(3) pq(2) [of y] by blast
  have w1: "port_waiters x1 = port_waiters ?x" "port_id x1 = port_id ?x" by (simp_all add: x1_def)
  let ?s1 = "\<lambda>q. s\<lparr>ipc_messages := mm, ipc_ports := (ipc_ports s)(p := x1\<lparr>port_waiters := q\<rparr>)\<rparr>"
  have run: "do_send p m s = (let (t, q) = threadqueue_pop (port_waiters ?x) (sched_link s) in
      if t \<noteq> NULL then Option.bind (thread_wake_up t (?s1 q)) (\<lambda>(_, s). Some s) else Some (?s1 q))"
    by (cases "msg_last ?x = NULL"; cases "msg_first ?x = NULL")
      (simp_all add: do_send_def set_message_def set_port_def mm_def x1_def Let_def cong: if_cong)
  have L: "locks_ok s" "queued (sched_link s) (s_ready_queue s) ts" "thread_current s \<notin> set ts" "thread_idle s \<notin> set ts"
    using si by (simp_all add: sched_inv_def)
  have queues: "queues_ok s' P us (ws(p := vs)) (ms(p := ms p @ [m]))"
    if "ipc_messages s' = mm" "ipc_ports s' = (ipc_ports s)(p := x1\<lparr>port_waiters := q\<rparr>)"
      "queued (sched_link s') q vs" "\<And>r. r \<in> P \<Longrightarrow> r \<noteq> p \<Longrightarrow> queued (sched_link s') (port_waiters (ipc_ports s r)) (ws r)"
      "set vs \<subseteq> set (ws p)" "\<And>r. r \<in> P \<Longrightarrow> set ((ws(p := vs)) r) \<inter> set us = {}"
      "thread_current s' = thread_current s" "thread_idle s' = thread_idle s" for s' us vs q
  proof -
    have mq: "port_queue mm (ipc_ports s r) (ms r)" if "r \<in> P" "r \<noteq> p" for r
      using port_queue_cong [OF queues_okD(2) [OF qs that(1)]] mmq [OF that] by blast
    have pp: "port_queue mm (x1\<lparr>port_waiters := q\<rparr>) (ms p @ [m])" using pq(1) by (simp add: port_queue_def)
    show ?thesis
      unfolding queues_ok_def that(1,2,7,8)
    proof (intro conjI ballI impI)
      fix r assume r: "r \<in> P"
      show "queued (sched_link s') (port_waiters (((ipc_ports s)(p := x1\<lparr>port_waiters := q\<rparr>)) r)) ((ws(p := vs)) r)"
        using that(3,4) r by simp
      show "port_queue mm (((ipc_ports s)(p := x1\<lparr>port_waiters := q\<rparr>)) r) ((ms(p := ms p @ [m])) r)" using pp mq r by simp
      show "set ((ws(p := vs)) r) \<inter> set us = {}" using that(6) r by blast
      show "thread_current s \<notin> set ((ws(p := vs)) r)" "thread_idle s \<notin> set ((ws(p := vs)) r)"
        using queues_okD(4,5) [OF qs r] that(5) d(4,5) by auto
    next
      fix r r' assume r: "r \<in> P" "r' \<in> P" "r \<noteq> r'"
      have "set (ws r) \<inter> set (ws r') = {} \<and> set (ms r) \<inter> set (ms r') = {}" using queues_okD(6) [OF qs r(2,1,3)] .
      then show "set ((ws(p := vs)) r) \<inter> set ((ws(p := vs)) r') = {}" "set ((ms(p := ms p @ [m])) r) \<inter> set ((ms(p := ms p @ [m])) r') = {}"
        using that(5) m(2) [OF r(1)] m(2) [OF r(2)] r(3) by auto
    qed
  qed
  show ?thesis
  proof (cases "ws p")
    case Nil
    have pop: "threadqueue_pop (port_waiters ?x) (sched_link s) = (NULL, port_waiters ?x)" using d(1) Nil threadqueue_pop_Nil by simp
    have "queues_ok (?s1 (port_waiters ?x)) P ts (ws(p := [])) (ms(p := ms p @ [m]))"
      by (rule queues) (use d(1) Nil queues_okD [OF qs] in auto)
    moreover have "sched_inv (?s1 (port_waiters ?x)) ts" using si by (simp add: sched_inv_def)
    ultimately show ?thesis using run pop Nil pq(3) w1
      by (intro exI [of _ mm] exI [of _ "(ipc_ports s)(p := x1\<lparr>port_waiters := port_waiters ?x\<rparr>)"] exI [of _ "sched_link s"]
          exI [of _ "s_ready_queue s"] exI [of _ "threads s"] exI [of _ "locks s"]) simp
  next
    case (Cons t vs)
    obtain q where pop: "threadqueue_pop (port_waiters ?x) (sched_link s) = (t, q)" "queued (sched_link s) q vs"
      using threadqueue_pop_Cons d(1) Cons by metis
    have t: "t \<noteq> NULL" "t \<notin> set vs" "t \<notin> set ts" "t \<noteq> thread_current s" "t \<noteq> thread_idle s" "t \<in> set (ws p)"
      using queued_distinct [OF d(1)] d(3,4,5) Cons by auto
    obtain rq link where add: "sched_add_ready t (?s1 q) = Some ((?s1 q)\<lparr>threads := (threads s)(t := (threads s t)\<lparr>t_state := READY\<rparr>),
        s_ready_queue := rq, sched_link := link, locks := lock_used SCHED_LOCK (?s1 q)\<rparr>)"
      "queued link rq (ts @ [t])" "\<forall>y. y \<notin> set ts \<longrightarrow> y \<noteq> t \<longrightarrow> link y = sched_link s y"
      using sched_add_ready_ok [of "?s1 q" ts t] L(1,2) t(1,3) by auto
    let ?s2 = "(?s1 q)\<lparr>sched_link := link, s_ready_queue := rq, threads := (threads s)(t := (threads s t)\<lparr>t_state := READY\<rparr>),
        locks := lock_used SCHED_LOCK s\<rparr>"
    have keep: "queued link q' xs" if "queued (sched_link s) q' xs" "set xs \<inter> set ts = {}" "t \<notin> set xs" for q' xs
      by (rule queued_frame [OF that(1)]) (use that(2,3) add(3) in blast)
    have "queues_ok ?s2 P (ts @ [t]) (ws(p := vs)) (ms(p := ms p @ [m]))"
    proof (rule queues)
      show "queued (sched_link ?s2) q vs" using keep [OF pop(2)] d(3) Cons t(2) by auto
      show "queued (sched_link ?s2) (port_waiters (ipc_ports s r)) (ws r)" if "r \<in> P" "r \<noteq> p" for r
        using keep [OF queues_okD(1,3) [OF qs that(1)]] d(6) [OF that] t(6) by auto
      show "set ((ws(p := vs)) r) \<inter> set (ts @ [t]) = {}" if "r \<in> P" for r
        using queues_okD(3) [OF qs that] d(3) d(6) [OF that] t(2,6) Cons by (cases "r = p") auto
    qed (use Cons in auto)
    moreover have "sched_inv ?s2 (ts @ [t])" using si add(2) t L by (auto simp: sched_inv_def)
    ultimately show ?thesis using run pop(1) t(1) add(1) Cons pq(3) w1
      by (intro exI [of _ mm] exI [of _ "(ipc_ports s)(p := x1\<lparr>port_waiters := q\<rparr>)"] exI [of _ link] exI [of _ rq]
          exI [of _ "(threads s)(t := (threads s t)\<lparr>t_state := READY\<rparr>)"] exI [of _ "lock_used SCHED_LOCK s"])
        (simp add: thread_wake_up_def)
  qed
qed

section \<open>The invariant\<close>

abbreviation port_keys :: "'a port_state_scheme \<Rightarrow> ptr \<Rightarrow> u32" where
  "port_keys s \<equiv> ipc_port_item_key (ipc_ports s)"

abbreviation port_items :: "'a port_state_scheme \<Rightarrow> ptr set" where
  "port_items s \<equiv> table_items (s_port_table s) (buckets s) (hnext s)"

abbreviation port_view :: "'a port_state_scheme \<Rightarrow> u32 \<Rightarrow> ptr list" where
  "port_view s \<equiv> table_view (port_keys s) (s_port_table s) (buckets s) (hnext s)"

definition port_inv ::
  "'a port_state_scheme \<Rightarrow> (cache_id \<Rightarrow> ptr set) \<Rightarrow> ptr set \<Rightarrow> ptr list \<Rightarrow> (ptr \<Rightarrow> ptr list) \<Rightarrow> (ptr \<Rightarrow> ptr list) \<Rightarrow> bool" where
  "port_inv s Ob U ts ws ms \<longleftrightarrow> memory s Ob U \<and> cache_ready s PORT_CACHE \<and> cache_ready s MESSAGE_CACHE
     \<and> table_ok (port_keys s) (s_port_table s) (buckets s) (hnext s) \<and> port_items s \<subseteq> Ob PORT_CACHE
     \<and> sched_inv s ts \<and> queues_ok s (port_items s) ts ws ms \<and> (\<forall>p \<in> port_items s. set (ms p) \<subseteq> Ob MESSAGE_CACHE)"

text \<open>What a client sees: the messages that wait at a port, by the number of the port.\<close>

definition inbox :: "'a port_state_scheme \<Rightarrow> ptr \<Rightarrow> (u64 list \<times> u32) list" where
  "inbox s p = contents (ipc_messages s) (nodes (\<lambda>m. msg_next (ipc_messages s m)) (msg_first (ipc_ports s p)))"

definition mailbox :: "'a port_state_scheme \<Rightarrow> u32 \<Rightarrow> (u64 list \<times> u32) list option" where
  "mailbox s k = (case port_view s k of [] \<Rightarrow> None | p # _ \<Rightarrow> Some (inbox s p))"

lemma inbox_eq: "port_inv s Ob U ts ws ms \<Longrightarrow> p \<in> port_items s \<Longrightarrow> inbox s p = contents (ipc_messages s) (ms p)"
  using nodes_eq queues_okD(2) unfolding port_inv_def inbox_def port_queue_def by metis

text \<open>What most of the operations leave alone.\<close>

definition port_frame :: "'a port_state_scheme \<Rightarrow> 'a port_state_scheme \<Rightarrow> bool" where
  "port_frame s s' \<longleftrightarrow> s_port_table s' = s_port_table s \<and> buckets s' = buckets s \<and> hnext s' = hnext s
     \<and> s_next_port_id s' = s_next_port_id s \<and> port_keys s' = port_keys s"

lemma port_frameD:
  assumes "port_frame s s'"
  shows "s_port_table s' = s_port_table s" "port_items s' = port_items s" "port_view s' = port_view s" "s_next_port_id s' = s_next_port_id s"
  using assms by (simp_all add: port_frame_def)

lemma view_items: "port_inv s Ob U ts ws ms \<Longrightarrow> port_view s k = p # ps \<Longrightarrow> p \<in> port_items s"
  using table_view_items [of "port_keys s" "s_port_table s" "buckets s" "hnext s" p]
  by (auto simp: port_inv_def table_view_def filter_eq_Cons_iff)

lemma mailbox_same:
  assumes "port_inv s Ob U ts ws ms" and "port_frame s s'" and "\<And>p. p \<in> port_items s \<Longrightarrow> inbox s' p = inbox s p"
  shows "mailbox s' = mailbox s"
  unfolding mailbox_def port_frameD(3) [OF assms(2)]
  using assms(3) view_items [OF assms(1)] by (auto simp: fun_eq_iff split: list.split)

lemma mailbox_upd:
  assumes inv: "port_inv s Ob U ts ws ms" and fr: "port_frame s s'" and p: "port_view s k = p # ps"
    and same: "\<And>q. q \<in> port_items s \<Longrightarrow> q \<noteq> p \<Longrightarrow> inbox s' q = inbox s q"
  shows "mailbox s' = (mailbox s)(k \<mapsto> inbox s' p)"
proof
  fix j
  have k: "port_keys s p = k" using p by (auto simp: table_view_def filter_eq_Cons_iff)
  have "q \<noteq> p" if "port_view s j = q # qs" "j \<noteq> k" for q qs
    using that k by (auto simp: table_view_def filter_eq_Cons_iff)
  then show "mailbox s' j = ((mailbox s)(k \<mapsto> inbox s' p)) j"
    unfolding mailbox_def port_frameD(3) [OF fr]
    using p same view_items [OF inv, of j] by (auto split: list.split)
qed

text \<open>The allocator and the locks.\<close>

lemma port_inv_memory:
  assumes inv: "port_inv s Ob U ts ws ms" and f: "slab_frame s s'" "same_shape (caches s) (caches s')" and m: "memory s' Ob' U'"
    and sub: "port_items s \<subseteq> Ob' PORT_CACHE" "\<And>p. p \<in> port_items s \<Longrightarrow> set (ms p) \<subseteq> Ob' MESSAGE_CACHE"
  shows "port_inv s' Ob' U' ts ws ms" and "port_frame s s'" and "ipc_messages s' = ipc_messages s" "ipc_ports s' = ipc_ports s"
proof -
  show "ipc_messages s' = ipc_messages s" "ipc_ports s' = ipc_ports s" "port_frame s s'"
    using f(1) by (auto simp: port_frame_def elim!: slab_frameE)
  moreover have "sched_inv s' ts" "queues_ok s' (port_items s) ts ws ms"
    using inv f(1) m by (auto simp: port_inv_def sched_inv_def queues_ok_def elim!: slab_frameE)
  ultimately show "port_inv s' Ob' U' ts ws ms"
    using inv sub m ready_shape [OF f(2)] by (simp add: port_inv_def port_frame_def)
qed

lemma port_inv_locks:
  assumes "port_inv s Ob U ts ws ms" and "addrs_ok L"
  shows "port_inv (s\<lparr>int_flag := b, locks := L\<rparr>) Ob U ts ws ms" "port_inv (s\<lparr>locks := L, int_flag := b\<rparr>) Ob U ts ws ms"
    "port_inv (s\<lparr>locks := L\<rparr>) Ob U ts ws ms"
  using assms by (simp_all add: port_inv_def sched_inv_def queues_ok_def)

lemma inbox_locks [simp]:
  "inbox (s\<lparr>int_flag := b, locks := L\<rparr>) = inbox s" "inbox (s\<lparr>locks := L, int_flag := b\<rparr>) = inbox s" "inbox (s\<lparr>locks := L\<rparr>) = inbox s"
  by (simp_all add: inbox_def fun_eq_iff)

lemma port_frame_locks [simp]:
  "port_frame t (s\<lparr>int_flag := b, locks := L\<rparr>) = port_frame t s" "port_frame t (s\<lparr>locks := L, int_flag := b\<rparr>) = port_frame t s"
  "port_frame (s\<lparr>int_flag := b, locks := L\<rparr>) t = port_frame s t" "port_frame t (s\<lparr>locks := L\<rparr>) = port_frame t s" "port_frame s s"
  by (simp_all add: port_frame_def)

lemma port_frame_trans: "port_frame s s' \<Longrightarrow> port_frame s' s'' \<Longrightarrow> port_frame s s''"
  by (simp add: port_frame_def)

section \<open>Sending\<close>

lemma do_send_inv:
  assumes inv: "port_inv s Ob U ts ws ms" and p: "p \<in> port_items s"
    and m: "m \<noteq> NULL" "m \<in> Ob MESSAGE_CACHE" "\<And>q. q \<in> port_items s \<Longrightarrow> m \<notin> set (ms q)" "msg_next (ipc_messages s m) = NULL"
  shows "\<exists>s'. do_send p m s = Some s' \<and> port_inv s' Ob U (ts @ take 1 (ws p)) (ws(p := tl (ws p))) (ms(p := ms p @ [m]))
    \<and> port_frame s s' \<and> (\<forall>ns. contents (ipc_messages s') ns = contents (ipc_messages s) ns)
    \<and> lock_ints PORT_LOCK (locks s') = lock_ints PORT_LOCK (locks s) \<and> int_flag s' = int_flag s \<and> thread_current s' = thread_current s
    \<and> (\<forall>t vs. ws p = t # vs \<longrightarrow> t_state (threads s' t) = READY)"
proof -
  have i: "sched_inv s ts" "queues_ok s (port_items s) ts ws ms" using inv by (simp_all add: port_inv_def)
  obtain mm pp link rq th L where d: "do_send p m s = Some (s\<lparr>ipc_messages := mm, ipc_ports := pp, sched_link := link, s_ready_queue := rq,
        threads := th, locks := L\<rparr>)"
    "sched_inv (s\<lparr>ipc_messages := mm, ipc_ports := pp, sched_link := link, s_ready_queue := rq,
        threads := th, locks := L\<rparr>) (ts @ take 1 (ws p))" "queues_ok (s\<lparr>ipc_messages := mm, ipc_ports := pp, sched_link := link, s_ready_queue := rq,
        threads := th, locks := L\<rparr>) (port_items s) (ts @ take 1 (ws p)) (ws(p := tl (ws p))) (ms(p := ms p @ [m]))"
    "\<forall>ns. contents mm ns = contents (ipc_messages s) ns" "\<forall>q. port_id (pp q) = port_id (ipc_ports s q)"
    "\<forall>l. l \<noteq> SCHED_LOCK \<longrightarrow> lock_ints l L = lock_ints l (locks s)"
    "th = (case ws p of [] \<Rightarrow> threads s | t # _ \<Rightarrow> (threads s)(t := (threads s t)\<lparr>t_state := READY\<rparr>))"
    using do_send_ok [OF i p m(1,3,4)] by blast
  let ?s = "s\<lparr>ipc_messages := mm, ipc_ports := pp, sched_link := link, s_ready_queue := rq, threads := th, locks := L\<rparr>"
  have key: "ipc_port_item_key pp = port_keys s" using d(5) by (simp add: ipc_port_item_key_def fun_eq_iff)
  have "addrs_ok L" using d(2) by (simp add: sched_inv_def)
  then have "port_inv ?s Ob U (ts @ take 1 (ws p)) (ws(p := tl (ws p))) (ms(p := ms p @ [m]))"
    using inv d(2,3) m(2) p key by (auto simp: port_inv_def)
  then show ?thesis using d(1,4,6,7) key by (intro exI [of _ ?s]) (simp add: port_frame_def)
qed

lemma ipc_port_send_ok:
  assumes inv: "port_inv s Ob U ts ws ms"
  shows "\<exists>r s'. ipc_port_send k data from s = Some (r, s') \<and> port_frame s s' \<and> int_flag s' = int_flag s \<and> thread_current s' = thread_current s
    \<and> (if r = 0
       then \<exists>p ps m. port_view s k = p # ps \<and> m \<notin> Ob MESSAGE_CACHE
         \<and> port_inv s' (Ob(MESSAGE_CACHE := insert m (Ob MESSAGE_CACHE))) U (ts @ take 1 (ws p)) (ws(p := tl (ws p))) (ms(p := ms p @ [m]))
         \<and> contents (ipc_messages s') (ms p @ [m]) = contents (ipc_messages s) (ms p) @ [(data, from)]
         \<and> (\<forall>q \<in> port_items s. contents (ipc_messages s') (ms q) = contents (ipc_messages s) (ms q))
         \<and> (\<forall>t vs. ws p = t # vs \<longrightarrow> t_state (threads s' t) = READY)
       else r = -1 \<and> port_inv s' Ob U ts ws ms \<and> inbox s' = inbox s \<and> (port_view s k = [] \<or> free_stack s = []))"
proof -
  have lk: "locks_ok s" using inv by (simp add: port_inv_def)
  let ?s1 = "s\<lparr>int_flag := False, locks := lock_held PORT_LOCK (int_flag s) (locks s)\<rparr>"
  have inv1: "port_inv ?s1 Ob U ts ws ms" by (rule port_inv_locks(1) [OF inv]) (use lk in simp)
  obtain p where p: "hashtable_get (port_keys ?s1) (s_port_table ?s1) k ?s1 = Some p"
    "if p = NULL then port_view ?s1 k = [] else p \<in> port_items ?s1 \<and> port_keys ?s1 p = k \<and> (\<exists>ps. port_view ?s1 k = p # ps)"
    using table_lookup [of "port_keys ?s1" "s_port_table ?s1" ?s1 k] inv1 unfolding port_inv_def by blast
  have start: "ipc_port_send k data from s = (if p = NULL then Some (-1, spinunlock_enable PORT_LOCK ?s1)
      else do {
       (msg, s) \<leftarrow> ipc_message_create ?s1;
       if msg = NULL then Some (-1, spinunlock_enable PORT_LOCK s)
       else do {
         let s = set_message msg (\<lambda>x. x\<lparr>msg_sender := from, msg_data := data\<rparr>) s;
         s \<leftarrow> do_send p msg s;
         Some (0, spinunlock_enable PORT_LOCK s)
       }
     })" using p(1) lk by (simp add: ipc_port_send_def spinlock_disable_ok)
  have fin: "port_inv (spinunlock_enable PORT_LOCK s') Ob' U' us vs ns" if "port_inv s' Ob' U' us vs ns" for s' :: "'a port_state_scheme" and Ob' U' us vs ns
    unfolding spinunlock_enable_eq by (rule port_inv_locks(2) [OF that]) (use that in \<open>simp add: port_inv_def\<close>)
  show ?thesis
  proof (cases "p = NULL")
    case True
    then show ?thesis using start fin [OF inv1] p(2) by (auto simp: spinunlock_enable_eq)
  next
    case False
    have pv: "p \<in> port_items s" "\<exists>ps. port_view s k = p # ps" using p(2) False by simp_all
    obtain m s2 where m: "slab_cache_alloc MESSAGE_CACHE ?s1 = Some (m, s2)" "slab_frame ?s1 s2" "same_shape (caches ?s1) (caches s2)"
      "memory s2 (if m = NULL then Ob else Ob(MESSAGE_CACHE := insert m (Ob MESSAGE_CACHE))) U"
      "if m = NULL then free_stack ?s1 = [] else m \<notin> Ob MESSAGE_CACHE"
      using alloc_object [of ?s1 Ob U MESSAGE_CACHE] inv1 unfolding port_inv_def by blast
    have li: "lock_ints PORT_LOCK (locks s2) = int_flag s" using alloc_locks [OF m(1), of PORT_LOCK] lk by simp
    have cur: "thread_current s2 = thread_current s" "int_flag s2 = False" "free_stack ?s1 = free_stack s"
      using m(2) by (auto elim!: slab_frameE)
    let ?O = "if m = NULL then Ob else Ob(MESSAGE_CACHE := insert m (Ob MESSAGE_CACHE))"
    have sub1: "port_items ?s1 \<subseteq> ?O PORT_CACHE" "\<And>p. p \<in> port_items ?s1 \<Longrightarrow> set (ms p) \<subseteq> ?O MESSAGE_CACHE"
      using inv1 unfolding port_inv_def by auto
    have inv2: "port_inv s2 ?O U ts ws ms" "port_frame ?s1 s2" "ipc_messages s2 = ipc_messages s" "ipc_ports s2 = ipc_ports s"
      using port_inv_memory [OF inv1 m(2-4)] sub1 by (simp_all add: port_frame_def)
    show ?thesis
    proof (cases "m = NULL")
      case True
      then have "ipc_port_send k data from s = Some (-1, spinunlock_enable PORT_LOCK s2)"
        using start False m(1) by (simp add: ipc_message_create_def)
      moreover have "inbox s2 = inbox s" by (rule ext) (simp add: inbox_def inv2(3,4))
      ultimately show ?thesis using fin [OF inv2(1)] inv2(2) True li cur m(5) by (auto simp: spinunlock_enable_eq)
    next
      case new: False
      let ?m = "(ipc_messages s m)\<lparr>msg_next := NULL, msg_sender := from, msg_data := data\<rparr>"
      let ?s3 = "s2\<lparr>ipc_messages := (ipc_messages s2)(m := ?m)\<rparr>"
      let ?O = "Ob(MESSAGE_CACHE := insert m (Ob MESSAGE_CACHE))"
      have nin: "m \<notin> set (ms q)" if "q \<in> port_items s" for q using that m(5) new inv by (auto simp: port_inv_def)
      have pq: "port_queue ((ipc_messages s2)(m := ?m)) (ipc_ports s2 q) (ms q)" if "q \<in> port_items s" for q
      proof (rule port_queue_cong)
        show "port_queue (ipc_messages s2) (ipc_ports s2 q) (ms q)"
          using that inv2(1,2) by (auto simp: port_inv_def port_frame_def queues_ok_def)
        show "((ipc_messages s2)(m := ?m)) y = ipc_messages s2 y" if "y \<in> set (ms q)" for y
          using nin [OF \<open>q \<in> port_items s\<close>] that by auto
      qed simp_all
      have inv3: "port_inv ?s3 ?O U ts ws ms"
        using inv2(1,2) new pq
        by (auto simp: port_inv_def queues_ok_def sched_inv_def port_frame_def)
      have it: "port_items ?s3 = port_items s" "port_frame s ?s3" using inv2(2) by (simp_all add: port_frame_def)
      obtain s4 where s4: "do_send p m ?s3 = Some s4" "port_inv s4 ?O U (ts @ take 1 (ws p)) (ws(p := tl (ws p))) (ms(p := ms p @ [m]))"
        "port_frame ?s3 s4" "\<forall>ns. contents (ipc_messages s4) ns = contents (ipc_messages ?s3) ns"
        "lock_ints PORT_LOCK (locks s4) = lock_ints PORT_LOCK (locks ?s3)" "int_flag s4 = int_flag ?s3" "thread_current s4 = thread_current ?s3"
        "\<forall>t vs. ws p = t # vs \<longrightarrow> t_state (threads s4 t) = READY"
        using do_send_inv [OF inv3, of p m] pv(1) new nin unfolding it by auto
      have run: "ipc_port_send k data from s = Some (0, spinunlock_enable PORT_LOCK s4)"
        using start False m(1) new s4(1) inv2(3) by (simp add: ipc_message_create_def set_message_def)
      have c: "contents (ipc_messages ?s3) (ms q) = contents (ipc_messages s) (ms q)" if "q \<in> port_items s" for q
        using nin [OF that] inv2(3) by (auto simp: contents_def)
      have c1: "contents (ipc_messages ?s3) (ms p @ [m]) = contents (ipc_messages s) (ms p) @ [(data, from)]"
        using c [OF pv(1)] by (simp add: contents_def)
      have fr: "port_frame s s4" by (rule port_frame_trans [OF it(2) s4(3)])
      show ?thesis
      proof (intro exI [of _ "0::int"] exI [of _ "spinunlock_enable PORT_LOCK s4"] conjI)
        show "if (0::int) = 0
         then \<exists>q ps m. port_view s k = q # ps \<and> m \<notin> Ob MESSAGE_CACHE
           \<and> port_inv (spinunlock_enable PORT_LOCK s4) (Ob(MESSAGE_CACHE := insert m (Ob MESSAGE_CACHE))) U (ts @ take 1 (ws q)) (ws(q := tl (ws q))) (ms(q := ms q @ [m]))
           \<and> contents (ipc_messages (spinunlock_enable PORT_LOCK s4)) (ms q @ [m]) = contents (ipc_messages s) (ms q) @ [(data, from)]
           \<and> (\<forall>r \<in> port_items s. contents (ipc_messages (spinunlock_enable PORT_LOCK s4)) (ms r) = contents (ipc_messages s) (ms r))
           \<and> (\<forall>t vs. ws q = t # vs \<longrightarrow> t_state (threads (spinunlock_enable PORT_LOCK s4) t) = READY)
         else (0::int) = -1 \<and> port_inv (spinunlock_enable PORT_LOCK s4) Ob U ts ws ms \<and> inbox (spinunlock_enable PORT_LOCK s4) = inbox s
           \<and> (port_view s k = [] \<or> free_stack s = [])"
          using pv(2) fin [OF s4(2)] c c1 s4(4,8) m(5) new by (auto simp: spinunlock_enable_eq)
      qed (use run fr s4(5-7) li cur in \<open>simp_all add: spinunlock_enable_eq\<close>)
    qed
  qed
qed

section \<open>Receiving\<close>

text \<open>The lookup under the lock, with which sending and receiving start.\<close>

lemma port_lookup:
  assumes inv: "port_inv s Ob U ts ws ms"
  defines "s1 \<equiv> s\<lparr>int_flag := False, locks := lock_held PORT_LOCK (int_flag s) (locks s)\<rparr>"
  shows "port_inv s1 Ob U ts ws ms" and "spinlock_disable PORT_LOCK s = Some s1"
    and "\<exists>p. hashtable_get (port_keys s1) (s_port_table s1) k s1 = Some p
      \<and> (if p = NULL then port_view s k = [] else p \<in> port_items s \<and> (\<exists>ps. port_view s k = p # ps))"
proof -
  have lk: "locks_ok s" using inv by (simp add: port_inv_def)
  show i1: "port_inv s1 Ob U ts ws ms" unfolding s1_def by (rule port_inv_locks(1) [OF inv]) (use lk in simp)
  show "spinlock_disable PORT_LOCK s = Some s1" using lk by (simp add: s1_def spinlock_disable_ok)
  have eq: "port_view s1 = port_view s" "port_items s1 = port_items s" by (simp_all add: s1_def)
  obtain p where "hashtable_get (port_keys s1) (s_port_table s1) k s1 = Some p"
    "if p = NULL then port_view s1 k = [] else p \<in> port_items s1 \<and> port_keys s1 p = k \<and> (\<exists>ps. port_view s1 k = p # ps)"
    using table_lookup [of "port_keys s1" "s_port_table s1" s1 k] i1 unfolding port_inv_def by blast
  then show "\<exists>p. hashtable_get (port_keys s1) (s_port_table s1) k s1 = Some p
      \<and> (if p = NULL then port_view s k = [] else p \<in> port_items s \<and> (\<exists>ps. port_view s k = p # ps))"
    unfolding eq by (intro exI [of _ p]) (auto split: if_splits)
qed

lemma receive_first:
  assumes inv: "port_inv s Ob U ts ws ms" and p: "p \<in> port_items s" and ms: "ms p = m # rest"
  shows "\<exists>s'. receive_turn p s = Some (Done (0, Some (msg_data (ipc_messages s m), msg_sender (ipc_messages s m))), s')
    \<and> port_inv s' (Ob(MESSAGE_CACHE := Ob MESSAGE_CACHE - {m})) U ts ws (ms(p := rest)) \<and> port_frame s s'
    \<and> ipc_messages s' = ipc_messages s \<and> int_flag s' = (lock_ints PORT_LOCK (locks s) \<or> int_flag s) \<and> thread_current s' = thread_current s"
proof -
  let ?x = "ipc_ports s p"
  have qs: "queues_ok s (port_items s) ts ws ms" using inv by (simp add: port_inv_def)
  note d = queues_okD [OF qs p]
  define x1 where "x1 = (if msg_next (ipc_messages s m) = NULL then ?x\<lparr>msg_first := msg_next (ipc_messages s m), msg_last := NULL\<rparr>
      else ?x\<lparr>msg_first := msg_next (ipc_messages s m)\<rparr>)"
  have pop: "msg_first ?x = m" "m \<noteq> NULL" "m \<notin> set rest" "port_queue (ipc_messages s) x1 rest"
    using port_queue_pop [of "ipc_messages s" ?x m rest] d(2) ms unfolding x1_def by simp_all
  let ?s1 = "spinunlock_enable PORT_LOCK (s\<lparr>ipc_ports := (ipc_ports s)(p := x1)\<rparr>)"
  have run: "receive_turn p s = do {
      s \<leftarrow> ipc_message_destroy m ?s1;
      Some (Done (0, Some (msg_data (ipc_messages ?s1 m), msg_sender (ipc_messages ?s1 m))), s)
    }"
    using pop(1,2) by (cases "msg_next (ipc_messages s m) = NULL") (simp_all add: receive_turn_def set_port_def Let_def x1_def)
  have f: "int_flag ?s1 = (lock_ints PORT_LOCK (locks s) \<or> int_flag s)" "ipc_messages ?s1 = ipc_messages s" "thread_current ?s1 = thread_current s"
    by (simp_all add: spinunlock_enable_eq)
  have key: "ipc_port_item_key ((ipc_ports s)(p := x1)) = port_keys s" by (simp add: ipc_port_item_key_def fun_eq_iff x1_def)
  have wq: "port_waiters x1 = port_waiters ?x" by (simp add: x1_def)
  have "queues_ok (s\<lparr>ipc_ports := (ipc_ports s)(p := x1)\<rparr>) (port_items s) ts ws (ms(p := rest))"
    by (rule queues_ok_upd [OF qs p]) (use d(1) pop(4) ms wq in auto)
  moreover have sub: "set rest \<subseteq> Ob MESSAGE_CACHE" using inv p ms by (force simp: port_inv_def)
  ultimately have "port_inv (s\<lparr>ipc_ports := (ipc_ports s)(p := x1)\<rparr>) Ob U ts ws (ms(p := rest))"
    using inv key p by (auto simp: port_inv_def sched_inv_def)
  then have inv1: "port_inv ?s1 Ob U ts ws (ms(p := rest))"
    unfolding spinunlock_enable_eq by (rule port_inv_locks) (use inv in \<open>simp add: port_inv_def\<close>)
  have fr: "port_frame s ?s1" using key by (simp add: port_frame_def spinunlock_enable_eq)
  have it: "port_items ?s1 = port_items s" by (simp add: spinunlock_enable_eq)
  have m: "m \<in> Ob MESSAGE_CACHE" using inv p ms by (auto simp: port_inv_def)
  obtain s2 where s2: "slab_cache_free MESSAGE_CACHE m ?s1 = Some s2" "slab_frame ?s1 s2" "same_shape (caches ?s1) (caches s2)"
    "memory s2 (Ob(MESSAGE_CACHE := Ob MESSAGE_CACHE - {m})) U"
    using free_object [of ?s1 Ob U MESSAGE_CACHE m] inv1 m unfolding port_inv_def by blast
  have "set ((ms(p := rest)) q) \<subseteq> Ob MESSAGE_CACHE - {m}" if "q \<in> port_items s" for q
  proof (cases "q = p")
    case True
    then show ?thesis using sub pop(3) by auto
  next
    case False
    then have "m \<notin> set (ms q)" using d(6) [OF that] ms by auto
    then show ?thesis using False inv that by (auto simp: port_inv_def)
  qed
  then have inv2: "port_inv s2 (Ob(MESSAGE_CACHE := Ob MESSAGE_CACHE - {m})) U ts ws (ms(p := rest))" "port_frame ?s1 s2"
    "ipc_messages s2 = ipc_messages ?s1"
    using port_inv_memory [OF inv1 s2(2-4)] inv unfolding it by (auto simp: port_inv_def)
  have "int_flag s2 = int_flag ?s1" "thread_current s2 = thread_current ?s1" using s2(2) by (auto elim!: slab_frameE)
  then show ?thesis
    using run s2(1) inv2 port_frame_trans [OF fr inv2(2)] f by (intro exI [of _ s2]) (simp add: ipc_message_destroy_def)
qed

text \<open>No message: the thread is the last of the queue of the port and sleeps; another one runs.\<close>

lemma receive_waits:
  assumes inv: "port_inv s Ob U ts ws ms" and p: "p \<in> port_items s" and ms: "ms p = []"
    and c: "thread_current s \<noteq> NULL" "thread_current s \<noteq> thread_idle s"
  shows "\<exists>s' us. receive_turn p s = Some (Blocked, s') \<and> port_inv s' Ob U us (ws(p := ws p @ [thread_current s])) ms
    \<and> port_frame s s' \<and> ipc_messages s' = ipc_messages s \<and> msg_first (ipc_ports s' p) = msg_first (ipc_ports s p)
    \<and> (\<forall>q. q \<noteq> p \<longrightarrow> ipc_ports s' q = ipc_ports s q)
    \<and> thread_current s' \<noteq> NULL \<and> t_state (threads s' (thread_current s')) = RUNNING \<and> set ts \<subseteq> insert (thread_current s') (set us)"
proof -
  let ?c = "thread_current s" and ?x = "ipc_ports s p"
  have qs: "queues_ok s (port_items s) ts ws ms" and si: "sched_inv s ts" and lk: "locks_ok s" using inv by (simp_all add: port_inv_def)
  note d = queues_okD [OF qs p]
  have ct: "?c \<notin> set ts" using si by (simp add: sched_inv_def)
  have e: "msg_first ?x = NULL" using d(2) ms by (simp add: port_queue_Nil)
  obtain q link where q: "threadqueue_add (port_waiters ?x) ?c (sched_link s) = Some (q, link)" "queued link q (ws p @ [?c])"
    "\<forall>x. x \<notin> set (ws p) \<longrightarrow> x \<noteq> ?c \<longrightarrow> link x = sched_link s x"
    using threadqueue_add_ok [OF d(1) c(1) d(4)] by blast
  let ?pp = "(ipc_ports s)(p := ?x\<lparr>port_waiters := q\<rparr>)"
  let ?s1 = "\<lambda>ctxs. s\<lparr>sched_link := link, ipc_ports := ?pp, locks := lock_released PORT_LOCK (locks s),
      int_flag := False, threads := (threads s)(?c := (threads s ?c)\<lparr>t_state := SLEEPING\<rparr>), irq_ctxs := ctxs\<rparr>"
  have "\<exists>ctxs r. receive_turn p s = Option.bind (sched_irq r (?s1 ctxs)) (\<lambda>s. Some (Blocked, s))"
    using e q(1)
    by (simp add: receive_turn_def thread_sleep_def cpu_arch_disable_int_def sched_yield_def Let_def set_thread_def set_port_def spinunlock_eq) blast
  then obtain ctxs r where run: "receive_turn p s = Option.bind (sched_irq r (?s1 ctxs)) (\<lambda>s. Some (Blocked, s))" by blast
  let ?s = "?s1 ctxs"
  have q': "queued link (s_ready_queue s) ts"
  proof (rule queued_frame)
    show "queued (sched_link s) (s_ready_queue s) ts" using si by (simp add: sched_inv_def)
    show "link x = sched_link s x" if "x \<in> set ts" for x
      using that d(3) ct q(3) by (metis disjoint_iff)
  qed
  have si': "sched_inv ?s ts" using si q' ct by (auto simp: sched_inv_def)
  have cw: "can_switch ?s (thread_current ?s)" "\<not> stays_ready ?s (thread_current ?s)" by (simp_all add: can_switch_def stays_ready_def)
  obtain s2 us where s2: "sched_irq r ?s = Some s2" "sched_inv s2 us" "queued (sched_link s2) q (ws p @ [?c])"
    "set (ws p @ [?c]) \<inter> set us = {}" "thread_current s2 \<notin> set (ws p @ [?c])" "thread_idle s2 = thread_idle ?s"
    "thread_current s2 \<noteq> NULL" "t_state (threads s2 (thread_current s2)) = RUNNING"
    "set ts \<union> (if stays_ready ?s (thread_current ?s) then {thread_current ?s} else {}) \<subseteq> insert (thread_current s2) (set us)"
    using switch_keeps_queue [OF si' cw(1), of q "ws p @ [?c]" r] q(2) d(3,5) ct c(2) cw(2) by auto
  have fr: "switch_frame ?s s2" by (rule sched_irq_frame [OF s2(1)]) (use lk in simp)
  have keep: "queued (sched_link s2) (port_waiters (ipc_ports s r')) (ws r')" "set (ws r') \<inter> set us = {}"
    "thread_current s2 \<notin> set (ws r')" if r: "r' \<in> port_items s" "r' \<noteq> p" for r'
  proof -
    note e = queues_okD [OF qs r(1)]
    have dis: "set (ws r') \<inter> set (ws p) = {}" using d(6) [OF r] by blast
    have "queued link (port_waiters (ipc_ports s r')) (ws r')"
      by (rule queued_frame [OF e(1)]) (use q(3) dis e(4) in blast)
    then obtain s3 vs where s3: "sched_irq r ?s = Some s3" "queued (sched_link s3) (port_waiters (ipc_ports s r')) (ws r')"
      "thread_current s3 \<notin> set (ws r')" "sched_inv s3 vs" "set (ws r') \<inter> set vs = {}"
      using switch_keeps_queue [OF si' cw(1), of "port_waiters (ipc_ports s r')" "ws r'" r] e(3-5) cw(2) by auto
    have "s3 = s2" using s2(1) s3(1) by simp
    moreover have "us = vs"
      by (rule queued_unique [of "sched_link s2" "s_ready_queue s2"]) (use s2(2) s3(4) \<open>s3 = s2\<close> in \<open>simp_all add: sched_inv_def\<close>)
    ultimately show "queued (sched_link s2) (port_waiters (ipc_ports s r')) (ws r')" "set (ws r') \<inter> set us = {}" "thread_current s2 \<notin> set (ws r')"
      using s3 by simp_all
  qed
  have f: "ipc_ports s2 = ?pp" "ipc_messages s2 = ipc_messages s" "s_port_table s2 = s_port_table s" "buckets s2 = buckets s" "hnext s2 = hnext s"
    "caches s2 = caches s" "slabs s2 = slabs s" "bufs s2 = bufs s" "s_freeTable s2 = s_freeTable s" "s_allocatedPageCount s2 = s_allocatedPageCount s"
    "s_freePageCount s2 = s_freePageCount s" "s_next_port_id s2 = s_next_port_id s"
    using fr by (auto elim!: switch_frameE)
  have key: "ipc_port_item_key ?pp = port_keys s" by (simp add: ipc_port_item_key_def fun_eq_iff)
  have pq: "port_queue (ipc_messages s) (?x\<lparr>port_waiters := q\<rparr>) []" using d(2) ms by (simp add: port_queue_def)
  have "queues_ok s2 (port_items s) us (ws(p := ws p @ [?c])) ms"
    unfolding queues_ok_def f(1,2)
  proof (intro conjI ballI impI)
    fix r' assume r: "r' \<in> port_items s"
    show "queued (sched_link s2) (port_waiters (?pp r')) ((ws(p := ws p @ [?c])) r')" using s2(3) keep(1) r by simp
    show "port_queue (ipc_messages s) (?pp r') (ms r')" using pq ms queues_okD(2) [OF qs r] by simp
    show "set ((ws(p := ws p @ [?c])) r') \<inter> set us = {}" using s2(4) keep(2) [OF r] by (cases "r' = p") simp_all
    show "thread_current s2 \<notin> set ((ws(p := ws p @ [?c])) r')" using s2(5) keep(3) [OF r] by (cases "r' = p") simp_all
    show "thread_idle s2 \<notin> set ((ws(p := ws p @ [?c])) r')" using s2(6) queues_okD(5) [OF qs r] d(5) c(2) by auto
  next
    fix r' r'' assume r: "r' \<in> port_items s" "r'' \<in> port_items s" "r' \<noteq> r''"
    show "set ((ws(p := ws p @ [?c])) r') \<inter> set ((ws(p := ws p @ [?c])) r'') = {}"
      using queues_okD(6) [OF qs r(2,1,3)] queues_okD(4) [OF qs r(1)] queues_okD(4) [OF qs r(2)] r(3) by auto
    show "set (ms r') \<inter> set (ms r'') = {}" using queues_okD(6) [OF qs r(2,1,3)] by blast
  qed
  then have "port_inv s2 Ob U us (ws(p := ws p @ [?c])) ms"
    using inv s2(2) f key by (simp add: port_inv_def sched_inv_def)
  then show ?thesis using run s2(1,7,8,9) f key
    by (intro exI [of _ s2] exI [of _ us]) (simp add: port_frame_def split: if_splits)
qed

end
