(* ===== verification/Mailbox.thy ===== *)
theory Mailbox
  imports Port
begin

text \<open>
  The ports as their users see them: a map from port numbers to the messages that wait there.  Sending
  appends a message, receiving takes the first one, and what the client proves about a channel that keeps
  the order holds for every port.
\<close>

section \<open>Sending and receiving on the mailboxes\<close>

lemma mailbox_view: "mailbox s k = None \<longleftrightarrow> port_view s k = []"
  by (simp add: mailbox_def split: list.split)

lemma mailbox_Some:
  assumes "port_inv s Ob U ts ws ms" and "mailbox s k = Some xs"
  obtains p ps where "port_view s k = p # ps" and "p \<in> port_items s" and "xs = contents (ipc_messages s) (ms p)"
  using assms inbox_eq [OF assms(1)] view_items [OF assms(1)] by (auto simp: mailbox_def split: list.splits)

lemma send_mailbox:
  assumes inv: "port_inv s Ob U ts ws ms"
  shows "\<exists>r s'. ipc_port_send k data from s = Some (r, s') \<and> int_flag s' = int_flag s \<and> thread_current s' = thread_current s
    \<and> (if r = 0
       then \<exists>p xs Ob' ms'. mailbox s k = Some xs \<and> hd (port_view s k) = p \<and> mailbox s' = (mailbox s)(k \<mapsto> xs @ [(data, from)])
         \<and> port_inv s' Ob' U (ts @ take 1 (ws p)) (ws(p := tl (ws p))) ms'
         \<and> (\<forall>t vs. ws p = t # vs \<longrightarrow> t_state (threads s' t) = READY)
       else r = -1 \<and> port_inv s' Ob U ts ws ms \<and> mailbox s' = mailbox s \<and> (mailbox s k = None \<or> free_stack s = []))"
proof -
  obtain r s' where s': "ipc_port_send k data from s = Some (r, s')" "port_frame s s'" "int_flag s' = int_flag s" "thread_current s' = thread_current s"
    and new: "if r = 0
       then \<exists>p ps m. port_view s k = p # ps \<and> m \<notin> Ob MESSAGE_CACHE
         \<and> port_inv s' (Ob(MESSAGE_CACHE := insert m (Ob MESSAGE_CACHE))) U (ts @ take 1 (ws p)) (ws(p := tl (ws p))) (ms(p := ms p @ [m]))
         \<and> contents (ipc_messages s') (ms p @ [m]) = contents (ipc_messages s) (ms p) @ [(data, from)]
         \<and> (\<forall>q \<in> port_items s. contents (ipc_messages s') (ms q) = contents (ipc_messages s) (ms q))
         \<and> (\<forall>t vs. ws p = t # vs \<longrightarrow> t_state (threads s' t) = READY)
       else r = -1 \<and> port_inv s' Ob U ts ws ms \<and> inbox s' = inbox s \<and> (port_view s k = [] \<or> free_stack s = [])"
    using ipc_port_send_ok [OF inv, of k data "from"] by blast
  show ?thesis
  proof (cases "r = 0")
    case False
    then have "mailbox s' = mailbox s" using mailbox_same [OF inv s'(2)] new by simp
    then show ?thesis using s' False new by (intro exI [of _ r] exI [of _ s']) (simp add: mailbox_view)
  next
    case True
    then obtain p ps m where p: "port_view s k = p # ps" "m \<notin> Ob MESSAGE_CACHE"
      "port_inv s' (Ob(MESSAGE_CACHE := insert m (Ob MESSAGE_CACHE))) U (ts @ take 1 (ws p)) (ws(p := tl (ws p))) (ms(p := ms p @ [m]))"
      "contents (ipc_messages s') (ms p @ [m]) = contents (ipc_messages s) (ms p) @ [(data, from)]"
      "\<forall>q \<in> port_items s. contents (ipc_messages s') (ms q) = contents (ipc_messages s) (ms q)"
      "\<forall>t vs. ws p = t # vs \<longrightarrow> t_state (threads s' t) = READY"
      using new by auto
    have it: "port_items s' = port_items s" "p \<in> port_items s" using port_frameD(2) [OF s'(2)] view_items [OF inv p(1)] by simp_all
    have ib: "inbox s' q = (if q = p then inbox s p @ [(data, from)] else inbox s q)" if "q \<in> port_items s" for q
      using inbox_eq [OF p(3), of q] inbox_eq [OF inv, of q] that it p(4,5) by auto
    have "mailbox s' = (mailbox s)(k \<mapsto> inbox s' p)" by (rule mailbox_upd [OF inv s'(2) p(1)]) (simp add: ib)
    moreover have "mailbox s k = Some (inbox s p)" using p(1) by (simp add: mailbox_def)
    ultimately show ?thesis using s' True p ib [OF it(2)]
      by (intro exI [of _ r] exI [of _ s']) auto
  qed
qed

lemma receive_mailbox:
  assumes inv: "port_inv s Ob U ts ws ms"
  shows "case mailbox s k of
      None \<Rightarrow> \<exists>s'. sys_ipc_port_receive k s = Some (Done (-1, None), s') \<and> port_inv s' Ob U ts ws ms \<and> mailbox s' = mailbox s
        \<and> int_flag s' = int_flag s \<and> thread_current s' = thread_current s
    | Some [] \<Rightarrow> thread_current s \<noteq> NULL \<longrightarrow> thread_current s \<noteq> thread_idle s \<longrightarrow>
        (\<exists>s' us p. sys_ipc_port_receive k s = Some (Blocked, s') \<and> hd (port_view s k) = p \<and> hd (port_view s' k) = p
          \<and> port_inv s' Ob U us (ws(p := ws p @ [thread_current s])) ms \<and> mailbox s' = mailbox s
          \<and> thread_current s' \<noteq> NULL \<and> t_state (threads s' (thread_current s')) = RUNNING \<and> set ts \<subseteq> insert (thread_current s') (set us))
    | Some (x # xs) \<Rightarrow> \<exists>s' Ob' ms'. sys_ipc_port_receive k s = Some (Done (0, Some x), s') \<and> port_inv s' Ob' U ts ws ms'
        \<and> mailbox s' = (mailbox s)(k \<mapsto> xs) \<and> int_flag s' = int_flag s \<and> thread_current s' = thread_current s"
proof -
  let ?s = "s\<lparr>int_flag := False, locks := lock_held PORT_LOCK (int_flag s) (locks s)\<rparr>"
  note start = port_lookup [OF inv]
  obtain p where p: "hashtable_get (port_keys ?s) (s_port_table ?s) k ?s = Some p"
    "if p = NULL then port_view s k = [] else p \<in> port_items s \<and> (\<exists>ps. port_view s k = p # ps)"
    using start(3) by blast
  have run: "sys_ipc_port_receive k s = (if p = NULL then Some (Done (-1, None), spinunlock_enable PORT_LOCK ?s) else receive_turn p ?s)"
    using p(1) start(2) by (simp add: sys_ipc_port_receive_def)
  have lk: "locks_ok ?s" using start(1) by (simp add: port_inv_def)
  have same: "port_items ?s = port_items s" "port_frame s ?s" "inbox ?s = inbox s"
    by (simp_all add: port_frame_def inbox_def fun_eq_iff)
  show ?thesis
  proof (cases "p = NULL")
    case True
    have "mailbox s k = None" using p(2) True by (simp add: mailbox_view)
    moreover have "port_inv (spinunlock_enable PORT_LOCK ?s) Ob U ts ws ms"
      unfolding spinunlock_enable_eq by (rule port_inv_locks [OF start(1)]) (use lk in simp)
    moreover have "mailbox (spinunlock_enable PORT_LOCK ?s) = mailbox s"
      by (rule mailbox_same [OF inv]) (simp_all add: spinunlock_enable_eq)
    ultimately show ?thesis using run True by (simp add: spinunlock_enable_eq)
  next
    case False
    then obtain ps where pv: "p \<in> port_items ?s" "port_view s k = p # ps" using p(2) by auto
    have mb: "mailbox s k = Some (contents (ipc_messages s) (ms p))"
      using pv inbox_eq [OF inv] by (simp add: mailbox_def)
    show ?thesis
    proof (cases "ms p")
      case Nil
      have "\<exists>s' us. sys_ipc_port_receive k s = Some (Blocked, s') \<and> port_view s' = port_view s
          \<and> port_inv s' Ob U us (ws(p := ws p @ [thread_current s])) ms \<and> mailbox s' = mailbox s
          \<and> thread_current s' \<noteq> NULL \<and> t_state (threads s' (thread_current s')) = RUNNING \<and> set ts \<subseteq> insert (thread_current s') (set us)"
        if c: "thread_current s \<noteq> NULL" "thread_current s \<noteq> thread_idle s"
      proof -
        obtain s' us where s': "receive_turn p ?s = Some (Blocked, s')" "port_inv s' Ob U us (ws(p := ws p @ [thread_current ?s])) ms"
          "port_frame ?s s'" "ipc_messages s' = ipc_messages ?s" "msg_first (ipc_ports s' p) = msg_first (ipc_ports ?s p)"
          "\<forall>q. q \<noteq> p \<longrightarrow> ipc_ports s' q = ipc_ports ?s q"
          "thread_current s' \<noteq> NULL" "t_state (threads s' (thread_current s')) = RUNNING" "set ts \<subseteq> insert (thread_current s') (set us)"
          using receive_waits [OF start(1) pv(1) Nil] c by auto
        have fr: "port_frame s s'" using port_frame_trans [OF same(2) s'(3)] .
        have ib: "inbox s' q = inbox s q" for q
          using s'(4,5,6) by (cases "q = p") (simp_all add: inbox_def)
        have "mailbox s' = mailbox s" by (rule mailbox_same [OF inv fr ib])
        then show ?thesis using run False s' port_frameD(3) [OF fr] by (intro exI [of _ s'] exI [of _ us]) simp
      qed
      then show ?thesis using mb Nil pv(2) by (fastforce simp: contents_def)
    next
      case (Cons m rest)
      obtain s' where s': "receive_turn p ?s = Some (Done (0, Some (msg_data (ipc_messages ?s m), msg_sender (ipc_messages ?s m))), s')"
        "port_inv s' (Ob(MESSAGE_CACHE := Ob MESSAGE_CACHE - {m})) U ts ws (ms(p := rest))" "port_frame ?s s'"
        "ipc_messages s' = ipc_messages ?s" "int_flag s' = (lock_ints PORT_LOCK (locks ?s) \<or> int_flag ?s)" "thread_current s' = thread_current ?s"
        using receive_first [OF start(1) pv(1) Cons] by blast
      have fr: "port_frame s s'" using port_frame_trans [OF same(2) s'(3)] .
      have it: "port_items s' = port_items s" using port_frameD(2) [OF fr] .
      have ib: "inbox s' q = (if q = p then contents (ipc_messages s) rest else inbox s q)" if "q \<in> port_items s" for q
        using inbox_eq [OF s'(2), of q] inbox_eq [OF inv, of q] that it s'(4) by simp
      have "mailbox s' = (mailbox s)(k \<mapsto> inbox s' p)" by (rule mailbox_upd [OF inv fr pv(2)]) (simp add: ib)
      then show ?thesis using run False s' mb Cons ib [of p] pv(1) by (simp add: contents_def) blast
    qed
  qed
qed

section \<open>The contract of a channel\<close>

text \<open>
  A channel that may refuse a message for lack of memory, and otherwise keeps the order.  \<open>ok s xs\<close>: the
  state is well formed and the messages \<open>xs\<close> wait.
\<close>

locale channel =
  fixes put :: "'m \<Rightarrow> 's \<Rightarrow> (bool \<times> 's) option"
    and get :: "'s \<Rightarrow> ('m \<times> 's) option"
    and ok :: "'s \<Rightarrow> 'm list \<Rightarrow> bool"
  assumes put_law: "ok s xs \<Longrightarrow> \<exists>b s'. put x s = Some (b, s') \<and> ok s' (if b then xs @ [x] else xs)"
    and get_law: "ok s (x # xs) \<Longrightarrow> \<exists>s'. get s = Some (x, s') \<and> ok s' xs"

context channel begin

fun put_all :: "'m list \<Rightarrow> 's \<Rightarrow> ('m list \<times> 's) option" where
  "put_all [] s = Some ([], s)"
| "put_all (x # xs) s = Option.bind (put x s) (\<lambda>(b, s). Option.bind (put_all xs s) (\<lambda>(ys, s). Some (if b then x # ys else ys, s)))"

fun get_many :: "nat \<Rightarrow> 's \<Rightarrow> ('m list \<times> 's) option" where
  "get_many 0 s = Some ([], s)"
| "get_many (Suc n) s = Option.bind (get s) (\<lambda>(x, s). Option.bind (get_many n s) (\<lambda>(xs, s). Some (x # xs, s)))"

lemma put_all_ok:
  "ok s xs \<Longrightarrow> \<exists>ys s'. put_all zs s = Some (ys, s') \<and> ok s' (xs @ ys)"
proof (induction zs arbitrary: s xs)
  case Nil
  then show ?case by auto
next
  case (Cons z zs)
  obtain b s1 where s1: "put z s = Some (b, s1)" "ok s1 (if b then xs @ [z] else xs)" using put_law [OF Cons.prems] by blast
  obtain ys s2 where "put_all zs s1 = Some (ys, s2)" "ok s2 ((if b then xs @ [z] else xs) @ ys)" using Cons.IH [OF s1(2)] by blast
  then show ?case using s1(1) by (cases b) auto
qed

lemma get_many_ok:
  "ok s (xs @ ys) \<Longrightarrow> \<exists>s'. get_many (length xs) s = Some (xs, s') \<and> ok s' ys"
proof (induction xs arbitrary: s)
  case Nil
  then show ?case by auto
next
  case (Cons x xs)
  obtain s1 where s1: "get s = Some (x, s1)" "ok s1 (xs @ ys)" using get_law [of s x "xs @ ys"] Cons.prems by auto
  then show ?case using Cons.IH [OF s1(2)] by auto
qed

text \<open>What was accepted comes out, in the order it was sent, after what was there.\<close>

lemma delivered:
  assumes "ok s xs"
  shows "\<exists>ys s1 s2. put_all zs s = Some (ys, s1) \<and> get_many (length xs + length ys) s1 = Some (xs @ ys, s2) \<and> ok s2 []"
proof -
  obtain ys s1 where s1: "put_all zs s = Some (ys, s1)" "ok s1 (xs @ ys)" using put_all_ok [OF assms] by blast
  then obtain s2 where "get_many (length (xs @ ys)) s1 = Some (xs @ ys, s2)" "ok s2 []"
    using get_many_ok [of s1 "xs @ ys" "[]"] by auto
  then show ?thesis using s1(1) by auto
qed

end

text \<open>A port is a channel: nobody else runs between the calls, so no receiver is woken in between and takes a message.\<close>

definition port_put :: "u32 \<Rightarrow> u64 list \<times> u32 \<Rightarrow> 'a port_state_scheme \<Rightarrow> (bool \<times> 'a port_state_scheme) option" where
  "port_put k x s = map_option (\<lambda>(r, s). (r = 0, s)) (ipc_port_send k (fst x) (snd x) s)"

definition port_get :: "u32 \<Rightarrow> 'a port_state_scheme \<Rightarrow> ((u64 list \<times> u32) \<times> 'a port_state_scheme) option" where
  "port_get k s = (case sys_ipc_port_receive k s of Some (Done (_, Some x), s') \<Rightarrow> Some (x, s') | _ \<Rightarrow> None)"

definition port_holds :: "u32 \<Rightarrow> 'a port_state_scheme \<Rightarrow> (u64 list \<times> u32) list \<Rightarrow> bool" where
  "port_holds k s xs \<longleftrightarrow> (\<exists>Ob U ts ws ms. port_inv s Ob U ts ws ms) \<and> mailbox s k = Some xs"

interpretation port: channel "port_put k" "port_get k" "port_holds k :: 'a port_state_scheme \<Rightarrow> _" for k
proof unfold_locales
  fix s :: "'a port_state_scheme" and xs x
  assume h: "port_holds k s xs"
  then obtain Ob U ts ws ms where inv: "port_inv s Ob U ts ws ms" and mb: "mailbox s k = Some xs" by (auto simp: port_holds_def)
  show "\<exists>b s'. port_put k x s = Some (b, s') \<and> port_holds k s' (if b then xs @ [x] else xs)"
    using send_mailbox [OF inv, of k "fst x" "snd x"] mb unfolding port_put_def port_holds_def by (auto split: if_splits)
next
  fix s :: "'a port_state_scheme" and x xs
  assume h: "port_holds k s (x # xs)"
  then obtain Ob U ts ws ms where inv: "port_inv s Ob U ts ws ms" and mb: "mailbox s k = Some (x # xs)" by (auto simp: port_holds_def)
  show "\<exists>s'. port_get k s = Some (x, s') \<and> port_holds k s' xs"
    using receive_mailbox [OF inv, of k] mb unfolding port_get_def port_holds_def by fastforce
qed

section \<open>Creating and deleting ports\<close>

lemma port_inv_table:
  assumes inv: "port_inv s Ob U ts ws ms" and t: "table_ok (port_keys s') (s_port_table s') (buckets s') (hnext s')"
    "port_items s' \<subseteq> Ob PORT_CACHE" "queues_ok s' (port_items s') ts ws' ms'" "\<And>p. p \<in> port_items s' \<Longrightarrow> set (ms' p) \<subseteq> Ob MESSAGE_CACHE"
    and same: "s' = s\<lparr>int_flag := b, locks := L, buckets := bk, hnext := nx, ipc_ports := pp, s_port_table := tab, s_next_port_id := i\<rparr>" "addrs_ok L"
  shows "port_inv s' Ob U ts ws' ms'"
  using inv t same(2) unfolding port_inv_def sched_inv_def by (simp add: same(1))

text \<open>A new port has the next number, which finds it from now on, and no messages.\<close>

lemma sys_ipc_port_create_ok:
  assumes inv: "port_inv s Ob U ts ws ms"
  shows "\<exists>r s'. sys_ipc_port_create s = Some (r, s') \<and> int_flag s' = int_flag s
    \<and> thread_current s' = thread_current s \<and> thread_idle s' = thread_idle s
    \<and> ((\<exists>p. r = sint (s_next_port_id s) \<and> p \<notin> Ob PORT_CACHE \<and> s_next_port_id s' = s_next_port_id s + 1
          \<and> port_inv s' (Ob(PORT_CACHE := insert p (Ob PORT_CACHE))) U ts (ws(p := [])) (ms(p := []))
          \<and> mailbox s' = (mailbox s)(s_next_port_id s \<mapsto> [])
          \<and> port_view s' (s_next_port_id s) = p # port_view s (s_next_port_id s) \<and> (\<forall>q \<in> port_items s. inbox s' q = inbox s q))
       \<or> r = -1 \<and> port_inv s' Ob U ts ws ms \<and> mailbox s' = mailbox s \<and> s_next_port_id s' = s_next_port_id s \<and> free_stack s = [])"
proof -
  obtain p s1 where p: "slab_cache_alloc PORT_CACHE s = Some (p, s1)" "slab_frame s s1" "same_shape (caches s) (caches s1)"
    "memory s1 (if p = NULL then Ob else Ob(PORT_CACHE := insert p (Ob PORT_CACHE))) U"
    "if p = NULL then free_stack s = [] else p \<notin> Ob PORT_CACHE"
    using alloc_object [of s Ob U PORT_CACHE] inv unfolding port_inv_def by blast
  have f1: "int_flag s1 = int_flag s" "s_next_port_id s1 = s_next_port_id s"
      "thread_current s1 = thread_current s" "thread_idle s1 = thread_idle s" using p(2) by (auto elim!: slab_frameE)
  let ?O = "if p = NULL then Ob else Ob(PORT_CACHE := insert p (Ob PORT_CACHE))"
  have sub: "port_items s \<subseteq> ?O PORT_CACHE" "\<And>p. p \<in> port_items s \<Longrightarrow> set (ms p) \<subseteq> ?O MESSAGE_CACHE"
    using inv unfolding port_inv_def by auto
  have inv1: "port_inv s1 (if p = NULL then Ob else Ob(PORT_CACHE := insert p (Ob PORT_CACHE))) U ts ws ms" "port_frame s s1"
    "ipc_messages s1 = ipc_messages s" "ipc_ports s1 = ipc_ports s"
    using port_inv_memory [OF inv p(2-4) sub] by simp_all
  have ib1: "inbox s1 = inbox s" by (rule ext) (simp add: inbox_def inv1(3,4))
  have mb1: "mailbox s1 = mailbox s" by (rule mailbox_same [OF inv inv1(2)]) (simp add: ib1)
  show ?thesis
  proof (cases "p = NULL")
    case True
    then have "sys_ipc_port_create s = Some (-1, s1)" using p(1) by (simp add: sys_ipc_port_create_def ipc_port_create_def)
    then show ?thesis using inv1(1) mb1 True f1 p(5) by auto
  next
    case False
    let ?O = "Ob(PORT_CACHE := insert p (Ob PORT_CACHE))"
    have inv1': "port_inv s1 ?O U ts ws ms" using inv1(1) False by simp
    have lk: "locks_ok s1" using inv1' by (simp add: port_inv_def)
    define x where "x = (ipc_ports s1 p)\<lparr>msg_first := NULL, msg_last := NULL, port_waiters := threadqueue_init (port_waiters (ipc_ports s1 p)),
        port_id := s_next_port_id s1\<rparr>"
    define pp where "pp = (ipc_ports s1)(p := x)"
    let ?L = "lock_held PORT_LOCK (int_flag s1) (locks s1)"
    let ?s2 = "s1\<lparr>int_flag := False, locks := ?L, ipc_ports := pp, s_next_port_id := s_next_port_id s1 + 1\<rparr>"
    have nin: "p \<notin> port_items s1" using inv p(5) False port_frameD(2) [OF inv1(2)] by (auto simp: port_inv_def)
    have key: "ipc_port_item_key pp y = port_keys s1 y" if "y \<noteq> p" for y using that by (simp add: ipc_port_item_key_def pp_def)
    have tok: "table_ok (port_keys s1) (s_port_table s1) (buckets ?s2) (hnext ?s2)" using inv1' by (simp add: port_inv_def)
    obtain nx bk where add: "hashtable_add (ipc_port_item_key pp) (s_port_table s1) p ?s2
        = Some ((s_port_table s1)\<lparr>ht_items := ht_items (s_port_table s1) + 1\<rparr>, ?s2\<lparr>hnext := nx, buckets := bk\<rparr>)"
      "table_ok (ipc_port_item_key pp) ((s_port_table s1)\<lparr>ht_items := ht_items (s_port_table s1) + 1\<rparr>) bk nx"
      "table_view (ipc_port_item_key pp) ((s_port_table s1)\<lparr>ht_items := ht_items (s_port_table s1) + 1\<rparr>) bk nx
        = (port_view s1)(ipc_port_item_key pp p := p # port_view s1 (ipc_port_item_key pp p))"
      "table_items ((s_port_table s1)\<lparr>ht_items := ht_items (s_port_table s1) + 1\<rparr>) bk nx = insert p (port_items s1)"
      using table_enroll [OF tok False, of "ipc_port_item_key pp"] nin key by auto
    let ?tab = "(s_port_table s1)\<lparr>ht_items := ht_items (s_port_table s1) + 1\<rparr>"
    define s3 where "s3 = s1\<lparr>int_flag := int_flag s1, locks := lock_released PORT_LOCK ?L, buckets := bk, hnext := nx, ipc_ports := pp,
        s_port_table := ?tab, s_next_port_id := s_next_port_id s1 + 1\<rparr>"
    have run: "sys_ipc_port_create s = Some (sint (s_next_port_id s), s3)"
      using p(1) False add(1) lk f1
      by (simp add: sys_ipc_port_create_def ipc_port_create_def ipc_port_insert_def set_port_def op_simps pp_def x_def s3_def)
    have kp: "ipc_port_item_key pp p = s_next_port_id s" using f1 by (simp add: ipc_port_item_key_def pp_def x_def)
    have t3: "port_keys s3 = ipc_port_item_key pp" "s_port_table s3 = ?tab" "buckets s3 = bk" "hnext s3 = nx"
      "ipc_ports s3 = pp" "ipc_messages s3 = ipc_messages s1" "sched_link s3 = sched_link s1" "thread_current s3 = thread_current s1"
      "thread_idle s3 = thread_idle s1"
      by (simp_all add: s3_def)
    have items: "port_items s3 = insert p (port_items s1)" unfolding t3 by (rule add(4))
    have view: "port_view s3 = (port_view s1)(s_next_port_id s := p # port_view s1 (s_next_port_id s))" unfolding t3 add(3) kp by (rule refl)
    have qs: "queues_ok s1 (port_items s1) ts ws ms" using inv1' by (simp add: port_inv_def)
    have new: "queued (sched_link s1) (port_waiters x) []" "port_queue (ipc_messages s1) x []"
      by (simp_all add: x_def port_queue_Nil threadqueue_init_empty)
    have other: "pp q = ipc_ports s1 q \<and> (ws(p := [])) q = ws q \<and> (ms(p := [])) q = ms q" if "q \<in> port_items s1" for q
      using that nin by (auto simp: pp_def)
    have q3: "queues_ok s3 (insert p (port_items s1)) ts (ws(p := [])) (ms(p := []))"
      using qs new other unfolding queues_ok_def t3 by (simp add: pp_def)
    have inv3: "port_inv s3 ?O U ts (ws(p := [])) (ms(p := []))"
    proof (rule port_inv_table [OF inv1' _ _ _ _ s3_def])
      show "table_ok (port_keys s3) (s_port_table s3) (buckets s3) (hnext s3)" unfolding t3 by (rule add(2))
      show "port_items s3 \<subseteq> ?O PORT_CACHE" using inv1' unfolding items by (auto simp: port_inv_def)
      show "queues_ok s3 (port_items s3) ts (ws(p := [])) (ms(p := []))" unfolding items by (rule q3)
      show "set ((ms(p := [])) q) \<subseteq> ?O MESSAGE_CACHE" if "q \<in> port_items s3" for q
        using that inv1' unfolding items by (auto simp: port_inv_def)
      show "addrs_ok (lock_released PORT_LOCK ?L)" using lk by simp
    qed
    have ib: "inbox s3 q = (if q = p then [] else inbox s1 q)" for q
      by (simp add: inbox_def t3 pp_def x_def contents_def)
    have "mailbox s3 j = ((mailbox s1)(s_next_port_id s \<mapsto> [])) j" for j
      using view_items [OF inv1', of j] nin unfolding mailbox_def view by (auto simp: ib split: list.split)
    then have "mailbox s3 = (mailbox s)(s_next_port_id s \<mapsto> [])" using mb1 by auto
    moreover have "int_flag s3 = int_flag s" "s_next_port_id s3 = s_next_port_id s + 1"
      "thread_current s3 = thread_current s" "thread_idle s3 = thread_idle s" using f1 by (simp_all add: s3_def)
    moreover have "port_view s3 (s_next_port_id s) = p # port_view s (s_next_port_id s)" unfolding view port_frameD(3) [OF inv1(2)] by simp
    moreover have "inbox s3 q = inbox s q" if "q \<in> port_items s" for q
      using that nin ib ib1 unfolding port_frameD(2) [OF inv1(2)] by auto
    ultimately show ?thesis using run inv3 p(5) False by auto
  qed
qed

text \<open>A deleted port takes its messages with it; its number no longer finds it.\<close>

lemma destroy_messages_ok:
  assumes "memory s Ob U" and "cache_ready s MESSAGE_CACHE" and "linked (\<lambda>m. msg_next (ipc_messages s m)) m xs" and "set xs \<subseteq> Ob MESSAGE_CACHE"
  shows "\<exists>s'. destroy_messages m s = Some s' \<and> slab_frame s s' \<and> same_shape (caches s) (caches s')
    \<and> memory s' (Ob(MESSAGE_CACHE := Ob MESSAGE_CACHE - set xs)) U"
  using assms
proof (induction xs arbitrary: m s Ob)
  case Nil
  then show ?case by (simp add: destroy_messages.simps)
next
  case (Cons x xs)
  have x: "m = x" "x \<noteq> NULL" "x \<in> Ob MESSAGE_CACHE" using Cons.prems(3,4) by auto
  obtain s1 where s1: "slab_cache_free MESSAGE_CACHE x s = Some s1" "slab_frame s s1" "same_shape (caches s) (caches s1)"
    "memory s1 (Ob(MESSAGE_CACHE := Ob MESSAGE_CACHE - {x})) U"
    using free_object [OF Cons.prems(1,2) x(3)] by blast
  have f: "ipc_messages s1 = ipc_messages s" using s1(2) by (auto elim!: slab_frameE)
  have l: "linked (\<lambda>m. msg_next (ipc_messages s1 m)) (msg_next (ipc_messages s1 x)) xs" using Cons.prems(3) x(1) f by simp
  have "x \<notin> set xs" using linked_distinct [OF Cons.prems(3)] by simp
  then have sub: "set xs \<subseteq> (Ob(MESSAGE_CACHE := Ob MESSAGE_CACHE - {x})) MESSAGE_CACHE" using Cons.prems(4) by auto
  have r: "cache_ready s1 MESSAGE_CACHE" using Cons.prems(2) ready_shape [OF s1(3)] by simp
  obtain s2 where s2: "destroy_messages (msg_next (ipc_messages s1 x)) s1 = Some s2" "slab_frame s1 s2" "same_shape (caches s1) (caches s2)"
    "memory s2 (Ob(MESSAGE_CACHE := Ob MESSAGE_CACHE - {x} - set xs)) U"
    using Cons.IH [OF s1(4) r l sub, unfolded fun_upd_upd fun_upd_same] by blast
  have run: "destroy_messages m s = Some s2"
    using s1(1) s2(1) x(1,2) by (simp add: destroy_messages.simps [of x s] ipc_message_destroy_def)
  have "Ob MESSAGE_CACHE - {x} - set xs = Ob MESSAGE_CACHE - set (x # xs)" by auto
  then show ?case
    using s2(4) slab_frame_trans [OF s1(2) s2(2)] same_shape_trans [OF s1(3) s2(3)] run by metis
qed

lemma sys_ipc_port_delete_ok:
  assumes inv: "port_inv s Ob U ts ws ms"
  shows "case port_view s k of
      [] \<Rightarrow> \<exists>s'. sys_ipc_port_delete k s = Some (-1, s') \<and> port_inv s' Ob U ts ws ms \<and> mailbox s' = mailbox s \<and> int_flag s' = int_flag s
    | p # ps \<Rightarrow> \<exists>s'. sys_ipc_port_delete k s = Some (0, s') \<and> int_flag s' = int_flag s
        \<and> port_inv s' (Ob(MESSAGE_CACHE := Ob MESSAGE_CACHE - set (ms p), PORT_CACHE := Ob PORT_CACHE - {p})) U ts ws ms
        \<and> mailbox s' = (mailbox s)(k := (case ps of [] \<Rightarrow> None | q # _ \<Rightarrow> Some (inbox s q)))"
proof -
  let ?L = "lock_held PORT_LOCK (int_flag s) (locks s)"
  let ?s = "s\<lparr>int_flag := False, locks := ?L\<rparr>"
  note start = port_lookup(1,2) [OF inv]
  have lk: "locks_ok s" and tok: "table_ok (port_keys ?s) (s_port_table ?s) (buckets ?s) (hnext ?s)"
    using inv start(1) by (simp_all add: port_inv_def)
  show ?thesis
  proof (cases "port_view s k")
    case Nil
    have "hashtable_remove (port_keys ?s) (s_port_table ?s) k ?s = Some (NULL, s_port_table ?s, ?s)"
      by (rule hashtable_remove_none [OF tok]) (use Nil in simp)
    then have run: "sys_ipc_port_delete k s = Some (-1, spinunlock_enable PORT_LOCK ?s)"
      using start(2) by (simp add: sys_ipc_port_delete_def)
    have "port_inv (spinunlock_enable PORT_LOCK ?s) Ob U ts ws ms"
      unfolding spinunlock_enable_eq by (rule port_inv_locks [OF start(1)]) (use lk in simp)
    moreover have "mailbox (spinunlock_enable PORT_LOCK ?s) = mailbox s"
      by (rule mailbox_same [OF inv]) (simp_all add: spinunlock_enable_eq port_frame_def inbox_def)
    ultimately show ?thesis using run Nil by (simp add: spinunlock_enable_eq)
  next
    case (Cons p ps)
    have v: "table_view (port_keys ?s) (s_port_table ?s) (buckets ?s) (hnext ?s) k = p # ps" using Cons by simp
    obtain bk nx where rem: "hashtable_remove (port_keys ?s) (s_port_table ?s) k ?s = Some (p, s_port_table ?s, ?s\<lparr>buckets := bk, hnext := nx\<rparr>)"
      "p \<noteq> NULL" "table_ok (port_keys s) (s_port_table s) bk nx"
      "table_view (port_keys s) (s_port_table s) bk nx = (port_view s)(k := ps)"
      "table_items (s_port_table s) bk nx = port_items s - {p}"
      using hashtable_remove_some [OF tok v] by auto
    have p: "p \<in> port_items s" "port_keys s p = k" using view_items [OF inv Cons] Cons by (auto simp: table_view_def filter_eq_Cons_iff)
    have qs: "queues_ok s (port_items s) ts ws ms" using inv by (simp add: port_inv_def)
    define s1 where "s1 = s\<lparr>int_flag := int_flag s, locks := lock_released PORT_LOCK ?L, buckets := bk, hnext := nx, ipc_ports := ipc_ports s,
        s_port_table := s_port_table s, s_next_port_id := s_next_port_id s\<rparr>"
    have s1: "spinunlock_enable PORT_LOCK (?s\<lparr>buckets := bk, hnext := nx\<rparr>) = s1"
      by (simp add: spinunlock_enable_eq s1_def)
    have run: "sys_ipc_port_delete k s = map_option (Pair 0) (ipc_port_destroy p s1)"
      unfolding sys_ipc_port_delete_def start(2) using rem(1,2) by (cases "ipc_port_destroy p s1") (simp_all add: s1 Let_def)
    have f1: "port_items s1 = port_items s - {p}" "port_view s1 = (port_view s)(k := ps)" "ipc_messages s1 = ipc_messages s"
      "ipc_ports s1 = ipc_ports s" "port_keys s1 = port_keys s"
      using rem(4,5) by (simp_all add: s1_def)
    have inv1: "port_inv s1 Ob U ts ws ms"
    proof (rule port_inv_table [OF inv _ _ _ _ s1_def])
      show "table_ok (port_keys s1) (s_port_table s1) (buckets s1) (hnext s1)" using rem(3) by (simp add: s1_def)
      show "port_items s1 \<subseteq> Ob PORT_CACHE" using inv unfolding f1 by (auto simp: port_inv_def)
      have "queues_ok s (port_items s - {p}) ts ws ms" using qs by (simp add: queues_ok_def)
      then show "queues_ok s1 (port_items s1) ts ws ms" unfolding f1 by (simp add: queues_ok_def s1_def)
      show "set (ms q) \<subseteq> Ob MESSAGE_CACHE" if "q \<in> port_items s1" for q using inv that unfolding f1 by (simp add: port_inv_def)
      show "addrs_ok (lock_released PORT_LOCK ?L)" using lk by simp
    qed
    have "linked (\<lambda>m. msg_next (ipc_messages s1 m)) (msg_first (ipc_ports s1 p)) (ms p)"
      using queues_okD(2) [OF qs p(1)] unfolding f1 by (simp add: port_queue_def)
    moreover have "set (ms p) \<subseteq> Ob MESSAGE_CACHE" using inv p(1) by (simp add: port_inv_def)
    ultimately obtain s2 where s2: "destroy_messages (msg_first (ipc_ports s1 p)) s1 = Some s2" "slab_frame s1 s2" "same_shape (caches s1) (caches s2)"
      "memory s2 (Ob(MESSAGE_CACHE := Ob MESSAGE_CACHE - set (ms p))) U"
      using destroy_messages_ok [of s1 Ob U] inv1 unfolding port_inv_def by blast
    let ?O = "Ob(MESSAGE_CACHE := Ob MESSAGE_CACHE - set (ms p))"
    have "p \<in> ?O PORT_CACHE" using inv p(1) by (auto simp: port_inv_def)
    moreover have "cache_ready s2 PORT_CACHE" using inv1 ready_shape [OF s2(3)] by (simp add: port_inv_def)
    ultimately obtain s3 where s3: "slab_cache_free PORT_CACHE p s2 = Some s3" "slab_frame s2 s3" "same_shape (caches s2) (caches s3)"
      "memory s3 (?O(PORT_CACHE := ?O PORT_CACHE - {p})) U"
      using free_object [OF s2(4)] by blast
    have fr: "slab_frame s1 s3" "same_shape (caches s1) (caches s3)"
      using slab_frame_trans [OF s2(2) s3(2)] same_shape_trans [OF s2(3) s3(3)] .
    have m3: "memory s3 (Ob(MESSAGE_CACHE := Ob MESSAGE_CACHE - set (ms p), PORT_CACHE := Ob PORT_CACHE - {p})) U"
      using s3(4) by simp
    have sub: "set (ms q) \<subseteq> Ob MESSAGE_CACHE - set (ms p)" if "q \<in> port_items s1" for q
      using queues_okD(6) [OF qs p(1), of q] that inv unfolding f1 by (auto simp: port_inv_def)
    have items: "port_items s1 \<subseteq> Ob PORT_CACHE - {p}" using inv unfolding f1 by (auto simp: port_inv_def)
    have inv3: "port_inv s3 (Ob(MESSAGE_CACHE := Ob MESSAGE_CACHE - set (ms p), PORT_CACHE := Ob PORT_CACHE - {p})) U ts ws ms"
      "port_frame s1 s3" "ipc_messages s3 = ipc_messages s1" "ipc_ports s3 = ipc_ports s1"
      using port_inv_memory [OF inv1 fr m3] sub items by simp_all
    have ib: "inbox s3 = inbox s" by (rule ext) (simp add: inbox_def inv3(3,4) f1)
    have v3: "port_view s3 = (port_view s)(k := ps)" by (rule trans [OF port_frameD(3) [OF inv3(2)] f1(2)])
    have "mailbox s3 = (mailbox s)(k := (case ps of [] \<Rightarrow> None | q # _ \<Rightarrow> Some (inbox s q)))"
      unfolding mailbox_def v3 ib by (auto split: list.split)
    moreover have "int_flag s3 = int_flag s" using fr(1) by (auto simp: s1_def elim!: slab_frameE)
    moreover have "sys_ipc_port_delete k s = Some (0, s3)" using run s2(1) s3(1) by (simp add: ipc_port_destroy_def)
    ultimately show ?thesis using Cons inv3(1) by auto
  qed
qed

section \<open>Properties\<close>

text \<open>
  C22: sending.  \<^verbatim>\<open>ipc_port_send\<close> always returns, with the interrupt flag restored.  When it returns 0 the
  message is the last at its port and nothing else has changed; the first thread waiting there, if any, is
  off the queue, ready and last in the ready queue.  Otherwise it returns -1, nothing has changed, and
  there is no such port or no free page for a message.
\<close>

theorem port_send_appends:
  assumes "port_inv s Ob U ts ws ms"
  shows "\<exists>r s'. ipc_port_send k data from s = Some (r, s') \<and> int_flag s' = int_flag s
    \<and> (if r = 0
       then \<exists>p xs Ob' ms'. mailbox s k = Some xs \<and> hd (port_view s k) = p \<and> mailbox s' = (mailbox s)(k \<mapsto> xs @ [(data, from)])
         \<and> port_inv s' Ob' U (ts @ take 1 (ws p)) (ws(p := tl (ws p))) ms'
         \<and> (\<forall>t vs. ws p = t # vs \<longrightarrow> t_state (threads s' t) = READY)
       else r = -1 \<and> port_inv s' Ob U ts ws ms \<and> mailbox s' = mailbox s \<and> (mailbox s k = None \<or> free_stack s = []))"
  using send_mailbox [OF assms, of k data "from"] by blast

text \<open>
  C23: receiving.  Without such a port \<^verbatim>\<open>sys_ipc_port_receive\<close> returns -1; with messages it returns the first
  one, which is gone from the port, and its sender; with none the caller is put last among the threads that
  wait at the port and another thread runs.
\<close>

theorem port_receive_takes_first:
  assumes "port_inv s Ob U ts ws ms" and "thread_current s \<noteq> NULL" and "thread_current s \<noteq> thread_idle s"
  shows "case mailbox s k of
      None \<Rightarrow> \<exists>s'. sys_ipc_port_receive k s = Some (Done (-1, None), s') \<and> port_inv s' Ob U ts ws ms \<and> mailbox s' = mailbox s
    | Some [] \<Rightarrow> \<exists>s' us p. sys_ipc_port_receive k s = Some (Blocked, s') \<and> hd (port_view s k) = p
        \<and> port_inv s' Ob U us (ws(p := ws p @ [thread_current s])) ms \<and> mailbox s' = mailbox s \<and> set ts \<subseteq> insert (thread_current s') (set us)
    | Some (x # xs) \<Rightarrow> \<exists>s' Ob' ms'. sys_ipc_port_receive k s = Some (Done (0, Some x), s') \<and> port_inv s' Ob' U ts ws ms'
        \<and> mailbox s' = (mailbox s)(k \<mapsto> xs)"
  using receive_mailbox [OF assms(1), of k] assms(2,3)
  by (cases "mailbox s k"; cases "the (mailbox s k)") auto

text \<open>
  C24: the round trip of messages.  If messages are sent to a port and no other thread receives there
  meanwhile, as many receptions as there are messages return those that were there before and then those
  whose sending was accepted, each once, with its data and sender, in the order they were sent.
\<close>

theorem port_delivers:
  assumes "port_inv s Ob U ts ws ms" and "mailbox s k = Some xs"
  shows "\<exists>ys s1 s2. port.put_all k zs s = Some (ys, s1) \<and> port.get_many k (length xs + length ys) s1 = Some (xs @ ys, s2)
    \<and> mailbox s2 k = Some []"
proof -
  have "port_holds k s xs" using assms unfolding port_holds_def by blast
  then obtain ys s1 s2 where "port.put_all k zs s = Some (ys, s1)" "port.get_many k (length xs + length ys) s1 = Some (xs @ ys, s2)"
    "port_holds k s2 []" using port.delivered by blast
  then show ?thesis by (auto simp: port_holds_def)
qed

text \<open>
  C25: creation and deletion are inverse.  A port that has just been created is found under the next
  number and has no messages; deleting the number again leaves every mailbox as it was before the creation.
\<close>

theorem port_create_delete:
  assumes "port_inv s Ob U ts ws ms"
  shows "\<exists>r s'. sys_ipc_port_create s = Some (r, s')
    \<and> (r = sint (s_next_port_id s) \<and> mailbox s' = (mailbox s)(s_next_port_id s \<mapsto> []) \<and> s_next_port_id s' = s_next_port_id s + 1
         \<and> (\<exists>s''. sys_ipc_port_delete (s_next_port_id s) s' = Some (0, s'') \<and> mailbox s'' = mailbox s \<and> int_flag s'' = int_flag s)
       \<or> r = -1 \<and> mailbox s' = mailbox s \<and> free_stack s = [])"
proof -
  let ?i = "s_next_port_id s"
  obtain r s' where run: "sys_ipc_port_create s = Some (r, s')" "int_flag s' = int_flag s" "thread_current s' = thread_current s" "thread_idle s' = thread_idle s"
    and alt: "(\<exists>p. r = sint ?i \<and> p \<notin> Ob PORT_CACHE \<and> s_next_port_id s' = ?i + 1
          \<and> port_inv s' (Ob(PORT_CACHE := insert p (Ob PORT_CACHE))) U ts (ws(p := [])) (ms(p := []))
          \<and> mailbox s' = (mailbox s)(?i \<mapsto> [])
          \<and> port_view s' ?i = p # port_view s ?i \<and> (\<forall>q \<in> port_items s. inbox s' q = inbox s q))
       \<or> r = -1 \<and> port_inv s' Ob U ts ws ms \<and> mailbox s' = mailbox s \<and> s_next_port_id s' = ?i \<and> free_stack s = []"
    using sys_ipc_port_create_ok [OF assms] by blast
  from alt show ?thesis
  proof (elim disjE exE conjE)
    fix p
    assume new: "r = sint ?i" "s_next_port_id s' = ?i + 1" "port_inv s' (Ob(PORT_CACHE := insert p (Ob PORT_CACHE))) U ts (ws(p := [])) (ms(p := []))"
      "mailbox s' = (mailbox s)(?i \<mapsto> [])" "port_view s' ?i = p # port_view s ?i" "\<forall>q \<in> port_items s. inbox s' q = inbox s q"
    obtain s'' where "sys_ipc_port_delete ?i s' = Some (0, s'')" "int_flag s'' = int_flag s'"
      and mb: "mailbox s'' = (mailbox s')(?i := (case port_view s ?i of [] \<Rightarrow> None | q # _ \<Rightarrow> Some (inbox s' q)))"
      using sys_ipc_port_delete_ok [OF new(3), of ?i] new(5) by auto
    moreover have "(case port_view s ?i of [] \<Rightarrow> None | q # _ \<Rightarrow> Some (inbox s' q)) = mailbox s ?i"
      using new(6) view_items [OF assms, of ?i] by (auto simp: mailbox_def split: list.split)
    ultimately show ?thesis using run new(1,2,4) by auto
  qed (use run in auto)
qed

section \<open>Witnesses\<close>

text \<open>One thread runs and there is memory; no port has been created yet.\<close>

abbreviation (input) sample_ports :: port_state where
  "sample_ports \<equiv> proc_state.extend sample_procs \<lparr>ipc_messages = (\<lambda>_. \<lparr>msg_sender = 0, msg_data = [], msg_next = NULL\<rparr>),
     ipc_ports = (\<lambda>_. \<lparr>port_id = 0, msg_first = NULL, msg_last = NULL, port_waiters = \<lparr>q_first = NULL, q_last = NULL\<rparr>\<rparr>),
     s_next_port_id = 0,
     s_port_table = \<lparr>ht_table = PHYS_MAP_BASE + 0x91000, ht_size = 512, ht_items = 0, ht_hash = hashtable_hash_int, ht_compare = (=)\<rparr>\<rparr>"

lemmas port_defs = proc_defs proc_state.defs

lemma sample_ports_inv: "port_inv sample_ports (\<lambda>_. {}) {0x100000} [0x3000, 0x4000] (\<lambda>_. []) (\<lambda>_. [])"
proof -
  have "memory sample_ports (\<lambda>_. {}) {0x100000}" using sample_procs_ok by (simp add: procs_ok_def vmm_ok_def port_defs)
  moreover have "sched_inv sample_ports [0x3000, 0x4000]" using sample_sched_inv by (simp add: sched_inv_def port_defs)
  moreover have "port_items sample_ports = {}" by (simp add: table_items_def chain_of_def port_defs)
  ultimately show ?thesis by (simp add: port_inv_def queues_ok_def table_ok_def chain_of_def port_defs)
qed

lemma port_send_appends_witness:
  "\<exists>s'. ipc_port_send 0 [1, 2, 3, 4, 5, 6] 7 sample_ports = Some (-1, s')"
proof -
  have "mailbox sample_ports 0 = None" by (simp add: mailbox_view table_view_def chain_of_def port_defs)
  then show ?thesis using port_send_appends [OF sample_ports_inv, of 0 "[1, 2, 3, 4, 5, 6]" 7] by (auto split: if_splits)
qed

text \<open>The state after the first port was created; its number is 0.\<close>

lemma sample_port_created:
  "\<exists>s Ob ts ws ms. sys_ipc_port_create sample_ports = Some (0, s) \<and> port_inv s Ob {0x100000} ts ws ms \<and> mailbox s 0 = Some []
     \<and> thread_current s = 0x2000 \<and> thread_idle s = 0x1000"
proof -
  have "free_stack sample_ports \<noteq> []" "s_next_port_id sample_ports = 0" "thread_current sample_ports = 0x2000" "thread_idle sample_ports = 0x1000"
    by (simp_all add: port_defs)
  then show ?thesis using sys_ipc_port_create_ok [OF sample_ports_inv] by (elim exE conjE disjE) auto
qed

lemma port_receive_takes_first_witness:
  "\<exists>s s' us p. sys_ipc_port_create sample_ports = Some (0, s) \<and> sys_ipc_port_receive 0 s = Some (Blocked, s')"
proof -
  obtain s Ob ts ws ms where s: "sys_ipc_port_create sample_ports = Some (0, s)" "port_inv s Ob {0x100000} ts ws ms" "mailbox s 0 = Some []"
    "thread_current s = 0x2000" "thread_idle s = 0x1000" using sample_port_created by blast
  have "thread_current s \<noteq> NULL" "thread_current s \<noteq> thread_idle s" using s(4,5) by simp_all
  from port_receive_takes_first [OF s(2) this, of 0] show ?thesis using s(1,3) by auto
qed

lemma port_delivers_witness:
  "\<exists>s ys s1 s2. sys_ipc_port_create sample_ports = Some (0, s) \<and> port.put_all 0 [([1, 2, 3, 4, 5, 6], 7), ([6, 5, 4, 3, 2, 1], 8)] s = Some (ys, s1)
     \<and> port.get_many 0 (length ys) s1 = Some (ys, s2)"
proof -
  obtain s Ob ts ws ms where s: "sys_ipc_port_create sample_ports = Some (0, s)" "port_inv s Ob {0x100000} ts ws ms" "mailbox s 0 = Some []"
    using sample_port_created by blast
  show ?thesis using port_delivers [OF s(2,3), of "[([1, 2, 3, 4, 5, 6], 7), ([6, 5, 4, 3, 2, 1], 8)]"] s(1) by auto
qed

lemma port_create_delete_witness:
  "\<exists>s s'. sys_ipc_port_create sample_ports = Some (0, s) \<and> sys_ipc_port_delete 0 s = Some (0, s') \<and> mailbox s' = mailbox sample_ports"
proof -
  have "free_stack sample_ports \<noteq> []" "s_next_port_id sample_ports = 0" by (simp_all add: port_defs)
  then show ?thesis using port_create_delete [OF sample_ports_inv] by auto
qed

end
