(* ===== verification/Server.thy ===== *)
theory Server
  imports Mailbox
begin

text \<open>
  Names of servers: \<^verbatim>\<open>ipc/server.c\<close>.  A server registers the number of its port under a name; a client
  looks the name up, and may wait until somebody registers it.  The table of names is a hash table, the
  waiting clients are a list.  A name is the list of its bytes before the terminating zero, so
  \<^verbatim>\<open>strncpy\<close> with \<^verbatim>\<open>SERVER_NAME_SIZE - 1\<close> takes a prefix and \<^verbatim>\<open>strcmp\<close> compares lists.
\<close>

section \<open>Data\<close>

abbreviation SERVER_NAME_SIZE :: nat where "SERVER_NAME_SIZE \<equiv> 32"

record ipc_server =
  srv_name :: "u8 list"
  srv_port :: u32

record ipc_server_waiter =
  w_name :: "u8 list"
  w_waiter :: ptr
  w_next :: ptr

record server_state = port_state +
  ipc_servers :: "ptr \<Rightarrow> ipc_server"
  server_waiters :: "ptr \<Rightarrow> ipc_server_waiter"
  s_server_table :: "u8 list hashtable"
  s_waiters :: ptr

definition set_waiter :: "ptr \<Rightarrow> (ipc_server_waiter \<Rightarrow> ipc_server_waiter) \<Rightarrow> 'a server_state_scheme \<Rightarrow> 'a server_state_scheme" where
  "set_waiter w f s = s\<lparr>server_waiters := (server_waiters s)(w := f (server_waiters s w))\<rparr>"

definition ipc_server_key :: "(ptr \<Rightarrow> ipc_server) \<Rightarrow> ptr \<Rightarrow> u8 list" where
  "ipc_server_key servers item = srv_name (servers item)"

section \<open>Operations\<close>

text \<open>
  The loop of \<^verbatim>\<open>sys_ipc_server_register\<close> over the waiting clients.  A client that waits for the name is
  unlinked and woken, and its entry is freed after its link has been read.
\<close>

partial_function (option) notify_waiters :: "u8 list \<Rightarrow> ptr \<Rightarrow> ptr \<Rightarrow> 'a server_state_scheme \<Rightarrow> 'a server_state_scheme option" where
  "notify_waiters name prev waiter s =
     (if waiter = NULL then Some s
      else if w_name (server_waiters s waiter) = name then do {
        let s = (if prev \<noteq> NULL then set_waiter prev (\<lambda>x. x\<lparr>w_next := w_next (server_waiters s waiter)\<rparr>) s
                 else s\<lparr>s_waiters := w_next (server_waiters s waiter)\<rparr>);
        (_, s) \<leftarrow> thread_wake_up (w_waiter (server_waiters s waiter)) s;
        let next = w_next (server_waiters s waiter);
        s \<leftarrow> slab_cache_free WAITER_CACHE waiter s;
        notify_waiters name prev next s
      }
      else notify_waiters name waiter (w_next (server_waiters s waiter)) s)"

definition sys_ipc_server_register :: "u8 list \<Rightarrow> u32 \<Rightarrow> 'a server_state_scheme \<Rightarrow> (int \<times> 'a server_state_scheme) option" where
  "sys_ipc_server_register name port s = do {
     s \<leftarrow> spinlock_disable SERVER_LOCK s;
     (x, s) \<leftarrow> slab_cache_alloc SERVER_CACHE s;
     if x = NULL then Some (-1, spinunlock_enable SERVER_LOCK s)
     else do {
       let s = s\<lparr>ipc_servers := (ipc_servers s)(x := \<lparr>srv_name = take (SERVER_NAME_SIZE - 1) name, srv_port = port\<rparr>)\<rparr>;
       (tab, s) \<leftarrow> hashtable_add (ipc_server_key (ipc_servers s)) (s_server_table s) x s;
       let s = s\<lparr>s_server_table := tab\<rparr>;
       s \<leftarrow> notify_waiters name NULL (s_waiters s) s;
       Some (0, spinunlock_enable SERVER_LOCK s)
     }
   }"

text \<open>
  One turn of the loop of \<^verbatim>\<open>sys_ipc_server_lookup\<close>, from taking the lock and asking the table on; a client that
  is woken goes through it again.
\<close>

definition sys_ipc_server_lookup :: "u8 list \<Rightarrow> bool \<Rightarrow> 'a server_state_scheme \<Rightarrow> (int outcome \<times> 'a server_state_scheme) option" where
  "sys_ipc_server_lookup name wait s = do {
     s \<leftarrow> spinlock_disable SERVER_LOCK s;
     x \<leftarrow> hashtable_get (ipc_server_key (ipc_servers s)) (s_server_table s) name s;
     if x = NULL \<and> wait then do {
       (w, s) \<leftarrow> slab_cache_alloc WAITER_CACHE s;
       if w = NULL then Some (Done (-1), spinunlock_enable SERVER_LOCK s)
       else do {
         let s = set_waiter w (\<lambda>_. \<lparr>w_name = take (SERVER_NAME_SIZE - 1) name, w_waiter = thread_current s, w_next = s_waiters s\<rparr>) s;
         let s = s\<lparr>s_waiters := w\<rparr>;
         let s = spinunlock SERVER_LOCK s;
         s \<leftarrow> thread_sleep s;
         Some (Blocked, s)
       }
     }
     else Some (Done (if x \<noteq> NULL then sint (srv_port (ipc_servers s x)) else -1), spinunlock_enable SERVER_LOCK s)
   }"

text \<open>The sizes of \<^verbatim>\<open>struct ipc_server\<close> and \<^verbatim>\<open>struct ipc_server_waiter\<close> are 48.\<close>

definition ipc_server_init :: "'a server_state_scheme \<Rightarrow> 'a server_state_scheme option" where
  "ipc_server_init s = do {
     (tab, s) \<leftarrow> hashtable_init (s_server_table s) hashtable_hash_string hashtable_compare_string s;
     s \<leftarrow> slab_cache_init SERVER_CACHE 48 (s\<lparr>s_server_table := tab\<rparr>);
     s \<leftarrow> slab_cache_init WAITER_CACHE 48 s;
     Some (spinlock_init SERVER_LOCK s)
   }"

section \<open>The invariant\<close>

abbreviation server_keys :: "'a server_state_scheme \<Rightarrow> ptr \<Rightarrow> u8 list" where
  "server_keys s \<equiv> ipc_server_key (ipc_servers s)"

abbreviation server_items :: "'a server_state_scheme \<Rightarrow> ptr set" where
  "server_items s \<equiv> table_items (s_server_table s) (buckets s) (hnext s)"

abbreviation server_view :: "'a server_state_scheme \<Rightarrow> u8 list \<Rightarrow> ptr list" where
  "server_view s \<equiv> table_view (server_keys s) (s_server_table s) (buckets s) (hnext s)"

text \<open>The port registered under a name, the last one if there are several.\<close>

definition server_port :: "'a server_state_scheme \<Rightarrow> u8 list \<Rightarrow> u32 option" where
  "server_port s name = (case server_view s name of [] \<Rightarrow> None | x # _ \<Rightarrow> Some (srv_port (ipc_servers s x)))"

definition waiters_ok :: "'a server_state_scheme \<Rightarrow> ptr list \<Rightarrow> ptr list \<Rightarrow> bool" where
  "waiters_ok s ts ws \<longleftrightarrow> linked (\<lambda>w. w_next (server_waiters s w)) (s_waiters s) ws
     \<and> distinct (map (\<lambda>w. w_waiter (server_waiters s w)) ws)
     \<and> (\<forall>w \<in> set ws. w_waiter (server_waiters s w) \<noteq> NULL \<and> w_waiter (server_waiters s w) \<notin> set ts
          \<and> w_waiter (server_waiters s w) \<noteq> thread_current s \<and> w_waiter (server_waiters s w) \<noteq> thread_idle s)"

definition server_inv ::
  "'a server_state_scheme \<Rightarrow> (cache_id \<Rightarrow> ptr set) \<Rightarrow> ptr set \<Rightarrow> ptr list \<Rightarrow> ptr list \<Rightarrow> bool" where
  "server_inv s Ob U ts ws \<longleftrightarrow> memory s Ob U \<and> cache_ready s SERVER_CACHE \<and> cache_ready s WAITER_CACHE
     \<and> table_ok (server_keys s) (s_server_table s) (buckets s) (hnext s) \<and> server_items s \<subseteq> Ob SERVER_CACHE
     \<and> sched_inv s ts \<and> waiters_ok s ts ws \<and> set ws \<subseteq> Ob WAITER_CACHE"

section \<open>Waking the waiting clients\<close>

text \<open>What the loop leaves alone.\<close>

definition notify_frame :: "'a server_state_scheme \<Rightarrow> 'a server_state_scheme \<Rightarrow> bool" where
  "notify_frame s s' \<longleftrightarrow> ipc_servers s' = ipc_servers s \<and> s_server_table s' = s_server_table s \<and> buckets s' = buckets s
     \<and> hnext s' = hnext s \<and> thread_current s' = thread_current s \<and> thread_idle s' = thread_idle s
     \<and> int_flag s' = int_flag s \<and> lock_ints SERVER_LOCK (locks s') = lock_ints SERVER_LOCK (locks s)
     \<and> same_shape (caches s) (caches s') \<and> (\<forall>w. w_name (server_waiters s' w) = w_name (server_waiters s w)
       \<and> w_waiter (server_waiters s' w) = w_waiter (server_waiters s w))"

lemma notify_frame_trans: "notify_frame s s' \<Longrightarrow> notify_frame s' s'' \<Longrightarrow> notify_frame s s''"
  using same_shape_trans [of "caches s" "caches s'" "caches s''"] by (simp add: notify_frame_def)

text \<open>One client off the list: what the loop has passed is \<open>as\<close>.\<close>

definition unlinked :: "ptr \<Rightarrow> ptr \<Rightarrow> 'a server_state_scheme \<Rightarrow> 'a server_state_scheme" where
  "unlinked prev w s = (if prev \<noteq> NULL then set_waiter prev (\<lambda>x. x\<lparr>w_next := w_next (server_waiters s w)\<rparr>) s
     else s\<lparr>s_waiters := w_next (server_waiters s w)\<rparr>)"

lemma unlinked_simps [simp]:
  "w_name (server_waiters (unlinked p w s) x) = w_name (server_waiters s x)" "w_waiter (server_waiters (unlinked p w s) x) = w_waiter (server_waiters s x)"
  "locks (unlinked p w s) = locks s" "int_flag (unlinked p w s) = int_flag s" "thread_current (unlinked p w s) = thread_current s"
  "thread_idle (unlinked p w s) = thread_idle s" "ipc_servers (unlinked p w s) = ipc_servers s" "s_server_table (unlinked p w s) = s_server_table s"
  "buckets (unlinked p w s) = buckets s" "hnext (unlinked p w s) = hnext s" "caches (unlinked p w s) = caches s" "slabs (unlinked p w s) = slabs s"
  "bufs (unlinked p w s) = bufs s" "s_freeTable (unlinked p w s) = s_freeTable s" "s_allocatedPageCount (unlinked p w s) = s_allocatedPageCount s"
  "s_freePageCount (unlinked p w s) = s_freePageCount s" "threads (unlinked p w s) = threads s" "sched_link (unlinked p w s) = sched_link s"
  "s_ready_queue (unlinked p w s) = s_ready_queue s"
  by (simp_all add: unlinked_def set_waiter_def)

lemma unlinked_list:
  assumes "linked (\<lambda>w. w_next (server_waiters s w)) (s_waiters s) (as @ w # bs)" and "prev = (if as = [] then NULL else last as)"
  shows "linked (\<lambda>x. w_next (server_waiters (unlinked prev w s) x)) (s_waiters (unlinked prev w s)) (as @ bs)"
    and "w_next (server_waiters (unlinked prev w s) w) = w_next (server_waiters s w)"
proof -
  let ?nx = "\<lambda>w. w_next (server_waiters s w)"
  have d: "distinct (as @ w # bs)" by (rule linked_distinct [OF assms(1)])
  show "linked (\<lambda>x. w_next (server_waiters (unlinked prev w s) x)) (s_waiters (unlinked prev w s)) (as @ bs)"
  proof (cases as rule: rev_cases)
    case Nil
    then show ?thesis using assms by (simp add: unlinked_def)
  next
    case (snoc cs q)
    have q: "prev = q" "q \<noteq> NULL" using snoc assms(2) linked_not_NULL [OF assms(1), of q] by simp_all
    have "linked (?nx(q := ?nx w)) (s_waiters s) (cs @ q # bs)" using linked_unlink [of ?nx "s_waiters s" cs q w bs] assms(1) snoc by simp
    moreover have "(\<lambda>x. w_next (server_waiters (unlinked prev w s) x)) = ?nx(q := ?nx w)" using q by (auto simp: unlinked_def set_waiter_def)
    ultimately show ?thesis using q snoc by (simp add: unlinked_def set_waiter_def)
  qed
  show "w_next (server_waiters (unlinked prev w s) w) = ?nx w" by (simp add: unlinked_def set_waiter_def)
qed

lemma notify_waiters_ok:
  assumes "memory s Ob U" and "cache_ready s WAITER_CACHE" and "sched_inv s ts" and "waiters_ok s ts (as @ bs)" and "set (as @ bs) \<subseteq> Ob WAITER_CACHE"
    and "waiter = (case bs of [] \<Rightarrow> NULL | b # _ \<Rightarrow> b)" and "prev = (if as = [] then NULL else last as)"
  shows "\<exists>s'. notify_waiters name prev waiter s = Some s' \<and> notify_frame s s'
    \<and> memory s' (Ob(WAITER_CACHE := Ob WAITER_CACHE - {w \<in> set bs. w_name (server_waiters s w) = name})) U
    \<and> sched_inv s' (ts @ map (\<lambda>w. w_waiter (server_waiters s w)) (filter (\<lambda>w. w_name (server_waiters s w) = name) bs))
    \<and> waiters_ok s' (ts @ map (\<lambda>w. w_waiter (server_waiters s w)) (filter (\<lambda>w. w_name (server_waiters s w) = name) bs))
        (as @ filter (\<lambda>w. w_name (server_waiters s w) \<noteq> name) bs)"
  using assms
proof (induction bs arbitrary: as waiter prev s ts Ob)
  case Nil
  then show ?case by (simp add: notify_waiters.simps notify_frame_def)
next
  case (Cons b bs)
  note wok = Cons.prems(4)
  have l: "linked (\<lambda>w. w_next (server_waiters s w)) (s_waiters s) (as @ b # bs)" using wok by (simp add: waiters_ok_def)
  have w: "waiter = b" "b \<noteq> NULL" using Cons.prems(6) linked_not_NULL [OF l, of b] by simp_all
  have nx: "w_next (server_waiters s b) = (case bs of [] \<Rightarrow> NULL | b # _ \<Rightarrow> b)" using linked_middle [OF l] .
  have dis: "b \<notin> set as" "b \<notin> set bs" using linked_distinct [OF l] by auto
  show ?case
  proof (cases "w_name (server_waiters s b) = name")
    case False
    have run: "notify_waiters name prev waiter s = notify_waiters name b (w_next (server_waiters s b)) s"
      using w False by (simp add: notify_waiters.simps [of name prev b s])
    have ih: "waiters_ok s ts ((as @ [b]) @ bs)" "set ((as @ [b]) @ bs) \<subseteq> Ob WAITER_CACHE" "b = (if as @ [b] = [] then NULL else last (as @ [b]))"
      using wok Cons.prems(5) by simp_all
    obtain s' where "notify_waiters name b (w_next (server_waiters s b)) s = Some s'" "notify_frame s s'"
      "memory s' (Ob(WAITER_CACHE := Ob WAITER_CACHE - {w \<in> set bs. w_name (server_waiters s w) = name})) U"
      "sched_inv s' (ts @ map (\<lambda>w. w_waiter (server_waiters s w)) (filter (\<lambda>w. w_name (server_waiters s w) = name) bs))"
      "waiters_ok s' (ts @ map (\<lambda>w. w_waiter (server_waiters s w)) (filter (\<lambda>w. w_name (server_waiters s w) = name) bs))
        ((as @ [b]) @ filter (\<lambda>w. w_name (server_waiters s w) \<noteq> name) bs)"
      using Cons.IH [OF Cons.prems(1-3) ih(1,2) nx ih(3)] by blast
    moreover have "{w \<in> set (b # bs). w_name (server_waiters s w) = name} = {w \<in> set bs. w_name (server_waiters s w) = name}" using False by auto
    ultimately show ?thesis using run False by (simp only: filter.simps if_False if_True not_False_eq_True append_assoc append.simps) blast
  next
    case True
    let ?t = "w_waiter (server_waiters s b)" and ?u = "unlinked prev b s"
    have t: "?t \<noteq> NULL" "?t \<notin> set ts" using wok by (simp_all add: waiters_ok_def)
    have si: "sched_inv ?u ts" using Cons.prems(3) by (simp add: sched_inv_def)
    obtain rq link where add: "sched_add_ready ?t ?u = Some (?u\<lparr>threads := (threads ?u)(?t := (threads ?u ?t)\<lparr>t_state := READY\<rparr>),
        s_ready_queue := rq, sched_link := link, locks := lock_used SCHED_LOCK ?u\<rparr>)" "queued link rq (ts @ [?t])"
      using sched_add_ready_ok [of ?u ts ?t] si t by (auto simp: sched_inv_def)
    define s1 where "s1 = ?u\<lparr>threads := (threads ?u)(?t := (threads ?u ?t)\<lparr>t_state := READY\<rparr>), s_ready_queue := rq, sched_link := link,
        locks := lock_used SCHED_LOCK ?u\<rparr>"
    have add1: "sched_add_ready ?t ?u = Some s1" unfolding s1_def by (rule add(1))
    have f1: "server_waiters s1 = server_waiters ?u" "s_waiters s1 = s_waiters ?u" "thread_current s1 = thread_current s" "thread_idle s1 = thread_idle s"
      by (simp_all add: s1_def)
    have m1: "memory s1 Ob U" "cache_ready s1 WAITER_CACHE" using Cons.prems(1,2) by (simp_all add: s1_def)
    have tt: "?t \<noteq> thread_current s" "?t \<noteq> thread_idle s" using wok by (simp_all add: waiters_ok_def)
    have si1: "sched_inv s1 (ts @ [?t])" using si add(2) t tt by (auto simp: sched_inv_def s1_def)
    have fr1: "notify_frame s s1" by (simp add: notify_frame_def s1_def)
    have b: "b \<in> Ob WAITER_CACHE" using Cons.prems(5) by simp
    obtain s2 where s2: "slab_cache_free WAITER_CACHE b s1 = Some s2" "slab_frame s1 s2" "same_shape (caches s1) (caches s2)"
      "memory s2 (Ob(WAITER_CACHE := Ob WAITER_CACHE - {b})) U"
      using free_object [OF m1 b] by blast
    have lk: "lock_ints SERVER_LOCK (locks s2) = lock_ints SERVER_LOCK (locks s1)" by (rule free_locks [OF s2(1)]) (use m1 in simp_all)
    have f2: "server_waiters s2 = server_waiters ?u" "s_waiters s2 = s_waiters ?u" "thread_current s2 = thread_current s" "thread_idle s2 = thread_idle s"
      using s2(2) f1 by (auto elim!: slab_frameE)
    have fr2: "notify_frame s s2" using fr1 s2(2,3) lk same_shape_trans [of "caches s" "caches s1" "caches s2"]
      by (auto simp: notify_frame_def elim!: slab_frameE)
    have si2: "sched_inv s2 (ts @ [?t])" using si1 s2(2,4) by (auto simp: sched_inv_def elim!: slab_frameE)
    have names: "w_name (server_waiters s2 x) = w_name (server_waiters s x)" "w_waiter (server_waiters s2 x) = w_waiter (server_waiters s x)" for x
      using fr2 by (simp_all add: notify_frame_def)
    have dd: "distinct (map (\<lambda>w. w_waiter (server_waiters s w)) (as @ b # bs))" using wok by (simp add: waiters_ok_def)
    have ne: "w_waiter (server_waiters s x) \<noteq> ?t" if "x \<in> set as \<union> set bs" for x
    proof -
      have "?t \<notin> (\<lambda>w. w_waiter (server_waiters s w)) ` (set as \<union> set bs)" using dd by auto
      then show ?thesis using that by (metis image_eqI)
    qed
    have wok2: "waiters_ok s2 (ts @ [?t]) (as @ bs)"
      using wok dd ne unlinked_list(1) [OF l Cons.prems(7)] unfolding waiters_ok_def f2 unlinked_simps by auto
    have run: "notify_waiters name prev waiter s = notify_waiters name prev (w_next (server_waiters s b)) s2"
      using w True add1 s2(1) unlinked_list(2) [OF l Cons.prems(7)]
      by (simp add: notify_waiters.simps [of name prev b s] unlinked_def [symmetric] thread_wake_up_def f1 Let_def)
    have sub: "set (as @ bs) \<subseteq> (Ob(WAITER_CACHE := Ob WAITER_CACHE - {b})) WAITER_CACHE" using Cons.prems(5) dis by auto
    have r2: "cache_ready s2 WAITER_CACHE" using m1(2) ready_shape [OF s2(3)] by simp
    let ?O = "Ob(WAITER_CACHE := Ob WAITER_CACHE - {b})"
    obtain s' where s': "notify_waiters name prev (w_next (server_waiters s b)) s2 = Some s'" "notify_frame s2 s'"
      "memory s' (?O(WAITER_CACHE := ?O WAITER_CACHE - {w \<in> set bs. w_name (server_waiters s2 w) = name})) U"
      "sched_inv s' ((ts @ [?t]) @ map (\<lambda>w. w_waiter (server_waiters s2 w)) (filter (\<lambda>w. w_name (server_waiters s2 w) = name) bs))"
      "waiters_ok s' ((ts @ [?t]) @ map (\<lambda>w. w_waiter (server_waiters s2 w)) (filter (\<lambda>w. w_name (server_waiters s2 w) = name) bs))
        (as @ filter (\<lambda>w. w_name (server_waiters s2 w) \<noteq> name) bs)"
      using Cons.IH [OF s2(4) r2 si2 wok2 sub nx Cons.prems(7)] by blast
    have eqs: "Ob WAITER_CACHE - {b} - {w \<in> set bs. w_name (server_waiters s w) = name} = Ob WAITER_CACHE - {w \<in> set (b # bs). w_name (server_waiters s w) = name}"
      "(ts @ [?t]) @ map (\<lambda>w. w_waiter (server_waiters s w)) (filter (\<lambda>w. w_name (server_waiters s w) = name) bs)
        = ts @ map (\<lambda>w. w_waiter (server_waiters s w)) (filter (\<lambda>w. w_name (server_waiters s w) = name) (b # bs))"
      "filter (\<lambda>w. w_name (server_waiters s w) \<noteq> name) bs = filter (\<lambda>w. w_name (server_waiters s w) \<noteq> name) (b # bs)"
      using True by auto
    show ?thesis
    proof (intro exI [of _ s'] conjI)
      show "notify_waiters name prev waiter s = Some s'" using run s'(1) by simp
      show "notify_frame s s'" by (rule notify_frame_trans [OF fr2 s'(2)])
    qed (use s'(3-5) [unfolded names fun_upd_upd fun_upd_same, unfolded eqs] in blast)+
  qed
qed

section \<open>Registering\<close>

lemma register_ok:
  assumes inv: "server_inv s Ob U ts ws"
  shows "\<exists>r s'. sys_ipc_server_register name port s = Some (r, s') \<and> int_flag s' = int_flag s \<and> thread_current s' = thread_current s
    \<and> (if r = 0
       then \<exists>Ob'. server_inv s' Ob' U (ts @ map (\<lambda>w. w_waiter (server_waiters s w)) (filter (\<lambda>w. w_name (server_waiters s w) = name) ws)) (filter (\<lambda>w. w_name (server_waiters s w) \<noteq> name) ws)
         \<and> server_port s' = (server_port s)(take 31 name \<mapsto> port)
       else r = -1 \<and> server_inv s' Ob U ts ws \<and> server_port s' = server_port s \<and> free_stack s = [])"
proof -
  have lk: "locks_ok s" using inv by (simp add: server_inv_def)
  let ?s1 = "s\<lparr>int_flag := False, locks := lock_held SERVER_LOCK (int_flag s) (locks s)\<rparr>"
  have m1: "memory ?s1 Ob U" "cache_ready ?s1 SERVER_CACHE" using inv by (simp_all add: server_inv_def)
  obtain x s2 where x: "slab_cache_alloc SERVER_CACHE ?s1 = Some (x, s2)" "slab_frame ?s1 s2" "same_shape (caches ?s1) (caches s2)"
    "memory s2 (if x = NULL then Ob else Ob(SERVER_CACHE := insert x (Ob SERVER_CACHE))) U"
    "if x = NULL then free_stack ?s1 = [] else x \<notin> Ob SERVER_CACHE"
    using alloc_object [OF m1] by blast
  have li: "lock_ints SERVER_LOCK (locks s2) = int_flag s" using alloc_locks [OF x(1), of SERVER_LOCK] lk by simp
  have f2: "ipc_servers s2 = ipc_servers s" "s_server_table s2 = s_server_table s" "buckets s2 = buckets s" "hnext s2 = hnext s" "int_flag s2 = False"
    "server_waiters s2 = server_waiters s" "s_waiters s2 = s_waiters s" "thread_current s2 = thread_current s" "thread_idle s2 = thread_idle s"
    "cache_ready s2 SERVER_CACHE" "cache_ready s2 WAITER_CACHE"
    using x(2) ready_shape [OF x(3)] inv by (auto simp: server_inv_def elim!: slab_frameE)
  have si2: "sched_inv s2 ts" using inv x(2,4) by (auto simp: server_inv_def sched_inv_def elim!: slab_frameE)
  have wok2: "waiters_ok s2 ts ws" using inv f2 by (simp add: server_inv_def waiters_ok_def)
  have lk2: "locks_ok s2" using x(4) by simp
  show ?thesis
  proof (cases "x = NULL")
    case True
    let ?s = "spinunlock_enable SERVER_LOCK s2"
    have run: "sys_ipc_server_register name port s = Some (-1, ?s)"
      using x(1) True lk by (simp add: sys_ipc_server_register_def spinlock_disable_ok)
    have "server_inv ?s Ob U ts ws" using inv x(4) True f2 si2 wok2 lk2
      by (simp add: server_inv_def spinunlock_enable_eq sched_inv_def waiters_ok_def)
    moreover have "server_port ?s = server_port s" by (simp add: server_port_def f2 spinunlock_enable_eq fun_eq_iff split: list.split)
    moreover have "free_stack s = []" using x(5) True by simp
    ultimately show ?thesis using run li f2 by (intro exI [of _ "-1::int"] exI [of _ ?s]) (simp add: spinunlock_enable_eq)
  next
    case False
    let ?O = "Ob(SERVER_CACHE := insert x (Ob SERVER_CACHE))" and ?v = "\<lparr>srv_name = take (SERVER_NAME_SIZE - 1) name, srv_port = port\<rparr>"
    define sv where "sv = (ipc_servers s2)(x := ?v)"
    let ?s3 = "s2\<lparr>ipc_servers := sv\<rparr>"
    have tok: "table_ok (server_keys s2) (s_server_table ?s3) (buckets ?s3) (hnext ?s3)" using inv f2 by (simp add: server_inv_def)
    have nin: "x \<notin> server_items s" using inv x(5) False by (auto simp: server_inv_def)
    have key: "ipc_server_key sv y = server_keys s2 y" if "y \<noteq> x" for y using that by (simp add: ipc_server_key_def sv_def)
    have kx: "ipc_server_key sv x = take 31 name" by (simp add: ipc_server_key_def sv_def)
    let ?tab = "(s_server_table s)\<lparr>ht_items := ht_items (s_server_table s) + 1\<rparr>"
    obtain nx bk where add: "hashtable_add (ipc_server_key sv) (s_server_table ?s3) x ?s3 = Some (?tab, ?s3\<lparr>hnext := nx, buckets := bk\<rparr>)"
      "table_ok (ipc_server_key sv) ?tab bk nx"
      "table_view (ipc_server_key sv) ?tab bk nx = (server_view s)(take 31 name := x # server_view s (take 31 name))"
      "table_items ?tab bk nx = insert x (server_items s)"
      using table_enroll [OF tok False, of "ipc_server_key sv"] nin key f2 unfolding kx by auto
    define s4 where "s4 = ?s3\<lparr>hnext := nx, buckets := bk, s_server_table := ?tab\<rparr>"
    have f4: "ipc_servers s4 = sv" "s_server_table s4 = ?tab" "buckets s4 = bk" "hnext s4 = nx" "server_waiters s4 = server_waiters s"
      "s_waiters s4 = s_waiters s" "thread_current s4 = thread_current s" "thread_idle s4 = thread_idle s" "int_flag s4 = False" "locks s4 = locks s2"
      by (simp_all add: s4_def f2)
    have m4: "memory s4 ?O U" "cache_ready s4 WAITER_CACHE" "sched_inv s4 ts" "waiters_ok s4 ts ([] @ ws)" "set ([] @ ws) \<subseteq> ?O WAITER_CACHE"
      using x(4) False f2 si2 wok2 inv by (simp_all add: s4_def sched_inv_def waiters_ok_def server_inv_def)
    have hd: "s_waiters s4 = (case ws of [] \<Rightarrow> NULL | b # _ \<Rightarrow> b)"
      using m4(4) linked_hd [of "\<lambda>w. w_next (server_waiters s4 w)" "s_waiters s4" ws] by (simp add: waiters_ok_def)
    have pr: "NULL = (if ([] :: ptr list) = [] then NULL else last [])" by simp
    obtain s5 where s5: "notify_waiters name NULL (s_waiters s4) s4 = Some s5" "notify_frame s4 s5"
      "memory s5 (?O(WAITER_CACHE := ?O WAITER_CACHE - {w \<in> set ws. w_name (server_waiters s4 w) = name})) U"
      "sched_inv s5 (ts @ map (\<lambda>w. w_waiter (server_waiters s4 w)) (filter (\<lambda>w. w_name (server_waiters s4 w) = name) ws))"
      "waiters_ok s5 (ts @ map (\<lambda>w. w_waiter (server_waiters s4 w)) (filter (\<lambda>w. w_name (server_waiters s4 w) = name) ws))
        ([] @ filter (\<lambda>w. w_name (server_waiters s4 w) \<noteq> name) ws)"
      using notify_waiters_ok [OF m4 hd pr, of name] by blast
    let ?s = "spinunlock_enable SERVER_LOCK s5"
    have run: "sys_ipc_server_register name port s = Some (0, ?s)"
      using x(1) False lk add(1) s5(1) by (simp add: sys_ipc_server_register_def spinlock_disable_ok sv_def s4_def)
    have f5: "ipc_servers s5 = sv" "s_server_table s5 = ?tab" "buckets s5 = bk" "hnext s5 = nx" "thread_current s5 = thread_current s"
      "int_flag s5 = False" "lock_ints SERVER_LOCK (locks s5) = int_flag s" "cache_ready s5 SERVER_CACHE" "cache_ready s5 WAITER_CACHE"
      using s5(2) li f4 f2(10) m4(2) by (auto simp: notify_frame_def same_shape_def s4_def)
    let ?O5 = "?O(WAITER_CACHE := ?O WAITER_CACHE - {w \<in> set ws. w_name (server_waiters s w) = name})"
    have "server_items s \<subseteq> Ob SERVER_CACHE" "set ws \<subseteq> Ob WAITER_CACHE" using inv by (simp_all add: server_inv_def)
    then have "insert x (server_items s) \<subseteq> ?O5 SERVER_CACHE" "set (filter (\<lambda>w. w_name (server_waiters s w) \<noteq> name) ws) \<subseteq> ?O5 WAITER_CACHE"
      by auto
    then have "server_inv s5 ?O5 U (ts @ map (\<lambda>w. w_waiter (server_waiters s w)) (filter (\<lambda>w. w_name (server_waiters s w) = name) ws)) (filter (\<lambda>w. w_name (server_waiters s w) \<noteq> name) ws)"
      using s5(3-5) add(2,4) f5 unfolding server_inv_def f4 by simp
    then have "server_inv ?s ?O5 U (ts @ map (\<lambda>w. w_waiter (server_waiters s w)) (filter (\<lambda>w. w_name (server_waiters s w) = name) ws)) (filter (\<lambda>w. w_name (server_waiters s w) \<noteq> name) ws)"
      unfolding spinunlock_enable_eq by (simp add: server_inv_def sched_inv_def waiters_ok_def)
    moreover have "server_port ?s = (server_port s)(take 31 name \<mapsto> port)"
    proof
      fix n
      have v: "server_view ?s = (server_view s)(take 31 name := x # server_view s (take 31 name))"
        using add(3) f5 by (simp add: spinunlock_enable_eq)
      have "srv_port (sv y) = srv_port (ipc_servers s y)" if "server_view s n = y # ys" for y ys
      proof -
        have "y \<in> server_items s"
          using that table_view_items [of "server_keys s" "s_server_table s" "buckets s" "hnext s" y] inv
          by (auto simp: server_inv_def table_view_def filter_eq_Cons_iff)
        then show ?thesis using nin f2 by (auto simp: sv_def)
      qed
      then show "server_port ?s n = ((server_port s)(take 31 name \<mapsto> port)) n"
        unfolding server_port_def v using f5 by (auto simp: spinunlock_enable_eq sv_def split: list.split)
    qed
    ultimately show ?thesis using run f5(5-7) by (intro exI [of _ "0::int"] exI [of _ ?s]) (simp add: spinunlock_enable_eq, blast)
  qed
qed

section \<open>Looking up and waiting\<close>

text \<open>A thread that goes to sleep: another one runs, no thread enters the ready queue.\<close>

lemma thread_sleep_ok:
  assumes si: "sched_inv s ts" and c: "thread_current s \<noteq> NULL"
  shows "\<exists>s' us. thread_sleep s = Some s' \<and> sched_inv s' us \<and> set us \<subseteq> set ts \<and> thread_current s' \<in> insert (thread_idle s) (set ts)
    \<and> thread_idle s' = thread_idle s \<and> switch_frame s s' \<and> set ts \<subseteq> insert (thread_current s') (set us)"
proof -
  let ?c = "thread_current s"
  let ?s1 = "\<lambda>ctxs. s\<lparr>int_flag := False, threads := (threads s)(?c := (threads s ?c)\<lparr>t_state := SLEEPING\<rparr>), irq_ctxs := ctxs\<rparr>"
  have "\<exists>ctxs r. thread_sleep s = sched_irq r (?s1 ctxs)"
    by (simp add: thread_sleep_def cpu_arch_disable_int_def sched_yield_def Let_def set_thread_def) blast
  then obtain ctxs r where run: "thread_sleep s = sched_irq r (?s1 ctxs)" by blast
  let ?s = "?s1 ctxs"
  have si': "sched_inv ?s ts" using si by (auto simp: sched_inv_def)
  have nr: "\<not> stays_ready ?s ?c" "can_switch ?s (thread_current ?s)" by (simp_all add: stays_ready_def can_switch_def)
  then have ch: "sched_choice ?s (thread_current ?s) ts = sched_pick (thread_idle s) ts" by (simp add: sched_order_def)
  obtain s' where s': "sched_irq r ?s = Some s'" "sched_inv s' (snd (sched_pick (thread_idle s) ts))"
    "thread_current s' = fst (sched_pick (thread_idle s) ts)" "thread_idle s' = thread_idle s"
    using sched_irq_ok [OF si' nr(2), of r] unfolding ch by auto
  have "switch_frame ?s s'" by (rule sched_irq_frame [OF s'(1)]) (use si in \<open>simp add: sched_inv_def\<close>)
  then have "switch_frame s s'" by (rule switch_frame_trans [rotated]) (simp add: switch_frame_def)
  then show ?thesis using run s'
    by (intro exI [of _ s'] exI [of _ "snd (sched_pick (thread_idle s) ts)"]) (auto simp: sched_pick_def split: list.splits)
qed

lemma lookup_ok:
  assumes inv: "server_inv s Ob U ts ws" and cur: "thread_current s \<noteq> NULL" "thread_current s \<noteq> thread_idle s"
  shows "case server_port s name of
      Some port \<Rightarrow> \<exists>s'. sys_ipc_server_lookup name wait s = Some (Done (sint port), s') \<and> server_inv s' Ob U ts ws
        \<and> server_port s' = server_port s \<and> int_flag s' = int_flag s
    | None \<Rightarrow> \<exists>r s'. sys_ipc_server_lookup name wait s = Some (r, s') \<and> server_port s' = server_port s
        \<and> (case r of
             Done x \<Rightarrow> x = -1 \<and> server_inv s' Ob U ts ws \<and> int_flag s' = int_flag s \<and> (wait \<longrightarrow> free_stack s = [])
           | Blocked \<Rightarrow> wait \<and> (\<exists>w Ob' us. w \<notin> set ws \<and> server_inv s' Ob' U us (w # ws) \<and> w_waiter (server_waiters s' w) = thread_current s
               \<and> w_name (server_waiters s' w) = take 31 name \<and> (\<forall>v \<in> set ws. w_name (server_waiters s' v) = w_name (server_waiters s v)
                  \<and> w_waiter (server_waiters s' v) = w_waiter (server_waiters s v))))"
proof -
  let ?s1 = "s\<lparr>int_flag := False, locks := lock_held SERVER_LOCK (int_flag s) (locks s)\<rparr>"
  have lk: "locks_ok s" using inv by (simp add: server_inv_def)
  have alone: "\<forall>w \<in> set ws. w_waiter (server_waiters s w) \<noteq> thread_current s" using inv by (simp add: server_inv_def waiters_ok_def)
  have inv1: "server_inv ?s1 Ob U ts ws" using inv by (simp add: server_inv_def sched_inv_def waiters_ok_def)
  have rel: "server_inv (spinunlock_enable SERVER_LOCK s') Ob U ts ws" if "server_inv s' Ob U ts ws" for s' :: "'a server_state_scheme"
    using that by (simp add: server_inv_def sched_inv_def waiters_ok_def spinunlock_enable_eq)
  have sp: "server_port (spinunlock_enable SERVER_LOCK s') = server_port s'" for s' :: "'a server_state_scheme"
    by (simp add: server_port_def spinunlock_enable_eq fun_eq_iff split: list.split)
  obtain x where x: "hashtable_get (server_keys ?s1) (s_server_table ?s1) name ?s1 = Some x"
    "if x = NULL then server_view ?s1 name = [] else \<exists>xs. server_view ?s1 name = x # xs"
    using table_lookup [of "server_keys ?s1" "s_server_table ?s1" ?s1 name] inv1 unfolding server_inv_def by (metis (full_types))
  have sp1: "server_port ?s1 = server_port s" by (simp add: server_port_def fun_eq_iff split: list.split)
  have run: "sys_ipc_server_lookup name wait s = (if x = NULL \<and> wait then do {
       (w, s) \<leftarrow> slab_cache_alloc WAITER_CACHE ?s1;
       if w = NULL then Some (Done (-1), spinunlock_enable SERVER_LOCK s)
       else do {
         let s = set_waiter w (\<lambda>_. \<lparr>w_name = take (SERVER_NAME_SIZE - 1) name, w_waiter = thread_current s, w_next = s_waiters s\<rparr>) s;
         let s = s\<lparr>s_waiters := w\<rparr>;
         let s = spinunlock SERVER_LOCK s;
         s \<leftarrow> thread_sleep s;
         Some (Blocked, s)
       }
     }
     else Some (Done (if x \<noteq> NULL then sint (srv_port (ipc_servers ?s1 x)) else -1), spinunlock_enable SERVER_LOCK ?s1))"
    using x(1) lk by (simp add: sys_ipc_server_lookup_def spinlock_disable_ok)
  have fl: "int_flag (spinunlock_enable SERVER_LOCK ?s1) = int_flag s" by (simp add: spinunlock_enable_eq)
  show ?thesis
  proof (cases "x = NULL")
    case False
    then obtain xs where "server_view s name = x # xs" using x(2) by auto
    then have "server_port s name = Some (srv_port (ipc_servers s x))" by (simp add: server_port_def)
    then show ?thesis using run False rel [OF inv1] sp sp1 fl by simp
  next
    case True
    then have none: "server_port s name = None" using x(2) by (simp add: server_port_def)
    show ?thesis
    proof (cases wait)
      case False
      then show ?thesis using run True none rel [OF inv1] sp sp1 fl by simp
    next
      case wt: True
      have m1: "memory ?s1 Ob U" "cache_ready ?s1 WAITER_CACHE" using inv1 by (simp_all add: server_inv_def)
      obtain w s2 where w: "slab_cache_alloc WAITER_CACHE ?s1 = Some (w, s2)" "slab_frame ?s1 s2" "same_shape (caches ?s1) (caches s2)"
        "memory s2 (if w = NULL then Ob else Ob(WAITER_CACHE := insert w (Ob WAITER_CACHE))) U"
        "if w = NULL then free_stack ?s1 = [] else w \<notin> Ob WAITER_CACHE"
        using alloc_object [OF m1] by blast
      have li: "lock_ints SERVER_LOCK (locks s2) = int_flag s" using alloc_locks [OF w(1), of SERVER_LOCK] lk by simp
      have f2: "ipc_servers s2 = ipc_servers s" "s_server_table s2 = s_server_table s" "buckets s2 = buckets s" "hnext s2 = hnext s" "int_flag s2 = False"
        "server_waiters s2 = server_waiters s" "s_waiters s2 = s_waiters s" "thread_current s2 = thread_current s" "thread_idle s2 = thread_idle s"
        "cache_ready s2 SERVER_CACHE" "cache_ready s2 WAITER_CACHE"
        using w(2) ready_shape [OF w(3)] inv by (auto simp: server_inv_def elim!: slab_frameE)
      have si2: "sched_inv s2 ts" using inv w(2,4) by (auto simp: server_inv_def sched_inv_def elim!: slab_frameE)
      have sp2: "server_port s2 = server_port s" by (simp add: server_port_def f2 fun_eq_iff split: list.split)
      show ?thesis
      proof (cases "w = NULL")
        case wn: True
        have "server_inv s2 Ob U ts ws" using inv w(4) wn f2 si2 by (simp add: server_inv_def waiters_ok_def)
        then have "server_inv (spinunlock_enable SERVER_LOCK s2) Ob U ts ws" by (rule rel)
        moreover have "int_flag (spinunlock_enable SERVER_LOCK s2) = int_flag s" using li f2 by (simp add: spinunlock_enable_eq)
        ultimately show ?thesis using run True wt w(1,5) wn none sp sp2 by simp
      next
        case wn: False
        let ?e = "\<lparr>w_name = take (SERVER_NAME_SIZE - 1) name, w_waiter = thread_current s, w_next = s_waiters s\<rparr>"
        define s3 where "s3 = s2\<lparr>server_waiters := (server_waiters s2)(w := ?e), s_waiters := w, locks := lock_released SERVER_LOCK (locks s2)\<rparr>"
        have nin: "w \<notin> set ws" using w(5) wn inv by (auto simp: server_inv_def)
        have si3: "sched_inv s3 ts" "thread_current s3 \<noteq> NULL" using si2 f2 cur by (simp_all add: s3_def sched_inv_def)
        obtain s4 us where s4: "thread_sleep s3 = Some s4" "sched_inv s4 us" "set us \<subseteq> set ts" "thread_current s4 \<in> insert (thread_idle s3) (set ts)"
          "thread_idle s4 = thread_idle s3" "switch_frame s3 s4"
          using thread_sleep_ok [OF si3] by blast
        have run4: "sys_ipc_server_lookup name wait s = Some (Blocked, s4)"
          using run True wt w(1) wn s4(1) f2 by (simp add: set_waiter_def spinunlock_eq s3_def)
        have f4: "server_waiters s4 = (server_waiters s)(w := ?e)" "s_waiters s4 = w" "ipc_servers s4 = ipc_servers s" "s_server_table s4 = s_server_table s"
          "buckets s4 = buckets s" "hnext s4 = hnext s" "caches s4 = caches s2" "slabs s4 = slabs s2" "bufs s4 = bufs s2" "s_freeTable s4 = s_freeTable s2"
          "s_allocatedPageCount s4 = s_allocatedPageCount s2" "s_freePageCount s4 = s_freePageCount s2" "thread_idle s4 = thread_idle s"
          using s4(6) f2 by (auto simp: s3_def elim!: switch_frameE)
        have wok: "waiters_ok s ts ws" using inv by (simp add: server_inv_def)
        have ct: "thread_current s \<notin> set ts" using inv by (simp add: server_inv_def sched_inv_def)
        have eq: "server_waiters s4 v = server_waiters s v" if "v \<in> set ws" for v using that nin f4(1) by auto
        have "linked (\<lambda>w. w_next (server_waiters s4 w)) (s_waiters s) ws"
          using wok eq linked_cong [of ws "\<lambda>w. w_next (server_waiters s w)" "\<lambda>w. w_next (server_waiters s4 w)" "s_waiters s"]
          by (simp add: waiters_ok_def)
        then have l4: "linked (\<lambda>w. w_next (server_waiters s4 w)) (s_waiters s4) (w # ws)" using wn f4(1,2) by simp
        have c4: "thread_current s4 \<in> insert (thread_idle s) (set ts)" using s4(4) f2 by (simp add: s3_def)
        have m: "map (\<lambda>w. w_waiter (server_waiters s4 w)) ws = map (\<lambda>w. w_waiter (server_waiters s w)) ws" using eq by simp
        have di: "distinct (map (\<lambda>w. w_waiter (server_waiters s4 w)) (w # ws))"
          using wok alone f4(1) unfolding waiters_ok_def list.map m by auto
        have th: "w_waiter (server_waiters s4 v) \<noteq> NULL \<and> w_waiter (server_waiters s4 v) \<notin> insert (thread_idle s) (set ts)" if "v \<in> set (w # ws)" for v
          using that wok eq cur ct f4(1) by (cases "v = w") (auto simp: waiters_ok_def)
        have "\<forall>v \<in> set (w # ws). w_waiter (server_waiters s4 v) \<noteq> NULL \<and> w_waiter (server_waiters s4 v) \<notin> set us
            \<and> w_waiter (server_waiters s4 v) \<noteq> thread_current s4 \<and> w_waiter (server_waiters s4 v) \<noteq> thread_idle s4"
        proof
          fix v assume "v \<in> set (w # ws)"
          from th [OF this] c4 s4(3) f4(13) show "w_waiter (server_waiters s4 v) \<noteq> NULL \<and> w_waiter (server_waiters s4 v) \<notin> set us
            \<and> w_waiter (server_waiters s4 v) \<noteq> thread_current s4 \<and> w_waiter (server_waiters s4 v) \<noteq> thread_idle s4" by auto
        qed
        then have "waiters_ok s4 us (w # ws)" using l4 di unfolding waiters_ok_def by (intro conjI)
        then have "server_inv s4 (Ob(WAITER_CACHE := insert w (Ob WAITER_CACHE))) U us (w # ws)"
          using inv w(4) wn s4(2) f4 f2(10,11) unfolding server_inv_def by (auto simp: sched_inv_def)
        moreover have "server_port s4 = server_port s" by (simp add: server_port_def f4 fun_eq_iff split: list.split)
        ultimately show ?thesis using run4 none wt nin f4(1) eq by auto
      qed
    qed
  qed
qed

lemma lookup_waits:
  assumes "server_inv s Ob U ts ws" and "thread_current s \<noteq> NULL" and "thread_current s \<noteq> thread_idle s"
    and "server_port s name = None" and "free_stack s \<noteq> []"
  shows "\<exists>s' w Ob' us. sys_ipc_server_lookup name True s = Some (Blocked, s') \<and> server_inv s' Ob' U us (w # ws)
    \<and> w_waiter (server_waiters s' w) = thread_current s \<and> w_name (server_waiters s' w) = take 31 name"
proof -
  obtain r s' where r: "sys_ipc_server_lookup name True s = Some (r, s')"
    "case r of
             Done x \<Rightarrow> x = -1 \<and> server_inv s' Ob U ts ws \<and> int_flag s' = int_flag s \<and> (True \<longrightarrow> free_stack s = [])
           | Blocked \<Rightarrow> True \<and> (\<exists>w Ob' us. w \<notin> set ws \<and> server_inv s' Ob' U us (w # ws) \<and> w_waiter (server_waiters s' w) = thread_current s
               \<and> w_name (server_waiters s' w) = take 31 name \<and> (\<forall>v \<in> set ws. w_name (server_waiters s' v) = w_name (server_waiters s v)
                  \<and> w_waiter (server_waiters s' v) = w_waiter (server_waiters s v)))"
    using lookup_ok [OF assms(1-3), of name True] assms(4) by auto
  then show ?thesis using assms(5) by (cases r) auto
qed

section \<open>Properties\<close>

text \<open>
  C26: registration announces a server.  \<^verbatim>\<open>sys_ipc_server_register\<close> always returns, with the interrupt flag
  restored.  When it returns 0, looking up the name (up to 31 characters of it, which is all that is kept)
  gives the port from now on, other names are unaffected, and exactly the clients that wait for the name
  have been taken off the list of waiting clients and put into the ready queue, in the order of the list.
  Otherwise there was no memory and nothing has changed.
\<close>

theorem server_register_announces:
  assumes "server_inv s Ob U ts ws"
  shows "\<exists>r s'. sys_ipc_server_register name port s = Some (r, s') \<and> int_flag s' = int_flag s
    \<and> (if r = 0
       then (\<exists>Ob'. server_inv s' Ob' U (ts @ map (\<lambda>w. w_waiter (server_waiters s w)) (filter (\<lambda>w. w_name (server_waiters s w) = name) ws))
              (filter (\<lambda>w. w_name (server_waiters s w) \<noteq> name) ws))
         \<and> server_port s' = (server_port s)(take 31 name \<mapsto> port)
       else r = -1 \<and> server_inv s' Ob U ts ws \<and> server_port s' = server_port s \<and> free_stack s = [])"
  using register_ok [OF assms, of name port] by (elim exE conjE) (auto split: if_splits)

text \<open>
  C27: looking up.  A registered name gives its port at once.  Without it a client that does not wait gets
  -1; one that waits gets -1 when there is no memory for its entry, and else sleeps on the list under the
  first 31 characters of the name, and the table is as it was.
\<close>

theorem server_lookup_answers:
  assumes "server_inv s Ob U ts ws" and "thread_current s \<noteq> NULL" and "thread_current s \<noteq> thread_idle s"
  shows "case server_port s name of
      Some port \<Rightarrow> \<exists>s'. sys_ipc_server_lookup name wait s = Some (Done (sint port), s') \<and> server_port s' = server_port s
    | None \<Rightarrow> \<exists>r s'. sys_ipc_server_lookup name wait s = Some (r, s') \<and> server_port s' = server_port s
        \<and> (case r of
             Done x \<Rightarrow> x = -1 \<and> server_inv s' Ob U ts ws \<and> (wait \<longrightarrow> free_stack s = [])
           | Blocked \<Rightarrow> wait \<and> (\<exists>w Ob' us. server_inv s' Ob' U us (w # ws) \<and> w_waiter (server_waiters s' w) = thread_current s
               \<and> w_name (server_waiters s' w) = take 31 name))"
proof (cases "server_port s name")
  case (Some port)
  then show ?thesis using lookup_ok [OF assms, of name wait] by auto
next
  case None
  then obtain r s' where r: "sys_ipc_server_lookup name wait s = Some (r, s')" "server_port s' = server_port s"
    "case r of
             Done x \<Rightarrow> x = -1 \<and> server_inv s' Ob U ts ws \<and> int_flag s' = int_flag s \<and> (wait \<longrightarrow> free_stack s = [])
           | Blocked \<Rightarrow> wait \<and> (\<exists>w Ob' us. w \<notin> set ws \<and> server_inv s' Ob' U us (w # ws) \<and> w_waiter (server_waiters s' w) = thread_current s
               \<and> w_name (server_waiters s' w) = take 31 name \<and> (\<forall>v \<in> set ws. w_name (server_waiters s' v) = w_name (server_waiters s v)
                  \<and> w_waiter (server_waiters s' v) = w_waiter (server_waiters s v)))"
    using lookup_ok [OF assms, of name wait] by auto
  show ?thesis unfolding None option.case
    by (intro exI [of _ r] exI [of _ s']) (use r in \<open>cases r; auto\<close>)
qed

section \<open>Witnesses\<close>

abbreviation (input) sample_servers :: server_state where
  "sample_servers \<equiv> port_state.extend sample_ports \<lparr>ipc_servers = (\<lambda>_. \<lparr>srv_name = [], srv_port = 0\<rparr>),
     server_waiters = (\<lambda>_. \<lparr>w_name = [], w_waiter = NULL, w_next = NULL\<rparr>),
     s_server_table = \<lparr>ht_table = PHYS_MAP_BASE + 0x92000, ht_size = 512, ht_items = 0, ht_hash = hashtable_hash_string, ht_compare = (=)\<rparr>,
     s_waiters = NULL\<rparr>"

lemmas server_defs = port_defs port_state.defs

lemma sample_servers_inv: "server_inv sample_servers (\<lambda>_. {}) {0x100000} [0x3000, 0x4000] []"
proof -
  have "memory sample_servers (\<lambda>_. {}) {0x100000}" using sample_procs_ok by (simp add: procs_ok_def vmm_ok_def server_defs)
  moreover have "sched_inv sample_servers [0x3000, 0x4000]" using sample_sched_inv by (simp add: sched_inv_def server_defs)
  ultimately show ?thesis by (simp add: server_inv_def waiters_ok_def table_ok_def table_items_def chain_of_def server_defs)
qed

text \<open>A client waits for the name of the device manager; then the server registers and the client is ready.\<close>

lemma server_lookup_answers_witness:
  "\<exists>r s. sys_ipc_server_lookup [100, 101, 118, 109, 97, 110] True sample_servers = Some (r, s) \<and> server_port s = server_port sample_servers"
proof -
  have c: "thread_current sample_servers \<noteq> NULL" "thread_current sample_servers \<noteq> thread_idle sample_servers" by (simp_all add: server_defs)
  have "server_port sample_servers [100, 101, 118, 109, 97, 110] = None" by (simp add: server_port_def table_view_def chain_of_def server_defs)
  then show ?thesis using server_lookup_answers [OF sample_servers_inv c, of "[100, 101, 118, 109, 97, 110]" True] by (simp only: option.simps) blast
qed

lemma server_register_announces_witness:
  "\<exists>s1 s2 ts us w. sys_ipc_server_lookup [100, 101, 118] True sample_servers = Some (Blocked, s1) \<and> w_waiter (server_waiters s1 w) = 0x2000
     \<and> (\<exists>r. sys_ipc_server_register [100, 101, 118] 7 s1 = Some (r, s2)
          \<and> (r = 0 \<longrightarrow> server_port s2 [100, 101, 118] = Some 7 \<and> (\<exists>Ob U. server_inv s2 Ob U (ts @ [0x2000]) [])))"
proof -
  have c: "thread_current sample_servers \<noteq> NULL" "thread_current sample_servers \<noteq> thread_idle sample_servers" "thread_current sample_servers = 0x2000"
    "free_stack sample_servers \<noteq> []" by (simp_all add: server_defs)
  have n: "server_port sample_servers [100, 101, 118] = None" by (simp add: server_port_def table_view_def chain_of_def server_defs)
  obtain s1 w Ob ts where s1: "sys_ipc_server_lookup [100, 101, 118] True sample_servers = Some (Blocked, s1)"
    "server_inv s1 Ob {0x100000} ts [w]" "w_waiter (server_waiters s1 w) = 0x2000" "w_name (server_waiters s1 w) = [100, 101, 118]"
    using lookup_waits [OF sample_servers_inv c(1,2) n c(4), unfolded c(3)] by (elim exE conjE) (rule that, assumption+, simp)
  have f: "filter (\<lambda>w. w_name (server_waiters s1 w) = [100, 101, 118]) [w] = [w]" "filter (\<lambda>w. w_name (server_waiters s1 w) \<noteq> [100, 101, 118]) [w] = []"
    using s1(4) by simp_all
  obtain r s2 where "sys_ipc_server_register [100, 101, 118] 7 s1 = Some (r, s2)"
    "if r = 0 then (\<exists>Ob'. server_inv s2 Ob' {0x100000} (ts @ [0x2000]) []) \<and> server_port s2 = (server_port s1)(take 31 [100, 101, 118] \<mapsto> 7)
     else r = -1 \<and> server_inv s2 Ob {0x100000} ts [w] \<and> server_port s2 = server_port s1 \<and> free_stack s1 = []"
    using server_register_announces [OF s1(2), of "[100, 101, 118]" 7, unfolded f list.map s1(3)] by blast
  then have "sys_ipc_server_register [100, 101, 118] 7 s1 = Some (r, s2)
      \<and> (r = 0 \<longrightarrow> server_port s2 [100, 101, 118] = Some 7 \<and> (\<exists>Ob U. server_inv s2 Ob U (ts @ [0x2000]) []))"
    by (auto split: if_splits)
  then show ?thesis using s1 by blast
qed

end
