(* ===== verification/Shmem.thy ===== *)
theory Shmem
  imports Server
begin

text \<open>
  Shared memory: \<^verbatim>\<open>ipc/shmem.c\<close>.  A piece of shared memory is a list of blocks of physical pages; its
  owner maps them when it creates it, another process when it accepts it.  The calls hold a mutex; a call
  that has to wait, for it or for the lock of an address space, ends in \<open>Blocked\<close>.
\<close>

section \<open>Data\<close>

record shmem =
  sh_id :: u32
  sh_owner :: ptr
  sh_user :: ptr
  sh_size :: u64
  sh_blocks :: ptr

record shmem_state = server_state +
  shmems :: "ptr \<Rightarrow> shmem"
  s_next_shmem_id :: u32
  s_shmem_table :: "u32 hashtable"

definition set_shmem :: "ptr \<Rightarrow> (shmem \<Rightarrow> shmem) \<Rightarrow> 'a shmem_state_scheme \<Rightarrow> 'a shmem_state_scheme" where
  "set_shmem x f s = s\<lparr>shmems := (shmems s)(x := f (shmems s x))\<rparr>"

definition set_block :: "ptr \<Rightarrow> (shmem_block \<Rightarrow> shmem_block) \<Rightarrow> 'a shmem_state_scheme \<Rightarrow> 'a shmem_state_scheme" where
  "set_block x f s = s\<lparr>shmem_blocks := (shmem_blocks s)(x := f (shmem_blocks s x))\<rparr>"

definition ipc_shmem_item_key :: "(ptr \<Rightarrow> shmem) \<Rightarrow> ptr \<Rightarrow> u32" where
  "ipc_shmem_item_key sh item = sh_id (sh item)"

abbreviation SHMEM_PAGES_PER_BLOCK :: nat where "SHMEM_PAGES_PER_BLOCK \<equiv> 10"

section \<open>Operations\<close>

text \<open>
  The body of the loop of \<^verbatim>\<open>sys_ipc_shmem_create\<close>: one page.  \<open>block\<close> is the block that is being filled, or
  NULL.  \<^verbatim>\<open>prev\<close> is NULL throughout: the code never assigns it, so a second block takes the place of the
  first in the list.
\<close>

definition shmem_add_page :: "ptr \<Rightarrow> ptr \<times> 'a shmem_state_scheme \<Rightarrow> (bool \<times> ptr \<times> 'a shmem_state_scheme) option" where
  "shmem_add_page x = (\<lambda>(block, s). do {
     (block, s) \<leftarrow>
       (if block = NULL then do {
          (block, s) \<leftarrow> slab_cache_alloc SHMEM_BLOCK_CACHE s;
          if block = NULL then Some (NULL, s)
          else Some (block, set_shmem x (\<lambda>y. y\<lparr>sh_blocks := block\<rparr>) (set_block block (\<lambda>b. b\<lparr>sb_used := 0, sb_next := NULL\<rparr>) s))
        }
        else Some (block, s));
     if block = NULL then Some (False, NULL, s)
     else do {
       (p, s) \<leftarrow> pmm_alloc s;
       if p = 0 then Some (False, block, s)
       else
         let u = sb_used (shmem_blocks s block);
             s = set_block block (\<lambda>b. b\<lparr>sb_pages := (sb_pages b)(u := p), sb_used := u + 1\<rparr>) s
         in Some (True, if u + 1 = SHMEM_PAGES_PER_BLOCK then NULL else block, s)
     }
   })"

text \<open>Both errors release the mutex; what was allocated is not given back.\<close>

definition shmem_fail :: "'a shmem_state_scheme \<Rightarrow> ((int \<times> 'r option) outcome \<times> 'a shmem_state_scheme) option" where
  "shmem_fail s = do {
     s \<leftarrow> mutex_unlock SHMEM_MUTEX s;
     Some (Done (-1, None), s)
   }"

definition sys_ipc_shmem_create :: "u64 \<Rightarrow> 'a shmem_state_scheme \<Rightarrow> ((int \<times> u64 option) outcome \<times> 'a shmem_state_scheme) option" where
  "sys_ipc_shmem_create sz s =
     (if sz AND NOT PAGE_SIZE \<noteq> 0 then Some (Done (-1, None), s)
      else do {
        (locked, s) \<leftarrow> mutex_lock SHMEM_MUTEX s;
        if \<not> locked then Some (Blocked, s)
        else do {
          (x, s) \<leftarrow> slab_cache_alloc SHMEM_CACHE s;
          if x = NULL then shmem_fail s
          else do {
            let s = set_shmem x (\<lambda>y. y\<lparr>sh_owner := t_proc (threads s (thread_current s)), sh_user := NULL, sh_size := sz\<rparr>) s;
            (ok, _, s) \<leftarrow> for_pages (\<lambda>_. shmem_add_page x) sz 0 (NULL, s);
            if \<not> ok then shmem_fail s
            else do {
              (r, s) \<leftarrow> vmm_map_shmem (sh_owner (shmems s x)) 0 (sh_blocks (shmems s x)) (sh_size (shmems s x))
                (VMM_READ OR VMM_WRITE OR VMM_USER) s;
              case r of
                Blocked \<Rightarrow> Some (Blocked, s)
              | Done (res, p) \<Rightarrow>
                  if res \<noteq> 0 then shmem_fail s
                  else do {
                    let s = set_shmem x (\<lambda>y. y\<lparr>sh_id := s_next_shmem_id s\<rparr>) (s\<lparr>s_next_shmem_id := s_next_shmem_id s + 1\<rparr>);
                    (tab, s) \<leftarrow> hashtable_add (ipc_shmem_item_key (shmems s)) (s_shmem_table s) x s;
                    s \<leftarrow> mutex_unlock SHMEM_MUTEX (s\<lparr>s_shmem_table := tab\<rparr>);
                    Some (Done (sint (sh_id (shmems s x)), Some p), s)
                  }
            }
          }
        }
      })"

definition sys_ipc_shmem_accept :: "u32 \<Rightarrow> 'a shmem_state_scheme \<Rightarrow> ((int \<times> (u64 \<times> u64) option) outcome \<times> 'a shmem_state_scheme) option" where
  "sys_ipc_shmem_accept i s = do {
     (locked, s) \<leftarrow> mutex_lock SHMEM_MUTEX s;
     if \<not> locked then Some (Blocked, s)
     else do {
       x \<leftarrow> hashtable_get (ipc_shmem_item_key (shmems s)) (s_shmem_table s) i s;
       if x = NULL then shmem_fail s
       else if sh_user (shmems s x) \<noteq> NULL then shmem_fail s
       else do {
         let s = set_shmem x (\<lambda>y. y\<lparr>sh_user := t_proc (threads s (thread_current s))\<rparr>) s;
         (r, s) \<leftarrow> vmm_map_shmem (sh_user (shmems s x)) 0 (sh_blocks (shmems s x)) (sh_size (shmems s x))
           (VMM_READ OR VMM_WRITE OR VMM_USER) s;
         case r of
           Blocked \<Rightarrow> Some (Blocked, s)
         | Done (res, p) \<Rightarrow>
             if res \<noteq> 0 then shmem_fail s
             else do {
               s \<leftarrow> mutex_unlock SHMEM_MUTEX s;
               Some (Done (0, Some (p, sh_size (shmems s x))), s)
             }
       }
     }
   }"

definition sys_ipc_shmem_close :: "u32 \<Rightarrow> int" where
  "sys_ipc_shmem_close i = -1"

text \<open>The sizes of \<^verbatim>\<open>struct shmem\<close> and \<^verbatim>\<open>struct shmem_block\<close> are 48 and 96.\<close>

definition ipc_shmem_init :: "'a shmem_state_scheme \<Rightarrow> 'a shmem_state_scheme option" where
  "ipc_shmem_init s = do {
     (tab, s) \<leftarrow> hashtable_init (s_shmem_table s) hashtable_hash_int hashtable_compare_int s;
     s \<leftarrow> slab_cache_init SHMEM_CACHE 48 (s\<lparr>s_shmem_table := tab\<rparr>);
     s \<leftarrow> slab_cache_init SHMEM_BLOCK_CACHE 96 s;
     Some (mutex_init SHMEM_MUTEX s)
   }"

section \<open>Properties\<close>

lemma size_mask: "(sz :: u64) AND NOT 0x1000 = 0 \<longleftrightarrow> sz = 0 \<or> sz = 0x1000"
proof -
  have p: "bit (0x1000 :: u64) n \<longleftrightarrow> n = 12" for n using bit_push_bit_iff [of 12 "1 :: u64" n] by (auto simp: bit_1_iff push_bit_eq_mult)
  have "sz AND NOT 0x1000 = 0 \<longleftrightarrow> (\<forall>n < 64. bit sz n \<longrightarrow> n = 12)"
    unfolding bit_eq_iff [of "sz AND NOT 0x1000"] by (auto simp: bit_simps dest: bit_imp_le_length) (use p in auto)
  also have "\<dots> \<longleftrightarrow> sz = 0 \<or> sz = 0x1000"
  proof
    assume a: "\<forall>n < 64. bit sz n \<longrightarrow> n = 12"
    show "sz = 0 \<or> sz = 0x1000"
    proof (cases "bit sz 12")
      case True
      have "bit sz n = bit (0x1000 :: u64) n" if "n < 64" for n using a True p [of n] that by auto
      then have "sz = 0x1000" by (intro bit_eqI) simp
      then show ?thesis ..
    next
      case False
      have "\<not> bit sz n" if "n < 64" for n using a False that by auto
      then have "sz = 0" by (intro bit_eqI) simp
      then show ?thesis ..
    qed
  next
    assume a: "sz = 0 \<or> sz = 0x1000"
    show "\<forall>n < 64. bit sz n \<longrightarrow> n = 12"
    proof (intro allI impI)
      fix n assume "bit sz n"
      with a have "bit (0x1000 :: u64) n" by auto
      then show "n = 12" using p [of n] by simp
    qed
  qed
  finally show ?thesis .
qed

text \<open>
  The check of the size.  \<^verbatim>\<open>size & ~PAGE_SIZE\<close> lets only 0 and one page pass: for every other size, whole
  pages or not, \<^verbatim>\<open>sys_ipc_shmem_create\<close> returns -1 and changes nothing, so no piece of shared memory is
  ever larger than a page.
\<close>

theorem shmem_create_size:
  fixes s :: "'a shmem_state_scheme"
  shows "sys_ipc_shmem_create sz s = Some (Done (-1, None), s) \<or> sz = 0 \<or> sz = 0x1000"
  using size_mask [of sz] by (auto simp: sys_ipc_shmem_create_def)

text \<open>
  Shared memory is accepted once.  When the piece of memory has a user already, or there is none with
  the number, \<^verbatim>\<open>sys_ipc_shmem_accept\<close> returns -1 and leaves every piece, the table and every address space
  as they are.
\<close>

theorem shmem_accept_once:
  assumes ok: "locks_ok s" and m: "uncontended s SHMEM_MUTEX"
    and t: "table_ok (ipc_shmem_item_key (shmems s)) (s_shmem_table s) (buckets s) (hnext s)"
    and taken: "\<forall>x xs. table_view (ipc_shmem_item_key (shmems s)) (s_shmem_table s) (buckets s) (hnext s) i = x # xs \<longrightarrow> sh_user (shmems s x) \<noteq> NULL"
  shows "\<exists>s'. sys_ipc_shmem_accept i s = Some (Done (-1, None), s') \<and> shmems s' = shmems s \<and> s_shmem_table s' = s_shmem_table s
    \<and> ptes s' = ptes s \<and> processes s' = processes s \<and> mutexes s' = mutexes s \<and> int_flag s' = int_flag s"
proof -
  let ?s = "entered SHMEM_MUTEX s"
  have free: "locker (mutexes s SHMEM_MUTEX) = NULL" "waiters (mutexes s SHMEM_MUTEX) = empty_queue" using m by (simp_all add: uncontended_def)
  have lock: "mutex_lock SHMEM_MUTEX s = Some (True, ?s)" using mutex_lock_free [OF ok free(1)] by (simp add: entered_def)
  have e: "shmems ?s = shmems s" "s_shmem_table ?s = s_shmem_table s" "buckets ?s = buckets s" "hnext ?s = hnext s" "ptes ?s = ptes s"
    "processes ?s = processes s" "int_flag ?s = int_flag s" "locks_ok ?s" "waiters (mutexes ?s SHMEM_MUTEX) = empty_queue"
    "(mutexes ?s)(SHMEM_MUTEX := (mutexes ?s SHMEM_MUTEX)\<lparr>locker := NULL\<rparr>) = mutexes s"
    using ok free by (auto simp: entered_def fun_eq_iff)
  obtain x where x: "hashtable_get (ipc_shmem_item_key (shmems ?s)) (s_shmem_table ?s) i ?s = Some x" "x = NULL \<or> sh_user (shmems ?s x) \<noteq> NULL"
    using table_lookup [of "ipc_shmem_item_key (shmems ?s)" "s_shmem_table ?s" ?s i] t taken unfolding e by metis
  obtain s' where "mutex_unlock SHMEM_MUTEX ?s = Some s'" "shmems s' = shmems s" "s_shmem_table s' = s_shmem_table s" "ptes s' = ptes s"
    "processes s' = processes s" "mutexes s' = mutexes s" "int_flag s' = int_flag s"
    using mutex_unlock_alone [OF e(8,9)] e by simp
  then show ?thesis using lock x by (auto simp: sys_ipc_shmem_accept_def shmem_fail_def)
qed

lemma vmm_ok_shmem: "vmm_ok (set_shmem x f s) Ob R U P = vmm_ok s Ob R U P"
  by (simp add: set_shmem_def vmm_ok_def space_ok_def free_space_def map_nodes_def owns_def proc_cr3_def inj_on_def)

text \<open>
  C28: a piece of shared memory without a user is accepted.  The calling process becomes its user.  On success
  the pages of the piece, in order, are what a region of the process is mapped to, writable, which was free
  before.  Every address that was mapped before, in the address space of the owner or any other, is mapped as it
  was, and nothing outside the region changes, so owner and user have the same memory in common.  The call fails in two cases.
  There may be no free region big enough; then no free space and no mapping changes.  Or the pages for the page
  tables run out; then the region stays taken and the pages that were mapped before the failure, fewer than
  all, stay mapped, while the rest of the region is not.  The process stays the user of the piece in both.
\<close>

theorem shmem_accept_shares:
  fixes s :: "'a shmem_state_scheme"
  assumes ok: "vmm_ok s Ob R U P" and m: "uncontended s SHMEM_MUTEX"
    and t: "table_ok (ipc_shmem_item_key (shmems s)) (s_shmem_table s) (buckets s) (hnext s)"
    and x: "table_view (ipc_shmem_item_key (shmems s)) (s_shmem_table s) (buckets s) (hnext s) i = x # xs" "sh_user (shmems s x) = NULL" "x \<noteq> NULL"
    and proc: "t_proc (threads s (thread_current s)) = proc" "proc \<in> P" "uncontended s (VMM_MUTEX proc)"
    and sz: "page_aligned (sh_size (shmems s x))" "sh_size (shmems s x) \<noteq> 0"
    and ps: "blocks_hold s (sh_blocks (shmems s x)) ps" "length ps * 4096 = unat (sh_size (shmems s x))" "\<forall>p \<in> set ps. usable_page p"
    and first: "p_free_map (processes s proc) \<noteq> [] \<Longrightarrow> me_size (snd (hd (p_free_map (processes s proc)))) \<noteq> sh_size (shmems s x)"
  shows "\<exists>res out base s' Ob' V. sys_ipc_shmem_accept i s = Some (Done (res, out), s') \<and> vmm_ok s' Ob' R V P \<and> U \<subseteq> V
    \<and> shmems s' = (shmems s)(x := (shmems s x)\<lparr>sh_user := proc\<rparr>) \<and> s_shmem_table s' = s_shmem_table s
    \<and> mutexes s' = mutexes s \<and> mem s' = mem s
    \<and> (\<forall>r \<in> R. \<forall>v. user_addr v \<and> (translate (ptes s) r v \<noteq> None \<or> \<not> (r = proc_cr3 proc s \<and> v \<in> region base (sh_size (shmems s x)))) \<longrightarrow>
         translate (ptes s') r v = translate (ptes s) r v)
    \<and> (if res = 0 then out = Some (base, sh_size (shmems s x)) \<and> region_result s s' R proc base (sh_size (shmems s x)) True ps
       else res = -1 \<and> out = None
         \<and> (region_failed s s' proc base (sh_size (shmems s x)) True ps \<or> no_region s s' R proc (sh_size (shmems s x))))"
proof -
  let ?e = "entered SHMEM_MUTEX s" and ?f = "VMM_READ OR VMM_WRITE OR VMM_USER" and ?sz = "sh_size (shmems s x)"
  define s1 where "s1 = set_shmem x (\<lambda>y. y\<lparr>sh_user := proc\<rparr>) ?e"
  have l: "locks_ok s" using ok by (simp add: vmm_ok_def)
  have free: "locker (mutexes s SHMEM_MUTEX) = NULL" "waiters (mutexes s SHMEM_MUTEX) = empty_queue" using m by (simp_all add: uncontended_def)
  have lock: "mutex_lock SHMEM_MUTEX s = Some (True, ?e)" using mutex_lock_free [OF l free(1)] by (simp add: entered_def)
  have e: "shmems ?e = shmems s" "s_shmem_table ?e = s_shmem_table s" "buckets ?e = buckets s" "hnext ?e = hnext s"
    "thread_current ?e = thread_current s"
    by (simp_all add: entered_def)
  have get: "hashtable_get (ipc_shmem_item_key (shmems ?e)) (s_shmem_table ?e) i ?e = Some x"
    using table_lookup [of "ipc_shmem_item_key (shmems ?e)" "s_shmem_table ?e" ?e i] t x unfolding e by (auto split: if_splits)
  have s1: "shmems s1 = (shmems s)(x := (shmems s x)\<lparr>sh_user := proc\<rparr>)" "s_shmem_table s1 = s_shmem_table s" "mutexes s1 = mutexes ?e"
    "ptes s1 = ptes s" "processes s1 = processes s" "shmem_blocks s1 = shmem_blocks s" "mem s1 = mem s" "proc_cr3 proc s1 = proc_cr3 proc s"
    "free_space s1 proc = free_space s proc"
    by (simp_all add: s1_def set_shmem_def e(1,2) proc_cr3_def free_space_def) (simp_all add: entered_def)
  have ok1: "vmm_ok s1 Ob R U P" unfolding s1_def vmm_ok_shmem using vmm_ok_entered [OF ok] .
  have u1: "uncontended s1 (VMM_MUTEX proc)" using proc(3) by (simp add: uncontended_def s1(3)) (simp add: entered_def)
  have fl: "?f AND VMM_USER \<noteq> 0" "(?f AND VMM_WRITE \<noteq> 0) = True" by simp_all
  have b1: "blocks_hold s1 (sh_blocks (shmems s x)) ps"
    using ps(1) unfolding blocks_hold_def s1(6) block_pages_cong [OF s1(6)] .
  have first1: "p_free_map (processes s1 proc) \<noteq> [] \<Longrightarrow> me_size (snd (hd (p_free_map (processes s1 proc)))) \<noteq> ?sz"
    using first by (simp add: s1(5))
  obtain res base s2 L V where map: "vmm_map_shmem proc 0 (sh_blocks (shmems s x)) ?sz ?f s1 = Some (Done (res, base), s2)"
    "vmm_ok s2 (Ob(ENTRY_CACHE := L)) R V P" "U \<subseteq> V" "others_kept s1 s2 R proc base ?sz"
    "if res = 0 then region_result s1 s2 R proc base ?sz (?f AND VMM_WRITE \<noteq> 0) ps
       else res = -1 \<and> (region_failed s1 s2 proc base ?sz (?f AND VMM_WRITE \<noteq> 0) ps \<or> no_region s1 s2 R proc ?sz)"
    using vmm_map_shmem_ok [OF ok1 proc(2) u1 fl(1) sz b1 ps(2,3) first1] by blast
  have fr: "vmm_frame proc s1 s2" "mutexes s2 = mutexes ?e" "mem s2 = mem s" using map(4) s1(3,7) by (simp_all add: others_kept_def)
  have s2: "shmems s2 = shmems s1" "s_shmem_table s2 = s_shmem_table s1" using fr(1) by (auto elim!: vmm_frameE)
  define s3 where "s3 = s2\<lparr>mutexes := mutexes s, locks := lock_used (MUTEX_SPINLOCK SHMEM_MUTEX) s2\<rparr>"
  have unlock: "mutex_unlock SHMEM_MUTEX s2 = Some s3"
  proof -
    have l2: "locks_ok s2" using map(2) by (simp add: vmm_ok_def)
    have w: "waiters (mutexes s2 SHMEM_MUTEX) = empty_queue" using free(2) by (simp add: fr(2)) (simp add: entered_def)
    have "(mutexes ?e)(SHMEM_MUTEX := (mutexes ?e SHMEM_MUTEX)\<lparr>locker := NULL\<rparr>) = mutexes s"
      using free by (auto simp: entered_def fun_eq_iff)
    then show ?thesis unfolding mutex_unlock_alone [OF l2 w] s3_def fr(2) by simp
  qed
  have run: "sys_ipc_shmem_accept i s = Some (Done (if res = 0 then (0, Some (base, ?sz)) else (-1, None)), s3)"
  proof -
    have "sh_user (shmems s1 x) = proc" "sh_blocks (shmems s1 x) = sh_blocks (shmems s x)" "sh_size (shmems s1 x) = ?sz"
      "sh_size (shmems s3 x) = ?sz" by (simp_all add: s1(1) s2(1) s3_def)
    then show ?thesis using lock get x(2,3) proc(1) map(1) unlock e
      by (simp add: sys_ipc_shmem_accept_def shmem_fail_def s1_def [symmetric])
  qed
  have ok3: "vmm_ok s3 (Ob(ENTRY_CACHE := L)) R V P" unfolding s3_def using vmm_ok_mutexes [OF map(2)] .
  have s3: "shmems s3 = (shmems s)(x := (shmems s x)\<lparr>sh_user := proc\<rparr>)" "s_shmem_table s3 = s_shmem_table s" "mutexes s3 = mutexes s" "mem s3 = mem s"
    "ptes s3 = ptes s2" "free_space s3 proc = free_space s2 proc" "free_stack s3 = free_stack s2"
    by (simp_all add: s3_def s2 s1 fr(3) free_space_def)
  have out: "if res = 0 then region_result s s3 R proc base ?sz True ps
      else res = -1 \<and> (region_failed s s3 proc base ?sz True ps \<or> no_region s s3 R proc ?sz)"
    using map(5) fl(2) by (cases "res = 0") (auto simp: region_result_def region_failed_def no_region_def s3 s1)
  have same: "translate (ptes s3) r v = translate (ptes s) r v"
    if a: "r \<in> R" "user_addr v" "\<not> (r = proc_cr3 proc s \<and> v \<in> region base ?sz)" for r v
    using map(4) a unfolding others_kept_def s3(5) s1(4,8) by auto
  have "translate (ptes s3) r v = translate (ptes s) r v"
    if a: "r \<in> R" "user_addr v" "translate (ptes s) r v \<noteq> None" for r v
  proof (cases "r = proc_cr3 proc s \<and> v \<in> region base ?sz")
    case True
    have "space_ok s R proc" using vmm_ok_space [OF ok proc(2)] .
    then have "v \<notin> free_space s proc" using a(3) True unfolding space_ok_def by auto
    then have "no_region s s3 R proc ?sz" using out True unfolding region_result_def region_failed_def by (auto split: if_splits)
    then show ?thesis using a(1,2) by (simp add: no_region_def)
  qed (use same a in blast)
  then have kept: "\<forall>r \<in> R. \<forall>v. user_addr v \<and> (translate (ptes s) r v \<noteq> None \<or> \<not> (r = proc_cr3 proc s \<and> v \<in> region base ?sz)) \<longrightarrow>
      translate (ptes s3) r v = translate (ptes s) r v"
    using same by blast
  show ?thesis
  proof (cases "res = 0")
    case True
    have "region_result s s3 R proc base ?sz True ps" using out True by simp
    then show ?thesis using run ok3 map(3) s3(1-4) kept True
      by (intro exI [of _ 0] exI [of _ "Some (base, ?sz)"] exI [of _ base] exI [of _ s3] exI [of _ "Ob(ENTRY_CACHE := L)"] exI [of _ V]) simp
  next
    case False
    have "region_failed s s3 proc base ?sz True ps \<or> no_region s s3 R proc ?sz" using out False by simp
    then show ?thesis using run ok3 map(3) s3(1-4) kept False
      by (intro exI [of _ "-1"] exI [of _ None] exI [of _ base] exI [of _ s3] exI [of _ "Ob(ENTRY_CACHE := L)"] exI [of _ V]) simp
  qed
qed

section \<open>Witness\<close>

text \<open>A piece of shared memory that the process \<open>0x7000\<close> has accepted.\<close>

abbreviation (input) sample_shmems :: shmem_state where
  "sample_shmems \<equiv> server_state.extend sample_servers
     \<lparr>shmems = (\<lambda>_. \<lparr>sh_id = 0, sh_owner = 0x6000, sh_user = 0x7000, sh_size = 0x1000, sh_blocks = NULL\<rparr>), s_next_shmem_id = 1,
      s_shmem_table = \<lparr>ht_table = PHYS_MAP_BASE + 0x93000, ht_size = 512, ht_items = 0, ht_hash = hashtable_hash_int, ht_compare = (=)\<rparr>\<rparr>"

lemmas shmem_defs = server_defs server_state.defs

lemma shmem_accept_once_witness:
  "\<exists>s s' tab. hashtable_add (\<lambda>_. 0) (s_shmem_table sample_shmems) 0x8000 sample_shmems = Some (tab, s)
     \<and> sys_ipc_shmem_accept 0 (s\<lparr>s_shmem_table := tab\<rparr>) = Some (Done (-1, None), s')"
proof -
  have key: "ipc_shmem_item_key (shmems sample_shmems) = (\<lambda>_. 0)" by (simp add: ipc_shmem_item_key_def fun_eq_iff shmem_defs)
  have t: "table_ok (\<lambda>_. 0) (s_shmem_table sample_shmems) (buckets sample_shmems) (hnext sample_shmems)"
    by (simp add: table_ok_def table_items_def chain_of_def shmem_defs)
  have n: "(0x8000 :: ptr) \<notin> table_items (s_shmem_table sample_shmems) (buckets sample_shmems) (hnext sample_shmems)"
    by (simp add: table_items_def chain_of_def shmem_defs)
  let ?tab = "(s_shmem_table sample_shmems)\<lparr>ht_items := ht_items (s_shmem_table sample_shmems) + 1\<rparr>"
  obtain nx bk where add: "hashtable_add (\<lambda>_. 0) (s_shmem_table sample_shmems) 0x8000 sample_shmems = Some (?tab, sample_shmems\<lparr>hnext := nx, buckets := bk\<rparr>)"
    "table_ok (\<lambda>_. 0) ?tab bk nx"
    using table_enroll [OF t, of "0x8000" "\<lambda>_. 0"] n by auto
  define s where "s = sample_shmems\<lparr>hnext := nx, buckets := bk\<rparr>"
  have e: "shmems (s\<lparr>s_shmem_table := ?tab\<rparr>) = shmems sample_shmems" by (simp add: s_def)
  have "locks_ok (s\<lparr>s_shmem_table := ?tab\<rparr>)" "uncontended (s\<lparr>s_shmem_table := ?tab\<rparr>) SHMEM_MUTEX"
    by (simp_all add: s_def shmem_defs addrs_ok_def uncontended_def)
  moreover have "table_ok (ipc_shmem_item_key (shmems (s\<lparr>s_shmem_table := ?tab\<rparr>))) (s_shmem_table (s\<lparr>s_shmem_table := ?tab\<rparr>))
      (buckets (s\<lparr>s_shmem_table := ?tab\<rparr>)) (hnext (s\<lparr>s_shmem_table := ?tab\<rparr>))"
    unfolding e key using add(2) by (simp add: s_def)
  moreover have "\<forall>x xs. table_view (ipc_shmem_item_key (shmems (s\<lparr>s_shmem_table := ?tab\<rparr>))) (s_shmem_table (s\<lparr>s_shmem_table := ?tab\<rparr>))
      (buckets (s\<lparr>s_shmem_table := ?tab\<rparr>)) (hnext (s\<lparr>s_shmem_table := ?tab\<rparr>)) 0 = x # xs \<longrightarrow> sh_user (shmems (s\<lparr>s_shmem_table := ?tab\<rparr>) x) \<noteq> NULL"
    unfolding e by (simp add: shmem_defs)
  ultimately obtain s' where "sys_ipc_shmem_accept 0 (s\<lparr>s_shmem_table := ?tab\<rparr>) = Some (Done (-1, None), s')"
    using shmem_accept_once [of "s\<lparr>s_shmem_table := ?tab\<rparr>" 0] by blast
  then show ?thesis using add(1) unfolding s_def by blast
qed

text \<open>A page that the process \<open>0x6000\<close> offers, and its acceptance by \<open>0x7000\<close>.\<close>

abbreviation (input) sample_offer :: shmem_state where
  "sample_offer \<equiv> sample_shmems\<lparr>shmems := (\<lambda>_. \<lparr>sh_id = 0, sh_owner = 0x6000, sh_user = NULL, sh_size = 0x1000, sh_blocks = 0x8100\<rparr>),
     shmem_blocks := (\<lambda>_. \<lparr>sb_used = 1, sb_pages = (\<lambda>_. 0x300000), sb_next = NULL\<rparr>)\<rparr>"

lemma shmem_accept_shares_witness:
  "\<exists>tab s s1 res out s'. hashtable_add (\<lambda>_. 0) (s_shmem_table sample_offer) 0x8000 sample_offer = Some (tab, s)
     \<and> vmm_context_init 0x7000 (s\<lparr>s_shmem_table := tab\<rparr>) = Some (0, s1)
     \<and> sys_ipc_shmem_accept 0 s1 = Some (Done (res, out), s') \<and> sh_user (shmems s' 0x8000) = 0x7000"
proof -
  let ?key = "\<lambda>_ :: ptr. 0 :: u32"
  have t: "table_ok ?key (s_shmem_table sample_offer) (buckets sample_offer) (hnext sample_offer)"
    by (simp add: table_ok_def table_items_def chain_of_def shmem_defs)
  have n: "(0x8000 :: ptr) \<notin> table_items (s_shmem_table sample_offer) (buckets sample_offer) (hnext sample_offer)"
    and e: "table_view ?key (s_shmem_table sample_offer) (buckets sample_offer) (hnext sample_offer) 0 = []"
    by (simp_all add: table_items_def table_view_def chain_of_def shmem_defs)
  let ?tab = "(s_shmem_table sample_offer)\<lparr>ht_items := ht_items (s_shmem_table sample_offer) + 1\<rparr>"
  obtain nx bk where add: "hashtable_add ?key (s_shmem_table sample_offer) 0x8000 sample_offer = Some (?tab, sample_offer\<lparr>hnext := nx, buckets := bk\<rparr>)"
    "table_ok ?key ?tab bk nx" "table_view ?key ?tab bk nx 0 = [0x8000]"
    using table_enroll [OF t, of "0x8000" ?key] n e by auto
  define s where "s = sample_offer\<lparr>hnext := nx, buckets := bk, s_shmem_table := ?tab\<rparr>"
  note d = s_def shmem_defs
  have ok: "vmm_ok s (\<lambda>_. {}) {0x100000} {0x100000} {}" using sample_vmm_ok by (simp add: vmm_ok_def d)
  have r: "proc_cr3 0x7000 s \<in> {0x100000}" "\<forall>q \<in> {}. proc_cr3 q s \<noteq> proc_cr3 0x7000 s" "(0x7000 :: ptr) \<notin> {}" "0x7000 \<noteq> NULL"
    by (simp_all add: proc_cr3_def d)
  have none: "\<forall>v. user_addr v \<longrightarrow> translate (ptes s) (proc_cr3 0x7000 s) v = None" by (simp add: translate_def d)
  obtain s1 L where s1: "vmm_context_init 0x7000 s = Some (0, s1)" "vmm_ok s1 ((\<lambda>_. {})(ENTRY_CACHE := L)) {0x100000} {0x100000} {0x7000}"
    "vmm_frame 0x7000 s s1" "uncontended s1 (VMM_MUTEX 0x7000)" "\<forall>m. m \<noteq> VMM_MUTEX 0x7000 \<longrightarrow> mutexes s1 m = mutexes s m"
    "p_free_map (processes s1 0x7000) = [] \<or>
      (\<exists>e. p_free_map (processes s1 0x7000) = [(e, \<lparr>me_base = PAGE_SIZE, me_size = USER_REGION_SIZE - PAGE_SIZE\<rparr>)])"
    using vmm_context_init_ok [OF ok r(3,4,1,2) none] by blast
  have fr: "shmems s1 = shmems s" "s_shmem_table s1 = ?tab" "buckets s1 = bk" "hnext s1 = nx" "shmem_blocks s1 = shmem_blocks s"
    "threads s1 = threads s" "thread_current s1 = thread_current s"
    using s1(3) by (auto elim!: vmm_frameE simp: s_def)
  have x: "shmems s1 x = \<lparr>sh_id = 0, sh_owner = 0x6000, sh_user = NULL, sh_size = 0x1000, sh_blocks = 0x8100\<rparr>" for x
    unfolding fr by (simp add: d)
  have key: "ipc_shmem_item_key (shmems s1) = ?key" by (simp add: ipc_shmem_item_key_def x fun_eq_iff)
  have m: "uncontended s1 SHMEM_MUTEX" using s1(5) by (simp add: uncontended_def) (simp add: d)
  have p: "t_proc (threads s1 (thread_current s1)) = 0x7000" "(0x7000 :: ptr) \<in> {0x7000}" unfolding fr by (simp_all add: d)
  have sb: "shmem_blocks s1 b = \<lparr>sb_used = 1, sb_pages = (\<lambda>_. 0x300000), sb_next = NULL\<rparr>" for b unfolding fr by (simp add: d)
  have bl: "blocks_hold s1 (sh_blocks (shmems s1 0x8000)) [0x300000]"
    unfolding blocks_hold_def by (rule exI [of _ "[0x8100]"]) (simp add: x sb block_pages_def)
  have rest: "page_aligned (sh_size (shmems s1 0x8000))" "sh_size (shmems s1 0x8000) \<noteq> 0" "sh_user (shmems s1 0x8000) = NULL"
    "length [0x300000 :: ptr] * 4096 = unat (sh_size (shmems s1 0x8000))" "\<forall>p \<in> set [0x300000]. usable_page p" "(0x8000 :: ptr) \<noteq> NULL"
    by (simp_all add: x page_aligned_iff usable_page_def)
  have first: "p_free_map (processes s1 0x7000) \<noteq> [] \<Longrightarrow> me_size (snd (hd (p_free_map (processes s1 0x7000)))) \<noteq> sh_size (shmems s1 0x8000)"
    using s1(6) by (auto simp: x)
  obtain res out s' where "sys_ipc_shmem_accept 0 s1 = Some (Done (res, out), s')"
    "shmems s' = (shmems s1)(0x8000 := (shmems s1 0x8000)\<lparr>sh_user := 0x7000\<rparr>)"
    using shmem_accept_shares [OF s1(2) m add(2) [folded key fr(2-4)] add(3) [folded key fr(2-4)] rest(3,6) p s1(4) rest(1,2) bl rest(4,5) first] by blast
  then show ?thesis using add(1) s1(1)
    by (intro exI [of _ ?tab] exI [of _ "sample_offer\<lparr>hnext := nx, buckets := bk\<rparr>"] exI [of _ s1] exI [of _ res] exI [of _ out] exI [of _ s'])
      (simp add: s_def)
qed

end
