(* ===== verification/Printf.thy ===== *)
theory Printf
  imports Prelude
begin

text \<open>
  Formatted printing: \<^verbatim>\<open>lib/printf.c\<close>.  The function that takes the characters is a parameter, as in the
  code, and may change a state of any type.  Characters are bytes; strings are lists of bytes before the
  terminating zero.  The arguments are the slots of the variable argument list: words, or pointers to
  strings.  A missing argument, a word that should be a string, and a write outside a buffer have no result.
\<close>

section \<open>Definitions\<close>

datatype vararg = Word u64 | Str "u8 list"

datatype printf_state = NORMAL | FORMAT

text \<open>\<^verbatim>\<open>enum printf_flags\<close>\<close>

abbreviation (input) F_NEGATIVE :: u32 where "F_NEGATIVE \<equiv> 1"
abbreviation (input) F_LONG :: u32 where "F_LONG \<equiv> 2"
abbreviation (input) F_LONG_LONG :: u32 where "F_LONG_LONG \<equiv> 4"

fun printf_string :: "(u8 \<Rightarrow> 's \<Rightarrow> 's option) \<Rightarrow> u8 list \<Rightarrow> 's \<Rightarrow> 's option" where
  "printf_string helper [] s = Some s"
| "printf_string helper (c # cs) s = Option.bind (helper c s) (printf_string helper cs)"

text \<open>The table of digits, "0123456789abcdef".\<close>

definition digits :: "u8 list" where
  "digits = [48, 49, 50, 51, 52, 53, 54, 55, 56, 57, 97, 98, 99, 100, 101, 102]"

text \<open>\<open>b[--i] = c\<close> for a buffer of 32 bytes.\<close>

definition push :: "u8 \<Rightarrow> u8 list \<times> nat \<Rightarrow> (u8 list \<times> nat) option" where
  "push c = (\<lambda>(b, i). if i = 0 then None else Some (b[i - 1 := c], i - 1))"

partial_function (option) number_loop :: "u64 \<Rightarrow> u64 \<Rightarrow> u8 list \<times> nat \<Rightarrow> (u8 list \<times> nat) option" where
  "number_loop n base bi =
     (if n = 0 then Some bi
      else if base = 0 then None
      else if unat (n mod base) \<ge> length digits then None
      else do {
        bi \<leftarrow> push (digits ! unat (n mod base)) bi;
        number_loop (n div base) base bi
      })"

text \<open>The string from index \<open>i\<close> of the buffer to the terminating zero.\<close>

definition string_at :: "u8 list \<Rightarrow> nat \<Rightarrow> u8 list" where
  "string_at b i = takeWhile (\<lambda>c. c \<noteq> 0) (drop i b)"

definition number_text :: "u64 \<Rightarrow> u64 \<Rightarrow> u32 \<Rightarrow> u8 list option" where
  "number_text n base flags = do {
     bi \<leftarrow> push 0 (replicate 32 0, 32);
     (b, i) \<leftarrow> number_loop n base bi;
     (b, i) \<leftarrow> (if i = 32 - 1 then push 48 (b, i) else Some (b, i));
     (b, i) \<leftarrow> (if flags AND F_NEGATIVE \<noteq> 0 then push 45 (b, i) else Some (b, i));
     Some (string_at b i)
   }"

definition printf_number :: "(u8 \<Rightarrow> 's \<Rightarrow> 's option) \<Rightarrow> u64 \<Rightarrow> u64 \<Rightarrow> u32 \<Rightarrow> 's \<Rightarrow> 's option" where
  "printf_number helper n base flags s = Option.bind (number_text n base flags) (\<lambda>cs. printf_string helper cs s)"

text \<open>Reading a signed or an unsigned number: without a length flag the slot holds an \<^verbatim>\<open>int\<close>.\<close>

fun next_word :: "vararg list \<Rightarrow> (u64 \<times> vararg list) option" where
  "next_word (Word w # args) = Some (w, args)"
| "next_word _ = None"

definition signed_arg :: "u32 \<Rightarrow> u64 \<Rightarrow> u64" where
  "signed_arg flags w = (if flags AND F_LONG \<noteq> 0 then w else if flags AND F_LONG_LONG \<noteq> 0 then w else scast (ucast w :: u32))"

definition unsigned_arg :: "u32 \<Rightarrow> u64 \<Rightarrow> u64" where
  "unsigned_arg flags w = (if flags AND F_LONG \<noteq> 0 then w else if flags AND F_LONG_LONG \<noteq> 0 then w else ucast (ucast w :: u32))"

definition long_flag :: "u32 \<Rightarrow> u32" where
  "long_flag flags =
     (if flags AND F_LONG \<noteq> 0 then flags AND NOT F_LONG OR F_LONG_LONG
      else if flags AND F_LONG_LONG \<noteq> 0 then flags
      else flags OR F_LONG)"

text \<open>The loop over the format: 37 is the percent sign, and 115, 100, 120, 117, 112, 108 are s, d, x, u, p, l.\<close>

fun printf_loop ::
  "(u8 \<Rightarrow> 's \<Rightarrow> 's option) \<Rightarrow> u8 list \<Rightarrow> u32 \<Rightarrow> printf_state \<Rightarrow> vararg list \<Rightarrow> 's \<Rightarrow> 's option" where
  "printf_loop helper [] flags st args s = Some s"
| "printf_loop helper (ch # format) flags NORMAL args s =
     (if ch = 37 then printf_loop helper format 0 FORMAT args s
      else do {
        s \<leftarrow> helper ch s;
        printf_loop helper format flags NORMAL args s
      })"
| "printf_loop helper (ch # format) flags FORMAT args s =
     (if ch = 115 then
        (case args of
           Str cs # args \<Rightarrow> do {
             s \<leftarrow> printf_string helper cs s;
             printf_loop helper format flags NORMAL args s
           }
         | _ \<Rightarrow> None)
      else if ch = 100 then do {
        (w, args) \<leftarrow> next_word args;
        let n = signed_arg flags w;
        let (n, flags) = (if sint n < 0 then (- n, flags OR F_NEGATIVE) else (n, flags));
        s \<leftarrow> printf_number helper n 10 flags s;
        printf_loop helper format flags NORMAL args s
      }
      else if ch = 120 \<or> ch = 117 then do {
        (w, args) \<leftarrow> next_word args;
        s \<leftarrow> printf_number helper (unsigned_arg flags w) (if ch = 120 then 16 else 10) 0 s;
        printf_loop helper format flags NORMAL args s
      }
      else if ch = 112 then do {
        (w, args) \<leftarrow> next_word args;
        s \<leftarrow> printf_number helper w 16 0 s;
        printf_loop helper format flags NORMAL args s
      }
      else if ch = 108 then printf_loop helper format (long_flag flags) FORMAT args s
      else printf_loop helper format flags NORMAL args s)"

definition do_printf :: "(u8 \<Rightarrow> 's \<Rightarrow> 's option) \<Rightarrow> u8 list \<Rightarrow> vararg list \<Rightarrow> 's \<Rightarrow> 's option" where
  "do_printf helper format args s = printf_loop helper format 0 NORMAL args s"

section \<open>Numbers\<close>

text \<open>The digits of a number, the first one first, and what they are read as.\<close>

fun numerals :: "nat \<Rightarrow> nat \<Rightarrow> nat list" where
  "numerals base n = (if base < 2 \<or> n = 0 then [] else numerals base (n div base) @ [n mod base])"

declare numerals.simps [simp del]

definition read_digit :: "u8 \<Rightarrow> nat" where
  "read_digit c = (if unat c < 97 then unat c - 48 else unat c - 87)"

definition read_number :: "nat \<Rightarrow> u8 list \<Rightarrow> nat" where
  "read_number base cs = foldl (\<lambda>v c. v * base + read_digit c) 0 cs"

text \<open>
  The text of a number in a base: at least one character, only digits of the base, no zero in front of another
  digit, and it reads back as the number.
\<close>

definition numeral_text :: "nat \<Rightarrow> nat \<Rightarrow> u8 list \<Rightarrow> bool" where
  "numeral_text base n cs \<longleftrightarrow> cs \<noteq> [] \<and> (\<forall>c \<in> set cs. (48 \<le> c \<and> c \<le> 57 \<or> 97 \<le> c \<and> c \<le> 102) \<and> read_digit c < base)
     \<and> (hd cs = 48 \<longrightarrow> cs = [48]) \<and> read_number base cs = n"

lemma numeral_digits: "1 < base \<Longrightarrow> d \<in> set (numerals base n) \<Longrightarrow> d < base"
  by (induction base n rule: numerals.induct) (subst (asm) (2) numerals.simps, auto split: if_splits)

lemma numeral_value: "1 < base \<Longrightarrow> foldl (\<lambda>v d. v * base + d) 0 (numerals base n) = n"
proof (induction base n rule: numerals.induct)
  case (1 base n)
  then show ?case by (subst numerals.simps) auto
qed

lemma numeral_length: "1 < base \<Longrightarrow> n < base ^ k \<Longrightarrow> length (numerals base n) \<le> k"
proof (induction base n arbitrary: k rule: numerals.induct)
  case (1 base n)
  show ?case
  proof (cases "n = 0")
    case True
    then show ?thesis by (subst numerals.simps) simp
  next
    case False
    then obtain j where k: "k = Suc j" using 1(3) by (cases k) auto
    have "n div base < base ^ j" using 1(2,3) k by (simp add: less_mult_imp_div_less mult.commute)
    then have "length (numerals base (n div base)) \<le> j" using 1(1,2) False by simp
    then show ?thesis using False 1(2) k by (subst numerals.simps) simp
  qed
qed

lemma numeral_nil: "1 < base \<Longrightarrow> numerals base n = [] \<longleftrightarrow> n = 0"
  by (subst numerals.simps) auto

lemma numeral_hd: "1 < base \<Longrightarrow> n \<noteq> 0 \<Longrightarrow> hd (numerals base n) \<noteq> 0"
proof (induction base n rule: numerals.induct)
  case (1 base n)
  then have e: "numerals base n = numerals base (n div base) @ [n mod base]" by (subst numerals.simps) simp
  show ?case
  proof (cases "n div base = 0")
    case True
    then show ?thesis using 1(2,3) by (simp add: e numerals.simps [of base 0] div_eq_0_iff)
  next
    case False
    then show ?thesis using 1 by (simp add: e numeral_nil hd_append)
  qed
qed

lemma digit_facts: "d < 16 \<Longrightarrow> digits ! d \<noteq> 0 \<and> read_digit (digits ! d) = d"
  and digit_char: "d < 16 \<Longrightarrow> (48 \<le> digits ! d \<and> digits ! d \<le> 57 \<or> 97 \<le> digits ! d \<and> digits ! d \<le> 102) \<and> (digits ! d = 48 \<longrightarrow> d = 0)"
proof -
  assume "d < 16"
  then have d: "d \<in> set [0 ..< 16]" by simp
  have "\<forall>d \<in> set [0 ..< 16]. digits ! d \<noteq> 0 \<and> read_digit (digits ! d) = d" by (simp add: digits_def read_digit_def upt_rec)
  then show "digits ! d \<noteq> 0 \<and> read_digit (digits ! d) = d" using d by blast
  have "\<forall>d \<in> set [0 ..< 16]. (48 \<le> digits ! d \<and> digits ! d \<le> 57 \<or> 97 \<le> digits ! d \<and> digits ! d \<le> 102) \<and> (digits ! d = 48 \<longrightarrow> d = 0)"
    by (simp add: digits_def upt_rec)
  then show "(48 \<le> digits ! d \<and> digits ! d \<le> 57 \<or> 97 \<le> digits ! d \<and> digits ! d \<le> 102) \<and> (digits ! d = 48 \<longrightarrow> d = 0)" using d by blast
qed

text \<open>The loop fills the buffer from the end; there is room for every digit.\<close>

lemma number_loop_ok:
  assumes "1 < base" and "base \<le> 16" and "length (numerals (unat base) (unat n)) \<le> i" and "i \<le> length b"
  shows "\<exists>b'. number_loop n base (b, i) = Some (b', i - length (numerals (unat base) (unat n))) \<and> length b' = length b
    \<and> drop (i - length (numerals (unat base) (unat n))) b' = map ((!) digits) (numerals (unat base) (unat n)) @ drop i b"
  using assms(3,4)
proof (induction "unat n" arbitrary: n i b rule: less_induct)
  case less
  have ub: "1 < unat base" "unat base \<le> 16" using assms(1,2) by (simp_all add: word_less_nat_alt word_le_nat_alt)
  show ?case
  proof (cases "n = 0")
    case True
    then show ?thesis by (simp add: number_loop.simps numerals.simps)
  next
    case False
    let ?d = "numerals (unat base) (unat n div unat base)"
    have num: "numerals (unat base) (unat n) = ?d @ [unat n mod unat base]" using False ub by (subst numerals.simps) (simp add: unat_eq_0)
    have i: "0 < i" "length ?d \<le> i - 1" using less(2) num by simp_all
    have dv: "unat (n div base) = unat n div unat base" "unat (n mod base) = unat n mod unat base" by (simp_all add: unat_div unat_mod)
    have lt: "unat (n div base) < unat n" unfolding dv using False ub by (simp add: div_less_dividend unat_gt_0)
    have md: "unat n mod unat base < 16" using ub by (meson less_le_trans mod_less_divisor zero_less_one less_trans)
    let ?b = "b[i - 1 := digits ! (unat n mod unat base)]"
    have h: "length (numerals (unat base) (unat (n div base))) \<le> i - 1" "i - 1 \<le> length ?b" unfolding dv using i less(3) by simp_all
    obtain b' where b': "number_loop (n div base) base (?b, i - 1) = Some (b', i - 1 - length ?d)" "length b' = length b"
      "drop (i - 1 - length ?d) b' = map ((!) digits) ?d @ drop (i - 1) ?b"
      using less(1) [OF lt h, unfolded dv] by auto
    have "drop (i - 1) ?b = (digits ! (unat n mod unat base)) # drop i b"
      using i(1) less(3) by (simp add: drop_update_swap Cons_nth_drop_Suc [symmetric] del: Cons_nth_drop_Suc)
    moreover have "base \<noteq> 0" using assms(1) by auto
    ultimately show ?thesis
      using b' False i md dv by (simp add: number_loop.simps [of n] push_def num digits_def)
  qed
qed

lemma number_text_ok:
  fixes base n :: u64
  assumes base: "base = 10 \<or> base = 16"
  defines "ds \<equiv> if n = 0 then [0] else numerals (unat base) (unat n)"
  shows "number_text n base flags = Some ((if flags AND F_NEGATIVE \<noteq> 0 then [45] else []) @ map ((!) digits) ds)"
proof -
  have b: "1 < base" "base \<le> 16" "1 < unat base" using base by auto
  have n: "unat n < 2 ^ 64" using unsigned_less [of n] by simp
  have "unat n < unat base ^ 20" using n base by auto
  then have len: "length (numerals (unat base) (unat n)) \<le> 20" using numeral_length b(3) by blast
  let ?d = "numerals (unat base) (unat n)" and ?z = "replicate 32 0 :: u8 list"
  have d16: "d < 16" if "d \<in> set ds" for d
    using that numeral_digits [OF b(3), of d "unat n"] base by (auto simp: ds_def split: if_splits)
  obtain b1 where b1: "number_loop n base (?z, 31) = Some (b1, 31 - length ?d)" "length b1 = 32"
    "drop (31 - length ?d) b1 = map ((!) digits) ?d @ [0]"
    using number_loop_ok [OF b(1,2), of n 31 ?z] len by auto
  have p0: "push 0 (replicate 32 0, 32) = Some (?z, 31)" by (simp add: push_def list_update_same_conv)
  define x1 where "x1 = (if n = 0 then (b1[30 := 48], 30) else (b1, 31 - length ?d))"
  have x1: "(if 31 - length ?d = 32 - 1 then push 48 (b1, 31 - length ?d) else Some (b1, 31 - length ?d)) = Some x1"
  proof (cases "n = 0")
    case True
    then show ?thesis by (simp add: x1_def push_def numerals.simps)
  next
    case False
    then have "0 < length ?d" using numeral_nil [OF b(3), of "unat n"] by (simp add: unat_eq_0)
    then have "31 - length ?d \<noteq> 32 - 1" using len by linarith
    then show ?thesis using False by (simp add: x1_def)
  qed
  have t1: "length (fst x1) = 32" "drop (snd x1) (fst x1) = map ((!) digits) ds @ [0]" "snd x1 = 31 - length ds" "length ds \<le> 20" "ds \<noteq> []"
  proof -
    have e: "numerals (unat base) 0 = []" by (simp add: numerals.simps)
    show "length ds \<le> 20" "ds \<noteq> []" using len numeral_nil [OF b(3), of "unat n"] by (auto simp: ds_def unat_eq_0)
    show "length (fst x1) = 32" using b1(2) by (simp add: x1_def)
    show "snd x1 = 31 - length ds" by (simp add: x1_def ds_def)
    show "drop (snd x1) (fst x1) = map ((!) digits) ds @ [0]"
    proof (cases "n = 0")
      case True
      then have "drop 31 b1 = [0]" using b1(3) e by simp
      then show ?thesis using True b1(2) by (simp add: x1_def ds_def digits_def drop_update_swap Cons_nth_drop_Suc [symmetric] del: Cons_nth_drop_Suc)
    next
      case False
      then show ?thesis using b1(3) by (simp add: x1_def ds_def)
    qed
  qed
  obtain c i where ci: "x1 = (c, i)" by (cases x1)
  have i: "0 < i" "i \<le> length c" using t1 ci by (simp_all add: Suc_le_eq) 
  have neg: "drop (i - 1) (c[i - 1 := 45]) = 45 # drop i c"
    using i by (simp add: drop_update_swap Cons_nth_drop_Suc [symmetric] del: Cons_nth_drop_Suc)
  have nz: "takeWhile (\<lambda>c. c \<noteq> 0) (map ((!) digits) ds @ [0]) = map ((!) digits) ds"
  proof -
    have "\<forall>x \<in> set (map ((!) digits) ds). x \<noteq> 0" using d16 digit_facts by auto
    then show ?thesis by (subst takeWhile_append2) auto
  qed
  have nl: "number_loop n base (?z, 31) = Some (b1, 31 - length ?d)" by (rule b1(1))
  show ?thesis
    unfolding number_text_def p0 using nl x1 neg nz t1(2) i ci
    by (simp add: push_def string_at_def)
qed

lemma read_digits: "\<forall>d \<in> set ds. d < 16 \<Longrightarrow> read_number base (map ((!) digits) ds) = foldl (\<lambda>v d. v * base + d) 0 ds"
proof -
  assume a: "\<forall>d \<in> set ds. d < 16"
  have "foldl (\<lambda>v c. v * base + read_digit c) v (map ((!) digits) ds) = foldl (\<lambda>v d. v * base + d) v ds" for v
    using a by (induction ds arbitrary: v) (simp_all add: digit_facts)
  then show ?thesis by (simp add: read_number_def)
qed

text \<open>What is printed for a number is its text, of at most 20 digits in base 10 and 16 in base 16.\<close>

lemma number_text_reads:
  assumes base: "base = 10 \<or> base = 16"
  shows "\<exists>cs. number_text n base flags = Some ((if flags AND F_NEGATIVE \<noteq> 0 then [45] else []) @ cs)
    \<and> numeral_text (unat base) (unat n) cs \<and> length cs \<le> (if base = 10 then 20 else 16)"
proof -
  have b: "1 < unat base" using base by auto
  let ?ds = "if n = 0 then [0] else numerals (unat base) (unat n)"
  have n: "unat n < unat base ^ (if base = 10 then 20 else 16)" using base unsigned_less [of n] by auto
  have b16: "unat base \<le> 16" using base by auto
  then have d: "k < unat base" "k < 16" if "k \<in> set ?ds" for k
    using that b numeral_digits [OF b, of k "unat n"] by (auto split: if_splits)
  then have d16: "\<forall>d \<in> set ?ds. d < 16" by blast
  have "read_number (unat base) (map ((!) digits) ?ds) = unat n"
    unfolding read_digits [OF d16] using numeral_value [OF b, of "unat n"] by simp
  moreover have "length ?ds \<le> (if base = 10 then 20 else 16)" using numeral_length [OF b n] by (auto split: if_splits)
  moreover have ne: "?ds \<noteq> []" using numeral_nil [OF b, of "unat n"] by (simp add: unat_eq_0)
  moreover have "map ((!) digits) ?ds = [48]" if "hd (map ((!) digits) ?ds) = 48"
  proof -
    have "digits ! hd ?ds = 48" "hd ?ds < 16" using that ne d(2) by (simp_all add: hd_map del: if_split)
    then have "hd ?ds = 0" using digit_char by blast
    then have "n = 0" using numeral_hd [OF b, of "unat n"] by (auto simp: unat_eq_0 split: if_splits)
    then show ?thesis by (simp add: digits_def)
  qed
  moreover have "(48 \<le> c \<and> c \<le> 57 \<or> 97 \<le> c \<and> c \<le> 102) \<and> read_digit c < unat base" if c: "c \<in> set (map ((!) digits) ?ds)" for c
  proof -
    obtain k where "k \<in> set ?ds" "c = digits ! k" using c by (auto simp del: if_split)
    then show ?thesis using d digit_facts digit_char by metis
  qed
  ultimately show ?thesis unfolding numeral_text_def number_text_ok [OF base, of n flags]
    by (intro exI [of _ "map ((!) digits) ?ds"] conjI ballI impI) (simp_all del: if_split)
qed

section \<open>Properties\<close>

lemma printf_string_append: "printf_string h (xs @ ys) s = Option.bind (printf_string h xs s) (printf_string h ys)"
  by (induction xs arbitrary: s) (auto split: Option.bind_splits)

lemma printf_literal:
  "37 \<notin> set pre \<Longrightarrow> printf_loop h (pre @ format) flags NORMAL args s = Option.bind (printf_string h pre s) (printf_loop h format flags NORMAL args)"
  by (induction pre arbitrary: s) (auto split: Option.bind_splits)

lemma unat_neg: "sint (n :: u64) < 0 \<Longrightarrow> int (unat (- n)) = - sint n"
proof -
  assume neg: "sint n < 0"
  have u: "0 \<le> uint n" "uint n < 2 ^ 64" using uint_lt2p [of n] by simp_all
  have big: "2 ^ 63 \<le> uint n" "sint n = uint n - 2 ^ 64" using neg u sint_u64 [of n] by (simp_all split: if_splits)
  moreover have "uint (- n) = 2 ^ 64 - uint n"
    using u big by (simp add: uint_word_ariths zmod_zminus1_eq_if)
  ultimately show ?thesis by simp
qed

lemma unat_pos: "\<not> sint (n :: u64) < 0 \<Longrightarrow> int (unat n) = sint n"
  using uint_lt2p [of n] by (simp add: sint_u64 split: if_splits)

text \<open>
  C29: printing a number.  Between text without a percent sign, the conversions of a 64-bit number never
  leave their buffer, and print the number: \<^verbatim>\<open>%ld\<close> prints a minus sign exactly for a negative number and then
  its absolute value in base 10, \<^verbatim>\<open>%lu\<close> prints the number in base 10, \<^verbatim>\<open>%lx\<close> and \<^verbatim>\<open>%p\<close> print it in base 16.  Each
  is a numeral: one digit of the base or more, without leading zeroes, that reads back as the number; zero is
  one \<open>0\<close>.
\<close>

theorem printf_numbers:
  fixes h :: "u8 \<Rightarrow> 's \<Rightarrow> 's option"
  assumes "37 \<notin> set pre" and "37 \<notin> set post"
  shows "\<exists>ds us xs. do_printf h (pre @ [37, 108, 100] @ post) [Word n] s = printf_string h (pre @ (if sint n < 0 then [45] else []) @ ds @ post) s
    \<and> numeral_text 10 (nat \<bar>sint n\<bar>) ds \<and> length ds \<le> 20
    \<and> do_printf h (pre @ [37, 108, 117] @ post) [Word n] s = printf_string h (pre @ us @ post) s
    \<and> numeral_text 10 (unat n) us \<and> length us \<le> 20
    \<and> do_printf h (pre @ [37, 108, 120] @ post) [Word n] s = printf_string h (pre @ xs @ post) s
    \<and> do_printf h (pre @ [37, 112] @ post) [Word n] s = printf_string h (pre @ xs @ post) s
    \<and> numeral_text 16 (unat n) xs \<and> length xs \<le> 16"
proof -
  let ?n = "if sint n < 0 then - n else n" and ?f = "if sint n < 0 then 3 else 2 :: u32"
  obtain ds where ds: "number_text ?n 10 ?f = Some ((if ?f AND F_NEGATIVE \<noteq> 0 then [45] else []) @ ds)" "length ds \<le> 20"
    "numeral_text (unat (10 :: u64)) (unat ?n) ds"
    using number_text_reads [of 10 ?n ?f] by auto
  obtain us where us: "number_text n 10 0 = Some us" "length us \<le> 20" "numeral_text (unat (10 :: u64)) (unat n) us"
    using number_text_reads [of 10 n 0] by auto
  obtain xs where xs: "number_text n 16 0 = Some xs" "length xs \<le> 16" "numeral_text (unat (16 :: u64)) (unat n) xs"
    using number_text_reads [of 16 n 0] by auto
  have post: "printf_loop h post fl NORMAL args t = printf_string h post t" for fl args t
    using printf_literal [OF assms(2), of h "[]" fl args t] by (cases "printf_string h post t") simp_all
  have fin: "Option.bind (printf_string h pre s) (\<lambda>t. Option.bind (Option.bind (Some cs) (\<lambda>cs. printf_string h cs t)) (\<lambda>t. printf_loop h post fl NORMAL args t))
      = printf_string h (pre @ cs @ post) s" for cs fl args
    by (cases "printf_string h pre s") (simp_all add: printf_string_append post)
  have "do_printf h (pre @ [37, 108, 100] @ post) [Word n] s
      = printf_string h (pre @ ((if ?f AND F_NEGATIVE \<noteq> 0 then [45] else []) @ ds) @ post) s"
    unfolding fin [of _ ?f "[]", symmetric] do_printf_def printf_literal [OF assms(1)] ds(1) [symmetric]
    by (cases "printf_string h pre s") (simp_all add: long_flag_def signed_arg_def printf_number_def Let_def)
  moreover have "(?f AND F_NEGATIVE \<noteq> 0) = (sint n < 0)" by simp
  moreover have "unat ?n = nat \<bar>sint n\<bar>"
  proof -
    have "int (unat ?n) = \<bar>sint n\<bar>" using unat_neg [of n] unat_pos [of n] by simp
    then show ?thesis by (metis nat_int)
  qed
  moreover have "do_printf h (pre @ [37, 108, 117] @ post) [Word n] s = printf_string h (pre @ us @ post) s"
    unfolding fin [of _ 2 "[]", symmetric] do_printf_def printf_literal [OF assms(1)] us(1) [symmetric]
    by (cases "printf_string h pre s") (simp_all add: long_flag_def unsigned_arg_def printf_number_def Let_def)
  moreover have "do_printf h (pre @ [37, 108, 120] @ post) [Word n] s = printf_string h (pre @ xs @ post) s"
    unfolding fin [of _ 2 "[]", symmetric] do_printf_def printf_literal [OF assms(1)] xs(1) [symmetric]
    by (cases "printf_string h pre s") (simp_all add: long_flag_def unsigned_arg_def printf_number_def Let_def)
  moreover have "do_printf h (pre @ [37, 112] @ post) [Word n] s = printf_string h (pre @ xs @ post) s"
    unfolding fin [of _ 0 "[]", symmetric] do_printf_def printf_literal [OF assms(1)] xs(1) [symmetric]
    by (cases "printf_string h pre s") (simp_all add: printf_number_def Let_def)
  ultimately show ?thesis using ds(2,3) us(2,3) xs(2,3)
    by (intro exI [of _ ds] exI [of _ us] exI [of _ xs]) simp
qed

text \<open>\<^verbatim>\<open>"cpu %ld!"\<close> with -42.\<close>

lemma printf_numbers_witness:
  "\<exists>ds. do_printf (\<lambda>c cs. Some (cs @ [c])) ([99, 112, 117, 32] @ [37, 108, 100] @ [33]) [Word (- 42)] []
      = printf_string (\<lambda>c cs. Some (cs @ [c])) ([99, 112, 117, 32] @ [45] @ ds @ [33]) [] \<and> numeral_text 10 42 ds"
  using printf_numbers [of "[99, 112, 117, 32]" "[33]" "\<lambda>c cs. Some (cs @ [c])" "- 42" "[]"] by auto

end
