(* ===== verification/Console.thy ===== *)
theory Console
  imports Shmem Printf CString
begin

text \<open>
  The consoles: \<^verbatim>\<open>console.c\<close>, the text screen \<^verbatim>\<open>platform/pc/src/screen.c\<close>, the serial line
  \<^verbatim>\<open>platform/pc/src/serial.c\<close>, and \<^verbatim>\<open>panic.c\<close>.  The screen is 25 lines of 80 cells in the memory of the kernel, a
  character and an attribute byte each.
\<close>

section \<open>Data\<close>

text \<open>The two \<^verbatim>\<open>struct console\<close> objects; a pointer to one of them may be NULL.\<close>

datatype console = PC_SCREEN | PC_SERIAL

record console_state = shmem_state +
  s_screen :: "console option"
  s_debug :: "console option"
  s_addr :: ptr
  s_x :: u32
  s_y :: u32

section \<open>The screen\<close>

definition update_cursor :: "'a console_state_scheme \<Rightarrow> 'a console_state_scheme" where
  "update_cursor s =
     (let tmp = s_y s * 80 + s_x s;
          s = outb 14 0x3d4 s;
          s = outb (ucast (drop_bit 8 tmp)) 0x3d5 s;
          s = outb 15 0x3d4 s
      in outb (ucast tmp) 0x3d5 s)"

definition scroll_up :: "'a console_state_scheme \<Rightarrow> 'a console_state_scheme" where
  "scroll_up s =
     (let s = s\<lparr>mem := memmove (s_addr s) (s_addr s + 80 * 2) (80 * 24 * 2) (mem s)\<rparr>;
          s = s\<lparr>mem := memsetl (s_addr s + 80 * 24 * 2) 0x07200720 (80 div 2) (mem s)\<rparr>
      in s\<lparr>s_y := s_y s - 1\<rparr>)"

definition pc_screen_clear :: "'a console_state_scheme \<Rightarrow> 'a console_state_scheme" where
  "pc_screen_clear s =
     (let s = s\<lparr>mem := memsetl (s_addr s) 0x07200720 (80 * 25 div 2) (mem s)\<rparr>;
          s = s\<lparr>s_x := 0, s_y := 0\<rparr>
      in update_cursor s)"

text \<open>13 and 10 are the carriage return and the newline.\<close>

definition pc_screen_write :: "u8 \<Rightarrow> 'a console_state_scheme \<Rightarrow> 'a console_state_scheme" where
  "pc_screen_write c s =
     (let s = (if c = 13 then s\<lparr>s_x := 0\<rparr>
               else if c = 10 then s\<lparr>s_x := 0, s_y := s_y s + 1\<rparr>
               else s\<lparr>mem := (mem s)(s_addr s + ucast ((s_y s * 80 + s_x s) * 2) := c), s_x := s_x s + 1\<rparr>);
          s = (if s_x s = 80 then s\<lparr>s_x := 0, s_y := s_y s + 1\<rparr> else s);
          s = (if s_y s = 25 then scroll_up s else s)
      in update_cursor s)"

section \<open>The serial line\<close>

text \<open>
  The wait for the line: what a device answers depends on what was written to it only, so a line that is
  not ready never becomes ready.
\<close>

definition pc_serial_write :: "u8 \<Rightarrow> 'a console_state_scheme \<Rightarrow> 'a console_state_scheme option" where
  "pc_serial_write c s = (if inb (0x3f8 + 5) s AND 0x20 = 0 then None else Some (outb c 0x3f8 s))"

section \<open>The consoles\<close>

definition console_write :: "console \<Rightarrow> u8 \<Rightarrow> 'a console_state_scheme \<Rightarrow> 'a console_state_scheme option" where
  "console_write con c s = (case con of PC_SCREEN \<Rightarrow> Some (pc_screen_write c s) | PC_SERIAL \<Rightarrow> pc_serial_write c s)"

text \<open>The serial console has no \<^verbatim>\<open>clear\<close>.\<close>

definition console_clear :: "console \<Rightarrow> 'a console_state_scheme \<Rightarrow> 'a console_state_scheme" where
  "console_clear con s = (case con of PC_SCREEN \<Rightarrow> pc_screen_clear s | PC_SERIAL \<Rightarrow> s)"

definition console_set_screen :: "console \<Rightarrow> 'a console_state_scheme \<Rightarrow> 'a console_state_scheme" where
  "console_set_screen con s = (console_clear con s)\<lparr>s_screen := Some con\<rparr>"

definition console_set_debug :: "console \<Rightarrow> 'a console_state_scheme \<Rightarrow> 'a console_state_scheme" where
  "console_set_debug con s = (console_clear con s)\<lparr>s_debug := Some con\<rparr>"

definition pc_screen_init :: "ptr \<Rightarrow> 'a console_state_scheme \<Rightarrow> 'a console_state_scheme" where
  "pc_screen_init addr s = console_set_screen PC_SCREEN (s\<lparr>s_addr := addr\<rparr>)"

definition pc_serial_init :: "'a console_state_scheme \<Rightarrow> 'a console_state_scheme" where
  "pc_serial_init s =
     (let s = outb 0x00 (0x3f8 + 1) s;
          s = outb 0x80 (0x3f8 + 3) s;
          s = outb 0x03 0x3f8 s;
          s = outb 0x00 (0x3f8 + 1) s;
          s = outb 0x03 (0x3f8 + 3) s;
          s = outb 0xc7 (0x3f8 + 2) s;
          s = outb 0x0b (0x3f8 + 4) s
      in console_set_debug PC_SERIAL s)"

section \<open>Printing\<close>

definition dprintf_helper :: "u8 \<Rightarrow> 'a console_state_scheme \<Rightarrow> 'a console_state_scheme option" where
  "dprintf_helper c s = (case s_debug s of Some con \<Rightarrow> console_write con c s | _ \<Rightarrow> Some s)"

definition kprintf_helper :: "u8 \<Rightarrow> 'a console_state_scheme \<Rightarrow> 'a console_state_scheme option" where
  "kprintf_helper c s = do {
     s \<leftarrow> (case s_screen s of Some con \<Rightarrow> console_write con c s | _ \<Rightarrow> Some s);
     case s_debug s of Some con \<Rightarrow> console_write con c s | _ \<Rightarrow> Some s
   }"

definition kprintf :: "u8 list \<Rightarrow> vararg list \<Rightarrow> 'a console_state_scheme \<Rightarrow> 'a console_state_scheme option" where
  "kprintf format args s = do {
     s \<leftarrow> spinlock_disable CONSOLE_LOCK s;
     s \<leftarrow> do_printf kprintf_helper format args s;
     Some (spinunlock_enable CONSOLE_LOCK s)
   }"

definition kprintf_unlocked :: "u8 list \<Rightarrow> vararg list \<Rightarrow> 'a console_state_scheme \<Rightarrow> 'a console_state_scheme option" where
  "kprintf_unlocked format args s = do_printf kprintf_helper format args s"

definition kvprintf_unlocked :: "u8 list \<Rightarrow> vararg list \<Rightarrow> 'a console_state_scheme \<Rightarrow> 'a console_state_scheme option" where
  "kvprintf_unlocked format args s = do_printf kprintf_helper format args s"

definition dprintf :: "u8 list \<Rightarrow> vararg list \<Rightarrow> 'a console_state_scheme \<Rightarrow> 'a console_state_scheme option" where
  "dprintf format args s = do_printf dprintf_helper format args s"

text \<open>
  A panic prints and stays in an endless loop with interrupts off: it has no result.  The first format is
  \<^verbatim>\<open>"Kernel panic at %s:%d:\n"\<close>.
\<close>

definition panic_handler :: "u8 list \<Rightarrow> u64 \<Rightarrow> u8 list \<Rightarrow> vararg list \<Rightarrow> 'a console_state_scheme \<Rightarrow> 'a console_state_scheme option" where
  "panic_handler file line format args s = do {
     let (_, s) = cpu_arch_disable_int s;
     s \<leftarrow> kprintf_unlocked [75, 101, 114, 110, 101, 108, 32, 112, 97, 110, 105, 99, 32, 97, 116, 32, 37, 115, 58, 37, 100, 58, 10] [Str file, Word line] s;
     s \<leftarrow> kvprintf_unlocked format args s;
     None
   }"

section \<open>The screen as a grid\<close>

text \<open>What is on the screen: the character in each cell, and the cursor.\<close>

type_synonym grid = "(nat \<Rightarrow> nat \<Rightarrow> u8) \<times> nat \<times> nat"

definition grid_put :: "u8 \<Rightarrow> grid \<Rightarrow> grid" where
  "grid_put c = (\<lambda>(g, x, y).
     if c = 13 then (g, 0, y)
     else if c = 10 then (g, 0, y + 1)
     else if x + 1 = 80 then (g(y := (g y)(x := c)), 0, y + 1)
     else (g(y := (g y)(x := c)), x + 1, y))"

definition grid_scroll :: "grid \<Rightarrow> grid" where
  "grid_scroll = (\<lambda>(g, x, y). if y = 25 then (\<lambda>row. if row = 24 then (\<lambda>_. 32) else g (row + 1), x, 24) else (g, x, y))"

definition grid_of :: "'a console_state_scheme \<Rightarrow> grid" where
  "grid_of s = (\<lambda>row col. mem s (s_addr s + of_nat ((row * 80 + col) * 2)), unat (s_x s), unat (s_y s))"

text \<open>Two grids with the same cursor that agree on the cells of the screen.\<close>

definition same_grid :: "grid \<Rightarrow> grid \<Rightarrow> bool" where
  "same_grid a b \<longleftrightarrow> snd a = snd b \<and> (\<forall>row < 25. \<forall>col < 80. fst a row col = fst b row col)"

definition screen_ok :: "'a console_state_scheme \<Rightarrow> bool" where
  "screen_ok s \<longleftrightarrow> unat (s_addr s) + 4000 \<le> 2 ^ 64 \<and> s_x s < 80 \<and> s_y s < 25"

lemma store_blank: "store_int p 0x07200720 m = m(p := 0x20, p + 1 := 7, p + 2 := 0x20, p + 3 := 7)"
proof -
  have "(ucast (0x07200720 :: u32) :: u8) = 0x20" "(ucast (drop_bit 8 (0x07200720 :: u32)) :: u8) = 7"
    "(ucast (drop_bit 16 (0x07200720 :: u32)) :: u8) = 0x20" "(ucast (drop_bit 24 (0x07200720 :: u32)) :: u8) = 7"
    by simp_all
  then show ?thesis by (simp only: store_int_def)
qed

text \<open>Blanking: the even bytes are spaces, the odd ones the attribute.\<close>

lemma blank_value:
  "4 * n \<le> 2 ^ 64 \<Longrightarrow> setl_up n p 0x07200720 m a = (if in_range p (4 * n) a then if even (unat (a - p)) then 0x20 else 7 else m a)"
proof (induction n arbitrary: p m)
  case (Suc n)
  let ?r = "unat (a - p)"
  have ih: "setl_up (Suc n) p 0x07200720 m a
      = (if in_range (p + 4) (4 * n) a then if even (unat (a - (p + 4))) then 0x20 else 7 else store_int p 0x07200720 m a)"
    using Suc.IH [of "p + 4" "store_int p 0x07200720 m"] Suc.prems by simp
  have d: "a - (p + 4) = (a - p) - 4" by simp
  show ?case
  proof (cases "?r < 4")
    case True
    have wrap: "unat (a - (p + 4)) = ?r + 2 ^ 64 - 4"
    proof -
      have "unat (4 :: u64) > ?r" using True by simp
      then show ?thesis unfolding d by (simp add: unat_sub_if_size word_size)
    qed
    then have out: "\<not> in_range (p + 4) (4 * n) a" using Suc.prems by (simp add: in_range_def)
    have ar: "p + of_nat ?r = a" by simp
    have "store_int p 0x07200720 m a = (if even ?r then 0x20 else 7)"
    proof -
      consider (0) "?r = 0" | (1) "?r = 1" | (2) "?r = 2" | (3) "?r = 3" using True by linarith
      then show ?thesis
      proof cases
        case 0
        then have "a = p" using ar unfolding 0 by simp
        then show ?thesis by (simp add: store_blank)
      next
        case 1
        then have "a = p + 1" using ar unfolding 1 by simp
        then show ?thesis by (simp add: store_blank)
      next
        case 2
        then have "a = p + 2" using ar unfolding 2 by simp
        then show ?thesis by (simp add: store_blank)
      next
        case 3
        then have "a = p + 3" using ar unfolding 3 by simp
        then show ?thesis by (simp add: store_blank)
      qed
    qed
    then show ?thesis unfolding ih using out True by (simp add: in_range_def)
  next
    case False
    then have u: "unat (a - (p + 4)) = ?r - 4" unfolding d by (simp add: unat_sub_if_size word_size)
    then have ir: "in_range (p + 4) (4 * n) a \<longleftrightarrow> in_range p (4 * Suc n) a" using False by (auto simp: in_range_def)
    have ev: "even (unat (a - (p + 4))) \<longleftrightarrow> even ?r" unfolding u using False by simp
    have "a \<noteq> p" "a \<noteq> p + 1" "a \<noteq> p + 2" "a \<noteq> p + 3" using False by auto
    then have "store_int p 0x07200720 m a = m a" unfolding store_blank by simp
    then show ?thesis unfolding ih ir ev by simp
  qed
qed simp

lemma screen_address: "unat (p :: u64) + 4000 \<le> 2 ^ 64 \<Longrightarrow> k < 4000 \<Longrightarrow> unat (p + of_nat k) = unat p + k"
  by (simp add: unat_word_ariths(1) unat_of_nat)

text \<open>Scrolling: every line moves up by one and the last one is blank.\<close>

lemma scroll_up_mem:
  assumes "unat (s_addr s) + 4000 \<le> 2 ^ 64" and "k < 4000"
  shows "mem (scroll_up s) (s_addr s + of_nat k) = (if k < 3840 then mem s (s_addr s + of_nat (k + 160)) else if even k then 0x20 else 7)"
    and "\<not> in_range (s_addr s) 4000 a \<Longrightarrow> mem (scroll_up s) a = mem s a"
proof -
  let ?p = "s_addr s" and ?m = "copy_up 3840 (s_addr s) (s_addr s + 160) (mem s)"
  have lt: "?p < ?p + 160" using screen_address [OF assms(1), of 160] by (simp add: word_less_nat_alt)
  have m: "mem (scroll_up s) = setl_up 40 (?p + 3840) 0x07200720 ?m"
    using lt by (simp add: scroll_up_def memmove_def memsetl_def)
  have ir: "in_range (?p + 3840) (4 * 40) (?p + of_nat j) \<longleftrightarrow> 3840 \<le> j" if "j < 4000" for j
  proof -
    have e: "?p + of_nat j - (?p + 3840) = of_nat j - 3840" by simp
    have "unat (of_nat j :: u64) = j" using that by (simp add: unat_of_nat)
    then show ?thesis unfolding in_range_def e using that by (auto simp: unat_sub_if_size word_size)
  qed
  have off: "unat (?p + of_nat j - (?p + 3840)) = j - 3840" if "3840 \<le> j" "j < 4000" for j
  proof -
    have e: "?p + of_nat j - (?p + 3840) = of_nat j - 3840" by simp
    have "unat (of_nat j :: u64) = j" using that by (simp add: unat_of_nat)
    then show ?thesis unfolding e using that by (simp add: unat_sub_if_size word_size)
  qed
  have apart: "?p + of_nat i \<noteq> ?p + 160 + of_nat j" if "i < j" "j < 3840" for i j
  proof -
    have "unat (?p + of_nat i) = unat ?p + i" "unat (?p + of_nat (160 + j)) = unat ?p + (160 + j)"
      using screen_address [OF assms(1), of i] screen_address [OF assms(1), of "160 + j"] that by simp_all
    then have "unat (?p + of_nat i) \<noteq> unat (?p + of_nat (160 + j))" using that by linarith
    moreover have "?p + 160 + of_nat j = ?p + of_nat (160 + j)" by simp
    ultimately show ?thesis by metis
  qed
  have cp: "?m (?p + of_nat j) = mem s (?p + 160 + of_nat j)" if "j < 3840" for j
    by (rule copy_up_value) (use that apart in auto)
  have out: "?m a = mem s a" if "\<not> in_range ?p 3840 a" for a using that by (rule copy_up_outside) simp
  show "mem (scroll_up s) (?p + of_nat k) = (if k < 3840 then mem s (?p + of_nat (k + 160)) else if even k then 0x20 else 7)"
  proof (cases "k < 3840")
    case True
    then show ?thesis using blank_value [of 40 "?p + 3840" ?m "?p + of_nat k"] ir [OF assms(2)] cp [OF True] by (simp add: m algebra_simps)
  next
    case False
    then show ?thesis using blank_value [of 40 "?p + 3840" ?m "?p + of_nat k"] ir [OF assms(2)] off [of k] assms(2) by (simp add: m)
  qed
  show "mem (scroll_up s) a = mem s a" if "\<not> in_range ?p 4000 a"
  proof -
    have "\<not> in_range (?p + 3840) (4 * 40) a"
    proof
      assume r: "in_range (?p + 3840) (4 * 40) a"
      have e: "a - (?p + 3840) = (a - ?p) - 3840" by simp
      have "4000 \<le> unat (a - ?p)" using that by (simp add: in_range_def)
      then show False using r unfolding in_range_def e by (simp add: unat_sub_if_size word_size)
    qed
    moreover have "\<not> in_range ?p 3840 a" using that by (simp add: in_range_def)
    ultimately show ?thesis using blank_value [of 40 "?p + 3840" ?m a] out [of a] by (simp add: m)
  qed
qed

text \<open>A character that does not scroll yet; the cursor may be below the last line.\<close>

definition screen_put :: "u8 \<Rightarrow> 'a console_state_scheme \<Rightarrow> 'a console_state_scheme" where
  "screen_put c s =
     (let s = (if c = 13 then s\<lparr>s_x := 0\<rparr>
               else if c = 10 then s\<lparr>s_x := 0, s_y := s_y s + 1\<rparr>
               else s\<lparr>mem := (mem s)(s_addr s + ucast ((s_y s * 80 + s_x s) * 2) := c), s_x := s_x s + 1\<rparr>)
      in if s_x s = 80 then s\<lparr>s_x := 0, s_y := s_y s + 1\<rparr> else s)"

lemma pc_screen_write_put:
  "pc_screen_write c s = update_cursor (if s_y (screen_put c s) = 25 then scroll_up (screen_put c s) else screen_put c s)"
  by (simp add: pc_screen_write_def screen_put_def Let_def)

lemma update_cursor_simps [simp]:
  "mem (update_cursor s) = mem s" "s_x (update_cursor s) = s_x s" "s_y (update_cursor s) = s_y s" "s_addr (update_cursor s) = s_addr s"
  by (simp_all add: update_cursor_def outb_def Let_def)

lemma unat_same: "(a :: u32) = b \<longleftrightarrow> unat a = unat b"
  by (auto intro: unsigned_word_eqI)

lemma cell_address:
  assumes "unat (y :: u32) < 25" and "unat (x :: u32) < 80"
  shows "(ucast ((y * 80 + x) * 2) :: u64) = of_nat ((unat y * 80 + unat x) * 2)"
proof -
  have "unat ((y * 80 + x) * 2) = (unat y * 80 + unat x) * 2" using assms by (simp add: unat_word_ariths(1,2))
  moreover have "unat (ucast ((y * 80 + x) * 2) :: u64) = unat ((y * 80 + x) * 2)"
    by (rule unat_ucast_u32)
  ultimately have "unat (ucast ((y * 80 + x) * 2) :: u64) = (unat y * 80 + unat x) * 2" by (simp only:)
  then show ?thesis by (metis of_nat_unat ucast_id)
qed

lemma cell_inj:
  assumes "unat (p :: u64) + 4000 \<le> 2 ^ 64" and "row < 25" "col < 80" "row' < 25" "col' < 80"
  shows "p + of_nat ((row * 80 + col) * 2) = p + of_nat ((row' * 80 + col') * 2) \<longleftrightarrow> row = row' \<and> col = col'"
proof
  assume e: "p + of_nat ((row * 80 + col) * 2) = p + of_nat ((row' * 80 + col') * 2)"
  have "unat (p + of_nat ((row * 80 + col) * 2)) = unat p + (row * 80 + col) * 2"
    by (rule screen_address [OF assms(1)]) (use assms(2,3) in auto)
  moreover have "unat (p + of_nat ((row' * 80 + col') * 2)) = unat p + (row' * 80 + col') * 2"
    by (rule screen_address [OF assms(1)]) (use assms(4,5) in auto)
  ultimately have "unat p + (row * 80 + col) * 2 = unat p + (row' * 80 + col') * 2" using e by metis
  then have k: "row * 80 + col = row' * 80 + col'" by simp
  then have "(row * 80 + col) div 80 = (row' * 80 + col') div 80" "(row * 80 + col) mod 80 = (row' * 80 + col') mod 80" by simp_all
  then show "row = row' \<and> col = col'" using assms(3,5) by simp
qed simp

lemma screen_put_ok:
  fixes s :: "'a console_state_scheme" and c :: u8
  assumes "screen_ok s"
  defines "s' \<equiv> screen_put c s"
  shows "s_addr s' = s_addr s" and "s_x s' < 80" and "unat (s_y s') \<le> 25"
    and "same_grid (grid_of s') (grid_put c (grid_of s))"
    and "\<not> in_range (s_addr s) 4000 a \<Longrightarrow> mem s' a = mem s a"
proof -
  have ok: "unat (s_addr s) + 4000 \<le> 2 ^ 64" "unat (s_x s) < 80" "unat (s_y s) < 25" using assms(1) by (simp_all add: screen_ok_def word_less_nat_alt)
  have ux: "unat (s_x s + 1) = unat (s_x s) + 1" "unat (s_y s + 1) = unat (s_y s) + 1" using ok by (simp_all add: unat_word_ariths(1))
  have "unat (80 :: u32) = 80" by simp
  then have x80: "s_x s + 1 = 80 \<longleftrightarrow> unat (s_x s) + 1 = 80" "s_x s \<noteq> 80" using ux(1) ok(2) unat_same [of "s_x s + 1" 80] by auto
  define cell where "cell = s_addr s + of_nat ((unat (s_y s) * 80 + unat (s_x s)) * 2)"
  have put: "s' = (if c = 13 then s\<lparr>s_x := 0\<rparr> else if c = 10 then s\<lparr>s_x := 0, s_y := s_y s + 1\<rparr>
      else if unat (s_x s) + 1 = 80 then s\<lparr>mem := (mem s)(cell := c), s_x := 0, s_y := s_y s + 1\<rparr>
      else s\<lparr>mem := (mem s)(cell := c), s_x := s_x s + 1\<rparr>)"
    unfolding s'_def screen_put_def Let_def cell_address [OF ok(3,2)] cell_def [symmetric] using x80 by (auto simp del: of_nat_mult of_nat_add)
  show "s_addr s' = s_addr s" unfolding put by simp
  show "s_x s' < 80" unfolding put using ok ux x80 by (auto simp: word_less_nat_alt)
  show "unat (s_y s') \<le> 25" unfolding put using ok ux by auto
  have k: "(unat (s_y s) * 80 + unat (s_x s)) * 2 < 4000" using ok(2,3) by auto
  have inr: "in_range (s_addr s) 4000 cell"
    unfolding cell_def in_range_def add_diff_cancel_left' using k by (simp add: unat_of_nat del: of_nat_mult of_nat_add)
  show "mem s' a = mem s a" if "\<not> in_range (s_addr s) 4000 a"
    using that inr unfolding put by auto
  have cell: "s_addr s + of_nat ((row * 80 + col) * 2) = cell \<longleftrightarrow> row = unat (s_y s) \<and> col = unat (s_x s)" if "row < 25" "col < 80" for row col
    unfolding cell_def by (rule cell_inj [OF ok(1) that ok(3,2)])
  show "same_grid (grid_of s') (grid_put c (grid_of s))"
    unfolding put same_grid_def grid_put_def grid_of_def using cell ux by (auto simp del: of_nat_mult of_nat_add)
qed

text \<open>The whole write.\<close>

lemma pc_screen_write_ok:
  fixes s :: "'a console_state_scheme" and c :: u8
  assumes ok: "screen_ok s"
  shows "screen_ok (pc_screen_write c s)" and "s_addr (pc_screen_write c s) = s_addr s"
    and "same_grid (grid_of (pc_screen_write c s)) (grid_scroll (grid_put c (grid_of s)))"
    and "\<not> in_range (s_addr s) 4000 a \<Longrightarrow> mem (pc_screen_write c s) a = mem s a"
proof -
  let ?s = "screen_put c s"
  note put = screen_put_ok [OF ok, where c = c]
  have ad: "unat (s_addr ?s) + 4000 \<le> 2 ^ 64" using ok put(1) by (simp add: screen_ok_def)
  have "unat (25 :: u32) = 25" by simp
  then have y25: "s_y ?s = 25 \<longleftrightarrow> unat (s_y ?s) = 25" using unat_same [of "s_y ?s" 25] by simp
  have sc: "s_x (scroll_up ?s) = s_x ?s" "s_y (scroll_up ?s) = s_y ?s - 1" "s_addr (scroll_up ?s) = s_addr ?s"
    by (simp_all add: scroll_up_def Let_def)
  have y24: "s_y ?s = 25 \<Longrightarrow> s_y ?s - 1 = 24" by simp
  show "screen_ok (pc_screen_write c s)"
    unfolding pc_screen_write_put screen_ok_def using put(1-3) ad y25 sc y24 by (auto simp: word_less_nat_alt)
  show "s_addr (pc_screen_write c s) = s_addr s" unfolding pc_screen_write_put using put(1) sc by simp
  show "mem (pc_screen_write c s) a = mem s a" if "\<not> in_range (s_addr s) 4000 a"
    unfolding pc_screen_write_put using put(5) [OF that] scroll_up_mem(2) [OF ad, where k = 0 and a = a] that put(1) by simp
  have g: "snd (grid_of ?s) = snd (grid_put c (grid_of s))" "\<forall>row < 25. \<forall>col < 80. fst (grid_of ?s) row col = fst (grid_put c (grid_of s)) row col"
    using put(4) by (simp_all add: same_grid_def)
  obtain G X Y where G: "grid_put c (grid_of s) = (G, X, Y)" by (cases "grid_put c (grid_of s)")
  have XY: "unat (s_x ?s) = X" "unat (s_y ?s) = Y" using g(1) G by (simp_all add: grid_of_def)
  have cells: "mem ?s (s_addr ?s + of_nat ((row * 80 + col) * 2)) = G row col" if "row < 25" "col < 80" for row col
    using g(2) that G by (simp add: grid_of_def)
  show "same_grid (grid_of (pc_screen_write c s)) (grid_scroll (grid_put c (grid_of s)))"
  proof (cases "s_y ?s = 25")
    case False
    then have "pc_screen_write c s = update_cursor ?s" "Y \<noteq> 25" using y25 XY by (simp_all add: pc_screen_write_put)
    moreover from this(2) have "grid_scroll (grid_put c (grid_of s)) = (G, X, Y)" by (simp add: G grid_scroll_def)
    ultimately show ?thesis using cells XY by (simp add: same_grid_def grid_of_def del: of_nat_mult of_nat_add)
  next
    case True
    then have run: "pc_screen_write c s = update_cursor (scroll_up ?s)" "Y = 25" using y25 XY by (simp_all add: pc_screen_write_put)
    have "mem (scroll_up ?s) (s_addr ?s + of_nat ((row * 80 + col) * 2)) = (if row = 24 then 32 else G (row + 1) col)" if r: "row < 25" "col < 80" for row col
    proof -
      have k: "(row * 80 + col) * 2 < 4000" "(row * 80 + col) * 2 < 3840 \<longleftrightarrow> row \<noteq> 24" using r by auto
      have e: "(row * 80 + col) * 2 + 160 = ((row + 1) * 80 + col) * 2" by simp
      show ?thesis
        using scroll_up_mem(1) [OF ad k(1)] k(2) cells [of "row + 1" col] r unfolding e by (auto simp del: of_nat_mult of_nat_add)
    qed
    moreover have "grid_scroll (grid_put c (grid_of s)) = (\<lambda>row. if row = 24 then (\<lambda>_. 32) else G (row + 1), X, 24)"
      using run(2) by (simp add: G grid_scroll_def)
    ultimately show ?thesis using run sc XY True y24
      by (simp add: same_grid_def grid_of_def del: of_nat_mult of_nat_add)
  qed
qed

text \<open>A text on the screen, and on a grid.\<close>

definition screen_text :: "u8 list \<Rightarrow> 'a console_state_scheme \<Rightarrow> 'a console_state_scheme" where
  "screen_text str s = foldl (\<lambda>s c. pc_screen_write c s) s str"

definition grid_text :: "u8 list \<Rightarrow> grid \<Rightarrow> grid" where
  "grid_text str g = foldl (\<lambda>g c. grid_scroll (grid_put c g)) g str"

lemma same_grid_step: "same_grid a b \<Longrightarrow> same_grid (grid_scroll (grid_put c a)) (grid_scroll (grid_put c b))"
  by (cases a; cases b) (auto simp: same_grid_def grid_put_def grid_scroll_def)

lemma same_grid_text: "same_grid a b \<Longrightarrow> same_grid (grid_text str a) (grid_text str b)"
  by (induction str arbitrary: a b) (simp_all add: grid_text_def same_grid_step)

lemma same_grid_trans: "same_grid a b \<Longrightarrow> same_grid b c \<Longrightarrow> same_grid a c"
  by (simp add: same_grid_def)

lemma printf_screen: "printf_string (\<lambda>c s. Some (pc_screen_write c s)) str s = Some (screen_text str s)"
  by (induction str arbitrary: s) (simp_all add: screen_text_def)

section \<open>Properties\<close>

text \<open>
  C30: the screen shows the text.  Writing a text to the screen has the effect of the same writes on a grid
  of 25 lines of 80 characters, with the cursor, the line breaks and the scrolling; the cursor stays inside
  the screen and no byte outside its 4000 is written.
\<close>

theorem screen_shows:
  fixes s :: "'a console_state_scheme"
  assumes "screen_ok s"
  shows "same_grid (grid_of (screen_text str s)) (grid_text str (grid_of s)) \<and> screen_ok (screen_text str s)
    \<and> (\<forall>a. \<not> in_range (s_addr s) 4000 a \<longrightarrow> mem (screen_text str s) a = mem s a)"
  using assms
proof (induction str arbitrary: s)
  case Nil
  then show ?case by (simp add: screen_text_def grid_text_def same_grid_def)
next
  case (Cons c str)
  note w = pc_screen_write_ok [OF Cons.prems, where c = c]
  have "same_grid (grid_text str (grid_of (pc_screen_write c s))) (grid_text (c # str) (grid_of s))"
    using same_grid_text [OF w(3), of str] by (simp add: grid_text_def)
  moreover have "screen_text (c # str) s = screen_text str (pc_screen_write c s)" by (simp add: screen_text_def)
  ultimately show ?case using Cons.IH [OF w(1)] w(2,4) same_grid_trans by metis
qed

abbreviation (input) sample_console :: console_state where
  "sample_console \<equiv> shmem_state.extend sample_shmems \<lparr>s_screen = Some PC_SCREEN, s_debug = None, s_addr = PHYS_MAP_BASE + 0xb8000, s_x = 78, s_y = 24\<rparr>"

text \<open>"ok" at the end of the last line scrolls.\<close>

lemma screen_shows_witness:
  "snd (grid_of (screen_text [111, 107] sample_console)) = (0, 24) \<and> fst (grid_of (screen_text [111, 107] sample_console)) 23 79 = 107
     \<and> fst (grid_of (screen_text [111, 107] sample_console)) 24 0 = 32"
proof -
  define s where "s = sample_console"
  have f: "s_x s = 78" "s_y s = 24" "s_addr s = PHYS_MAP_BASE + 0xb8000" by (simp_all add: s_def shmem_state.defs shmem_defs)
  then have "screen_ok s" by (simp add: screen_ok_def)
  then have sg: "same_grid (grid_of (screen_text [111, 107] s)) (grid_text [111, 107] (grid_of s))" using screen_shows by blast
  define g where "g = fst (grid_of s)"
  have "grid_of s = (g, 78, 24)" by (simp add: g_def grid_of_def f)
  moreover have "grid_text [111, 107] (g, 78, 24)
      = (\<lambda>row. if row = 24 then (\<lambda>_. 32) else (g(24 := (g 24)(78 := 111, 79 := 107))) (row + 1), 0, 24)"
    by (simp add: grid_text_def grid_put_def grid_scroll_def)
  ultimately have "same_grid (grid_of (screen_text [111, 107] s))
      (\<lambda>row. if row = 24 then (\<lambda>_. 32) else (g(24 := (g 24)(78 := 111, 79 := 107))) (row + 1), 0, 24)" using sg by (simp only:)
  note both = this [unfolded same_grid_def fst_conv snd_conv]
  note g = conjunct1 [OF both] conjunct2 [OF both]
  show ?thesis unfolding s_def [symmetric] using g(1) g(2) [rule_format, of 23 79] g(2) [rule_format, of 24 0] by simp
qed

end
