(* ===== verification/Dispatch.thy ===== *)
theory Dispatch
  imports Console
begin

text \<open>
  The ways into the kernel: the dispatch of hardware interrupts (\<^verbatim>\<open>cpu/irq.c\<close>, \<^verbatim>\<open>arch/cpu/irq.c\<close>), the
  exceptions (\<^verbatim>\<open>arch/exception.c\<close>) and the system calls (\<^verbatim>\<open>syscall.c\<close>, \<^verbatim>\<open>arch/syscall.c\<close>).
\<close>

text \<open>Text of the code as bytes.\<close>

definition asc :: "string \<Rightarrow> u8 list" where
  "asc t = map of_char t"

section \<open>Hardware interrupts\<close>

text \<open>
  \<^verbatim>\<open>irq_handle\<close>: \<open>Blocked\<close> is the control at another thread.  The handler of the timer, \<open>sched_irq\<close>, is the only
  function that the kernel registers; it ends the interrupt itself and does not come back.  The last four
  words of the message to a server are not initialised: \<open>junk\<close> is what the stack holds.
\<close>

definition irq_handle :: "u64 list \<Rightarrow> u32 \<Rightarrow> ptr \<Rightarrow> 'a console_state_scheme \<Rightarrow> (int outcome \<times> 'a console_state_scheme) option" where
  "irq_handle junk irq ctx s =
     (if \<not> irq_valid irq then None
      else case s_irq_table s (unat irq) of
        KERNEL handler data \<Rightarrow>
          (case handler of
             SCHED_IRQ \<Rightarrow> do {
               s \<leftarrow> sched_irq ctx s;
               Some (Blocked, s)
             }
           | _ \<Rightarrow> None)
      | SERVER port \<Rightarrow> do {
          (r, s) \<leftarrow> ipc_port_send port ([1, scast irq] @ junk) 0 s;
          s \<leftarrow> (if r \<noteq> 0 then dprintf (asc ''irq: unable to send message to the requested port'') [] s else Some s);
          Some (Done 0, s)
        }
      | NONE \<Rightarrow> None)"

definition arch_irq_handler :: "u64 list \<Rightarrow> ptr \<Rightarrow> 'a console_state_scheme \<Rightarrow> (unit outcome \<times> 'a console_state_scheme) option" where
  "arch_irq_handler junk ctx s = do {
     let irq = (ucast (int_num (irq_ctxs s ctx) - 0x20) :: u32);
     let (spurious, s) = (if pic_is_masked irq s then let (real, s) = pic_is_irq_real irq s in (\<not> real, s) else (False, s));
     if spurious then do {
       s \<leftarrow> kprintf (asc ''irq: received spurious IRQ: %d'' @ [10]) [Word (ucast irq)] s;
       Some (Done (), s)
     }
     else do {
       (r, s) \<leftarrow> irq_handle junk irq ctx s;
       Some (case r of Done _ \<Rightarrow> Done () | Blocked \<Rightarrow> Blocked, s)
     }
   }"

section \<open>Exceptions\<close>

definition dump_process :: "'a console_state_scheme \<Rightarrow> 'a console_state_scheme option" where
  "dump_process s =
     (let t = thread_current s
      in if t = NULL then kprintf_unlocked (asc ''Thread: <unknown>'' @ [10]) [] s
         else do {
           s \<leftarrow> (if t_proc (threads s t) \<noteq> NULL
                 then kprintf_unlocked (asc ''Process: %s'' @ [10]) [Str (p_name (processes s (t_proc (threads s t))))] s else Some s);
           kprintf_unlocked (asc ''Thread: %s'' @ [10]) [Str (t_name (threads s t))] s
         })"

text \<open>The macro \<^verbatim>\<open>UNHANDLED_EXCEPTION\<close> in the function of the given name and line: it ends in a panic.\<close>

definition unhandled_exception :: "string \<Rightarrow> u64 \<Rightarrow> ptr \<Rightarrow> 'a console_state_scheme \<Rightarrow> 'a console_state_scheme option" where
  "unhandled_exception fn line ctx s = do {
     let (_, s) = cpu_arch_disable_int s;
     s \<leftarrow> dump_process s;
     s \<leftarrow> kprintf_unlocked (asc ''CS:EIP=%x:%p'' @ [10]) [Word (cs (irq_ctxs s ctx)), Word (ip (irq_ctxs s ctx))] s;
     panic_handler (asc ''arch/amd64/src/exception.c'') line (asc ''%s: unhandled exception!'' @ [10]) [Str (asc fn)] s
   }"

definition isr_division_by_zero :: "ptr \<Rightarrow> 'a console_state_scheme \<Rightarrow> 'a console_state_scheme option" where
  "isr_division_by_zero ctx s = unhandled_exception ''isr_division_by_zero'' 54 ctx s"

definition isr_debug_exception :: "ptr \<Rightarrow> 'a console_state_scheme \<Rightarrow> 'a console_state_scheme option" where
  "isr_debug_exception ctx s = unhandled_exception ''isr_debug_exception'' 60 ctx s"

definition isr_invalid_opcode :: "ptr \<Rightarrow> 'a console_state_scheme \<Rightarrow> 'a console_state_scheme option" where
  "isr_invalid_opcode ctx s = unhandled_exception ''isr_invalid_opcode'' 66 ctx s"

definition isr_device_not_available :: "ptr \<Rightarrow> 'a console_state_scheme \<Rightarrow> 'a console_state_scheme option" where
  "isr_device_not_available ctx s = unhandled_exception ''isr_device_not_available'' 72 ctx s"

definition isr_general_protection :: "ptr \<Rightarrow> 'a console_state_scheme \<Rightarrow> 'a console_state_scheme option" where
  "isr_general_protection ctx s = unhandled_exception ''isr_general_protection'' 78 ctx s"

definition isr_fpu_exception :: "ptr \<Rightarrow> 'a console_state_scheme \<Rightarrow> 'a console_state_scheme option" where
  "isr_fpu_exception ctx s = unhandled_exception ''isr_fpu_exception'' 84 ctx s"

definition isr_sse_exception :: "ptr \<Rightarrow> 'a console_state_scheme \<Rightarrow> 'a console_state_scheme option" where
  "isr_sse_exception ctx s = unhandled_exception ''isr_sse_exception'' 90 ctx s"

definition isr_page_fault :: "ptr \<Rightarrow> 'a console_state_scheme \<Rightarrow> 'a console_state_scheme option" where
  "isr_page_fault ctx s = unhandled_exception ''isr_page_fault'' 96 ctx s"

section \<open>System calls\<close>

text \<open>
  The memory of the caller, as the calls read it through the pointers they are given: the six words of a
  message, a string, a word.  What a call writes through its pointers is part of its result.
\<close>

record user_memory =
  um_msg :: "u64 \<Rightarrow> u64 list"
  um_str :: "u64 \<Rightarrow> u8 list"
  um_word :: "u64 \<Rightarrow> u64"

datatype user_write = Write_words u64 "u64 list" | Write_int u64 u32

type_synonym sysresult = "int \<times> user_write list"

definition sys_dprintf :: "u8 list \<Rightarrow> 'a console_state_scheme \<Rightarrow> (int \<times> 'a console_state_scheme) option" where
  "sys_dprintf msg s = do {
     s \<leftarrow> kprintf (asc ''%s'') [Str msg] s;
     Some (0, s)
   }"

text \<open>The results of the calls in the form of \<open>sysresult\<close>.\<close>

definition plain :: "(int \<times> 's) option \<Rightarrow> (sysresult outcome \<times> 's) option" where
  "plain = map_option (\<lambda>(r, s). (Done (r, []), s))"

definition storing :: "('r \<Rightarrow> user_write list) \<Rightarrow> ((int \<times> 'r option) outcome \<times> 's) option \<Rightarrow> (sysresult outcome \<times> 's) option" where
  "storing w = map_option (\<lambda>(x, s). (case x of Done (r, y) \<Rightarrow> Done (r, case y of None \<Rightarrow> [] | Some y \<Rightarrow> w y) | Blocked \<Rightarrow> Blocked, s))"

definition with_base :: "u64 \<Rightarrow> ((int \<times> u64) outcome \<times> 's) option \<Rightarrow> (sysresult outcome \<times> 's) option" where
  "with_base p = map_option (\<lambda>(x, s). (case x of Done (r, b) \<Rightarrow> Done (r, [Write_words p [b]]) | Blocked \<Rightarrow> Blocked, s))"

text \<open>
  The table and the call through it.  Every entry is called as a function of type \<^verbatim>\<open>long\<close>.  \<^verbatim>\<open>sys_irq_register\<close> and
  \<^verbatim>\<open>sys_irq_finished\<close> have type \<^verbatim>\<open>int\<close>: they only define the low half of the register that holds the result, and the
  upper half \<open>up\<close> is whatever they leave there.
\<close>

definition int_as_long :: "u32 \<Rightarrow> int \<Rightarrow> int" where
  "int_as_long up r = sint (push_bit 32 (ucast up) OR ucast (of_int r :: u32) :: u64)"

text \<open>
  The parameters of type \<^verbatim>\<open>int\<close> are the low halves of the registers.  \<open>sys_thread_exit\<close> does not come back; \<open>sys_ipc_port_receive\<close> stores the sender unless the pointer
  is NULL.
\<close>

definition do_syscall ::
  "user_memory \<Rightarrow> u32 \<Rightarrow> u64 \<Rightarrow> u64 \<Rightarrow> u64 \<Rightarrow> u64 \<Rightarrow> 'a console_state_scheme \<Rightarrow> (sysresult outcome \<times> 'a console_state_scheme) option" where
  "do_syscall um up p1 p2 p3 p4 s =
     (if p1 \<ge> 17 then Some (Done (-1, []), s)
      else if p1 = 0 then plain (sys_ipc_port_create s)
      else if p1 = 1 then plain (sys_ipc_port_delete (ucast p2) s)
      else if p1 = 2 then plain (sys_ipc_port_send (ucast p2) (um_msg um p3) s)
      else if p1 = 3 then storing (\<lambda>(data, sender). Write_words p3 data # (if p4 \<noteq> NULL then [Write_int p4 sender] else []))
        (sys_ipc_port_receive (ucast p2) s)
      else if p1 = 4 then storing (\<lambda>base. [Write_words p3 [base]]) (sys_ipc_shmem_create p2 s)
      else if p1 = 5 then storing (\<lambda>(base, sz). [Write_words p3 [base], Write_words p4 [sz]]) (sys_ipc_shmem_accept (ucast p2) s)
      else if p1 = 6 then plain (Some (sys_ipc_shmem_close (ucast p2), s))
      else if p1 = 7 then plain (sys_ipc_server_register (um_str um p2) (ucast p3) s)
      else if p1 = 8 then map_option (\<lambda>(x, s). (case x of Done r \<Rightarrow> Done (r, []) | Blocked \<Rightarrow> Blocked, s))
        (sys_ipc_server_lookup (um_str um p2) ((ucast p3 :: u32) \<noteq> 0) s)
      else if p1 = 9 then plain (Some (apfst (int_as_long up) (sys_irq_register (ucast p2) (ucast p3) s)))
      else if p1 = 10 then plain (Some (apfst (int_as_long up) (sys_irq_finished (ucast p2) s)))
      else if p1 = 11 then map_option (\<lambda>(r, stat, s). (Done (r, [Write_words p2 [memory_size stat, used_size stat]]), s)) (sys_pmm_get_statistics s)
      else if p1 = 12 then with_base p4 (sys_vmm_map p2 p3 (um_word um p4) s)
      else if p1 = 13 then with_base p3 (sys_vmm_alloc p2 (um_word um p3) s)
      else if p1 = 14 then map_option (Pair Blocked) (sys_thread_exit (ucast p2) s)
      else if p1 = 15 then map_option (\<lambda>(r, n, s). (Done (r, [Write_words p2 [of_nat n]]), s)) (sys_thread_get_statistics s)
      else plain (sys_dprintf (um_str um p2) s))"

text \<open>The result goes to the register \<open>rax\<close> of the caller.\<close>

definition arch_syscall_handler ::
  "user_memory \<Rightarrow> u32 \<Rightarrow> ptr \<Rightarrow> 'a console_state_scheme \<Rightarrow> (user_write list outcome \<times> 'a console_state_scheme) option" where
  "arch_syscall_handler um up ctx s = do {
     let c = irq_ctxs s ctx;
     (x, s) \<leftarrow> do_syscall um up (rax c) (rbx c) (rcx c) (rdx c) s;
     case x of
       Blocked \<Rightarrow> Some (Blocked, s)
     | Done (r, w) \<Rightarrow> Some (Done w, s\<lparr>irq_ctxs := (irq_ctxs s)(ctx := (irq_ctxs s ctx)\<lparr>rax := of_int r\<rparr>)\<rparr>)
   }"

section \<open>Property\<close>

text \<open>
  C31: an interrupt of a line that belongs to a server becomes a message.  \<^verbatim>\<open>arch_irq_handler\<close> on vector 0x20 + n,
  with the line not masked and the port of the server existing, ends with the state after one kernel message:
  the first two words are 1 and n, its sender is 0, it is the last at the port and the first thread that waited
  there is ready; the other mailboxes are kept.  The message is lost only when there is no memory for it.
\<close>

theorem irq_becomes_message:
  assumes "port_inv s Ob U ts ws ms" and "mailbox s port = Some xs"
    and "s_irq_table s (unat irq) = SERVER port" and "irq < 16" and "\<not> pic_is_masked irq s"
    and "int_num (irq_ctxs s ctx) = 0x20 + ucast irq"
  shows "\<exists>r s'. ipc_port_send port ([1, ucast irq] @ junk) 0 s = Some (r, s')
    \<and> (if r = 0
       then arch_irq_handler junk ctx s = Some (Done (), s')
         \<and> mailbox s' = (mailbox s)(port \<mapsto> xs @ [([1, ucast irq] @ junk, 0)])
         \<and> (\<exists>Ob' ms' p. port_inv s' Ob' U (ts @ take 1 (ws p)) (ws(p := tl (ws p))) ms' \<and> hd (port_view s port) = p
              \<and> (\<forall>t vs. ws p = t # vs \<longrightarrow> t_state (threads s' t) = READY))
       else mailbox s' = mailbox s \<and> free_stack s = [])"
proof -
  have n: "unat irq < 16" using assms(4) by (simp add: word_less_nat_alt)
  have sx: "(scast irq :: u64) = ucast irq" "irq_valid irq"
  proof -
    have "uint irq < 16" using assms(4) by (simp add: word_less_def)
    then have sn: "sint irq = int (unat irq)" by (simp add: sint_u32)
    show "irq_valid irq" using assms(4) by (simp add: irq_valid_iff)
    show "(scast irq :: u64) = ucast irq" by (metis sn of_int_of_nat_eq of_int_sint of_nat_unat)
  qed
  have num: "(ucast (int_num (irq_ctxs s ctx) - 0x20) :: u32) = irq"
  proof -
    have "(ucast (ucast irq :: u64) :: u32) = irq" by (rule bit_word_eqI) (simp add: bit_simps)
    then show ?thesis using assms(6) by simp
  qed
  obtain r s' where send: "ipc_port_send port ([1, ucast irq] @ junk) 0 s = Some (r, s')"
    and res: "if r = 0
       then \<exists>p xs Ob' ms'. mailbox s port = Some xs \<and> hd (port_view s port) = p \<and> mailbox s' = (mailbox s)(port \<mapsto> xs @ [([1, ucast irq] @ junk, 0)])
         \<and> port_inv s' Ob' U (ts @ take 1 (ws p)) (ws(p := tl (ws p))) ms'
         \<and> (\<forall>t vs. ws p = t # vs \<longrightarrow> t_state (threads s' t) = READY)
       else r = -1 \<and> port_inv s' Ob U ts ws ms \<and> mailbox s' = mailbox s \<and> (mailbox s port = None \<or> free_stack s = [])"
    using send_mailbox [OF assms(1), of port "[1, ucast irq] @ junk" 0] by blast
  have "arch_irq_handler junk ctx s = Some (Done (), s')" if "r = 0"
    using send that assms(3,5) by (simp add: arch_irq_handler_def num irq_handle_def sx)
  then show ?thesis using send res assms(2) by (intro exI [of _ r] exI [of _ s']) (auto split: if_splits)
qed

lemma port_inv_irq_table:
  "port_inv (s\<lparr>s_master_mask := m, s_irq_table := t, irq_ctxs := c\<rparr>) Ob U ts ws ms = port_inv s Ob U ts ws ms"
  "mailbox (s\<lparr>s_master_mask := m, s_irq_table := t, irq_ctxs := c\<rparr>) = mailbox s"
  by (simp_all add: port_inv_def sched_inv_def queues_ok_def mailbox_def inbox_def fun_eq_iff split: list.split)

text \<open>Line 1, the keyboard, belongs to the server at the port created first.\<close>

lemma irq_becomes_message_witness:
  "\<exists>s s1 r. sys_ipc_port_create sample_console = Some (0, s)
     \<and> ipc_port_send 0 ([1, 1] @ [0, 0, 0, 0]) 0
         (s\<lparr>s_master_mask := 0xfd, s_irq_table := (\<lambda>_. SERVER 0), irq_ctxs := (\<lambda>_. zero_context\<lparr>int_num := 0x21\<rparr>)\<rparr>) = Some (r, s1)
     \<and> (r = 0 \<longrightarrow> mailbox s1 0 = Some [([1, 1, 0, 0, 0, 0], 0)])"
proof -
  note d = shmem_state.defs shmem_defs
  have inv: "port_inv sample_console (\<lambda>_. {}) {0x100000} [0x3000, 0x4000] (\<lambda>_. []) (\<lambda>_. [])"
    using sample_ports_inv by (simp add: port_inv_def sched_inv_def queues_ok_def d)
  have "free_stack sample_console \<noteq> []" "s_next_port_id sample_console = 0" by (simp_all add: d)
  then obtain s Ob ts ws ms where s: "sys_ipc_port_create sample_console = Some (0, s)" "port_inv s Ob {0x100000} ts ws ms" "mailbox s 0 = Some []"
    using sys_ipc_port_create_ok [OF inv] by (elim exE conjE disjE) auto
  define s2 where "s2 = s\<lparr>s_master_mask := 0xfd, s_irq_table := (\<lambda>_. SERVER 0), irq_ctxs := (\<lambda>_. zero_context\<lparr>int_num := 0x21\<rparr>)\<rparr>"
  have h: "port_inv s2 Ob {0x100000} ts ws ms" "mailbox s2 0 = Some []" using s(2,3) by (simp_all add: s2_def port_inv_irq_table)
  have m: "\<not> pic_is_masked 1 s2" by (simp add: s2_def pic_is_masked_def)
  obtain r s1 where "ipc_port_send 0 ([1, ucast (1 :: u32)] @ [0, 0, 0, 0]) 0 s2 = Some (r, s1)" "r = 0 \<longrightarrow> mailbox s1 = (mailbox s2)(0 \<mapsto> [] @ [([1, ucast (1 :: u32)] @ [0, 0, 0, 0], 0)])"
    using irq_becomes_message [OF h _ _ m, of 0 "[0, 0, 0, 0]"] by (auto simp: s2_def zero_context_def split: if_splits)
  then show ?thesis using s(1) unfolding s2_def by auto
qed

end
