(* ===== verification/Elf.thy ===== *)
theory Elf
  imports Dispatch UserCopy
begin

text \<open>
  The loader of programs: \<^verbatim>\<open>elf.c\<close> and \<^verbatim>\<open>arch/elf.h\<close>.  The file is in memory at \<open>module\<close>; its headers are packed
  little-endian structures, read field by field from the bytes.
\<close>

section \<open>The file\<close>

fun read_le :: "nat \<Rightarrow> memory \<Rightarrow> ptr \<Rightarrow> u64" where
  "read_le 0 m p = 0"
| "read_le (Suc n) m p = ucast (m p) OR push_bit 8 (read_le n m (p + 1))"

abbreviation (input) ELF_SHF_WRITE :: u64 where "ELF_SHF_WRITE \<equiv> 1"
abbreviation (input) ELF_SHF_ALLOC :: u64 where "ELF_SHF_ALLOC \<equiv> 2"
abbreviation (input) ELF_SHT_PROGBITS :: u32 where "ELF_SHT_PROGBITS \<equiv> 1"
abbreviation (input) ELF_SHT_NOBITS :: u32 where "ELF_SHT_NOBITS \<equiv> 8"

record elf_header =
  e_type :: u16
  e_machine :: u16
  e_version :: u32
  e_entry :: u64
  e_phoff :: u64
  e_shoff :: u64
  e_flags :: u32
  e_ehsize :: u16
  e_phentsize :: u16
  e_phnum :: u16
  e_shentsize :: u16
  e_shnum :: u16
  e_shstrndx :: u16

definition elf_header_at :: "memory \<Rightarrow> ptr \<Rightarrow> elf_header" where
  "elf_header_at m p =
     \<lparr>e_type = ucast (read_le 2 m (p + 16)), e_machine = ucast (read_le 2 m (p + 18)), e_version = ucast (read_le 4 m (p + 20)),
      e_entry = read_le 8 m (p + 24), e_phoff = read_le 8 m (p + 32), e_shoff = read_le 8 m (p + 40),
      e_flags = ucast (read_le 4 m (p + 48)), e_ehsize = ucast (read_le 2 m (p + 52)), e_phentsize = ucast (read_le 2 m (p + 54)),
      e_phnum = ucast (read_le 2 m (p + 56)), e_shentsize = ucast (read_le 2 m (p + 58)), e_shnum = ucast (read_le 2 m (p + 60)),
      e_shstrndx = ucast (read_le 2 m (p + 62))\<rparr>"

record elf_section_header =
  sh_name :: u32
  sh_type :: u32
  sh_flags :: u64
  sh_address :: u64
  sh_offset :: u64
  sh_bytes :: u64
  sh_link :: u32
  sh_info :: u32
  sh_addralign :: u64
  sh_entsize :: u64

definition elf_section_header_at :: "memory \<Rightarrow> ptr \<Rightarrow> elf_section_header" where
  "elf_section_header_at m p =
     \<lparr>sh_name = ucast (read_le 4 m p), sh_type = ucast (read_le 4 m (p + 4)), sh_flags = read_le 8 m (p + 8),
      sh_address = read_le 8 m (p + 16), sh_offset = read_le 8 m (p + 24), sh_bytes = read_le 8 m (p + 32),
      sh_link = ucast (read_le 4 m (p + 40)), sh_info = ucast (read_le 4 m (p + 44)), sh_addralign = read_le 8 m (p + 48),
      sh_entsize = read_le 8 m (p + 56)\<rparr>"

text \<open>\<^verbatim>\<open>shdr\<close> after \<open>i\<close> steps.\<close>

definition section_at :: "memory \<Rightarrow> ptr \<Rightarrow> nat \<Rightarrow> elf_section_header" where
  "section_at m module i = elf_section_header_at m (module + e_shoff (elf_header_at m module) + of_nat i * 64)"

section \<open>Loading\<close>

record region_info =
  found :: bool
  ri_base :: u64
  ri_end :: u64

definition elf_alloc_region :: "ptr \<Rightarrow> region_info \<Rightarrow> bool \<Rightarrow> 'a console_state_scheme \<Rightarrow> (int outcome \<times> 'a console_state_scheme) option" where
  "elf_alloc_region p r writable s = do {
     let base = ri_base r AND PAGE_MASK;
     let off = ri_base r AND NOT PAGE_MASK;
     let sz = ri_end r - ri_base r + 1 + off;
     let flags = VMM_READ OR (if writable then VMM_WRITE else 0) OR VMM_USER OR VMM_FIXED;
     (x, s) \<leftarrow> vmm_alloc p base (PAGE_ALIGN sz) flags s;
     Some (case x of Done (res, _) \<Rightarrow> Done res | Blocked \<Rightarrow> Blocked, s)
   }"

text \<open>The first loop; both panics have no result.  \<open>grow_region\<close> is its body for the region it chooses.\<close>

definition grow_region :: "elf_section_header \<Rightarrow> region_info \<Rightarrow> region_info option" where
  "grow_region sh r =
     (let e = sh_address sh + sh_bytes sh - 1
      in if found r then
           if sh_address sh \<le> ri_base r then None
           else if e \<le> ri_end r then None
           else Some (r\<lparr>ri_end := e\<rparr>)
         else Some \<lparr>found = True, ri_base = sh_address sh, ri_end = e\<rparr>)"

fun elf_regions :: "elf_section_header list \<Rightarrow> region_info \<Rightarrow> region_info \<Rightarrow> (region_info \<times> region_info) option" where
  "elf_regions [] code data = Some (code, data)"
| "elf_regions (sh # shs) code data =
     (if sh_flags sh AND ELF_SHF_ALLOC = 0 then elf_regions shs code data
      else if sh_flags sh AND ELF_SHF_WRITE \<noteq> 0 then do {
        data \<leftarrow> grow_region sh data;
        elf_regions shs code data
      }
      else do {
        code \<leftarrow> grow_region sh code;
        elf_regions shs code data
      })"

text \<open>
  The second loop, from section \<open>i\<close> on; it reads the number of sections again in each turn.  The result \<open>False\<close>
  is the return of -1.
\<close>

partial_function (option) elf_fill ::
  "ptr \<Rightarrow> ptr \<Rightarrow> nat \<Rightarrow> 'a console_state_scheme \<Rightarrow> (bool outcome \<times> 'a console_state_scheme) option" where
  "elf_fill p module i s =
     (if i < unat (e_shnum (elf_header_at (mem s) module)) then do {
        let sh = section_at (mem s) module i;
        (if sh_flags sh AND ELF_SHF_ALLOC = 0 then elf_fill p module (i + 1) s
         else if sh_type sh = ELF_SHT_PROGBITS then do {
           (x, s) \<leftarrow> vmm_copy_to p (sh_address sh) (module + sh_offset sh) (sh_bytes sh) s;
           case x of
             Blocked \<Rightarrow> Some (Blocked, s)
           | Done r \<Rightarrow>
               if r \<noteq> 0 then do {
                 s \<leftarrow> kprintf (asc ''elf: unable to copy into PROGBITS section'' @ [10]) [] s;
                 Some (Done False, s)
               }
               else elf_fill p module (i + 1) s
         }
         else if sh_type sh = ELF_SHT_NOBITS then do {
           (x, s) \<leftarrow> vmm_clear p (sh_address sh) (sh_bytes sh) s;
           case x of
             Blocked \<Rightarrow> Some (Blocked, s)
           | Done r \<Rightarrow>
               if r \<noteq> 0 then do {
                 s \<leftarrow> kprintf (asc ''elf: unable to clear NOBITS section'' @ [10]) [] s;
                 Some (Done False, s)
               }
               else elf_fill p module (i + 1) s
         }
         else elf_fill p module (i + 1) s)
      }
      else Some (Done True, s))"

text \<open>The allocation of a region that was found.\<close>

definition elf_alloc_found :: "ptr \<Rightarrow> region_info \<Rightarrow> bool \<Rightarrow> u8 list \<Rightarrow> 'a console_state_scheme \<Rightarrow> (bool outcome \<times> 'a console_state_scheme) option" where
  "elf_alloc_found p r writable msg s =
     (if \<not> found r then Some (Done True, s)
      else do {
        (x, s) \<leftarrow> elf_alloc_region p r writable s;
        case x of
          Blocked \<Rightarrow> Some (Blocked, s)
        | Done res \<Rightarrow>
            if res \<noteq> 0 then do {
              s \<leftarrow> kprintf msg [] s;
              Some (Done False, s)
            }
            else Some (Done True, s)
      })"

text \<open>The steps of \<^verbatim>\<open>elf_load\<close> after each other, as long as none fails or has to wait.\<close>

definition then_step :: "(bool outcome \<times> 's) option \<Rightarrow> ('s \<Rightarrow> (bool outcome \<times> 's) option) \<Rightarrow> (bool outcome \<times> 's) option" where
  "then_step x f = Option.bind x (\<lambda>(b, s). if b = Done True then f s else Some (b, s))"

definition elf_load :: "ptr \<Rightarrow> ptr \<Rightarrow> 'a console_state_scheme \<Rightarrow> (u64 outcome \<times> 'a console_state_scheme) option" where
  "elf_load p module s = do {
     let none = \<lparr>found = False, ri_base = 0, ri_end = 0\<rparr>;
     (code, data) \<leftarrow> elf_regions (map (section_at (mem s) module) [0 ..< unat (e_shnum (elf_header_at (mem s) module))]) none none;
     s \<leftarrow> dprintf (asc ''elf: text @ %p-%p, data @ %p-%p'' @ [10]) [Word (ri_base code), Word (ri_end code), Word (ri_base data), Word (ri_end data)] s;
     (x, s) \<leftarrow> then_step (then_step
       (elf_alloc_found p code False (asc ''elf: unable to allocate text region'' @ [10]) s)
       (elf_alloc_found p data True (asc ''elf: unable to allocate data region'' @ [10])))
       (elf_fill p module 0);
     Some (case x of Blocked \<Rightarrow> Blocked | Done ok \<Rightarrow> Done (if ok then e_entry (elf_header_at (mem s) module) else -1), s)
   }"

section \<open>The image of a program\<close>

text \<open>What a section asks for: bytes of the file, or zeroes.\<close>

definition loaded :: "elf_section_header \<Rightarrow> bool" where
  "loaded sh \<longleftrightarrow> sh_flags sh AND ELF_SHF_ALLOC \<noteq> 0 \<and> (sh_type sh = ELF_SHT_PROGBITS \<or> sh_type sh = ELF_SHT_NOBITS)"

definition section_byte :: "memory \<Rightarrow> ptr \<Rightarrow> elf_section_header \<Rightarrow> nat \<Rightarrow> u8" where
  "section_byte m module sh k = (if sh_type sh = ELF_SHT_PROGBITS then m (module + sh_offset sh + of_nat k) else 0)"

definition sections_of :: "memory \<Rightarrow> ptr \<Rightarrow> elf_section_header list" where
  "sections_of m module = map (section_at m module) [0 ..< unat (e_shnum (elf_header_at m module))]"

text \<open>The addresses of the file that the loader reads, and the memory behind the addresses of a section.\<close>

definition file_addrs :: "memory \<Rightarrow> ptr \<Rightarrow> ptr set" where
  "file_addrs m module = {module + of_nat k | k. k < 64}
     \<union> {module + e_shoff (elf_header_at m module) + of_nat i * 64 + of_nat k | i k. i < unat (e_shnum (elf_header_at m module)) \<and> k < 64}
     \<union> {module + sh_offset sh + of_nat k | sh k. sh \<in> set (sections_of m module) \<and> loaded sh \<and> sh_type sh = ELF_SHT_PROGBITS \<and> k < unat (sh_bytes sh)}"

definition section_addrs :: "'a vmm_state_scheme \<Rightarrow> ptr \<Rightarrow> elf_section_header \<Rightarrow> ptr set" where
  "section_addrs s p sh = (if loaded sh then range_addrs (ptes s) (proc_cr3 p s) (sh_address sh) (sh_bytes sh) else {})"

text \<open>The section lies in the user region, is mapped, and no two of its addresses show the same byte.\<close>

definition section_mapped :: "'a vmm_state_scheme \<Rightarrow> ptr \<Rightarrow> elf_section_header \<Rightarrow> bool" where
  "section_mapped s p sh \<longleftrightarrow> unat (sh_address sh) + unat (sh_bytes sh) \<le> 2 ^ 47
     \<and> (\<forall>k < unat (sh_bytes sh). byte_addr (ptes s) (proc_cr3 p s) (sh_address sh + of_nat k) \<noteq> None)
     \<and> inj_on (\<lambda>k. byte_addr (ptes s) (proc_cr3 p s) (sh_address sh + of_nat k)) {..< unat (sh_bytes sh)}"

definition section_reads :: "'a vmm_state_scheme \<Rightarrow> ptr \<Rightarrow> memory \<Rightarrow> ptr \<Rightarrow> elf_section_header \<Rightarrow> bool" where
  "section_reads s p m module sh \<longleftrightarrow>
     (\<forall>k < unat (sh_bytes sh). map_option (mem s) (byte_addr (ptes s) (proc_cr3 p s) (sh_address sh + of_nat k)) = Some (section_byte m module sh k))"

lemma read_le_cong: "(\<And>k. k < n \<Longrightarrow> m (p + of_nat k) = m' (p + of_nat k)) \<Longrightarrow> read_le n m p = read_le n m' p"
proof (induction n arbitrary: p)
  case (Suc n)
  have "m (p + 1 + of_nat k) = m' (p + 1 + of_nat k)" if "k < n" for k
    using Suc.prems [of "Suc k"] that by (simp add: algebra_simps)
  then have "read_le n m (p + 1) = read_le n m' (p + 1)" by (rule Suc.IH)
  then show ?case using Suc.prems [of 0] by simp
qed simp

lemma read_le_inside:
  assumes "\<And>k. k < 64 \<Longrightarrow> m (p + of_nat k) = m' (p + of_nat k)" and "c + n \<le> 64"
  shows "read_le n m (p + of_nat c) = read_le n m' (p + of_nat c)"
proof (rule read_le_cong)
  fix k assume "k < n"
  then have "m (p + of_nat (c + k)) = m' (p + of_nat (c + k))" using assms(2) by (intro assms(1)) simp
  then show "m (p + of_nat c + of_nat k) = m' (p + of_nat c + of_nat k)" by (simp add: add.assoc)
qed

lemma headers_cong:
  assumes "\<And>k. k < 64 \<Longrightarrow> m (p + of_nat k) = m' (p + of_nat k)"
  shows "elf_header_at m p = elf_header_at m' p" and "elf_section_header_at m p = elf_section_header_at m' p"
proof -
  note r = read_le_inside [of m p m', OF assms]
  show "elf_header_at m p = elf_header_at m' p"
    using r [of 16 2] r [of 18 2] r [of 20 4] r [of 24 8] r [of 32 8] r [of 40 8] r [of 48 4] r [of 52 2] r [of 54 2] r [of 56 2] r [of 58 2]
      r [of 60 2] r [of 62 2] by (simp add: elf_header_at_def)
  show "elf_section_header_at m p = elf_section_header_at m' p"
    using r [of 0 4] r [of 4 4] r [of 8 8] r [of 16 8] r [of 24 8] r [of 32 8] r [of 40 4] r [of 44 4] r [of 48 8] r [of 56 8]
    by (simp add: elf_section_header_at_def)
qed

text \<open>A memory that agrees with the first one on the file has the same headers.\<close>

lemma file_cong:
  assumes "\<And>a. a \<in> file_addrs m module \<Longrightarrow> m' a = m a"
  shows "elf_header_at m' module = elf_header_at m module"
    and "i < unat (e_shnum (elf_header_at m module)) \<Longrightarrow> section_at m' module i = section_at m module i"
proof -
  show h: "elf_header_at m' module = elf_header_at m module"
    by (rule headers_cong(1), rule assms) (auto simp: file_addrs_def)
  show "section_at m' module i = section_at m module i" if "i < unat (e_shnum (elf_header_at m module))"
    unfolding section_at_def h
    by (rule headers_cong(2), rule assms) (use that in \<open>auto simp: file_addrs_def\<close>)
qed

text \<open>One section.\<close>

lemma load_section:
  assumes ok: "vmm_ok s Ob R U P" and p: "p \<in> P" and u: "uncontended s (VMM_MUTEX p)"
    and l: "loaded sh" and m: "section_mapped s p sh"
    and src: "sh_type sh = ELF_SHT_PROGBITS \<Longrightarrow> \<forall>k < unat (sh_bytes sh). module + sh_offset sh + of_nat k \<notin> section_addrs s p sh"
  shows "\<exists>s'. (if sh_type sh = ELF_SHT_PROGBITS then vmm_copy_to p (sh_address sh) (module + sh_offset sh) (sh_bytes sh) s
      else vmm_clear p (sh_address sh) (sh_bytes sh) s) = Some (Done 0, s')
    \<and> vmm_ok s' Ob R U P \<and> ptes s' = ptes s \<and> proc_cr3 p s' = proc_cr3 p s \<and> mutexes s' = mutexes s
    \<and> (\<forall>a. a \<notin> section_addrs s p sh \<longrightarrow> mem s' a = mem s a) \<and> section_reads s' p (mem s) module sh"
proof -
  let ?v = "sh_address sh" and ?n = "sh_bytes sh" and ?r = "proc_cr3 p s"
  have lim: "unat ?v + unat ?n \<le> 2 ^ 47" and all: "\<forall>k < unat ?n. byte_addr (ptes s) ?r (?v + of_nat k) \<noteq> None"
    and inj: "inj_on (\<lambda>k. byte_addr (ptes s) ?r (?v + of_nat k)) {..< unat ?n}" using m by (auto simp: section_mapped_def)
  have sa: "section_addrs s p sh = range_addrs (ptes s) ?r ?v ?n" using l by (simp add: section_addrs_def)
  show ?thesis
  proof (cases "sh_type sh = ELF_SHT_PROGBITS")
    case True
    obtain okk s' where x: "vmm_copy_to p ?v (module + sh_offset sh) ?n s = Some (Done (if okk then 0 else -1), s')" "vmm_ok s' Ob R U P"
      "ptes s' = ptes s" "proc_cr3 p s' = ?r" "mutexes s' = mutexes s" "okk"
      "\<forall>a. a \<notin> range_addrs (ptes s) ?r ?v ?n \<longrightarrow> mem s' a = mem s a"
      "\<forall>k < unat ?n. map_option (mem s') (byte_addr (ptes s) ?r (?v + of_nat k)) = Some (mem s (module + sh_offset sh + of_nat k))"
      using vmm_copy_to_ok [OF ok p u lim, of "module + sh_offset sh"] all inj src [OF True, unfolded sa] by (elim exE conjE) auto
    have "section_reads s' p (mem s) module sh" using x(8) True by (simp add: section_reads_def section_byte_def x(3,4))
    then show ?thesis using x(1-7) True by (intro exI [of _ s']) (simp add: sa)
  next
    case False
    obtain okk s' where x: "vmm_clear p ?v ?n s = Some (Done (if okk then 0 else -1), s')" "vmm_ok s' Ob R U P"
      "ptes s' = ptes s" "proc_cr3 p s' = ?r" "mutexes s' = mutexes s" "okk"
      "\<forall>a. a \<notin> range_addrs (ptes s) ?r ?v ?n \<longrightarrow> mem s' a = mem s a"
      "\<forall>k < unat ?n. map_option (mem s') (byte_addr (ptes s) ?r (?v + of_nat k)) = Some 0"
      using vmm_clear_ok [OF ok p u lim] all inj by (elim exE conjE) auto
    have "section_reads s' p (mem s) module sh" using x(8) False by (simp add: section_reads_def section_byte_def x(3,4))
    then show ?thesis using x(1-7) False by (intro exI [of _ s']) (simp add: sa)
  qed
qed

text \<open>The state before section \<open>i\<close>, compared with the first one.\<close>

definition filled :: "'a vmm_state_scheme \<Rightarrow> 'a vmm_state_scheme \<Rightarrow> ptr \<Rightarrow> ptr \<Rightarrow> nat \<Rightarrow> bool" where
  "filled s s' p module i \<longleftrightarrow> ptes s' = ptes s \<and> proc_cr3 p s' = proc_cr3 p s \<and> mutexes s' = mutexes s
     \<and> (\<forall>a. (\<forall>j < i. a \<notin> section_addrs s p (section_at (mem s) module j)) \<longrightarrow> mem s' a = mem s a)
     \<and> (\<forall>j < i. loaded (section_at (mem s) module j) \<longrightarrow> section_reads s' p (mem s) module (section_at (mem s) module j))"

text \<open>The program fits: every section is mapped, apart from the others and from the file.\<close>

definition image_fits :: "'a vmm_state_scheme \<Rightarrow> ptr \<Rightarrow> ptr \<Rightarrow> bool" where
  "image_fits s p module \<longleftrightarrow>
     (\<forall>i < unat (e_shnum (elf_header_at (mem s) module)). loaded (section_at (mem s) module i) \<longrightarrow>
        section_mapped s p (section_at (mem s) module i)
      \<and> section_addrs s p (section_at (mem s) module i) \<inter> file_addrs (mem s) module = {}
      \<and> (\<forall>j < i. section_addrs s p (section_at (mem s) module i) \<inter> section_addrs s p (section_at (mem s) module j) = {}))"

lemma section_addrs_cong: "ptes s' = ptes s \<Longrightarrow> proc_cr3 p s' = proc_cr3 p s \<Longrightarrow> section_addrs s' p sh = section_addrs s p sh"
  by (simp add: section_addrs_def)

lemma section_mapped_cong: "ptes s' = ptes s \<Longrightarrow> proc_cr3 p s' = proc_cr3 p s \<Longrightarrow> section_mapped s' p sh = section_mapped s p sh"
  by (simp add: section_mapped_def)

lemma section_reads_keep:
  assumes "section_reads s p m module sh" and "loaded sh" and "ptes s' = ptes s" and "proc_cr3 p s' = proc_cr3 p s"
    and "\<And>a. a \<in> section_addrs s p sh \<Longrightarrow> mem s' a = mem s a"
  shows "section_reads s' p m module sh"
  unfolding section_reads_def assms(3,4)
proof (intro allI impI)
  fix k assume k: "k < unat (sh_bytes sh)"
  then have eq: "map_option (mem s) (byte_addr (ptes s) (proc_cr3 p s) (sh_address sh + of_nat k)) = Some (section_byte m module sh k)"
    using assms(1) by (simp add: section_reads_def)
  then obtain a where a: "byte_addr (ptes s) (proc_cr3 p s) (sh_address sh + of_nat k) = Some a" by auto
  have "a \<in> section_addrs s p sh" using a k assms(2) by (auto simp: section_addrs_def range_addrs_def)
  then show "map_option (mem s') (byte_addr (ptes s) (proc_cr3 p s) (sh_address sh + of_nat k)) = Some (section_byte m module sh k)"
    using eq a assms(5) by simp
qed

lemma filled_skip:
  assumes "filled s s' p module i" and "\<not> loaded (section_at (mem s) module i)"
  shows "filled s s' p module (Suc i)"
  using assms by (auto simp: filled_def less_Suc_eq section_addrs_def)

lemma file_kept:
  assumes fit: "image_fits s p module" and fl: "filled s s' p module i" and i: "i \<le> unat (e_shnum (elf_header_at (mem s) module))"
    and a: "a \<in> file_addrs (mem s) module"
  shows "mem s' a = mem s a"
proof -
  have "a \<notin> section_addrs s p (section_at (mem s) module j)" if "j < i" for j
  proof (cases "loaded (section_at (mem s) module j)")
    case True
    have "j < unat (e_shnum (elf_header_at (mem s) module))" using that i by linarith
    then show ?thesis using fit [unfolded image_fits_def, rule_format, OF _ True] a by blast
  next
    case False
    then show ?thesis by (simp add: section_addrs_def)
  qed
  then show ?thesis using fl by (simp add: filled_def)
qed

lemma filled_step:
  assumes fit: "image_fits s p module" and fl: "filled s s1 p module i" and i: "i < unat (e_shnum (elf_header_at (mem s) module))"
    and ok: "vmm_ok s1 Ob R U P" and p: "p \<in> P" and u: "uncontended s (VMM_MUTEX p)"
  defines "sh \<equiv> section_at (mem s) module i"
  assumes l: "loaded sh"
  shows "\<exists>s'. (if sh_type sh = ELF_SHT_PROGBITS then vmm_copy_to p (sh_address sh) (module + sh_offset sh) (sh_bytes sh) s1
      else vmm_clear p (sh_address sh) (sh_bytes sh) s1) = Some (Done 0, s') \<and> vmm_ok s' Ob R U P \<and> filled s s' p module (Suc i)"
proof -
  have same: "ptes s1 = ptes s" "proc_cr3 p s1 = proc_cr3 p s" "mutexes s1 = mutexes s" using fl by (simp_all add: filled_def)
  have u1: "uncontended s1 (VMM_MUTEX p)" using u same by (simp add: uncontended_def)
  note f = fit [unfolded image_fits_def, rule_format, OF i, folded sh_def, OF l]
  have m1: "section_mapped s1 p sh" using f section_mapped_cong [OF same(1,2)] by simp
  have inset: "sh \<in> set (sections_of (mem s) module)" using i by (simp add: sections_of_def sh_def)
  have from_file: "module + sh_offset sh + of_nat k \<in> file_addrs (mem s) module" if "k < unat (sh_bytes sh)" "sh_type sh = ELF_SHT_PROGBITS" for k
    using that l inset by (auto simp: file_addrs_def)
  have src: "\<forall>k < unat (sh_bytes sh). module + sh_offset sh + of_nat k \<notin> section_addrs s1 p sh" if "sh_type sh = ELF_SHT_PROGBITS"
    using from_file [OF _ that] f section_addrs_cong [OF same(1,2)] by auto
  obtain s' where x: "(if sh_type sh = ELF_SHT_PROGBITS then vmm_copy_to p (sh_address sh) (module + sh_offset sh) (sh_bytes sh) s1
      else vmm_clear p (sh_address sh) (sh_bytes sh) s1) = Some (Done 0, s')" "vmm_ok s' Ob R U P" "ptes s' = ptes s1" "proc_cr3 p s' = proc_cr3 p s1"
    "mutexes s' = mutexes s1" "\<forall>a. a \<notin> section_addrs s1 p sh \<longrightarrow> mem s' a = mem s1 a" "section_reads s' p (mem s1) module sh"
    using load_section [OF ok p u1 l m1 src] by blast
  have sa: "section_addrs s1 p h = section_addrs s p h" for h by (rule section_addrs_cong [OF same(1,2)])
  have "section_byte (mem s1) module sh k = section_byte (mem s) module sh k" if "k < unat (sh_bytes sh)" for k
    using from_file [OF that] file_kept [OF fit fl] i by (simp add: section_byte_def)
  then have this_one: "section_reads s' p (mem s) module sh" using x(7) by (simp add: section_reads_def)
  have "section_reads s' p (mem s) module (section_at (mem s) module j)" if j: "j < i" "loaded (section_at (mem s) module j)" for j
  proof (rule section_reads_keep [OF _ j(2) x(3,4)])
    show "section_reads s1 p (mem s) module (section_at (mem s) module j)" using fl j by (simp add: filled_def)
    show "mem s' a = mem s1 a" if "a \<in> section_addrs s1 p (section_at (mem s) module j)" for a
      using that x(6) f j(1) unfolding sa by blast
  qed
  moreover have "mem s' a = mem s a" if "\<forall>j < Suc i. a \<notin> section_addrs s p (section_at (mem s) module j)" for a
    using that x(6) fl unfolding sa by (auto simp: filled_def sh_def)
  ultimately have "filled s s' p module (Suc i)"
    using this_one x(3-5) same by (auto simp: filled_def less_Suc_eq sh_def)
  then show ?thesis using x(1,2) by blast
qed

lemma elf_fill_ok:
  assumes fit: "image_fits s p module" and p: "p \<in> P" and u: "uncontended s (VMM_MUTEX p)"
    and "vmm_ok s1 Ob R U P" and "filled s s1 p module i" and "i \<le> unat (e_shnum (elf_header_at (mem s) module))"
  shows "\<exists>s'. elf_fill p module i s1 = Some (Done True, s') \<and> vmm_ok s' Ob R U P
    \<and> filled s s' p module (unat (e_shnum (elf_header_at (mem s) module)))"
  using assms(4-6)
proof (induction "unat (e_shnum (elf_header_at (mem s) module)) - i" arbitrary: i s1)
  case 0
  have "elf_header_at (mem s1) module = elf_header_at (mem s) module"
    by (rule file_cong(1)) (rule file_kept [OF fit 0(3,4)])
  then have "elf_fill p module i s1 = Some (Done True, s1)" using 0(1) by (subst elf_fill.simps) simp
  then show ?case using 0 by simp
next
  case (Suc n)
  let ?n = "unat (e_shnum (elf_header_at (mem s) module))" and ?sh = "section_at (mem s) module i"
  have i: "i < ?n" "Suc i \<le> ?n" "n = ?n - Suc i" using Suc(2) by simp_all
  have h: "elf_header_at (mem s1) module = elf_header_at (mem s) module" "section_at (mem s1) module i = ?sh"
    by (rule file_cong(1), rule file_kept [OF fit Suc(4,5)], assumption) (rule file_cong(2), rule file_kept [OF fit Suc(4,5)], assumption, rule i)
  show ?case
  proof (cases "loaded ?sh")
    case False
    then have "elf_fill p module i s1 = elf_fill p module (i + 1) s1"
      using i by (subst elf_fill.simps) (auto simp: h loaded_def Let_def)
    then show ?thesis using Suc(1) [OF i(3) Suc(3) filled_skip [OF Suc(4) False] i(2)] by simp
  next
    case True
    obtain s' where s': "(if sh_type ?sh = ELF_SHT_PROGBITS then vmm_copy_to p (sh_address ?sh) (module + sh_offset ?sh) (sh_bytes ?sh) s1
      else vmm_clear p (sh_address ?sh) (sh_bytes ?sh) s1) = Some (Done 0, s')" "vmm_ok s' Ob R U P" "filled s s' p module (Suc i)"
      using filled_step [OF fit Suc(4) i(1) Suc(3) p u True] by blast
    have "elf_fill p module i s1 = elf_fill p module (i + 1) s'"
      using i s'(1) True by (subst elf_fill.simps) (auto simp: h loaded_def Let_def split: if_splits)
    then show ?thesis using Suc(1) [OF i(3) s'(2,3) i(2)] by simp
  qed
qed

section \<open>Property\<close>

text \<open>
  C32: loading a program.  If no thread uses the address space and the sections of the file that ask for memory
  are mapped there, apart from each other and from the file, the second pass of the loader ends with success:
  every address of a PROGBITS section then reads the byte of the file, every address of a NOBITS section reads
  zero, no other byte of memory has changed, and the address spaces are kept.
\<close>

theorem elf_image_loaded:
  assumes "vmm_ok s Ob R U P" and "p \<in> P" and "uncontended s (VMM_MUTEX p)" and "image_fits s p module"
  shows "\<exists>s'. elf_fill p module 0 s = Some (Done True, s') \<and> vmm_ok s' Ob R U P \<and> ptes s' = ptes s
    \<and> (\<forall>sh \<in> set (sections_of (mem s) module). loaded sh \<longrightarrow> section_reads s' p (mem s) module sh)
    \<and> (\<forall>a. (\<forall>sh \<in> set (sections_of (mem s) module). a \<notin> section_addrs s p sh) \<longrightarrow> mem s' a = mem s a)"
proof -
  have "filled s s p module 0" by (simp add: filled_def)
  then obtain s' where "elf_fill p module 0 s = Some (Done True, s')" "vmm_ok s' Ob R U P"
    "filled s s' p module (unat (e_shnum (elf_header_at (mem s) module)))"
    using elf_fill_ok [OF assms(4,2,3,1)] by blast
  then show ?thesis by (intro exI [of _ s']) (auto simp: filled_def sections_of_def)
qed

text \<open>A file with one section of type PROGBITS and no bytes.\<close>

abbreviation (input) sample_file :: memory where
  "sample_file \<equiv> (\<lambda>_. 0)(0x100028 := 64, 0x10003c := 1, 0x100044 := 1, 0x100048 := 2)"

lemma read_le_numeral: "read_le (numeral k) m p = ucast (m p) OR push_bit 8 (read_le (pred_numeral k) m (p + 1))"
  by (simp add: numeral_eq_Suc)

lemma sample_file_headers:
  "unat (e_shnum (elf_header_at sample_file 0x100000)) = 1" "e_shoff (elf_header_at sample_file 0x100000) = 64"
  by (simp_all add: elf_header_at_def read_le_numeral)

lemma sample_file_section:
  "loaded (section_at sample_file 0x100000 0)" "sh_bytes (section_at sample_file 0x100000 0) = 0" "sh_address (section_at sample_file 0x100000 0) = 0"
  by (simp_all only: section_at_def sample_file_headers) (simp_all add: elf_section_header_at_def loaded_def read_le_numeral)

lemma vmm_ok_mem: "vmm_ok s Ob R U P \<Longrightarrow> vmm_ok (s\<lparr>mem := m\<rparr>) Ob R U P"
  by (simp add: vmm_ok_def space_ok_def free_space_def map_nodes_def owns_def proc_cr3_def inj_on_def)

lemma elf_image_loaded_witness:
  "\<exists>s s'. vmm_context_init 0x7000 sample_console = Some (0, s) \<and> elf_fill 0x7000 0x100000 0 (s\<lparr>mem := sample_file\<rparr>) = Some (Done True, s')"
proof -
  note d = shmem_state.defs shmem_defs
  have ok: "vmm_ok sample_console (\<lambda>_. {}) {0x100000} {0x100000} {}" using sample_vmm_ok by (simp add: vmm_ok_def d)
  have r: "proc_cr3 0x7000 sample_console \<in> {0x100000}" "\<forall>q \<in> {}. proc_cr3 q sample_console \<noteq> proc_cr3 0x7000 sample_console"
    "(0x7000 :: ptr) \<notin> {}" "0x7000 \<noteq> NULL"
    by (simp_all add: proc_cr3_def d)
  have none: "\<forall>v. user_addr v \<longrightarrow> translate (ptes sample_console) (proc_cr3 0x7000 sample_console) v = None"
    by (simp add: translate_def d)
  obtain s L where s: "vmm_context_init 0x7000 sample_console = Some (0, s)" "uncontended s (VMM_MUTEX 0x7000)"
    "vmm_ok s ((\<lambda>_. {})(ENTRY_CACHE := L)) {0x100000} {0x100000} {0x7000}"
    using vmm_context_init_ok [OF ok r(3,4,1,2) none] by blast
  let ?s = "s\<lparr>mem := sample_file\<rparr>"
  have h: "vmm_ok ?s ((\<lambda>_. {})(ENTRY_CACHE := L)) {0x100000} {0x100000} {0x7000}"
    using s(3) by (rule vmm_ok_mem)
  have p: "(0x7000 :: ptr) \<in> {0x7000}" "uncontended ?s (VMM_MUTEX 0x7000)" using s(2) by (simp_all add: uncontended_def)
  have "image_fits ?s 0x7000 0x100000"
    using sample_file_headers(1) sample_file_section by (simp add: image_fits_def section_mapped_def section_addrs_def range_addrs_def)
  from elf_image_loaded [OF h p this] show ?thesis using s(1) by blast
qed

end
