(* ===== verification/Start.thy ===== *)
theory Start
  imports Elf
begin

text \<open>
  The start of the system: \<^verbatim>\<open>arch/start.c\<close> and \<^verbatim>\<open>kernel.c\<close>.  The boot modules are saved, the parts of the
  kernel are initialised in the order of the code, and every module becomes a process with one thread.
\<close>

section \<open>Boot modules\<close>

abbreviation (input) MOD_NAME_SIZE :: nat where "MOD_NAME_SIZE \<equiv> 32"
abbreviation (input) MAX_MODULES :: nat where "MAX_MODULES \<equiv> 32"
abbreviation (input) PC_SCREEN_BASE :: u64 where "PC_SCREEN_BASE \<equiv> 0xb8000"

text \<open>The name is the list of its bytes before the terminating zero.\<close>

record module_info =
  mi_addr :: u64
  mi_size :: u64
  mi_name :: "u8 list"

record start_state = console_state +
  s_memory_size :: u64
  s_moduleCount :: nat
  s_modules :: "nat \<Rightarrow> module_info"

text \<open>
  The string that \<^verbatim>\<open>strncpy\<close> with 32 bytes and the store of the terminating zero leave in the array: at most
  31 bytes.
\<close>

fun string_max :: "nat \<Rightarrow> memory \<Rightarrow> ptr \<Rightarrow> u8 list" where
  "string_max 0 m p = []"
| "string_max (Suc n) m p = (if m p = 0 then [] else m p # string_max n m (p + 1))"

text \<open>\<^verbatim>\<open>PAGE_ALIGN\<close> of the difference is computed on 32 bits.  47 is the slash.\<close>

definition save_module :: "mb_mod_entry \<Rightarrow> 'a start_state_scheme \<Rightarrow> 'a start_state_scheme option" where
  "save_module md s = do {
     name \<leftarrow> strrchr (mem s) (ucast (mod_params md)) 47;
     if name = NULL then Some s
     else
       let x = \<lparr>mi_addr = ucast (mod_start md), mi_size = ucast ((mod_end md - mod_start md + 0x1000 - 1) AND NOT 0xfff),
                mi_name = string_max (MOD_NAME_SIZE - 1) (mem s) (name + 1)\<rparr>
       in Some (s\<lparr>s_modules := (s_modules s)(s_moduleCount s := x), s_moduleCount := s_moduleCount s + 1\<rparr>)
   }"

fun save_modules :: "mb_mod_entry list \<Rightarrow> 'a start_state_scheme \<Rightarrow> 'a start_state_scheme option" where
  "save_modules [] s = Some s"
| "save_modules (md # mds) s = do {
     s \<leftarrow> save_module md s;
     save_modules mds s
   }"

definition save_module_list :: "mb_info \<Rightarrow> 'a start_state_scheme \<Rightarrow> 'a start_state_scheme option" where
  "save_module_list info s = save_modules (map (mod_entry info) [0 ..< min (unat (mods_length info)) MAX_MODULES]) s"

section \<open>Starting a module\<close>

text \<open>
  The loop that maps a module.  \<open>mem\<close> is indexed by virtual address: with the mapping the bytes of the physical
  page, which the physical map shows at \<open>PHYS_MAP_BASE + phys\<close>, are seen at the new address too.
\<close>

definition seen_at :: "u64 \<Rightarrow> u64 \<Rightarrow> memory \<Rightarrow> memory" where
  "seen_at virt phys m = (\<lambda>a. if a - virt < PAGE_SIZE then m (PHYS_MAP_BASE + phys + (a - virt)) else m a)"

definition map_module :: "module_info \<Rightarrow> 'a start_state_scheme \<Rightarrow> (bool \<times> 'a start_state_scheme) option" where
  "map_module md s = for_pages (\<lambda>i s. do {
      (_, s) \<leftarrow> vmm_arch_map (MODULE_MAP_BASE + i) (mi_addr md + i) 0 s;
      Some (True, s\<lparr>mem := seen_at (MODULE_MAP_BASE + i) (mi_addr md + i) (mem s)\<rparr>)
    }) (mi_size md) 0 s"

definition unmap_module :: "module_info \<Rightarrow> 'a start_state_scheme \<Rightarrow> (bool \<times> 'a start_state_scheme) option" where
  "unmap_module md s = for_pages (\<lambda>i s. do {
      (_, s) \<leftarrow> vmm_arch_unmap (MODULE_MAP_BASE + i) s;
      Some (True, s)
    }) (mi_size md) 0 s"

text \<open>The body of the loop of \<^verbatim>\<open>modules_start\<close>; each panic has no result.\<close>

definition module_start :: "module_info \<Rightarrow> 'a start_state_scheme \<Rightarrow> (unit outcome \<times> 'a start_state_scheme) option" where
  "module_start md s = do {
     s \<leftarrow> kprintf (asc ''starting module: %s'' @ [10]) [Str (mi_name md)] s;
     (p, s) \<leftarrow> process_create (mi_name md) s;
     if p = NULL then None
     else do {
       (_, s) \<leftarrow> map_module md s;
       (x, s) \<leftarrow> elf_load p MODULE_MAP_BASE s;
       case x of
         Blocked \<Rightarrow> Some (Blocked, s)
       | Done entry \<Rightarrow> do {
           (_, s) \<leftarrow> unmap_module md s;
           if entry = 0 then None
           else do {
             (y, s) \<leftarrow> vmm_alloc p 0 PAGE_SIZE (VMM_READ OR VMM_WRITE OR VMM_STACK OR VMM_USER) s;
             case y of
               Blocked \<Rightarrow> Some (Blocked, s)
             | Done (r, stack) \<Rightarrow>
                 if r \<noteq> 0 then None
                 else do {
                   (t, s) \<leftarrow> thread_create_user p (asc ''main'') entry NULL stack PAGE_SIZE s;
                   if t = NULL then None
                   else do {
                     (_, s) \<leftarrow> thread_wake_up t s;
                     Some (Done (), s)
                   }
                 }
           }
         }
     }
   }"

fun start_all :: "module_info list \<Rightarrow> 'a start_state_scheme \<Rightarrow> (unit outcome \<times> 'a start_state_scheme) option" where
  "start_all [] s = Some (Done (), s)"
| "start_all (md # mds) s = do {
     (x, s) \<leftarrow> module_start md s;
     case x of Blocked \<Rightarrow> Some (Blocked, s) | Done _ \<Rightarrow> start_all mds s
   }"

definition modules_start :: "'a start_state_scheme \<Rightarrow> (unit outcome \<times> 'a start_state_scheme) option" where
  "modules_start s = start_all (map (s_modules s) [0 ..< s_moduleCount s]) s"

section \<open>The start of the kernel\<close>

definition kernel_start :: "'a console_state_scheme \<Rightarrow> 'a console_state_scheme option" where
  "kernel_start s = do {
     (_, s) \<leftarrow> vmm_init s;
     let s = irq_init s;
     s \<leftarrow> process_init s;
     s \<leftarrow> thread_init s;
     s \<leftarrow> sched_init s;
     s \<leftarrow> ipc_port_init s;
     s \<leftarrow> ipc_message_init s;
     s \<leftarrow> ipc_shmem_init s;
     ipc_server_init s
   }"

text \<open>\<open>kernel_end\<close> and the array of early map entries, \<open>a\<close>, are where the linker put them.\<close>

definition arch_start ::
  "mb_info \<Rightarrow> ptr \<Rightarrow> early_entries \<Rightarrow> 'a start_state_scheme \<Rightarrow> (unit outcome \<times> 'a start_state_scheme) option" where
  "arch_start info kernel_end a s = do {
     let s = pc_screen_init (KERNEL_VIRT_BASE + PC_SCREEN_BASE) s;
     let s = pc_serial_init s;
     s \<leftarrow> kprintf (asc ''Loading urubu ...'' @ [10]) [] s;
     let s = gdt_init s;
     let s = idt_init s;
     let s = cpu_arch_init s;
     (sz, free_map, a) \<leftarrow> pmm_arch_build_free_map info kernel_end a;
     let s = s\<lparr>s_memory_size := sz\<rparr>;
     s \<leftarrow> save_module_list info s;
     let s = vmm_arch_pre_init s;
     (_, a, s) \<leftarrow> pmm_init s_pmm_early_map_allocator (s_memory_size s) free_map a s;
     let s = vmm_arch_init (s_memory_size s) s;
     s \<leftarrow> kernel_start s;
     (x, s) \<leftarrow> modules_start s;
     case x of Blocked \<Rightarrow> Some (Blocked, s) | Done _ \<Rightarrow> Some (Done (), cpu_arch_enable_int s)
   }"

section \<open>The saved modules\<close>

text \<open>What is saved of a module whose parameters name a file: the part after the last slash.\<close>

lemma string_max_length: "length (string_max n m p) \<le> n"
  by (induction n arbitrary: p) auto

lemma string_max_cstring: "cstring m p us \<Longrightarrow> string_max n m p = take n us"
proof (induction us arbitrary: p n)
  case Nil
  then show ?case by (cases n) simp_all
next
  case (Cons c us)
  then show ?case by (cases n) auto
qed

lemma cstring_suffix: "cstring m p (xs @ ys) \<Longrightarrow> cstring m (p + of_nat (length xs)) ys"
proof (induction xs arbitrary: p)
  case (Cons x xs)
  then have "cstring m (p + 1 + of_nat (length xs)) ys" by simp
  then show ?case by (simp add: algebra_simps)
qed simp

lemma cstring_nth: "cstring m p xs \<Longrightarrow> k < length (xs @ [0]) \<Longrightarrow> m (p + of_nat k) = (xs @ [0]) ! k"
proof (induction xs arbitrary: p k)
  case (Cons x xs)
  show ?case
  proof (cases k)
    case (Suc j)
    have "m (p + 1 + of_nat j) = (xs @ [0]) ! j" using Cons Suc by simp
    then show ?thesis using Suc by (simp add: algebra_simps)
  qed (use Cons.prems in simp)
qed simp

text \<open>A C string with room behind it: the parameters of a module.\<close>

definition text_at :: "memory \<Rightarrow> ptr \<Rightarrow> u8 list \<Rightarrow> bool" where
  "text_at m p us \<longleftrightarrow> cstring m p us \<and> p \<noteq> NULL \<and> unat p + length us + 1 < 2 ^ 64"

lemma strrchr_none:
  assumes t: "text_at m p us" and c: "47 \<notin> set us"
  shows "strrchr m p 47 = Some NULL"
proof -
  have s: "cstring m p us" using t by (simp add: text_at_def)
  have n: "\<And>k. k < length (us @ [0]) \<Longrightarrow> m (p + of_nat k) = (us @ [0]) ! k" by (rule cstring_nth [OF s])
  show ?thesis using strrchr_loop_ok [of "us @ [0]" m p 47, OF n] t c by (simp add: strrchr_def strlen_ok [OF s] text_at_def)
qed

lemma strrchr_last:
  assumes t: "text_at m p (xs @ 47 # ys)" and c: "47 \<notin> set ys"
  shows "strrchr m p 47 = Some (p + of_nat (length xs))" and "p + of_nat (length xs) \<noteq> NULL"
    and "string_max n m (p + of_nat (length xs) + 1) = take n ys"
proof -
  let ?us = "xs @ 47 # ys"
  have s: "cstring m p ?us" using t by (simp add: text_at_def)
  have n: "\<And>k. k < length (?us @ [0]) \<Longrightarrow> m (p + of_nat k) = (?us @ [0]) ! k" by (rule cstring_nth [OF s])
  have "takeWhile (\<lambda>x. x \<noteq> 47) (rev (?us @ [0])) = 0 # rev ys" using c by (simp add: takeWhile_append)
  then show "strrchr m p 47 = Some (p + of_nat (length xs))"
    using strrchr_loop_ok [of "?us @ [0]" m p 47, OF n] t by (simp add: strrchr_def strlen_ok [OF s] text_at_def)
  have "unat (p + of_nat (length xs)) = unat p + length xs" using t by (simp add: text_at_def unat_word_ariths(1) unat_of_nat)
  moreover have "0 < unat p" using t by (simp add: text_at_def unat_gt_0)
  ultimately show "p + of_nat (length xs) \<noteq> NULL" by (metis add_gr_0 less_irrefl unat_0)
  show "string_max n m (p + of_nat (length xs) + 1) = take n ys"
    by (rule string_max_cstring) (use cstring_suffix [OF s] in simp)
qed

text \<open>What is saved for a module with the parameters \<open>us\<close>.\<close>

definition base_name :: "u8 list \<Rightarrow> u8 list" where
  "base_name us = rev (takeWhile (\<lambda>x. x \<noteq> 47) (rev us))"

definition saved :: "mb_mod_entry \<Rightarrow> u8 list \<Rightarrow> module_info" where
  "saved md us = \<lparr>mi_addr = ucast (mod_start md), mi_size = ucast ((mod_end md - mod_start md + 0x1000 - 1) AND NOT 0xfff),
     mi_name = take 31 (base_name us)\<rparr>"

definition module_list :: "'a start_state_scheme \<Rightarrow> module_info list" where
  "module_list s = map (s_modules s) [0 ..< s_moduleCount s]"

lemma save_module_eq:
  assumes "text_at (mem s) (ucast (mod_params md)) us"
  shows "\<exists>s'. save_module md s = Some s' \<and> mem s' = mem s
    \<and> module_list s' = module_list s @ (if 47 \<in> set us then [saved md us] else [])"
proof (cases "(47 :: u8) \<in> set us")
  case False
  have "strrchr (mem s) (ucast (mod_params md)) 47 = Some NULL" by (rule strrchr_none [OF assms False])
  then show ?thesis using False by (simp add: save_module_def)
next
  case True
  then obtain xs ys where us: "us = xs @ 47 # ys" "47 \<notin> set ys" by (meson split_list_last)
  note l = strrchr_last [OF assms [unfolded us(1)] us(2)]
  have "base_name us = ys" using us by (simp add: base_name_def takeWhile_append)
  then show ?thesis using True l by (simp add: save_module_def module_list_def saved_def)
qed

lemma save_modules_eq:
  assumes "\<forall>md \<in> set mds. text_at (mem s) (ucast (mod_params md)) (params md)"
  shows "\<exists>s'. save_modules mds s = Some s' \<and> mem s' = mem s
    \<and> module_list s' = module_list s @ map (\<lambda>md. saved md (params md)) (filter (\<lambda>md. 47 \<in> set (params md)) mds)"
  using assms
proof (induction mds arbitrary: s)
  case (Cons md mds)
  obtain s1 where s1: "save_module md s = Some s1" "mem s1 = mem s"
    "module_list s1 = module_list s @ (if 47 \<in> set (params md) then [saved md (params md)] else [])"
    using save_module_eq [of s md "params md"] Cons.prems by auto
  have "\<forall>md \<in> set mds. text_at (mem s1) (ucast (mod_params md)) (params md)" using Cons.prems s1(2) by simp
  then show ?case using Cons.IH [of s1] s1 by auto
qed simp

section \<open>Property\<close>

text \<open>
  C33: the saved modules.  If the parameters of every boot module are a string, \<^verbatim>\<open>save_module_list\<close> ends, changes
  no byte, and the list of saved modules holds, in order, those of the first 32 modules whose parameters have a
  slash, with the name after the last slash, cut to 31 bytes.  So there are at most 32, and the arrays have
  room for all of them and their names.
\<close>

theorem boot_modules_saved:
  assumes "s_moduleCount s = 0"
    and "\<forall>md \<in> set (map (mod_entry info) [0 ..< min (unat (mods_length info)) 32]). text_at (mem s) (ucast (mod_params md)) (params md)"
  shows "\<exists>s'. save_module_list info s = Some s' \<and> mem s' = mem s
    \<and> module_list s' = map (\<lambda>md. saved md (params md))
        (filter (\<lambda>md. 47 \<in> set (params md)) (map (mod_entry info) [0 ..< min (unat (mods_length info)) 32]))
    \<and> s_moduleCount s' \<le> 32 \<and> (\<forall>x \<in> set (module_list s'). length (mi_name x) < 32)"
proof -
  let ?l = "map (mod_entry info) [0 ..< min (unat (mods_length info)) 32]"
  obtain s' where s': "save_modules ?l s = Some s'" "mem s' = mem s"
    "module_list s' = module_list s @ map (\<lambda>md. saved md (params md)) (filter (\<lambda>md. 47 \<in> set (params md)) ?l)"
    using save_modules_eq [OF assms(2)] by blast
  have "s_moduleCount s' = length (filter (\<lambda>md. 47 \<in> set (params md)) ?l)"
    using arg_cong [OF s'(3), of length] assms(1) by (simp add: module_list_def)
  also have "\<dots> \<le> 32" by (rule order_trans [OF length_filter_le]) simp
  finally show ?thesis using s' assms(1) by (intro exI [of _ s']) (auto simp: save_module_list_def module_list_def saved_def)
qed

text \<open>One module, with the parameters "/init" at the address 0x9000.\<close>

abbreviation (input) sample_start :: start_state where
  "sample_start \<equiv> console_state.extend (sample_console\<lparr>mem := (\<lambda>_. 0)(0x9000 := 47, 0x9001 := 105, 0x9002 := 110, 0x9003 := 105, 0x9004 := 116)\<rparr>)
     \<lparr>s_memory_size = 0, s_moduleCount = 0, s_modules = (\<lambda>_. \<lparr>mi_addr = 0, mi_size = 0, mi_name = []\<rparr>)\<rparr>"

abbreviation (input) sample_mods :: mb_info where
  "sample_mods \<equiv> sample_info\<lparr>mods_length := 1, mod_at := (\<lambda>_. \<lparr>mod_start = 0x400000, mod_end = 0x401234, mod_params = 0x9000\<rparr>)\<rparr>"

lemma boot_modules_saved_witness:
  "\<exists>s'. save_module_list sample_mods sample_start = Some s'
     \<and> module_list s' = [\<lparr>mi_addr = 0x400000, mi_size = 0x2000, mi_name = [105, 110, 105, 116]\<rparr>]"
proof -
  note d = console_state.defs shmem_state.defs shmem_defs
  let ?us = "[47, 105, 110, 105, 116] :: u8 list"
  have l: "map (mod_entry sample_mods) [0 ..< min (unat (mods_length sample_mods)) 32] = [\<lparr>mod_start = 0x400000, mod_end = 0x401234, mod_params = 0x9000\<rparr>]"
    by (simp add: mod_entry_def)
  have t: "\<forall>md \<in> set (map (mod_entry sample_mods) [0 ..< min (unat (mods_length sample_mods)) 32]).
      text_at (mem sample_start) (ucast (mod_params md)) ?us"
    unfolding l by (simp add: text_at_def d)
  have z: "s_moduleCount sample_start = 0" by (simp add: d)
  have v: "saved \<lparr>mod_start = 0x400000, mod_end = 0x401234, mod_params = 0x9000\<rparr> ?us = \<lparr>mi_addr = 0x400000, mi_size = 0x2000, mi_name = [105, 110, 105, 116]\<rparr>"
    by (simp add: saved_def base_name_def)
  show ?thesis using boot_modules_saved [where params = "\<lambda>_. ?us", OF z t] unfolding l by (auto simp: v)
qed

end
