(* ===== verification/Userland.thy ===== *)
theory Userland
  imports CString Printf
begin

text \<open>
  User programs and the C library under them (\<^verbatim>\<open>lib/c\<close>).  A program sees the kernel through the system call
  interrupt only, so the kernel is a parameter: a function from the call, its arguments, the memory of the
  program and the state of the rest of the system to the value of \<^verbatim>\<open>rax\<close>, what is stored through the pointers
  that were passed, the memory and the state afterwards.  The memory is an argument because other processes
  share pages with the program.  A call that never comes back has no result.
\<close>

section \<open>System calls\<close>

text \<open>The names of the table; their numbers are in a generated header.\<close>

datatype syscall =
    SYS_ipc_port_create | SYS_ipc_port_delete | SYS_ipc_port_send | SYS_ipc_port_receive
  | SYS_ipc_shmem_create | SYS_ipc_shmem_accept | SYS_ipc_shmem_close | SYS_ipc_server_register | SYS_ipc_server_lookup
  | SYS_irq_register | SYS_irq_finished
  | SYS_pmm_get_statistics | SYS_vmm_map | SYS_vmm_alloc
  | SYS_thread_exit | SYS_thread_get_statistics
  | SYS_dprintf

text \<open>A number, a pointer to a message or a string that the kernel reads, or a pointer it stores through.\<close>

datatype syscall_arg = Num u64 | Msg "u64 list" | Text "u8 list" | Out

type_synonym 'w kernel = "syscall \<Rightarrow> syscall_arg list \<Rightarrow> memory \<Rightarrow> 'w \<Rightarrow> (u64 \<times> u64 list list \<times> memory \<times> 'w) option"

text \<open>
  What all programs have: the rest of the system, their memory, the words that unused parts of their stack hold,
  and the ports of the devices.
\<close>

record 'w user_state =
  world :: 'w
  umem :: memory
  stack :: "nat \<Rightarrow> u64"
  port_log :: "(u16 \<times> u8) list"
  port_device :: "(u16 \<times> u8) list \<Rightarrow> u16 \<Rightarrow> u8"

definition int80 :: "'w kernel \<Rightarrow> syscall \<Rightarrow> syscall_arg list \<Rightarrow> ('w, 'a) user_state_scheme \<Rightarrow> (u64 \<times> u64 list list \<times> ('w, 'a) user_state_scheme) option" where
  "int80 K num args s = do {
     (res, out, m, w) \<leftarrow> K num args (umem s) (world s);
     Some (res, out, s\<lparr>umem := m, world := w\<rparr>)
   }"

definition syscall0 where "syscall0 K num s = int80 K num [] s"
definition syscall1 where "syscall1 K num p1 s = int80 K num [p1] s"
definition syscall2 where "syscall2 K num p1 p2 s = int80 K num [p1, p2] s"
definition syscall3 where "syscall3 K num p1 p2 p3 s = int80 K num [p1, p2, p3] s"

text \<open>A value of type \<^verbatim>\<open>int\<close> as an argument, and the \<^verbatim>\<open>int\<close> that is made of the result.\<close>

abbreviation (input) of_int_arg :: "u32 \<Rightarrow> syscall_arg" where "of_int_arg n \<equiv> Num (scast n)"

definition int_result :: "(u64 \<times> u64 list list \<times> 's) option \<Rightarrow> (u32 \<times> 's) option" where
  "int_result = map_option (\<lambda>(r, _, s). (ucast r, s))"

definition no_result :: "(u64 \<times> u64 list list \<times> 's) option \<Rightarrow> 's option" where
  "no_result = map_option (\<lambda>(_, _, s). s)"

section \<open>Ports, shared memory, servers\<close>

text \<open>The kinds of messages, in the first of the six words of a message.\<close>

abbreviation (input) MSG_DEVICE_ANNOUNCE :: u64 where "MSG_DEVICE_ANNOUNCE \<equiv> 1000"
abbreviation (input) MSG_DEVICE_LOOKUP :: u64 where "MSG_DEVICE_LOOKUP \<equiv> 1001"
abbreviation (input) MSG_DEVICE_OPEN :: u64 where "MSG_DEVICE_OPEN \<equiv> 1002"
abbreviation (input) MSG_DEVICE_CLOSE :: u64 where "MSG_DEVICE_CLOSE \<equiv> 1003"
abbreviation (input) MSG_DEVICE_READ :: u64 where "MSG_DEVICE_READ \<equiv> 1004"
abbreviation (input) MSG_DEVICE_READ_REPLY :: u64 where "MSG_DEVICE_READ_REPLY \<equiv> 1005"
abbreviation (input) MSG_DEVICE_WRITE :: u64 where "MSG_DEVICE_WRITE \<equiv> 1006"
abbreviation (input) MSG_DEVICE_WRITE_REPLY :: u64 where "MSG_DEVICE_WRITE_REPLY \<equiv> 1007"
abbreviation (input) MSG_TERMINAL_CREATE :: u64 where "MSG_TERMINAL_CREATE \<equiv> 1008"

definition ipc_port_create :: "'w kernel \<Rightarrow> ('w, 'a) user_state_scheme \<Rightarrow> (u32 \<times> ('w, 'a) user_state_scheme) option" where
  "ipc_port_create K s = int_result (syscall0 K SYS_ipc_port_create s)"

definition ipc_port_delete :: "'w kernel \<Rightarrow> u32 \<Rightarrow> ('w, 'a) user_state_scheme \<Rightarrow> ('w, 'a) user_state_scheme option" where
  "ipc_port_delete K port s = no_result (syscall1 K SYS_ipc_port_delete (of_int_arg port) s)"

definition ipc_port_send :: "'w kernel \<Rightarrow> u32 \<Rightarrow> u64 list \<Rightarrow> ('w, 'a) user_state_scheme \<Rightarrow> (u32 \<times> ('w, 'a) user_state_scheme) option" where
  "ipc_port_send K port msg s = int_result (syscall2 K SYS_ipc_port_send (of_int_arg port) (Msg msg) s)"

text \<open>A message on the stack that was not initialised.\<close>

definition new_message :: "('w, 'a) user_state_scheme \<Rightarrow> u64 list \<times> ('w, 'a) user_state_scheme" where
  "new_message s = (map (stack s) [0 ..< 6], s\<lparr>stack := (\<lambda>n. stack s (n + 6))\<rparr>)"

text \<open>
  The message and the sender afterwards: what the kernel stored, if it stored something, or what they were
  before.  The sender is an \<^verbatim>\<open>int\<close>.
\<close>

definition stored_message :: "u64 list \<Rightarrow> u64 list list \<Rightarrow> u64 list" where
  "stored_message old out = (case out of m # _ \<Rightarrow> m | [] \<Rightarrow> old)"

definition ipc_port_receive :: "'w kernel \<Rightarrow> u32 \<Rightarrow> u64 list \<Rightarrow> ('w, 'a) user_state_scheme \<Rightarrow> (u32 \<times> u64 list \<times> ('w, 'a) user_state_scheme) option" where
  "ipc_port_receive K port msg s =
     map_option (\<lambda>(r, out, s). (ucast r, stored_message msg out, s)) (syscall3 K SYS_ipc_port_receive (of_int_arg port) Out (Num 0) s)"

definition ipc_port_receive_ext ::
  "'w kernel \<Rightarrow> u32 \<Rightarrow> u64 list \<Rightarrow> u32 \<Rightarrow> ('w, 'a) user_state_scheme \<Rightarrow> (u32 \<times> u64 list \<times> u32 \<times> ('w, 'a) user_state_scheme) option" where
  "ipc_port_receive_ext K port msg sender s =
     map_option (\<lambda>(r, out, s). (ucast r, stored_message msg out, (case out of _ # [x] # _ \<Rightarrow> ucast x | _ \<Rightarrow> sender), s))
       (syscall3 K SYS_ipc_port_receive (of_int_arg port) Out Out s)"

text \<open>The word that was stored through the first pointer, or what was there before.\<close>

definition stored :: "u64 \<Rightarrow> u64 list list \<Rightarrow> u64" where
  "stored old out = (case out of [x] # _ \<Rightarrow> x | _ \<Rightarrow> old)"

definition ipc_shmem_create :: "'w kernel \<Rightarrow> u64 \<Rightarrow> u64 \<Rightarrow> ('w, 'a) user_state_scheme \<Rightarrow> (u32 \<times> u64 \<times> ('w, 'a) user_state_scheme) option" where
  "ipc_shmem_create K sz base s = map_option (\<lambda>(r, out, s). (ucast r, stored base out, s)) (syscall2 K SYS_ipc_shmem_create (Num sz) Out s)"

definition ipc_shmem_accept ::
  "'w kernel \<Rightarrow> u32 \<Rightarrow> u64 \<Rightarrow> u64 \<Rightarrow> ('w, 'a) user_state_scheme \<Rightarrow> (u32 \<times> u64 \<times> u64 \<times> ('w, 'a) user_state_scheme) option" where
  "ipc_shmem_accept K i base sz s =
     map_option (\<lambda>(r, out, s). (ucast r, stored base out, stored sz (drop 1 out), s)) (syscall3 K SYS_ipc_shmem_accept (of_int_arg i) Out Out s)"

definition ipc_shmem_close :: "'w kernel \<Rightarrow> u32 \<Rightarrow> ('w, 'a) user_state_scheme \<Rightarrow> ('w, 'a) user_state_scheme option" where
  "ipc_shmem_close K i s = no_result (syscall1 K SYS_ipc_shmem_close (of_int_arg i) s)"

definition ipc_server_register :: "'w kernel \<Rightarrow> u8 list \<Rightarrow> u32 \<Rightarrow> ('w, 'a) user_state_scheme \<Rightarrow> (u32 \<times> ('w, 'a) user_state_scheme) option" where
  "ipc_server_register K name port s = int_result (syscall2 K SYS_ipc_server_register (Text name) (of_int_arg port) s)"

definition ipc_server_lookup :: "'w kernel \<Rightarrow> u8 list \<Rightarrow> u32 \<Rightarrow> ('w, 'a) user_state_scheme \<Rightarrow> (u32 \<times> ('w, 'a) user_state_scheme) option" where
  "ipc_server_lookup K name wait s = int_result (syscall2 K SYS_ipc_server_lookup (Text name) (of_int_arg wait) s)"

section \<open>Interrupts, memory, threads\<close>

definition irq_register :: "'w kernel \<Rightarrow> u32 \<Rightarrow> u32 \<Rightarrow> ('w, 'a) user_state_scheme \<Rightarrow> (u32 \<times> ('w, 'a) user_state_scheme) option" where
  "irq_register K irq port s = int_result (syscall2 K SYS_irq_register (of_int_arg irq) (of_int_arg port) s)"

definition irq_finished :: "'w kernel \<Rightarrow> u32 \<Rightarrow> ('w, 'a) user_state_scheme \<Rightarrow> (u32 \<times> ('w, 'a) user_state_scheme) option" where
  "irq_finished K irq s = int_result (syscall1 K SYS_irq_finished (of_int_arg irq) s)"

definition mm_map :: "'w kernel \<Rightarrow> u64 \<Rightarrow> u64 \<Rightarrow> ('w, 'a) user_state_scheme \<Rightarrow> (ptr \<times> ('w, 'a) user_state_scheme) option" where
  "mm_map K p sz s = do {
     (r, out, s) \<leftarrow> syscall3 K SYS_vmm_map (Num p) (Num sz) Out s;
     Some (if (ucast r :: u32) \<noteq> 0 then NULL else stored NULL out, s)
   }"

definition mm_alloc :: "'w kernel \<Rightarrow> u64 \<Rightarrow> ('w, 'a) user_state_scheme \<Rightarrow> (ptr \<times> ('w, 'a) user_state_scheme) option" where
  "mm_alloc K sz s = do {
     (r, out, s) \<leftarrow> syscall2 K SYS_vmm_alloc (Num sz) Out s;
     Some (if (ucast r :: u32) \<noteq> 0 then NULL else stored NULL out, s)
   }"

record mm_phys_stat =
  ps_memory_size :: u64
  ps_used_size :: u64

text \<open>A structure the kernel did not fill keeps what it held.\<close>

definition mm_get_phys_stat :: "'w kernel \<Rightarrow> mm_phys_stat \<Rightarrow> ('w, 'a) user_state_scheme \<Rightarrow> (mm_phys_stat \<times> ('w, 'a) user_state_scheme) option" where
  "mm_get_phys_stat K stat s =
     map_option (\<lambda>(_, out, s). (case out of [a, b] # _ \<Rightarrow> \<lparr>ps_memory_size = a, ps_used_size = b\<rparr> | _ \<Rightarrow> stat, s))
       (syscall1 K SYS_pmm_get_statistics Out s)"

definition thread_exit :: "'w kernel \<Rightarrow> u32 \<Rightarrow> ('w, 'a) user_state_scheme \<Rightarrow> ('w, 'a) user_state_scheme option" where
  "thread_exit K code s = no_result (syscall1 K SYS_thread_exit (of_int_arg code) s)"

definition thread_get_statistics :: "'w kernel \<Rightarrow> u64 \<Rightarrow> ('w, 'a) user_state_scheme \<Rightarrow> (u64 \<times> ('w, 'a) user_state_scheme) option" where
  "thread_get_statistics K number s = map_option (\<lambda>(_, out, s). (stored number out, s)) (syscall1 K SYS_thread_get_statistics Out s)"

text \<open>\<^verbatim>\<open>__libc_start_main\<close> around the main function of a program.\<close>

definition libc_start_main ::
  "'w kernel \<Rightarrow> (('w, 'a) user_state_scheme \<Rightarrow> (u32 \<times> ('w, 'a) user_state_scheme) option) \<Rightarrow> ('w, 'a) user_state_scheme \<Rightarrow> ('w, 'a) user_state_scheme option" where
  "libc_start_main K main s = do {
     (ret, s) \<leftarrow> main s;
     thread_exit K ret s
   }"

section \<open>Ports of devices and memory functions\<close>

definition outb :: "u8 \<Rightarrow> u16 \<Rightarrow> ('w, 'a) user_state_scheme \<Rightarrow> ('w, 'a) user_state_scheme" where
  "outb data port s = s\<lparr>port_log := port_log s @ [(port, data)]\<rparr>"

definition inb :: "u16 \<Rightarrow> ('w, 'a) user_state_scheme \<Rightarrow> u8" where
  "inb port s = port_device s (port_log s) port"

definition memcpy :: "ptr \<Rightarrow> ptr \<Rightarrow> u64 \<Rightarrow> memory \<Rightarrow> memory" where
  "memcpy d s n m = copy_up (unat n) d s m"

definition memmove :: "ptr \<Rightarrow> ptr \<Rightarrow> u64 \<Rightarrow> memory \<Rightarrow> memory" where
  "memmove dest src n m =
     (if dest < src then copy_up (unat n) dest src m
      else copy_down (unat n) (dest + n) (src + n) m)"

section \<open>Formatted printing\<close>

text \<open>\<^verbatim>\<open>stdio/_printf.c\<close>, whose functions for strings and numbers are those of the kernel.\<close>

definition u_printf_string :: "(u8 \<Rightarrow> 's \<Rightarrow> 's option) \<Rightarrow> u8 list \<Rightarrow> 's \<Rightarrow> 's option" where
  "u_printf_string out cs s = printf_string out cs s"

definition u_printf_number :: "(u8 \<Rightarrow> 's \<Rightarrow> 's option) \<Rightarrow> u64 \<Rightarrow> u64 \<Rightarrow> u32 \<Rightarrow> 's \<Rightarrow> 's option" where
  "u_printf_number out n base flags s = printf_number out n base flags s"

text \<open>100 is d, 120 x, 117 u, 99 c, 115 s and 108 l.\<close>

fun u_printf_loop ::
  "(u8 \<Rightarrow> 's \<Rightarrow> 's option) \<Rightarrow> u8 list \<Rightarrow> u32 \<Rightarrow> printf_state \<Rightarrow> vararg list \<Rightarrow> 's \<Rightarrow> 's option" where
  "u_printf_loop out [] flags st args s = Some s"
| "u_printf_loop out (ch # fmt) flags NORMAL args s =
     (if ch = 37 then u_printf_loop out fmt 0 FORMAT args s
      else do {
        s \<leftarrow> out ch s;
        u_printf_loop out fmt flags NORMAL args s
      })"
| "u_printf_loop out (ch # fmt) flags FORMAT args s =
     (if ch = 100 then do {
        (w, args) \<leftarrow> next_word args;
        let n = signed_arg flags w;
        let (n, flags) = (if sint n < 0 then (- n, flags OR F_NEGATIVE) else (n, flags));
        s \<leftarrow> u_printf_number out n 10 flags s;
        u_printf_loop out fmt flags NORMAL args s
      }
      else if ch = 120 \<or> ch = 117 then do {
        (w, args) \<leftarrow> next_word args;
        s \<leftarrow> u_printf_number out (unsigned_arg flags w) (if ch = 120 then 16 else 10) 0 s;
        u_printf_loop out fmt flags NORMAL args s
      }
      else if ch = 99 then do {
        (w, args) \<leftarrow> next_word args;
        s \<leftarrow> out (ucast w) s;
        u_printf_loop out fmt flags NORMAL args s
      }
      else if ch = 115 then
        (case args of
           Str cs # args \<Rightarrow> do {
             s \<leftarrow> u_printf_string out cs s;
             u_printf_loop out fmt flags NORMAL args s
           }
         | _ \<Rightarrow> None)
      else if ch = 108 then u_printf_loop out fmt (long_flag flags) FORMAT args s
      else u_printf_loop out fmt flags NORMAL args s)"

definition u_printf_helper :: "(u8 \<Rightarrow> 's \<Rightarrow> 's option) \<Rightarrow> u8 list \<Rightarrow> vararg list \<Rightarrow> 's \<Rightarrow> 's option" where
  "u_printf_helper out fmt args s = u_printf_loop out fmt 0 NORMAL args s"

text \<open>The buffer as a function from the index, which is an \<^verbatim>\<open>int\<close>, to the byte.\<close>

record snprintf_data =
  sd_buf :: "int \<Rightarrow> u8"
  sd_size :: u32
  sd_max :: u32

definition snprintf_out_helper :: "u8 \<Rightarrow> snprintf_data \<Rightarrow> snprintf_data option" where
  "snprintf_out_helper c d =
     (if sd_size d = sd_max d then Some d
      else Some (d\<lparr>sd_buf := (sd_buf d)(sint (sd_size d) := c), sd_size := sd_size d + 1\<rparr>))"

definition vsnprintf :: "(int \<Rightarrow> u8) \<Rightarrow> u64 \<Rightarrow> u8 list \<Rightarrow> vararg list \<Rightarrow> (u32 \<times> (int \<Rightarrow> u8)) option" where
  "vsnprintf str sz format args = do {
     d \<leftarrow> u_printf_helper snprintf_out_helper format args \<lparr>sd_buf = str, sd_size = 0, sd_max = ucast sz\<rparr>;
     let d = (if sd_size d = sd_max d then d\<lparr>sd_size := sd_size d - 1\<rparr> else d);
     let d = d\<lparr>sd_buf := (sd_buf d)(sint (sd_size d) := 0)\<rparr>;
     Some (sd_size d, sd_buf d)
   }"

text \<open>The string in a buffer of \<open>n\<close> bytes, up to the terminating zero.\<close>

definition buf_string :: "(int \<Rightarrow> u8) \<Rightarrow> nat \<Rightarrow> u8 list" where
  "buf_string b n = takeWhile (\<lambda>c. c \<noteq> 0) (map (\<lambda>i. b (int i)) [0 ..< n])"

text \<open>\<^verbatim>\<open>dbprintf\<close>, whose buffer is on the stack, and texts as bytes.\<close>

definition stack_buffer :: "('w, 'a) user_state_scheme \<Rightarrow> int \<Rightarrow> u8" where
  "stack_buffer s i = ucast (stack s (nat i))"

definition chars :: "string \<Rightarrow> u8 list" where
  "chars = map of_char"

definition dbprintf :: "'w kernel \<Rightarrow> u8 list \<Rightarrow> vararg list \<Rightarrow> ('w, 'a) user_state_scheme \<Rightarrow> ('w, 'a) user_state_scheme option" where
  "dbprintf K fmt args s = do {
     (_, buf) \<leftarrow> vsnprintf (stack_buffer s) 256 fmt args;
     no_result (syscall1 K SYS_dprintf (Text (buf_string buf 256)) s)
   }"

section \<open>Printing into a buffer of bounded size\<close>

text \<open>Printing with two functions that simulate each other.\<close>

definition simulates :: "('a \<Rightarrow> 'b \<Rightarrow> bool) \<Rightarrow> (u8 \<Rightarrow> 'a \<Rightarrow> 'a option) \<Rightarrow> (u8 \<Rightarrow> 'b \<Rightarrow> 'b option) \<Rightarrow> bool" where
  "simulates R f g \<longleftrightarrow> (\<forall>c a b a'. R a b \<longrightarrow> f c a = Some a' \<longrightarrow> (\<exists>b'. g c b = Some b' \<and> R a' b'))"

lemma simulatesD: "simulates R f g \<Longrightarrow> R a b \<Longrightarrow> f c a = Some a' \<Longrightarrow> \<exists>b'. g c b = Some b' \<and> R a' b'"
  by (auto simp: simulates_def)

lemma printf_string_simulates:
  "simulates R f g \<Longrightarrow> R a b \<Longrightarrow> printf_string f cs a = Some a' \<Longrightarrow> \<exists>b'. printf_string g cs b = Some b' \<and> R a' b'"
proof (induction cs arbitrary: a b)
  case (Cons c cs)
  then obtain a1 where a1: "f c a = Some a1" "printf_string f cs a1 = Some a'" by (auto simp: bind_eq_Some_conv)
  then obtain b1 where "g c b = Some b1" "R a1 b1" using simulatesD [OF Cons.prems(1,2)] by blast
  then show ?case using Cons.IH [OF Cons.prems(1), of a1 b1] a1 by auto
qed simp

lemma printf_number_simulates:
  "simulates R f g \<Longrightarrow> R a b \<Longrightarrow> printf_number f n base flags a = Some a' \<Longrightarrow> \<exists>b'. printf_number g n base flags b = Some b' \<and> R a' b'"
  using printf_string_simulates by (fastforce simp: printf_number_def bind_eq_Some_conv)

lemma u_printf_simulates:
  "simulates R f g \<Longrightarrow> R a b \<Longrightarrow> u_printf_loop f fmt flags st args a = Some a'
     \<Longrightarrow> \<exists>b'. u_printf_loop g fmt flags st args b = Some b' \<and> R a' b'"
proof (induction fmt arbitrary: flags st args a b)
  case Nil
  then show ?case by simp
next
  case (Cons ch fmt)
  note sim = Cons.prems(1) and ab = Cons.prems(2) and run = Cons.prems(3)
  show ?case
  proof (cases st)
    case NORMAL
    show ?thesis
    proof (cases "ch = 37")
      case True
      then show ?thesis using Cons.IH [OF sim ab] run NORMAL by simp
    next
      case False
      then obtain a1 where a1: "f ch a = Some a1" "u_printf_loop f fmt flags NORMAL args a1 = Some a'"
        using run NORMAL by (auto simp: bind_eq_Some_conv)
      then obtain b1 where "g ch b = Some b1" "R a1 b1" using simulatesD [OF sim ab] by blast
      then show ?thesis using Cons.IH [OF sim _ a1(2)] False NORMAL by auto
    qed
  next
    case FORMAT
    have number: "\<exists>b'. Option.bind (printf_number g n base fl b) (u_printf_loop g fmt flags' NORMAL args') = Some b' \<and> R a' b'"
      if "printf_number f n base fl a = Some a1" "u_printf_loop f fmt flags' NORMAL args' a1 = Some a'" for n base fl a1 args' flags'
      using printf_number_simulates [OF sim ab that(1)] Cons.IH [OF sim _ that(2)] by auto
    consider "ch = 100" | "ch = 120 \<or> ch = 117" | "ch = 99" | "ch = 115" | "ch = 108"
      | "ch \<noteq> 100" "ch \<noteq> 120" "ch \<noteq> 117" "ch \<noteq> 99" "ch \<noteq> 115" "ch \<noteq> 108" by blast
    then show ?thesis
    proof cases
      case 1
      obtain w args' where w: "next_word args = Some (w, args')"
        using run FORMAT 1 by (auto simp: bind_eq_Some_conv)
      obtain n fl where nf: "(if sint (signed_arg flags w) < 0 then (- signed_arg flags w, flags OR F_NEGATIVE) else (signed_arg flags w, flags)) = (n, fl)"
        by fastforce
      obtain a1 where "printf_number f n 10 fl a = Some a1" "u_printf_loop f fmt fl NORMAL args' a1 = Some a'"
        using run by (auto simp: FORMAT 1 w nf Let_def u_printf_number_def bind_eq_Some_conv)
      from number [OF this] show ?thesis by (simp add: FORMAT 1 w nf Let_def u_printf_number_def)
    next
      case 2
      obtain w args' where w: "next_word args = Some (w, args')"
        using run FORMAT 2 by (auto simp: bind_eq_Some_conv)
      obtain a1 where "printf_number f (unsigned_arg flags w) (if ch = 120 then 16 else 10) 0 a = Some a1" "u_printf_loop f fmt flags NORMAL args' a1 = Some a'"
        using run 2 by (auto simp: FORMAT w u_printf_number_def bind_eq_Some_conv)
      from number [OF this] show ?thesis using 2 by (auto simp: FORMAT w u_printf_number_def)
    next
      case 3
      obtain w args' a1 where a1: "next_word args = Some (w, args')" "f (ucast w) a = Some a1" "u_printf_loop f fmt flags NORMAL args' a1 = Some a'"
        using run by (auto simp: FORMAT 3 bind_eq_Some_conv)
      then obtain b1 where "g (ucast w) b = Some b1" "R a1 b1" using simulatesD [OF sim ab] by blast
      then show ?thesis using Cons.IH [OF sim _ a1(3)] by (auto simp: FORMAT 3 a1)
    next
      case 4
      obtain cs args' a1 where a1: "args = Str cs # args'" "printf_string f cs a = Some a1" "u_printf_loop f fmt flags NORMAL args' a1 = Some a'"
        using run by (auto simp: FORMAT 4 u_printf_string_def bind_eq_Some_conv split: list.splits vararg.splits)
      then show ?thesis using printf_string_simulates [OF sim ab a1(2)] Cons.IH [OF sim _ a1(3)] by (auto simp: FORMAT 4 u_printf_string_def)
    next
      case 5
      then show ?thesis using Cons.IH [OF sim ab] run FORMAT by simp
    next
      case 6
      then show ?thesis using Cons.IH [OF sim ab] run FORMAT by simp
    qed
  qed
qed

text \<open>The text a format makes, and what the buffer holds after some of it.\<close>

definition collect :: "u8 \<Rightarrow> u8 list \<Rightarrow> u8 list option" where "collect c t = Some (t @ [c])"

definition holds_prefix :: "(int \<Rightarrow> u8) \<Rightarrow> u32 \<Rightarrow> u8 list \<Rightarrow> snprintf_data \<Rightarrow> bool" where
  "holds_prefix str mx t d \<longleftrightarrow> sd_max d = mx \<and> unat (sd_size d) = min (length t) (unat mx)
     \<and> (\<forall>i. sd_buf d i = (if 0 \<le> i \<and> nat i < unat (sd_size d) then t ! nat i else str i))"

lemma holds_prefix_step:
  assumes mx: "unat mx < 2 ^ 31"
  shows "simulates (holds_prefix str mx) collect snprintf_out_helper"
  unfolding simulates_def
proof (intro allI impI)
  fix c t d t'
  assume d: "holds_prefix str mx t d" and t': "collect c t = Some t'"
  show "\<exists>d'. snprintf_out_helper c d = Some d' \<and> holds_prefix str mx t' d'"
  proof (cases "sd_size d = mx")
    case True
    then show ?thesis using d t' by (auto simp: holds_prefix_def snprintf_out_helper_def collect_def nth_append)
  next
    case False
    then have less: "unat (sd_size d) < unat mx" "unat (sd_size d) = length t"
      using d by (auto simp: holds_prefix_def word_unat_eq_iff)
    then have "unat (sd_size d + 1) = length t + 1" "sint (sd_size d) = int (length t)"
      using mx by (auto simp: unat_word_ariths sint_small)
    then show ?thesis using False d t' less
      by (auto simp: holds_prefix_def snprintf_out_helper_def collect_def nth_append)
  qed
qed

lemma terminated:
  assumes "\<forall>i. b i = (if 0 \<le> i \<and> nat i < m then t ! nat i else str i)" and "n \<le> m" and "m \<le> Suc n"
  shows "(b(int n := 0)) i = (if i < 0 then str i else if nat i < n then t ! nat i else if nat i = n then 0 else str i)"
  using assms by auto

text \<open>
  C34: \<^verbatim>\<open>vsnprintf\<close> with a buffer of at least one byte always ends.  If the format and its arguments make the
  text \<open>t\<close>, the buffer holds as much of \<open>t\<close> as fits before a terminating zero, the length of that is returned,
  and no byte behind the zero is written, in particular none outside the buffer.
\<close>

theorem vsnprintf_bounded:
  assumes made: "u_printf_helper collect format args [] = Some t"
    and sz: "0 < unat sz" "unat sz < 2 ^ 31"
  shows "\<exists>n buf. vsnprintf str sz format args = Some (n, buf) \<and> unat n = min (length t) (unat sz - 1)
    \<and> (\<forall>i. buf i = (if i < 0 then str i else if nat i < unat n then t ! nat i else if nat i = unat n then 0 else str i))"
proof -
  let ?mx = "ucast sz :: u32"
  have mx: "unat ?mx = unat sz" using sz by (simp add: unsigned_ucast_eq take_bit_eq_mod)
  have "holds_prefix str ?mx [] \<lparr>sd_buf = str, sd_size = 0, sd_max = ?mx\<rparr>" by (simp add: holds_prefix_def)
  then obtain d where run: "u_printf_helper snprintf_out_helper format args \<lparr>sd_buf = str, sd_size = 0, sd_max = ?mx\<rparr> = Some d"
    and d: "holds_prefix str ?mx t d"
    using u_printf_simulates [OF holds_prefix_step [of ?mx str]] made sz(2) mx by (metis u_printf_helper_def)
  define n where "n = (if sd_size d = ?mx then ?mx - 1 else sd_size d)"
  have size: "unat (sd_size d) = min (length t) (unat sz)" "sd_max d = ?mx" using d mx by (simp_all add: holds_prefix_def)
  have n: "unat n = min (length t) (unat sz - 1)"
  proof (cases "sd_size d = ?mx")
    case True
    have "?mx \<noteq> 0" using sz mx by (metis less_irrefl unat_0)
    then have "unat (?mx - 1) = unat sz - 1" using mx by (simp add: unat_minus_one)
    then show ?thesis using True size mx by (simp add: n_def)
  next
    case False
    then have "length t < unat sz" using size mx by (auto simp: word_unat_eq_iff min_def split: if_splits)
    then have "length t \<le> unat sz - 1" by linarith
    then show ?thesis using False size \<open>length t < unat sz\<close> by (simp add: n_def)
  qed
  have "vsnprintf str sz format args = Some (n, (sd_buf d)(sint n := 0))"
    by (simp add: vsnprintf_def run size(2) n_def Let_def)
  moreover have "((sd_buf d)(sint n := 0)) i
      = (if i < 0 then str i else if nat i < unat n then t ! nat i else if nat i = unat n then 0 else str i)" for i
  proof -
    have "sint n = int (unat n)" using n sz by (simp add: sint_small)
    moreover have "unat n \<le> unat (sd_size d)" "unat (sd_size d) \<le> Suc (unat n)" using n size sz by linarith+
    moreover have "\<forall>i. sd_buf d i = (if 0 \<le> i \<and> nat i < unat (sd_size d) then t ! nat i else str i)"
      using d unfolding holds_prefix_def by blast
    ultimately show ?thesis using terminated [of "sd_buf d"] by presburger
  qed
  ultimately show ?thesis using n by blast
qed

text \<open>The text "a%sz" with the argument "bc" in a buffer of four bytes.\<close>

lemma vsnprintf_bounded_witness:
  "\<exists>n buf. vsnprintf (\<lambda>_. 255) 4 [97, 37, 115, 122] [Str [98, 99]] = Some (n, buf) \<and> unat n = 3
     \<and> (\<forall>i. buf i = (if i < 0 then 255 else if nat i < unat n then [97, 98, 99, 122] ! nat i else if nat i = unat n then 0 else 255))"
proof -
  have "u_printf_helper collect [97, 37, 115, 122] [Str [98, 99]] [] = Some [97, 98, 99, 122]" by code_simp
  note made = vsnprintf_bounded [OF this, of 4 "\<lambda>_. 255"]
  have "min (length [97 :: u8, 98, 99, 122]) (unat (4 :: u64) - 1) = 3" by simp
  from made [unfolded this] show ?thesis by (simp del: One_nat_def)
qed

end
