(* ===== verification/Support.thy ===== *)
theory Support
  imports Userland Hashtable
begin

text \<open>
  The support library of user programs (\<^verbatim>\<open>lib/support\<close>): an object allocator over pages from the kernel and
  chained hash tables, both without locks.  A program names its caches by the addresses of the structures.  The
  parts of the code that are the same as in the kernel and work on a heap alone are the functions of
  \<^verbatim>\<open>Slab\<close> and \<^verbatim>\<open>Hashtable\<close>.
\<close>

section \<open>The object allocator\<close>

record uslab =
  us_next :: ptr
  us_cache :: ptr
  us_base :: ptr
  us_free_list :: ptr
  us_free_count :: nat

record uslab_cache =
  uc_slab_size :: u64
  uc_obj_size :: u64
  uc_per_slab :: nat
  uc_full :: ptr
  uc_partial :: ptr

record 'w support_state = "'w user_state" +
  uslabs :: "ptr \<Rightarrow> uslab"
  ubufs :: "ptr \<Rightarrow> ptr"
  ucaches :: "ptr \<Rightarrow> uslab_cache"
  ubuckets :: "ptr \<Rightarrow> nat \<Rightarrow> ptr"
  uhnext :: "ptr \<Rightarrow> ptr"

definition set_uslab :: "ptr \<Rightarrow> (uslab \<Rightarrow> uslab) \<Rightarrow> ('w, 'a) support_state_scheme \<Rightarrow> ('w, 'a) support_state_scheme" where
  "set_uslab x f s = s\<lparr>uslabs := (uslabs s)(x := f (uslabs s x))\<rparr>"

definition set_ucache :: "ptr \<Rightarrow> (uslab_cache \<Rightarrow> uslab_cache) \<Rightarrow> ('w, 'a) support_state_scheme \<Rightarrow> ('w, 'a) support_state_scheme" where
  "set_ucache c f s = s\<lparr>ucaches := (ucaches s)(c := f (ucaches s c))\<rparr>"

definition slab_create :: "'w kernel \<Rightarrow> ptr \<Rightarrow> ('w, 'a) support_state_scheme \<Rightarrow> (ptr \<times> ('w, 'a) support_state_scheme) option" where
  "slab_create K c s = do {
     (data, s) \<leftarrow> mm_alloc K PAGE_SIZE s;
     if data = NULL then Some (NULL, s)
     else do {
       let cache = ucaches s c;
       let x = data + uc_slab_size cache - sizeof_slab;
       let (fl, b) = slab_fill (uc_per_slab cache) (uc_obj_size cache) data NULL (ubufs s);
       let sl = \<lparr>us_next = NULL, us_cache = c, us_base = data, us_free_list = fl, us_free_count = uc_per_slab cache\<rparr>;
       Some (x, s\<lparr>uslabs := (uslabs s)(x := sl), ubufs := b\<rparr>)
     }
   }"

text \<open>A cache whose objects are too small or too big is only partly set up.\<close>

definition slab_cache_init :: "ptr \<Rightarrow> u64 \<Rightarrow> ('w, 'a) support_state_scheme \<Rightarrow> int \<times> ('w, 'a) support_state_scheme" where
  "slab_cache_init c osz s =
     (let s = set_ucache c (\<lambda>x. x\<lparr>uc_obj_size := (osz + 8 - 1) AND NOT (8 - 1)\<rparr>) s
      in if uc_obj_size (ucaches s c) < 8 then (-1, s)
         else
           let s = set_ucache c (\<lambda>x. x\<lparr>uc_slab_size := PAGE_SIZE,
                                       uc_per_slab := unat ((PAGE_SIZE - sizeof_slab) div uc_obj_size x)\<rparr>) s
           in if uc_per_slab (ucaches s c) < 1 then (-1, s)
              else (0, set_ucache c (\<lambda>x. x\<lparr>uc_full := NULL, uc_partial := NULL\<rparr>) s))"

definition slab_refill :: "'w kernel \<Rightarrow> ptr \<Rightarrow> ('w, 'a) support_state_scheme \<Rightarrow> (bool \<times> ('w, 'a) support_state_scheme) option" where
  "slab_refill K c s =
     (if uc_partial (ucaches s c) \<noteq> NULL then Some (True, s)
      else do {
        (x, s) \<leftarrow> slab_create K c s;
        if x = NULL then Some (False, s)
        else
          let s = set_uslab x (\<lambda>y. y\<lparr>us_next := NULL\<rparr>) s
          in Some (True, set_ucache c (\<lambda>y. y\<lparr>uc_partial := x\<rparr>) s)
      })"

definition slab_pop :: "ptr \<Rightarrow> ('w, 'a) support_state_scheme \<Rightarrow> (ptr \<times> ('w, 'a) support_state_scheme) option" where
  "slab_pop c s =
     (let x = uc_partial (ucaches s c);
          buffer = us_free_list (uslabs s x)
      in if buffer = NULL then None
         else
           let s = set_uslab x (\<lambda>y. y\<lparr>us_free_list := ubufs s buffer, us_free_count := us_free_count y - 1\<rparr>) s
           in if us_free_list (uslabs s x) = NULL then
                let s = set_ucache c (\<lambda>y. y\<lparr>uc_partial := us_next (uslabs s x)\<rparr>) s;
                    s = set_uslab x (\<lambda>y. y\<lparr>us_next := uc_full (ucaches s c)\<rparr>) s;
                    s = set_ucache c (\<lambda>y. y\<lparr>uc_full := x\<rparr>) s
                in Some (buffer, s)
              else Some (buffer, s))"

definition slab_cache_alloc :: "'w kernel \<Rightarrow> ptr \<Rightarrow> ('w, 'a) support_state_scheme \<Rightarrow> (ptr \<times> ('w, 'a) support_state_scheme) option" where
  "slab_cache_alloc K c s = do {
     (ok, s) \<leftarrow> slab_refill K c s;
     if \<not> ok then Some (NULL, s) else slab_pop c s
   }"

partial_function (option) slab_unlink ::
  "ptr \<Rightarrow> ptr \<Rightarrow> ptr \<Rightarrow> ptr \<Rightarrow> (ptr \<Rightarrow> uslab) \<Rightarrow> (ptr \<times> (ptr \<Rightarrow> uslab)) option" where
  "slab_unlink x prev item first sl =
     (if item = NULL then Some (first, sl)
      else if item = x then
        (if prev = NULL then Some (us_next (sl item), sl)
         else Some (first, sl(prev := (sl prev)\<lparr>us_next := us_next (sl item)\<rparr>)))
      else slab_unlink x item (us_next (sl item)) first sl)"

text \<open>An object of another cache is left alone; a slab whose objects are all free stays where it is.\<close>

definition slab_cache_free :: "ptr \<Rightarrow> ptr \<Rightarrow> ('w, 'a) support_state_scheme \<Rightarrow> ('w, 'a) support_state_scheme option" where
  "slab_cache_free c p s =
     (let x = (p AND NOT (uc_slab_size (ucaches s c) - 1)) + uc_slab_size (ucaches s c) - sizeof_slab
      in if us_cache (uslabs s x) \<noteq> c then Some s
         else do {
           let slab_was_full = (us_free_count (uslabs s x) = 0);
           let s = s\<lparr>ubufs := (ubufs s)(p := us_free_list (uslabs s x))\<rparr>;
           let s = set_uslab x (\<lambda>y. y\<lparr>us_free_list := p, us_free_count := us_free_count y + 1\<rparr>) s;
           if slab_was_full then do {
             (first, sl) \<leftarrow> slab_unlink x NULL (uc_full (ucaches s c)) (uc_full (ucaches s c)) (uslabs s);
             let s = set_ucache c (\<lambda>y. y\<lparr>uc_full := first\<rparr>) (s\<lparr>uslabs := sl\<rparr>);
             let s = set_uslab x (\<lambda>y. y\<lparr>us_next := uc_partial (ucaches s c)\<rparr>) s;
             Some (set_ucache c (\<lambda>y. y\<lparr>uc_partial := x\<rparr>) s)
           }
           else Some s
         })"

section \<open>Hash tables\<close>

definition hashtable_hash_int :: "u32 \<Rightarrow> u32" where
  "hashtable_hash_int k =
     (let hash = hash_bytes (int_bytes k) 0;
          hash = hash + push_bit 3 hash;
          hash = hash XOR drop_bit 11 hash
      in hash + push_bit 15 hash)"

definition hashtable_compare_int :: "u32 \<Rightarrow> u32 \<Rightarrow> bool" where
  "hashtable_compare_int k1 k2 \<longleftrightarrow> k1 = k2"

definition hashtable_add ::
  "(ptr \<Rightarrow> 'k) \<Rightarrow> 'k hashtable \<Rightarrow> ptr \<Rightarrow> ('w, 'a) support_state_scheme \<Rightarrow> ('k hashtable \<times> ('w, 'a) support_state_scheme) option" where
  "hashtable_add key t item s = do {
     idx \<leftarrow> hash_idx t (key item);
     let s = s\<lparr>uhnext := (uhnext s)(item := ubuckets s (ht_table t) idx)\<rparr>;
     let s = s\<lparr>ubuckets := (ubuckets s)(ht_table t := (ubuckets s (ht_table t))(idx := item))\<rparr>;
     Some (t\<lparr>ht_items := ht_items t + 1\<rparr>, s)
   }"

definition hashtable_get :: "(ptr \<Rightarrow> 'k) \<Rightarrow> 'k hashtable \<Rightarrow> 'k \<Rightarrow> ('w, 'a) support_state_scheme \<Rightarrow> ptr option" where
  "hashtable_get key t k s = do {
     idx \<leftarrow> hash_idx t k;
     get_loop key (ht_compare t) k (uhnext s) (ubuckets s (ht_table t) idx)
   }"

definition hashtable_remove ::
  "(ptr \<Rightarrow> 'k) \<Rightarrow> 'k hashtable \<Rightarrow> 'k \<Rightarrow> ('w, 'a) support_state_scheme \<Rightarrow> (ptr \<times> ('w, 'a) support_state_scheme) option" where
  "hashtable_remove key t k s = do {
     idx \<leftarrow> hash_idx t k;
     (prev, item) \<leftarrow> remove_loop key (ht_compare t) k (uhnext s) NULL (ubuckets s (ht_table t) idx);
     if item = NULL then Some (NULL, s)
     else if prev \<noteq> NULL then Some (item, s\<lparr>uhnext := (uhnext s)(prev := uhnext s item)\<rparr>)
     else Some (item, s\<lparr>ubuckets := (ubuckets s)(ht_table t := (ubuckets s (ht_table t))(idx := uhnext s item))\<rparr>)
   }"

text \<open>Without a page only the pointer to the table is written.\<close>

definition hashtable_init ::
  "'w kernel \<Rightarrow> 'k hashtable \<Rightarrow> ('k \<Rightarrow> u32) \<Rightarrow> ('k \<Rightarrow> 'k \<Rightarrow> bool) \<Rightarrow> ('w, 'a) support_state_scheme
     \<Rightarrow> (int \<times> 'k hashtable \<times> ('w, 'a) support_state_scheme) option" where
  "hashtable_init K t hash cmp s = do {
     (p, s) \<leftarrow> mm_alloc K PAGE_SIZE s;
     if p = NULL then Some (-1, t\<lparr>ht_table := NULL\<rparr>, s)
     else Some (0, \<lparr>ht_table = p, ht_size = unat (PAGE_SIZE div 8), ht_items = 0, ht_hash = hash, ht_compare = cmp\<rparr>, s)
   }"

end
