(* ===== verification/UserPool.thy ===== *)
theory UserPool
  imports Support
begin

text \<open>
  What clients of the allocator of user programs rely on: an allocated object is in use by nobody, a freed one
  can be allocated again, and the operations end.  The kernel has to hand out pages it has not handed out
  before; \<open>gr\<close> gives the pages the program has got, in a state of the rest of the system.
\<close>

section \<open>What the kernel promises\<close>

definition grants_pages :: "('w \<Rightarrow> ptr set) \<Rightarrow> 'w kernel \<Rightarrow> bool" where
  "grants_pages gr K \<longleftrightarrow>
     (\<forall>call args m w r out m' w'. K call args m w = Some (r, out, m', w') \<longrightarrow> gr w \<subseteq> gr w')
     \<and> (\<forall>m w. \<exists>r out m' w'. K SYS_vmm_alloc [Num PAGE_SIZE, Out] m w = Some (r, out, m', w')
          \<and> ((ucast r :: u32) = 0 \<and> stored NULL out \<noteq> NULL \<longrightarrow>
               page_aligned (stored NULL out) \<and> stored NULL out \<notin> gr w \<and> stored NULL out \<in> gr w'))"

lemma mm_alloc_page:
  assumes "grants_pages gr K"
  shows "\<exists>p m w. mm_alloc K PAGE_SIZE s = Some (p, s\<lparr>umem := m, world := w\<rparr>) \<and> gr (world s) \<subseteq> gr w
    \<and> (p \<noteq> NULL \<longrightarrow> page_aligned p \<and> p \<notin> gr (world s) \<and> p \<in> gr w)"
proof -
  obtain r out m w where K: "K SYS_vmm_alloc [Num PAGE_SIZE, Out] (umem s) (world s) = Some (r, out, m, w)"
    "(ucast r :: u32) = 0 \<and> stored NULL out \<noteq> NULL \<longrightarrow> page_aligned (stored NULL out) \<and> stored NULL out \<notin> gr (world s) \<and> stored NULL out \<in> gr w"
    using assms unfolding grants_pages_def by meson
  moreover have "gr (world s) \<subseteq> gr w" using assms K(1) unfolding grants_pages_def by blast
  moreover have "mm_alloc K PAGE_SIZE s = Some (if (ucast r :: u32) \<noteq> 0 then NULL else stored NULL out, s\<lparr>umem := m, world := w\<rparr>)"
    using K(1) by (simp add: mm_alloc_def syscall2_def int80_def)
  ultimately show ?thesis
    by (intro exI [of _ "if (ucast r :: u32) \<noteq> 0 then NULL else stored NULL out"] exI [of _ m] exI [of _ w]) auto
qed

section \<open>Slabs and their objects\<close>

definition usizes :: "uslab_cache \<Rightarrow> bool" where
  "usizes ca \<longleftrightarrow> uc_slab_size ca = PAGE_SIZE \<and> 8 \<le> unat (uc_obj_size ca) \<and> 1 \<le> uc_per_slab ca
     \<and> uc_per_slab ca * unat (uc_obj_size ca) \<le> 4056"

definition slab_pos :: "ptr \<Rightarrow> ptr" where
  "slab_pos b = b + 0xfd8"

definition uobj :: "uslab_cache \<Rightarrow> ptr \<Rightarrow> nat \<Rightarrow> ptr" where
  "uobj ca b i = b + of_nat i * uc_obj_size ca"

definition uobjs :: "uslab_cache \<Rightarrow> ptr \<Rightarrow> ptr set" where
  "uobjs ca b = uobj ca b ` {..< uc_per_slab ca}"

lemma slab_pos_inj [simp]: "slab_pos a = slab_pos b \<longleftrightarrow> a = b"
  by (simp add: slab_pos_def)

lemma slab_pos_mem [simp]: "slab_pos b \<in> slab_pos ` A \<longleftrightarrow> b \<in> A"
  by auto

lemma slab_pos_nonNULL: "page_aligned b \<Longrightarrow> slab_pos b \<noteq> NULL"
proof -
  assume b: "page_aligned b"
  have "unat (slab_pos b) = unat b + unat (0xfd8 :: u64)"
    unfolding slab_pos_def by (rule unat_page_offset [OF b]) simp
  then have "0 < unat (slab_pos b)" by simp
  then show ?thesis by (simp only: unat_gt_0 simp_thms)
qed

lemma uobj_offset:
  assumes "usizes ca" and "i < uc_per_slab ca"
  shows "unat (of_nat i * uc_obj_size ca :: u64) = i * unat (uc_obj_size ca)" and "i * unat (uc_obj_size ca) < 4056"
proof -
  have "Suc i * unat (uc_obj_size ca) \<le> uc_per_slab ca * unat (uc_obj_size ca)"
    using assms(2) by (intro mult_le_mono1) simp
  then show lt: "i * unat (uc_obj_size ca) < 4056" using assms(1) by (simp add: usizes_def)
  have "i * 1 \<le> i * unat (uc_obj_size ca)" using assms(1) by (intro mult_le_mono2) (simp add: usizes_def)
  then have "i < 4056" using lt by linarith
  then show "unat (of_nat i * uc_obj_size ca :: u64) = i * unat (uc_obj_size ca)"
    using lt by (simp add: unat_word_ariths unat_of_nat)
qed

lemma uobj_props:
  assumes "usizes ca" and "i < uc_per_slab ca" and "page_aligned b" and "b \<noteq> NULL"
  shows "unat (uobj ca b i) = unat b + i * unat (uc_obj_size ca)" and "uobj ca b i AND - 0x1000 = b" and "uobj ca b i \<noteq> NULL"
proof -
  have lt: "unat (of_nat i * uc_obj_size ca :: u64) < 4096" using uobj_offset [OF assms(1,2)] by simp
  show u: "unat (uobj ca b i) = unat b + i * unat (uc_obj_size ca)"
    unfolding uobj_def unat_page_offset [OF assms(3) lt] uobj_offset(1) [OF assms(1,2)] ..
  show "uobj ca b i AND - 0x1000 = b"
    unfolding uobj_def by (rule page_base_of_offset [OF assms(3) lt])
  have "0 < unat b" using assms(4) by (simp add: unat_gt_0)
  then have "0 < unat (uobj ca b i)" unfolding u by simp
  then show "uobj ca b i \<noteq> NULL" by (simp only: unat_gt_0 simp_thms)
qed

lemma uobj_distinct:
  assumes "usizes ca" and "page_aligned b" and "b \<noteq> NULL"
  shows "distinct (map (uobj ca b) [0 ..< uc_per_slab ca])"
proof -
  have "inj_on (uobj ca b) {0 ..< uc_per_slab ca}"
  proof (rule inj_onI)
    fix i j assume i: "i \<in> {0 ..< uc_per_slab ca}" and j: "j \<in> {0 ..< uc_per_slab ca}" and eq: "uobj ca b i = uobj ca b j"
    have "i * unat (uc_obj_size ca) = j * unat (uc_obj_size ca)"
      using uobj_props(1) [OF assms(1) _ assms(2,3), of i] uobj_props(1) [OF assms(1) _ assms(2,3), of j] i j eq by auto
    then show "i = j" using assms(1) by (auto simp: usizes_def)
  qed
  then show ?thesis by (simp add: distinct_map)
qed

lemma uobjs_page: "usizes ca \<Longrightarrow> page_aligned b \<Longrightarrow> b \<noteq> NULL \<Longrightarrow> y \<in> uobjs ca b \<Longrightarrow> y AND - 0x1000 = b \<and> y \<noteq> NULL"
  by (auto simp: uobjs_def uobj_props)

lemma uobjs_eq: "set (map (uobj ca b) [0 ..< uc_per_slab ca]) = uobjs ca b"
  by (auto simp: uobjs_def)

section \<open>The invariant\<close>

text \<open>\<open>T\<close> gives the cache and the free objects of each page that was made a slab.\<close>

type_synonym slab_pages = "ptr \<Rightarrow> (ptr \<times> ptr list) option"

definition upage_ok :: "('w, 'a) support_state_scheme \<Rightarrow> ptr \<Rightarrow> ptr \<Rightarrow> ptr list \<Rightarrow> bool" where
  "upage_ok s b c fs \<longleftrightarrow> page_aligned b \<and> b \<noteq> NULL \<and> us_cache (uslabs s (slab_pos b)) = c
     \<and> linked (ubufs s) (us_free_list (uslabs s (slab_pos b))) fs \<and> set fs \<subseteq> uobjs (ucaches s c) b
     \<and> us_free_count (uslabs s (slab_pos b)) = length fs"

definition partial_pages :: "slab_pages \<Rightarrow> ptr \<Rightarrow> ptr set" where
  "partial_pages T c = {b. \<exists>fs. T b = Some (c, fs) \<and> fs \<noteq> []}"

definition full_pages :: "slab_pages \<Rightarrow> ptr \<Rightarrow> ptr set" where
  "full_pages T c = {b. T b = Some (c, [])}"

definition ulists_ok :: "('w, 'a) support_state_scheme \<Rightarrow> slab_pages \<Rightarrow> ptr \<Rightarrow> bool" where
  "ulists_ok s T c \<longleftrightarrow> (\<exists>ps qs. linked (\<lambda>x. us_next (uslabs s x)) (uc_partial (ucaches s c)) (map slab_pos ps)
     \<and> linked (\<lambda>x. us_next (uslabs s x)) (uc_full (ucaches s c)) (map slab_pos qs)
     \<and> set ps = partial_pages T c \<and> set qs = full_pages T c)"

definition upool :: "('w \<Rightarrow> ptr set) \<Rightarrow> ('w, 'a) support_state_scheme \<Rightarrow> slab_pages \<Rightarrow> bool" where
  "upool gr s T \<longleftrightarrow> dom T \<subseteq> gr (world s)
     \<and> (\<forall>b c fs. T b = Some (c, fs) \<longrightarrow> usizes (ucaches s c) \<and> upage_ok s b c fs)
     \<and> (\<forall>c. usizes (ucaches s c) \<longrightarrow> ulists_ok s T c)"

text \<open>The objects of a cache that are in use.\<close>

definition ulive :: "('w, 'a) support_state_scheme \<Rightarrow> slab_pages \<Rightarrow> ptr \<Rightarrow> ptr set" where
  "ulive s T c = {y. \<exists>b fs. T b = Some (c, fs) \<and> y \<in> uobjs (ucaches s c) b - set fs}"

definition same_sizes :: "uslab_cache \<Rightarrow> uslab_cache \<Rightarrow> bool" where
  "same_sizes ca cb \<longleftrightarrow> uc_slab_size ca = uc_slab_size cb \<and> uc_obj_size ca = uc_obj_size cb \<and> uc_per_slab ca = uc_per_slab cb"

lemma same_sizes_uobjs: "same_sizes ca cb \<Longrightarrow> uobjs ca b = uobjs cb b"
  by (simp add: same_sizes_def uobjs_def uobj_def)

lemma same_sizes_usizes: "same_sizes ca cb \<Longrightarrow> usizes ca = usizes cb"
  by (simp add: same_sizes_def usizes_def)

text \<open>
  A change of one slab: only the slab of the page \<open>b\<close>, the links of its objects and the lists of the cache
  \<open>c\<close> change.  The links between the slabs of the cache may change as well.
\<close>

definition slab_step :: "('w, 'a) support_state_scheme \<Rightarrow> ('w, 'a) support_state_scheme \<Rightarrow> ptr \<Rightarrow> ptr \<Rightarrow> bool" where
  "slab_step s s' b c \<longleftrightarrow> (\<forall>x. x \<noteq> slab_pos b \<longrightarrow> (\<exists>n. uslabs s' x = (uslabs s x)\<lparr>us_next := n\<rparr>)
         \<and> (us_cache (uslabs s x) \<noteq> c \<longrightarrow> uslabs s' x = uslabs s x))
     \<and> (\<forall>y. y \<notin> uobjs (ucaches s c) b \<longrightarrow> ubufs s' y = ubufs s y)
     \<and> (\<forall>d. d \<noteq> c \<longrightarrow> ucaches s' d = ucaches s d) \<and> same_sizes (ucaches s' c) (ucaches s c)"

lemma same_slab: "\<exists>n. x = x\<lparr>us_next := n\<rparr>"
  by (rule exI [of _ "us_next x"]) simp

lemma slab_stepI:
  assumes "\<And>x. x \<noteq> slab_pos b \<Longrightarrow> uslabs s' x = uslabs s x" and "\<And>y. y \<notin> uobjs (ucaches s c) b \<Longrightarrow> ubufs s' y = ubufs s y"
    and "\<And>d. d \<noteq> c \<Longrightarrow> ucaches s' d = ucaches s d" and "same_sizes (ucaches s' c) (ucaches s c)"
  shows "slab_step s s' b c"
  using assms same_slab by (auto simp: slab_step_def)

lemma uobjs_apart:
  "usizes ca \<Longrightarrow> usizes cb \<Longrightarrow> page_aligned a \<Longrightarrow> page_aligned b \<Longrightarrow> a \<noteq> NULL \<Longrightarrow> b \<noteq> NULL \<Longrightarrow> a \<noteq> b
     \<Longrightarrow> uobjs ca a \<inter> uobjs cb b = {}"
  using uobjs_page by (metis disjoint_iff)

lemma upage_sizes: "upool gr s T \<Longrightarrow> T b = Some (c, fs) \<Longrightarrow> usizes (ucaches s c) \<and> upage_ok s b c fs"
  by (auto simp: upool_def)

lemma upool_step:
  assumes pool: "upool gr s T" and b: "page_aligned b" "b \<noteq> NULL" "b \<in> gr (world s')" and gr: "gr (world s) \<subseteq> gr (world s')"
    and owner: "\<forall>d fs. T b = Some (d, fs) \<longrightarrow> d = c" and sizes: "usizes (ucaches s c)"
    and step: "slab_step s s' b c" and page: "upage_ok s' b c fs'" and lists: "ulists_ok s' (T(b \<mapsto> (c, fs'))) c"
  shows "upool gr s' (T(b \<mapsto> (c, fs')))"
  unfolding upool_def
proof (intro conjI allI impI)
  have same: "same_sizes (ucaches s' c) (ucaches s c)" and other: "\<And>d. d \<noteq> c \<Longrightarrow> ucaches s' d = ucaches s d"
    and slabs: "\<And>x. x \<noteq> slab_pos b \<Longrightarrow> \<exists>n. uslabs s' x = (uslabs s x)\<lparr>us_next := n\<rparr>" and bufs: "\<And>y. y \<notin> uobjs (ucaches s c) b \<Longrightarrow> ubufs s' y = ubufs s y"
    using step by (auto simp: slab_step_def)
  have usz: "usizes (ucaches s' d) = usizes (ucaches s d)" and uob: "uobjs (ucaches s' d) x = uobjs (ucaches s d) x" for d x
    using same other [of d] by (cases "d = c"; simp add: same_sizes_usizes same_sizes_uobjs)+
  show "dom (T(b \<mapsto> (c, fs'))) \<subseteq> gr (world s')" using pool gr b(3) by (auto simp: upool_def)
  fix x d fs assume T': "(T(b \<mapsto> (c, fs'))) x = Some (d, fs)"
  show "usizes (ucaches s' d)" using T' sizes upage_sizes [OF pool] usz by (auto split: if_splits)
  show "upage_ok s' x d fs"
  proof (cases "x = b")
    case True
    then show ?thesis using T' page by simp
  next
    case False
    then have old: "T x = Some (d, fs)" using T' by simp
    have ok: "usizes (ucaches s d)" "upage_ok s x d fs" using upage_sizes [OF pool old] by simp_all
    then have "uobjs (ucaches s d) x \<inter> uobjs (ucaches s c) b = {}"
      using uobjs_apart [OF ok(1) sizes _ b(1) _ b(2) False] by (simp add: upage_ok_def)
    then have "\<And>y. y \<in> set fs \<Longrightarrow> ubufs s' y = ubufs s y" using bufs ok(2) by (auto simp: upage_ok_def)
    then have "linked (ubufs s') p fs = linked (ubufs s) p fs" for p by (rule linked_cong)
    moreover obtain n where "uslabs s' (slab_pos x) = (uslabs s (slab_pos x))\<lparr>us_next := n\<rparr>" using slabs [of "slab_pos x"] False by auto
    ultimately show ?thesis using ok(2) uob by (simp add: upage_ok_def)
  qed
next
  have other: "\<And>d. d \<noteq> c \<Longrightarrow> ucaches s' d = ucaches s d" and slabs: "\<And>x. x \<noteq> slab_pos b \<Longrightarrow> us_cache (uslabs s x) \<noteq> c \<Longrightarrow> uslabs s' x = uslabs s x"
    using step by (auto simp: slab_step_def)
  fix d assume d: "usizes (ucaches s' d)"
  show "ulists_ok s' (T(b \<mapsto> (c, fs'))) d"
  proof (cases "d = c")
    case True
    then show ?thesis using lists by simp
  next
    case False
    then obtain ps qs where l: "linked (\<lambda>x. us_next (uslabs s x)) (uc_partial (ucaches s d)) (map slab_pos ps)"
      "linked (\<lambda>x. us_next (uslabs s x)) (uc_full (ucaches s d)) (map slab_pos qs)" "set ps = partial_pages T d" "set qs = full_pages T d"
      using pool d other by (auto simp: upool_def ulists_ok_def)
    have T': "partial_pages (T(b \<mapsto> (c, fs'))) d = partial_pages T d" "full_pages (T(b \<mapsto> (c, fs'))) d = full_pages T d"
      using owner False by (auto simp: partial_pages_def full_pages_def)
    have "b \<notin> set ps" "b \<notin> set qs" using l(3,4) owner False by (auto simp: partial_pages_def full_pages_def)
    moreover have "us_cache (uslabs s (slab_pos x)) = d" if x: "x \<in> set ps \<union> set qs" for x
    proof -
      obtain fs where "T x = Some (d, fs)" using x l(3,4) by (auto simp: partial_pages_def full_pages_def)
      then show ?thesis using upage_sizes [OF pool] by (auto simp: upage_ok_def)
    qed
    ultimately have "x \<in> set ps \<union> set qs \<Longrightarrow> x \<noteq> b \<and> us_cache (uslabs s (slab_pos x)) \<noteq> c" for x using False by blast
    then have nx: "x \<in> set ps \<union> set qs \<Longrightarrow> us_next (uslabs s' (slab_pos x)) = us_next (uslabs s (slab_pos x))" for x
      using slabs [of "slab_pos x"] by simp
    have "linked (\<lambda>x. us_next (uslabs s' x)) p (map slab_pos ps) = linked (\<lambda>x. us_next (uslabs s x)) p (map slab_pos ps)"
      "linked (\<lambda>x. us_next (uslabs s' x)) p (map slab_pos qs) = linked (\<lambda>x. us_next (uslabs s x)) p (map slab_pos qs)" for p
      by (rule linked_cong; use nx in auto)+
    then show ?thesis unfolding ulists_ok_def T' using l other [OF False] by auto
  qed
qed

lemma ulive_step:
  assumes pool: "upool gr s T" and b: "page_aligned b" "b \<noteq> NULL" and owner: "\<forall>d fs. T b = Some (d, fs) \<longrightarrow> d = c"
    and sizes: "usizes (ucaches s c)" and step: "slab_step s s' b c"
  shows "ulive s' (T(b \<mapsto> (c, fs'))) = (ulive s T)(c := ulive s T c - uobjs (ucaches s c) b \<union> (uobjs (ucaches s c) b - set fs'))"
proof (rule ext, rule set_eqI)
  fix d y
  have uob: "uobjs (ucaches s' d) x = uobjs (ucaches s d) x" for x
    using step by (cases "d = c") (auto simp: slab_step_def same_sizes_uobjs)
  have apart: "y \<notin> uobjs (ucaches s c) b" if "T x = Some (d, fs)" "x \<noteq> b" "y \<in> uobjs (ucaches s d) x" for x fs
    using uobjs_apart [OF _ sizes _ b(1) _ b(2) that(2), of "ucaches s d"] upage_sizes [OF pool that(1)] that(3) by (auto simp: upage_ok_def)
  show "y \<in> ulive s' (T(b \<mapsto> (c, fs'))) d
    \<longleftrightarrow> y \<in> ((ulive s T)(c := ulive s T c - uobjs (ucaches s c) b \<union> (uobjs (ucaches s c) b - set fs'))) d"
  proof (cases "d = c")
    case True
    have "(\<exists>x fs. (T(b \<mapsto> (c, fs'))) x = Some (c, fs) \<and> y \<in> uobjs (ucaches s c) x - set fs)
      \<longleftrightarrow> y \<in> uobjs (ucaches s c) b - set fs' \<or> (\<exists>x fs. x \<noteq> b \<and> T x = Some (c, fs) \<and> y \<in> uobjs (ucaches s c) x - set fs)"
      by (auto split: if_splits)
    then show ?thesis using apart True unfolding ulive_def uob by auto
  next
    case False
    then have "T b \<noteq> Some (d, fs)" for fs using owner by blast
    then have "(T(b \<mapsto> (c, fs'))) x = Some (d, fs) \<longleftrightarrow> T x = Some (d, fs)" for x fs using False by auto
    then show ?thesis using False unfolding ulive_def uob by simp
  qed
qed

section \<open>Allocation\<close>

lemma pages_upd:
  "partial_pages (T(b \<mapsto> (c, fs))) c = (if fs = [] then partial_pages T c - {b} else insert b (partial_pages T c))"
  "full_pages (T(b \<mapsto> (c, fs))) c = (if fs = [] then insert b (full_pages T c) else full_pages T c - {b})"
  by (auto simp: partial_pages_def full_pages_def)

definition ualloc_frame :: "('w, 'a) support_state_scheme \<Rightarrow> ('w, 'a) support_state_scheme \<Rightarrow> bool" where
  "ualloc_frame s s' \<longleftrightarrow> (\<exists>m w u b k. s' = s\<lparr>umem := m, world := w, uslabs := u, ubufs := b, ucaches := k\<rparr>)
     \<and> (\<forall>d. same_sizes (ucaches s' d) (ucaches s d))"

lemma ualloc_frameI:
  "s' = s\<lparr>umem := umem s', world := world s', uslabs := uslabs s', ubufs := ubufs s', ucaches := ucaches s'\<rparr>
     \<Longrightarrow> (\<And>d. same_sizes (ucaches s' d) (ucaches s d)) \<Longrightarrow> ualloc_frame s s'"
  unfolding ualloc_frame_def by blast

lemma ualloc_frame_refl: "ualloc_frame s s"
  by (rule ualloc_frameI) (simp_all add: same_sizes_def)

lemma partial_head:
  assumes pool: "upool gr s T" and sizes: "usizes (ucaches s c)" and some: "uc_partial (ucaches s c) \<noteq> NULL"
  obtains b ps qs f fs where "uc_partial (ucaches s c) = slab_pos b" "T b = Some (c, f # fs)" "upage_ok s b c (f # fs)"
    "linked (\<lambda>x. us_next (uslabs s x)) (us_next (uslabs s (slab_pos b))) (map slab_pos ps)"
    "linked (\<lambda>x. us_next (uslabs s x)) (uc_full (ucaches s c)) (map slab_pos qs)"
    "b \<notin> set ps" "b \<notin> set qs" "insert b (set ps) = partial_pages T c" "set qs = full_pages T c"
proof -
  obtain ps0 qs where l: "linked (\<lambda>x. us_next (uslabs s x)) (uc_partial (ucaches s c)) (map slab_pos ps0)"
    "linked (\<lambda>x. us_next (uslabs s x)) (uc_full (ucaches s c)) (map slab_pos qs)" "set ps0 = partial_pages T c" "set qs = full_pages T c"
    using pool sizes by (auto simp: upool_def ulists_ok_def)
  then obtain b ps where ps0: "ps0 = b # ps" using some by (cases ps0) auto
  have "b \<in> partial_pages T c" using l(3) ps0 by auto
  then obtain fs0 where "T b = Some (c, fs0)" "fs0 \<noteq> []" by (auto simp: partial_pages_def)
  then obtain f fs where T: "T b = Some (c, f # fs)" by (cases fs0) auto
  have "distinct (map slab_pos ps0)" by (rule linked_distinct [OF l(1)])
  then have "b \<notin> set ps" using ps0 by (auto simp: distinct_map)
  moreover have "b \<notin> set qs" using T l(4) by (auto simp: full_pages_def)
  moreover have "uc_partial (ucaches s c) = slab_pos b" "linked (\<lambda>x. us_next (uslabs s x)) (us_next (uslabs s (slab_pos b))) (map slab_pos ps)"
    using l(1) unfolding ps0 by simp_all
  moreover have "insert b (set ps) = partial_pages T c" using l(3) ps0 by simp
  ultimately show ?thesis using that T upage_sizes [OF pool T] l(2,4) by blast
qed

lemma upage_base:
  "upool gr s T \<Longrightarrow> T b = Some (c, fs) \<Longrightarrow> y \<in> uobjs (ucaches s c) b \<Longrightarrow> y AND - 0x1000 = b \<and> y \<noteq> NULL"
  using uobjs_page upage_sizes by (metis upage_ok_def)

lemma ulive_page:
  assumes "upool gr s T" and "T b = Some (c, fs)" and "y \<in> uobjs (ucaches s c) b"
  shows "y \<in> ulive s T d \<longleftrightarrow> d = c \<and> y \<notin> set fs"
proof
  assume "y \<in> ulive s T d"
  then obtain x fs' where x: "T x = Some (d, fs')" "y \<in> uobjs (ucaches s d) x" "y \<notin> set fs'" by (auto simp: ulive_def)
  then have "x = b" using upage_base [OF assms(1) x(1,2)] upage_base [OF assms] by simp
  then show "d = c \<and> y \<notin> set fs" using x assms(2) by simp
next
  assume "d = c \<and> y \<notin> set fs"
  then show "y \<in> ulive s T d" using assms(2,3) by (auto simp: ulive_def)
qed

lemma uslab_pop_ok:
  assumes pool: "upool gr s T" and sizes: "usizes (ucaches s c)" and some: "uc_partial (ucaches s c) \<noteq> NULL"
  shows "\<exists>p s' T'. slab_pop c s = Some (p, s') \<and> upool gr s' T' \<and> p \<noteq> NULL \<and> (\<forall>d. p \<notin> ulive s T d)
    \<and> ulive s' T' = (ulive s T)(c := insert p (ulive s T c)) \<and> ualloc_frame s s'"
proof -
  obtain b ps qs f fs where b: "uc_partial (ucaches s c) = slab_pos b" "T b = Some (c, f # fs)" "upage_ok s b c (f # fs)"
    and l: "linked (\<lambda>x. us_next (uslabs s x)) (us_next (uslabs s (slab_pos b))) (map slab_pos ps)"
    "linked (\<lambda>x. us_next (uslabs s x)) (uc_full (ucaches s c)) (map slab_pos qs)"
    and new: "b \<notin> set ps" "b \<notin> set qs" and pages: "insert b (set ps) = partial_pages T c" "set qs = full_pages T c"
    by (rule partial_head [OF assms])
  let ?x = "slab_pos b" and ?u = "(uslabs s (slab_pos b))\<lparr>us_free_list := ubufs s f, us_free_count := us_free_count (uslabs s (slab_pos b)) - 1\<rparr>"
  define s' where "s' = (if fs = [] then
      s\<lparr>uslabs := (uslabs s)(?x := ?u\<lparr>us_next := uc_full (ucaches s c)\<rparr>),
        ucaches := (ucaches s)(c := (ucaches s c)\<lparr>uc_partial := us_next (uslabs s ?x), uc_full := ?x\<rparr>)\<rparr>
    else s\<lparr>uslabs := (uslabs s)(?x := ?u)\<rparr>)"
  have f: "us_free_list (uslabs s ?x) = f" "f \<noteq> NULL" "linked (ubufs s) (ubufs s f) fs" "f \<notin> set fs" "set (f # fs) \<subseteq> uobjs (ucaches s c) b"
    "page_aligned b" "b \<noteq> NULL" "us_free_count (uslabs s ?x) = Suc (length fs)"
  proof -
    have fl: "linked (ubufs s) (us_free_list (uslabs s ?x)) (f # fs)" using b(3) by (simp add: upage_ok_def)
    then show "us_free_list (uslabs s ?x) = f" "f \<noteq> NULL" "linked (ubufs s) (ubufs s f) fs" by simp_all
    show "f \<notin> set fs" using linked_distinct [OF fl] by simp
    show "set (f # fs) \<subseteq> uobjs (ucaches s c) b" "page_aligned b" "b \<noteq> NULL" "us_free_count (uslabs s ?x) = Suc (length fs)"
      using b(3) by (simp_all add: upage_ok_def)
  qed
  have "ubufs s f = NULL \<longleftrightarrow> fs = []" using f(3) by (cases fs) auto
  then have run: "slab_pop c s = Some (f, s')"
    using f(1,2) b(1) by (simp add: slab_pop_def s'_def Let_def set_uslab_def set_ucache_def)
  have step: "slab_step s s' b c" by (rule slab_stepI) (auto simp: s'_def same_sizes_def)
  have page: "upage_ok s' b c fs" using b(3) f by (auto simp: upage_ok_def s'_def uobjs_def uobj_def)
  have lists: "ulists_ok s' (T(b \<mapsto> (c, fs))) c"
  proof (cases "fs = []")
    case True
    have ps: "linked (\<lambda>x. us_next (uslabs s' x)) p (map slab_pos ps) = linked (\<lambda>x. us_next (uslabs s x)) p (map slab_pos ps)"
      "linked (\<lambda>x. us_next (uslabs s' x)) p (map slab_pos qs) = linked (\<lambda>x. us_next (uslabs s x)) p (map slab_pos qs)" for p
      using new by (auto simp: s'_def True intro!: linked_cong)
    have "set ps = partial_pages T c - {b}" using pages new by auto
    then show ?thesis unfolding ulists_ok_def pages_upd
      using True l ps pages slab_pos_nonNULL [OF f(6)]
      by (intro exI [of _ ps] exI [of _ "b # qs"]) (simp add: s'_def)
  next
    case False
    have "(\<lambda>x. us_next (uslabs s' x)) = (\<lambda>x. us_next (uslabs s x))" by (auto simp: s'_def False)
    then show ?thesis unfolding ulists_ok_def pages_upd
      using False l pages new b(1) slab_pos_nonNULL [OF f(6)]
      by (intro exI [of _ "b # ps"] exI [of _ qs]) (auto simp: s'_def full_pages_def)
  qed
  have owner: "\<forall>d fs. T b = Some (d, fs) \<longrightarrow> d = c" using b(2) by simp
  have gr: "gr (world s) \<subseteq> gr (world s')" "b \<in> gr (world s')" using pool b(2) by (auto simp: s'_def upool_def)
  have live: "ulive s' (T(b \<mapsto> (c, fs))) = (ulive s T)(c := ulive s T c - uobjs (ucaches s c) b \<union> (uobjs (ucaches s c) b - set fs))"
    by (rule ulive_step [OF pool f(6,7) owner sizes step])
  have in_b: "y \<in> uobjs (ucaches s c) b \<Longrightarrow> y \<in> ulive s T d \<longleftrightarrow> d = c \<and> y \<notin> set (f # fs)" for y d
    by (rule ulive_page [OF pool b(2)])
  have "upool gr s' (T(b \<mapsto> (c, fs)))"
    by (rule upool_step [OF pool f(6,7) gr(2,1) owner sizes step page lists])
  moreover have "ulive s' (T(b \<mapsto> (c, fs))) = (ulive s T)(c := insert f (ulive s T c))"
    unfolding live using in_b f(4,5) by (intro ext) auto
  moreover have "ualloc_frame s s'" by (rule ualloc_frameI) (auto simp: s'_def same_sizes_def)
  moreover have "f \<notin> ulive s T d" for d using in_b [of f d] f(5) by simp
  ultimately show ?thesis using run f(2) by blast
qed

lemma upool_grow:
  assumes "upool gr s T" and "gr (world s) \<subseteq> gr w"
  shows "upool gr (s\<lparr>umem := m, world := w\<rparr>) T"
  using assms by (auto simp: upool_def upage_ok_def ulists_ok_def)

lemma ulive_grow [simp]: "ulive (s\<lparr>umem := m, world := w\<rparr>) T = ulive s T"
  by (rule ext) (simp add: ulive_def)

lemma slab_pos_create: "usizes ca \<Longrightarrow> b + uc_slab_size ca - sizeof_slab = slab_pos b"
  by (simp add: usizes_def slab_pos_def)

lemma fresh_page_apart:
  assumes "upool gr s T" and "T b = None" and "page_aligned b" "b \<noteq> NULL" and "usizes ca"
  shows "ulive s T d \<inter> uobjs ca b = {}"
proof -
  have "y \<notin> uobjs ca b" if "T x = Some (d, fs)" "y \<in> uobjs (ucaches s d) x" for x y fs
    using upage_base [OF assms(1) that] uobjs_page [OF assms(5,3,4), of y] that(1) assms(2) by auto
  then show ?thesis by (auto simp: ulive_def)
qed

lemma uslab_refill_ok:
  assumes K: "grants_pages gr K" and pool: "upool gr s T" and sizes: "usizes (ucaches s c)"
  shows "\<exists>ok s' T'. slab_refill K c s = Some (ok, s') \<and> upool gr s' T' \<and> (ok \<longrightarrow> uc_partial (ucaches s' c) \<noteq> NULL)
    \<and> ulive s' T' = ulive s T \<and> ualloc_frame s s'"
proof (cases "uc_partial (ucaches s c) = NULL")
  case False
  then show ?thesis using pool ualloc_frame_refl [of s] by (auto simp: slab_refill_def)
next
  case empty: True
  obtain p m w where alloc: "mm_alloc K PAGE_SIZE s = Some (p, s\<lparr>umem := m, world := w\<rparr>)" and gr: "gr (world s) \<subseteq> gr w"
    and p: "p \<noteq> NULL \<Longrightarrow> page_aligned p \<and> p \<notin> gr (world s) \<and> p \<in> gr w" using mm_alloc_page [OF K, of s] by blast
  let ?s = "s\<lparr>umem := m, world := w\<rparr>" and ?ca = "ucaches s c"
  have pool1: "upool gr ?s T" by (rule upool_grow [OF pool gr])
  show ?thesis
  proof (cases "p = NULL")
    case True
    have "slab_refill K c s = Some (False, ?s)" using alloc empty True by (simp add: slab_refill_def slab_create_def)
    moreover have "ualloc_frame s ?s" by (rule ualloc_frameI) (simp_all add: same_sizes_def)
    ultimately show ?thesis using pool1 by (intro exI [of _ False] exI [of _ ?s] exI [of _ T]) simp
  next
    case False
    note p = p [OF False] False
    obtain fl b' where fill: "slab_fill (uc_per_slab ?ca) (uc_obj_size ?ca) p NULL (ubufs s) = (fl, b')" by force
    let ?fs = "rev (map (uobj ?ca p) [0 ..< uc_per_slab ?ca])"
    let ?sl = "\<lparr>us_next = NULL, us_cache = c, us_base = p, us_free_list = fl, us_free_count = uc_per_slab ?ca\<rparr>"
    define s' where "s' = ?s\<lparr>uslabs := (uslabs s)(slab_pos p := ?sl), ubufs := b', ucaches := (ucaches s)(c := ?ca\<lparr>uc_partial := slab_pos p\<rparr>)\<rparr>"
    have pos: "slab_pos p \<noteq> NULL" using p slab_pos_nonNULL by blast
    have "slab_create K c s = Some (slab_pos p, ?s\<lparr>uslabs := (uslabs s)(slab_pos p := ?sl), ubufs := b'\<rparr>)"
      using p(2) fill by (simp add: slab_create_def alloc slab_pos_create [OF sizes] Let_def)
    then have run: "slab_refill K c s = Some (True, s')"
      using empty pos by (simp add: slab_refill_def s'_def Let_def set_uslab_def set_ucache_def)
    have "\<forall>i < uc_per_slab ?ca. p + of_nat i * uc_obj_size ?ca \<noteq> NULL \<and> p + of_nat i * uc_obj_size ?ca \<notin> set []"
      using uobj_props(3) [OF sizes _ _ p(2)] p(1) by (simp add: uobj_def)
    moreover have "linked (ubufs s) NULL []" by simp
    moreover have "distinct (map (\<lambda>i. p + of_nat i * uc_obj_size ?ca) [0 ..< uc_per_slab ?ca])"
      using uobj_distinct [OF sizes _ p(2)] p(1) by (simp add: uobj_def [abs_def])
    ultimately have filled: "linked b' fl ?fs" "\<forall>y. y \<notin> uobjs ?ca p \<longrightarrow> b' y = ubufs s y"
      using slab_fill_linked [OF _ _ _ fill, of "[]"] by (auto simp: uobj_def [abs_def] uobjs_def)
    have step: "slab_step ?s s' p c" using filled(2) by (intro slab_stepI) (auto simp: s'_def same_sizes_def)
    have page: "upage_ok s' p c ?fs" using p filled(1) by (auto simp: upage_ok_def s'_def uobjs_def uobj_def [abs_def])
    have new: "T p = None" using pool p(1) by (auto simp: upool_def)
    have fs: "?fs \<noteq> []" using sizes by (simp add: usizes_def)
    obtain ps qs where l: "linked (\<lambda>x. us_next (uslabs s x)) (uc_partial ?ca) (map slab_pos ps)"
      "linked (\<lambda>x. us_next (uslabs s x)) (uc_full ?ca) (map slab_pos qs)" "set ps = partial_pages T c" "set qs = full_pages T c"
      using pool sizes by (auto simp: upool_def ulists_ok_def)
    have "p \<notin> set qs" using l(4) new by (auto simp: full_pages_def)
    then have "linked (\<lambda>x. us_next (uslabs s' x)) q (map slab_pos qs) = linked (\<lambda>x. us_next (uslabs s x)) q (map slab_pos qs)" for q
      by (intro linked_cong) (auto simp: s'_def)
    then have lists: "ulists_ok s' (T(p \<mapsto> (c, ?fs))) c" unfolding ulists_ok_def pages_upd
      using l empty pos fs \<open>p \<notin> set qs\<close> by (intro exI [of _ "[p]"] exI [of _ qs]) (auto simp: s'_def)
    have sizes1: "usizes (ucaches ?s c)" and ca: "ucaches ?s c = ?ca" using sizes by simp_all
    have owner: "\<forall>d fs. T p = Some (d, fs) \<longrightarrow> d = c" using new by simp
    have "upool gr s' (T(p \<mapsto> (c, ?fs)))"
      using p by (intro upool_step [OF pool1 _ p(2) _ _ owner sizes1 step page lists]) (auto simp: s'_def)
    moreover have "ulive s' (T(p \<mapsto> (c, ?fs))) = ulive s T"
    proof -
      have "set ?fs = uobjs ?ca p" using uobjs_eq [of ?ca p] by simp
      moreover have "ulive s T c \<inter> uobjs ?ca p = {}" using fresh_page_apart [OF pool new _ p(2) sizes] p(1) by blast
      then have "ulive s T c - uobjs ?ca p = ulive s T c" by blast
      ultimately show ?thesis using ulive_step [OF pool1 _ p(2) owner sizes1 step, of ?fs] p(1) unfolding ca ulive_grow by simp
    qed
    moreover have "ualloc_frame s s'" by (rule ualloc_frameI) (auto simp: s'_def same_sizes_def)
    moreover have "uc_partial (ucaches s' c) \<noteq> NULL" using pos by (simp add: s'_def)
    ultimately show ?thesis using run by blast
  qed
qed

lemma ualloc_frame_trans: "ualloc_frame s s1 \<Longrightarrow> ualloc_frame s1 s2 \<Longrightarrow> ualloc_frame s s2"
proof -
  assume 1: "ualloc_frame s s1" and 2: "ualloc_frame s1 s2"
  obtain m w u b k where "s1 = s\<lparr>umem := m, world := w, uslabs := u, ubufs := b, ucaches := k\<rparr>" using 1 by (auto simp: ualloc_frame_def)
  moreover obtain m w u b k where "s2 = s1\<lparr>umem := m, world := w, uslabs := u, ubufs := b, ucaches := k\<rparr>" using 2 by (auto simp: ualloc_frame_def)
  ultimately have "s2 = s\<lparr>umem := m, world := w, uslabs := u, ubufs := b, ucaches := k\<rparr>" by simp
  then show ?thesis using 1 2 unfolding ualloc_frame_def same_sizes_def by metis
qed

text \<open>An allocation returns NULL, with nothing taken, or an object that nobody uses.\<close>

lemma uslab_cache_alloc_ok:
  assumes K: "grants_pages gr K" and pool: "upool gr s T" and sizes: "usizes (ucaches s c)"
  shows "\<exists>p s' T'. slab_cache_alloc K c s = Some (p, s') \<and> upool gr s' T' \<and> ualloc_frame s s'
    \<and> (if p = NULL then ulive s' T' = ulive s T else (\<forall>d. p \<notin> ulive s T d) \<and> ulive s' T' = (ulive s T)(c := insert p (ulive s T c)))"
proof -
  obtain ok s1 T1 where 1: "slab_refill K c s = Some (ok, s1)" "upool gr s1 T1" "ok \<longrightarrow> uc_partial (ucaches s1 c) \<noteq> NULL"
    "ulive s1 T1 = ulive s T" "ualloc_frame s s1" using uslab_refill_ok [OF assms] by blast
  show ?thesis
  proof (cases ok)
    case False
    then have "slab_cache_alloc K c s = Some (NULL, s1)" using 1(1) by (simp add: slab_cache_alloc_def)
    then show ?thesis using 1 by (intro exI [of _ NULL] exI [of _ s1] exI [of _ T1]) simp
  next
    case True
    have "usizes (ucaches s1 c)" using 1(5) sizes same_sizes_usizes unfolding ualloc_frame_def by metis
    then obtain p s2 T2 where 2: "slab_pop c s1 = Some (p, s2)" "upool gr s2 T2" "p \<noteq> NULL" "\<forall>d. p \<notin> ulive s1 T1 d"
      "ulive s2 T2 = (ulive s1 T1)(c := insert p (ulive s1 T1 c))" "ualloc_frame s1 s2"
      using uslab_pop_ok [OF 1(2)] 1(3) True by blast
    have "slab_cache_alloc K c s = Some (p, s2)" using 1(1) 2(1) True by (simp add: slab_cache_alloc_def)
    then show ?thesis using 1(4) 2 ualloc_frame_trans [OF 1(5) 2(6)] by (intro exI [of _ p] exI [of _ s2] exI [of _ T2]) simp
  qed
qed

section \<open>Release\<close>

lemma uslab_unlink_ok:
  assumes "linked (\<lambda>x. us_next (sl x)) item (xs @ x # ys)"
  shows "slab_unlink x prev item first sl =
    (let q = (if xs = [] then prev else last xs) in
     Some (if q = NULL then (us_next (sl x), sl) else (first, sl(q := (sl q)\<lparr>us_next := us_next (sl x)\<rparr>))))"
  using assms
proof (induction xs arbitrary: item prev)
  case Nil
  then show ?case by (subst slab_unlink.simps) auto
next
  case (Cons y xs)
  have "x \<noteq> y" using linked_distinct [OF Cons.prems] by auto
  then show ?case using Cons.prems Cons.IH [of "us_next (sl y)" y] by (subst slab_unlink.simps) auto
qed

lemma slab_unlink_list:
  assumes l: "linked (\<lambda>x. us_next (sl x)) first (xs @ x # ys)"
  shows "\<exists>first' sl'. slab_unlink x NULL first first sl = Some (first', sl') \<and> linked (\<lambda>x. us_next (sl' x)) first' (xs @ ys)
    \<and> sl' x = sl x \<and> (\<forall>y. (\<exists>n. sl' y = (sl y)\<lparr>us_next := n\<rparr>) \<and> (y \<notin> set xs \<longrightarrow> sl' y = sl y))"
proof (cases xs rule: rev_cases)
  case Nil
  then show ?thesis using uslab_unlink_ok [OF l, of NULL first] l same_slab by auto
next
  case (snoc zs q)
  let ?sl = "sl(q := (sl q)\<lparr>us_next := us_next (sl x)\<rparr>)"
  have q: "q \<noteq> NULL" "q \<noteq> x" using linked_not_NULL [OF l] linked_distinct [OF l] snoc by auto
  have "(\<lambda>y. us_next (?sl y)) = (\<lambda>y. us_next (sl y))(q := us_next (sl x))" by auto
  then have "linked (\<lambda>y. us_next (?sl y)) first (xs @ ys)"
    using linked_unlink [of "\<lambda>y. us_next (sl y)" first zs q x ys] l snoc by simp
  then show ?thesis using uslab_unlink_ok [OF l, of NULL first] snoc q same_slab by (auto simp: Let_def)
qed

lemma slab_of_object:
  "usizes ca \<Longrightarrow> p AND - 0x1000 = b \<Longrightarrow> (p AND NOT (uc_slab_size ca - 1)) + uc_slab_size ca - sizeof_slab = slab_pos b"
  by (simp add: usizes_def slab_pos_def)

text \<open>What is true after the object \<open>p\<close> was put back into the slab of the page \<open>b\<close>.\<close>

definition put_back :: "slab_pages \<Rightarrow> ptr \<Rightarrow> ptr \<Rightarrow> ptr list \<Rightarrow> ('w, 'a) support_state_scheme \<Rightarrow> ('w, 'a) support_state_scheme \<Rightarrow> bool" where
  "put_back T b c fs s s' \<longleftrightarrow> slab_step s s' b c \<and> upage_ok s' b c fs \<and> ulists_ok s' (T(b \<mapsto> (c, fs))) c
     \<and> s' = s\<lparr>uslabs := uslabs s', ubufs := ubufs s', ucaches := ucaches s'\<rparr> \<and> (\<forall>d. same_sizes (ucaches s' d) (ucaches s d))"

lemma free_partial:
  assumes pool: "upool gr s T" and T: "T b = Some (c, fs)" "fs \<noteq> []" and p: "p \<in> uobjs (ucaches s c) b" "p \<notin> set fs"
  shows "\<exists>s'. slab_cache_free c p s = Some s' \<and> put_back T b c (p # fs) s s'"
proof -
  have sizes: "usizes (ucaches s c)" and page: "upage_ok s b c fs" using upage_sizes [OF pool T(1)] by simp_all
  have base: "p AND - 0x1000 = b" "p \<noteq> NULL" using upage_base [OF pool T(1) p(1)] by simp_all
  let ?x = "slab_pos b"
  let ?u = "(uslabs s ?x)\<lparr>us_free_list := p, us_free_count := us_free_count (uslabs s ?x) + 1\<rparr>"
  let ?s1 = "s\<lparr>ubufs := (ubufs s)(p := us_free_list (uslabs s ?x)), uslabs := (uslabs s)(?x := ?u)\<rparr>"
  obtain ps qs where l: "linked (\<lambda>x. us_next (uslabs s x)) (uc_partial (ucaches s c)) (map slab_pos ps)"
    "linked (\<lambda>x. us_next (uslabs s x)) (uc_full (ucaches s c)) (map slab_pos qs)" "set ps = partial_pages T c" "set qs = full_pages T c"
    using pool sizes by (auto simp: upool_def ulists_ok_def)
  have nx1: "(\<lambda>x. us_next (uslabs ?s1 x)) = (\<lambda>x. us_next (uslabs s x))" by auto
  have "slab_cache_free c p s = Some ?s1"
    using page T by (simp add: slab_cache_free_def slab_of_object [OF sizes base(1)] upage_ok_def set_uslab_def Let_def)
  moreover have "slab_step s ?s1 b c" using p(1) by (intro slab_stepI) (auto simp: same_sizes_def)
  moreover have "upage_ok ?s1 b c (p # fs)" using page p base by (simp add: upage_ok_def)
  moreover have "ulists_ok ?s1 (T(b \<mapsto> (c, p # fs))) c" unfolding ulists_ok_def nx1 pages_upd
    using l T by (intro exI [of _ ps] exI [of _ qs]) (auto simp: partial_pages_def full_pages_def)
  ultimately show ?thesis by (intro exI [of _ ?s1]) (simp add: same_sizes_def put_back_def)
qed

lemma free_full:
  assumes pool: "upool gr s T" and T: "T b = Some (c, [])" and p: "p \<in> uobjs (ucaches s c) b"
  shows "\<exists>s'. slab_cache_free c p s = Some s' \<and> put_back T b c [p] s s'"
proof -
  have sizes: "usizes (ucaches s c)" and page: "upage_ok s b c []" using upage_sizes [OF pool T] by simp_all
  have base: "p AND - 0x1000 = b" "p \<noteq> NULL" using upage_base [OF pool T p] by simp_all
  have b: "page_aligned b" using page by (simp add: upage_ok_def)
  let ?x = "slab_pos b"
  let ?u = "(uslabs s ?x)\<lparr>us_free_list := p, us_free_count := us_free_count (uslabs s ?x) + 1\<rparr>"
  let ?s1 = "s\<lparr>ubufs := (ubufs s)(p := us_free_list (uslabs s ?x)), uslabs := (uslabs s)(?x := ?u)\<rparr>"
  obtain ps qs where l: "linked (\<lambda>x. us_next (uslabs s x)) (uc_partial (ucaches s c)) (map slab_pos ps)"
    "linked (\<lambda>x. us_next (uslabs s x)) (uc_full (ucaches s c)) (map slab_pos qs)" "set ps = partial_pages T c" "set qs = full_pages T c"
    using pool sizes by (auto simp: upool_def ulists_ok_def)
  have nx1: "(\<lambda>x. us_next (uslabs ?s1 x)) = (\<lambda>x. us_next (uslabs s x))" by auto
  have "b \<in> set qs" using l(4) T by (simp add: full_pages_def)
  then obtain q1 q2 where qs: "qs = q1 @ b # q2" by (auto dest: split_list)
  have "linked (\<lambda>x. us_next (uslabs ?s1 x)) (uc_full (ucaches s c)) (map slab_pos q1 @ ?x # map slab_pos q2)"
    using l(2) unfolding nx1 qs by simp
  from slab_unlink_list [OF this] obtain first sl where un: "slab_unlink ?x NULL (uc_full (ucaches s c)) (uc_full (ucaches s c)) (uslabs ?s1) = Some (first, sl)"
    "linked (\<lambda>x. us_next (sl x)) first (map slab_pos q1 @ map slab_pos q2)" "sl ?x = uslabs ?s1 ?x"
    "\<forall>y. (\<exists>n. sl y = (uslabs ?s1 y)\<lparr>us_next := n\<rparr>) \<and> (y \<notin> set (map slab_pos q1) \<longrightarrow> sl y = uslabs ?s1 y)" by blast
  define s' where "s' = ?s1\<lparr>uslabs := sl(?x := (sl ?x)\<lparr>us_next := uc_partial (ucaches s c)\<rparr>),
    ucaches := (ucaches s)(c := (ucaches s c)\<lparr>uc_full := first, uc_partial := ?x\<rparr>)\<rparr>"
  have "slab_cache_free c p s = Some s'"
    using page un(1) by (simp add: slab_cache_free_def slab_of_object [OF sizes base(1)] upage_ok_def set_uslab_def set_ucache_def s'_def Let_def)
  moreover have "slab_step s s' b c" unfolding slab_step_def
  proof (intro conjI allI impI)
    fix x assume x: "x \<noteq> ?x"
    show "\<exists>n. uslabs s' x = (uslabs s x)\<lparr>us_next := n\<rparr>" using spec [OF un(4), of x] x by (simp add: s'_def)
    assume other: "us_cache (uslabs s x) \<noteq> c"
    have "x \<notin> set (map slab_pos q1)"
    proof
      assume "x \<in> set (map slab_pos q1)"
      then obtain a where a: "x = slab_pos a" "T a = Some (c, [])" using l(4) qs by (auto simp: full_pages_def)
      then show False using upage_sizes [OF pool a(2)] other by (simp add: upage_ok_def)
    qed
    then show "uslabs s' x = uslabs s x" using spec [OF un(4), of x] x by (simp add: s'_def)
  qed (use p in \<open>auto simp: s'_def same_sizes_def\<close>)
  moreover have "upage_ok s' b c [p]" using page p base un(3) by (simp add: upage_ok_def s'_def uobjs_def uobj_def)
  moreover have "ulists_ok s' (T(b \<mapsto> (c, [p]))) c"
  proof -
    have d: "distinct qs" using linked_distinct [OF l(2)] by (simp add: distinct_map)
    have "partial_pages T c \<inter> full_pages T c = {}" by (auto simp: partial_pages_def full_pages_def)
    then have ps: "b \<notin> set ps" "set ps \<inter> set q1 = {}" using l(3,4) qs by auto
    have "linked (\<lambda>x. us_next (uslabs s' x)) q (map slab_pos ps) = linked (\<lambda>x. us_next (uslabs s x)) q (map slab_pos ps)" for q
    proof (rule linked_cong)
      fix y assume "y \<in> set (map slab_pos ps)"
      then have "y \<noteq> ?x" "y \<notin> set (map slab_pos q1)" using ps by auto
      then show "us_next (uslabs s' y) = us_next (uslabs s y)" using spec [OF un(4), of y] by (simp add: s'_def)
    qed
    moreover have "linked (\<lambda>x. us_next (uslabs s' x)) first (map slab_pos (q1 @ q2))"
    proof -
      have "linked (\<lambda>x. us_next (uslabs s' x)) q (map slab_pos (q1 @ q2)) = linked (\<lambda>x. us_next (sl x)) q (map slab_pos (q1 @ q2))" for q
        using d qs by (intro linked_cong) (auto simp: s'_def)
      then show ?thesis using un(2) by simp
    qed
    ultimately show ?thesis unfolding ulists_ok_def pages_upd
      using l(1,3,4) d qs slab_pos_nonNULL [OF b]
      by (intro exI [of _ "b # ps"] exI [of _ "q1 @ q2"]) (auto simp: s'_def)
  qed
  ultimately show ?thesis by (intro exI [of _ s']) (auto simp: s'_def same_sizes_def put_back_def)
qed

lemma uslab_cache_free_ok:
  assumes pool: "upool gr s T" and p: "p \<in> ulive s T c"
  shows "\<exists>s' T'. slab_cache_free c p s = Some s' \<and> upool gr s' T' \<and> ulive s' T' = (ulive s T)(c := ulive s T c - {p})
    \<and> s' = s\<lparr>uslabs := uslabs s', ubufs := ubufs s', ucaches := ucaches s'\<rparr> \<and> (\<forall>d. same_sizes (ucaches s' d) (ucaches s d))"
proof -
  obtain b fs where T: "T b = Some (c, fs)" and pb: "p \<in> uobjs (ucaches s c) b" "p \<notin> set fs" using p by (auto simp: ulive_def)
  have sizes: "usizes (ucaches s c)" and page: "upage_ok s b c fs" using upage_sizes [OF pool T] by simp_all
  have b: "page_aligned b" "b \<noteq> NULL" using page by (simp_all add: upage_ok_def)
  have "\<exists>s'. slab_cache_free c p s = Some s' \<and> put_back T b c (p # fs) s s'"
    using free_partial [OF pool T _ pb] free_full [OF pool _ pb(1)] T by (cases "fs = []") auto
  then obtain s' where s': "slab_cache_free c p s = Some s'" "slab_step s s' b c" "upage_ok s' b c (p # fs)"
    "ulists_ok s' (T(b \<mapsto> (c, p # fs))) c" "s' = s\<lparr>uslabs := uslabs s', ubufs := ubufs s', ucaches := ucaches s'\<rparr>"
    "\<forall>d. same_sizes (ucaches s' d) (ucaches s d)" unfolding put_back_def by blast
  have "world s' = world (s\<lparr>uslabs := uslabs s', ubufs := ubufs s', ucaches := ucaches s'\<rparr>)" using s'(5) by (rule arg_cong)
  then have w: "world s' = world s" by simp
  have owner: "\<forall>d fs. T b = Some (d, fs) \<longrightarrow> d = c" using T by simp
  have gr: "b \<in> gr (world s')" "gr (world s) \<subseteq> gr (world s')" using pool T w by (auto simp: upool_def)
  have in_b: "y \<in> uobjs (ucaches s c) b \<Longrightarrow> y \<in> ulive s T d \<longleftrightarrow> d = c \<and> y \<notin> set fs" for y d
    by (rule ulive_page [OF pool T])
  have "ulive s T c - uobjs (ucaches s c) b \<union> (uobjs (ucaches s c) b - set (p # fs)) = ulive s T c - {p}"
    using in_b pb by auto
  then have "ulive s' (T(b \<mapsto> (c, p # fs))) = (ulive s T)(c := ulive s T c - {p})"
    using ulive_step [OF pool b owner sizes s'(2), of "p # fs"] by simp
  moreover have "upool gr s' (T(b \<mapsto> (c, p # fs)))" by (rule upool_step [OF pool b gr owner sizes s'(2-4)])
  ultimately show ?thesis using s'(1,5,6) by blast
qed

section \<open>A new cache\<close>

lemma uslab_cache_init_ok:
  assumes pool: "upool gr s T" and new: "\<forall>b fs. T b \<noteq> Some (c, fs)" and sz: "0 < unat osz" "unat osz \<le> 4056"
  shows "\<exists>k. slab_cache_init c osz s = (0, s\<lparr>ucaches := (ucaches s)(c := k)\<rparr>) \<and> usizes k \<and> upool gr (s\<lparr>ucaches := (ucaches s)(c := k)\<rparr>) T"
proof -
  let ?z = "(osz + 8 - 1) AND NOT (8 - 1)"
  note z = rounded_size [OF sz]
  let ?k = "(ucaches s c)\<lparr>uc_obj_size := ?z, uc_slab_size := PAGE_SIZE, uc_per_slab := unat ((PAGE_SIZE - sizeof_slab) div ?z),
    uc_full := NULL, uc_partial := NULL\<rparr>"
  let ?s = "s\<lparr>ucaches := (ucaches s)(c := ?k)\<rparr>"
  have "slab_cache_init c osz s = (0, ?s)"
    using z by (simp add: slab_cache_init_def set_ucache_def word_less_nat_alt Let_def)
  moreover have k: "usizes ?k" unfolding usizes_def using z by simp
  moreover have "upool gr ?s T" unfolding upool_def
  proof (intro conjI allI impI)
    show "dom T \<subseteq> gr (world ?s)" using pool by (simp add: upool_def)
    fix b d fs assume T: "T b = Some (d, fs)"
    then have "d \<noteq> c" using new by blast
    then show "usizes (ucaches ?s d)" "upage_ok ?s b d fs" using upage_sizes [OF pool T] by (auto simp: upage_ok_def)
  next
    fix d assume d: "usizes (ucaches ?s d)"
    show "ulists_ok ?s T d"
    proof (cases "d = c")
      case True
      have "partial_pages T c = {}" "full_pages T c = {}" using new by (auto simp: partial_pages_def full_pages_def)
      then show ?thesis using True unfolding ulists_ok_def by (intro exI [of _ "[]"]) simp
    next
      case False
      then show ?thesis using pool d by (simp add: upool_def ulists_ok_def)
    qed
  qed
  ultimately show ?thesis by blast
qed

text \<open>A program that has not initialised a cache yet.\<close>

lemma upool_start: "\<forall>c. uc_slab_size (ucaches s c) = 0 \<Longrightarrow> upool gr s Map.empty"
  by (auto simp: upool_def usizes_def)

end
