(* ===== verification/Devman.thy ===== *)
theory Devman
  imports UserPool
begin

text \<open>
  The device manager (\<^verbatim>\<open>servers/devman\<close>): a server that keeps, for each type of device, the list of the devices
  that were announced and the list of the ports that wait for one.  An access outside the array of types has
  no result.
\<close>

section \<open>Data\<close>

datatype device_type = SCREEN | INPUT | PTY

abbreviation (input) DEV_TYPE_COUNT :: nat where "DEV_TYPE_COUNT \<equiv> 3"

fun type_code :: "device_type \<Rightarrow> u64" where
  "type_code SCREEN = 0"
| "type_code INPUT = 1"
| "type_code PTY = 2"

record waiter =
  wt_port :: u32
  wt_next :: ptr

record device =
  dm_id :: u32
  dm_port :: u32
  dm_next :: ptr

text \<open>\<^verbatim>\<open>struct list\<close>\<close>

record device_list =
  dl_next :: ptr
  dl_waiters :: ptr

record 'w devman_state = "'w support_state" +
  dm_devices :: "ptr \<Rightarrow> device"
  dm_waiters :: "ptr \<Rightarrow> waiter"
  s_devices :: "nat \<Rightarrow> device_list"

text \<open>The addresses of the caches.\<close>

abbreviation (input) DEVICE_CACHE :: ptr where "DEVICE_CACHE \<equiv> 1"
abbreviation (input) WAITER_CACHE :: ptr where "WAITER_CACHE \<equiv> 2"

definition set_list :: "nat \<Rightarrow> (device_list \<Rightarrow> device_list) \<Rightarrow> ('w, 'a) devman_state_scheme \<Rightarrow> ('w, 'a) devman_state_scheme" where
  "set_list t f s = s\<lparr>s_devices := (s_devices s)(t := f (s_devices s t))\<rparr>"

text \<open>The index that a word of a message makes: an \<^verbatim>\<open>enum\<close> has 32 bits.\<close>

definition list_index :: "u64 \<Rightarrow> nat option" where
  "list_index w = (let t = unat (ucast w :: u32) in if t < DEV_TYPE_COUNT then Some t else None)"

section \<open>Operations\<close>

partial_function (option) notify_all :: "'w kernel \<Rightarrow> u64 list \<Rightarrow> ptr \<Rightarrow> ('w, 'a) devman_state_scheme \<Rightarrow> ('w, 'a) devman_state_scheme option" where
  "notify_all K msg w s =
     (if w = NULL then Some s
      else do {
        (_, s) \<leftarrow> ipc_port_send K (wt_port (dm_waiters s w)) msg s;
        let tmp = w;
        let w = wt_next (dm_waiters s w);
        s \<leftarrow> slab_cache_free WAITER_CACHE tmp s;
        notify_all K msg w s
      })"

definition announce :: "'w kernel \<Rightarrow> u64 list \<Rightarrow> ('w, 'a) devman_state_scheme \<Rightarrow> ('w, 'a) devman_state_scheme option" where
  "announce K m s = do {
     (dev, s) \<leftarrow> slab_cache_alloc K DEVICE_CACHE s;
     if dev = NULL then Some s
     else do {
       type \<leftarrow> list_index (m ! 1);
       let s = s\<lparr>dm_devices := (dm_devices s)(dev := \<lparr>dm_id = ucast (m ! 3), dm_port = ucast (m ! 2), dm_next = dl_next (s_devices s type)\<rparr>)\<rparr>;
       let s = set_list type (\<lambda>l. l\<lparr>dl_next := dev\<rparr>) s;
       let (msg, s) = new_message s;
       let msg = msg[0 := 0, 1 := scast (dm_port (dm_devices s dev))];
       s \<leftarrow> notify_all K msg (dl_waiters (s_devices s type)) s;
       Some (set_list type (\<lambda>l. l\<lparr>dl_waiters := NULL\<rparr>) s)
     }
   }"

definition lookup :: "'w kernel \<Rightarrow> u64 list \<Rightarrow> ('w, 'a) devman_state_scheme \<Rightarrow> ('w, 'a) devman_state_scheme option" where
  "lookup K m s = do {
     let (reply, s) = new_message s;
     type \<leftarrow> list_index (m ! 1);
     let dev = dl_next (s_devices s type);
     let send_reply = (\<lambda>reply s. map_option snd (ipc_port_send K (ucast (m ! 3)) reply s));
     if dev = NULL then
       (if m ! 2 \<noteq> 0 then do {
          (w, s) \<leftarrow> slab_cache_alloc K WAITER_CACHE s;
          if w = NULL then send_reply (reply[0 := -1]) s
          else do {
            let s = s\<lparr>dm_waiters := (dm_waiters s)(w := \<lparr>wt_port = ucast (m ! 3), wt_next = dl_waiters (s_devices s type)\<rparr>)\<rparr>;
            Some (set_list type (\<lambda>l. l\<lparr>dl_waiters := w\<rparr>) s)
          }
        }
        else send_reply (reply[0 := -1]) s)
     else send_reply (reply[0 := 0, 1 := scast (dm_port (dm_devices s dev)), 2 := scast (dm_id (dm_devices s dev))]) s
   }"

text \<open>One message of the main loop, and the loop, which ends only when receiving fails.\<close>

definition devman_handle :: "'w kernel \<Rightarrow> u64 list \<Rightarrow> ('w, 'a) devman_state_scheme \<Rightarrow> ('w, 'a) devman_state_scheme option" where
  "devman_handle K m s =
     (if m ! 0 = MSG_DEVICE_ANNOUNCE then announce K m s
      else if m ! 0 = MSG_DEVICE_LOOKUP then lookup K m s
      else Some s)"

partial_function (option) devman_loop :: "'w kernel \<Rightarrow> u32 \<Rightarrow> ('w, 'a) devman_state_scheme \<Rightarrow> ('w, 'a) devman_state_scheme option" where
  "devman_loop K p s = do {
     let (msg, s) = new_message s;
     (r, msg, s) \<leftarrow> ipc_port_receive K p msg s;
     if r \<noteq> 0 then dbprintf K (chars ''devman: unable to receive from port'' @ [10]) [] s
     else do {
       s \<leftarrow> devman_handle K msg s;
       devman_loop K p s
     }
   }"

definition devman_init :: "('w, 'a) devman_state_scheme \<Rightarrow> ('w, 'a) devman_state_scheme" where
  "devman_init s =
     (let (_, s) = slab_cache_init DEVICE_CACHE 16 s;
          (_, s) = slab_cache_init WAITER_CACHE 16 s
      in s\<lparr>s_devices := (\<lambda>i. if i < DEV_TYPE_COUNT then \<lparr>dl_next = NULL, dl_waiters = NULL\<rparr> else s_devices s i)\<rparr>)"

definition devman_main :: "'w kernel \<Rightarrow> ('w, 'a) devman_state_scheme \<Rightarrow> (u32 \<times> ('w, 'a) devman_state_scheme) option" where
  "devman_main K s = do {
     (p, s) \<leftarrow> ipc_port_create K (devman_init s);
     if sint p < 0 then do {
       s \<leftarrow> dbprintf K (chars ''devman: unable to create IPC port!'' @ [10]) [] s;
       Some (-1, s)
     }
     else do {
       (_, s) \<leftarrow> ipc_server_register K (chars ''devman'') p s;
       s \<leftarrow> devman_loop K p s;
       Some (0, s)
     }
   }"

section \<open>What the kernel does with the answers\<close>

definition sends_return :: "'w kernel \<Rightarrow> bool" where
  "sends_return K \<longleftrightarrow> (\<forall>args m w. K SYS_ipc_port_send args m w \<noteq> None)"

text \<open>The memory and the rest of the system after a message was sent to some ports, in this order.\<close>

fun send_all :: "'w kernel \<Rightarrow> u32 list \<Rightarrow> u64 list \<Rightarrow> memory \<times> 'w \<Rightarrow> (memory \<times> 'w) option" where
  "send_all K [] msg mw = Some mw"
| "send_all K (p # ps) msg mw = do {
     (_, _, mw) \<leftarrow> K SYS_ipc_port_send [of_int_arg p, Msg msg] (fst mw) (snd mw);
     send_all K ps msg mw
   }"

lemma port_send_eq:
  assumes "sends_return K"
    and "grants_pages gr K"
  shows "\<exists>r m w. ipc_port_send K p msg s = Some (r, s\<lparr>umem := m, world := w\<rparr>) \<and> gr (world s) \<subseteq> gr w
    \<and> (\<forall>ps. send_all K (p # ps) msg (umem s, world s) = send_all K ps msg (m, w))"
proof -
  obtain r out m w where "K SYS_ipc_port_send [of_int_arg p, Msg msg] (umem s) (world s) = Some (r, out, m, w)"
    using assms(1) unfolding sends_return_def by (metis option.exhaust prod_cases4)
  moreover from this have "gr (world s) \<subseteq> gr w" using assms(2) unfolding grants_pages_def by blast
  ultimately show ?thesis
    by (intro exI [of _ "ucast r"] exI [of _ m] exI [of _ w]) (simp add: ipc_port_send_def syscall2_def int80_def int_result_def)
qed

section \<open>The directory\<close>

text \<open>
  The server as its clients see it: for each type the devices, the newest first, as pairs of port and id, and
  the ports that wait, the newest first.
\<close>

definition devman_ok :: "('w \<Rightarrow> ptr set) \<Rightarrow> ('w, 'a) devman_state_scheme \<Rightarrow> slab_pages \<Rightarrow> (nat \<Rightarrow> ptr list) \<Rightarrow> (nat \<Rightarrow> ptr list) \<Rightarrow> bool" where
  "devman_ok gr s T X Y \<longleftrightarrow> upool gr s T \<and> usizes (ucaches s DEVICE_CACHE) \<and> usizes (ucaches s WAITER_CACHE)
     \<and> (\<forall>t < DEV_TYPE_COUNT. linked (\<lambda>x. dm_next (dm_devices s x)) (dl_next (s_devices s t)) (X t)
          \<and> set (X t) \<subseteq> ulive s T DEVICE_CACHE
          \<and> linked (\<lambda>x. wt_next (dm_waiters s x)) (dl_waiters (s_devices s t)) (Y t)
          \<and> set (Y t) \<subseteq> ulive s T WAITER_CACHE
          \<and> (\<forall>u < DEV_TYPE_COUNT. t \<noteq> u \<longrightarrow> set (Y t) \<inter> set (Y u) = {}))"

definition directory ::
  "('w \<Rightarrow> ptr set) \<Rightarrow> ('w, 'a) devman_state_scheme \<Rightarrow> (nat \<Rightarrow> (u32 \<times> u32) list) \<Rightarrow> (nat \<Rightarrow> u32 list) \<Rightarrow> bool" where
  "directory gr s D W \<longleftrightarrow> (\<exists>T X Y. devman_ok gr s T X Y
     \<and> (\<forall>t < DEV_TYPE_COUNT. D t = map (\<lambda>x. (dm_port (dm_devices s x), dm_id (dm_devices s x))) (X t)
          \<and> W t = map (\<lambda>x. wt_port (dm_waiters s x)) (Y t)))"

lemma notify_all_ok:
  assumes K: "sends_return K" "grants_pages gr K" and pool: "upool gr s T"
    and l: "linked (\<lambda>x. wt_next (dm_waiters s x)) w ws" and live: "set ws \<subseteq> ulive s T WAITER_CACHE"
  shows "\<exists>s' T'. notify_all K msg w s = Some s' \<and> upool gr s' T' \<and> ulive s' T' = (ulive s T)(WAITER_CACHE := ulive s T WAITER_CACHE - set ws)
    \<and> ualloc_frame s s' \<and> send_all K (map (\<lambda>x. wt_port (dm_waiters s x)) ws) msg (umem s, world s) = Some (umem s', world s')"
  using pool l live
proof (induction ws arbitrary: w s T)
  case Nil
  then show ?case by (subst notify_all.simps) (auto simp: ualloc_frame_refl)
next
  case (Cons x ws)
  have x: "w = x" "x \<noteq> NULL" "linked (\<lambda>x. wt_next (dm_waiters s x)) (wt_next (dm_waiters s x)) ws" "x \<notin> set ws"
    using Cons.prems(2) linked_distinct [OF Cons.prems(2)] by auto
  obtain r m w' where send: "ipc_port_send K (wt_port (dm_waiters s x)) msg s = Some (r, s\<lparr>umem := m, world := w'\<rparr>)"
    "gr (world s) \<subseteq> gr w'" "\<forall>ps. send_all K (wt_port (dm_waiters s x) # ps) msg (umem s, world s) = send_all K ps msg (m, w')"
    using port_send_eq [OF K] by blast
  let ?s = "s\<lparr>umem := m, world := w'\<rparr>"
  have pool1: "upool gr ?s T" by (rule upool_grow [OF Cons.prems(1) send(2)])
  have "x \<in> ulive ?s T WAITER_CACHE" using Cons.prems(3) by simp
  then obtain s2 T2 where free: "slab_cache_free WAITER_CACHE x ?s = Some s2" "upool gr s2 T2"
    "ulive s2 T2 = (ulive s T)(WAITER_CACHE := ulive s T WAITER_CACHE - {x})"
    "s2 = ?s\<lparr>uslabs := uslabs s2, ubufs := ubufs s2, ucaches := ucaches s2\<rparr>" "\<forall>d. same_sizes (ucaches s2 d) (ucaches ?s d)"
    using uslab_cache_free_ok [OF pool1] by fastforce
  have fr: "dm_waiters s2 = dm_waiters s" "umem s2 = m" "world s2 = w'"
    using arg_cong [OF free(4), of dm_waiters] arg_cong [OF free(4), of umem] arg_cong [OF free(4), of world] by simp_all
  have "ualloc_frame s s2" using free(4,5) by (intro ualloc_frameI) (simp_all add: fr)
  moreover have rest: "linked (\<lambda>x. wt_next (dm_waiters s2 x)) (wt_next (dm_waiters s x)) ws" "set ws \<subseteq> ulive s2 T2 WAITER_CACHE"
    using x(3,4) Cons.prems(3) by (auto simp: fr free(3))
  moreover obtain s' T' where IH: "notify_all K msg (wt_next (dm_waiters s x)) s2 = Some s'" "upool gr s' T'"
    "ulive s' T' = (ulive s2 T2)(WAITER_CACHE := ulive s2 T2 WAITER_CACHE - set ws)" "ualloc_frame s2 s'"
    "send_all K (map (\<lambda>x. wt_port (dm_waiters s x)) ws) msg (m, w') = Some (umem s', world s')"
    using Cons.IH [OF free(2) rest] unfolding fr by blast
  ultimately have "ualloc_frame s s'" by (metis ualloc_frame_trans)
  moreover have "notify_all K msg w s = Some s'" using x(1,2) send(1) free(1) IH(1) by (subst notify_all.simps) simp
  moreover have "ulive s' T' = (ulive s T)(WAITER_CACHE := ulive s T WAITER_CACHE - set (x # ws))"
  proof -
    have "ulive s T WAITER_CACHE - {x} - set ws = ulive s T WAITER_CACHE - set (x # ws)" by auto
    then show ?thesis unfolding IH(3) free(3) by simp
  qed
  ultimately show ?case using IH(2,5) send(3) by (intro exI [of _ s'] exI [of _ T']) simp
qed

lemma new_message_eq: "new_message s = (old, s') \<Longrightarrow> s' = s\<lparr>stack := stack s'\<rparr> \<and> length old = 6"
  by (auto simp: new_message_def)

lemma message_first:
  assumes "length old = 6"
  shows "old[0 := a] = [a] @ drop 1 old" and "old[0 := a, 1 := b] = [a, b] @ drop 2 old" and "old[0 := a, 1 := b, 2 := c] = [a, b, c] @ drop 3 old"
  using assms by (auto simp: numeral_eq_Suc length_Suc_conv)

lemma upool_stack [simp]: "upool gr (s\<lparr>stack := f\<rparr>) T = upool gr s T"
  by (simp add: upool_def upage_ok_def ulists_ok_def)

lemma ulive_stack [simp]: "ulive (s\<lparr>stack := f\<rparr>) T = ulive s T"
  by (rule ext) (simp add: ulive_def)

text \<open>What leaves the directory alone: everything but the allocator's pages.\<close>

lemma devman_ok_frame:
  assumes "devman_ok gr s T X Y" and "upool gr s' T'" and "\<forall>d. ulive s T d \<subseteq> ulive s' T' d"
    and "dm_devices s' = dm_devices s" "dm_waiters s' = dm_waiters s" "s_devices s' = s_devices s"
    and "\<forall>d. same_sizes (ucaches s' d) (ucaches s d)"
  shows "devman_ok gr s' T' X Y"
proof -
  have "usizes (ucaches s' d) = usizes (ucaches s d)" for d using assms(7) same_sizes_usizes by blast
  then show ?thesis using assms unfolding devman_ok_def by (simp add: subset_iff)
qed

text \<open>A new device at the front of its list.\<close>

lemma devman_ok_device:
  assumes ok: "devman_ok gr s T X Y" and t: "t < DEV_TYPE_COUNT" and dev: "dev \<noteq> NULL" "dev \<in> ulive s T DEVICE_CACHE"
    "\<forall>u < DEV_TYPE_COUNT. dev \<notin> set (X u)" and link: "dm_next d = dl_next (s_devices s t)"
  shows "devman_ok gr (set_list t (\<lambda>l. l\<lparr>dl_next := dev\<rparr>) (s\<lparr>dm_devices := (dm_devices s)(dev := d)\<rparr>)) T (X(t := dev # X t)) Y"
proof -
  let ?s = "set_list t (\<lambda>l. l\<lparr>dl_next := dev\<rparr>) (s\<lparr>dm_devices := (dm_devices s)(dev := d)\<rparr>)"
  have pool: "upool gr ?s T = upool gr s T" "ulive ?s T = ulive s T"
    by (auto simp: upool_def upage_ok_def ulists_ok_def ulive_def set_list_def)
  have "(\<lambda>x. dm_next (dm_devices ?s x)) = (\<lambda>x. dm_next (dm_devices s x))(dev := dl_next (s_devices s t))"
    using link by (auto simp: set_list_def)
  then have "linked (\<lambda>x. dm_next (dm_devices ?s x)) p (X u) = linked (\<lambda>x. dm_next (dm_devices s x)) p (X u)" if "u < DEV_TYPE_COUNT" for p u
    using dev(3) that by simp
  moreover have "dm_next (dm_devices ?s dev) = dl_next (s_devices s t)" using link by (simp add: set_list_def)
  ultimately show ?thesis using ok t dev unfolding devman_ok_def pool by (auto simp: set_list_def)
qed

text \<open>All waiters of a type taken off, and a new waiter at the front.\<close>

lemma devman_ok_no_waiters:
  assumes ok: "devman_ok gr s T X Y" and t: "t < DEV_TYPE_COUNT"
    and s': "upool gr s' T'" "ulive s' T' = (ulive s T)(WAITER_CACHE := ulive s T WAITER_CACHE - set (Y t))" "ualloc_frame s s'"
  shows "devman_ok gr (set_list t (\<lambda>l. l\<lparr>dl_waiters := NULL\<rparr>) s') T' X (Y(t := []))"
proof -
  let ?s = "set_list t (\<lambda>l. l\<lparr>dl_waiters := NULL\<rparr>) s'"
  have pool: "upool gr ?s T' = upool gr s' T'" "ulive ?s T' = ulive s' T'"
    by (auto simp: upool_def upage_ok_def ulists_ok_def ulive_def set_list_def)
  have fr: "dm_devices s' = dm_devices s" "dm_waiters s' = dm_waiters s" "s_devices s' = s_devices s"
    using s'(3) by (auto simp: ualloc_frame_def)
  have "usizes (ucaches s' d) = usizes (ucaches s d)" for d using s'(3) same_sizes_usizes unfolding ualloc_frame_def by blast
  moreover have "set (Y u) \<subseteq> ulive s T WAITER_CACHE - set (Y t)" if "u < DEV_TYPE_COUNT" "u \<noteq> t" for u
    using ok that t unfolding devman_ok_def by blast
  ultimately show ?thesis using ok t s'(1) unfolding devman_ok_def pool by (auto simp: set_list_def fr s'(2))
qed

lemma devman_ok_waiter:
  assumes ok: "devman_ok gr s T X Y" and t: "t < DEV_TYPE_COUNT" and w: "w \<noteq> NULL" "w \<in> ulive s T WAITER_CACHE"
    "\<forall>u < DEV_TYPE_COUNT. w \<notin> set (Y u)" and link: "wt_next d = dl_waiters (s_devices s t)"
  shows "devman_ok gr (set_list t (\<lambda>l. l\<lparr>dl_waiters := w\<rparr>) (s\<lparr>dm_waiters := (dm_waiters s)(w := d)\<rparr>)) T X (Y(t := w # Y t))"
proof -
  let ?s = "set_list t (\<lambda>l. l\<lparr>dl_waiters := w\<rparr>) (s\<lparr>dm_waiters := (dm_waiters s)(w := d)\<rparr>)"
  have pool: "upool gr ?s T = upool gr s T" "ulive ?s T = ulive s T"
    by (auto simp: upool_def upage_ok_def ulists_ok_def ulive_def set_list_def)
  have "(\<lambda>x. wt_next (dm_waiters ?s x)) = (\<lambda>x. wt_next (dm_waiters s x))(w := dl_waiters (s_devices s t))"
    using link by (auto simp: set_list_def)
  then have "linked (\<lambda>x. wt_next (dm_waiters ?s x)) p (Y u) = linked (\<lambda>x. wt_next (dm_waiters s x)) p (Y u)" if "u < DEV_TYPE_COUNT" for p u
    using w(3) that by simp
  moreover have "wt_next (dm_waiters ?s w) = dl_waiters (s_devices s t)" using link by (simp add: set_list_def)
  ultimately show ?thesis using ok t w unfolding devman_ok_def pool by (auto simp: set_list_def)
qed

text \<open>An allocation keeps the directory, and its object is in none of the lists.\<close>

lemma devman_alloc:
  assumes K: "grants_pages gr K" and ok: "devman_ok gr s T X Y" and c: "c = DEVICE_CACHE \<or> c = WAITER_CACHE"
  shows "\<exists>p s' T'. slab_cache_alloc K c s = Some (p, s') \<and> devman_ok gr s' T' X Y \<and> ualloc_frame s s'
    \<and> (p \<noteq> NULL \<longrightarrow> p \<in> ulive s' T' c \<and> (\<forall>u < DEV_TYPE_COUNT. p \<notin> set (X u) \<and> p \<notin> set (Y u)))"
proof -
  have pool: "upool gr s T" and sizes: "usizes (ucaches s c)" using ok c by (auto simp: devman_ok_def)
  obtain p s' T' where a: "slab_cache_alloc K c s = Some (p, s')" "upool gr s' T'" "ualloc_frame s s'"
    "if p = NULL then ulive s' T' = ulive s T else (\<forall>d. p \<notin> ulive s T d) \<and> ulive s' T' = (ulive s T)(c := insert p (ulive s T c))"
    using uslab_cache_alloc_ok [OF K pool sizes] by blast
  have fr: "dm_devices s' = dm_devices s" "dm_waiters s' = dm_waiters s" "s_devices s' = s_devices s"
    using a(3) by (auto simp: ualloc_frame_def)
  have "\<forall>d. ulive s T d \<subseteq> ulive s' T' d" using a(4) by (auto split: if_splits)
  moreover have "\<forall>d. same_sizes (ucaches s' d) (ucaches s d)" using a(3) by (simp add: ualloc_frame_def)
  ultimately have "devman_ok gr s' T' X Y" using devman_ok_frame [OF ok a(2) _ fr] by blast
  moreover have "p \<in> ulive s' T' c \<and> (\<forall>u < DEV_TYPE_COUNT. p \<notin> set (X u) \<and> p \<notin> set (Y u))" if p: "p \<noteq> NULL"
  proof -
    have "set (X u) \<subseteq> ulive s T DEVICE_CACHE" "set (Y u) \<subseteq> ulive s T WAITER_CACHE" if "u < DEV_TYPE_COUNT" for u
      using ok that unfolding devman_ok_def by blast+
    moreover have "\<forall>d. p \<notin> ulive s T d" "p \<in> ulive s' T' c" using a(4) p by simp_all
    ultimately show ?thesis by blast
  qed
  ultimately show ?thesis using a(1,3) by blast
qed

section \<open>The directory of devices\<close>

text \<open>
  C35: an announcement.  It comes back.  Either there was no memory and the directory is as before, or the device
  is the first of its type, nobody waits for the type any more, and the ports that waited have been sent, in
  their order, a message with result 0 and the port of the device.
\<close>

theorem announce_device:
  assumes K: "sends_return K" "grants_pages gr K" and dir: "directory gr s D W" and t: "list_index (m ! 1) = Some t"
  shows "\<exists>dev s1 s'. slab_cache_alloc K DEVICE_CACHE s = Some (dev, s1) \<and> announce K m s = Some s' \<and>
    (if dev = NULL then s' = s1 \<and> directory gr s' D W
     else directory gr s' (D(t := (ucast (m ! 2), ucast (m ! 3)) # D t)) (W(t := []))
       \<and> send_all K (W t) ([0, scast (ucast (m ! 2) :: u32)] @ drop 2 (fst (new_message s1))) (umem s1, world s1) = Some (umem s', world s'))"
proof -
  obtain T X Y where ok: "devman_ok gr s T X Y"
    and D: "\<forall>t < DEV_TYPE_COUNT. D t = map (\<lambda>x. (dm_port (dm_devices s x), dm_id (dm_devices s x))) (X t)"
    and W: "\<forall>t < DEV_TYPE_COUNT. W t = map (\<lambda>x. wt_port (dm_waiters s x)) (Y t)" using dir by (auto simp: directory_def)
  have t3: "t < DEV_TYPE_COUNT" using t by (auto simp: list_index_def Let_def split: if_splits)
  obtain dev s1 T1 where a: "slab_cache_alloc K DEVICE_CACHE s = Some (dev, s1)" "devman_ok gr s1 T1 X Y" "ualloc_frame s s1"
    "dev \<noteq> NULL \<longrightarrow> dev \<in> ulive s1 T1 DEVICE_CACHE \<and> (\<forall>u < DEV_TYPE_COUNT. dev \<notin> set (X u) \<and> dev \<notin> set (Y u))"
    using devman_alloc [OF K(2) ok] by blast
  have fr: "dm_devices s1 = dm_devices s" "dm_waiters s1 = dm_waiters s" using a(3) by (auto simp: ualloc_frame_def)
  show ?thesis
  proof (cases "dev = NULL")
    case True
    have "directory gr s1 D W" unfolding directory_def using a(2) D W by (intro exI [of _ T1] exI [of _ X] exI [of _ Y]) (simp add: fr)
    then show ?thesis using a(1) True by (intro exI [of _ dev] exI [of _ s1]) (simp add: announce_def)
  next
    case False
    let ?d = "\<lparr>dm_id = ucast (m ! 3), dm_port = ucast (m ! 2), dm_next = dl_next (s_devices s1 t)\<rparr>"
    let ?s2 = "set_list t (\<lambda>l. l\<lparr>dl_next := dev\<rparr>) (s1\<lparr>dm_devices := (dm_devices s1)(dev := ?d)\<rparr>)"
    let ?X = "X(t := dev # X t)" and ?msg = "[0, scast (ucast (m ! 2) :: u32)] @ drop 2 (fst (new_message s1))"
    have ok2: "devman_ok gr ?s2 T1 ?X Y" using a(4) False t3 by (intro devman_ok_device [OF a(2)]) auto
    obtain old s3 where new: "new_message ?s2 = (old, s3)" by fastforce
    have old: "old = fst (new_message s1)" "old[0 := 0, 1 := scast (ucast (m ! 2) :: u32)] = ?msg"
      using new message_first [of old] new_message_eq [OF new] by (auto simp: new_message_def set_list_def)
    have s3: "s3 = ?s2\<lparr>stack := stack s3\<rparr>" using new_message_eq [OF new] by simp
    have fr3: "dm_devices s3 = (dm_devices s)(dev := ?d)" "dm_waiters s3 = dm_waiters s" "s_devices s3 = s_devices ?s2" "umem s3 = umem s1" "world s3 = world s1"
      by (subst s3, simp add: set_list_def fr)+
    have ok3: "devman_ok gr s3 T1 ?X Y"
      by (subst s3, rule devman_ok_frame [OF ok2]) (use ok2 in \<open>simp_all add: devman_ok_def same_sizes_def\<close>)
    then have Y: "linked (\<lambda>x. wt_next (dm_waiters s3 x)) (dl_waiters (s_devices s3 t)) (Y t)" "set (Y t) \<subseteq> ulive s3 T1 WAITER_CACHE" "upool gr s3 T1"
      using t3 by (simp_all add: devman_ok_def)
    obtain s4 T4 where n: "notify_all K ?msg (dl_waiters (s_devices s3 t)) s3 = Some s4" "upool gr s4 T4"
      "ulive s4 T4 = (ulive s3 T1)(WAITER_CACHE := ulive s3 T1 WAITER_CACHE - set (Y t))" "ualloc_frame s3 s4"
      "send_all K (map (\<lambda>x. wt_port (dm_waiters s3 x)) (Y t)) ?msg (umem s3, world s3) = Some (umem s4, world s4)"
      using notify_all_ok [OF K Y(3,1,2)] by blast
    let ?s' = "set_list t (\<lambda>l. l\<lparr>dl_waiters := NULL\<rparr>) s4"
    have fr4: "dm_devices ?s' = dm_devices s3" "dm_waiters ?s' = dm_waiters s3" "umem ?s' = umem s4" "world ?s' = world s4"
      using n(4) by (auto simp: ualloc_frame_def set_list_def)
    have "announce K m s = Some ?s'"
      using a(1) False t n(1) new old(2) fr3(1) by (simp add: announce_def Let_def)
    moreover have "directory gr ?s' (D(t := (ucast (m ! 2), ucast (m ! 3)) # D t)) (W(t := []))"
      unfolding directory_def
    proof (intro exI conjI)
      show "devman_ok gr ?s' T4 ?X (Y(t := []))" by (rule devman_ok_no_waiters [OF ok3 t3 n(2,3,4)])
      have "dev \<notin> set (X u)" if "u < DEV_TYPE_COUNT" for u using a(4) False that by blast
      then have "map (\<lambda>x. (dm_port (dm_devices s3 x), dm_id (dm_devices s3 x))) (X u) = D u" if "u < DEV_TYPE_COUNT" for u
        using D that by (auto simp: fr3)
      then show "\<forall>u < DEV_TYPE_COUNT. (D(t := (ucast (m ! 2), ucast (m ! 3)) # D t)) u = map (\<lambda>x. (dm_port (dm_devices ?s' x), dm_id (dm_devices ?s' x))) (?X u)
        \<and> (W(t := [])) u = map (\<lambda>x. wt_port (dm_waiters ?s' x)) ((Y(t := [])) u)"
        using W unfolding fr4 by (auto simp: fr3)
    qed
    moreover have "send_all K (W t) ?msg (umem s1, world s1) = Some (umem ?s', world ?s')"
      using n(5) W t3 by (simp add: fr3 fr4)
    ultimately show ?thesis using a(1) False by (intro exI [of _ dev] exI [of _ s1] exI [of _ ?s']) simp
  qed
qed

lemma reply_ok:
  assumes K: "sends_return K" "grants_pages gr K" and ok: "devman_ok gr s T X Y"
  shows "\<exists>s'. map_option snd (ipc_port_send K p msg s) = Some s' \<and> devman_ok gr s' T X Y
    \<and> dm_devices s' = dm_devices s \<and> dm_waiters s' = dm_waiters s
    \<and> send_all K [p] msg (umem s, world s) = Some (umem s', world s')"
proof -
  obtain r m w where send: "ipc_port_send K p msg s = Some (r, s\<lparr>umem := m, world := w\<rparr>)" "gr (world s) \<subseteq> gr w"
    "\<forall>ps. send_all K (p # ps) msg (umem s, world s) = send_all K ps msg (m, w)"
    using port_send_eq [OF K] by blast
  have "upool gr (s\<lparr>umem := m, world := w\<rparr>) T" using ok send(2) by (intro upool_grow) (simp_all add: devman_ok_def)
  then have "devman_ok gr (s\<lparr>umem := m, world := w\<rparr>) T X Y" by (intro devman_ok_frame [OF ok]) (simp_all add: same_sizes_def)
  then show ?thesis using send(1,3) by (intro exI [of _ "s\<lparr>umem := m, world := w\<rparr>"]) simp
qed

text \<open>One message was sent, to the port \<open>p\<close>, and the directory is \<open>D\<close> and \<open>W\<close>.\<close>

definition answered ::
  "('w \<Rightarrow> ptr set) \<Rightarrow> 'w kernel \<Rightarrow> (nat \<Rightarrow> (u32 \<times> u32) list) \<Rightarrow> (nat \<Rightarrow> u32 list) \<Rightarrow> u32
     \<Rightarrow> ('w, 'a) devman_state_scheme \<Rightarrow> ('w, 'a) devman_state_scheme \<Rightarrow> u64 list \<Rightarrow> bool" where
  "answered gr K D W p s s' msg \<longleftrightarrow> directory gr s' D W \<and> send_all K [p] msg (umem s, world s) = Some (umem s', world s')"

text \<open>
  C36: a lookup.  It comes back.  If there is a device of the type, the asking port is sent result 0, the port and
  the id of the newest one.  If there is none and the client does not want to wait, it is sent result -1; if it
  does, its port becomes the newest one that waits and nothing is sent, or there is no memory and it is sent -1.
  The devices stay as they are.
\<close>

theorem lookup_device:
  assumes K: "sends_return K" "grants_pages gr K" and dir: "directory gr s D W" and t: "list_index (m ! 1) = Some t"
  shows "\<exists>s'. lookup K m s = Some s' \<and>
    (case D t of
       (port, i) # _ \<Rightarrow> answered gr K D W (ucast (m ! 3)) s s' ([0, scast port, scast i] @ drop 3 (fst (new_message s)))
     | [] \<Rightarrow>
         if m ! 2 = 0 then answered gr K D W (ucast (m ! 3)) s s' ([-1] @ drop 1 (fst (new_message s)))
         else \<exists>w s1. slab_cache_alloc K WAITER_CACHE (snd (new_message s)) = Some (w, s1) \<and>
           (if w = NULL then answered gr K D W (ucast (m ! 3)) s1 s' ([-1] @ drop 1 (fst (new_message s)))
            else directory gr s' D (W(t := ucast (m ! 3) # W t)) \<and> umem s' = umem s1 \<and> world s' = world s1))"
proof -
  obtain T X Y where ok: "devman_ok gr s T X Y"
    and D: "\<forall>t < DEV_TYPE_COUNT. D t = map (\<lambda>x. (dm_port (dm_devices s x), dm_id (dm_devices s x))) (X t)"
    and W: "\<forall>t < DEV_TYPE_COUNT. W t = map (\<lambda>x. wt_port (dm_waiters s x)) (Y t)" using dir by (auto simp: directory_def)
  have t3: "t < DEV_TYPE_COUNT" using t by (auto simp: list_index_def Let_def split: if_splits)
  obtain old s0 where new: "new_message s = (old, s0)" by fastforce
  have s0: "s0 = s\<lparr>stack := stack s0\<rparr>" and len: "length old = 6" using new_message_eq [OF new] by simp_all
  have fr0: "dm_devices s0 = dm_devices s" "dm_waiters s0 = dm_waiters s" "s_devices s0 = s_devices s" "umem s0 = umem s" "world s0 = world s"
    by (subst s0, simp)+
  have ok0: "devman_ok gr s0 T X Y" by (subst s0, rule devman_ok_frame [OF ok]) (use ok in \<open>simp_all add: devman_ok_def same_sizes_def\<close>)
  have reply: "\<exists>s'. map_option snd (ipc_port_send K (ucast (m ! 3)) msg s1) = Some s' \<and> answered gr K D W (ucast (m ! 3)) s1 s' msg"
    if r: "devman_ok gr s1 T1 X Y" "dm_devices s1 = dm_devices s" "dm_waiters s1 = dm_waiters s" for s1 T1 msg
  proof -
    obtain s' where s': "map_option snd (ipc_port_send K (ucast (m ! 3)) msg s1) = Some s'" "devman_ok gr s' T1 X Y"
      "dm_devices s' = dm_devices s1" "dm_waiters s' = dm_waiters s1" "send_all K [ucast (m ! 3)] msg (umem s1, world s1) = Some (umem s', world s')"
      using reply_ok [OF K r(1)] by blast
    then have "directory gr s' D W" unfolding directory_def using D W r(2,3) by (intro exI [of _ T1] exI [of _ X] exI [of _ Y]) simp
    then show ?thesis using s'(1,5) by (auto simp: answered_def)
  qed
  have head: "dl_next (s_devices s0 t) = (case X t of [] \<Rightarrow> NULL | x # _ \<Rightarrow> x)" "\<forall>x \<in> set (X t). x \<noteq> NULL"
    using ok0 t3 linked_hd linked_not_NULL unfolding devman_ok_def by blast+
  show ?thesis
  proof (cases "X t")
    case (Cons x xs)
    have Dt: "D t = (dm_port (dm_devices s x), dm_id (dm_devices s x)) # map (\<lambda>x. (dm_port (dm_devices s x), dm_id (dm_devices s x))) xs"
      using D t3 Cons by simp
    let ?msg = "[0, scast (dm_port (dm_devices s x)), scast (dm_id (dm_devices s x))] @ drop 3 old"
    have "lookup K m s = map_option snd (ipc_port_send K (ucast (m ! 3)) ?msg s0)"
      unfolding message_first(3) [OF len, symmetric] using new t head Cons by (simp add: lookup_def fr0)
    then show ?thesis using reply [OF ok0 fr0(1,2), of ?msg] new unfolding Dt answered_def fr0 by auto
  next
    case Nil
    have Dt: "D t = []" using D t3 Nil by simp
    show ?thesis
    proof (cases "m ! 2 = 0")
      case True
      then have "lookup K m s = map_option snd (ipc_port_send K (ucast (m ! 3)) ([-1] @ drop 1 old) s0)"
        unfolding message_first(1) [OF len, symmetric] using new t head Nil by (simp add: lookup_def)
      then show ?thesis using reply [OF ok0 fr0(1,2), of "[-1] @ drop 1 old"] new True unfolding Dt answered_def fr0 by auto
    next
      case wait: False
      obtain w s1 T1 where a: "slab_cache_alloc K WAITER_CACHE s0 = Some (w, s1)" "devman_ok gr s1 T1 X Y" "ualloc_frame s0 s1"
        "w \<noteq> NULL \<longrightarrow> w \<in> ulive s1 T1 WAITER_CACHE \<and> (\<forall>u < DEV_TYPE_COUNT. w \<notin> set (X u) \<and> w \<notin> set (Y u))"
        using devman_alloc [OF K(2) ok0] by blast
      have fr: "dm_devices s1 = dm_devices s" "dm_waiters s1 = dm_waiters s" using a(3) fr0 by (auto simp: ualloc_frame_def)
      show ?thesis
      proof (cases "w = NULL")
        case True
        then have "lookup K m s = map_option snd (ipc_port_send K (ucast (m ! 3)) ([-1] @ drop 1 old) s1)"
          unfolding message_first(1) [OF len, symmetric] using new t head Nil wait a(1) by (simp add: lookup_def)
        then show ?thesis using reply [OF a(2) fr, of "[-1] @ drop 1 old"] new wait a(1) True unfolding Dt by auto
      next
        case False
        let ?d = "\<lparr>wt_port = ucast (m ! 3), wt_next = dl_waiters (s_devices s1 t)\<rparr>"
        let ?s' = "set_list t (\<lambda>l. l\<lparr>dl_waiters := w\<rparr>) (s1\<lparr>dm_waiters := (dm_waiters s1)(w := ?d)\<rparr>)"
        have "devman_ok gr ?s' T1 X (Y(t := w # Y t))" using a(4) False t3 by (intro devman_ok_waiter [OF a(2)]) auto
        moreover have "w \<notin> set (Y u)" if "u < DEV_TYPE_COUNT" for u using a(4) False that by blast
        then have "map (\<lambda>x. wt_port (dm_waiters ?s' x)) (Y u) = W u" if "u < DEV_TYPE_COUNT" for u
          using W that by (auto simp: fr set_list_def)
        ultimately have "directory gr ?s' D (W(t := ucast (m ! 3) # W t))" unfolding directory_def
          using D by (intro exI [of _ T1] exI [of _ X] exI [of _ "Y(t := w # Y t)"]) (auto simp: fr set_list_def)
        moreover have "lookup K m s = Some ?s'" using new t head Nil wait a(1) False by (simp add: lookup_def)
        ultimately show ?thesis using new a(1) wait False by (intro exI [of _ ?s']) (simp add: Dt set_list_def)
      qed
    qed
  qed
qed

section \<open>The start, and an example\<close>

lemma devman_init_directory:
  assumes "\<forall>c. uc_slab_size (ucaches s c) = 0"
  shows "directory gr (devman_init s) (\<lambda>_. []) (\<lambda>_. [])"
proof -
  obtain k where 1: "slab_cache_init DEVICE_CACHE 16 s = (0, s\<lparr>ucaches := (ucaches s)(DEVICE_CACHE := k)\<rparr>)" "usizes k"
    "upool gr (s\<lparr>ucaches := (ucaches s)(DEVICE_CACHE := k)\<rparr>) Map.empty"
    using uslab_cache_init_ok [OF upool_start [OF assms], of DEVICE_CACHE 16] by auto
  obtain k' where 2: "slab_cache_init WAITER_CACHE 16 (s\<lparr>ucaches := (ucaches s)(DEVICE_CACHE := k)\<rparr>)
      = (0, s\<lparr>ucaches := (ucaches s)(DEVICE_CACHE := k, WAITER_CACHE := k')\<rparr>)" "usizes k'"
    "upool gr (s\<lparr>ucaches := (ucaches s)(DEVICE_CACHE := k, WAITER_CACHE := k')\<rparr>) Map.empty"
    using uslab_cache_init_ok [OF 1(3), of WAITER_CACHE 16] by auto
  have "devman_ok gr (devman_init s) Map.empty (\<lambda>_. []) (\<lambda>_. [])"
    using 1 2 by (simp add: devman_init_def devman_ok_def upool_def ulists_ok_def)
  then show ?thesis unfolding directory_def by (intro exI [of _ Map.empty] exI [of _ "\<lambda>_. []"]) simp
qed

text \<open>A kernel with pages for a while that takes down the other calls.\<close>

type_synonym sample_world = "nat \<times> (syscall \<times> syscall_arg list) list"

definition sample_kernel :: "sample_world kernel" where
  "sample_kernel call args m w =
     (if call = SYS_vmm_alloc \<and> fst w < 1000 then Some (0, [[of_nat (fst w + 1) * PAGE_SIZE]], m, (fst w + 1, snd w))
      else Some (if call = SYS_vmm_alloc then -1 else 0, [], m, (fst w, snd w @ [(call, args)])))"

definition sample_granted :: "sample_world \<Rightarrow> ptr set" where
  "sample_granted w = (\<lambda>k. of_nat (k + 1) * PAGE_SIZE) ` {..< min (fst w) 1000}"

lemma unat_sample_page: "k < 1000 \<Longrightarrow> unat (of_nat (k + 1) * PAGE_SIZE :: u64) = (k + 1) * 4096"
  by (simp add: unat_word_ariths unat_of_nat)

lemma sample_kernel_ok: "sends_return sample_kernel" "grants_pages sample_granted sample_kernel"
proof -
  show "sends_return sample_kernel" by (simp add: sends_return_def sample_kernel_def)
  have new: "page_aligned p \<and> p \<notin> sample_granted w \<and> p \<in> sample_granted (fst w + 1, l)"
    if p: "p = of_nat (fst w + 1) * PAGE_SIZE" "fst w < 1000" for p w l
  proof -
    have u: "unat p = (fst w + 1) * 4096" using unat_sample_page p by simp
    then have "page_aligned p" by (simp add: page_aligned_mod)
    moreover have "p \<notin> sample_granted w"
    proof
      assume "p \<in> sample_granted w"
      then obtain k where k: "k < fst w" "p = of_nat (k + 1) * PAGE_SIZE" by (auto simp: sample_granted_def)
      then have "unat p = (k + 1) * 4096" using unat_sample_page p(2) by simp
      then show False using u k(1) by simp
    qed
    ultimately show ?thesis using p unfolding sample_granted_def by auto
  qed
  show "grants_pages sample_granted sample_kernel" unfolding grants_pages_def
  proof (intro conjI allI impI)
    fix call args m w r out m' w'
    assume "sample_kernel call args m w = Some (r, out, m', w')"
    then show "sample_granted w \<subseteq> sample_granted w'" by (auto simp: sample_kernel_def sample_granted_def split: if_splits)
  next
    fix m w
    show "\<exists>r out m' w'. sample_kernel SYS_vmm_alloc [Num PAGE_SIZE, Out] m w = Some (r, out, m', w') \<and>
      ((ucast r :: u32) = 0 \<and> stored NULL out \<noteq> NULL \<longrightarrow>
         page_aligned (stored NULL out) \<and> stored NULL out \<notin> sample_granted w \<and> stored NULL out \<in> sample_granted w')"
      using new [OF refl, of w "snd w"] by (auto simp: sample_kernel_def stored_def)
  qed
qed

definition sample_state :: "sample_world devman_state" where
  "sample_state = devman_init \<lparr>world = (0, []), umem = (\<lambda>_. 0), stack = (\<lambda>_. 0), port_log = [], port_device = (\<lambda>_ _. 0),
     uslabs = (\<lambda>_. \<lparr>us_next = NULL, us_cache = NULL, us_base = NULL, us_free_list = NULL, us_free_count = 0\<rparr>), ubufs = (\<lambda>_. NULL),
     ucaches = (\<lambda>_. \<lparr>uc_slab_size = 0, uc_obj_size = 0, uc_per_slab = 0, uc_full = NULL, uc_partial = NULL\<rparr>),
     ubuckets = (\<lambda>_ _. NULL), uhnext = (\<lambda>_. NULL), dm_devices = (\<lambda>_. \<lparr>dm_id = 0, dm_port = 0, dm_next = NULL\<rparr>),
     dm_waiters = (\<lambda>_. \<lparr>wt_port = 0, wt_next = NULL\<rparr>), s_devices = (\<lambda>_. \<lparr>dl_next = NULL, dl_waiters = NULL\<rparr>)\<rparr>"

lemma sample_directory: "directory gr sample_state (\<lambda>_. []) (\<lambda>_. [])"
  unfolding sample_state_def by (rule devman_init_directory) simp

lemma announce_device_witness:
  "\<exists>dev s1 s'. slab_cache_alloc sample_kernel DEVICE_CACHE sample_state = Some (dev, s1)
    \<and> announce sample_kernel [1000, type_code INPUT, 7, 0, 0, 0] sample_state = Some s' \<and>
    (if dev = NULL then s' = s1 \<and> directory sample_granted s' (\<lambda>_. []) (\<lambda>_. [])
     else directory sample_granted s' ((\<lambda>_. [])(1 := [(7, 0)])) ((\<lambda>_. [])(1 := []))
       \<and> send_all sample_kernel [] ([0, 7] @ drop 2 (fst (new_message s1))) (umem s1, world s1) = Some (umem s', world s'))"
proof -
  have t: "list_index ([1000, type_code INPUT, 7, 0, 0, 0] ! 1) = Some 1" by (simp add: list_index_def)
  have w: "(ucast (7 :: u64) :: u32) = 7" "(ucast (0 :: u64) :: u32) = 0" "(scast (7 :: u32) :: u64) = 7" by simp_all
  have n: "[1000, type_code INPUT, 7, 0, 0, 0] ! 2 = 7" "[1000, type_code INPUT, 7, 0, 0, 0] ! 3 = 0" by simp_all
  show ?thesis using announce_device [OF sample_kernel_ok sample_directory t] unfolding n w .
qed

lemma lookup_device_witness:
  "\<exists>s'. lookup sample_kernel [1001, type_code PTY, 0, 9, 0, 0] sample_state = Some s'
    \<and> answered sample_granted sample_kernel (\<lambda>_. []) (\<lambda>_. []) 9 sample_state s' ([-1] @ drop 1 (fst (new_message sample_state)))"
proof -
  have t: "list_index ([1001, type_code PTY, 0, 9, 0, 0] ! 1) = Some 2" by (simp add: list_index_def)
  show ?thesis using lookup_device [OF sample_kernel_ok sample_directory t] by simp
qed

end
