(* ===== verification/DevServer.thy ===== *)
theory DevServer
  imports UserPool Devman
begin

text \<open>
  The library of device servers (\<^verbatim>\<open>lib/devman/src/server\<close>): the devices of a server by their ids, the
  connections to them, and the requests: each device performs one request at a time and queues the others.  The
  operations of a driver are functions of the server's state.  Finishing a request performs the next one, which
  the driver may finish at once, so the library calls itself through the driver: the operations that may do so
  take what performs a request as an argument, and each driver ties the knot.
\<close>

section \<open>Data\<close>

datatype device_operation = READ | WRITE

text \<open>The link of a device in the hash table is in the heap of the tables.\<close>

record server_device =
  dv_id :: u32
  dv_request :: ptr
  dv_queue_head :: ptr
  dv_queue_tail :: ptr
  dv_ops :: ptr
  dv_data :: ptr

record device_request =
  rq_dev :: ptr
  rq_op :: device_operation
  rq_port :: u32
  rq_data :: ptr
  rq_size :: u64
  rq_p :: u64
  rq_next :: ptr

record device_conn =
  cn_shmem :: u32
  cn_size :: u64
  cn_data :: ptr
  cn_dev :: ptr

record 'w devserver_state = "'w support_state" +
  dv_devices :: "ptr \<Rightarrow> server_device"
  dv_requests :: "ptr \<Rightarrow> device_request"
  dv_conns :: "ptr \<Rightarrow> device_conn"
  s_local_port :: u32
  s_devman_port :: u32
  s_next_id :: u32
  s_dev_table :: "u32 hashtable"

abbreviation (input) DEV_CACHE :: ptr where "DEV_CACHE \<equiv> 11"
abbreviation (input) DEV_CONN_CACHE :: ptr where "DEV_CONN_CACHE \<equiv> 12"
abbreviation (input) DEV_REQ_CACHE :: ptr where "DEV_REQ_CACHE \<equiv> 13"

definition set_device :: "ptr \<Rightarrow> (server_device \<Rightarrow> server_device) \<Rightarrow> ('w, 'a) devserver_state_scheme \<Rightarrow> ('w, 'a) devserver_state_scheme" where
  "set_device d f s = s\<lparr>dv_devices := (dv_devices s)(d := f (dv_devices s d))\<rparr>"

definition set_request :: "ptr \<Rightarrow> (device_request \<Rightarrow> device_request) \<Rightarrow> ('w, 'a) devserver_state_scheme \<Rightarrow> ('w, 'a) devserver_state_scheme" where
  "set_request r f s = s\<lparr>dv_requests := (dv_requests s)(r := f (dv_requests s r))\<rparr>"

definition set_conn :: "ptr \<Rightarrow> (device_conn \<Rightarrow> device_conn) \<Rightarrow> ('w, 'a) devserver_state_scheme \<Rightarrow> ('w, 'a) devserver_state_scheme" where
  "set_conn c f s = s\<lparr>dv_conns := (dv_conns s)(c := f (dv_conns s c))\<rparr>"

text \<open>\<^verbatim>\<open>device_key\<close>\<close>

definition device_key :: "('w, 'a) devserver_state_scheme \<Rightarrow> ptr \<Rightarrow> u32" where
  "device_key s item = dv_id (dv_devices s item)"

section \<open>Devices and connections\<close>

text \<open>The result, and the device for the caller, who gets none when the result is not 0.\<close>

definition device_announce ::
  "'w kernel \<Rightarrow> u64 \<Rightarrow> ptr \<Rightarrow> ptr \<Rightarrow> ('w, 'a) devserver_state_scheme \<Rightarrow> (int \<times> ptr option \<times> ('w, 'a) devserver_state_scheme) option" where
  "device_announce K type ops data s = do {
     (dev, s) \<leftarrow> slab_cache_alloc K DEV_CACHE s;
     if dev = NULL then Some (-1, None, s)
     else do {
       let s = set_device dev (\<lambda>d. \<lparr>dv_id = s_next_id s, dv_request = NULL, dv_queue_head = NULL, dv_queue_tail = NULL, dv_ops = ops, dv_data = data\<rparr>) s;
       let s = s\<lparr>s_next_id := s_next_id s + 1\<rparr>;
       (tab, s) \<leftarrow> hashtable_add (device_key s) (s_dev_table s) dev s;
       let s = s\<lparr>s_dev_table := tab\<rparr>;
       let (msg, s) = new_message s;
       let msg = msg[0 := MSG_DEVICE_ANNOUNCE, 1 := type, 2 := scast (s_local_port s), 3 := scast (dv_id (dv_devices s dev))];
       (r, s) \<leftarrow> ipc_port_send K (s_devman_port s) msg s;
       if r \<noteq> 0 then Some (-1, None, s) else Some (0, Some dev, s)
     }
   }"

text \<open>
  \<^verbatim>\<open>do_open\<close>, for a driver's \<^verbatim>\<open>open\<close> if it has one.  The errors go to the port that the number of the shared
  memory names.
\<close>

definition do_open ::
  "'w kernel \<Rightarrow> (ptr \<Rightarrow> ('w, 'a) devserver_state_scheme \<Rightarrow> (u32 \<times> ('w, 'a) devserver_state_scheme) option) option \<Rightarrow> u64 list
     \<Rightarrow> ('w, 'a) devserver_state_scheme \<Rightarrow> ('w, 'a) devserver_state_scheme option" where
  "do_open K op_open m s = do {
     let (rep, s) = new_message s;
     let fail = (\<lambda>s. map_option snd (ipc_port_send K (ucast (m ! 2)) (rep[0 := -1]) s));
     dev \<leftarrow> hashtable_get (device_key s) (s_dev_table s) (ucast (m ! 1)) s;
     if dev = NULL then fail s
     else do {
       (c, s) \<leftarrow> slab_cache_alloc K DEV_CONN_CACHE s;
       if c = NULL then fail s
       else do {
         let s = set_conn c (\<lambda>x. x\<lparr>cn_dev := dev, cn_shmem := ucast (m ! 2)\<rparr>) s;
         (r, base, sz, s) \<leftarrow> ipc_shmem_accept K (cn_shmem (dv_conns s c)) (cn_data (dv_conns s c)) (cn_size (dv_conns s c)) s;
         let s = set_conn c (\<lambda>x. x\<lparr>cn_data := base, cn_size := sz\<rparr>) s;
         if r \<noteq> 0 then do {
           s \<leftarrow> slab_cache_free DEV_CONN_CACHE c s;
           fail s
         }
         else do {
           (r, s) \<leftarrow> (case op_open of None \<Rightarrow> Some (0, s) | Some f \<Rightarrow> f dev s);
           if r \<noteq> 0 then do {
             s \<leftarrow> slab_cache_free DEV_CONN_CACHE c s;
             fail s
           }
           else map_option snd (ipc_port_send K (ucast (m ! 3)) (rep[0 := 0, 1 := c]) s)
         }
       }
     }
   }"

section \<open>Requests\<close>

definition queue_request :: "ptr \<Rightarrow> ptr \<Rightarrow> ('w, 'a) devserver_state_scheme \<Rightarrow> ('w, 'a) devserver_state_scheme" where
  "queue_request d req s =
     (let s = set_request req (\<lambda>r. r\<lparr>rq_next := NULL\<rparr>) s;
          s = (if dv_queue_tail (dv_devices s d) \<noteq> NULL
               then set_request (dv_queue_tail (dv_devices s d)) (\<lambda>r. r\<lparr>rq_next := req\<rparr>) s else s);
          s = set_device d (\<lambda>x. x\<lparr>dv_queue_tail := req\<rparr>) s
      in if dv_queue_head (dv_devices s d) = NULL then set_device d (\<lambda>x. x\<lparr>dv_queue_head := req\<rparr>) s else s)"

text \<open>\<open>op_read\<close> and \<open>op_write\<close> are those of the driver, if it has them; their results are not used.\<close>

type_synonym ('w, 'a) driver_op = "ptr \<Rightarrow> ptr \<Rightarrow> ('w, 'a) devserver_state_scheme \<Rightarrow> ('w, 'a) devserver_state_scheme option"

definition perform_request :: "('w, 'a) driver_op option \<Rightarrow> ('w, 'a) driver_op option \<Rightarrow> ('w, 'a) driver_op" where
  "perform_request op_read op_write d req s =
     (let s = set_device d (\<lambda>x. x\<lparr>dv_request := req\<rparr>) s
      in case rq_op (dv_requests s req) of
           READ \<Rightarrow> (case op_read of Some f \<Rightarrow> f d req s | None \<Rightarrow> Some s)
         | WRITE \<Rightarrow> (case op_write of Some f \<Rightarrow> f d req s | None \<Rightarrow> Some s))"

definition reply_kind :: "device_operation \<Rightarrow> u64" where
  "reply_kind oper = (case oper of READ \<Rightarrow> MSG_DEVICE_READ_REPLY | WRITE \<Rightarrow> MSG_DEVICE_WRITE_REPLY)"

definition device_request_finished ::
  "'w kernel \<Rightarrow> ('w, 'a) driver_op \<Rightarrow> ptr \<Rightarrow> u32 \<Rightarrow> ('w, 'a) devserver_state_scheme \<Rightarrow> ('w, 'a) devserver_state_scheme option" where
  "device_request_finished K perform req result s = do {
     let (msg, s) = new_message s;
     let msg = msg[0 := reply_kind (rq_op (dv_requests s req)), 1 := scast result, 2 := rq_p (dv_requests s req)];
     (_, s) \<leftarrow> ipc_port_send K (rq_port (dv_requests s req)) msg s;
     let dev = rq_dev (dv_requests s req);
     s \<leftarrow> slab_cache_free DEV_REQ_CACHE req s;
     if dv_queue_head (dv_devices s dev) \<noteq> NULL then do {
       let req = dv_queue_head (dv_devices s dev);
       let s = set_device dev (\<lambda>x. x\<lparr>dv_queue_head := rq_next (dv_requests s req)\<rparr>) s;
       let s = (if dv_queue_head (dv_devices s dev) = NULL then set_device dev (\<lambda>x. x\<lparr>dv_queue_tail := NULL\<rparr>) s else s);
       perform dev req s
     }
     else Some (set_device dev (\<lambda>x. x\<lparr>dv_request := NULL\<rparr>) s)
   }"

text \<open>A read or write message: the connection is the address the client sent.\<close>

definition handle_request ::
  "'w kernel \<Rightarrow> ('w, 'a) driver_op \<Rightarrow> u64 list \<Rightarrow> ('w, 'a) devserver_state_scheme \<Rightarrow> ('w, 'a) devserver_state_scheme option" where
  "handle_request K perform msg s = do {
     let c = msg ! 1;
     let dev = cn_dev (dv_conns s c);
     (req, s) \<leftarrow> slab_cache_alloc K DEV_REQ_CACHE s;
     if req = NULL then do {
       let (rep, s) = new_message s;
       map_option snd (ipc_port_send K (ucast (msg ! 3)) (rep[0 := -1]) s)
     }
     else do {
       let s = set_request req (\<lambda>r. r\<lparr>rq_dev := dev, rq_op := (if msg ! 0 = MSG_DEVICE_READ then READ else WRITE), rq_port := ucast (msg ! 4),
                  rq_data := cn_data (dv_conns s c), rq_size := msg ! 2, rq_p := msg ! 3\<rparr>) s;
       if dv_request (dv_devices s dev) \<noteq> NULL then Some (queue_request dev req s)
       else perform dev req s
     }
   }"

section \<open>The main loop\<close>

definition handle_message ::
  "'w kernel \<Rightarrow> (ptr \<Rightarrow> ('w, 'a) devserver_state_scheme \<Rightarrow> (u32 \<times> ('w, 'a) devserver_state_scheme) option) option \<Rightarrow> ('w, 'a) driver_op
     \<Rightarrow> (u64 list \<Rightarrow> ('w, 'a) devserver_state_scheme \<Rightarrow> ('w, 'a) devserver_state_scheme option) option \<Rightarrow> u64 list
     \<Rightarrow> ('w, 'a) devserver_state_scheme \<Rightarrow> ('w, 'a) devserver_state_scheme option" where
  "handle_message K op_open perform handler msg s =
     (if msg ! 0 = MSG_DEVICE_OPEN then do_open K op_open msg s
      else if msg ! 0 = MSG_DEVICE_CLOSE then Some s
      else if msg ! 0 = MSG_DEVICE_READ \<or> msg ! 0 = MSG_DEVICE_WRITE then handle_request K perform msg s
      else case handler of Some f \<Rightarrow> f msg s | None \<Rightarrow> Some s)"

partial_function (option) libdevman_server_run ::
  "'w kernel \<Rightarrow> (ptr \<Rightarrow> ('w, 'a) devserver_state_scheme \<Rightarrow> (u32 \<times> ('w, 'a) devserver_state_scheme) option) option \<Rightarrow> ('w, 'a) driver_op
     \<Rightarrow> (u64 list \<Rightarrow> ('w, 'a) devserver_state_scheme \<Rightarrow> ('w, 'a) devserver_state_scheme option) option
     \<Rightarrow> ('w, 'a) devserver_state_scheme \<Rightarrow> (int \<times> ('w, 'a) devserver_state_scheme) option" where
  "libdevman_server_run K op_open perform handler s = do {
     let (msg, s) = new_message s;
     (r, msg, s) \<leftarrow> ipc_port_receive K (s_local_port s) msg s;
     if r \<noteq> 0 then Some (-1, s)
     else do {
       s \<leftarrow> handle_message K op_open perform handler msg s;
       libdevman_server_run K op_open perform handler s
     }
   }"

definition libdevman_server_init :: "'w kernel \<Rightarrow> ('w, 'a) devserver_state_scheme \<Rightarrow> (int \<times> ('w, 'a) devserver_state_scheme) option" where
  "libdevman_server_init K s = do {
     (p, s) \<leftarrow> ipc_port_create K s;
     let s = s\<lparr>s_local_port := p\<rparr>;
     if sint (s_local_port s) < 0 then Some (-1, s)
     else do {
       (p, s) \<leftarrow> ipc_server_lookup K (chars ''devman'') 1 s;
       let s = s\<lparr>s_devman_port := p\<rparr>;
       (_, tab, s) \<leftarrow> hashtable_init K (s_dev_table s) hashtable_hash_int hashtable_compare_int s;
       let s = s\<lparr>s_dev_table := tab\<rparr>;
       let (_, s) = slab_cache_init DEV_CACHE 56 s;
       let (_, s) = slab_cache_init DEV_CONN_CACHE 32 s;
       let (_, s) = slab_cache_init DEV_REQ_CACHE 48 s;
       Some (0, s)
     }
   }"

definition libdevman_server_get_port :: "('w, 'a) devserver_state_scheme \<Rightarrow> u32" where
  "libdevman_server_get_port s = s_local_port s"

section \<open>Drivers that finish requests themselves\<close>

lemma device_request_finished_mono [partial_function_mono]:
  assumes "\<And>d r s. mono_option (\<lambda>f. perform f d r s)"
  shows "mono_option (\<lambda>f. device_request_finished K (perform f) req result s)"
  unfolding device_request_finished_def Let_def case_prod_beta
  by (intro bind_mono if_mono option.const_mono assms)

lemma perform_both_mono [partial_function_mono]:
  assumes "\<And>d r s. mono_option (\<lambda>f. rd f d r s)" and "\<And>d r s. mono_option (\<lambda>f. wr f d r s)"
  shows "mono_option (\<lambda>f. perform_request (Some (rd f)) (Some (wr f)) d req s)"
  unfolding perform_request_def Let_def using assms
  by (cases "rq_op (dv_requests (set_device d (\<lambda>x. x\<lparr>dv_request := req\<rparr>) s) req)"; simp)

lemma perform_read_mono [partial_function_mono]:
  assumes "\<And>d r s. mono_option (\<lambda>f. rd f d r s)"
  shows "mono_option (\<lambda>f. perform_request (Some (rd f)) None d req s)"
  unfolding perform_request_def Let_def using assms
  by (cases "rq_op (dv_requests (set_device d (\<lambda>x. x\<lparr>dv_request := req\<rparr>) s) req)"; simp add: option.const_mono)

lemma perform_write_mono [partial_function_mono]:
  assumes "\<And>d r s. mono_option (\<lambda>f. wr f d r s)"
  shows "mono_option (\<lambda>f. perform_request None (Some (wr f)) d req s)"
  unfolding perform_request_def Let_def using assms
  by (cases "rq_op (dv_requests (set_device d (\<lambda>x. x\<lparr>dv_request := req\<rparr>) s) req)"; simp add: option.const_mono)

section \<open>The queue of a device\<close>

text \<open>The request a device performs, and those that wait, in the order in which they came.\<close>

definition device_queue :: "('w, 'a) devserver_state_scheme \<Rightarrow> ptr \<Rightarrow> ptr \<Rightarrow> ptr list \<Rightarrow> bool" where
  "device_queue s d cur rs \<longleftrightarrow> dv_request (dv_devices s d) = cur
     \<and> linked (\<lambda>x. rq_next (dv_requests s x)) (dv_queue_head (dv_devices s d)) rs
     \<and> dv_queue_tail (dv_devices s d) = (if rs = [] then NULL else last rs)"

lemma device_queue_cong:
  "dv_devices s' = dv_devices s \<Longrightarrow> dv_requests s' = dv_requests s \<Longrightarrow> device_queue s' d cur rs = device_queue s d cur rs"
  by (simp add: device_queue_def)

lemma queue_request_ok:
  assumes q: "device_queue s d cur rs" and req: "req \<noteq> NULL" "req \<notin> set rs"
  shows "device_queue (queue_request d req s) d cur (rs @ [req])"
    and "r \<noteq> req \<Longrightarrow> rs = [] \<or> r \<noteq> last rs \<Longrightarrow> dv_requests (queue_request d req s) r = dv_requests s r"
    and "dv_requests (queue_request d req s) req = (dv_requests s req)\<lparr>rq_next := NULL\<rparr>"
proof -
  let ?s = "queue_request d req s"
  show "device_queue ?s d cur (rs @ [req])"
  proof (cases rs rule: rev_cases)
    case Nil
    then show ?thesis using q req(1) by (auto simp: device_queue_def queue_request_def set_request_def set_device_def Let_def)
  next
    case (snoc qs t)
    have l: "linked (\<lambda>x. rq_next (dv_requests s x)) (dv_queue_head (dv_devices s d)) (qs @ [t])" "dv_queue_tail (dv_devices s d) = t"
      using q snoc by (simp_all add: device_queue_def)
    have t: "t \<noteq> NULL" "t \<noteq> req" using linked_not_NULL [OF l(1)] req(2) snoc by auto
    have h: "dv_queue_head (dv_devices s d) \<noteq> NULL" using l(1) by (cases qs) auto
    have "(\<lambda>x. rq_next (dv_requests ?s x)) = (\<lambda>x. rq_next (dv_requests s x))(req := NULL, t := req)"
      using l(2) t h by (auto simp: queue_request_def set_request_def set_device_def Let_def)
    moreover have "linked ((\<lambda>x. rq_next (dv_requests s x))(req := NULL, t := req)) (dv_queue_head (dv_devices s d)) (qs @ [t, req])"
      using linked_snoc [OF l(1), of req] req snoc by simp
    moreover have "dv_queue_head (dv_devices ?s d) = dv_queue_head (dv_devices s d)" "dv_queue_tail (dv_devices ?s d) = req"
      "dv_request (dv_devices ?s d) = dv_request (dv_devices s d)"
      using l(2) t h by (auto simp: queue_request_def set_request_def set_device_def Let_def)
    ultimately show ?thesis using q snoc by (simp add: device_queue_def)
  qed
  show "r \<noteq> req \<Longrightarrow> rs = [] \<or> r \<noteq> last rs \<Longrightarrow> dv_requests ?s r = dv_requests s r"
    "dv_requests ?s req = (dv_requests s req)\<lparr>rq_next := NULL\<rparr>"
    using q req by (auto simp: device_queue_def queue_request_def set_request_def set_device_def Let_def)
qed

text \<open>
  C37: a request that finishes.  The reply with its kind, the result and the client's tag goes to the client's port,
  and the object of the request is free again.  If requests wait, the oldest one is performed next, and the
  others keep waiting in their order; otherwise the device has no request.
\<close>

theorem request_finished:
  assumes K: "sends_return K" "grants_pages gr K" and pool: "upool gr s T" and cur: "cur \<in> ulive s T DEV_REQ_CACHE"
    and q: "device_queue s (rq_dev (dv_requests s cur)) cur rs"
  shows "\<exists>s1 T1. device_request_finished K perform cur result s
      = (case rs of [] \<Rightarrow> Some s1 | r # _ \<Rightarrow> perform (rq_dev (dv_requests s cur)) r s1)
    \<and> device_queue s1 (rq_dev (dv_requests s cur)) (if rs = [] then NULL else cur) (tl rs) \<and> dv_requests s1 = dv_requests s
    \<and> upool gr s1 T1 \<and> ulive s1 T1 = (ulive s T)(DEV_REQ_CACHE := ulive s T DEV_REQ_CACHE - {cur})
    \<and> send_all K [rq_port (dv_requests s cur)]
        ([reply_kind (rq_op (dv_requests s cur)), scast result, rq_p (dv_requests s cur)] @ drop 3 (fst (new_message s)))
        (umem s, world s) = Some (umem s1, world s1)"
proof -
  let ?r = "dv_requests s cur" and ?d = "rq_dev (dv_requests s cur)"
  obtain old s0 where new: "new_message s = (old, s0)" by fastforce
  have s0: "s0 = s\<lparr>stack := stack s0\<rparr>" and len: "length old = 6" using new_message_eq [OF new] by simp_all
  have fr0: "dv_devices s0 = dv_devices s" "dv_requests s0 = dv_requests s" "umem s0 = umem s" "world s0 = world s" by (subst s0, simp)+
  have pool0: "upool gr s0 T" "ulive s0 T = ulive s T" by (subst s0, simp add: pool)+
  let ?msg = "[reply_kind (rq_op ?r), scast result, rq_p ?r] @ drop 3 old"
  obtain r m w where send: "ipc_port_send K (rq_port ?r) ?msg s0 = Some (r, s0\<lparr>umem := m, world := w\<rparr>)" "gr (world s0) \<subseteq> gr w"
    "\<forall>ps. send_all K (rq_port ?r # ps) ?msg (umem s0, world s0) = send_all K ps ?msg (m, w)"
    using port_send_eq [OF K] by blast
  let ?s1 = "s0\<lparr>umem := m, world := w\<rparr>"
  have pool1: "upool gr ?s1 T" by (rule upool_grow [OF pool0(1) send(2)])
  have "cur \<in> ulive ?s1 T DEV_REQ_CACHE" using cur pool0(2) by simp
  then obtain s2 T2 where free: "slab_cache_free DEV_REQ_CACHE cur ?s1 = Some s2" "upool gr s2 T2"
    "ulive s2 T2 = (ulive s T)(DEV_REQ_CACHE := ulive s T DEV_REQ_CACHE - {cur})"
    "s2 = ?s1\<lparr>uslabs := uslabs s2, ubufs := ubufs s2, ucaches := ucaches s2\<rparr>"
    using uslab_cache_free_ok [OF pool1] pool0(2) by fastforce
  have fr2: "dv_devices s2 = dv_devices s" "dv_requests s2 = dv_requests s" "umem s2 = m" "world s2 = w"
    using arg_cong [OF free(4), of dv_devices] arg_cong [OF free(4), of dv_requests] arg_cong [OF free(4), of umem] arg_cong [OF free(4), of world] fr0
    by simp_all
  define s3 where "s3 = (if rs = [] then set_device ?d (\<lambda>x. x\<lparr>dv_request := NULL\<rparr>) s2
    else set_device ?d (\<lambda>x. x\<lparr>dv_queue_head := rq_next (dv_requests s (hd rs)), dv_queue_tail := (if tl rs = [] then NULL else dv_queue_tail x)\<rparr>) s2)"
  have head: "dv_queue_head (dv_devices s ?d) = (case rs of [] \<Rightarrow> NULL | x # _ \<Rightarrow> x)" "\<forall>x \<in> set rs. x \<noteq> NULL"
    and rest: "rs \<noteq> [] \<Longrightarrow> linked (\<lambda>x. rq_next (dv_requests s x)) (rq_next (dv_requests s (hd rs))) (tl rs)"
    using q linked_hd linked_not_NULL unfolding device_queue_def by (blast, blast, cases rs) auto
  have nx: "rs \<noteq> [] \<Longrightarrow> rq_next (dv_requests s (hd rs)) = NULL \<longleftrightarrow> tl rs = []" using rest by (cases "tl rs") auto
  have run: "device_request_finished K perform cur result s = (case rs of [] \<Rightarrow> Some s3 | r # _ \<Rightarrow> perform ?d r s3)"
  proof -
    have "device_request_finished K perform cur result s = (if dv_queue_head (dv_devices s2 ?d) \<noteq> NULL then
        perform ?d (dv_queue_head (dv_devices s2 ?d))
          (let t = set_device ?d (\<lambda>x. x\<lparr>dv_queue_head := rq_next (dv_requests s2 (dv_queue_head (dv_devices s2 ?d)))\<rparr>) s2
           in if dv_queue_head (dv_devices t ?d) = NULL then set_device ?d (\<lambda>x. x\<lparr>dv_queue_tail := NULL\<rparr>) t else t)
      else Some (set_device ?d (\<lambda>x. x\<lparr>dv_request := NULL\<rparr>) s2))"
      using send(1) free(1) unfolding device_request_finished_def new fr0 message_first(3) [OF len, symmetric]
      by (simp add: new Let_def fr0)
    then show ?thesis using head nx by (cases rs) (auto simp: fr2 s3_def set_device_def Let_def)
  qed
  have "device_queue s3 ?d (if rs = [] then NULL else cur) (tl rs)"
    using q rest by (cases rs) (auto simp: device_queue_def s3_def set_device_def fr2)
  moreover have "upool gr s3 T2" "ulive s3 T2 = ulive s2 T2"
    using free(2) by (auto simp: s3_def set_device_def upool_def upage_ok_def ulists_ok_def ulive_def)
  moreover have "dv_requests s3 = dv_requests s" "umem s3 = m" "world s3 = w" by (auto simp: s3_def set_device_def fr2)
  ultimately show ?thesis using run free(3) send(3) new unfolding fr0
    by (intro exI [of _ s3] exI [of _ T2] conjI) simp_all
qed

text \<open>
  C38: a request that arrives over a connection.  When there is memory for it, it is recorded with the device of
  the connection, the shared memory, and the size, the tag and the reply port of the message; a device without
  a request is asked to perform it, on a busy device it is the last one that waits.
\<close>

theorem request_arrives:
  assumes K: "grants_pages gr K" and pool: "upool gr s T" and sizes: "usizes (ucaches s DEV_REQ_CACHE)"
    and q: "device_queue s (cn_dev (dv_conns s (msg ! 1))) cur rs" and live: "set rs \<subseteq> ulive s T DEV_REQ_CACHE"
  shows "\<exists>req s1 T1. slab_cache_alloc K DEV_REQ_CACHE s = Some (req, s1) \<and> upool gr s1 T1 \<and>
    (req \<noteq> NULL \<longrightarrow> req \<notin> ulive s T DEV_REQ_CACHE \<and> (\<exists>s2. handle_request K perform msg s
        = (if cur = NULL then perform (cn_dev (dv_conns s (msg ! 1))) req s2 else Some s2)
      \<and> device_queue s2 (cn_dev (dv_conns s (msg ! 1))) cur (if cur = NULL then rs else rs @ [req])
      \<and> (\<exists>nx. dv_requests s2 req = \<lparr>rq_dev = cn_dev (dv_conns s (msg ! 1)), rq_op = (if msg ! 0 = MSG_DEVICE_READ then READ else WRITE),
            rq_port = ucast (msg ! 4), rq_data = cn_data (dv_conns s (msg ! 1)), rq_size = msg ! 2, rq_p = msg ! 3, rq_next = nx\<rparr>)))"
proof -
  let ?c = "dv_conns s (msg ! 1)"
  obtain req s1 T1 where a: "slab_cache_alloc K DEV_REQ_CACHE s = Some (req, s1)" "upool gr s1 T1" "ualloc_frame s s1"
    "if req = NULL then ulive s1 T1 = ulive s T else (\<forall>d. req \<notin> ulive s T d) \<and> ulive s1 T1 = (ulive s T)(DEV_REQ_CACHE := insert req (ulive s T DEV_REQ_CACHE))"
    using uslab_cache_alloc_ok [OF K pool sizes] by blast
  have fr: "dv_devices s1 = dv_devices s" "dv_requests s1 = dv_requests s" "dv_conns s1 = dv_conns s" using a(3) by (auto simp: ualloc_frame_def)
  have "\<exists>s2. handle_request K perform msg s = (if cur = NULL then perform (cn_dev ?c) req s2 else Some s2)
      \<and> device_queue s2 (cn_dev ?c) cur (if cur = NULL then rs else rs @ [req])
      \<and> (\<exists>nx. dv_requests s2 req = \<lparr>rq_dev = cn_dev ?c, rq_op = (if msg ! 0 = MSG_DEVICE_READ then READ else WRITE),
            rq_port = ucast (msg ! 4), rq_data = cn_data ?c, rq_size = msg ! 2, rq_p = msg ! 3, rq_next = nx\<rparr>)" if req: "req \<noteq> NULL"
  proof -
    let ?f = "\<lambda>r. r\<lparr>rq_dev := cn_dev ?c, rq_op := (if msg ! 0 = MSG_DEVICE_READ then READ else WRITE), rq_port := ucast (msg ! 4),
      rq_data := cn_data ?c, rq_size := msg ! 2, rq_p := msg ! 3\<rparr>"
    let ?s = "set_request req ?f s1"
    have new: "req \<notin> set rs" using a(4) req live by auto
    have "linked (\<lambda>x. rq_next (dv_requests ?s x)) p rs = linked (\<lambda>x. rq_next (dv_requests s x)) p rs" for p
      using new by (intro linked_cong) (auto simp: set_request_def fr)
    then have q1: "device_queue ?s (cn_dev ?c) cur rs" using q by (simp add: device_queue_def set_request_def fr)
    have cur: "dv_request (dv_devices ?s (cn_dev ?c)) = cur" using q1 by (simp add: device_queue_def)
    have run: "handle_request K perform msg s = (if cur = NULL then perform (cn_dev ?c) req ?s else Some (queue_request (cn_dev ?c) req ?s))"
      using a(1) req cur unfolding handle_request_def by (simp add: Let_def fr set_request_def)
    have "r\<lparr>rq_dev := a, rq_op := b, rq_port := c, rq_data := d, rq_size := e, rq_p := f\<rparr>
      = \<lparr>rq_dev = a, rq_op = b, rq_port = c, rq_data = d, rq_size = e, rq_p = f, rq_next = rq_next r\<rparr>" for r a b c d e f
      by (cases r) simp
    then have new_req: "dv_requests ?s req = \<lparr>rq_dev = cn_dev ?c, rq_op = (if msg ! 0 = MSG_DEVICE_READ then READ else WRITE),
        rq_port = ucast (msg ! 4), rq_data = cn_data ?c, rq_size = msg ! 2, rq_p = msg ! 3, rq_next = rq_next (dv_requests s req)\<rparr>"
      by (simp add: set_request_def fr)
    show ?thesis
    proof (cases "cur = NULL")
      case True
      have "\<exists>nx. dv_requests ?s req = \<lparr>rq_dev = cn_dev ?c, rq_op = (if msg ! 0 = MSG_DEVICE_READ then READ else WRITE),
        rq_port = ucast (msg ! 4), rq_data = cn_data ?c, rq_size = msg ! 2, rq_p = msg ! 3, rq_next = nx\<rparr>" using new_req by blast
      then show ?thesis using run q1 True by (intro exI [of _ ?s]) simp
    next
      case False
      then show ?thesis using run queue_request_ok(1,3) [OF q1 req new] new_req
        by (intro exI [of _ "queue_request (cn_dev ?c) req ?s"]) simp
    qed
  qed
  then show ?thesis using a by (intro exI [of _ req] exI [of _ s1] exI [of _ T1]) (auto split: if_splits)
qed

section \<open>An example\<close>

text \<open>A server with one page, whose only object is a request; another one waits for the device 16, none for 17.\<close>

definition sample_server :: "sample_world devserver_state" where
  "sample_server = \<lparr>world = (1, []), umem = (\<lambda>_. 0), stack = (\<lambda>_. 0), port_log = [], port_device = (\<lambda>_ _. 0),
     uslabs = (\<lambda>_. \<lparr>us_next = NULL, us_cache = DEV_REQ_CACHE, us_base = 0x1000, us_free_list = NULL, us_free_count = 0\<rparr>), ubufs = (\<lambda>_. NULL),
     ucaches = (\<lambda>_. \<lparr>uc_slab_size = 0, uc_obj_size = 0, uc_per_slab = 0, uc_full = NULL, uc_partial = NULL\<rparr>)
       (DEV_REQ_CACHE := \<lparr>uc_slab_size = 0x1000, uc_obj_size = 4056, uc_per_slab = 1, uc_full = 0x1fd8, uc_partial = NULL\<rparr>),
     ubuckets = (\<lambda>_ _. NULL), uhnext = (\<lambda>_. NULL),
     dv_devices = (\<lambda>d. \<lparr>dv_id = 0, dv_request = 0x1000, dv_queue_head = (if d = 16 then 0x5000 else NULL),
       dv_queue_tail = (if d = 16 then 0x5000 else NULL), dv_ops = NULL, dv_data = NULL\<rparr>),
     dv_requests = (\<lambda>_. \<lparr>rq_dev = 16, rq_op = WRITE, rq_port = 3, rq_data = 0x9000, rq_size = 2, rq_p = 77, rq_next = NULL\<rparr>),
     dv_conns = (\<lambda>_. \<lparr>cn_shmem = 0, cn_size = 0x1000, cn_data = 0x9000, cn_dev = 17\<rparr>), s_local_port = 5, s_devman_port = 1, s_next_id = 1,
     s_dev_table = \<lparr>ht_table = NULL, ht_size = 0, ht_items = 0, ht_hash = (\<lambda>_. 0), ht_compare = (=)\<rparr>\<rparr>"

abbreviation (input) sample_slabs :: slab_pages where "sample_slabs \<equiv> [0x1000 \<mapsto> (DEV_REQ_CACHE, [])]"

lemma sample_server_pool: "upool sample_granted sample_server sample_slabs" "usizes (ucaches sample_server DEV_REQ_CACHE)"
  "ulive sample_server sample_slabs DEV_REQ_CACHE = {0x1000}"
proof -
  have pages: "partial_pages sample_slabs DEV_REQ_CACHE = {}" "full_pages sample_slabs DEV_REQ_CACHE = {0x1000}"
    by (auto simp: partial_pages_def full_pages_def split: if_splits)
  show sz: "usizes (ucaches sample_server DEV_REQ_CACHE)" by (simp add: sample_server_def usizes_def)
  have lists: "ulists_ok sample_server sample_slabs DEV_REQ_CACHE" unfolding ulists_ok_def pages
    by (intro exI [of _ "[]"] exI [of _ "[0x1000]"]) (simp add: sample_server_def slab_pos_def)
  have only: "d = DEV_REQ_CACHE" if "usizes (ucaches sample_server d)" for d
    using that by (simp add: sample_server_def usizes_def split: if_splits)
  have page: "upage_ok sample_server 0x1000 DEV_REQ_CACHE []"
    by (simp add: upage_ok_def sample_server_def page_aligned_def)
  have "of_nat (0 + 1) * PAGE_SIZE \<in> sample_granted (1, [])" unfolding sample_granted_def by (rule imageI) simp
  then have dom: "dom sample_slabs \<subseteq> sample_granted (world sample_server)" by (simp add: sample_server_def)
  show "upool sample_granted sample_server sample_slabs" unfolding upool_def
  proof (intro conjI allI impI)
    show "dom sample_slabs \<subseteq> sample_granted (world sample_server)" by (rule dom)
    fix b c fs assume "sample_slabs b = Some (c, fs)"
    then have "b = 0x1000" "c = DEV_REQ_CACHE" "fs = []" by (simp_all split: if_splits)
    then show "usizes (ucaches sample_server c)" "upage_ok sample_server b c fs" using sz page by simp_all
  next
    fix c assume "usizes (ucaches sample_server c)"
    then show "ulists_ok sample_server sample_slabs c" using only lists by blast
  qed
  show "ulive sample_server sample_slabs DEV_REQ_CACHE = {0x1000}"
    by (auto simp: ulive_def sample_server_def uobjs_def uobj_def lessThan_Suc split: if_splits)
qed

lemma sample_server_queue: "device_queue sample_server 16 0x1000 [0x5000]"
  by (simp add: device_queue_def sample_server_def)

definition sample_perform :: "('w, 'a) driver_op" where
  "sample_perform d r s = Some s"

lemma request_finished_witness:
  "\<exists>s1 T1. device_request_finished sample_kernel sample_perform 0x1000 2 sample_server = sample_perform 16 0x5000 s1
    \<and> device_queue s1 16 0x1000 [] \<and> dv_requests s1 = dv_requests sample_server
    \<and> upool sample_granted s1 T1
    \<and> ulive s1 T1 = (ulive sample_server sample_slabs)(DEV_REQ_CACHE := ulive sample_server sample_slabs DEV_REQ_CACHE - {0x1000})
    \<and> send_all sample_kernel [3] ([reply_kind WRITE, 2, 77] @ drop 3 (fst (new_message sample_server)))
        (umem sample_server, world sample_server) = Some (umem s1, world s1)"
proof -
  have r: "rq_dev (dv_requests sample_server 0x1000) = 16" "rq_port (dv_requests sample_server 0x1000) = 3"
    "rq_op (dv_requests sample_server 0x1000) = WRITE" "rq_p (dv_requests sample_server 0x1000) = 77" "(scast (2 :: u32) :: u64) = 2"
    by (simp_all add: sample_server_def)
  have cur: "0x1000 \<in> ulive sample_server sample_slabs DEV_REQ_CACHE" by (simp add: sample_server_pool)
  show ?thesis
    using request_finished [OF sample_kernel_ok sample_server_pool(1) cur, of "[0x5000]" sample_perform 2] sample_server_queue
    unfolding r by simp
qed

lemma request_arrives_witness:
  "\<exists>req s1 T1. slab_cache_alloc sample_kernel DEV_REQ_CACHE sample_server = Some (req, s1) \<and> upool sample_granted s1 T1 \<and>
    (req \<noteq> NULL \<longrightarrow> req \<notin> ulive sample_server sample_slabs DEV_REQ_CACHE \<and>
      (\<exists>s2. handle_request sample_kernel sample_perform [1006, 9, 2, 78, 4, 0] sample_server = Some s2 \<and> device_queue s2 17 0x1000 [req]
        \<and> (\<exists>nx. dv_requests s2 req = \<lparr>rq_dev = 17, rq_op = WRITE, rq_port = 4, rq_data = 0x9000, rq_size = 2, rq_p = 78, rq_next = nx\<rparr>)))"
proof -
  have c: "dv_conns sample_server c = \<lparr>cn_shmem = 0, cn_size = 0x1000, cn_data = 0x9000, cn_dev = 17\<rparr>" for c by (simp add: sample_server_def)
  have q: "device_queue sample_server (cn_dev (dv_conns sample_server ([1006, 9, 2, 78, 4, 0] ! 1))) 0x1000 []"
    by (simp add: device_queue_def sample_server_def)
  show ?thesis using request_arrives [OF sample_kernel_ok(2) sample_server_pool(1,2) q, of sample_perform] by (simp add: c)
qed

end
