(* ===== verification/Ps2.thy ===== *)
theory Ps2
  imports DevServer
begin

text \<open>
  The keyboard driver (\<^verbatim>\<open>drivers/input/ps2\<close>): the bytes of the controller are collected in a buffer of 1024 bytes
  and handed to the requests that read the device.  A byte that does not fit the buffer has no result, nor has
  an interrupt when the device could not be announced.
\<close>

record 'w ps2_state = "'w devserver_state" +
  s_is_open :: u32
  s_buffer :: "nat \<Rightarrow> u8"
  s_avail_cnt :: u64
  s_ps2_dev :: ptr

abbreviation (input) PS2_IRQ :: u32 where "PS2_IRQ \<equiv> 1"
abbreviation (input) PS2_BUF_SIZE :: nat where "PS2_BUF_SIZE \<equiv> 1024"
abbreviation (input) PS2_OPS :: ptr where "PS2_OPS \<equiv> 21"

definition ps2_open :: "'w kernel \<Rightarrow> ptr \<Rightarrow> ('w, 'a) ps2_state_scheme \<Rightarrow> (u32 \<times> ('w, 'a) ps2_state_scheme) option" where
  "ps2_open K dev s =
     (if s_is_open s \<noteq> 0 then Some (-1, s)
      else do {
        (r, s) \<leftarrow> irq_register K PS2_IRQ (libdevman_server_get_port s) s;
        if r \<noteq> 0 then Some (-1, s) else Some (0, s\<lparr>s_is_open := 1\<rparr>)
      })"

text \<open>Copying from the buffer, and one request: the second copy is within the memory of the request.\<close>

fun copy_in :: "nat \<Rightarrow> ptr \<Rightarrow> (nat \<Rightarrow> u8) \<Rightarrow> memory \<Rightarrow> memory" where
  "copy_in 0 d f m = m"
| "copy_in (Suc n) d f m = copy_in n (d + 1) (\<lambda>i. f (Suc i)) (m(d := f 0))"

definition do_read_request ::
  "'w kernel \<Rightarrow> (ptr \<Rightarrow> ptr \<Rightarrow> ('w, 'a) ps2_state_scheme \<Rightarrow> ('w, 'a) ps2_state_scheme option) \<Rightarrow> ptr
     \<Rightarrow> ('w, 'a) ps2_state_scheme \<Rightarrow> ('w, 'a) ps2_state_scheme option" where
  "do_read_request K perform req s =
     (let r = dv_requests s req;
          n = (if rq_size r < s_avail_cnt s then rq_size r else s_avail_cnt s);
          s = s\<lparr>umem := copy_in (unat n) (rq_data r) (s_buffer s) (umem s)\<rparr>;
          s = s\<lparr>umem := memmove (rq_data r) (rq_data r + n) (s_avail_cnt s - n) (umem s)\<rparr>;
          s = s\<lparr>s_avail_cnt := s_avail_cnt s - n\<rparr>
      in device_request_finished K perform req (ucast n) s)"

definition ps2_read ::
  "'w kernel \<Rightarrow> (ptr \<Rightarrow> ptr \<Rightarrow> ('w, 'a) ps2_state_scheme \<Rightarrow> ('w, 'a) ps2_state_scheme option) \<Rightarrow> ptr \<Rightarrow> ptr
     \<Rightarrow> ('w, 'a) ps2_state_scheme \<Rightarrow> ('w, 'a) ps2_state_scheme option" where
  "ps2_read K perform dev req s = (if s_avail_cnt s = 0 then Some s else do_read_request K perform req s)"

lemma do_read_request_mono [partial_function_mono]:
  assumes "\<And>d r s. mono_option (\<lambda>f. perform f d r s)"
  shows "mono_option (\<lambda>f. do_read_request K (perform f) req s)"
  unfolding do_read_request_def Let_def by (intro partial_function_mono assms)

lemma ps2_read_mono [partial_function_mono]:
  assumes "\<And>d r s. mono_option (\<lambda>f. perform f d r s)"
  shows "mono_option (\<lambda>f. ps2_read K (perform f) d req s)"
  unfolding ps2_read_def by (intro partial_function_mono assms if_mono option.const_mono)

text \<open>The operations \<^verbatim>\<open>s_ps2_ops\<close> of the driver, in the library's \<^verbatim>\<open>perform_request\<close>.\<close>

partial_function (option) ps2_perform :: "'w kernel \<Rightarrow> ptr \<Rightarrow> ptr \<Rightarrow> ('w, 'a) ps2_state_scheme \<Rightarrow> ('w, 'a) ps2_state_scheme option" where
  "ps2_perform K d req s = perform_request (Some (ps2_read K (ps2_perform K))) None d req s"

definition ps2_handler :: "'w kernel \<Rightarrow> u64 list \<Rightarrow> ('w, 'a) ps2_state_scheme \<Rightarrow> ('w, 'a) ps2_state_scheme option" where
  "ps2_handler K msg s =
     (if msg ! 0 = 1 then
        if unat (s_avail_cnt s) \<ge> PS2_BUF_SIZE then None
        else do {
          let s = s\<lparr>s_buffer := (s_buffer s)(unat (s_avail_cnt s) := inb 0x60 s), s_avail_cnt := s_avail_cnt s + 1\<rparr>;
          s \<leftarrow> (if s_ps2_dev s = NULL then None
               else if dv_request (dv_devices s (s_ps2_dev s)) \<noteq> NULL
               then do_read_request K (ps2_perform K) (dv_request (dv_devices s (s_ps2_dev s))) s
               else Some s);
          map_option snd (irq_finished K (ucast (msg ! 1)) s)
        }
      else Some s)"

definition ps2_main :: "'w kernel \<Rightarrow> ('w, 'a) ps2_state_scheme \<Rightarrow> (int \<times> ('w, 'a) ps2_state_scheme) option" where
  "ps2_main K s = do {
     (_, s) \<leftarrow> libdevman_server_init K s;
     (_, dev, s) \<leftarrow> device_announce K (type_code INPUT) PS2_OPS NULL s;
     let s = (case dev of Some d \<Rightarrow> s\<lparr>s_ps2_dev := d\<rparr> | None \<Rightarrow> s);
     (_, s) \<leftarrow> libdevman_server_run K (Some (ps2_open K)) (ps2_perform K) (Some (ps2_handler K)) s;
     Some (0, s)
   }"

end
