(* ===== verification/ScreenDriver.thy ===== *)
theory ScreenDriver
  imports DevServer Console
begin

text \<open>
  The driver of the text screen (\<^verbatim>\<open>drivers/video/screen\<close>): it maps the screen's memory into its own and writes the
  bytes of a request like a console.  It is shown to do what the console of the kernel does.
\<close>

section \<open>Data and operations\<close>

record 'w screen_state = "'w devserver_state" +
  s_base :: ptr
  scr_x :: u32
  scr_y :: u32

abbreviation (input) WIDTH :: u32 where "WIDTH \<equiv> 80"
abbreviation (input) HEIGHT :: u32 where "HEIGHT \<equiv> 25"
abbreviation (input) SCREEN_OPS :: ptr where "SCREEN_OPS \<equiv> 22"

definition screen_init :: "'w kernel \<Rightarrow> ('w, 'a) screen_state_scheme \<Rightarrow> (int \<times> ('w, 'a) screen_state_scheme) option" where
  "screen_init K s = do {
     (p, s) \<leftarrow> mm_map K 0xb8000 PAGE_SIZE s;
     let s = s\<lparr>s_base := p\<rparr>;
     Some (if s_base s = NULL then -1 else 0, s)
   }"

definition driver_update_cursor :: "('w, 'a) screen_state_scheme \<Rightarrow> ('w, 'a) screen_state_scheme" where
  "driver_update_cursor s =
     (let tmp = scr_y s * 80 + scr_x s;
          s = Userland.outb 14 0x3d4 s;
          s = Userland.outb (ucast (drop_bit 8 tmp)) 0x3d5 s;
          s = Userland.outb 15 0x3d4 s
      in Userland.outb (ucast tmp) 0x3d5 s)"

text \<open>The loop of \<^verbatim>\<open>clear\<close>: spaces, each with an attribute byte.\<close>

fun clear_up :: "nat \<Rightarrow> ptr \<Rightarrow> memory \<Rightarrow> memory" where
  "clear_up 0 p m = m"
| "clear_up (Suc n) p m = clear_up n (p + 2) (m(p := 0x20, p + 1 := 7))"

definition clear :: "u32 \<Rightarrow> u32 \<Rightarrow> ('w, 'a) screen_state_scheme \<Rightarrow> ('w, 'a) screen_state_scheme" where
  "clear offset count s = s\<lparr>umem := clear_up (unat count) (s_base s + ucast (offset * 2)) (umem s)\<rparr>"

definition driver_scroll_up :: "('w, 'a) screen_state_scheme \<Rightarrow> ('w, 'a) screen_state_scheme" where
  "driver_scroll_up s =
     (let s = s\<lparr>umem := Userland.memmove (s_base s) (s_base s + ucast (WIDTH * 2)) (ucast (WIDTH * (HEIGHT - 1) * 2)) (umem s)\<rparr>;
          s = clear (WIDTH * (HEIGHT - 1)) WIDTH s
      in s\<lparr>scr_y := scr_y s - 1\<rparr>)"

definition screen_clear :: "('w, 'a) screen_state_scheme \<Rightarrow> ('w, 'a) screen_state_scheme" where
  "screen_clear s = driver_update_cursor ((clear 0 (WIDTH * HEIGHT) s)\<lparr>scr_x := 0, scr_y := 0\<rparr>)"

definition screen_putc :: "u8 \<Rightarrow> ('w, 'a) screen_state_scheme \<Rightarrow> ('w, 'a) screen_state_scheme" where
  "screen_putc c s =
     (let s = (if c = 13 then s\<lparr>scr_x := 0\<rparr>
               else if c = 10 then s\<lparr>scr_x := 0, scr_y := scr_y s + 1\<rparr>
               else s\<lparr>umem := (umem s)(s_base s + ucast ((scr_y s * WIDTH + scr_x s) * 2) := c), scr_x := scr_x s + 1\<rparr>);
          s = (if scr_x s = WIDTH then s\<lparr>scr_x := 0, scr_y := scr_y s + 1\<rparr> else s);
          s = (if scr_y s = HEIGHT then driver_scroll_up s else s)
      in driver_update_cursor s)"

text \<open>The loop of \<^verbatim>\<open>screen_write\<close>: each byte is read when its turn comes.\<close>

fun putc_loop :: "nat \<Rightarrow> ptr \<Rightarrow> ('w, 'a) screen_state_scheme \<Rightarrow> ('w, 'a) screen_state_scheme" where
  "putc_loop 0 p s = s"
| "putc_loop (Suc n) p s = putc_loop n (p + 1) (screen_putc (umem s p) s)"

definition screen_write ::
  "'w kernel \<Rightarrow> (ptr \<Rightarrow> ptr \<Rightarrow> ('w, 'a) screen_state_scheme \<Rightarrow> ('w, 'a) screen_state_scheme option) \<Rightarrow> ptr \<Rightarrow> ptr
     \<Rightarrow> ('w, 'a) screen_state_scheme \<Rightarrow> ('w, 'a) screen_state_scheme option" where
  "screen_write K perform dev req s =
     (let s = putc_loop (unat (rq_size (dv_requests s req))) (rq_data (dv_requests s req)) s
      in device_request_finished K perform req (ucast (rq_size (dv_requests s req))) s)"

lemma screen_write_mono [partial_function_mono]:
  assumes "\<And>d r s. mono_option (\<lambda>f. perform f d r s)"
  shows "mono_option (\<lambda>f. screen_write K (perform f) d req s)"
  unfolding screen_write_def Let_def by (intro partial_function_mono assms)

text \<open>The operations \<^verbatim>\<open>s_ops\<close> of the driver, in the library's \<^verbatim>\<open>perform_request\<close>.\<close>

partial_function (option) screen_perform :: "'w kernel \<Rightarrow> ptr \<Rightarrow> ptr \<Rightarrow> ('w, 'a) screen_state_scheme \<Rightarrow> ('w, 'a) screen_state_scheme option" where
  "screen_perform K d req s = perform_request None (Some (screen_write K (screen_perform K))) d req s"

definition screen_main :: "'w kernel \<Rightarrow> ('w, 'a) screen_state_scheme \<Rightarrow> (int \<times> ('w, 'a) screen_state_scheme) option" where
  "screen_main K s = do {
     (r, s) \<leftarrow> screen_init K s;
     if r \<noteq> 0 then Some (-1, s)
     else do {
       let s = screen_clear s;
       (_, s) \<leftarrow> libdevman_server_init K s;
       (_, _, s) \<leftarrow> device_announce K (type_code SCREEN) SCREEN_OPS NULL s;
       (_, s) \<leftarrow> libdevman_server_run K None (screen_perform K) None s;
       Some (0, s)
     }
   }"

section \<open>The driver and the console of the kernel\<close>

definition same_screen :: "('w, 'a) screen_state_scheme \<Rightarrow> 'b console_state_scheme \<Rightarrow> bool" where
  "same_screen u k \<longleftrightarrow> s_base u = s_addr k \<and> scr_x u = s_x k \<and> scr_y u = s_y k \<and> umem u = mem k"

lemma memmove_user: "Userland.memmove = CString.memmove"
  by (intro ext) (simp add: Userland.memmove_def CString.memmove_def)

lemma clear_up_blank: "clear_up (2 * n) p m = setl_up n p 0x07200720 m"
proof (induction n arbitrary: p m)
  case (Suc n)
  have "2 * Suc n = Suc (Suc (2 * n))" by simp
  then show ?case using Suc.IH by (simp add: store_blank add.assoc fun_upd_def)
qed simp

lemma clear_simps [simp]:
  "umem (clear 1920 80 s) = memsetl (s_base s + 3840) 0x07200720 40 (umem s)"
  "umem (clear 0 2000 s) = memsetl (s_base s) 0x07200720 1000 (umem s)"
  "s_base (clear a n s) = s_base s" "scr_x (clear a n s) = scr_x s" "scr_y (clear a n s) = scr_y s" "port_log (clear a n s) = port_log s"
  using clear_up_blank [of 40] clear_up_blank [of 1000] by (simp_all add: clear_def memsetl_def)

lemma scroll_same: "same_screen u k \<Longrightarrow> same_screen (driver_scroll_up u) (scroll_up k)
  \<and> port_log (driver_scroll_up u) = port_log u \<and> io_out (scroll_up k) = io_out k"
  by (simp add: same_screen_def driver_scroll_up_def scroll_up_def memmove_user Let_def)

text \<open>The bytes written to the ports of the screen, by the driver and by the kernel.\<close>

definition same_ports :: "('w, 'a) screen_state_scheme \<Rightarrow> ('w, 'a) screen_state_scheme \<Rightarrow> 'b console_state_scheme \<Rightarrow> 'b console_state_scheme \<Rightarrow> bool" where
  "same_ports u u' k k' \<longleftrightarrow> (\<exists>l. port_log u' = port_log u @ l \<and> io_out k' = io_out k @ l)"

lemma cursor_same: "same_screen u k \<Longrightarrow> same_screen (driver_update_cursor u) (update_cursor k) \<and> same_ports u (driver_update_cursor u) k (update_cursor k)"
  by (simp add: same_screen_def same_ports_def driver_update_cursor_def update_cursor_def Userland.outb_def Pic.outb_def Let_def)

lemma putc_same:
  assumes "same_screen u k"
  shows "same_screen (screen_putc c u) (pc_screen_write c k) \<and> same_ports u (screen_putc c u) k (pc_screen_write c k)"
proof -
  define u1 where "u1 = (if c = 13 then u\<lparr>scr_x := 0\<rparr> else if c = 10 then u\<lparr>scr_x := 0, scr_y := scr_y u + 1\<rparr>
    else u\<lparr>umem := (umem u)(s_base u + ucast ((scr_y u * WIDTH + scr_x u) * 2) := c), scr_x := scr_x u + 1\<rparr>)"
  define u2 where "u2 = (if scr_x u1 = WIDTH then u1\<lparr>scr_x := 0, scr_y := scr_y u1 + 1\<rparr> else u1)"
  define u3 where "u3 = (if scr_y u2 = HEIGHT then driver_scroll_up u2 else u2)"
  define k2 where "k2 = screen_put c k"
  define k3 where "k3 = (if s_y k2 = 25 then scroll_up k2 else k2)"
  have 2: "same_screen u2 k2 \<and> port_log u2 = port_log u \<and> io_out k2 = io_out k"
    using assms by (simp add: u2_def u1_def k2_def screen_put_def same_screen_def Let_def)
  have 3: "same_screen u3 k3 \<and> port_log u3 = port_log u \<and> io_out k3 = io_out k"
    using 2 scroll_same [of u2 k2] by (auto simp: u3_def k3_def same_screen_def)
  have "screen_putc c u = driver_update_cursor u3" by (simp add: screen_putc_def u1_def u2_def u3_def Let_def)
  moreover have "pc_screen_write c k = update_cursor k3" by (simp add: pc_screen_write_put k2_def k3_def)
  ultimately show ?thesis using cursor_same [of u3 k3] 3 by (simp add: same_ports_def)
qed

lemma clear_same: "s_base u = s_addr k \<Longrightarrow> umem u = mem k \<Longrightarrow> same_screen (screen_clear u) (pc_screen_clear k)"
  by (simp add: screen_clear_def pc_screen_clear_def same_screen_def driver_update_cursor_def Userland.outb_def Let_def)

lemma putc_requests [simp]: "dv_requests (screen_putc c u) = dv_requests u"
  by (simp add: screen_putc_def driver_update_cursor_def driver_scroll_up_def clear_def Userland.outb_def Let_def)

lemma putc_loop_requests [simp]: "dv_requests (putc_loop n p u) = dv_requests u"
  by (induction n arbitrary: p u) simp_all

lemma putc_loop_same:
  assumes "same_screen u k" and "screen_ok k" and "\<forall>i < n. \<not> in_range (s_addr k) 4000 (p + of_nat i)"
  defines "txt \<equiv> map (\<lambda>i. umem u (p + of_nat i)) [0 ..< n]"
  shows "same_screen (putc_loop n p u) (screen_text txt k) \<and> same_ports u (putc_loop n p u) k (screen_text txt k)"
  using assms(1-3) unfolding txt_def
proof (induction n arbitrary: p u k)
  case 0
  then show ?case by (simp add: screen_text_def same_ports_def)
next
  case (Suc n)
  let ?u = "screen_putc (umem u p) u" and ?k = "pc_screen_write (umem u p) k"
  have one: "same_screen ?u ?k" "same_ports u ?u k ?k" using putc_same [OF Suc.prems(1)] by simp_all
  note k = pc_screen_write_ok [OF Suc.prems(2), where c = "umem u p"]
  have idx: "p + of_nat (Suc i) = p + 1 + of_nat i" for i by simp
  have out: "\<forall>i < n. \<not> in_range (s_addr k) 4000 (p + 1 + of_nat i)"
    using Suc.prems(3) idx by (metis Suc_less_eq)
  then have kept: "umem ?u (p + 1 + of_nat i) = umem u (p + 1 + of_nat i)" if "i < n" for i
    using that k(4) one(1) Suc.prems(1) by (simp add: same_screen_def)
  have bytes: "map (\<lambda>i. umem u (p + of_nat i)) [0 ..< Suc n] = umem u p # map (\<lambda>i. umem ?u (p + 1 + of_nat i)) [0 ..< n]"
    unfolding map_upt_Suc idx using kept by simp
  have "same_screen (putc_loop n (p + 1) ?u) (screen_text (map (\<lambda>i. umem ?u (p + 1 + of_nat i)) [0 ..< n]) ?k)
    \<and> same_ports ?u (putc_loop n (p + 1) ?u) ?k (screen_text (map (\<lambda>i. umem ?u (p + 1 + of_nat i)) [0 ..< n]) ?k)"
    using Suc.IH [OF one(1) k(1)] out k(2) by simp
  then show ?case using one(2) unfolding bytes by (auto simp: screen_text_def same_ports_def)
qed

text \<open>
  C39: the driver of the screen does what the console of the kernel does.  If both are at the same place of the
  same screen, then performing a write request, whose data is not in the memory of the screen, leaves the screen,
  the cursor and the ports of the screen as if the kernel had written the bytes of the request, and finishes the
  request with its size as the result.
\<close>

theorem driver_writes_like_console:
  fixes u :: "('w, 'a) screen_state_scheme" and k :: "'b console_state_scheme"
  assumes "same_screen u k" and "screen_ok k" and "\<forall>i < unat (rq_size (dv_requests u req)). \<not> in_range (s_addr k) 4000 (rq_data (dv_requests u req) + of_nat i)"
  shows "\<exists>u' k'. screen_write K perform dev req u = device_request_finished K perform req (ucast (rq_size (dv_requests u req))) u'
    \<and> k' = screen_text (map (\<lambda>i. umem u (rq_data (dv_requests u req) + of_nat i)) [0 ..< unat (rq_size (dv_requests u req))]) k
    \<and> same_screen u' k' \<and> same_ports u u' k k' \<and> dv_requests u' = dv_requests u"
proof -
  let ?u = "putc_loop (unat (rq_size (dv_requests u req))) (rq_data (dv_requests u req)) u"
  have "screen_write K perform dev req u = device_request_finished K perform req (ucast (rq_size (dv_requests u req))) ?u"
    by (simp add: screen_write_def Let_def)
  then show ?thesis using putc_loop_same [OF assms] by (intro exI conjI) (assumption | rule refl | simp)+
qed

text \<open>"ok" at the end of the last line.\<close>

definition sample_screen :: "sample_world screen_state" where
  "sample_screen = \<lparr>world = (1, []), umem = mem sample_console, stack = (\<lambda>_. 0), port_log = [], port_device = (\<lambda>_ _. 0),
     uslabs = (\<lambda>_. \<lparr>us_next = NULL, us_cache = NULL, us_base = NULL, us_free_list = NULL, us_free_count = 0\<rparr>), ubufs = (\<lambda>_. NULL),
     ucaches = (\<lambda>_. \<lparr>uc_slab_size = 0, uc_obj_size = 0, uc_per_slab = 0, uc_full = NULL, uc_partial = NULL\<rparr>),
     ubuckets = (\<lambda>_ _. NULL), uhnext = (\<lambda>_. NULL),
     dv_devices = (\<lambda>_. \<lparr>dv_id = 0, dv_request = 8, dv_queue_head = NULL, dv_queue_tail = NULL, dv_ops = SCREEN_OPS, dv_data = NULL\<rparr>),
     dv_requests = (\<lambda>_. \<lparr>rq_dev = 16, rq_op = WRITE, rq_port = 3, rq_data = 0x1000, rq_size = 2, rq_p = 0, rq_next = NULL\<rparr>),
     dv_conns = (\<lambda>_. \<lparr>cn_shmem = 0, cn_size = 0x1000, cn_data = 0x1000, cn_dev = 16\<rparr>), s_local_port = 5, s_devman_port = 1, s_next_id = 1,
     s_dev_table = \<lparr>ht_table = NULL, ht_size = 0, ht_items = 0, ht_hash = (\<lambda>_. 0), ht_compare = (=)\<rparr>,
     s_base = PHYS_MAP_BASE + 0xb8000, scr_x = 78, scr_y = 24\<rparr>"

lemma driver_writes_like_console_witness:
  "\<exists>u' k'. screen_write sample_kernel sample_perform 16 8 sample_screen = device_request_finished sample_kernel sample_perform 8 2 u'
    \<and> k' = screen_text [umem sample_screen 0x1000, umem sample_screen 0x1001] sample_console
    \<and> same_screen u' k' \<and> same_ports sample_screen u' sample_console k' \<and> dv_requests u' = dv_requests sample_screen"
proof -
  have k: "s_x sample_console = 78" "s_y sample_console = 24" "s_addr sample_console = PHYS_MAP_BASE + 0xb8000"
    by (simp_all add: shmem_state.defs shmem_defs)
  have u: "rq_size (dv_requests sample_screen 8) = 2" "rq_data (dv_requests sample_screen 8) = 0x1000" by (simp_all add: sample_screen_def)
  have same: "same_screen sample_screen sample_console" by (simp only: same_screen_def k) (simp add: sample_screen_def)
  have ok: "screen_ok sample_console" by (simp only: screen_ok_def k) simp
  have out: "\<forall>i < unat (2 :: u64). \<not> in_range (s_addr sample_console) 4000 (0x1000 + of_nat i)"
  proof -
    have "unat (2 :: u64) = 2" by simp
    then show ?thesis by (simp only: k) (auto simp: in_range_def less_2_cases_iff)
  qed
  have bytes: "map (\<lambda>i. umem sample_screen (0x1000 + of_nat i)) [0 ..< unat (2 :: u64)] = [umem sample_screen 0x1000, umem sample_screen 0x1001]"
    by (simp add: upt_rec)
  have two: "ucast (2 :: u64) = (2 :: u32)" by simp
  show ?thesis using driver_writes_like_console [OF same ok, of 8] out unfolding u bytes two by blast
qed

end
