(* ===== verification/DevClient.thy ===== *)
theory DevClient
  imports DevServer
begin

text \<open>
  The library of the clients of devices (\<^verbatim>\<open>lib/devman/src/client\<close>): finding and opening a device, reading and
  writing it through shared memory, and requests whose replies arrive later, as messages of the program's main
  loop.  Connections and requests are named by their addresses; a callback is a code address, and what it does
  is an argument.
\<close>

section \<open>Data\<close>

record device_info =
  di_port :: u32
  di_id :: u32

record client_conn =
  cc_port :: u32
  cc_reply :: u32
  cc_shmem :: u32
  cc_data :: ptr
  cc_size :: u64
  cc_conn_id :: u64
  cc_request :: ptr
  cc_queue_head :: ptr
  cc_queue_tail :: ptr

record conn_request =
  cr_op :: device_operation
  cr_data :: ptr
  cr_size :: u64
  cr_cb :: ptr
  cr_p :: ptr
  cr_next :: ptr

text \<open>The library has a variable for the port of the device manager of its own.\<close>

record 'w client_state = "'w devserver_state" +
  cl_conns :: "ptr \<Rightarrow> client_conn"
  cl_requests :: "ptr \<Rightarrow> conn_request"
  cl_devman_port :: u32
  s_async_port :: u32

abbreviation (input) CONN_REQ_CACHE :: ptr where "CONN_REQ_CACHE \<equiv> 31"

definition set_client_conn :: "ptr \<Rightarrow> (client_conn \<Rightarrow> client_conn) \<Rightarrow> ('w, 'a) client_state_scheme \<Rightarrow> ('w, 'a) client_state_scheme" where
  "set_client_conn c f s = s\<lparr>cl_conns := (cl_conns s)(c := f (cl_conns s c))\<rparr>"

definition set_conn_request :: "ptr \<Rightarrow> (conn_request \<Rightarrow> conn_request) \<Rightarrow> ('w, 'a) client_state_scheme \<Rightarrow> ('w, 'a) client_state_scheme" where
  "set_conn_request r f s = s\<lparr>cl_requests := (cl_requests s)(r := f (cl_requests s r))\<rparr>"

section \<open>Finding and opening a device\<close>

text \<open>The result, and what was written to the caller's \<^verbatim>\<open>info\<close>.\<close>

definition device_lookup ::
  "'w kernel \<Rightarrow> u64 \<Rightarrow> u32 \<Rightarrow> device_info \<Rightarrow> ('w, 'a) client_state_scheme \<Rightarrow> (int \<times> device_info \<times> ('w, 'a) client_state_scheme) option" where
  "device_lookup K type wait info s = do {
     let (req, s) = new_message s;
     let (rep, s) = new_message s;
     (p, s) \<leftarrow> ipc_port_create K s;
     if sint p < 0 then Some (-1, info, s)
     else do {
       let req = req[0 := MSG_DEVICE_LOOKUP, 1 := type, 2 := scast wait, 3 := scast p];
       (r, s) \<leftarrow> ipc_port_send K (cl_devman_port s) req s;
       if r \<noteq> 0 then do {
         s \<leftarrow> ipc_port_delete K p s;
         Some (-1, info, s)
       }
       else do {
         (r, rep, s) \<leftarrow> ipc_port_receive K p rep s;
         s \<leftarrow> ipc_port_delete K p s;
         if r \<noteq> 0 then Some (-1, info, s)
         else if rep ! 0 \<noteq> 0 then Some (-1, info, s)
         else Some (0, \<lparr>di_port = ucast (rep ! 1), di_id = ucast (rep ! 2)\<rparr>, s)
       }
     }
   }"

definition device_open :: "'w kernel \<Rightarrow> ptr \<Rightarrow> device_info \<Rightarrow> ('w, 'a) client_state_scheme \<Rightarrow> (int \<times> ('w, 'a) client_state_scheme) option" where
  "device_open K dev info s = do {
     let s = set_client_conn dev (\<lambda>d. d\<lparr>cc_port := di_port info, cc_size := PAGE_SIZE, cc_request := NULL, cc_queue_head := NULL, cc_queue_tail := NULL\<rparr>) s;
     (p, s) \<leftarrow> ipc_port_create K s;
     let s = set_client_conn dev (\<lambda>d. d\<lparr>cc_reply := p\<rparr>) s;
     let err2 = (\<lambda>s. map_option (\<lambda>s. (-1, s)) (ipc_port_delete K (cc_reply (cl_conns s dev)) s));
     if sint p < 0 then Some (-1, s)
     else do {
       (m, base, s) \<leftarrow> ipc_shmem_create K (cc_size (cl_conns s dev)) (cc_data (cl_conns s dev)) s;
       let s = set_client_conn dev (\<lambda>d. d\<lparr>cc_shmem := m, cc_data := base\<rparr>) s;
       if sint m < 0 then err2 s
       else do {
         let (msg, s) = new_message s;
         let msg = msg[0 := MSG_DEVICE_OPEN, 1 := scast (di_id info), 2 := scast m, 3 := scast p];
         let (rep, s) = new_message s;
         (r, s) \<leftarrow> ipc_port_send K (di_port info) msg s;
         if r \<noteq> 0 then err2 s
         else do {
           (r, rep, s) \<leftarrow> ipc_port_receive K (cc_reply (cl_conns s dev)) rep s;
           if r \<noteq> 0 \<or> rep ! 0 \<noteq> 0 then err2 s
           else Some (0, set_client_conn dev (\<lambda>d. d\<lparr>cc_conn_id := rep ! 1\<rparr>) s)
         }
       }
     }
   }"

section \<open>Reading and writing\<close>

text \<open>One request and its reply: whether both worked.\<close>

definition transfer :: "'w kernel \<Rightarrow> u64 \<Rightarrow> ptr \<Rightarrow> u64 \<Rightarrow> ('w, 'a) client_state_scheme \<Rightarrow> (bool \<times> ('w, 'a) client_state_scheme) option" where
  "transfer K kind dev n s = do {
     let (msg, s) = new_message s;
     let msg = msg[0 := kind, 1 := cc_conn_id (cl_conns s dev), 2 := n, 4 := scast (cc_reply (cl_conns s dev))];
     let (rep, s) = new_message s;
     (r, s) \<leftarrow> ipc_port_send K (cc_port (cl_conns s dev)) msg s;
     if r \<noteq> 0 then Some (False, s)
     else do {
       (r, rep, s) \<leftarrow> ipc_port_receive K (cc_reply (cl_conns s dev)) rep s;
       Some (r = 0, s)
     }
   }"

partial_function (option) device_read :: "'w kernel \<Rightarrow> ptr \<Rightarrow> ptr \<Rightarrow> u64 \<Rightarrow> ('w, 'a) client_state_scheme \<Rightarrow> (int \<times> ('w, 'a) client_state_scheme) option" where
  "device_read K dev p sz s =
     (if sz = 0 then Some (0, s)
      else do {
        let n = (if sz < cc_size (cl_conns s dev) then sz else cc_size (cl_conns s dev));
        (ok, s) \<leftarrow> transfer K MSG_DEVICE_READ dev n s;
        if \<not> ok then Some (-1, s)
        else do {
          let s = s\<lparr>umem := memcpy p (cc_data (cl_conns s dev)) n (umem s)\<rparr>;
          device_read K dev (p + n) (sz - n) s
        }
      })"

partial_function (option) device_write :: "'w kernel \<Rightarrow> ptr \<Rightarrow> ptr \<Rightarrow> u64 \<Rightarrow> ('w, 'a) client_state_scheme \<Rightarrow> (int \<times> ('w, 'a) client_state_scheme) option" where
  "device_write K dev p sz s =
     (if sz = 0 then Some (0, s)
      else do {
        let n = (if sz < cc_size (cl_conns s dev) then sz else cc_size (cl_conns s dev));
        let s = s\<lparr>umem := memcpy (cc_data (cl_conns s dev)) p n (umem s)\<rparr>;
        (ok, s) \<leftarrow> transfer K MSG_DEVICE_WRITE dev n s;
        if \<not> ok then Some (-1, s) else device_write K dev (p + n) (sz - n) s
      })"

definition libdevman_client_init :: "'w kernel \<Rightarrow> ('w, 'a) client_state_scheme \<Rightarrow> (int \<times> ('w, 'a) client_state_scheme) option" where
  "libdevman_client_init K s = do {
     (p, s) \<leftarrow> ipc_server_lookup K (chars ''devman'') 1 s;
     Some (0, s\<lparr>cl_devman_port := p\<rparr>)
   }"

section \<open>Requests that are answered later\<close>

definition client_queue_request :: "ptr \<Rightarrow> ptr \<Rightarrow> ('w, 'a) client_state_scheme \<Rightarrow> ('w, 'a) client_state_scheme" where
  "client_queue_request d req s =
     (let s = set_conn_request req (\<lambda>r. r\<lparr>cr_next := NULL\<rparr>) s;
          s = (if cc_queue_tail (cl_conns s d) \<noteq> NULL
               then set_conn_request (cc_queue_tail (cl_conns s d)) (\<lambda>r. r\<lparr>cr_next := req\<rparr>) s else s);
          s = set_client_conn d (\<lambda>x. x\<lparr>cc_queue_tail := req\<rparr>) s
      in if cc_queue_head (cl_conns s d) = NULL then set_client_conn d (\<lambda>x. x\<lparr>cc_queue_head := req\<rparr>) s else s)"

text \<open>The address of the connection is the tag of the request.\<close>

definition client_perform_request :: "'w kernel \<Rightarrow> ptr \<Rightarrow> ptr \<Rightarrow> ('w, 'a) client_state_scheme \<Rightarrow> ('w, 'a) client_state_scheme option" where
  "client_perform_request K dev req s = do {
     let s = set_client_conn dev (\<lambda>d. d\<lparr>cc_request := req\<rparr>) s;
     let (msg, s) = new_message s;
     let msg = msg[0 := (case cr_op (cl_requests s req) of READ \<Rightarrow> MSG_DEVICE_READ | WRITE \<Rightarrow> MSG_DEVICE_WRITE),
                   1 := cc_conn_id (cl_conns s dev), 2 := cr_size (cl_requests s req), 3 := dev, 4 := scast (s_async_port s)];
     map_option snd (ipc_port_send K (cc_port (cl_conns s dev)) msg s)
   }"

definition complete_request ::
  "'w kernel \<Rightarrow> (ptr \<Rightarrow> u32 \<Rightarrow> ptr \<Rightarrow> ('w, 'a) client_state_scheme \<Rightarrow> ('w, 'a) client_state_scheme option) \<Rightarrow> ptr \<Rightarrow> u64 list
     \<Rightarrow> ('w, 'a) client_state_scheme \<Rightarrow> ('w, 'a) client_state_scheme option" where
  "complete_request K callback dev msg s = do {
     let req = cc_request (cl_conns s dev);
     let ret = (ucast (msg ! 1) :: u32);
     s \<leftarrow> (if req = NULL then None else Some s);
     let s = (case cr_op (cl_requests s req) of
                READ \<Rightarrow> (if 0 < sint ret
                         then s\<lparr>umem := memcpy (cr_data (cl_requests s req)) (cc_data (cl_conns s dev)) (scast ret) (umem s)\<rparr> else s)
              | WRITE \<Rightarrow> s);
     s \<leftarrow> (if cr_cb (cl_requests s req) \<noteq> NULL then callback (cr_cb (cl_requests s req)) ret (cr_p (cl_requests s req)) s else Some s);
     s \<leftarrow> slab_cache_free CONN_REQ_CACHE req s;
     if cc_queue_head (cl_conns s dev) \<noteq> NULL then do {
       let req = cc_queue_head (cl_conns s dev);
       let s = set_client_conn dev (\<lambda>d. d\<lparr>cc_queue_head := cr_next (cl_requests s req)\<rparr>) s;
       let s = (if cc_queue_head (cl_conns s dev) = NULL then set_client_conn dev (\<lambda>d. d\<lparr>cc_queue_tail := NULL\<rparr>) s else s);
       client_perform_request K dev req s
     }
     else Some (set_client_conn dev (\<lambda>d. d\<lparr>cc_request := NULL\<rparr>) s)
   }"

definition device_read_async ::
  "'w kernel \<Rightarrow> ptr \<Rightarrow> ptr \<Rightarrow> u64 \<Rightarrow> ptr \<Rightarrow> ptr \<Rightarrow> ('w, 'a) client_state_scheme \<Rightarrow> (int \<times> ('w, 'a) client_state_scheme) option" where
  "device_read_async K dev data sz cb p s = do {
     (req, s) \<leftarrow> slab_cache_alloc K CONN_REQ_CACHE s;
     if req = NULL then Some (-1, s)
     else do {
       let s = set_conn_request req (\<lambda>r. r\<lparr>cr_op := READ, cr_data := data, cr_size := sz, cr_cb := cb, cr_p := p\<rparr>) s;
       s \<leftarrow> (if cc_request (cl_conns s dev) \<noteq> NULL then Some (client_queue_request dev req s)
             else client_perform_request K dev req s);
       Some (0, s)
     }
   }"

definition libdevman_client_async_process ::
  "'w kernel \<Rightarrow> (ptr \<Rightarrow> u32 \<Rightarrow> ptr \<Rightarrow> ('w, 'a) client_state_scheme \<Rightarrow> ('w, 'a) client_state_scheme option) \<Rightarrow> u64 list
     \<Rightarrow> ('w, 'a) client_state_scheme \<Rightarrow> (int \<times> ('w, 'a) client_state_scheme) option" where
  "libdevman_client_async_process K callback msg s =
     (if msg ! 0 = MSG_DEVICE_READ_REPLY \<or> msg ! 0 = MSG_DEVICE_WRITE_REPLY then do {
        s \<leftarrow> complete_request K callback (msg ! 2) msg s;
        Some (1, s)
      }
      else Some (0, s))"

definition libdevman_client_async_init :: "u32 \<Rightarrow> ('w, 'a) client_state_scheme \<Rightarrow> int \<times> ('w, 'a) client_state_scheme" where
  "libdevman_client_async_init port s =
     (let s = s\<lparr>s_async_port := port\<rparr>;
          (_, s) = slab_cache_init CONN_REQ_CACHE 48 s
      in (0, s))"

section \<open>What a client sends\<close>

text \<open>
  The contract of the kernel, as far as writing to a device is concerned.  A send returns (\<open>sends_return\<close>), and
  the calls that send and wait leave the memory of the program alone, but for the addresses \<open>Sh\<close>, which it shares
  with other processes.  Nothing is assumed of the device: what it does with a request, and
  what it replies, if anything, is up to the kernel parameter.
\<close>

definition keeps_private :: "ptr set \<Rightarrow> 'w kernel \<Rightarrow> bool" where
  "keeps_private Sh K \<longleftrightarrow> (\<forall>call args m w r out m' w'. call = SYS_ipc_port_send \<or> call = SYS_ipc_port_receive \<longrightarrow>
     K call args m w = Some (r, out, m', w') \<longrightarrow> (\<forall>a. a \<notin> Sh \<longrightarrow> m' a = m a))"

definition bytes_at :: "memory \<Rightarrow> ptr \<Rightarrow> nat \<Rightarrow> u8 list" where
  "bytes_at m p n = map (\<lambda>i. m (p + of_nat i)) [0 ..< n]"

text \<open>
  A kernel that also writes down the requests for data: for every message that was sent, the port, the words that
  say what is asked (the kind, the connection, the size and the port for the reply), and the bytes that are in the shared memory at
  \<open>base\<close> at that moment.  It does what the other one does.
\<close>

type_synonym sent = "syscall_arg \<times> u64 list \<times> u8 list"

definition recording :: "ptr \<Rightarrow> 'w kernel \<Rightarrow> ('w \<times> sent list) kernel" where
  "recording base K call args m w =
     map_option (\<lambda>(r, out, m', w'). (r, out, m', w', snd w @
         (case (call, args) of
            (SYS_ipc_port_send, [port, Msg msg]) \<Rightarrow>
              (if (ucast r :: u32) = 0 then [(port, [msg ! 0, msg ! 1, msg ! 2, msg ! 4], bytes_at m base (unat (msg ! 2)))] else [])
          | _ \<Rightarrow> [])))
       (K call args m (fst w))"

lemma recording_same: "map_option (\<lambda>(r, out, m', w'). (r, out, m', fst w')) (recording base K call args m w) = K call args m (fst w)"
  by (cases "K call args m (fst w)") (auto simp: recording_def)

lemma recording_receive:
  "recording base K SYS_ipc_port_receive args m w = map_option (\<lambda>(r, out, m', w'). (r, out, m', w', snd w)) (K SYS_ipc_port_receive args m (fst w))"
  by (simp add: recording_def)

text \<open>The request to write the bytes \<open>b\<close>, and the pieces of a list.\<close>

definition write_request :: "client_conn \<Rightarrow> u8 list \<Rightarrow> sent" where
  "write_request c b = (of_int_arg (cc_port c), [MSG_DEVICE_WRITE, cc_conn_id c, of_nat (length b), scast (cc_reply c)], b)"

function pieces :: "nat \<Rightarrow> 'a list \<Rightarrow> 'a list list" where
  "pieces n xs = (if xs = [] \<or> n = 0 then [] else take n xs # pieces n (drop n xs))"
  by auto

termination pieces
  by (relation "measure (\<lambda>(n, xs). length xs)") auto

declare pieces.simps [simp del]

lemma pieces_Nil [simp]: "pieces n [] = []"
  by (subst pieces.simps) simp

lemma pieces_first:
  assumes "0 < n" and "xs \<noteq> []" and "length xs = n \<or> length xs \<le> n \<and> ys = []"
  shows "pieces n (xs @ ys) = xs # pieces n ys"
  using assms by (subst pieces.simps) auto

lemma pieces_concat: "0 < n \<Longrightarrow> concat (pieces n xs) = xs"
proof (induction n xs rule: pieces.induct)
  case (1 n xs)
  then show ?case by (subst pieces.simps) simp
qed

lemma length_bytes_at [simp]: "length (bytes_at m p n) = n"
  by (simp add: bytes_at_def)

lemma bytes_at_cong: "(\<And>i. i < n \<Longrightarrow> m (p + of_nat i) = m' (p' + of_nat i)) \<Longrightarrow> bytes_at m p n = bytes_at m' p' n"
  by (simp add: bytes_at_def)

lemma bytes_at_append: "bytes_at m p (j + k) = bytes_at m p j @ bytes_at m (p + of_nat j) k"
proof -
  have "map f [0 ..< j + k] = map f [0 ..< j] @ map (\<lambda>i. f (j + i)) [0 ..< k]" for f :: "nat \<Rightarrow> u8"
    by (induction k) simp_all
  from this [of "\<lambda>i. m (p + of_nat i)"] show ?thesis by (simp add: bytes_at_def add.assoc)
qed

lemma memcpy_user: "Userland.memcpy = CString.memcpy"
  by (intro ext) (simp add: Userland.memcpy_def CString.memcpy_def)

lemma bytes_at_memcpy:
  assumes "\<And>k. k < unat n \<Longrightarrow> \<not> p + of_nat k - d < n"
  shows "bytes_at (memcpy d p n m) d (unat n) = bytes_at m p (unat n)"
proof (rule bytes_at_cong)
  fix i assume i: "i < unat n"
  then have u: "unat (of_nat i :: u64) = i" using unat_below [of n] by (simp add: unat_of_nat)
  then have "d + of_nat i - d < n" using i by (simp add: word_less_nat_alt)
  from memcpy_apart [OF assms this] show "memcpy d p n m (d + of_nat i) = m (p + of_nat i)" by (simp add: memcpy_user)
qed

lemma transfer_write:
  fixes K :: "'w kernel" and s :: "('w \<times> sent list, 'a) client_state_scheme"
  assumes K: "sends_return K" "keeps_private Sh K"
  shows "case transfer (recording (cc_data (cl_conns s dev)) K) MSG_DEVICE_WRITE dev n s of
      None \<Rightarrow> \<exists>m w. K SYS_ipc_port_receive [of_int_arg (cc_reply (cl_conns s dev)), Out, Num 0] m w = None
    | Some (ok, s') \<Rightarrow> cl_conns s' = cl_conns s \<and> (\<forall>a. a \<notin> Sh \<longrightarrow> umem s' a = umem s a)
        \<and> (snd (world s') = snd (world s) @ [write_request (cl_conns s dev) (bytes_at (umem s) (cc_data (cl_conns s dev)) (unat n))]
           \<or> \<not> ok \<and> snd (world s') = snd (world s))"
proof -
  let ?c = "cl_conns s dev" and ?base = "cc_data (cl_conns s dev)"
  let ?R = "recording ?base K"
  obtain old s0 where new: "new_message s = (old, s0)" by fastforce
  obtain rep s1 where new1: "new_message s0 = (rep, s1)" by fastforce
  have s0: "s0 = s\<lparr>stack := stack s0\<rparr>" and len: "length old = 6" using new_message_eq [OF new] by simp_all
  have s1: "s1 = s0\<lparr>stack := stack s1\<rparr>" using new_message_eq [OF new1] by simp
  have c0: "cl_conns s0 = cl_conns s" by (subst s0) simp
  have c1: "cl_conns s1 = cl_conns s" "umem s1 = umem s" "world s1 = world s"
    using arg_cong [OF s1, of cl_conns] arg_cong [OF s1, of umem] arg_cong [OF s1, of world]
      arg_cong [OF s0, of cl_conns] arg_cong [OF s0, of umem] arg_cong [OF s0, of world] by simp_all
  define msg where "msg = old[0 := MSG_DEVICE_WRITE, 1 := cc_conn_id ?c, 2 := n, 4 := scast (cc_reply ?c)]"
  have msg: "msg ! 0 = MSG_DEVICE_WRITE" "msg ! 1 = cc_conn_id ?c" "msg ! 2 = n" "msg ! 4 = scast (cc_reply ?c)"
    using len by (simp_all add: msg_def)
  obtain r out m1 w1 where send: "K SYS_ipc_port_send [of_int_arg (cc_port ?c), Msg msg] (umem s) (fst (world s)) = Some (r, out, m1, w1)"
    using K(1) unfolding sends_return_def by (metis option.exhaust prod_cases4)
  define lg where "lg = (if (ucast r :: u32) = 0 then snd (world s) @ [write_request ?c (bytes_at (umem s) ?base (unat n))] else snd (world s))"
  have m1: "m1 a = umem s a" if "a \<notin> Sh" for a using K(2) send that unfolding keeps_private_def by blast
  have "?R SYS_ipc_port_send [of_int_arg (cc_port ?c), Msg msg] (umem s) (world s) = Some (r, out, m1, w1, lg)"
    using send by (simp add: recording_def msg msg(2) [unfolded One_nat_def] lg_def write_request_def)
  then have sent: "ipc_port_send ?R (cc_port ?c) msg s1 = Some (ucast r, s1\<lparr>umem := m1, world := (w1, lg)\<rparr>)"
    by (simp add: ipc_port_send_def syscall2_def int80_def int_result_def c1)
  show ?thesis
  proof (cases "(ucast r :: u32) = 0")
    case False
    then have "transfer ?R MSG_DEVICE_WRITE dev n s = Some (False, s1\<lparr>umem := m1, world := (w1, lg)\<rparr>)"
      using sent by (simp add: transfer_def new new1 c0 c1 Let_def msg_def [simplified, symmetric])
    then show ?thesis using False m1 by (simp add: c1 lg_def)
  next
    case True
    have lg: "lg = snd (world s) @ [write_request ?c (bytes_at (umem s) ?base (unat n))]" using True by (simp add: lg_def)
    show ?thesis
    proof (cases "K SYS_ipc_port_receive [of_int_arg (cc_reply ?c), Out, Num 0] m1 w1")
      case None
      then have "ipc_port_receive ?R (cc_reply ?c) rep (s1\<lparr>umem := m1, world := (w1, lg)\<rparr>) = None"
        by (simp add: ipc_port_receive_def syscall3_def int80_def recording_receive)
      then have "transfer ?R MSG_DEVICE_WRITE dev n s = None"
        using sent True by (simp add: transfer_def new new1 c0 c1 Let_def msg_def [simplified, symmetric])
      then show ?thesis using None by auto
    next
      case (Some res)
      obtain r' out' m2 w2 where res: "res = (r', out', m2, w2)" by (cases res)
      let ?s = "s1\<lparr>umem := m2, world := (w2, lg)\<rparr>"
      have m2: "m2 a = umem s a" if "a \<notin> Sh" for a
        using K(2) Some m1 [OF that] that unfolding keeps_private_def res by metis
      have "ipc_port_receive ?R (cc_reply ?c) rep (s1\<lparr>umem := m1, world := (w1, lg)\<rparr>) = Some (ucast r', stored_message rep out', ?s)"
        using Some by (simp add: ipc_port_receive_def syscall3_def int80_def recording_receive res)
      then have "transfer ?R MSG_DEVICE_WRITE dev n s = Some ((ucast r' :: u32) = 0, ?s)"
        using sent True by (simp add: transfer_def new new1 c0 c1 Let_def msg_def [simplified, symmetric])
      then show ?thesis using m2 by (simp add: c1 lg)
    qed
  qed
qed

section \<open>Properties\<close>


section \<open>Witness\<close>

text \<open>
  A kernel whose devices answer every request at once, and a client with two bytes of shared memory that has five
  bytes for one.
\<close>

definition sample_replies :: "unit kernel" where
  "sample_replies call args m w =
     (case call of SYS_ipc_port_receive \<Rightarrow> Some (0, [[MSG_DEVICE_WRITE_REPLY, 0, 0, 0, 0, 0]], m, w) | _ \<Rightarrow> Some (0, [], m, w))"

definition sample_client :: "(unit \<times> sent list) client_state" where
  "sample_client = \<lparr>world = ((), []), umem = (\<lambda>a. ucast a), stack = (\<lambda>_. 0), port_log = [], port_device = (\<lambda>_ _. 0),
     uslabs = (\<lambda>_. \<lparr>us_next = NULL, us_cache = NULL, us_base = NULL, us_free_list = NULL, us_free_count = 0\<rparr>), ubufs = (\<lambda>_. NULL),
     ucaches = (\<lambda>_. \<lparr>uc_slab_size = 0, uc_obj_size = 0, uc_per_slab = 0, uc_full = NULL, uc_partial = NULL\<rparr>),
     ubuckets = (\<lambda>_ _. NULL), uhnext = (\<lambda>_. NULL),
     dv_devices = (\<lambda>_. \<lparr>dv_id = 0, dv_request = NULL, dv_queue_head = NULL, dv_queue_tail = NULL, dv_ops = NULL, dv_data = NULL\<rparr>),
     dv_requests = (\<lambda>_. \<lparr>rq_dev = NULL, rq_op = WRITE, rq_port = 0, rq_data = NULL, rq_size = 0, rq_p = 0, rq_next = NULL\<rparr>),
     dv_conns = (\<lambda>_. \<lparr>cn_shmem = 0, cn_size = 0, cn_data = NULL, cn_dev = NULL\<rparr>), s_local_port = 5, s_devman_port = 1, s_next_id = 1,
     s_dev_table = \<lparr>ht_table = NULL, ht_size = 0, ht_items = 0, ht_hash = (\<lambda>_. 0), ht_compare = (=)\<rparr>,
     cl_conns = (\<lambda>_. \<lparr>cc_port = 7, cc_reply = 8, cc_shmem = 0, cc_data = 0x9000, cc_size = 2, cc_conn_id = 9,
       cc_request = NULL, cc_queue_head = NULL, cc_queue_tail = NULL\<rparr>),
     cl_requests = (\<lambda>_. \<lparr>cr_op = READ, cr_data = NULL, cr_size = 0, cr_cb = NULL, cr_p = NULL, cr_next = NULL\<rparr>),
     cl_devman_port = 1, s_async_port = 5\<rparr>"

lemma sample_transfer: "\<exists>s'. transfer (recording base sample_replies) kind dev n s = Some (True, s') \<and> cl_conns s' = cl_conns s"
  by (auto simp: transfer_def new_message_def ipc_port_send_def ipc_port_receive_def syscall2_def syscall3_def int80_def int_result_def
      recording_def sample_replies_def Let_def)

lemma sample_write: "cc_size (cl_conns s dev) = 2 \<Longrightarrow> n \<noteq> 0 \<Longrightarrow>
  \<exists>s'. device_write (recording base sample_replies) dev p n s = device_write (recording base sample_replies) dev (p + (if n < 2 then n else 2)) (n - (if n < 2 then n else 2)) s'
    \<and> cc_size (cl_conns s' dev) = 2"
proof -
  assume sz: "cc_size (cl_conns s dev) = 2" and n: "n \<noteq> 0"
  let ?j = "if n < 2 then n else 2"
  let ?s = "s\<lparr>umem := memcpy (cc_data (cl_conns s dev)) p ?j (umem s)\<rparr>"
  obtain s' where s': "transfer (recording base sample_replies) MSG_DEVICE_WRITE dev ?j ?s = Some (True, s')" "cl_conns s' = cl_conns ?s"
    using sample_transfer by blast
  have "device_write (recording base sample_replies) dev p n s = device_write (recording base sample_replies) dev (p + ?j) (n - ?j) s'"
    using s'(1) n by (subst device_write.simps) (cases "n < 2"; simp add: sz Let_def)
  then show ?thesis using s'(2) sz by (intro exI [of _ s']) simp
qed

lemma sample_write_returns: "\<exists>s'. device_write (recording 0x9000 sample_replies) 16 0x1000 5 sample_client = Some (0, s')"
proof -
  let ?w = "device_write (recording 0x9000 sample_replies) 16"
  have c: "cc_size (cl_conns sample_client 16) = 2" by (simp add: sample_client_def)
  obtain s1 where 1: "?w 0x1000 5 sample_client = ?w 0x1002 3 s1" "cc_size (cl_conns s1 16) = 2" using sample_write [OF c, where n = 5 and p = "0x1000" and base = "0x9000"] by auto
  obtain s2 where 2: "?w 0x1002 3 s1 = ?w 0x1004 1 s2" "cc_size (cl_conns s2 16) = 2" using sample_write [OF 1(2), where n = 3 and p = "0x1002" and base = "0x9000"] by auto
  obtain s3 where "?w 0x1004 1 s2 = ?w 0x1005 0 s3" using sample_write [OF 2(2), where n = 1 and p = "0x1004" and base = "0x9000"] by auto
  moreover have "?w 0x1005 0 s3 = Some (0, s3)" by (subst device_write.simps) simp
  ultimately show ?thesis using 1(1) 2(1) by simp
qed


end
