(* ===== verification/Terminal.thy ===== *)
theory Terminal
  imports DevClient
begin

text \<open>
  The terminal server (\<^verbatim>\<open>servers/terminal\<close>): it reads the keyboard, hands the characters to the pseudo terminal
  that is active, and shows what is written to a pseudo terminal on the screen.  It is a client of the keyboard
  and the screen and the server of the pseudo terminals.  Variables that others write through pointers are bytes
  of memory, at addresses the linker chose.
\<close>

section \<open>Data\<close>

record 'w terminal_state = "'w client_state" +
  s_active_pty :: ptr
  s_last_keycode :: u8
  keycode_at :: ptr
  printf_buf :: ptr

abbreviation (input) S_SCREEN :: ptr where "S_SCREEN \<equiv> 41"
abbreviation (input) S_INPUT :: ptr where "S_INPUT \<equiv> 42"
abbreviation (input) PTY_CACHE :: ptr where "PTY_CACHE \<equiv> 43"
abbreviation (input) PTY_OPS :: ptr where "PTY_OPS \<equiv> 44"
abbreviation (input) INPUT_READ_CB :: ptr where "INPUT_READ_CB \<equiv> 45"

section \<open>Pseudo terminals\<close>

text \<open>A read waits for input; a write is shown on the screen before it is finished.\<close>

definition pty_read :: "ptr \<Rightarrow> ptr \<Rightarrow> ('w, 'a) terminal_state_scheme \<Rightarrow> ('w, 'a) terminal_state_scheme option" where
  "pty_read dev req s = Some s"

definition pty_write ::
  "'w kernel \<Rightarrow> (ptr \<Rightarrow> ptr \<Rightarrow> ('w, 'a) terminal_state_scheme \<Rightarrow> ('w, 'a) terminal_state_scheme option) \<Rightarrow> ptr \<Rightarrow> ptr
     \<Rightarrow> ('w, 'a) terminal_state_scheme \<Rightarrow> ('w, 'a) terminal_state_scheme option" where
  "pty_write K perform dev req s = do {
     (_, s) \<leftarrow> device_write K S_SCREEN (rq_data (dv_requests s req)) (rq_size (dv_requests s req)) s;
     device_request_finished K perform req 0 s
   }"

lemma pty_write_mono [partial_function_mono]:
  assumes "\<And>d r s. mono_option (\<lambda>f. perform f d r s)"
  shows "mono_option (\<lambda>f. pty_write K (perform f) d req s)"
  unfolding pty_write_def case_prod_beta by (intro partial_function_mono bind_mono option.const_mono assms)

text \<open>The operations \<^verbatim>\<open>s_pty_ops\<close>, in the library's \<^verbatim>\<open>perform_request\<close>.\<close>

partial_function (option) pty_perform :: "'w kernel \<Rightarrow> ptr \<Rightarrow> ptr \<Rightarrow> ('w, 'a) terminal_state_scheme \<Rightarrow> ('w, 'a) terminal_state_scheme option" where
  "pty_perform K d req s = perform_request (Some pty_read) (Some (pty_write K (pty_perform K))) d req s"

definition pty_input_available :: "'w kernel \<Rightarrow> u8 \<Rightarrow> ('w, 'a) terminal_state_scheme \<Rightarrow> ('w, 'a) terminal_state_scheme option" where
  "pty_input_available K c s =
     (if s_active_pty s = NULL \<or> dv_request (dv_devices s (s_active_pty s)) = NULL then Some s
      else
        let req = dv_request (dv_devices s (s_active_pty s));
            s = s\<lparr>umem := (umem s)(rq_data (dv_requests s req) := c)\<rparr>
        in device_request_finished K (pty_perform K) req 1 s)"

text \<open>A device that could not be announced is the word the stack held.\<close>

definition pty_create_device :: "'w kernel \<Rightarrow> ('w, 'a) terminal_state_scheme \<Rightarrow> (ptr \<times> ('w, 'a) terminal_state_scheme) option" where
  "pty_create_device K s = do {
     (pty, s) \<leftarrow> slab_cache_alloc K PTY_CACHE s;
     if pty = NULL then Some (NULL, s)
     else do {
       (_, dev, s) \<leftarrow> device_announce K (type_code PTY) PTY_OPS pty s;
       let dev = (case dev of Some d \<Rightarrow> d | None \<Rightarrow> stack s 0);
       let s = (if s_active_pty s = NULL then s\<lparr>s_active_pty := dev\<rparr> else s);
       Some (dev, s)
     }
   }"

definition init_pty :: "('w, 'a) terminal_state_scheme \<Rightarrow> ('w, 'a) terminal_state_scheme" where
  "init_pty s = snd (slab_cache_init PTY_CACHE 4 s)"

section \<open>The keyboard\<close>

definition s_keymap :: "u8 list" where
  "s_keymap =
    [0, 27, 49, 50, 51, 52, 53, 54, 55, 56,
     57, 48, 45, 61, 8, 7, 113, 119, 101, 114,
     116, 121, 117, 105, 111, 112, 91, 93, 0, 0,
     97, 115, 100, 102, 103, 104, 106, 107, 108, 59,
     39, 96, 0, 92, 122, 120, 99, 118, 98, 110,
     109, 44, 46, 47, 0, 42, 0, 32, 0, 0,
     0, 0, 0, 0, 0, 0, 0, 0, 0, 0,
     0, 0, 0, 0, 45, 0, 0, 0, 43, 0,
     0, 0, 0, 0, 0, 0, 0, 0, 0, 0,
     0, 0, 0, 0, 0, 0, 0, 0, 0, 0,
     0, 0, 0, 0, 0, 0, 0, 0, 0, 0,
     0, 0, 0, 0, 0, 0, 0, 0, 0, 0,
     0, 0, 0, 0, 0, 0, 0, 0]"

definition input_read_cb :: "'w kernel \<Rightarrow> u32 \<Rightarrow> ptr \<Rightarrow> ('w, 'a) terminal_state_scheme \<Rightarrow> ('w, 'a) terminal_state_scheme option" where
  "input_read_cb K ret p s = do {
     let keycode = umem s (keycode_at s);
     let up = keycode AND 0x80;
     s \<leftarrow> (if s_last_keycode s = 0xe0 then Some s
           else let c = s_keymap ! unat (keycode AND 0x7f) in
             if up = 0 then pty_input_available K c s else Some s);
     let s = s\<lparr>s_last_keycode := umem s (keycode_at s)\<rparr>;
     map_option snd (device_read_async K S_INPUT (keycode_at s) 1 INPUT_READ_CB NULL s)
   }"

definition terminal_callback :: "'w kernel \<Rightarrow> ptr \<Rightarrow> u32 \<Rightarrow> ptr \<Rightarrow> ('w, 'a) terminal_state_scheme \<Rightarrow> ('w, 'a) terminal_state_scheme option" where
  "terminal_callback K cb ret p s = (if cb = INPUT_READ_CB then input_read_cb K ret p s else None)"

text \<open>What an uninitialised \<^verbatim>\<open>struct device_info\<close> holds.\<close>

definition stack_info :: "('w, 'a) terminal_state_scheme \<Rightarrow> device_info" where
  "stack_info s = \<lparr>di_port = ucast (stack s 0), di_id = ucast (stack s 1)\<rparr>"

definition init_input :: "'w kernel \<Rightarrow> ('w, 'a) terminal_state_scheme \<Rightarrow> (int \<times> ('w, 'a) terminal_state_scheme) option" where
  "init_input K s = do {
     (r, info, s) \<leftarrow> device_lookup K (type_code INPUT) 1 (stack_info s) s;
     if r \<noteq> 0 then Some (-1, s)
     else do {
       (r, s) \<leftarrow> device_open K S_INPUT info s;
       if r \<noteq> 0 then Some (-1, s)
       else do {
         (_, s) \<leftarrow> device_read_async K S_INPUT (keycode_at s) 1 INPUT_READ_CB NULL s;
         Some (0, s)
       }
     }
   }"

section \<open>The screen\<close>

definition screen_printf :: "'w kernel \<Rightarrow> u8 list \<Rightarrow> vararg list \<Rightarrow> ('w, 'a) terminal_state_scheme \<Rightarrow> ('w, 'a) terminal_state_scheme option" where
  "screen_printf K fmt args s = do {
     let buf = printf_buf s;
     (r, b) \<leftarrow> vsnprintf (\<lambda>i. umem s (buf + of_int i)) 512 fmt args;
     let s = s\<lparr>umem := (\<lambda>a. if a - buf < 512 then b (uint (a - buf)) else umem s a)\<rparr>;
     map_option snd (device_write K S_SCREEN buf (scast r) s)
   }"

definition init_screen :: "'w kernel \<Rightarrow> ('w, 'a) terminal_state_scheme \<Rightarrow> (int \<times> ('w, 'a) terminal_state_scheme) option" where
  "init_screen K s = do {
     (r, info, s) \<leftarrow> device_lookup K (type_code SCREEN) 1 (stack_info s) s;
     if r \<noteq> 0 then Some (-1, s)
     else do {
       (r, s) \<leftarrow> device_open K S_SCREEN info s;
       if r \<noteq> 0 then Some (-1, s)
       else do {
         (ps, s) \<leftarrow> mm_get_phys_stat K \<lparr>ps_memory_size = stack s 0, ps_used_size = stack s 1\<rparr> s;
         s \<leftarrow> screen_printf K (chars ''System memory: %llu bytes'' @ [10]) [Word (ps_memory_size ps)] s;
         s \<leftarrow> screen_printf K (chars ''Used memory: %llu bytes'' @ [10]) [Word (ps_used_size ps)] s;
         (number, s) \<leftarrow> thread_get_statistics K (stack s 0) s;
         s \<leftarrow> screen_printf K (chars ''Number of threads: %llu'' @ [10]) [Word number] s;
         Some (0, s)
       }
     }
   }"

section \<open>The main program\<close>

definition do_create :: "'w kernel \<Rightarrow> u64 list \<Rightarrow> ('w, 'a) terminal_state_scheme \<Rightarrow> ('w, 'a) terminal_state_scheme option" where
  "do_create K msg s = do {
     (dev, s) \<leftarrow> pty_create_device K s;
     let (rep, s) = new_message s;
     let rep = (if dev \<noteq> NULL
                then rep[0 := 0, 1 := scast (libdevman_server_get_port s), 2 := scast (dv_id (dv_devices s dev))]
                else rep[0 := -1]);
     map_option snd (ipc_port_send K (ucast (msg ! 1)) rep s)
   }"

definition terminal_handler :: "'w kernel \<Rightarrow> u64 list \<Rightarrow> ('w, 'a) terminal_state_scheme \<Rightarrow> ('w, 'a) terminal_state_scheme option" where
  "terminal_handler K msg s =
     (if msg ! 0 = MSG_TERMINAL_CREATE then do_create K msg s
      else map_option snd (libdevman_client_async_process K (terminal_callback K) msg s))"

definition terminal_main :: "'w kernel \<Rightarrow> ('w, 'a) terminal_state_scheme \<Rightarrow> (int \<times> ('w, 'a) terminal_state_scheme) option" where
  "terminal_main K s = do {
     (_, s) \<leftarrow> libdevman_server_init K s;
     (_, s) \<leftarrow> libdevman_client_init K s;
     let (_, s) = libdevman_client_async_init (libdevman_server_get_port s) s;
     (_, s) \<leftarrow> init_screen K s;
     (_, s) \<leftarrow> init_input K s;
     let s = init_pty s;
     (_, s) \<leftarrow> ipc_server_register K (chars ''terminal'') (libdevman_server_get_port s) s;
     (_, s) \<leftarrow> libdevman_server_run K None (pty_perform K) (Some (terminal_handler K)) s;
     Some (0, s)
   }"

end
