(* ===== verification/Init.thy ===== *)
theory Init
  imports DevClient
begin

text \<open>
  The first application (\<^verbatim>\<open>apps/init\<close>): it asks the terminal for a pseudo terminal, greets on it and then writes
  back every character it reads.  The loop has no end, so neither it nor the program has a result.
\<close>

text \<open>Where the program keeps its greeting, the connection and the character.\<close>

record 'w init_state = "'w client_state" +
  hello_at :: ptr
  conn_at :: ptr
  char_at :: ptr

partial_function (option) echo_loop :: "'w kernel \<Rightarrow> ('w, 'a) init_state_scheme \<Rightarrow> (int \<times> ('w, 'a) init_state_scheme) option" where
  "echo_loop K s = do {
     (_, s) \<leftarrow> device_read K (conn_at s) (char_at s) 1 s;
     (_, s) \<leftarrow> device_write K (conn_at s) (char_at s) 1 s;
     echo_loop K s
   }"

definition init_main :: "'w kernel \<Rightarrow> ('w, 'a) init_state_scheme \<Rightarrow> (int \<times> ('w, 'a) init_state_scheme) option" where
  "init_main K s = do {
     (_, s) \<leftarrow> libdevman_client_init K s;
     (term, s) \<leftarrow> ipc_server_lookup K (chars ''terminal'') 1 s;
     (p, s) \<leftarrow> ipc_port_create K s;
     let (msg, s) = new_message s;
     let msg = msg[0 := MSG_TERMINAL_CREATE, 1 := scast p];
     (_, s) \<leftarrow> ipc_port_send K term msg s;
     let (rep, s) = new_message s;
     (_, rep, s) \<leftarrow> ipc_port_receive K p rep s;
     if rep ! 0 \<noteq> 0 then Some (-1, s)
     else do {
       let info = \<lparr>di_port = ucast (rep ! 1), di_id = ucast (rep ! 2)\<rparr>;
       (_, s) \<leftarrow> device_open K (conn_at s) info s;
       (_, s) \<leftarrow> device_write K (conn_at s) (hello_at s) 15 s;
       echo_loop K s
     }
   }"

end
