(* ===== verification/Spec2Isabelle.thy ===== *)
theory Spec2Isabelle
  imports Prelude HeapList Spinlock MemMap Pmm Slab Hashtable Pic ThreadQueue Irq Descriptors Objects Allocation Thread
    Mutex Paging EntryOwners Vmm CString UserCopy Tables Process Sections Switching Port Mailbox Server Shmem
    Printf Console Dispatch Elf Start Userland Support UserPool Devman DevServer Ps2 ScreenDriver DevClient
    Terminal Init
begin

text \<open>
  Urubu is a small microkernel for the PC (amd64) with a few user programs around it.  The paths below are
  relative to \<^verbatim>\<open>src/source/\<close>.  The kernel (\<^verbatim>\<open>kernel/\<close>) manages physical memory, address spaces, threads and
  processes, and offers user programs ports with messages, names of servers, shared memory, and hardware
  interrupts turned into messages.  Everything else (drivers, the device manager, the terminal) is a program
  that talks over ports, with the libraries of \<^verbatim>\<open>lib/\<close>.

  How the parts interact.  The boot code leaves physical memory to \<^verbatim>\<open>mm/pmm.c\<close>; every page is handed out there.
  \<^verbatim>\<open>mm/slab.c\<close> cuts pages into objects, the hash tables, threads, processes, ports and so on are made of such
  objects.  The scheduler (\<^verbatim>\<open>proc/sched.c\<close>, \<^verbatim>\<open>proc/thread.c\<close>) switches between threads at timer interrupts and
  when a thread has to wait; mutexes, ports and names of servers put threads into queues and wake them up.  Each
  process has page tables (\<^verbatim>\<open>arch/amd64/src/mm/vmm.c\<close>) and a map of its free regions (\<^verbatim>\<open>mm/vmm.c\<close>, \<^verbatim>\<open>mm/map.c\<close>).
  Interrupts and system calls enter through \<^verbatim>\<open>arch/amd64/src/cpu/irq.c\<close> and \<^verbatim>\<open>arch/amd64/src/syscall.c\<close>.

  The form of the model.  The state of the kernel is a chain of records, one for each component, and an
  operation works on the record of its component and everything that extends it, so the components compose as
  the code does.  Structures that the code links by pointers are typed heaps: functions from the address to
  the record of the structure, one for each type, with NULL as the address 0.  Raw memory is a function from
  the address to the byte.  Integers have the width they have in the code, where their overflow can matter;
  counters of objects are natural numbers.  An operation that may not come back returns an option: None
  stands for panic, a fault of the processor (a division by zero, an access through NULL that the code does not
  exclude) or an endless loop.  An operation that can put the caller to sleep returns whether it is done or has
  blocked, in the state after the switch to another thread; when the thread runs again it makes the next turn
  of the loop of the operation.  Loops over linked structures are partial functions, so that the theorems
  which give their result also say that they end; counted loops are structural recursions.  There is no fuel.
  The theorems that say what an operation returns therefore always say that it returns.

  User programs are a second chain of records: the rest of the system, the memory of the program, the words that
  uninitialised variables on its stack hold (\<^verbatim>\<open>stack\<close>), the ports, then the variables of its libraries and its own.
  A system call is the parameter \<^verbatim>\<open>K\<close>, which may change the memory, since pages are shared.  What a theorem needs
  of the kernel is a hypothesis about \<^verbatim>\<open>K\<close> (\<^verbatim>\<open>sends_return\<close>, \<^verbatim>\<open>grants_pages\<close>, \<^verbatim>\<open>keeps_private\<close>), and its instance uses a
  kernel that satisfies it; nothing is assumed of other programs.  What a client asks of a device is seen by a kernel
  that also writes down the requests (\<^verbatim>\<open>recording\<close>).

  The theories, from the bottom up:

    Prelude, HeapList: machine words, pages, sequencing with options; lists linked through a heap.
    Spinlock: \<^verbatim>\<open>sync/spinlock.c\<close>, \<^verbatim>\<open>cpu/atomic.c\<close>: lock words, the interrupt flag, and that sections restore it.
    MemMap: \<^verbatim>\<open>mm/map.c\<close>, with the set of free addresses as the abstract view of the sorted list.
    Pmm: \<^verbatim>\<open>mm/pmm.c\<close>, \<^verbatim>\<open>arch/amd64/src/mm/pmm.c\<close>: the stack of free pages, the free map at boot.
    Slab, Objects: \<^verbatim>\<open>mm/slab.c\<close>; Objects restates the allocator for its clients, who only see live objects.  Pages are
      accounted for exactly: as many are taken off the stack as are in use or in slabs, so a page that an error path
      forgets to give back shows.
    Allocation: the runs of both allocators, any sequence of their operations, and that objects never overlap.
    Hashtable, Tables: \<^verbatim>\<open>lib/hashtable.c\<close> as a map from keys to stacks of items; its use for tables of objects.
    Pic, Irq, Descriptors: interrupt controllers, the table of handlers, the descriptor tables of the processor.
    ThreadQueue, Thread, Mutex: FIFO queues, scheduling with threads that start, sleep, wake up and exit, and
      mutexes as a transition system of many threads.  \<^verbatim>\<open>mutex_unlock\<close> is two steps there, because interrupts are on
      before it wakes the first waiter up.
    Paging, EntryOwners, Vmm: page tables and the page walk, allocators of map entries, regions of processes.
    CString, UserCopy, Elf: memory and string functions, writing into another address space, the program loader.
    Process, Sections, Switching, Port, Mailbox: processes; ports and messages, and their abstract view as a
      map from port numbers to queues of messages that the operations refine.
    Server, Shmem: names of servers, shared memory.
    Printf, Console, Dispatch, Start: printing, the consoles, the ways into the kernel, the start of the system.
    Userland: the C library of user programs (\<^verbatim>\<open>lib/c\<close>), over the kernel as a parameter.
    Support, UserPool: \<^verbatim>\<open>lib/support\<close>, the hash tables and the slab allocator of user programs, and the contract of
      that allocator; that the kernel grants fresh pages is its hypothesis (\<^verbatim>\<open>grants_pages\<close>).
    Devman: \<^verbatim>\<open>servers/devman\<close>, the directory of devices and of the clients that wait for one.
    DevServer, DevClient: \<^verbatim>\<open>lib/devman\<close>, the two sides of a device.  A server keeps a queue of requests for each
      device; it calls the driver, and the driver calls it, so what performs a request is an argument, and a
      driver ties the knot as a partial function.  A client reads and writes through shared memory, in pieces.
    Ps2, ScreenDriver, Terminal, Init: \<^verbatim>\<open>drivers/input/ps2\<close>, \<^verbatim>\<open>drivers/video/screen\<close>, \<^verbatim>\<open>servers/terminal\<close>, \<^verbatim>\<open>apps/init\<close>.

  Each theory has the data and operations of its source files first, in their order, then the invariant of
  the component, the lemmas that say what each operation does to it, and last the properties, each with an
  instance at a concrete state.  The interfaces between components are locales (the allocator of map entries,
  the queue of waiting threads, the table of objects, the channel that keeps the order), interpreted on the
  operations of the model.  Lemma collections (op_simps, page_simps and others) carry the simplification.

  An assumption about physical memory.  A page counts as usable when it lies below the size of the physical map, as
  \<^verbatim>\<open>vmm_provide_phys\<close> tests it, and its bytes can then be read and written.  The boot code maps the first gigabyte
  only, and the loop of \<^verbatim>\<open>vmm_arch_init\<close> that should map the rest is empty, so this holds of machines with up to 1 GB of memory.

  Not modelled: the assembly entry code (\<^verbatim>\<open>start.S\<close>, \<^verbatim>\<open>isr.S\<close>, \<^verbatim>\<open>gdt.S\<close> in \<^verbatim>\<open>kernel/arch/amd64/src/asm/\<close>, \<^verbatim>\<open>lib/crt0\<close>), whose effect on
  registers is stated with the operations that rely on it; the text of the kernel's own debug output, except
  where printing is the purpose; the names of locks; concurrency of several processors, which the kernel does
  not start.  What comes from outside, the multiboot information, the bytes devices answer on ports, what user
  programs pass and, for the user programs, the kernel, is a parameter.
\<close>

end
